(* ===== verification/Gw_Prelude.thy ===== *)
theory Gw_Prelude
  imports Main "HOL-Library.Word"
begin

text \<open>
  Shared vocabulary of the development: the machine types of the target (a 32-bit
  Cortex-M7), the two ways an execution can end without a value, the byte-addressed
  memory with its block read and write, the C idiom of copying a block into an array,
  and the lemma collections that the component theories extend.
\<close>

unbundle bit_operations_syntax

section \<open>Machine types\<close>

type_synonym u8 = "8 word"
type_synonym u16 = "16 word"
type_synonym u32 = "32 word"
type_synonym u64 = "64 word"
type_synonym i8 = "8 word"

text \<open>
  \<open>DevAssertFailed\<close> is the endless loop of \<open>DevAssert\<close> (RTD) and
  \<open>configASSERT\<close> (FreeRTOS) when the condition is false; \<open>OutOfBounds\<close> is an array
  access outside the array, which C leaves undefined; \<open>NoExit\<close> is a loop of the source that
  does not leave within the number of rounds a well-formed state allows. An operation that
  returns has the value \<open>Inr\<close>.
\<close>

datatype fault = DevAssertFailed | OutOfBounds | NoExit

type_synonym 'a res = "fault + 'a"

fun rbind :: "'a res \<Rightarrow> ('a \<Rightarrow> 'b res) \<Rightarrow> 'b res" where
  "rbind (Inl e) f = Inl e"
| "rbind (Inr x) f = f x"

lemma rbind_Inr_iff: "rbind r f = Inr y \<longleftrightarrow> (\<exists>x. r = Inr x \<and> f x = Inr y)"
  by (cases r) auto

definition dev_assert :: "bool \<Rightarrow> 'a res \<Rightarrow> 'a res" where
  "dev_assert c r = (if c then r else Inl DevAssertFailed)"

lemma dev_assert_simps [simp]:
  "dev_assert True r = r" "dev_assert False r = Inl DevAssertFailed"
  by (simp_all add: dev_assert_def)

lemma dev_assert_Inr_iff: "dev_assert c r = Inr y \<longleftrightarrow> c \<and> r = Inr y"
  by (simp add: dev_assert_def)

named_theorems mask_simps \<open>bit masks and shifts used by the register-level code\<close>
named_theorems step_defs \<open>definitions unfolded when an operation is executed\<close>

section \<open>Byte-addressed memory\<close>

type_synonym mem = "u32 \<Rightarrow> u8"

fun mem_write :: "u32 \<Rightarrow> u8 list \<Rightarrow> mem \<Rightarrow> mem" where
  "mem_write a [] m = m"
| "mem_write a (b # bs) m = mem_write (a + 1) bs (m(a := b))"

fun mem_read :: "mem \<Rightarrow> u32 \<Rightarrow> nat \<Rightarrow> u8 list" where
  "mem_read m a 0 = []"
| "mem_read m a (Suc n) = m a # mem_read m (a + 1) n"

lemma length_mem_read [simp]: "length (mem_read m a n) = n"
  by (induction n arbitrary: a) auto

lemma mem_read_add: "mem_read m a (k + n) = mem_read m a k @ mem_read m (a + of_nat k) n"
  by (induction k arbitrary: a) (auto simp: algebra_simps)

lemma mem_write_append:
  "mem_write a (xs @ ys) m = mem_write (a + of_nat (length xs)) ys (mem_write a xs m)"
  by (induction xs arbitrary: a m) (auto simp: algebra_simps)

text \<open>An address is outside a block when its distance from the start is not below the length.\<close>

lemma mem_write_other:
  "length bs \<le> unat (x - a) \<Longrightarrow> mem_write a bs m x = m x"
proof (induction bs arbitrary: a m)
  case Nil
  then show ?case by simp
next
  case (Cons b bs)
  then have ne: "x \<noteq> a" by auto
  have "unat (x - (a + 1)) = unat (x - a) - 1"
  proof -
    have "x - a \<noteq> 0" using ne by simp
    then have "unat (x - a - 1) = unat (x - a) - 1" by (rule unat_minus_one)
    then show ?thesis by (simp add: algebra_simps)
  qed
  with Cons.prems have "length bs \<le> unat (x - (a + 1))" by simp
  then have "mem_write (a + 1) bs (m(a := b)) x = (m(a := b)) x" by (rule Cons.IH)
  with ne show ?case by simp
qed

lemma mem_read_cong:
  "(\<And>i. i < n \<Longrightarrow> m (a + of_nat i) = m' (a + of_nat i)) \<Longrightarrow> mem_read m a n = mem_read m' a n"
proof (induction n arbitrary: a)
  case 0
  then show ?case by simp
next
  case (Suc n)
  have "m a = m' a" using Suc.prems [of 0] by simp
  moreover have "mem_read m (a + 1) n = mem_read m' (a + 1) n"
  proof (rule Suc.IH)
    fix i assume "i < n"
    then show "m (a + 1 + of_nat i) = m' (a + 1 + of_nat i)"
      using Suc.prems [of "Suc i"] by (simp add: algebra_simps)
  qed
  ultimately show ?case by simp
qed

lemma unat_of_nat_u32: "i < 2 ^ 32 \<Longrightarrow> unat (of_nat i :: u32) = i"
  by (simp add: unat_of_nat take_bit_nat_eq_self)

lemma mem_read_write_same:
  "length bs < 2 ^ 32 \<Longrightarrow> mem_read (mem_write a bs m) a (length bs) = bs"
proof (induction bs arbitrary: a m)
  case Nil
  then show ?case by simp
next
  case (Cons b bs)
  have "unat (a - (a + 1)) = 2 ^ 32 - 1"
    by (simp add: unsigned_minus_1_eq_mask mask_eq_exp_minus_1)
  with Cons.prems have "mem_write (a + 1) bs (m(a := b)) a = b"
    by (subst mem_write_other) auto
  with Cons show ?case by simp
qed

text \<open>Two blocks are disjoint when neither start lies inside the other block.\<close>

definition disjoint_blocks :: "u32 \<Rightarrow> nat \<Rightarrow> u32 \<Rightarrow> nat \<Rightarrow> bool" where
  "disjoint_blocks a n b k \<longleftrightarrow> n \<le> unat (b - a) \<and> k \<le> unat (a - b)"

lemma disjoint_blocks_sym: "disjoint_blocks a n b k \<longleftrightarrow> disjoint_blocks b k a n"
  by (auto simp: disjoint_blocks_def)

section \<open>Copying a block into an array\<close>

definition blit :: "'a list \<Rightarrow> nat \<Rightarrow> 'a list \<Rightarrow> 'a list" where
  "blit dst off src = take off dst @ src @ drop (off + length src) dst"

lemma length_blit [simp]:
  "off + length src \<le> length dst \<Longrightarrow> length (blit dst off src) = length dst"
  by (simp add: blit_def)

lemma take_blit_ge:
  "off + length src \<le> length dst \<Longrightarrow> take (off + length src) (blit dst off src) = take off dst @ src"
  by (simp add: blit_def)

lemma take_blit_le:
  "k \<le> off \<Longrightarrow> off \<le> length dst \<Longrightarrow> take k (blit dst off src) = take k dst"
  by (simp add: blit_def min_def)

lemma nth_blit:
  "off + length src \<le> length dst \<Longrightarrow> i < length dst \<Longrightarrow>
   blit dst off src ! i = (if off \<le> i \<and> i < off + length src then src ! (i - off) else dst ! i)"
  by (auto simp: blit_def nth_append min_def)

section \<open>Words read as naturals\<close>

lemma unat_ucast_up:
  "LENGTH('a::len) \<le> LENGTH('b::len) \<Longrightarrow> unat (ucast (x :: 'a word) :: 'b word) = unat x"
  by (metis unsigned_ucast_eq unsigned_take_bit_eq take_bit_word_eq_self order_refl unsigned_less
        take_bit_nat_eq_self less_le_trans power_increasing one_le_numeral)

lemma and_not_eq_minus: "a AND NOT b = a - (a AND b)" for a b :: "'a::len word"
proof -
  have "a - (a AND b) = a AND NOT (a AND b)"
    by (rule disjunctive_diff) (simp add: bit_and_iff)
  also have "\<dots> = a AND NOT b"
    by (rule bit_eqI) (auto simp: bit_and_iff bit_not_iff bit_or_iff)
  finally show ?thesis by simp
qed

lemma or_mask_and_mask [mask_simps]: "(x OR m) AND m = m" for x m :: "'a::len word"
  by (rule bit_eqI) (auto simp: bit_and_iff bit_or_iff)

lemma and_not_mask_and_mask [mask_simps]: "(x AND NOT m) AND m = 0" for x m :: "'a::len word"
  by (rule bit_eqI) (auto simp: bit_and_iff bit_not_iff)

lemma or_mask_and_other [mask_simps]: "m AND l = 0 \<Longrightarrow> (x OR m) AND l = x AND l" for x m l :: "'a::len word"
  by (simp add: bit.conj_disj_distrib2)

lemma and_not_mask_and_other [mask_simps]:
  "m AND l = 0 \<Longrightarrow> (x AND NOT m) AND l = x AND l" for x m l :: "'a::len word"
proof (rule bit_eqI)
  fix n assume "m AND l = 0"
  then have "\<not> (bit m n \<and> bit l n)" by (metis bit_and_iff bit_0_eq bot_apply bot_bool_def)
  moreover assume "possible_bit TYPE('a word) n"
  ultimately show "bit ((x AND NOT m) AND l) n = bit (x AND l) n"
    by (auto simp: bit_and_iff bit_not_iff)
qed

lemma bit_u8_high: "8 \<le> n \<Longrightarrow> \<not> bit (b :: u8) n"
  using bit_imp_le_length [of b n] by auto

lemma unat_u8_less: "unat (x :: u8) < 256"
  using unsigned_less [of x, where ?'a = nat] by simp

lemma unat_u16_less: "unat (x :: u16) < 65536"
  using unsigned_less [of x, where ?'a = nat] by simp

lemma unat_u32_less: "unat (x :: u32) < 4294967296"
  using unsigned_less [of x, where ?'a = nat] by simp

lemma unat_plus_mod: "unat (x + of_nat d :: u32) = (if unat x + d < 2 ^ 32 then unat x + d else unat x + d - 2 ^ 32)"
  if "d < 2 ^ 32"
proof -
  have x: "unat x < 2 ^ 32" using unat_u32_less [of x] by simp
  have "unat (x + of_nat d) = (unat x + d) mod 2 ^ 32"
    using that by (simp add: unat_word_ariths unat_of_nat_u32)
  moreover have "(unat x + d) mod 2 ^ 32 = unat x + d - 2 ^ 32" if "\<not> unat x + d < 2 ^ 32"
    using that x \<open>d < 2 ^ 32\<close> by (subst le_mod_geq) simp_all
  ultimately show ?thesis by auto
qed

lemma word_diff_nat: "unat (x - y) = (if unat y \<le> unat x then unat x - unat y else unat x + 2 ^ 32 - unat y)"
  for x y :: u32
  by (simp add: unat_sub_if' word_le_nat_alt)

section \<open>Little-endian words\<close>

definition le32 :: "u32 \<Rightarrow> u8 list" where
  "le32 x = [ucast x, ucast (drop_bit 8 x), ucast (drop_bit 16 x), ucast (drop_bit 24 x)]"

definition of_le32 :: "u8 list \<Rightarrow> u32" where
  "of_le32 bs = ucast (bs ! 0) OR push_bit 8 (ucast (bs ! 1)) OR push_bit 16 (ucast (bs ! 2)) OR push_bit 24 (ucast (bs ! 3))"

lemma length_le32 [simp]: "length (le32 x) = 4"
  by (simp add: le32_def)

lemma of_le32_le32 [simp]: "of_le32 (le32 x) = x"
proof (rule bit_eqI)
  fix n :: nat
  assume "possible_bit TYPE(u32) n"
  consider "24 \<le> n" | "16 \<le> n" "\<not> 24 \<le> n" | "8 \<le> n" "\<not> 16 \<le> n" | "\<not> 8 \<le> n"
    by linarith
  then show "bit (of_le32 (le32 x)) n = bit x n"
    using \<open>possible_bit TYPE(u32) n\<close> by cases (auto simp: of_le32_def le32_def bit_simps)
qed

end
