(* ===== verification/Gw_Msg.thy ===== *)
theory Gw_Msg
  imports Gw_Prelude
begin

text \<open>
  The message buffer that travels from the CAN driver through the queue to the transmit task,
  \<open>Flexcan_Ip_MsgBuffType\<close>, as a record and as the 80 bytes that \<open>xQueueSendFromISR\<close> and
  \<open>xQueueReceive\<close> copy: little-endian words, the data array, two bytes and two bytes of padding in front of
  the aligned time stamp.
\<close>

record Flexcan_Ip_MsgBuffType =
  msg_cs :: u32
  msgId :: u32
  msg_data :: "u8 list"
  dataLen :: u8
  id_hit :: u8
  time_stamp :: u32

text \<open>The bytes of the padding are not determined by the fields; \<open>pad\<close> are the two that happen to be there.\<close>

definition msg_bytes :: "u8 list \<Rightarrow> Flexcan_Ip_MsgBuffType \<Rightarrow> u8 list" where
  "msg_bytes pad m = le32 (msg_cs m) @ le32 (msgId m) @ msg_data m @ [dataLen m, id_hit m] @ pad @ le32 (time_stamp m)"

definition msg_of_bytes :: "u8 list \<Rightarrow> Flexcan_Ip_MsgBuffType" where
  "msg_of_bytes bs =
    \<lparr>msg_cs = of_le32 (take 4 bs), msgId = of_le32 (take 4 (drop 4 bs)), msg_data = take 64 (drop 8 bs),
     dataLen = bs ! 72, id_hit = bs ! 73, time_stamp = of_le32 (take 4 (drop 76 bs))\<rparr>"

lemma length_msg_bytes [simp]:
  "length (msg_data m) = 64 \<Longrightarrow> length pad = 2 \<Longrightarrow> length (msg_bytes pad m) = 80"
  by (simp add: msg_bytes_def)

lemma msg_of_msg_bytes:
  assumes "length (msg_data m) = 64" "length pad = 2"
  shows "msg_of_bytes (msg_bytes pad m) = m"
  using assms by (simp add: msg_of_bytes_def msg_bytes_def nth_append)

end
