(* ===== verification/Gw_Tas.thy ===== *)
theory Gw_Tas
  imports Gw_Prelude
begin

text \<open>
  The stateless helpers of \<open>src/FlexCAN_SKKU.c\<close>: the CAN FD length tables, the table that
  maps CAN identifiers to I-PDU identifiers and traffic classes, the 4 KB page checks and
  the software mirror of the gate control list with the functions that decide from the
  MAC clock whether the gate of a transmit FIFO is open. The MAC clock is the pair of
  registers \<open>MAC_SYSTEM_TIME_SECONDS\<close> and \<open>MAC_SYSTEM_TIME_NANOSECONDS\<close>, passed as arguments.
\<close>

section \<open>CAN FD data length codes\<close>

definition dlc_tbl :: "u8 list" where
  "dlc_tbl = [0, 1, 2, 3, 4, 5, 6, 7, 8, 12, 16, 20, 24, 32, 48, 64]"

definition CANFD_DlcToLen :: "u8 \<Rightarrow> u8" where
  "CANFD_DlcToLen dlc = (if dlc < 16 then dlc_tbl ! unat dlc else 0)"

definition CANFD_DlcToLen_poll :: "u8 \<Rightarrow> u8" where
  "CANFD_DlcToLen_poll dlc = (if dlc < 16 then dlc_tbl ! unat dlc else 0)"

definition CANFD_LenToDlc :: "u8 \<Rightarrow> u8" where
  "CANFD_LenToDlc len =
    (if len \<le> 8 then len
     else if len = 12 then 9
     else if len = 16 then 10
     else if len = 20 then 11
     else if len = 24 then 12
     else if len = 32 then 13
     else if len = 48 then 14
     else if len = 64 then 15
     else 0)"

section \<open>CAN identifier to I-PDU mapping\<close>

abbreviation "TC_CRITICAL \<equiv> (0 :: u8)"
abbreviation "TC_BEST_EFFORT \<equiv> (7 :: u8)"

record CanIdToPduId_t =
  map_canId :: u32
  map_pduId :: u16
  map_trafficClass :: u8

definition CanPduMap :: "CanIdToPduId_t list" where
  "CanPduMap =
    [\<lparr>map_canId = 1, map_pduId = 1001, map_trafficClass = TC_CRITICAL\<rparr>,
     \<lparr>map_canId = 2, map_pduId = 1002, map_trafficClass = TC_CRITICAL\<rparr>,
     \<lparr>map_canId = 3, map_pduId = 1003, map_trafficClass = TC_CRITICAL\<rparr>,
     \<lparr>map_canId = 4, map_pduId = 1004, map_trafficClass = TC_CRITICAL\<rparr>]"

text \<open>
  The out-parameter \<open>trafficClass\<close> is a pointer that may be null (\<open>None\<close>) and otherwise holds the caller's value,
  which is overwritten when an entry matches and kept when none does.
\<close>

fun GW_GetPduId_loop :: "CanIdToPduId_t list \<Rightarrow> u32 \<Rightarrow> u8 option \<Rightarrow> u16 \<times> u8 option" where
  "GW_GetPduId_loop [] canId trafficClass = (0xFFFF, trafficClass)"
| "GW_GetPduId_loop (e # es) canId trafficClass =
    (if map_canId e = canId
     then (map_pduId e, if trafficClass \<noteq> None then Some (map_trafficClass e) else trafficClass)
     else GW_GetPduId_loop es canId trafficClass)"

definition GW_GetPduId_FromCanFd :: "u32 \<Rightarrow> u8 option \<Rightarrow> u16 \<times> u8 option" where
  "GW_GetPduId_FromCanFd canId trafficClass = GW_GetPduId_loop CanPduMap canId trafficClass"

definition TC_to_FIFO :: "u8 \<Rightarrow> u8" where
  "TC_to_FIFO trafficClass =
    (if trafficClass \<le> 2 then 0 else if trafficClass \<le> 5 then 1 else 2)"

section \<open>4 KB pages\<close>

definition Check_4KB_Boundary_Cross :: "u32 \<Rightarrow> u16 \<Rightarrow> bool" where
  "Check_4KB_Boundary_Cross bufAddr txLen =
    (if txLen = 0 then False
     else let page_end = (bufAddr AND NOT 0xFFF) + 0x1000 - 1;
              bufEnd = bufAddr + ucast txLen - 1
          in bufEnd > page_end)"

definition Bytes_To_4KB_Boundary :: "u32 \<Rightarrow> u16" where
  "Bytes_To_4KB_Boundary bufAddr =
    (let offset = bufAddr AND 0xFFF in ucast (0x1000 - offset))"

section \<open>The gate control list mirror\<close>

abbreviation "CYCLE_NS \<equiv> (10000000 :: u32)"
abbreviation "SLOT_MARGIN_NS \<equiv> (100000 :: u32)"

record GclEntry =
  TimeIntervalNs :: u32
  GateControlBits :: u32

definition GCL_MIRROR :: "GclEntry list" where
  "GCL_MIRROR =
    [\<lparr>TimeIntervalNs = 1000000, GateControlBits = 1\<rparr>,
     \<lparr>TimeIntervalNs = 4000000, GateControlBits = 2\<rparr>,
     \<lparr>TimeIntervalNs = 4000000, GateControlBits = 4\<rparr>,
     \<lparr>TimeIntervalNs = 1000000, GateControlBits = 0\<rparr>]"

definition mac_time_now_ns :: "u32 \<Rightarrow> u32 \<Rightarrow> u64" where
  "mac_time_now_ns sec nsec = ucast sec * 1000000000 + ucast nsec"

text \<open>
  The loop of \<open>gcl_locate\<close> over the entries still to be tried: the result is the slot index
  with the slot's start and end.
\<close>

fun gcl_locate_loop :: "GclEntry list \<Rightarrow> u32 \<Rightarrow> u32 \<Rightarrow> u32 \<Rightarrow> (u32 \<times> u32 \<times> u32) option" where
  "gcl_locate_loop [] tcy i acc = None"
| "gcl_locate_loop (e # es) tcy i acc =
    (let nxt = acc + TimeIntervalNs e
     in if tcy < nxt then Some (i, acc, nxt) else gcl_locate_loop es tcy (i + 1) nxt)"

definition gcl_locate :: "u32 \<Rightarrow> u32 \<times> u32 \<times> u32" where
  "gcl_locate tcy =
    (case gcl_locate_loop GCL_MIRROR tcy 0 0 of
       Some r \<Rightarrow> r
     | None \<Rightarrow> (of_nat (length GCL_MIRROR) - 1,
                CYCLE_NS - TimeIntervalNs (GCL_MIRROR ! (length GCL_MIRROR - 1)), CYCLE_NS))"

definition TAS_IsGateOpen_FIFOx :: "u32 \<Rightarrow> u32 \<Rightarrow> u32 \<Rightarrow> bool" where
  "TAS_IsGateOpen_FIFOx sec nsec fifoIndex =
    (if fifoIndex > 2 then False
     else let tcy = ucast (mac_time_now_ns sec nsec mod ucast CYCLE_NS);
              (idx, s0, s1) = gcl_locate tcy;
              effEnd = (if s1 > SLOT_MARGIN_NS then s1 - SLOT_MARGIN_NS else s0)
          in if effEnd \<le> s0 then False
             else if tcy < s0 \<or> tcy \<ge> effEnd then False
             else let gate = GateControlBits (GCL_MIRROR ! unat idx)
                  in drop_bit (unat fifoIndex) gate AND 1 \<noteq> 0)"

definition TAS_RemainingOpenTimeNs_FIFOx :: "u32 \<Rightarrow> u32 \<Rightarrow> u32 \<Rightarrow> u32" where
  "TAS_RemainingOpenTimeNs_FIFOx sec nsec fifoIndex =
    (if fifoIndex > 2 then 0
     else let tcy = ucast (mac_time_now_ns sec nsec mod ucast CYCLE_NS);
              (idx, s0, s1) = gcl_locate tcy;
              effEnd = (if s1 > SLOT_MARGIN_NS then s1 - SLOT_MARGIN_NS else s0)
          in if effEnd \<le> s0 then 0
             else let gate = GateControlBits (GCL_MIRROR ! unat idx);
                      openNow = (tcy \<ge> s0 \<and> tcy < effEnd \<and> drop_bit (unat fifoIndex) gate AND 1 \<noteq> 0)
                  in if openNow then effEnd - tcy else 0)"

definition TAS_IsGSNFuture :: "u8 \<Rightarrow> u8 \<Rightarrow> bool" where
  "TAS_IsGSNFuture targetGSN currentGSN =
    (let diff = (targetGSN - currentGSN) AND 0x0F in diff \<le> 8)"

definition TAS_GetTimeUntilNextOpen :: "u32 \<Rightarrow> u32" where
  "TAS_GetTimeUntilNextOpen currentTimeNs =
    (let timeInCycle = currentTimeNs mod 10000000
     in if timeInCycle < 1000000 then 1000000 - timeInCycle
        else 10000000 - timeInCycle + 1000000)"

section \<open>The gate windows\<close>

lemma mac_time_nat: "unat (mac_time_now_ns sec nsec) = unat sec * 1000000000 + unat nsec"
proof -
  have "unat sec * 1000000000 + unat nsec < 18446744073709551616"
    using unat_u32_less [of sec] unat_u32_less [of nsec] by linarith
  then show ?thesis
    by (simp add: mac_time_now_ns_def unat_word_ariths unat_ucast_up mod_simps)
qed

lemma nsec_mod_cycle:
  "unat nsec mod 10000000 = unat (mac_time_now_ns sec nsec) mod 10000000"
proof -
  have "unat sec * 1000000000 mod 10000000 = (0::nat)"
    by (simp add: mod_eq_0_iff_dvd)
  then show ?thesis
    unfolding mac_time_nat by (metis mod_add_left_eq add_0)
qed

lemma tcy_nat:
  "unat (ucast (mac_time_now_ns sec nsec mod ucast CYCLE_NS) :: u32) = unat nsec mod 10000000"
proof -
  have "unat (mac_time_now_ns sec nsec mod ucast CYCLE_NS) = unat nsec mod 10000000"
    by (simp add: unat_mod_distrib nsec_mod_cycle [of nsec sec])
  then show ?thesis
    by (simp add: unsigned_ucast_eq take_bit_nat_eq_self)
qed

lemma gcl_locate_cases:
  "t < 1000000 \<Longrightarrow> gcl_locate t = (0, 0, 1000000)"
  "1000000 \<le> t \<Longrightarrow> t < 5000000 \<Longrightarrow> gcl_locate t = (1, 1000000, 5000000)"
  "5000000 \<le> t \<Longrightarrow> t < 9000000 \<Longrightarrow> gcl_locate t = (2, 5000000, 9000000)"
  "9000000 \<le> t \<Longrightarrow> gcl_locate t = (3, 9000000, 10000000)"
     apply (simp add: gcl_locate_def GCL_MIRROR_def)
    apply (simp add: gcl_locate_def GCL_MIRROR_def word_less_nat_alt word_le_nat_alt)
   apply (simp add: gcl_locate_def GCL_MIRROR_def word_less_nat_alt word_le_nat_alt)
  apply (simp add: gcl_locate_def GCL_MIRROR_def word_less_nat_alt word_le_nat_alt)
  done

text \<open>The window in which a gate counts as open, over the time within the cycle.\<close>

definition gate_window :: "nat \<Rightarrow> nat \<Rightarrow> bool" where
  "gate_window fifo t \<longleftrightarrow>
    (fifo = 0 \<and> t < 900000) \<or> (fifo = 1 \<and> 1000000 \<le> t \<and> t < 4900000) \<or>
    (fifo = 2 \<and> 5000000 \<le> t \<and> t < 8900000)"

lemma fifo_le_2: "fifo \<le> (2::u32) \<Longrightarrow> fifo = 0 \<or> fifo = 1 \<or> fifo = 2"
proof -
  assume "fifo \<le> 2"
  then have "unat fifo \<le> 2" by (simp add: word_le_nat_alt)
  then have "unat fifo = 0 \<or> unat fifo = 1 \<or> unat fifo = 2" by linarith
  then show ?thesis by (auto simp: word_unat_eq_iff)
qed


text \<open>The end of the window, the guard margin before the end of the slot.\<close>

definition gate_end :: "nat \<Rightarrow> nat" where
  "gate_end fifo = (if fifo = 0 then 900000 else if fifo = 1 then 4900000 else 8900000)"

lemma slot_cases:
  obtains "(t::u32) < 1000000" | "1000000 \<le> t" "t < 5000000" | "5000000 \<le> t" "t < 9000000" | "9000000 \<le> t"
  by fastforce

lemma gate_open_tcy:
  assumes t: "t = (ucast (mac_time_now_ns sec nsec mod ucast CYCLE_NS) :: u32)" and f: "fifo \<le> 2"
  shows "TAS_IsGateOpen_FIFOx sec nsec fifo \<longleftrightarrow> gate_window (unat fifo) (unat t)"
    and "TAS_RemainingOpenTimeNs_FIFOx sec nsec fifo =
         (if gate_window (unat fifo) (unat t) then of_nat (gate_end (unat fifo)) - t else 0)"
  unfolding TAS_IsGateOpen_FIFOx_def TAS_RemainingOpenTimeNs_FIFOx_def t [symmetric] Let_def
  using fifo_le_2 [OF f] 
  by (cases t rule: slot_cases; elim disjE;
     simp add: gcl_locate_cases GCL_MIRROR_def gate_window_def gate_end_def word_less_nat_alt word_le_nat_alt not_le)+

lemma gate_open_iff:
  "TAS_IsGateOpen_FIFOx sec nsec fifo \<longleftrightarrow> gate_window (unat fifo) (unat nsec mod 10000000)"
proof (cases "fifo \<le> 2")
  case True
  show ?thesis
    unfolding gate_open_tcy(1) [OF refl True] tcy_nat ..
next
  case False
  then have "2 < fifo" "2 < unat fifo" by (simp_all add: word_less_nat_alt word_le_nat_alt)
  then show ?thesis
    by (simp add: TAS_IsGateOpen_FIFOx_def gate_window_def)
qed

text \<open>(C12) The gate decision from the MAC clock. Whatever the seconds register holds, the gate of
  FIFO 0, 1 or 2 counts as open exactly in the first slot of 1 ms, the second slot of 4 ms or the
  third slot of 4 ms of the 10 ms cycle, each shortened by the 100 us guard margin, and no other FIFO
  index is ever open; hence at most one gate is open at a time.\<close>

theorem gate_open_windows:
  "(TAS_IsGateOpen_FIFOx sec nsec fifo \<longleftrightarrow>
      (let t = unat nsec mod 10000000
       in (fifo = 0 \<and> t < 900000) \<or> (fifo = 1 \<and> 1000000 \<le> t \<and> t < 4900000) \<or>
          (fifo = 2 \<and> 5000000 \<le> t \<and> t < 8900000))) \<and>
   \<not> (TAS_IsGateOpen_FIFOx sec nsec f \<and> TAS_IsGateOpen_FIFOx sec nsec g \<and> f \<noteq> g)"
  by (auto simp: gate_open_iff gate_window_def Let_def word_unat_eq_iff)

lemma remaining_open:
  "unat (TAS_RemainingOpenTimeNs_FIFOx sec nsec fifo) =
    (if gate_window (unat fifo) (unat nsec mod 10000000)
     then gate_end (unat fifo) - unat nsec mod 10000000 else 0)"
proof (cases "fifo \<le> 2")
  case True
  define t where "t = (ucast (mac_time_now_ns sec nsec mod ucast CYCLE_NS) :: u32)"
  have t: "unat t = unat nsec mod 10000000" unfolding t_def by (rule tcy_nat)
  have e: "unat (of_nat (gate_end (unat fifo)) :: u32) = gate_end (unat fifo)"
    by (simp add: gate_end_def unat_of_nat_u32)
  show ?thesis
  proof (cases "gate_window (unat fifo) (unat t)")
    case open': True
    then have "t \<le> of_nat (gate_end (unat fifo))"
      unfolding word_le_nat_alt e using gate_end_def gate_window_def by auto
    then show ?thesis
      unfolding gate_open_tcy(2) [OF t_def True] using open' t e by (simp add: unat_sub)
  next
    case False
    then show ?thesis
      unfolding gate_open_tcy(2) [OF t_def True] using t by simp
  qed
next
  case False
  then have "2 < fifo" "2 < unat fifo" by (simp_all add: word_less_nat_alt word_le_nat_alt)
  then show ?thesis
    by (simp add: TAS_RemainingOpenTimeNs_FIFOx_def gate_window_def)
qed

lemma gate_window_shift:
  "gate_window f (t mod 10000000) \<Longrightarrow> d \<le> gate_end f - t mod 10000000 \<Longrightarrow>
   gate_window f ((t + d) mod 10000000) \<longleftrightarrow> d < gate_end f - t mod 10000000"
  for t d :: nat
proof -
  assume w: "gate_window f (t mod 10000000)" and d: "d \<le> gate_end f - t mod 10000000"
  then have "t mod 10000000 + d < 10000000" by (auto simp: gate_window_def gate_end_def)
  then have "(t + d) mod 10000000 = t mod 10000000 + d" by (metis mod_add_left_eq mod_less)
  with w d show ?thesis by (auto simp: gate_window_def gate_end_def)
qed

text \<open>(C13) \<open>TAS_RemainingOpenTimeNs_FIFOx\<close> is exact: it is non-zero precisely when
  \<open>TAS_IsGateOpen_FIFOx\<close> says open, and at a clock reading \<open>d\<close> nanoseconds later, up to the
  reported time, the gate is still open precisely while \<open>d\<close> is below the reported time.\<close>

theorem remaining_open_time_exact:
  assumes "unat (mac_time_now_ns sec' nsec') = unat (mac_time_now_ns sec nsec) + d"
    and "d \<le> unat (TAS_RemainingOpenTimeNs_FIFOx sec nsec fifo)"
  shows "(TAS_RemainingOpenTimeNs_FIFOx sec nsec fifo \<noteq> 0 \<longleftrightarrow> TAS_IsGateOpen_FIFOx sec nsec fifo) \<and>
    (TAS_IsGateOpen_FIFOx sec nsec fifo \<longrightarrow>
       (TAS_IsGateOpen_FIFOx sec' nsec' fifo \<longleftrightarrow> d < unat (TAS_RemainingOpenTimeNs_FIFOx sec nsec fifo)))"
proof -
  let ?w = "gate_window (unat fifo) (unat (mac_time_now_ns sec nsec) mod 10000000)"
  have r: "unat (TAS_RemainingOpenTimeNs_FIFOx sec nsec fifo) =
      (if ?w then gate_end (unat fifo) - unat (mac_time_now_ns sec nsec) mod 10000000 else 0)"
    by (simp add: remaining_open nsec_mod_cycle [of nsec sec])
  have pos: "?w \<Longrightarrow> 0 < gate_end (unat fifo) - unat (mac_time_now_ns sec nsec) mod 10000000"
    by (auto simp: gate_window_def gate_end_def)
  have "TAS_RemainingOpenTimeNs_FIFOx sec nsec fifo \<noteq> 0 \<longleftrightarrow> ?w"
    using r pos by (auto simp: word_unat_eq_iff split: if_splits)
  moreover have "?w \<Longrightarrow> TAS_IsGateOpen_FIFOx sec' nsec' fifo \<longleftrightarrow>
      d < unat (TAS_RemainingOpenTimeNs_FIFOx sec nsec fifo)"
    using assms r gate_window_shift [of "unat fifo" "unat (mac_time_now_ns sec nsec)" d]
    by (simp add: gate_open_iff nsec_mod_cycle [of nsec' sec'])
  ultimately show ?thesis
    by (auto simp: gate_open_iff nsec_mod_cycle [of nsec sec])
qed


theorem remaining_open_time_witness:
  "TAS_RemainingOpenTimeNs_FIFOx 7 30000250 0 = 899750 \<and> TAS_IsGateOpen_FIFOx 7 30000250 0 \<and>
   TAS_IsGateOpen_FIFOx 7 30899999 0 \<and> \<not> TAS_IsGateOpen_FIFOx 7 30900000 0"
proof -
  have r: "TAS_RemainingOpenTimeNs_FIFOx 7 30000250 0 = 899750"
    by (simp add: word_unat_eq_iff remaining_open gate_window_def gate_end_def)
  have d: "unat (mac_time_now_ns 7 30899999) = unat (mac_time_now_ns 7 30000250) + 899749"
    "unat (mac_time_now_ns 7 30900000) = unat (mac_time_now_ns 7 30000250) + 899750"
    by (simp_all add: mac_time_nat)
  show ?thesis
    using remaining_open_time_exact [OF d(1), of 0] remaining_open_time_exact [OF d(2), of 0]
    by (simp add: r)
qed

text \<open>(C14) The instant \<open>TAS_GetTimeUntilNextOpen\<close> computes for the opening of the gate (1 ms into
  the cycle, from the \<open>TAS_GATE_OPEN_*\<close> constants) is never inside the FIFO 0 window of the gate
  control list in use: there FIFO 0 is closed and FIFO 1 is open.\<close>

theorem next_open_misses_fifo0_window:
  assumes "unat now + unat (TAS_GetTimeUntilNextOpen now) < 2 ^ 32"
  shows "\<not> TAS_IsGateOpen_FIFOx sec (now + TAS_GetTimeUntilNextOpen now) 0 \<and>
    TAS_IsGateOpen_FIFOx sec (now + TAS_GetTimeUntilNextOpen now) 1"
proof -
  define q r where "q = unat now div 10000000" and "r = unat now mod 10000000"
  have n: "unat now = 10000000 * q + r" and r: "r < 10000000" by (simp_all add: q_def r_def)
  have g: "unat (TAS_GetTimeUntilNextOpen now) = (if r < 1000000 then 1000000 - r else 11000000 - r)"
    using r by (simp add: TAS_GetTimeUntilNextOpen_def Let_def word_less_nat_alt word_le_nat_alt unat_mod_distrib
      unat_sub unat_word_ariths r_def [symmetric])
  have "unat (now + TAS_GetTimeUntilNextOpen now) = unat now + unat (TAS_GetTimeUntilNextOpen now)"
    using assms by (simp add: unat_word_ariths)
  also have "\<dots> = 10000000 * (if r < 1000000 then q else q + 1) + 1000000"
    using r by (simp add: n g)
  finally have "unat (now + TAS_GetTimeUntilNextOpen now) mod 10000000 = 1000000"
    by simp
  then show ?thesis
    by (simp add: gate_open_iff gate_window_def)
qed

theorem next_open_witness:
  "\<not> TAS_IsGateOpen_FIFOx 5 (123456 + TAS_GetTimeUntilNextOpen 123456) 0"
proof -
  have "unat (123456 :: u32) + unat (TAS_GetTimeUntilNextOpen 123456) < 2 ^ 32"
    by (simp add: TAS_GetTimeUntilNextOpen_def)
  from next_open_misses_fifo0_window [OF this] show ?thesis by simp
qed

lemma page_offset:
  "unat (a AND 0xFFF :: u32) = unat a mod 4096" "unat (a AND NOT 0xFFF :: u32) = 4096 * (unat a div 4096)"
proof -
  have m: "(0xFFF :: u32) = mask 12" by (simp add: mask_eq_exp_minus_1)
  show 1: "unat (a AND 0xFFF :: u32) = unat a mod 4096"
    by (simp add: m take_bit_eq_mask [symmetric] unsigned_take_bit_eq take_bit_eq_mod unat_mod_distrib)
  have "unat (a - (a AND 0xFFF)) = unat a - unat a mod 4096"
    by (simp add: unat_sub word_le_nat_alt 1)
  then show "unat (a AND NOT 0xFFF :: u32) = 4096 * (unat a div 4096)"
    by (simp only: and_not_eq_minus minus_mod_eq_mult_div)
qed

lemma page_end_nat: "unat ((a AND NOT 0xFFF :: u32) + 0x1000 - 1) = 4096 * (unat a div 4096) + 4095"
proof -
  have gen: "x + 0x1000 - 1 = x + 0xFFF" for x :: u32 by simp
  have "unat a div 4096 < 1048576" using unat_u32_less [of a] by linarith
  then show ?thesis
    unfolding gen unat_word_ariths page_offset by simp
qed

lemma block_end_nat:
  "0 < unat (n :: u16) \<Longrightarrow> unat a + unat n \<le> 2 ^ 32 \<Longrightarrow> unat ((a :: u32) + ucast n - 1) = unat a + unat n - 1"
proof -
  assume n: "0 < unat n" and le: "unat a + unat n \<le> 2 ^ 32"
  then have "a + ucast n - 1 = of_nat (unat a + unat n - 1)"
    by (simp add: of_nat_diff)
  with n le show ?thesis by (simp only: unat_of_nat_u32)
qed

lemma bytes_to_boundary_nat: "unat (Bytes_To_4KB_Boundary a) = 4096 - unat a mod 4096"
proof -
  have "unat (0x1000 - (a AND 0xFFF)) = 4096 - unat a mod 4096"
    by (simp add: unat_sub word_le_nat_alt page_offset)
  then show ?thesis
    by (simp add: Bytes_To_4KB_Boundary_def unsigned_ucast_eq take_bit_nat_eq_self)
qed

text \<open>(C15) For a non-empty buffer that does not wrap around the address space,
  \<open>Check_4KB_Boundary_Cross\<close> holds exactly when its first and last byte lie in different
  4 KB pages, which is also exactly when the length exceeds \<open>Bytes_To_4KB_Boundary\<close>.\<close>

theorem check_4kb_iff:
  assumes "txLen \<noteq> 0" "unat bufAddr + unat txLen \<le> 2 ^ 32"
  shows "(Check_4KB_Boundary_Cross bufAddr txLen \<longleftrightarrow>
      unat bufAddr div 4096 \<noteq> (unat bufAddr + unat txLen - 1) div 4096) \<and>
    (Check_4KB_Boundary_Cross bufAddr txLen \<longleftrightarrow> Bytes_To_4KB_Boundary bufAddr < txLen)"
proof -
  define q r where "q = unat bufAddr div 4096" and "r = unat bufAddr mod 4096"
  have n: "unat bufAddr = 4096 * q + r" and r: "r < 4096" by (simp_all add: q_def r_def)
  have l: "0 < unat txLen" using assms(1) by (simp add: unat_gt_0)
  have c: "Check_4KB_Boundary_Cross bufAddr txLen \<longleftrightarrow> 4096 * q + 4095 < 4096 * q + r + unat txLen - 1"
    using assms(1) r unfolding Check_4KB_Boundary_Cross_def Let_def word_less_nat_alt page_end_nat
      block_end_nat [OF l assms(2)] n by simp
  have "(4096 * q + r) div 4096 \<noteq> (4096 * q + r + unat txLen - 1) div 4096 \<longleftrightarrow> 4096 \<le> r + unat txLen - 1"
  proof -
    have e: "4096 * q + r + unat txLen - 1 = 4096 * q + (r + unat txLen - 1)" using l by simp
    show ?thesis unfolding e using r by (simp add: div_eq_0_iff not_less)
  qed
  moreover have "Bytes_To_4KB_Boundary bufAddr < txLen \<longleftrightarrow> 4096 - r < unat txLen"
    by (simp add: word_less_nat_alt bytes_to_boundary_nat r_def)
  ultimately show ?thesis
    using c r l unfolding n by linarith
qed

theorem check_4kb_iff_witness:
  "Check_4KB_Boundary_Cross 0x34000F00 512 \<and> \<not> Check_4KB_Boundary_Cross 0x34000A00 512"
  using check_4kb_iff [of 512 "0x34000F00"] check_4kb_iff [of 512 "0x34000A00"] by simp

text \<open>(C16) Every CAN FD data length code survives the conversion to a length and back.\<close>

theorem dlc_roundtrip:
  assumes "dlc < 16"
  shows "CANFD_LenToDlc (CANFD_DlcToLen dlc) = dlc"
proof -
  have "unat dlc \<in> set [0..<16]" using assms by (simp add: word_less_nat_alt)
  then have "dlc \<in> of_nat ` set [0..<16]"
    by (intro image_eqI [of _ _ "unat dlc"]) simp_all
  then show ?thesis
    by (simp add: upt_rec) (elim disjE; simp add: CANFD_LenToDlc_def CANFD_DlcToLen_def dlc_tbl_def)
qed

theorem dlc_roundtrip_witness: "CANFD_LenToDlc (CANFD_DlcToLen 13) = 13"
  using dlc_roundtrip [of 13] by simp

text \<open>The identifier lookup in closed form.\<close>

lemma pdu_id_lookup:
  "GW_GetPduId_FromCanFd canId tc =
     (if 1 \<le> canId \<and> canId \<le> 4 then (1000 + ucast canId, map_option (\<lambda>_. TC_CRITICAL) tc) else (0xFFFF, tc))"
proof -
  have "1 \<le> canId \<and> canId \<le> 4 \<longleftrightarrow> canId = 1 \<or> canId = 2 \<or> canId = 3 \<or> canId = 4"
    by (auto simp: word_unat_eq_iff word_le_nat_alt)
  then show ?thesis
    by (cases tc) (auto simp: GW_GetPduId_FromCanFd_def CanPduMap_def)
qed

end
