(* ===== verification/Container_Spec.thy ===== *)
theory Container_Spec
  imports Gw_Prelude
begin

text \<open>
  The container format as seen from the receiving side: a version byte, the number of I-PDUs and then, for
  each I-PDU, its identifier in network order, its length and its data. \<open>decode\<close> reads as many I-PDUs as the
  count byte says and ignores what follows, as a receiver must because short Ethernet frames are padded.
\<close>

type_synonym ipdu = "u16 \<times> u8 list"

definition encode_ipdu :: "ipdu \<Rightarrow> u8 list" where
  "encode_ipdu p = [ucast (drop_bit 8 (fst p)), ucast (fst p), of_nat (length (snd p))] @ snd p"

definition encode :: "ipdu list \<Rightarrow> u8 list" where
  "encode ps = [1, of_nat (length ps)] @ concat (map encode_ipdu ps)"

fun decode_ipdus :: "nat \<Rightarrow> u8 list \<Rightarrow> ipdu list option" where
  "decode_ipdus 0 bs = Some []"
| "decode_ipdus (Suc n) (hi # lo # l # bs) =
    (if unat l \<le> length bs
     then map_option (\<lambda>ps. (push_bit 8 (ucast hi) OR ucast lo, take (unat l) bs) # ps) (decode_ipdus n (drop (unat l) bs))
     else None)"
| "decode_ipdus (Suc n) _ = None"

definition decode :: "u8 list \<Rightarrow> ipdu list option" where
  "decode bs = (case bs of v # c # rest \<Rightarrow> if v = 1 then decode_ipdus (unat c) rest else None | _ \<Rightarrow> None)"

lemma length_encode_ipdu [simp]: "length (encode_ipdu p) = 3 + length (snd p)"
  by (simp add: encode_ipdu_def)

lemma length_encode: "length (encode ps) = 2 + (\<Sum>p\<leftarrow>ps. 3 + length (snd p))"
  by (simp add: encode_def length_concat o_def)

lemma encode_Nil [simp]: "encode [] = [1, 0]"
  by (simp add: encode_def)

text \<open>Adding an I-PDU at the end and updating the count gives the encoding of the longer list.\<close>

lemma encode_snoc: "encode (ps @ [p]) = (encode ps @ encode_ipdu p)[1 := of_nat (Suc (length ps))]"
  by (simp add: encode_def)

lemma u16_of_bytes:
  fixes i :: u16
  shows "push_bit 8 (ucast (ucast (drop_bit 8 i) :: u8)) OR ucast (ucast i :: u8) = i"
proof (rule bit_eqI)
  fix n :: nat
  assume "possible_bit TYPE(u16) n"
  then show "bit (push_bit 8 (ucast (ucast (drop_bit 8 i) :: u8)) OR ucast (ucast i :: u8) :: u16) n = bit i n"
    by (cases "8 \<le> n") (auto simp: bit_simps)
qed

lemma decode_encode_ipdus:
  assumes "\<forall>p \<in> set ps. length (snd p) < 256"
  shows "decode_ipdus (length ps) (concat (map encode_ipdu ps) @ pad) = Some ps"
  using assms
  by (induction ps) (simp_all add: encode_ipdu_def unat_of_nat take_bit_nat_eq_self u16_of_bytes)

lemma decode_encode:
  assumes "length ps < 256" "\<forall>p \<in> set ps. length (snd p) < 256"
  shows "decode (encode ps @ pad) = Some ps"
  using decode_encode_ipdus [OF assms(2)] assms(1)
  by (simp add: decode_def encode_def unat_of_nat take_bit_nat_eq_self)

text \<open>The encoded lengths bound the number of I-PDUs.\<close>

lemma length_encode_min:
  assumes "\<forall>p \<in> set ps. m \<le> length (snd p)"
  shows "2 + length ps * (3 + m) \<le> length (encode ps)"
  using assms by (induction ps) (auto simp: length_encode)

end
