(* ===== verification/Freertos_List.thy ===== *)
theory Freertos_List
  imports Gw_Prelude
begin

text \<open>
  The doubly linked lists of the kernel (\<open>FreeRTOS/Source/list.c\<close>), at the level of pointers:
  list items and list heads live in a typed heap indexed by address, the end marker of the list
  at address \<open>L\<close> is the item embedded in it at offset 8 (after \<open>uxNumberOfItems\<close> and
  \<open>pxIndex\<close>). Every operation performs the pointer assignments of the source in their order.
  The abstraction \<open>list_at h L xs\<close> says that \<open>xs\<close> are the items on the list in order; the operations
  are shown to refine insertion before the index, sorted insertion and removal on \<open>xs\<close>.
\<close>

section \<open>State and operations\<close>

record ListItem_t =
  xItemValue :: u32
  pxNext :: u32
  pxPrevious :: u32
  pvOwner :: u32
  pxContainer :: u32

record List_t =
  uxNumberOfItems :: u32
  pxIndex :: u32

record list_heap =
  l_item :: "u32 \<Rightarrow> ListItem_t"
  l_list :: "u32 \<Rightarrow> List_t"

abbreviation portMAX_DELAY :: u32 where "portMAX_DELAY \<equiv> 0xFFFFFFFF"
abbreviation NULL :: u32 where "NULL \<equiv> 0"

definition xListEnd :: "u32 \<Rightarrow> u32" where
  "xListEnd pxList = pxList + 8"

definition upd_item :: "u32 \<Rightarrow> (ListItem_t \<Rightarrow> ListItem_t) \<Rightarrow> 'a list_heap_scheme \<Rightarrow> 'a list_heap_scheme" where
  "upd_item p f h = h\<lparr>l_item := (l_item h)(p := f (l_item h p))\<rparr>"

definition upd_list :: "u32 \<Rightarrow> (List_t \<Rightarrow> List_t) \<Rightarrow> 'a list_heap_scheme \<Rightarrow> 'a list_heap_scheme" where
  "upd_list L f h = h\<lparr>l_list := (l_list h)(L := f (l_list h L))\<rparr>"

definition vListInitialise :: "u32 \<Rightarrow> 'a list_heap_scheme \<Rightarrow> 'a list_heap_scheme" where
  "vListInitialise pxList h =
    (let e = xListEnd pxList;
         h1 = upd_list pxList (\<lambda>l. l\<lparr>pxIndex := e\<rparr>) h;
         h2 = upd_item e (\<lambda>i. i\<lparr>xItemValue := portMAX_DELAY\<rparr>) h1;
         h3 = upd_item e (\<lambda>i. i\<lparr>pxNext := e\<rparr>) h2;
         h4 = upd_item e (\<lambda>i. i\<lparr>pxPrevious := e\<rparr>) h3
     in upd_list pxList (\<lambda>l. l\<lparr>uxNumberOfItems := 0\<rparr>) h4)"

definition vListInitialiseItem :: "u32 \<Rightarrow> 'a list_heap_scheme \<Rightarrow> 'a list_heap_scheme" where
  "vListInitialiseItem pxItem h = upd_item pxItem (\<lambda>i. i\<lparr>pxContainer := NULL\<rparr>) h"

definition vListInsertEnd :: "u32 \<Rightarrow> u32 \<Rightarrow> 'a list_heap_scheme \<Rightarrow> 'a list_heap_scheme" where
  "vListInsertEnd pxList pxNewListItem h =
    (let idx = pxIndex (l_list h pxList);
         h1 = upd_item pxNewListItem (\<lambda>i. i\<lparr>pxNext := idx\<rparr>) h;
         h2 = upd_item pxNewListItem (\<lambda>i. i\<lparr>pxPrevious := pxPrevious (l_item h1 idx)\<rparr>) h1;
         h3 = upd_item (pxPrevious (l_item h2 idx)) (\<lambda>i. i\<lparr>pxNext := pxNewListItem\<rparr>) h2;
         h4 = upd_item idx (\<lambda>i. i\<lparr>pxPrevious := pxNewListItem\<rparr>) h3;
         h5 = upd_item pxNewListItem (\<lambda>i. i\<lparr>pxContainer := pxList\<rparr>) h4
     in upd_list pxList (\<lambda>l. l\<lparr>uxNumberOfItems := uxNumberOfItems l + 1\<rparr>) h5)"

text \<open>
  The search loop of \<open>vListInsert\<close> starts at the end marker and advances while the next item's
  value is not above the inserted one. It is given one round more than the list has items, which is
  all a well-formed list can use; a search that needs more does not leave the loop.
\<close>

fun vListInsert_find :: "nat \<Rightarrow> u32 \<Rightarrow> u32 \<Rightarrow> 'a list_heap_scheme \<Rightarrow> u32 res" where
  "vListInsert_find n v it h =
    (if xItemValue (l_item h (pxNext (l_item h it))) \<le> v
     then (case n of 0 \<Rightarrow> Inl NoExit | Suc m \<Rightarrow> vListInsert_find m v (pxNext (l_item h it)) h)
     else Inr it)"

declare vListInsert_find.simps [simp del]

definition vListInsert_link :: "u32 \<Rightarrow> u32 \<Rightarrow> u32 \<Rightarrow> 'a list_heap_scheme \<Rightarrow> 'a list_heap_scheme" where
  "vListInsert_link pxList pxNewListItem it h =
    (let h1 = upd_item pxNewListItem (\<lambda>i. i\<lparr>pxNext := pxNext (l_item h it)\<rparr>) h;
         h2 = upd_item (pxNext (l_item h1 pxNewListItem)) (\<lambda>i. i\<lparr>pxPrevious := pxNewListItem\<rparr>) h1;
         h3 = upd_item pxNewListItem (\<lambda>i. i\<lparr>pxPrevious := it\<rparr>) h2;
         h4 = upd_item it (\<lambda>i. i\<lparr>pxNext := pxNewListItem\<rparr>) h3;
         h5 = upd_item pxNewListItem (\<lambda>i. i\<lparr>pxContainer := pxList\<rparr>) h4
     in upd_list pxList (\<lambda>l. l\<lparr>uxNumberOfItems := uxNumberOfItems l + 1\<rparr>) h5)"

definition vListInsert :: "u32 \<Rightarrow> u32 \<Rightarrow> 'a list_heap_scheme \<Rightarrow> ('a list_heap_scheme) res" where
  "vListInsert pxList pxNewListItem h =
    (let v = xItemValue (l_item h pxNewListItem)
     in rbind
          (if v = portMAX_DELAY then Inr (pxPrevious (l_item h (xListEnd pxList)))
           else vListInsert_find (unat (uxNumberOfItems (l_list h pxList))) v (xListEnd pxList) h)
          (\<lambda>it. Inr (vListInsert_link pxList pxNewListItem it h)))"

definition uxListRemove :: "u32 \<Rightarrow> 'a list_heap_scheme \<Rightarrow> 'a list_heap_scheme \<times> u32" where
  "uxListRemove x h =
    (let pxList = pxContainer (l_item h x);
         h1 = upd_item (pxNext (l_item h x)) (\<lambda>i. i\<lparr>pxPrevious := pxPrevious (l_item h x)\<rparr>) h;
         h2 = upd_item (pxPrevious (l_item h1 x)) (\<lambda>i. i\<lparr>pxNext := pxNext (l_item h1 x)\<rparr>) h1;
         h3 = (if pxIndex (l_list h2 pxList) = x
               then upd_list pxList (\<lambda>l. l\<lparr>pxIndex := pxPrevious (l_item h2 x)\<rparr>) h2 else h2);
         h4 = upd_item x (\<lambda>i. i\<lparr>pxContainer := NULL\<rparr>) h3;
         h5 = upd_list pxList (\<lambda>l. l\<lparr>uxNumberOfItems := uxNumberOfItems l - 1\<rparr>) h4
     in (h5, uxNumberOfItems (l_list h5 pxList)))"

definition listLIST_IS_EMPTY :: "u32 \<Rightarrow> 'a list_heap_scheme \<Rightarrow> bool" where
  "listLIST_IS_EMPTY pxList h \<longleftrightarrow> uxNumberOfItems (l_list h pxList) = 0"

definition listGET_HEAD_ENTRY :: "u32 \<Rightarrow> 'a list_heap_scheme \<Rightarrow> u32" where
  "listGET_HEAD_ENTRY pxList h = pxNext (l_item h (xListEnd pxList))"

definition listGET_OWNER_OF_HEAD_ENTRY :: "u32 \<Rightarrow> 'a list_heap_scheme \<Rightarrow> u32" where
  "listGET_OWNER_OF_HEAD_ENTRY pxList h = pvOwner (l_item h (pxNext (l_item h (xListEnd pxList))))"

definition listGET_ITEM_VALUE_OF_HEAD_ENTRY :: "u32 \<Rightarrow> 'a list_heap_scheme \<Rightarrow> u32" where
  "listGET_ITEM_VALUE_OF_HEAD_ENTRY pxList h = xItemValue (l_item h (pxNext (l_item h (xListEnd pxList))))"

text \<open>The walk of \<open>listGET_OWNER_OF_NEXT_ENTRY\<close>: advance the index, skip the end marker.\<close>

definition listGET_OWNER_OF_NEXT_ENTRY :: "u32 \<Rightarrow> 'a list_heap_scheme \<Rightarrow> 'a list_heap_scheme \<times> u32" where
  "listGET_OWNER_OF_NEXT_ENTRY pxList h =
    (let h1 = upd_list pxList (\<lambda>l. l\<lparr>pxIndex := pxNext (l_item h (pxIndex l))\<rparr>) h;
         h2 = (if pxIndex (l_list h1 pxList) = xListEnd pxList
               then upd_list pxList (\<lambda>l. l\<lparr>pxIndex := pxNext (l_item h1 (pxIndex l))\<rparr>) h1 else h1)
     in (h2, pvOwner (l_item h2 (pxIndex (l_list h2 pxList)))))"

section \<open>The abstraction to a sequence of items\<close>

fun linked :: "'a list_heap_scheme \<Rightarrow> u32 list \<Rightarrow> bool" where
  "linked h (a # b # zs) \<longleftrightarrow> pxNext (l_item h a) = b \<and> pxPrevious (l_item h b) = a \<and> linked h (b # zs)"
| "linked h zs \<longleftrightarrow> True"

definition list_at :: "'a list_heap_scheme \<Rightarrow> u32 \<Rightarrow> u32 list \<Rightarrow> bool" where
  "list_at h L xs \<longleftrightarrow>
    (let e = xListEnd L
     in linked h (e # xs @ [e]) \<and> distinct (e # xs) \<and>
        uxNumberOfItems (l_list h L) = of_nat (length xs) \<and> length xs < 2 ^ 32 \<and>
        pxIndex (l_list h L) \<in> set (e # xs) \<and>
        (\<forall>x\<in>set xs. pxContainer (l_item h x) = L) \<and>
        xItemValue (l_item h e) = portMAX_DELAY)"

text \<open>The abstract operations: insertion before the walking index and insertion by value.\<close>

definition insert_before :: "u32 \<Rightarrow> u32 \<Rightarrow> u32 list \<Rightarrow> u32 list" where
  "insert_before idx n xs = takeWhile (\<lambda>x. x \<noteq> idx) xs @ n # dropWhile (\<lambda>x. x \<noteq> idx) xs"

definition insert_by_value :: "(u32 \<Rightarrow> u32) \<Rightarrow> u32 \<Rightarrow> u32 list \<Rightarrow> u32 list" where
  "insert_by_value val n xs =
    (if val n = portMAX_DELAY then xs @ [n]
     else takeWhile (\<lambda>x. val x \<le> val n) xs @ n # dropWhile (\<lambda>x. val x \<le> val n) xs)"

section \<open>Links\<close>

lemma linked_append:
  "linked h (us @ p # q # vs) \<longleftrightarrow>
   linked h (us @ [p]) \<and> pxNext (l_item h p) = q \<and> pxPrevious (l_item h q) = p \<and> linked h (q # vs)"
proof (induction us)
  case Nil
  then show ?case by simp
next
  case (Cons a us)
  then show ?case by (cases us) auto
qed

lemma linked_cong:
  "(\<And>x. x \<in> set (butlast zs) \<Longrightarrow> pxNext (l_item h' x) = pxNext (l_item h x)) \<Longrightarrow>
   (\<And>x. x \<in> set (tl zs) \<Longrightarrow> pxPrevious (l_item h' x) = pxPrevious (l_item h x)) \<Longrightarrow>
   linked h' zs = linked h zs"
  by (induction h zs rule: linked.induct) auto

text \<open>The link update shared by the two insertions and by removal.\<close>

lemma linked_insert:
  assumes l: "linked h (us @ p # q # vs)"
    and d: "distinct (us @ [p] @ butlast (q # vs))" "distinct (tl (us @ [p]) @ q # vs)"
    and n: "n \<notin> set (us @ p # q # vs)"
    and h': "\<And>x. pxNext (l_item h' x) = (if x = n then q else if x = p then n else pxNext (l_item h x))"
      "\<And>x. pxPrevious (l_item h' x) = (if x = n then p else if x = q then n else pxPrevious (l_item h x))"
  shows "linked h' (us @ p # n # q # vs)"
proof -
  have t: "y \<in> set (tl (us @ [p])) \<Longrightarrow> y \<in> set us \<or> y = p" for y by (cases us) auto
  have 1: "linked h' (us @ [p]) = linked h (us @ [p])"
    using d n t by (intro linked_cong) (auto simp: h' butlast_append dest: in_set_butlastD)
  have 2: "linked h' (q # vs) = linked h (q # vs)"
  proof (rule linked_cong)
    fix y assume y: "y \<in> set (butlast (q # vs))"
    then have "y \<in> set (q # vs)" by (rule in_set_butlastD)
    with y have "y \<noteq> n \<and> y \<noteq> p" using d n by auto
    then show "pxNext (l_item h' y) = pxNext (l_item h y)" by (simp add: h')
  next
    fix y assume "y \<in> set (tl (q # vs))"
    then have "y \<noteq> n \<and> y \<noteq> q" using d n by auto
    then show "pxPrevious (l_item h' y) = pxPrevious (l_item h y)" by (simp add: h')
  qed
  show ?thesis
    using l n unfolding linked_append [of h us p q vs] linked_append [of h' us p n "q # vs"]
    by (auto simp: h' 1 2)
qed

lemma linked_remove:
  assumes l: "linked h (us @ p # x # q # vs)"
    and d: "distinct (us @ [p] @ x # butlast (q # vs))" "distinct (tl (us @ [p]) @ x # q # vs)"
    and h': "\<And>y. y \<noteq> x \<Longrightarrow> pxNext (l_item h' y) = (if y = p then q else pxNext (l_item h y))"
      "\<And>y. y \<noteq> x \<Longrightarrow> pxPrevious (l_item h' y) = (if y = q then p else pxPrevious (l_item h y))"
    and x: "x \<noteq> p" "x \<noteq> q"
  shows "linked h' (us @ p # q # vs)"
proof -
  have 1: "linked h' (us @ [p]) = linked h (us @ [p])"
  proof (rule linked_cong)
    fix y assume "y \<in> set (butlast (us @ [p]))"
    then have "y \<in> set us" by simp
    then have "y \<noteq> x \<and> y \<noteq> p" using d by auto
    then show "pxNext (l_item h' y) = pxNext (l_item h y)" by (simp add: h')
  next
    fix y assume "y \<in> set (tl (us @ [p]))"
    then have "y \<noteq> x \<and> y \<noteq> q" using d by auto
    then show "pxPrevious (l_item h' y) = pxPrevious (l_item h y)" by (simp add: h')
  qed
  have 2: "linked h' (q # vs) = linked h (q # vs)"
  proof (rule linked_cong)
    fix y assume y: "y \<in> set (butlast (q # vs))"
    then have "y \<noteq> x \<and> y \<noteq> p" using d by auto
    then show "pxNext (l_item h' y) = pxNext (l_item h y)" by (simp add: h')
  next
    fix y assume "y \<in> set (tl (q # vs))"
    then have "y \<noteq> x \<and> y \<noteq> q" using d by auto
    then show "pxPrevious (l_item h' y) = pxPrevious (l_item h y)" by (simp add: h')
  qed
  show ?thesis
    using l x unfolding linked_append [of h us p x "q # vs"] linked_append [of h' us p q vs]
    using linked_append [of h "[]" x q vs]
    by (auto simp: h' 1 2)
qed

lemma list_at_linkedD: "list_at h L xs \<Longrightarrow> linked h (xListEnd L # xs @ [xListEnd L])"
  by (simp add: list_at_def Let_def)

lemma list_at_insert:
  assumes at: "list_at h L (as @ bs)" and len: "length (as @ bs) + 1 < 2 ^ 32"
    and n: "n \<notin> set (xListEnd L # as @ bs)"
    and p: "p = last (xListEnd L # as)" and q: "q = hd (bs @ [xListEnd L])"
    and h': "\<And>x. pxNext (l_item h' x) = (if x = n then q else if x = p then n else pxNext (l_item h x))"
      "\<And>x. pxPrevious (l_item h' x) = (if x = n then p else if x = q then n else pxPrevious (l_item h x))"
      "\<And>x. pxContainer (l_item h' x) = (if x = n then L else pxContainer (l_item h x))"
      "\<And>x. xItemValue (l_item h' x) = xItemValue (l_item h x)"
      "l_list h' L = (l_list h L)\<lparr>uxNumberOfItems := uxNumberOfItems (l_list h L) + 1\<rparr>"
  shows "list_at h' L (as @ n # bs)"
proof -
  let ?e = "xListEnd L"
  obtain us where us: "?e # as = us @ [p]"
    using p by (metis append_butlast_last_id list.distinct(1))
  obtain vs where vs: "bs @ [?e] = q # vs"
    using q by (metis append_is_Nil_conv list.distinct(1) list.collapse)
  have ring: "?e # (as @ bs) @ [?e] = us @ p # q # vs" using us vs by simp
  have ring': "?e # (as @ n # bs) @ [?e] = us @ p # n # q # vs" using us vs by simp
  have d: "distinct (?e # as @ bs)" using at by (simp add: list_at_def Let_def)
  have bl: "us @ [p] @ butlast (q # vs) = ?e # as @ bs" using us vs by (metis append_Cons append_assoc butlast_snoc)
  have tl: "tl (us @ [p]) @ q # vs = as @ bs @ [?e]" using us vs by (metis list.sel(3))
  have "linked h' (us @ p # n # q # vs)"
  proof (rule linked_insert [OF _ _ _ _ h'(1,2)])
    show "linked h (us @ p # q # vs)" using list_at_linkedD [OF at] ring by simp
    show "distinct (us @ [p] @ butlast (q # vs))" unfolding bl by (rule d)
    show "distinct (tl (us @ [p]) @ q # vs)" unfolding tl using d by auto
    show "n \<notin> set (us @ p # q # vs)" using n unfolding ring [symmetric] by auto
  qed
  then have "linked h' (?e # (as @ n # bs) @ [?e])" unfolding ring' .
  then show ?thesis
    using at n len h' by (auto simp: list_at_def Let_def)
qed

lemma last_prev:
  "list_at h L (as @ bs) \<Longrightarrow> pxPrevious (l_item h (hd (bs @ [xListEnd L]))) = last (xListEnd L # as)"
proof -
  assume at: "list_at h L (as @ bs)"
  let ?e = "xListEnd L"
  obtain us where us: "?e # as = us @ [last (?e # as)]"
    by (metis append_butlast_last_id list.distinct(1))
  obtain vs where vs: "bs @ [?e] = hd (bs @ [?e]) # vs"
    by (metis append_is_Nil_conv list.distinct(1) list.collapse)
  have "?e # (as @ bs) @ [?e] = us @ last (?e # as) # hd (bs @ [?e]) # vs"
    using us vs by (metis append.assoc append_Cons append_Nil)
  with list_at_linkedD [OF at] linked_append [of h us "last (?e # as)" "hd (bs @ [?e])" vs]
  show ?thesis by simp
qed


lemma list_at_remove:
  assumes at: "list_at h L (as @ x # bs)"
    and p: "p = last (xListEnd L # as)" and q: "q = hd (bs @ [xListEnd L])"
    and h': "\<And>y. y \<noteq> x \<Longrightarrow> pxNext (l_item h' y) = (if y = p then q else pxNext (l_item h y))"
      "\<And>y. y \<noteq> x \<Longrightarrow> pxPrevious (l_item h' y) = (if y = q then p else pxPrevious (l_item h y))"
      "\<And>y. y \<noteq> x \<Longrightarrow> pxContainer (l_item h' y) = pxContainer (l_item h y)"
      "\<And>y. xItemValue (l_item h' y) = xItemValue (l_item h y)"
      "l_list h' L = (l_list h L)\<lparr>uxNumberOfItems := uxNumberOfItems (l_list h L) - 1,
        pxIndex := if pxIndex (l_list h L) = x then p else pxIndex (l_list h L)\<rparr>"
  shows "list_at h' L (as @ bs)"
proof -
  let ?e = "xListEnd L"
  obtain us where us: "?e # as = us @ [p]"
    using p by (metis append_butlast_last_id list.distinct(1))
  obtain vs where vs: "bs @ [?e] = q # vs"
    using q by (metis append_is_Nil_conv list.distinct(1) list.collapse)
  have ring: "?e # (as @ x # bs) @ [?e] = us @ p # x # q # vs" using us vs by simp
  have ring': "?e # (as @ bs) @ [?e] = us @ p # q # vs" using us vs by simp
  have d: "distinct (?e # as @ x # bs)" using at by (simp add: list_at_def Let_def)
  have bl: "us @ [p] @ x # butlast (q # vs) = ?e # as @ x # bs"
    using us vs by (metis append_Cons append_assoc butlast_snoc)
  have tl: "tl (us @ [p]) @ x # q # vs = as @ x # bs @ [?e]" using us vs by (metis list.sel(3))
  have pm: "p \<in> set (?e # as)" using p by (metis last_in_set list.distinct(1))
  have qm: "q \<in> set (bs @ [?e])" using vs by (metis list.set_intros(1))
  have x: "x \<noteq> p" "x \<noteq> q" using d pm qm by auto
  have "linked h' (us @ p # q # vs)"
  proof (rule linked_remove [OF _ _ _ h'(1,2) x])
    show "linked h (us @ p # x # q # vs)" using list_at_linkedD [OF at] ring by simp
    show "distinct (us @ [p] @ x # butlast (q # vs))" unfolding bl by (rule d)
    show "distinct (tl (us @ [p]) @ x # q # vs)" unfolding tl using d by auto
  qed simp_all
  then have "linked h' (?e # (as @ bs) @ [?e])" unfolding ring' .
  moreover have "distinct (?e # as @ bs)" using d by auto
  moreover have "uxNumberOfItems (l_list h' L) = of_nat (length (as @ bs))" "length (as @ bs) < 2 ^ 32"
    using at by (simp_all add: list_at_def Let_def h'(5))
  moreover have "pxIndex (l_list h' L) \<in> set (?e # as @ bs)"
    using at pm by (auto simp: list_at_def Let_def h'(5))
  moreover have "pxContainer (l_item h' y) = L" if y: "y \<in> set (as @ bs)" for y
  proof -
    from y d have "y \<noteq> x" by auto
    with y at show ?thesis by (auto simp: list_at_def Let_def h'(3))
  qed
  moreover have "xItemValue (l_item h' ?e) = portMAX_DELAY"
    using at by (simp add: list_at_def Let_def h'(4))
  ultimately show ?thesis by (simp add: list_at_def Let_def)
qed

lemma last_next:
  "list_at h L (as @ bs) \<Longrightarrow> pxNext (l_item h (last (xListEnd L # as))) = hd (bs @ [xListEnd L])"
proof -
  assume at: "list_at h L (as @ bs)"
  let ?e = "xListEnd L"
  obtain us where us: "?e # as = us @ [last (?e # as)]"
    by (metis append_butlast_last_id list.distinct(1))
  obtain vs where vs: "bs @ [?e] = hd (bs @ [?e]) # vs"
    by (metis append_is_Nil_conv list.distinct(1) list.collapse)
  have "?e # (as @ bs) @ [?e] = us @ last (?e # as) # hd (bs @ [?e]) # vs"
    using us vs by (metis append.assoc append_Cons append_Nil)
  with list_at_linkedD [OF at] linked_append [of h us "last (?e # as)" "hd (bs @ [?e])" vs]
  show ?thesis by simp
qed

lemmas heap_upd = upd_item_def upd_list_def Let_def

lemma vListInitialise_at: "list_at (vListInitialise L h) L []"
  by (simp add: list_at_def vListInitialise_def heap_upd)

lemma vListInsertEnd_fields:
  assumes "q = pxIndex (l_list h L)" "p = pxPrevious (l_item h q)" "n \<noteq> q" "n \<noteq> p"
  shows "pxNext (l_item (vListInsertEnd L n h) x) = (if x = n then q else if x = p then n else pxNext (l_item h x))"
    and "pxPrevious (l_item (vListInsertEnd L n h) x) = (if x = n then p else if x = q then n else pxPrevious (l_item h x))"
    and "pxContainer (l_item (vListInsertEnd L n h) x) = (if x = n then L else pxContainer (l_item h x))"
    and "xItemValue (l_item (vListInsertEnd L n h) x) = xItemValue (l_item h x)"
    and "pvOwner (l_item (vListInsertEnd L n h) x) = pvOwner (l_item h x)"
    and "l_list (vListInsertEnd L n h) = (l_list h)(L := (l_list h L)\<lparr>uxNumberOfItems := uxNumberOfItems (l_list h L) + 1\<rparr>)"
  using assms by (auto simp: vListInsertEnd_def heap_upd)

lemma vListInsert_link_fields:
  assumes "q = pxNext (l_item h p)" "n \<noteq> q" "n \<noteq> p"
  shows "pxNext (l_item (vListInsert_link L n p h) x) = (if x = n then q else if x = p then n else pxNext (l_item h x))"
    and "pxPrevious (l_item (vListInsert_link L n p h) x) = (if x = n then p else if x = q then n else pxPrevious (l_item h x))"
    and "pxContainer (l_item (vListInsert_link L n p h) x) = (if x = n then L else pxContainer (l_item h x))"
    and "xItemValue (l_item (vListInsert_link L n p h) x) = xItemValue (l_item h x)"
    and "pvOwner (l_item (vListInsert_link L n p h) x) = pvOwner (l_item h x)"
    and "l_list (vListInsert_link L n p h) = (l_list h)(L := (l_list h L)\<lparr>uxNumberOfItems := uxNumberOfItems (l_list h L) + 1\<rparr>)"
  using assms by (auto simp: vListInsert_link_def heap_upd)

lemma last_mem: "last (e # as) \<in> set (e # as)"
  by (rule last_in_set) simp

lemma hd_mem: "hd (bs @ [e]) \<in> set (bs @ [e])"
  by (rule hd_in_set) simp

lemma vListInsertEnd_at:
  assumes at: "list_at h L xs" and len: "length xs + 1 < 2 ^ 32" and n: "n \<notin> set (xListEnd L # xs)"
  shows "list_at (vListInsertEnd L n h) L (insert_before (pxIndex (l_list h L)) n xs)"
proof -
  define idx where "idx = pxIndex (l_list h L)"
  define as bs where "as = takeWhile (\<lambda>x. x \<noteq> idx) xs" and "bs = dropWhile (\<lambda>x. x \<noteq> idx) xs"
  have xs: "as @ bs = xs" by (simp add: as_def bs_def)
  have mem: "idx \<in> set (xListEnd L # xs)" using at by (simp add: list_at_def Let_def idx_def)
  then have q: "idx = hd (bs @ [xListEnd L])"
    unfolding bs_def by (induction xs) auto
  have prv: "last (xListEnd L # as) = pxPrevious (l_item h idx)"
    using last_prev [of h L as bs] at xs q by simp
  have pq: "n \<noteq> idx" "n \<noteq> last (xListEnd L # as)"
    using n mem last_mem [of "xListEnd L" as] xs by auto
  note f = vListInsertEnd_fields [OF idx_def prv pq]
  have "list_at (vListInsertEnd L n h) L (as @ n # bs)"
    by (rule list_at_insert [OF _ _ _ refl q f(1,2,3,4)]) (use at len n xs f(6) in auto)
  then show ?thesis by (simp add: insert_before_def as_def bs_def idx_def)
qed

lemma max_delay_top: "v \<noteq> portMAX_DELAY \<Longrightarrow> \<not> portMAX_DELAY \<le> v"
  using unat_u32_less [of v] by (simp add: word_le_nat_alt word_unat_eq_iff)

lemma le_max_delay: "v \<le> portMAX_DELAY"
  using unat_u32_less [of v] by (simp add: word_le_nat_alt)

lemma vListInsert_find_at:
  assumes "linked h (it # ys @ [e])" "xItemValue (l_item h e) = portMAX_DELAY" "v \<noteq> portMAX_DELAY"
    "length ys \<le> fuel"
  shows "vListInsert_find fuel v it h = Inr (last (it # takeWhile (\<lambda>x. xItemValue (l_item h x) \<le> v) ys))"
  using assms
proof (induction ys arbitrary: it fuel)
  case Nil
  have "\<not> portMAX_DELAY \<le> v" using Nil(3) by (rule max_delay_top)
  with Nil show ?case by (simp add: vListInsert_find.simps)
next
  case (Cons y ys)
  obtain m where m: "fuel = Suc m" using Cons.prems(4) by (cases fuel) auto
  have "pxNext (l_item h it) = y" "linked h (y # ys @ [e])" using Cons.prems(1) by auto
  with Cons show ?case unfolding m by (subst vListInsert_find.simps) auto
qed

lemma vListInsert_at:
  assumes at: "list_at h L xs" and len: "length xs + 1 < 2 ^ 32" and n: "n \<notin> set (xListEnd L # xs)"
  shows "\<exists>h'. vListInsert L n h = Inr h' \<and>
    list_at h' L (insert_by_value (\<lambda>x. xItemValue (l_item h x)) n xs) \<and>
    (\<forall>x. xItemValue (l_item h' x) = xItemValue (l_item h x) \<and> pvOwner (l_item h' x) = pvOwner (l_item h x))"
proof -
  let ?e = "xListEnd L" and ?val = "\<lambda>x. xItemValue (l_item h x)"
  let ?v = "?val n"
  define as where "as = (if ?v = portMAX_DELAY then xs else takeWhile (\<lambda>x. ?val x \<le> ?v) xs)"
  define bs where "bs = (if ?v = portMAX_DELAY then [] else dropWhile (\<lambda>x. ?val x \<le> ?v) xs)"
  define p where "p = last (?e # as)"
  have xs: "as @ bs = xs" by (simp add: as_def bs_def)
  have cnt: "unat (uxNumberOfItems (l_list h L)) = length xs"
    using at by (simp add: list_at_def Let_def unat_of_nat_u32)
  have "(if ?v = portMAX_DELAY then Inr (pxPrevious (l_item h ?e))
         else vListInsert_find (unat (uxNumberOfItems (l_list h L))) ?v ?e h) = Inr p"
  proof (cases "?v = portMAX_DELAY")
    case True
    then show ?thesis using last_prev [of h L xs "[]"] at by (simp add: p_def as_def)
  next
    case False
    moreover have "vListInsert_find (length xs) ?v ?e h = Inr p"
      unfolding p_def using False at
      by (subst vListInsert_find_at [of h ?e xs ?e]) (simp_all add: as_def list_at_def Let_def)
    ultimately show ?thesis by (simp add: cnt)
  qed
  then have run: "vListInsert L n h = Inr (vListInsert_link L n p h)"
    by (simp add: vListInsert_def Let_def)
  have q: "hd (bs @ [?e]) = pxNext (l_item h p)"
    using last_next [of h L as bs] at xs by (simp add: p_def)
  have pq: "n \<noteq> hd (bs @ [?e])" "n \<noteq> p"
    using n last_mem [of ?e as] hd_mem [of bs ?e] xs by (auto simp: p_def)
  note f = vListInsert_link_fields [OF q pq]
  have "list_at (vListInsert_link L n p h) L (as @ n # bs)"
    by (rule list_at_insert [OF _ _ _ p_def refl f(1,2,3,4)]) (use at len n xs f(6) in auto)
  moreover have "insert_by_value ?val n xs = as @ n # bs"
    by (simp add: insert_by_value_def as_def bs_def)
  ultimately show ?thesis using run f(4,5) by auto
qed

lemma sorted_split_insert:
  "sorted (map val xs) \<Longrightarrow>
   sorted (map val (takeWhile (\<lambda>x. val x \<le> val n) xs @ n # dropWhile (\<lambda>x. val x \<le> val n) xs))"
  for val :: "'a \<Rightarrow> 'b :: linorder"
  by (induction xs) (auto simp: not_le dest!: set_takeWhileD set_dropWhileD intro: less_imp_le order_trans)

lemma insert_by_value_sorted:
  "sorted (map val xs) \<Longrightarrow> sorted (map val (insert_by_value val n xs))"
proof (cases "val n = portMAX_DELAY")
  case True
  then have "\<forall>x\<in>set xs. val x \<le> val n" using le_max_delay by auto
  moreover assume "sorted (map val xs)"
  ultimately show ?thesis using True by (simp add: insert_by_value_def sorted_append)
next
  case False
  assume "sorted (map val xs)"
  with False sorted_split_insert [of val xs n] show ?thesis by (simp add: insert_by_value_def)
qed

lemma insert_by_value_split:
  assumes "sorted (map val xs)"
  shows "\<exists>as bs. insert_by_value val n xs = as @ n # bs \<and> xs = as @ bs \<and>
    (\<forall>x\<in>set as. val x \<le> val n) \<and> (\<forall>x\<in>set bs. val n < val x)"
proof (cases "val n = portMAX_DELAY")
  case True
  then show ?thesis using le_max_delay by (intro exI [of _ xs] exI [of _ "[]"]) (auto simp: insert_by_value_def)
next
  case False
  have "val n < val x" if "x \<in> set (dropWhile (\<lambda>x. val x \<le> val n) xs)" for x
    using assms that by (induction xs) (auto simp: not_le split: if_splits)
  then show ?thesis using False
    by (intro exI [of _ "takeWhile (\<lambda>x. val x \<le> val n) xs"] exI [of _ "dropWhile (\<lambda>x. val x \<le> val n) xs"])
      (auto simp: insert_by_value_def dest: set_takeWhileD)
qed

lemma uxListRemove_fields:
  assumes "L = pxContainer (l_item h x)" "q = pxNext (l_item h x)" "p = pxPrevious (l_item h x)" "x \<noteq> q" "x \<noteq> p"
  shows "y \<noteq> x \<Longrightarrow> pxNext (l_item (fst (uxListRemove x h)) y) = (if y = p then q else pxNext (l_item h y))"
    and "y \<noteq> x \<Longrightarrow> pxPrevious (l_item (fst (uxListRemove x h)) y) = (if y = q then p else pxPrevious (l_item h y))"
    and "pxContainer (l_item (fst (uxListRemove x h)) y) = (if y = x then NULL else pxContainer (l_item h y))"
    and "xItemValue (l_item (fst (uxListRemove x h)) y) = xItemValue (l_item h y)"
    and "pvOwner (l_item (fst (uxListRemove x h)) y) = pvOwner (l_item h y)"
    and "l_list (fst (uxListRemove x h)) = (l_list h)(L := (l_list h L)\<lparr>uxNumberOfItems := uxNumberOfItems (l_list h L) - 1,
        pxIndex := if pxIndex (l_list h L) = x then p else pxIndex (l_list h L)\<rparr>)"
    and "snd (uxListRemove x h) = uxNumberOfItems (l_list h L) - 1"
  using assms by (auto simp: uxListRemove_def heap_upd)

lemma uxListRemove_at:
  assumes at: "list_at h L xs" and x: "x \<in> set xs"
  shows "list_at (fst (uxListRemove x h)) L (remove1 x xs) \<and>
    snd (uxListRemove x h) = of_nat (length xs - 1) \<and> pxContainer (l_item (fst (uxListRemove x h)) x) = NULL"
proof -
  let ?e = "xListEnd L"
  obtain as bs where xs: "xs = as @ x # bs" using x by (meson split_list)
  have d: "distinct (?e # as @ x # bs)" and c: "L = pxContainer (l_item h x)"
    and cnt: "uxNumberOfItems (l_list h L) = of_nat (length xs)"
    using at x by (auto simp: list_at_def Let_def xs)
  have q: "hd (bs @ [?e]) = pxNext (l_item h x)"
    using last_next [of h L "as @ [x]" bs] at by (simp add: xs)
  have p: "last (?e # as) = pxPrevious (l_item h x)"
    using last_prev [of h L as "x # bs"] at by (simp add: xs)
  have ne: "x \<noteq> hd (bs @ [?e])" "x \<noteq> last (?e # as)"
    using d last_mem [of ?e as] hd_mem [of bs ?e] by auto
  note f = uxListRemove_fields [OF c q p ne]
  have "list_at (fst (uxListRemove x h)) L (as @ bs)"
    by (rule list_at_remove [OF at [unfolded xs] refl refl f(1,2) _ f(4)]) (simp_all add: f(3,6))
  moreover have "remove1 x xs = as @ bs" using d by (simp add: xs remove1_append)
  moreover have "snd (uxListRemove x h) = of_nat (length xs - 1)"
    using f(7) cnt by (simp add: xs)
  ultimately show ?thesis using f(3) [of x] by simp
qed

section \<open>Properties\<close>

text \<open>(C26) Sorted insertion. On a well-formed list \<open>vListInsert\<close> leaves its search loop, the new item
  stands after every item whose value is not above its own and before the first larger one, the list
  stays well-formed and, when it was sorted by item value, sorted; item values and owners are untouched.\<close>

theorem vListInsert_refines:
  assumes "list_at h L xs" "length xs + 1 < 2 ^ 32" "n \<notin> set (xListEnd L # xs)"
    "sorted (map (\<lambda>x. xItemValue (l_item h x)) xs)"
  shows "\<exists>h' as bs. vListInsert L n h = Inr h' \<and> list_at h' L (as @ n # bs) \<and> xs = as @ bs \<and>
    (\<forall>x\<in>set as. xItemValue (l_item h x) \<le> xItemValue (l_item h n)) \<and>
    (\<forall>x\<in>set bs. xItemValue (l_item h n) < xItemValue (l_item h x)) \<and>
    sorted (map (\<lambda>x. xItemValue (l_item h' x)) (as @ n # bs)) \<and>
    (\<forall>x. xItemValue (l_item h' x) = xItemValue (l_item h x) \<and> pvOwner (l_item h' x) = pvOwner (l_item h x))"
proof -
  let ?val = "\<lambda>x. xItemValue (l_item h x)"
  obtain h' where h': "vListInsert L n h = Inr h'" "list_at h' L (insert_by_value ?val n xs)"
    and same: "\<forall>x. xItemValue (l_item h' x) = ?val x \<and> pvOwner (l_item h' x) = pvOwner (l_item h x)"
    using vListInsert_at [OF assms(1-3)] by blast
  have "sorted (map ?val (insert_by_value ?val n xs))" by (rule insert_by_value_sorted [OF assms(4)])
  moreover obtain as bs where "insert_by_value ?val n xs = as @ n # bs" "xs = as @ bs"
    "\<forall>x\<in>set as. ?val x \<le> ?val n" "\<forall>x\<in>set bs. ?val n < ?val x"
    using insert_by_value_split [OF assms(4)] by blast
  ultimately show ?thesis using h' same by auto
qed

theorem vListInsert_refines_witness:
  "\<exists>h'. vListInsert 0x1000 0x2000 (vListInitialise 0x1000 \<lparr>l_item = \<lambda>_. \<lparr>xItemValue = 5, pxNext = 0,
     pxPrevious = 0, pvOwner = 7, pxContainer = 0\<rparr>, l_list = \<lambda>_. \<lparr>uxNumberOfItems = 9, pxIndex = 0\<rparr>\<rparr>) = Inr h' \<and>
     list_at h' 0x1000 [0x2000]"
  using vListInsert_refines [OF vListInitialise_at, of "0x2000" "0x1000" "\<lparr>l_item = \<lambda>_. \<lparr>xItemValue = 5,
     pxNext = 0, pxPrevious = 0, pvOwner = 7, pxContainer = 0\<rparr>, l_list = \<lambda>_. \<lparr>uxNumberOfItems = 9, pxIndex = 0\<rparr>\<rparr>"]
  unfolding xListEnd_def by auto

text \<open>(C27) Removal. Removing an item of a well-formed list leaves the list well-formed with exactly that
  item gone, returns the number of items left and marks the item as being on no list, also when the
  walking index pointed at it.\<close>

theorem uxListRemove_refines:
  assumes "list_at h L xs" "x \<in> set xs"
  shows "list_at (fst (uxListRemove x h)) L (remove1 x xs) \<and>
    unat (snd (uxListRemove x h)) = length xs - 1 \<and> pxContainer (l_item (fst (uxListRemove x h)) x) = NULL"
proof -
  have "length xs < 2 ^ 32" using assms(1) by (simp add: list_at_def Let_def)
  then have "length xs - 1 < 2 ^ 32" by linarith
  then show ?thesis using uxListRemove_at [OF assms] by (simp add: unat_of_nat_u32)
qed

theorem uxListRemove_refines_witness:
  "let h = vListInsertEnd 0x1000 0x2000 (vListInitialise 0x1000 \<lparr>l_item = \<lambda>_. \<lparr>xItemValue = 5, pxNext = 0,
     pxPrevious = 0, pvOwner = 7, pxContainer = 0\<rparr>, l_list = \<lambda>_. \<lparr>uxNumberOfItems = 9, pxIndex = 0\<rparr>\<rparr>)
   in list_at (fst (uxListRemove 0x2000 h)) 0x1000 []"
proof -
  define h0 where "h0 = \<lparr>l_item = \<lambda>_. \<lparr>xItemValue = 5, pxNext = 0,
     pxPrevious = 0, pvOwner = 7, pxContainer = 0\<rparr>, l_list = \<lambda>_. \<lparr>uxNumberOfItems = 9, pxIndex = 0\<rparr>\<rparr>"
  have "list_at (vListInsertEnd 0x1000 0x2000 (vListInitialise 0x1000 h0)) 0x1000 [0x2000]"
    using vListInsertEnd_at [OF vListInitialise_at, of "0x2000" "0x1000" h0]
    by (simp add: xListEnd_def insert_before_def)
  from uxListRemove_refines [OF this, of "0x2000"] show ?thesis by (simp add: h0_def Let_def)
qed

end
