(* ===== verification/Freertos_Tasks.thy ===== *)
theory Freertos_Tasks
  imports Freertos_List
begin

text \<open>
  The scheduler operations of \<open>FreeRTOS/Source/tasks.c\<close> that the queues and the delays of the
  gateway rest on: ready and delayed lists, the event lists of the queues, the tick with its two
  delayed lists, suspension and resumption of the scheduler, time-outs and priority inheritance.
  The configuration is that of \<open>generate/include/FreeRTOSConfig.h\<close>: pre-emption and time slicing
  on, no trace, no tickless idle, no port-optimised selection, \<open>vTaskSuspend\<close> and
  \<open>xTaskAbortDelay\<close> included. The state extends the list heap; the addresses the linker gives to
  the static lists are fields of it. A yield is the PendSV request bit, whose handler runs
  \<open>vTaskSwitchContext\<close>. Critical sections are the steps of the model: an operation between
  entering and leaving one is a single function.
\<close>

section \<open>State\<close>

record TCB_t =
  pxTopOfStack :: u32
  uxPriority :: u32
  pxStack :: u32
  pcTaskName :: "u8 list"
  uxBasePriority :: u32
  uxMutexesHeld :: u32
  pvThreadLocalStoragePointers :: "u32 list"
  ulNotifiedValue :: u32
  ucNotifyState :: u8
  ucDelayAborted :: bool

record TimeOut_t =
  xOverflowCount :: u32
  xTimeOnEntering :: u32

record kernel = list_heap +
  tcb :: "u32 \<Rightarrow> TCB_t"
  pxCurrentTCB :: u32
  pxReadyTasksLists :: u32
  xPendingReadyList :: u32
  xSuspendedTaskList :: u32
  xTasksWaitingTermination :: u32
  xDelayedTaskList1 :: u32
  xDelayedTaskList2 :: u32
  pxDelayedTaskList :: u32
  pxOverflowDelayedTaskList :: u32
  uxCurrentNumberOfTasks :: u32
  xTickCount :: u32
  uxTopReadyPriority :: u32
  xSchedulerRunning :: bool
  xPendedTicks :: u32
  xYieldPending :: bool
  xNumOfOverflows :: u32
  xNextTaskUnblockTime :: u32
  uxSchedulerSuspended :: u32
  uxDeletedTasksWaitingCleanUp :: u32
  uxTaskNumber :: u32
  xIdleTaskHandle :: u32
  stack_mem :: "u32 \<Rightarrow> u32"
  pendSV :: bool

abbreviation configMAX_PRIORITIES :: u32 where "configMAX_PRIORITIES \<equiv> 8"
abbreviation taskEVENT_LIST_ITEM_VALUE_IN_USE :: u32 where
  "taskEVENT_LIST_ITEM_VALUE_IN_USE \<equiv> 0x80000000"

definition xStateListItem :: "u32 \<Rightarrow> u32" where "xStateListItem pxTCB = pxTCB + 4"
definition xEventListItem :: "u32 \<Rightarrow> u32" where "xEventListItem pxTCB = pxTCB + 24"

text \<open>\<open>&pxReadyTasksLists[ uxPriority ]\<close>; a \<open>List_t\<close> has 20 bytes.\<close>

definition ready_list :: "u32 \<Rightarrow> 'a kernel_scheme \<Rightarrow> u32" where
  "ready_list prio k = pxReadyTasksLists k + 20 * prio"

definition upd_tcb :: "u32 \<Rightarrow> (TCB_t \<Rightarrow> TCB_t) \<Rightarrow> 'a kernel_scheme \<Rightarrow> 'a kernel_scheme" where
  "upd_tcb t f k = k\<lparr>tcb := (tcb k)(t := f (tcb k t))\<rparr>"

definition portYIELD_WITHIN_API :: "'a kernel_scheme \<Rightarrow> 'a kernel_scheme" where
  "portYIELD_WITHIN_API k = k\<lparr>pendSV := True\<rparr>"

text \<open>The macros \<open>listREMOVE_ITEM\<close> and \<open>listINSERT_END\<close> are the inline forms of the two functions.\<close>

definition listREMOVE_ITEM :: "u32 \<Rightarrow> 'a list_heap_scheme \<Rightarrow> 'a list_heap_scheme" where
  "listREMOVE_ITEM x h = fst (uxListRemove x h)"

definition listINSERT_END :: "u32 \<Rightarrow> u32 \<Rightarrow> 'a list_heap_scheme \<Rightarrow> 'a list_heap_scheme" where
  "listINSERT_END pxList pxNewListItem h = vListInsertEnd pxList pxNewListItem h"

section \<open>Ready lists and selection\<close>

definition taskRECORD_READY_PRIORITY :: "u32 \<Rightarrow> 'a kernel_scheme \<Rightarrow> 'a kernel_scheme" where
  "taskRECORD_READY_PRIORITY prio k =
    (if prio > uxTopReadyPriority k then k\<lparr>uxTopReadyPriority := prio\<rparr> else k)"

definition prvAddTaskToReadyList :: "u32 \<Rightarrow> 'a kernel_scheme \<Rightarrow> 'a kernel_scheme" where
  "prvAddTaskToReadyList pxTCB k =
    (let prio = uxPriority (tcb k pxTCB);
         k1 = taskRECORD_READY_PRIORITY prio k
     in listINSERT_END (ready_list prio k1) (xStateListItem pxTCB) k1)"

fun select_top_loop :: "nat \<Rightarrow> 'a kernel_scheme \<Rightarrow> u32 res" where
  "select_top_loop topPrio k =
    (if listLIST_IS_EMPTY (ready_list (of_nat topPrio) k) k
     then (case topPrio of 0 \<Rightarrow> Inl DevAssertFailed | Suc n \<Rightarrow> select_top_loop n k)
     else Inr (of_nat topPrio))"

declare select_top_loop.simps [simp del]

definition taskSELECT_HIGHEST_PRIORITY_TASK :: "'a kernel_scheme \<Rightarrow> 'a kernel_scheme res" where
  "taskSELECT_HIGHEST_PRIORITY_TASK k =
    rbind (select_top_loop (unat (uxTopReadyPriority k)) k) (\<lambda>topPrio.
      let (k1, owner) = listGET_OWNER_OF_NEXT_ENTRY (ready_list topPrio k) k
      in Inr (k1\<lparr>pxCurrentTCB := owner, uxTopReadyPriority := topPrio\<rparr>))"

definition vTaskSwitchContext :: "'a kernel_scheme \<Rightarrow> 'a kernel_scheme res" where
  "vTaskSwitchContext k =
    (if uxSchedulerSuspended k \<noteq> 0 then Inr (k\<lparr>xYieldPending := True\<rparr>)
     else taskSELECT_HIGHEST_PRIORITY_TASK (k\<lparr>xYieldPending := False\<rparr>))"

section \<open>The tick and the delayed lists\<close>

definition prvResetNextTaskUnblockTime :: "'a kernel_scheme \<Rightarrow> 'a kernel_scheme" where
  "prvResetNextTaskUnblockTime k =
    (if listLIST_IS_EMPTY (pxDelayedTaskList k) k then k\<lparr>xNextTaskUnblockTime := portMAX_DELAY\<rparr>
     else k\<lparr>xNextTaskUnblockTime := listGET_ITEM_VALUE_OF_HEAD_ENTRY (pxDelayedTaskList k) k\<rparr>)"

definition taskSWITCH_DELAYED_LISTS :: "'a kernel_scheme \<Rightarrow> 'a kernel_scheme res" where
  "taskSWITCH_DELAYED_LISTS k =
    dev_assert (listLIST_IS_EMPTY (pxDelayedTaskList k) k)
     (let k1 = k\<lparr>pxDelayedTaskList := pxOverflowDelayedTaskList k,
                 pxOverflowDelayedTaskList := pxDelayedTaskList k,
                 xNumOfOverflows := xNumOfOverflows k + 1\<rparr>
      in Inr (prvResetNextTaskUnblockTime k1))"

text \<open>
  The unblocking loop of \<open>xTaskIncrementTick\<close>: each round that does not leave removes the head of
  the delayed list, so it is given as many rounds as the list has items, and one more to leave.
\<close>

fun increment_tick_loop :: "nat \<Rightarrow> u32 \<Rightarrow> bool \<Rightarrow> 'a kernel_scheme \<Rightarrow> ('a kernel_scheme \<times> bool) res" where
  "increment_tick_loop n now sw k =
    (if listLIST_IS_EMPTY (pxDelayedTaskList k) k then Inr (k\<lparr>xNextTaskUnblockTime := portMAX_DELAY\<rparr>, sw)
     else let pxTCB = listGET_OWNER_OF_HEAD_ENTRY (pxDelayedTaskList k) k;
              v = xItemValue (l_item k (xStateListItem pxTCB))
          in if now < v then Inr (k\<lparr>xNextTaskUnblockTime := v\<rparr>, sw)
             else case n of 0 \<Rightarrow> Inl NoExit
                  | Suc m \<Rightarrow>
                    let k1 = listREMOVE_ITEM (xStateListItem pxTCB) k;
                        k2 = (if pxContainer (l_item k1 (xEventListItem pxTCB)) \<noteq> NULL
                              then listREMOVE_ITEM (xEventListItem pxTCB) k1 else k1);
                        k3 = prvAddTaskToReadyList pxTCB k2;
                        sw' = (if uxPriority (tcb k3 pxTCB) \<ge> uxPriority (tcb k3 (pxCurrentTCB k3))
                               then True else sw)
                    in increment_tick_loop m now sw' k3)"

declare increment_tick_loop.simps [simp del]

definition xTaskIncrementTick :: "'a kernel_scheme \<Rightarrow> ('a kernel_scheme \<times> bool) res" where
  "xTaskIncrementTick k =
    (if uxSchedulerSuspended k = 0
     then let now = xTickCount k + 1;
              k1 = k\<lparr>xTickCount := now\<rparr>
          in rbind (if now = 0 then taskSWITCH_DELAYED_LISTS k1 else Inr k1) (\<lambda>k2.
             rbind (if now \<ge> xNextTaskUnblockTime k2
                    then increment_tick_loop
                           (unat (uxNumberOfItems (l_list k2 (pxDelayedTaskList k2)))) now False k2
                    else Inr (k2, False)) (\<lambda>(k3, sw).
             let sw1 = (if uxNumberOfItems (l_list k3 (ready_list (uxPriority (tcb k3 (pxCurrentTCB k3))) k3)) > 1
                        then True else sw);
                 sw2 = (if xYieldPending k3 then True else sw1)
             in Inr (k3, sw2)))
     else Inr (k\<lparr>xPendedTicks := xPendedTicks k + 1\<rparr>, False))"

section \<open>Suspending and resuming the scheduler\<close>

definition vTaskSuspendAll :: "'a kernel_scheme \<Rightarrow> 'a kernel_scheme" where
  "vTaskSuspendAll k = k\<lparr>uxSchedulerSuspended := uxSchedulerSuspended k + 1\<rparr>"

text \<open>The first loop of \<open>xTaskResumeAll\<close>, with the last task moved (\<open>pxTCB\<close>, initially \<open>NULL\<close>).\<close>

fun resume_pending_loop :: "nat \<Rightarrow> u32 \<Rightarrow> 'a kernel_scheme \<Rightarrow> ('a kernel_scheme \<times> u32) res" where
  "resume_pending_loop n lastTCB k =
    (if listLIST_IS_EMPTY (xPendingReadyList k) k then Inr (k, lastTCB)
     else case n of 0 \<Rightarrow> Inl NoExit
          | Suc m \<Rightarrow>
            let pxTCB = listGET_OWNER_OF_HEAD_ENTRY (xPendingReadyList k) k;
                k1 = listREMOVE_ITEM (xEventListItem pxTCB) k;
                k2 = listREMOVE_ITEM (xStateListItem pxTCB) k1;
                k3 = prvAddTaskToReadyList pxTCB k2;
                k4 = (if uxPriority (tcb k3 pxTCB) \<ge> uxPriority (tcb k3 (pxCurrentTCB k3))
                      then k3\<lparr>xYieldPending := True\<rparr> else k3)
            in resume_pending_loop m pxTCB k4)"

declare resume_pending_loop.simps [simp del]

fun resume_ticks_loop :: "nat \<Rightarrow> 'a kernel_scheme \<Rightarrow> 'a kernel_scheme res" where
  "resume_ticks_loop 0 k = Inr k"
| "resume_ticks_loop (Suc n) k =
    rbind (xTaskIncrementTick k) (\<lambda>(k1, sw).
      resume_ticks_loop n (if sw then k1\<lparr>xYieldPending := True\<rparr> else k1))"

definition xTaskResumeAll :: "'a kernel_scheme \<Rightarrow> ('a kernel_scheme \<times> bool) res" where
  "xTaskResumeAll k =
    dev_assert (uxSchedulerSuspended k \<noteq> 0)
     (let k1 = k\<lparr>uxSchedulerSuspended := uxSchedulerSuspended k - 1\<rparr>
      in if uxSchedulerSuspended k1 = 0 \<and> uxCurrentNumberOfTasks k1 > 0
         then rbind (resume_pending_loop (unat (uxNumberOfItems (l_list k1 (xPendingReadyList k1)))) NULL k1)
               (\<lambda>(k2, lastTCB).
                let k3 = (if lastTCB \<noteq> NULL then prvResetNextTaskUnblockTime k2 else k2);
                    pended = xPendedTicks k3
                in rbind (if pended > 0
                          then rbind (resume_ticks_loop (unat pended) k3) (\<lambda>k4. Inr (k4\<lparr>xPendedTicks := 0\<rparr>))
                          else Inr k3) (\<lambda>k5.
                   if xYieldPending k5 then Inr (portYIELD_WITHIN_API k5, True) else Inr (k5, False)))
         else Inr (k1, False))"

section \<open>Event lists and delays\<close>

definition prvAddCurrentTaskToDelayedList :: "u32 \<Rightarrow> bool \<Rightarrow> 'a kernel_scheme \<Rightarrow> 'a kernel_scheme res" where
  "prvAddCurrentTaskToDelayedList xTicksToWait xCanBlockIndefinitely k =
    (let now = xTickCount k;
         cur = pxCurrentTCB k;
         k1 = upd_tcb cur (\<lambda>t. t\<lparr>ucDelayAborted := False\<rparr>) k;
         k2 = fst (uxListRemove (xStateListItem cur) k1)
     in if xTicksToWait = portMAX_DELAY \<and> xCanBlockIndefinitely
        then Inr (listINSERT_END (xSuspendedTaskList k2) (xStateListItem cur) k2)
        else let wake = now + xTicksToWait;
                 k3 = upd_item (xStateListItem cur) (\<lambda>i. i\<lparr>xItemValue := wake\<rparr>) k2
             in if wake < now
                then vListInsert (pxOverflowDelayedTaskList k3) (xStateListItem cur) k3
                else rbind (vListInsert (pxDelayedTaskList k3) (xStateListItem cur) k3) (\<lambda>k4.
                       Inr (if wake < xNextTaskUnblockTime k4 then k4\<lparr>xNextTaskUnblockTime := wake\<rparr> else k4)))"

definition vTaskPlaceOnEventList :: "u32 \<Rightarrow> u32 \<Rightarrow> 'a kernel_scheme \<Rightarrow> 'a kernel_scheme res" where
  "vTaskPlaceOnEventList pxEventList xTicksToWait k =
    dev_assert (pxEventList \<noteq> NULL)
     (rbind (vListInsert pxEventList (xEventListItem (pxCurrentTCB k)) k)
        (prvAddCurrentTaskToDelayedList xTicksToWait True))"

definition xTaskRemoveFromEventList :: "u32 \<Rightarrow> 'a kernel_scheme \<Rightarrow> ('a kernel_scheme \<times> bool) res" where
  "xTaskRemoveFromEventList pxEventList k =
    (let t = listGET_OWNER_OF_HEAD_ENTRY pxEventList k
     in dev_assert (t \<noteq> NULL)
         (let k1 = listREMOVE_ITEM (xEventListItem t) k;
              k2 = (if uxSchedulerSuspended k1 = 0
                    then prvAddTaskToReadyList t (listREMOVE_ITEM (xStateListItem t) k1)
                    else listINSERT_END (xPendingReadyList k1) (xEventListItem t) k1)
          in if uxPriority (tcb k2 t) > uxPriority (tcb k2 (pxCurrentTCB k2))
             then Inr (k2\<lparr>xYieldPending := True\<rparr>, True) else Inr (k2, False)))"

definition vTaskDelay :: "u32 \<Rightarrow> 'a kernel_scheme \<Rightarrow> 'a kernel_scheme res" where
  "vTaskDelay xTicksToDelay k =
    rbind (if xTicksToDelay > 0
           then dev_assert (uxSchedulerSuspended k = 0)
                 (rbind (prvAddCurrentTaskToDelayedList xTicksToDelay False (vTaskSuspendAll k)) xTaskResumeAll)
           else Inr (k, False)) (\<lambda>(k1, yielded).
      Inr (if yielded then k1 else portYIELD_WITHIN_API k1))"

text \<open>\<open>xTaskDelayUntil\<close> returns the new \<open>*pxPreviousWakeTime\<close> and \<open>xShouldDelay\<close>.\<close>

definition delay_until_should :: "u32 \<Rightarrow> u32 \<Rightarrow> u32 \<Rightarrow> bool" where
  "delay_until_should now prev wake =
    (if now < prev then wake < prev \<and> wake > now else wake < prev \<or> wake > now)"

definition xTaskDelayUntil :: "u32 \<Rightarrow> u32 \<Rightarrow> 'a kernel_scheme \<Rightarrow> ('a kernel_scheme \<times> u32 \<times> bool) res" where
  "xTaskDelayUntil prev xTimeIncrement k =
    dev_assert (xTimeIncrement > 0) (dev_assert (uxSchedulerSuspended k = 0)
     (let k1 = vTaskSuspendAll k;
          now = xTickCount k1;
          wake = prev + xTimeIncrement;
          should = delay_until_should now prev wake
      in rbind (if should then prvAddCurrentTaskToDelayedList (wake - now) False k1 else Inr k1) (\<lambda>k2.
         rbind (xTaskResumeAll k2) (\<lambda>(k3, yielded).
           Inr (if yielded then k3 else portYIELD_WITHIN_API k3, wake, should)))))"

section \<open>Time-outs\<close>

definition vTaskInternalSetTimeOutState :: "'a kernel_scheme \<Rightarrow> TimeOut_t" where
  "vTaskInternalSetTimeOutState k = \<lparr>xOverflowCount = xNumOfOverflows k, xTimeOnEntering = xTickCount k\<rparr>"

text \<open>The result carries the kernel (the abort flag is cleared), \<open>*pxTimeOut\<close>, \<open>*pxTicksToWait\<close> and the answer.\<close>

definition xTaskCheckForTimeOut ::
  "TimeOut_t \<Rightarrow> u32 \<Rightarrow> 'a kernel_scheme \<Rightarrow> 'a kernel_scheme \<times> TimeOut_t \<times> u32 \<times> bool" where
  "xTaskCheckForTimeOut pxTimeOut xTicksToWait k =
    (let now = xTickCount k;
         elapsed = now - xTimeOnEntering pxTimeOut
     in if ucDelayAborted (tcb k (pxCurrentTCB k))
        then (upd_tcb (pxCurrentTCB k) (\<lambda>t. t\<lparr>ucDelayAborted := False\<rparr>) k, pxTimeOut, xTicksToWait, True)
        else if xTicksToWait = portMAX_DELAY then (k, pxTimeOut, xTicksToWait, False)
        else if xNumOfOverflows k \<noteq> xOverflowCount pxTimeOut \<and> now \<ge> xTimeOnEntering pxTimeOut
        then (k, pxTimeOut, 0, True)
        else if elapsed < xTicksToWait
        then (k, vTaskInternalSetTimeOutState k, xTicksToWait - elapsed, False)
        else (k, pxTimeOut, 0, True))"

definition vTaskMissedYield :: "'a kernel_scheme \<Rightarrow> 'a kernel_scheme" where
  "vTaskMissedYield k = k\<lparr>xYieldPending := True\<rparr>"

datatype sched_state = SCHEDULER_SUSPENDED | SCHEDULER_NOT_STARTED | SCHEDULER_RUNNING

definition xTaskGetSchedulerState :: "'a kernel_scheme \<Rightarrow> sched_state" where
  "xTaskGetSchedulerState k =
    (if \<not> xSchedulerRunning k then SCHEDULER_NOT_STARTED
     else if uxSchedulerSuspended k = 0 then SCHEDULER_RUNNING else SCHEDULER_SUSPENDED)"

section \<open>Priority inheritance\<close>

definition set_event_value :: "u32 \<Rightarrow> u32 \<Rightarrow> 'a kernel_scheme \<Rightarrow> 'a kernel_scheme" where
  "set_event_value t prio k =
    upd_item (xEventListItem t) (\<lambda>i. i\<lparr>xItemValue := configMAX_PRIORITIES - prio\<rparr>) k"

definition event_value_in_use :: "u32 \<Rightarrow> 'a kernel_scheme \<Rightarrow> bool" where
  "event_value_in_use t k \<longleftrightarrow>
    xItemValue (l_item k (xEventListItem t)) AND taskEVENT_LIST_ITEM_VALUE_IN_USE \<noteq> 0"

definition set_priority :: "u32 \<Rightarrow> u32 \<Rightarrow> 'a kernel_scheme \<Rightarrow> 'a kernel_scheme" where
  "set_priority t prio k = upd_tcb t (\<lambda>b. b\<lparr>uxPriority := prio\<rparr>) k"

definition xTaskPriorityInherit :: "u32 \<Rightarrow> 'a kernel_scheme \<Rightarrow> 'a kernel_scheme \<times> bool" where
  "xTaskPriorityInherit holder k =
    (if holder \<noteq> NULL
     then let cur = uxPriority (tcb k (pxCurrentTCB k))
          in if uxPriority (tcb k holder) < cur
             then let k1 = (if event_value_in_use holder k then k else set_event_value holder cur k);
                      k2 = (if pxContainer (l_item k1 (xStateListItem holder)) = ready_list (uxPriority (tcb k1 holder)) k1
                            then prvAddTaskToReadyList holder
                                   (set_priority holder cur (fst (uxListRemove (xStateListItem holder) k1)))
                            else set_priority holder cur k1)
                  in (k2, True)
             else (k, uxBasePriority (tcb k holder) < cur)
     else (k, False))"

definition xTaskPriorityDisinherit :: "u32 \<Rightarrow> 'a kernel_scheme \<Rightarrow> ('a kernel_scheme \<times> bool) res" where
  "xTaskPriorityDisinherit holder k =
    (if holder \<noteq> NULL
     then dev_assert (holder = pxCurrentTCB k) (dev_assert (uxMutexesHeld (tcb k holder) \<noteq> 0)
           (let k1 = upd_tcb holder (\<lambda>t. t\<lparr>uxMutexesHeld := uxMutexesHeld t - 1\<rparr>) k;
                t1 = tcb k1 holder
            in if uxPriority t1 \<noteq> uxBasePriority t1 \<and> uxMutexesHeld t1 = 0
               then let k2 = fst (uxListRemove (xStateListItem holder) k1);
                        k3 = set_priority holder (uxBasePriority t1) k2;
                        k4 = set_event_value holder (uxBasePriority t1) k3
                    in Inr (prvAddTaskToReadyList holder k4, True)
               else Inr (k1, False)))
     else Inr (k, False))"

definition vTaskPriorityDisinheritAfterTimeout :: "u32 \<Rightarrow> u32 \<Rightarrow> 'a kernel_scheme \<Rightarrow> 'a kernel_scheme res" where
  "vTaskPriorityDisinheritAfterTimeout holder uxHighestPriorityWaitingTask k =
    (if holder \<noteq> NULL
     then dev_assert (uxMutexesHeld (tcb k holder) \<noteq> 0)
           (let b = tcb k holder;
                toUse = (if uxBasePriority b < uxHighestPriorityWaitingTask
                         then uxHighestPriorityWaitingTask else uxBasePriority b)
            in if uxPriority b \<noteq> toUse \<and> uxMutexesHeld b = 1
               then dev_assert (holder \<noteq> pxCurrentTCB k)
                     (let onEntry = uxPriority b;
                          k1 = set_priority holder toUse k;
                          k2 = (if event_value_in_use holder k1 then k1 else set_event_value holder toUse k1)
                      in Inr (if pxContainer (l_item k2 (xStateListItem holder)) = ready_list onEntry k2
                              then prvAddTaskToReadyList holder (fst (uxListRemove (xStateListItem holder) k2))
                              else k2))
               else Inr k)
     else Inr k)"

definition pvTaskIncrementMutexHeldCount :: "'a kernel_scheme \<Rightarrow> 'a kernel_scheme \<times> u32" where
  "pvTaskIncrementMutexHeldCount k =
    (if pxCurrentTCB k \<noteq> NULL
     then (upd_tcb (pxCurrentTCB k) (\<lambda>t. t\<lparr>uxMutexesHeld := uxMutexesHeld t + 1\<rparr>) k, pxCurrentTCB k)
     else (k, pxCurrentTCB k))"

section \<open>Properties\<close>

text \<open>(C29) Periodic delays are exact across the wrap-around of the tick counter: when \<open>late\<close> ticks have passed
  since the previous wake time and the period is \<open>inc\<close>, \<open>xTaskDelayUntil\<close> decides to block exactly when the
  next wake time is still ahead, although all three times are 32-bit values that may have overflowed.\<close>

theorem delay_until_exact:
  assumes "late < 2 ^ 32" "inc < 2 ^ 32"
  shows "delay_until_should (prev + of_nat late) prev (prev + of_nat inc) \<longleftrightarrow> late < inc"
  using assms unat_plus_mod [OF assms(1), of prev] unat_plus_mod [OF assms(2), of prev] unat_u32_less [of prev]
  by (auto simp: delay_until_should_def word_less_nat_alt split: if_splits)

theorem delay_until_witness:
  "delay_until_should (0xFFFFFFF0 + of_nat 20) 0xFFFFFFF0 (0xFFFFFFF0 + of_nat 16) = False \<and>
   delay_until_should (0xFFFFFFF0 + of_nat 12) 0xFFFFFFF0 (0xFFFFFFF0 + of_nat 16)"
  using delay_until_exact [of 20 16 "0xFFFFFFF0"] delay_until_exact [of 12 16 "0xFFFFFFF0"] by simp

text \<open>(C28) Time-outs are exact. When \<open>d\<close> ticks, fewer than 2^32, have passed since the time-out state was recorded,
  the tick counter having wrapped at most once, \<open>xTaskCheckForTimeOut\<close> reports expiry exactly when the block
  time is used up, leaves the remaining block time, and re-bases the time-out state when it continues.\<close>

theorem timeout_exact:
  assumes "xTickCount k = xTimeOnEntering to + of_nat d" "d < 2 ^ 32"
    "xNumOfOverflows k = xOverflowCount to + (if unat (xTimeOnEntering to) + d < 2 ^ 32 then 0 else 1)"
    "\<not> ucDelayAborted (tcb k (pxCurrentTCB k))" "ticks \<noteq> portMAX_DELAY"
    "xTaskCheckForTimeOut to ticks k = (k', to', ticks', expired)"
  shows "(expired \<longleftrightarrow> unat ticks \<le> d) \<and> unat ticks' = unat ticks - d \<and> k' = k \<and>
    (\<not> expired \<longrightarrow> xTimeOnEntering to' = xTickCount k \<and> xOverflowCount to' = xNumOfOverflows k)"
proof -
  have e: "xTickCount k - xTimeOnEntering to = of_nat d" using assms(1) by simp
  have ed: "unat (of_nat d :: u32) = d" using assms(2) by (rule unat_of_nat_u32)
  have lt: "of_nat d < ticks \<longleftrightarrow> d < unat ticks" by (simp add: word_less_nat_alt ed)
  have ov: "\<not> (xNumOfOverflows k \<noteq> xOverflowCount to \<and> xTickCount k \<ge> xTimeOnEntering to)"
    using assms(1-3) unat_plus_mod [OF assms(2), of "xTimeOnEntering to"]
    by (auto simp: word_le_nat_alt)
  show ?thesis
  proof (cases "d < unat ticks")
    case True
    then have "unat (ticks - of_nat d) = unat ticks - d" by (simp add: unat_sub word_le_nat_alt ed)
    with True ov assms(4-6) show ?thesis
      by (auto simp: xTaskCheckForTimeOut_def Let_def e lt vTaskInternalSetTimeOutState_def)
  next
    case False
    with ov assms(4-6) show ?thesis
      by (auto simp: xTaskCheckForTimeOut_def Let_def e lt)
  qed
qed

theorem timeout_exact_witness:
  "case xTaskCheckForTimeOut \<lparr>xOverflowCount = 0, xTimeOnEntering = 0xFFFFFFFA\<rparr> 100
      \<lparr>l_item = \<lambda>_. \<lparr>xItemValue = 0, pxNext = 0, pxPrevious = 0, pvOwner = 0, pxContainer = 0\<rparr>,
       l_list = \<lambda>_. \<lparr>uxNumberOfItems = 0, pxIndex = 0\<rparr>,
       tcb = \<lambda>_. \<lparr>pxTopOfStack = 0, uxPriority = 0, pxStack = 0, pcTaskName = [], uxBasePriority = 0, uxMutexesHeld = 0,
         pvThreadLocalStoragePointers = [], ulNotifiedValue = 0, ucNotifyState = 0, ucDelayAborted = False\<rparr>,
       pxCurrentTCB = 0, pxReadyTasksLists = 0, xPendingReadyList = 0, xSuspendedTaskList = 0, xTasksWaitingTermination = 0, xDelayedTaskList1 = 0, xDelayedTaskList2 = 0,
       pxDelayedTaskList = 0, pxOverflowDelayedTaskList = 0, uxCurrentNumberOfTasks = 0, xTickCount = 4,
       uxTopReadyPriority = 0, xSchedulerRunning = True, xPendedTicks = 0, xYieldPending = False,
       xNumOfOverflows = 1, xNextTaskUnblockTime = 0, uxSchedulerSuspended = 0, uxDeletedTasksWaitingCleanUp = 0,
       uxTaskNumber = 0, xIdleTaskHandle = 0, stack_mem = \<lambda>_. 0, pendSV = False\<rparr> of
     (k', to', ticks', expired) \<Rightarrow> \<not> expired \<and> unat ticks' = 90"
proof -
  define k where "k = \<lparr>l_item = \<lambda>_. \<lparr>xItemValue = 0, pxNext = 0, pxPrevious = 0, pvOwner = 0, pxContainer = 0\<rparr>,
       l_list = \<lambda>_. \<lparr>uxNumberOfItems = 0, pxIndex = 0\<rparr>,
       tcb = \<lambda>_. \<lparr>pxTopOfStack = 0, uxPriority = 0, pxStack = 0, pcTaskName = [], uxBasePriority = 0, uxMutexesHeld = 0,
         pvThreadLocalStoragePointers = [], ulNotifiedValue = 0, ucNotifyState = 0, ucDelayAborted = False\<rparr>,
       pxCurrentTCB = 0, pxReadyTasksLists = 0, xPendingReadyList = 0, xSuspendedTaskList = 0, xTasksWaitingTermination = 0, xDelayedTaskList1 = 0, xDelayedTaskList2 = 0,
       pxDelayedTaskList = 0, pxOverflowDelayedTaskList = 0, uxCurrentNumberOfTasks = 0, xTickCount = 4,
       uxTopReadyPriority = 0, xSchedulerRunning = True, xPendedTicks = 0, xYieldPending = False,
       xNumOfOverflows = 1, xNextTaskUnblockTime = 0, uxSchedulerSuspended = 0, uxDeletedTasksWaitingCleanUp = 0,
       uxTaskNumber = 0, xIdleTaskHandle = 0, stack_mem = \<lambda>_. 0, pendSV = False\<rparr>"
  obtain k' to' ticks' expired where r: "xTaskCheckForTimeOut \<lparr>xOverflowCount = 0, xTimeOnEntering = 0xFFFFFFFA\<rparr> 100 k =
      (k', to', ticks', expired)"
    by (metis prod_cases4)
  have "\<not> expired \<and> unat ticks' = 90"
    using timeout_exact [of k "\<lparr>xOverflowCount = 0, xTimeOnEntering = 0xFFFFFFFA\<rparr>" 10 100, OF _ _ _ _ _ r]
    by (simp add: k_def)
  then show ?thesis using r unfolding k_def by simp
qed

end
