(* ===== verification/Fifo_Spec.thy ===== *)
theory Fifo_Spec
  imports Gw_Prelude
begin

text \<open>
  The contract of a bounded first-in first-out channel, as an interface: what a client may rely on
  when it sends and receives, and what follows for every sequence of calls. The operations work on a
  provider state; \<open>items\<close> is the abstraction to the sequence held, \<open>cap\<close> the number of places and
  \<open>fits\<close> which items the channel can carry.
\<close>

datatype 'i channel_op = Put 'i | Get

text \<open>Running a sequence of calls collects the items accepted and the items delivered.\<close>

fun run_ops ::
  "('i \<Rightarrow> 's \<Rightarrow> 's \<times> bool) \<Rightarrow> ('s \<Rightarrow> 's \<times> 'i option) \<Rightarrow> 'i channel_op list \<Rightarrow> 's \<Rightarrow> 's \<times> 'i list \<times> 'i list" where
  "run_ops snd_op rcv_op [] s = (s, [], [])"
| "run_ops snd_op rcv_op (Put x # ops) s =
    (let (s1, ok) = snd_op x s;
         (s2, acc, del) = run_ops snd_op rcv_op ops s1
     in (s2, (if ok then x # acc else acc), del))"
| "run_ops snd_op rcv_op (Get # ops) s =
    (let (s1, r) = rcv_op s;
         (s2, acc, del) = run_ops snd_op rcv_op ops s1
     in (s2, acc, (case r of None \<Rightarrow> del | Some x \<Rightarrow> x # del)))"

locale bounded_fifo =
  fixes inv :: "'s \<Rightarrow> bool"
    and items :: "'s \<Rightarrow> 'i list"
    and cap :: "'s \<Rightarrow> nat"
    and fits :: "'s \<Rightarrow> 'i \<Rightarrow> bool"
    and send :: "'i \<Rightarrow> 's \<Rightarrow> 's \<times> bool"
    and recv :: "'s \<Rightarrow> 's \<times> 'i option"
  assumes bounded: "inv s \<Longrightarrow> length (items s) \<le> cap s"
    and send_room: "inv s \<Longrightarrow> fits s x \<Longrightarrow> length (items s) < cap s \<Longrightarrow>
        snd (send x s) \<and> items (fst (send x s)) = items s @ [x]"
    and send_full: "inv s \<Longrightarrow> fits s x \<Longrightarrow> \<not> length (items s) < cap s \<Longrightarrow>
        \<not> snd (send x s) \<and> items (fst (send x s)) = items s"
    and send_keeps: "inv s \<Longrightarrow> fits s x \<Longrightarrow>
        inv (fst (send x s)) \<and> cap (fst (send x s)) = cap s \<and> fits (fst (send x s)) = fits s"
    and recv_some: "inv s \<Longrightarrow> items s = x # xs \<Longrightarrow> snd (recv s) = Some x \<and> items (fst (recv s)) = xs"
    and recv_none: "inv s \<Longrightarrow> items s = [] \<Longrightarrow> snd (recv s) = None \<and> items (fst (recv s)) = []"
    and recv_keeps: "inv s \<Longrightarrow> inv (fst (recv s)) \<and> cap (fst (recv s)) = cap s \<and> fits (fst (recv s)) = fits s"
begin

text \<open>Whatever the interleaving, what was held and accepted is what was delivered and is still held, in order.\<close>

lemma run_ops_fifo:
  assumes "inv s" "\<And>x. Put x \<in> set ops \<Longrightarrow> fits s x" "run_ops send recv ops s = (s', acc, del)"
  shows "items s @ acc = del @ items s' \<and> inv s' \<and> cap s' = cap s \<and> length (items s') \<le> cap s"
  using assms
proof (induction ops arbitrary: s acc del)
  case Nil
  then show ?case using bounded [of s] by simp
next
  case (Cons op ops)
  show ?case
  proof (cases op)
    case (Put x)
    obtain acc1 where r: "run_ops send recv ops (fst (send x s)) = (s', acc1, del)"
      and acc: "acc = (if snd (send x s) then x # acc1 else acc1)"
      using Cons.prems(3) Put by (auto simp: Let_def split: prod.splits)
    have fx: "fits s x" using Cons.prems(2) Put by simp
    note keeps = send_keeps [OF Cons.prems(1) fx]
    have "items (fst (send x s)) @ acc1 = del @ items s' \<and> inv s' \<and> cap s' = cap (fst (send x s)) \<and>
        length (items s') \<le> cap (fst (send x s))"
      using keeps Cons.prems(2) by (intro Cons.IH [OF _ _ r]) auto
    with keeps acc show ?thesis
      using send_room [OF Cons.prems(1) fx] send_full [OF Cons.prems(1) fx] by (cases "length (items s) < cap s") auto
  next
    case Get
    obtain del1 where r: "run_ops send recv ops (fst (recv s)) = (s', acc, del1)"
      and del: "del = (case snd (recv s) of None \<Rightarrow> del1 | Some x \<Rightarrow> x # del1)"
      using Cons.prems(3) Get by (auto simp: Let_def split: prod.splits)
    note keeps = recv_keeps [OF Cons.prems(1)]
    have "items (fst (recv s)) @ acc = del1 @ items s' \<and> inv s' \<and> cap s' = cap (fst (recv s)) \<and>
        length (items s') \<le> cap (fst (recv s))"
      using keeps Cons.prems(2) by (intro Cons.IH [OF _ _ r]) auto
    with keeps del show ?thesis
      using recv_some [OF Cons.prems(1)] recv_none [OF Cons.prems(1)] by (cases "items s") auto
  qed
qed

end

end
