(* ===== verification/Freertos_Queue.thy ===== *)
theory Freertos_Queue
  imports Freertos_Tasks Fifo_Spec
begin

text \<open>
  The queues and semaphores of \<open>FreeRTOS/Source/queue.c\<close> over the scheduler model. A \<open>Queue_t\<close> has
  72 bytes on the target: the event lists lie at offsets 16 and 36, and the union \<open>u\<close> is two
  words, \<open>pcTail\<close>/\<open>xMutexHolder\<close> and \<open>pcReadFrom\<close>/\<open>uxRecursiveCallCount\<close>. Queue structures live
  in a typed heap; the storage areas are bytes of the memory, reached by the source's pointer
  arithmetic. Items are passed and returned by value, as the bytes the pointer arguments designate
  (\<open>None\<close> is a null pointer). A call that may block is split where it leaves its critical sections:
  \<open>crit\<close> is the first critical section and \<open>wait\<close> the part with the scheduler suspended, with
  the locals of the loop in \<open>wait_state\<close>; interrupts and other tasks can run between the two. Queue
  sets and the trace facility are configured off.
\<close>

section \<open>State\<close>

record Queue_t =
  pcHead :: u32
  pcWriteTo :: u32
  u_0 :: u32
  u_1 :: u32
  uxMessagesWaiting :: u32
  uxLength :: u32
  uxItemSize :: u32
  cRxLock :: i8
  cTxLock :: i8

abbreviation "pcTail \<equiv> u_0"
abbreviation "xMutexHolder \<equiv> u_0"
abbreviation "pcReadFrom \<equiv> u_1"
abbreviation "uxRecursiveCallCount \<equiv> u_1"

record qkernel = kernel +
  q_mem :: mem
  q_at :: "u32 \<Rightarrow> Queue_t"

abbreviation queueUNLOCKED :: i8 where "queueUNLOCKED \<equiv> - 1"
abbreviation queueLOCKED_UNMODIFIED :: i8 where "queueLOCKED_UNMODIFIED \<equiv> 0"
abbreviation queueINT8_MAX :: i8 where "queueINT8_MAX \<equiv> 127"
abbreviation queueQUEUE_IS_MUTEX :: u32 where "queueQUEUE_IS_MUTEX \<equiv> NULL"

datatype copy_position = queueSEND_TO_BACK | queueSEND_TO_FRONT | queueOVERWRITE

datatype q_status = pdPASS | pdFAIL | errQUEUE_FULL | errQUEUE_EMPTY

record wait_state =
  xEntryTimeSet :: bool
  xTimeOut :: TimeOut_t
  xTicksToWait :: u32
  xInheritanceOccurred :: bool

datatype 'r outcome = Returned 'r | Continue wait_state

definition initial_wait :: "u32 \<Rightarrow> wait_state" where
  "initial_wait ticks = \<lparr>xEntryTimeSet = False, xTimeOut = \<lparr>xOverflowCount = 0, xTimeOnEntering = 0\<rparr>,
     xTicksToWait = ticks, xInheritanceOccurred = False\<rparr>"

definition xTasksWaitingToSend :: "u32 \<Rightarrow> u32" where "xTasksWaitingToSend q = q + 16"
definition xTasksWaitingToReceive :: "u32 \<Rightarrow> u32" where "xTasksWaitingToReceive q = q + 36"

definition upd_q :: "u32 \<Rightarrow> (Queue_t \<Rightarrow> Queue_t) \<Rightarrow> 'a qkernel_scheme \<Rightarrow> 'a qkernel_scheme" where
  "upd_q q f k = k\<lparr>q_at := (q_at k)(q := f (q_at k q))\<rparr>"

section \<open>Copying items\<close>

definition memcpy_in :: "u32 \<Rightarrow> u8 list option \<Rightarrow> u32 \<Rightarrow> 'a qkernel_scheme \<Rightarrow> 'a qkernel_scheme res" where
  "memcpy_in dst item n k =
    (case item of None \<Rightarrow> Inl OutOfBounds
     | Some bs \<Rightarrow> if length bs < unat n then Inl OutOfBounds
                 else Inr (k\<lparr>q_mem := mem_write dst (take (unat n) bs) (q_mem k)\<rparr>))"

definition prvCopyDataToQueue ::
  "u32 \<Rightarrow> u8 list option \<Rightarrow> copy_position \<Rightarrow> 'a qkernel_scheme \<Rightarrow> ('a qkernel_scheme \<times> bool) res" where
  "prvCopyDataToQueue pxQueue item xPosition k =
    (let q = q_at k pxQueue;
         waiting = uxMessagesWaiting q
     in if uxItemSize q = 0
        then rbind (if pcHead q = queueQUEUE_IS_MUTEX
                    then rbind (xTaskPriorityDisinherit (xMutexHolder q) k) (\<lambda>(k1, r).
                           Inr (upd_q pxQueue (\<lambda>q. q\<lparr>u_0 := NULL\<rparr>) k1, r))
                    else Inr (k, False)) (\<lambda>(k2, r).
               Inr (upd_q pxQueue (\<lambda>q. q\<lparr>uxMessagesWaiting := waiting + 1\<rparr>) k2, r))
        else if xPosition = queueSEND_TO_BACK
        then rbind (memcpy_in (pcWriteTo q) item (uxItemSize q) k) (\<lambda>k1.
               let w = pcWriteTo q + uxItemSize q;
                   w' = (if w \<ge> pcTail q then pcHead q else w)
               in Inr (upd_q pxQueue (\<lambda>q. q\<lparr>pcWriteTo := w', uxMessagesWaiting := waiting + 1\<rparr>) k1, False))
        else rbind (memcpy_in (pcReadFrom q) item (uxItemSize q) k) (\<lambda>k1.
               let r = pcReadFrom q - uxItemSize q;
                   r' = (if r < pcHead q then pcTail q - uxItemSize q else r);
                   waiting' = (if xPosition = queueOVERWRITE \<and> waiting > 0 then waiting - 1 else waiting)
               in Inr (upd_q pxQueue (\<lambda>q. q\<lparr>u_1 := r', uxMessagesWaiting := waiting' + 1\<rparr>) k1, False)))"

definition prvCopyDataFromQueue :: "u32 \<Rightarrow> 'a qkernel_scheme \<Rightarrow> 'a qkernel_scheme \<times> u8 list" where
  "prvCopyDataFromQueue pxQueue k =
    (let q = q_at k pxQueue
     in if uxItemSize q \<noteq> 0
        then let r = pcReadFrom q + uxItemSize q;
                 r' = (if r \<ge> pcTail q then pcHead q else r)
             in (upd_q pxQueue (\<lambda>q. q\<lparr>u_1 := r'\<rparr>) k, mem_read (q_mem k) r' (unat (uxItemSize q)))
        else (k, []))"

definition prvIsQueueEmpty :: "u32 \<Rightarrow> 'a qkernel_scheme \<Rightarrow> bool" where
  "prvIsQueueEmpty pxQueue k \<longleftrightarrow> uxMessagesWaiting (q_at k pxQueue) = 0"

definition prvIsQueueFull :: "u32 \<Rightarrow> 'a qkernel_scheme \<Rightarrow> bool" where
  "prvIsQueueFull pxQueue k \<longleftrightarrow> uxMessagesWaiting (q_at k pxQueue) = uxLength (q_at k pxQueue)"

section \<open>Waking waiting tasks, locking\<close>

text \<open>The step that recurs through the file: unblock the first waiter of a non-empty event list.\<close>

definition wake_first :: "u32 \<Rightarrow> 'a qkernel_scheme \<Rightarrow> ('a qkernel_scheme \<times> bool) res" where
  "wake_first lst k =
    (if \<not> listLIST_IS_EMPTY lst k then xTaskRemoveFromEventList lst k else Inr (k, False))"

definition wake_and_yield :: "u32 \<Rightarrow> 'a qkernel_scheme \<Rightarrow> 'a qkernel_scheme res" where
  "wake_and_yield lst k =
    rbind (wake_first lst k) (\<lambda>(k1, higher). Inr (if higher then portYIELD_WITHIN_API k1 else k1))"

definition prvLockQueue :: "u32 \<Rightarrow> 'a qkernel_scheme \<Rightarrow> 'a qkernel_scheme" where
  "prvLockQueue pxQueue k =
    upd_q pxQueue (\<lambda>q. q\<lparr>cRxLock := (if cRxLock q = queueUNLOCKED then queueLOCKED_UNMODIFIED else cRxLock q),
                        cTxLock := (if cTxLock q = queueUNLOCKED then queueLOCKED_UNMODIFIED else cTxLock q)\<rparr>) k"

text \<open>
  One of the two loops of \<open>prvUnlockQueue\<close>: the lock count, a positive signed byte, says how many
  waiters to wake; the loop breaks when nobody waits.
\<close>

fun unlock_loop :: "nat \<Rightarrow> u32 \<Rightarrow> 'a qkernel_scheme \<Rightarrow> 'a qkernel_scheme res" where
  "unlock_loop 0 lst k = Inr k"
| "unlock_loop (Suc n) lst k =
    (if listLIST_IS_EMPTY lst k then Inr k
     else rbind (xTaskRemoveFromEventList lst k) (\<lambda>(k1, higher).
            unlock_loop n lst (if higher then vTaskMissedYield k1 else k1)))"

definition prvUnlockQueue :: "u32 \<Rightarrow> 'a qkernel_scheme \<Rightarrow> 'a qkernel_scheme res" where
  "prvUnlockQueue pxQueue k =
    rbind (unlock_loop (nat (sint (cTxLock (q_at k pxQueue)))) (xTasksWaitingToReceive pxQueue) k) (\<lambda>k1.
      let k2 = upd_q pxQueue (\<lambda>q. q\<lparr>cTxLock := queueUNLOCKED\<rparr>) k1
      in rbind (unlock_loop (nat (sint (cRxLock (q_at k2 pxQueue)))) (xTasksWaitingToSend pxQueue) k2) (\<lambda>k3.
           Inr (upd_q pxQueue (\<lambda>q. q\<lparr>cRxLock := queueUNLOCKED\<rparr>) k3)))"

section \<open>Creation and reset\<close>

definition xQueueGenericReset :: "u32 \<Rightarrow> bool \<Rightarrow> 'a qkernel_scheme \<Rightarrow> 'a qkernel_scheme res" where
  "xQueueGenericReset pxQueue xNewQueue k =
    dev_assert (pxQueue \<noteq> NULL)
     (let q = q_at k pxQueue
      in dev_assert (uxLength q \<ge> 1 \<and> 0xFFFFFFFF div uxLength q \<ge> uxItemSize q)
          (let k1 = upd_q pxQueue (\<lambda>q. q\<lparr>u_0 := pcHead q + uxLength q * uxItemSize q,
                                         uxMessagesWaiting := 0,
                                         pcWriteTo := pcHead q,
                                         u_1 := pcHead q + (uxLength q - 1) * uxItemSize q,
                                         cRxLock := queueUNLOCKED,
                                         cTxLock := queueUNLOCKED\<rparr>) k
           in if \<not> xNewQueue then wake_and_yield (xTasksWaitingToSend pxQueue) k1
              else Inr (vListInitialise (xTasksWaitingToReceive pxQueue)
                         (vListInitialise (xTasksWaitingToSend pxQueue) k1))))"

definition prvInitialiseNewQueue ::
  "u32 \<Rightarrow> u32 \<Rightarrow> u32 \<Rightarrow> u32 \<Rightarrow> 'a qkernel_scheme \<Rightarrow> 'a qkernel_scheme res" where
  "prvInitialiseNewQueue uxQueueLength itemSize pucQueueStorage pxNewQueue k =
    (let head = (if itemSize = 0 then pxNewQueue else pucQueueStorage)
     in xQueueGenericReset pxNewQueue True
          (upd_q pxNewQueue (\<lambda>q. q\<lparr>pcHead := head, uxLength := uxQueueLength, uxItemSize := itemSize\<rparr>) k))"

text \<open>
  \<open>addr\<close> is what \<open>pvPortMalloc\<close> returns for the request \<open>sizeof( Queue_t ) + xQueueSizeInBytes\<close>. The
  result is the handle.
\<close>

definition xQueueGenericCreate ::
  "u32 \<Rightarrow> u32 \<Rightarrow> u32 \<Rightarrow> 'a qkernel_scheme \<Rightarrow> ('a qkernel_scheme \<times> u32) res" where
  "xQueueGenericCreate addr uxQueueLength itemSize k =
    (if uxQueueLength > 0 \<and> 0xFFFFFFFF div uxQueueLength \<ge> itemSize \<and>
        0xFFFFFFFF - 72 \<ge> uxQueueLength * itemSize
     then if addr \<noteq> NULL
          then rbind (prvInitialiseNewQueue uxQueueLength itemSize (addr + 72) addr k) (\<lambda>k1. Inr (k1, addr))
          else Inr (k, NULL)
     else Inl DevAssertFailed)"

section \<open>Sending\<close>

definition xQueueGenericSend_crit ::
  "u32 \<Rightarrow> u8 list option \<Rightarrow> copy_position \<Rightarrow> wait_state \<Rightarrow> 'a qkernel_scheme \<Rightarrow>
   ('a qkernel_scheme \<times> q_status outcome) res" where
  "xQueueGenericSend_crit pxQueue item xCopyPosition ws k =
    (let q = q_at k pxQueue
     in if uxMessagesWaiting q < uxLength q \<or> xCopyPosition = queueOVERWRITE
        then rbind (prvCopyDataToQueue pxQueue item xCopyPosition k) (\<lambda>(k1, xYieldRequired).
               if \<not> listLIST_IS_EMPTY (xTasksWaitingToReceive pxQueue) k1
               then rbind (xTaskRemoveFromEventList (xTasksWaitingToReceive pxQueue) k1) (\<lambda>(k2, higher).
                      Inr (if higher then portYIELD_WITHIN_API k2 else k2, Returned pdPASS))
               else Inr (if xYieldRequired then portYIELD_WITHIN_API k1 else k1, Returned pdPASS))
        else if xTicksToWait ws = 0 then Inr (k, Returned errQUEUE_FULL)
        else if \<not> xEntryTimeSet ws
        then Inr (k, Continue (ws\<lparr>xTimeOut := vTaskInternalSetTimeOutState k, xEntryTimeSet := True\<rparr>))
        else Inr (k, Continue ws))"

text \<open>Leave the scheduler-suspended part: unlock, resume, and yield when the resumption did not.\<close>

definition unlock_and_resume :: "u32 \<Rightarrow> 'a qkernel_scheme \<Rightarrow> ('a qkernel_scheme \<times> bool) res" where
  "unlock_and_resume pxQueue k = rbind (prvUnlockQueue pxQueue k) xTaskResumeAll"

definition block_on :: "u32 \<Rightarrow> u32 \<Rightarrow> u32 \<Rightarrow> 'a qkernel_scheme \<Rightarrow> 'a qkernel_scheme res" where
  "block_on pxQueue lst ticks k =
    rbind (vTaskPlaceOnEventList lst ticks k) (\<lambda>k1.
    rbind (unlock_and_resume pxQueue k1) (\<lambda>(k2, yielded).
      Inr (if yielded then k2 else portYIELD_WITHIN_API k2)))"

definition xQueueGenericSend_wait ::
  "u32 \<Rightarrow> wait_state \<Rightarrow> 'a qkernel_scheme \<Rightarrow> ('a qkernel_scheme \<times> q_status outcome) res" where
  "xQueueGenericSend_wait pxQueue ws k =
    (let k1 = prvLockQueue pxQueue (vTaskSuspendAll k);
         (k2, to', ticks', expired) = xTaskCheckForTimeOut (xTimeOut ws) (xTicksToWait ws) k1;
         ws' = ws\<lparr>xTimeOut := to', xTicksToWait := ticks'\<rparr>
     in if \<not> expired
        then if prvIsQueueFull pxQueue k2
             then rbind (block_on pxQueue (xTasksWaitingToSend pxQueue) ticks' k2) (\<lambda>k3. Inr (k3, Continue ws'))
             else rbind (unlock_and_resume pxQueue k2) (\<lambda>(k3, _). Inr (k3, Continue ws'))
        else rbind (unlock_and_resume pxQueue k2) (\<lambda>(k3, _). Inr (k3, Returned errQUEUE_FULL)))"

definition xQueueGenericSend ::
  "u32 \<Rightarrow> u8 list option \<Rightarrow> u32 \<Rightarrow> copy_position \<Rightarrow> 'a qkernel_scheme \<Rightarrow>
   ('a qkernel_scheme \<times> q_status outcome) res" where
  "xQueueGenericSend pxQueue item ticks xCopyPosition k =
    dev_assert (pxQueue \<noteq> NULL)
    (dev_assert (\<not> (item = None \<and> uxItemSize (q_at k pxQueue) \<noteq> 0))
    (dev_assert (\<not> (xCopyPosition = queueOVERWRITE \<and> uxLength (q_at k pxQueue) \<noteq> 1))
    (dev_assert (\<not> (xTaskGetSchedulerState k = SCHEDULER_SUSPENDED \<and> ticks \<noteq> 0))
      (rbind (xQueueGenericSend_crit pxQueue item xCopyPosition (initial_wait ticks) k) (\<lambda>(k1, out).
         case out of Returned r \<Rightarrow> Inr (k1, Returned r)
         | Continue ws \<Rightarrow> xQueueGenericSend_wait pxQueue ws k1)))))"

text \<open>From an interrupt: \<open>woken\<close> is \<open>*pxHigherPriorityTaskWoken\<close>, set when a task of higher priority was woken.\<close>

definition xQueueGenericSendFromISR ::
  "u32 \<Rightarrow> u8 list option \<Rightarrow> bool \<Rightarrow> copy_position \<Rightarrow> 'a qkernel_scheme \<Rightarrow>
   ('a qkernel_scheme \<times> bool \<times> q_status) res" where
  "xQueueGenericSendFromISR pxQueue item woken xCopyPosition k =
    dev_assert (pxQueue \<noteq> NULL)
    (dev_assert (\<not> (item = None \<and> uxItemSize (q_at k pxQueue) \<noteq> 0))
    (dev_assert (\<not> (xCopyPosition = queueOVERWRITE \<and> uxLength (q_at k pxQueue) \<noteq> 1))
     (let q = q_at k pxQueue
      in if uxMessagesWaiting q < uxLength q \<or> xCopyPosition = queueOVERWRITE
         then let lock = cTxLock q
              in rbind (prvCopyDataToQueue pxQueue item xCopyPosition k) (\<lambda>(k1, _).
                   if lock = queueUNLOCKED
                   then rbind (wake_first (xTasksWaitingToReceive pxQueue) k1) (\<lambda>(k2, higher).
                          Inr (k2, (if higher then True else woken), pdPASS))
                   else dev_assert (lock \<noteq> queueINT8_MAX)
                          (Inr (upd_q pxQueue (\<lambda>q. q\<lparr>cTxLock := lock + 1\<rparr>) k1, woken, pdPASS)))
         else Inr (k, woken, errQUEUE_FULL))))"

definition xQueueGiveFromISR :: "u32 \<Rightarrow> bool \<Rightarrow> 'a qkernel_scheme \<Rightarrow> ('a qkernel_scheme \<times> bool \<times> q_status) res" where
  "xQueueGiveFromISR pxQueue woken k =
    dev_assert (pxQueue \<noteq> NULL)
    (let q = q_at k pxQueue
     in dev_assert (uxItemSize q = 0)
        (dev_assert (\<not> (pcHead q = queueQUEUE_IS_MUTEX \<and> xMutexHolder q \<noteq> NULL))
          (if uxMessagesWaiting q < uxLength q
           then let lock = cTxLock q;
                    k1 = upd_q pxQueue (\<lambda>q. q\<lparr>uxMessagesWaiting := uxMessagesWaiting q + 1\<rparr>) k
                in if lock = queueUNLOCKED
                   then rbind (wake_first (xTasksWaitingToReceive pxQueue) k1) (\<lambda>(k2, higher).
                          Inr (k2, (if higher then True else woken), pdPASS))
                   else dev_assert (lock \<noteq> queueINT8_MAX)
                          (Inr (upd_q pxQueue (\<lambda>q. q\<lparr>cTxLock := lock + 1\<rparr>) k1, woken, pdPASS))
           else Inr (k, woken, errQUEUE_FULL))))"

section \<open>Receiving\<close>

text \<open>The received bytes are the second component; they are \<open>[]\<close> when nothing was received.\<close>

definition xQueueReceive_crit ::
  "u32 \<Rightarrow> wait_state \<Rightarrow> 'a qkernel_scheme \<Rightarrow> ('a qkernel_scheme \<times> u8 list \<times> q_status outcome) res" where
  "xQueueReceive_crit pxQueue ws k =
    (let waiting = uxMessagesWaiting (q_at k pxQueue)
     in if waiting > 0
        then let (k1, bs) = prvCopyDataFromQueue pxQueue k;
                 k2 = upd_q pxQueue (\<lambda>q. q\<lparr>uxMessagesWaiting := waiting - 1\<rparr>) k1
             in rbind (wake_and_yield (xTasksWaitingToSend pxQueue) k2) (\<lambda>k3. Inr (k3, bs, Returned pdPASS))
        else if xTicksToWait ws = 0 then Inr (k, [], Returned errQUEUE_EMPTY)
        else if \<not> xEntryTimeSet ws
        then Inr (k, [], Continue (ws\<lparr>xTimeOut := vTaskInternalSetTimeOutState k, xEntryTimeSet := True\<rparr>))
        else Inr (k, [], Continue ws))"

definition xQueueReceive_wait ::
  "u32 \<Rightarrow> wait_state \<Rightarrow> 'a qkernel_scheme \<Rightarrow> ('a qkernel_scheme \<times> q_status outcome) res" where
  "xQueueReceive_wait pxQueue ws k =
    (let k1 = prvLockQueue pxQueue (vTaskSuspendAll k);
         (k2, to', ticks', expired) = xTaskCheckForTimeOut (xTimeOut ws) (xTicksToWait ws) k1;
         ws' = ws\<lparr>xTimeOut := to', xTicksToWait := ticks'\<rparr>
     in if \<not> expired
        then if prvIsQueueEmpty pxQueue k2
             then rbind (block_on pxQueue (xTasksWaitingToReceive pxQueue) ticks' k2) (\<lambda>k3. Inr (k3, Continue ws'))
             else rbind (unlock_and_resume pxQueue k2) (\<lambda>(k3, _). Inr (k3, Continue ws'))
        else rbind (unlock_and_resume pxQueue k2) (\<lambda>(k3, _).
               if prvIsQueueEmpty pxQueue k3 then Inr (k3, Returned errQUEUE_EMPTY) else Inr (k3, Continue ws')))"

definition receive_asserts :: "u32 \<Rightarrow> bool \<Rightarrow> u32 \<Rightarrow> 'a qkernel_scheme \<Rightarrow> 'b res \<Rightarrow> 'b res" where
  "receive_asserts pxQueue bufNull ticks k r =
    dev_assert (pxQueue \<noteq> NULL)
    (dev_assert (\<not> (bufNull \<and> uxItemSize (q_at k pxQueue) \<noteq> 0))
    (dev_assert (\<not> (xTaskGetSchedulerState k = SCHEDULER_SUSPENDED \<and> ticks \<noteq> 0)) r))"

text \<open>\<open>bufNull\<close> says that \<open>pvBuffer\<close> is a null pointer.\<close>

definition xQueueReceive ::
  "u32 \<Rightarrow> bool \<Rightarrow> u32 \<Rightarrow> 'a qkernel_scheme \<Rightarrow> ('a qkernel_scheme \<times> u8 list \<times> q_status outcome) res" where
  "xQueueReceive pxQueue bufNull ticks k =
    receive_asserts pxQueue bufNull ticks k
      (rbind (xQueueReceive_crit pxQueue (initial_wait ticks) k) (\<lambda>(k1, bs, out).
         case out of Returned r \<Rightarrow> Inr (k1, bs, Returned r)
         | Continue ws \<Rightarrow> rbind (xQueueReceive_wait pxQueue ws k1) (\<lambda>(k2, out'). Inr (k2, [], out'))))"

definition xQueuePeek_crit ::
  "u32 \<Rightarrow> wait_state \<Rightarrow> 'a qkernel_scheme \<Rightarrow> ('a qkernel_scheme \<times> u8 list \<times> q_status outcome) res" where
  "xQueuePeek_crit pxQueue ws k =
    (let q = q_at k pxQueue
     in if uxMessagesWaiting q > 0
        then let orig = pcReadFrom q;
                 (k1, bs) = prvCopyDataFromQueue pxQueue k;
                 k2 = upd_q pxQueue (\<lambda>q. q\<lparr>u_1 := orig\<rparr>) k1
             in rbind (wake_and_yield (xTasksWaitingToReceive pxQueue) k2) (\<lambda>k3. Inr (k3, bs, Returned pdPASS))
        else if xTicksToWait ws = 0 then Inr (k, [], Returned errQUEUE_EMPTY)
        else if \<not> xEntryTimeSet ws
        then Inr (k, [], Continue (ws\<lparr>xTimeOut := vTaskInternalSetTimeOutState k, xEntryTimeSet := True\<rparr>))
        else Inr (k, [], Continue ws))"

text \<open>The waiting part of \<open>xQueuePeek\<close> is that of \<open>xQueueReceive\<close>, statement for statement.\<close>

definition xQueuePeek ::
  "u32 \<Rightarrow> bool \<Rightarrow> u32 \<Rightarrow> 'a qkernel_scheme \<Rightarrow> ('a qkernel_scheme \<times> u8 list \<times> q_status outcome) res" where
  "xQueuePeek pxQueue bufNull ticks k =
    receive_asserts pxQueue bufNull ticks k
      (rbind (xQueuePeek_crit pxQueue (initial_wait ticks) k) (\<lambda>(k1, bs, out).
         case out of Returned r \<Rightarrow> Inr (k1, bs, Returned r)
         | Continue ws \<Rightarrow> rbind (xQueueReceive_wait pxQueue ws k1) (\<lambda>(k2, out'). Inr (k2, [], out'))))"

definition xQueueReceiveFromISR ::
  "u32 \<Rightarrow> bool \<Rightarrow> bool \<Rightarrow> 'a qkernel_scheme \<Rightarrow> ('a qkernel_scheme \<times> bool \<times> u8 list \<times> q_status) res" where
  "xQueueReceiveFromISR pxQueue bufNull woken k =
    dev_assert (pxQueue \<noteq> NULL)
    (dev_assert (\<not> (bufNull \<and> uxItemSize (q_at k pxQueue) \<noteq> 0))
     (let q = q_at k pxQueue; waiting = uxMessagesWaiting q
      in if waiting > 0
         then let lock = cRxLock q;
                  (k1, bs) = prvCopyDataFromQueue pxQueue k;
                  k2 = upd_q pxQueue (\<lambda>q. q\<lparr>uxMessagesWaiting := waiting - 1\<rparr>) k1
              in if lock = queueUNLOCKED
                 then rbind (wake_first (xTasksWaitingToSend pxQueue) k2) (\<lambda>(k3, higher).
                        Inr (k3, (if higher then True else woken), bs, pdPASS))
                 else dev_assert (lock \<noteq> queueINT8_MAX)
                        (Inr (upd_q pxQueue (\<lambda>q. q\<lparr>cRxLock := lock + 1\<rparr>) k2, woken, bs, pdPASS))
         else Inr (k, woken, [], pdFAIL)))"

definition xQueuePeekFromISR ::
  "u32 \<Rightarrow> bool \<Rightarrow> 'a qkernel_scheme \<Rightarrow> ('a qkernel_scheme \<times> u8 list \<times> q_status) res" where
  "xQueuePeekFromISR pxQueue bufNull k =
    dev_assert (pxQueue \<noteq> NULL)
    (dev_assert (\<not> (bufNull \<and> uxItemSize (q_at k pxQueue) \<noteq> 0))
    (dev_assert (uxItemSize (q_at k pxQueue) \<noteq> 0)
     (let q = q_at k pxQueue
      in if uxMessagesWaiting q > 0
         then let (k1, bs) = prvCopyDataFromQueue pxQueue k
              in Inr (upd_q pxQueue (\<lambda>q'. q'\<lparr>u_1 := pcReadFrom q\<rparr>) k1, bs, pdPASS)
         else Inr (k, [], pdFAIL))))"

definition uxQueueMessagesWaiting :: "u32 \<Rightarrow> 'a qkernel_scheme \<Rightarrow> u32 res" where
  "uxQueueMessagesWaiting xQueue k = dev_assert (xQueue \<noteq> NULL) (Inr (uxMessagesWaiting (q_at k xQueue)))"

definition uxQueueSpacesAvailable :: "u32 \<Rightarrow> 'a qkernel_scheme \<Rightarrow> u32 res" where
  "uxQueueSpacesAvailable pxQueue k =
    dev_assert (pxQueue \<noteq> NULL) (Inr (uxLength (q_at k pxQueue) - uxMessagesWaiting (q_at k pxQueue)))"

section \<open>Semaphores and mutexes\<close>

definition prvGetDisinheritPriorityAfterTimeout :: "u32 \<Rightarrow> 'a qkernel_scheme \<Rightarrow> u32" where
  "prvGetDisinheritPriorityAfterTimeout pxQueue k =
    (if uxNumberOfItems (l_list k (xTasksWaitingToReceive pxQueue)) > 0
     then configMAX_PRIORITIES - listGET_ITEM_VALUE_OF_HEAD_ENTRY (xTasksWaitingToReceive pxQueue) k
     else 0)"

definition xQueueSemaphoreTake_crit ::
  "u32 \<Rightarrow> wait_state \<Rightarrow> 'a qkernel_scheme \<Rightarrow> ('a qkernel_scheme \<times> q_status outcome) res" where
  "xQueueSemaphoreTake_crit pxQueue ws k =
    (let count = uxMessagesWaiting (q_at k pxQueue)
     in if count > 0
        then let k1 = upd_q pxQueue (\<lambda>q. q\<lparr>uxMessagesWaiting := count - 1\<rparr>) k;
                 k2 = (if pcHead (q_at k1 pxQueue) = queueQUEUE_IS_MUTEX
                       then let (k1', holder) = pvTaskIncrementMutexHeldCount k1
                            in upd_q pxQueue (\<lambda>q. q\<lparr>u_0 := holder\<rparr>) k1'
                       else k1)
             in rbind (wake_and_yield (xTasksWaitingToSend pxQueue) k2) (\<lambda>k3. Inr (k3, Returned pdPASS))
        else if xTicksToWait ws = 0
        then dev_assert (\<not> xInheritanceOccurred ws) (Inr (k, Returned errQUEUE_EMPTY))
        else if \<not> xEntryTimeSet ws
        then Inr (k, Continue (ws\<lparr>xTimeOut := vTaskInternalSetTimeOutState k, xEntryTimeSet := True\<rparr>))
        else Inr (k, Continue ws))"

definition xQueueSemaphoreTake_wait ::
  "u32 \<Rightarrow> wait_state \<Rightarrow> 'a qkernel_scheme \<Rightarrow> ('a qkernel_scheme \<times> q_status outcome) res" where
  "xQueueSemaphoreTake_wait pxQueue ws k =
    (let k1 = prvLockQueue pxQueue (vTaskSuspendAll k);
         (k2, to', ticks', expired) = xTaskCheckForTimeOut (xTimeOut ws) (xTicksToWait ws) k1;
         ws' = ws\<lparr>xTimeOut := to', xTicksToWait := ticks'\<rparr>
     in if \<not> expired
        then if prvIsQueueEmpty pxQueue k2
             then let (k3, ws'') =
                        (if pcHead (q_at k2 pxQueue) = queueQUEUE_IS_MUTEX
                         then let (k2', inh) = xTaskPriorityInherit (xMutexHolder (q_at k2 pxQueue)) k2
                              in (k2', ws'\<lparr>xInheritanceOccurred := inh\<rparr>)
                         else (k2, ws'))
                  in rbind (block_on pxQueue (xTasksWaitingToReceive pxQueue) ticks' k3) (\<lambda>k4. Inr (k4, Continue ws''))
             else rbind (unlock_and_resume pxQueue k2) (\<lambda>(k3, _). Inr (k3, Continue ws'))
        else rbind (unlock_and_resume pxQueue k2) (\<lambda>(k3, _).
               if prvIsQueueEmpty pxQueue k3
               then rbind (if xInheritanceOccurred ws'
                           then vTaskPriorityDisinheritAfterTimeout (xMutexHolder (q_at k3 pxQueue))
                                  (prvGetDisinheritPriorityAfterTimeout pxQueue k3) k3
                           else Inr k3) (\<lambda>k4. Inr (k4, Returned errQUEUE_EMPTY))
               else Inr (k3, Continue ws')))"

definition xQueueSemaphoreTake ::
  "u32 \<Rightarrow> u32 \<Rightarrow> 'a qkernel_scheme \<Rightarrow> ('a qkernel_scheme \<times> q_status outcome) res" where
  "xQueueSemaphoreTake pxQueue ticks k =
    dev_assert (pxQueue \<noteq> NULL)
    (dev_assert (uxItemSize (q_at k pxQueue) = 0)
    (dev_assert (\<not> (xTaskGetSchedulerState k = SCHEDULER_SUSPENDED \<and> ticks \<noteq> 0))
      (rbind (xQueueSemaphoreTake_crit pxQueue (initial_wait ticks) k) (\<lambda>(k1, out).
         case out of Returned r \<Rightarrow> Inr (k1, Returned r)
         | Continue ws \<Rightarrow> xQueueSemaphoreTake_wait pxQueue ws k1))))"

text \<open>A call with no block time returns from its first critical section; callers read the state it leaves.\<close>

definition prvInitialiseMutex :: "u32 \<Rightarrow> 'a qkernel_scheme \<Rightarrow> 'a qkernel_scheme res" where
  "prvInitialiseMutex pxNewQueue k =
    (if pxNewQueue \<noteq> NULL
     then rbind (xQueueGenericSend pxNewQueue None 0 queueSEND_TO_BACK
                  (upd_q pxNewQueue (\<lambda>q. q\<lparr>u_0 := NULL, pcHead := queueQUEUE_IS_MUTEX, u_1 := 0\<rparr>) k))
            (\<lambda>(k1, _). Inr k1)
     else Inr k)"

definition xQueueCreateMutex :: "u32 \<Rightarrow> 'a qkernel_scheme \<Rightarrow> ('a qkernel_scheme \<times> u32) res" where
  "xQueueCreateMutex addr k =
    rbind (xQueueGenericCreate addr 1 0 k) (\<lambda>(k1, xNewQueue).
      rbind (prvInitialiseMutex xNewQueue k1) (\<lambda>k2. Inr (k2, xNewQueue)))"

definition xQueueCreateCountingSemaphore ::
  "u32 \<Rightarrow> u32 \<Rightarrow> u32 \<Rightarrow> 'a qkernel_scheme \<Rightarrow> ('a qkernel_scheme \<times> u32) res" where
  "xQueueCreateCountingSemaphore addr uxMaxCount uxInitialCount k =
    (if uxMaxCount \<noteq> 0 \<and> uxInitialCount \<le> uxMaxCount
     then rbind (xQueueGenericCreate addr uxMaxCount 0 k) (\<lambda>(k1, xHandle).
            if xHandle \<noteq> NULL
            then Inr (upd_q xHandle (\<lambda>q. q\<lparr>uxMessagesWaiting := uxInitialCount\<rparr>) k1, xHandle)
            else Inr (k1, xHandle))
     else Inl DevAssertFailed)"

definition xQueueGiveMutexRecursive :: "u32 \<Rightarrow> 'a qkernel_scheme \<Rightarrow> ('a qkernel_scheme \<times> q_status) res" where
  "xQueueGiveMutexRecursive pxMutex k =
    dev_assert (pxMutex \<noteq> NULL)
     (if xMutexHolder (q_at k pxMutex) = pxCurrentTCB k
      then let k1 = upd_q pxMutex (\<lambda>q. q\<lparr>u_1 := uxRecursiveCallCount q - 1\<rparr>) k
           in rbind (if uxRecursiveCallCount (q_at k1 pxMutex) = 0
                     then rbind (xQueueGenericSend pxMutex None 0 queueSEND_TO_BACK k1) (\<lambda>(k2, _). Inr k2)
                     else Inr k1) (\<lambda>k3. Inr (k3, pdPASS))
      else Inr (k, pdFAIL))"

text \<open>Taking recursively may have to wait like \<open>xQueueSemaphoreTake\<close>; the count grows when it returned with success.\<close>

definition xQueueTakeMutexRecursive ::
  "u32 \<Rightarrow> u32 \<Rightarrow> 'a qkernel_scheme \<Rightarrow> ('a qkernel_scheme \<times> q_status outcome) res" where
  "xQueueTakeMutexRecursive pxMutex ticks k =
    dev_assert (pxMutex \<noteq> NULL)
     (if xMutexHolder (q_at k pxMutex) = pxCurrentTCB k
      then Inr (upd_q pxMutex (\<lambda>q. q\<lparr>u_1 := uxRecursiveCallCount q + 1\<rparr>) k, Returned pdPASS)
      else rbind (xQueueSemaphoreTake pxMutex ticks k) (\<lambda>(k1, out).
             if out = Returned pdPASS
             then Inr (upd_q pxMutex (\<lambda>q. q\<lparr>u_1 := uxRecursiveCallCount q + 1\<rparr>) k1, out)
             else Inr (k1, out)))"

section \<open>Frame\<close>

lemma list_ops_frame [simp]:
  "q_mem (upd_item p f k) = q_mem k" "q_at (upd_item p f k) = q_at k"
  "q_mem (upd_list p g k) = q_mem k" "q_at (upd_list p g k) = q_at k"
  by (simp_all add: upd_item_def upd_list_def)

lemma list_fun_frame [simp]:
  "q_mem (fst (uxListRemove x k)) = q_mem k" "q_at (fst (uxListRemove x k)) = q_at k"
  "q_mem (vListInsertEnd L x k) = q_mem k" "q_at (vListInsertEnd L x k) = q_at k"
  "q_mem (vListInitialise L k) = q_mem k" "q_at (vListInitialise L k) = q_at k"
  by (simp_all add: uxListRemove_def vListInsertEnd_def vListInitialise_def Let_def)

lemma task_frame [simp]:
  "q_mem (prvAddTaskToReadyList t k) = q_mem k" "q_at (prvAddTaskToReadyList t k) = q_at k"
  "q_mem (listREMOVE_ITEM x k) = q_mem k" "q_at (listREMOVE_ITEM x k) = q_at k"
  "q_mem (listINSERT_END L x k) = q_mem k" "q_at (listINSERT_END L x k) = q_at k"
  "q_mem (portYIELD_WITHIN_API k) = q_mem k" "q_at (portYIELD_WITHIN_API k) = q_at k"
  by (simp_all add: prvAddTaskToReadyList_def taskRECORD_READY_PRIORITY_def listREMOVE_ITEM_def
      listINSERT_END_def portYIELD_WITHIN_API_def Let_def)

lemma xTaskRemoveFromEventList_frame:
  "xTaskRemoveFromEventList L k = Inr (k', b) \<Longrightarrow> q_mem k' = q_mem k \<and> q_at k' = q_at k"
  by (auto simp: xTaskRemoveFromEventList_def Let_def dev_assert_def split: if_splits)

lemma wake_first_frame: "wake_first L k = Inr (k', b) \<Longrightarrow> q_mem k' = q_mem k \<and> q_at k' = q_at k"
  by (auto simp: wake_first_def xTaskRemoveFromEventList_frame split: if_splits)

definition waiters_ok :: "u32 \<Rightarrow> 'a qkernel_scheme \<Rightarrow> bool" where
  "waiters_ok L k \<longleftrightarrow> listLIST_IS_EMPTY L k \<or> listGET_OWNER_OF_HEAD_ENTRY L k \<noteq> NULL"

lemma wake_first_total: "waiters_ok L k \<Longrightarrow> \<exists>k' b. wake_first L k = Inr (k', b)"
  by (auto simp: waiters_ok_def wake_first_def xTaskRemoveFromEventList_def Let_def)

section \<open>Storage\<close>

definition slot_addr :: "Queue_t \<Rightarrow> nat \<Rightarrow> u32" where
  "slot_addr q i = pcHead q + of_nat (i * unat (uxItemSize q))"

definition q_geom :: "Queue_t \<Rightarrow> nat \<Rightarrow> nat \<Rightarrow> bool" where
  "q_geom q r c \<longleftrightarrow>
    uxItemSize q \<noteq> 0 \<and> uxLength q \<noteq> 0 \<and> uxItemSize q \<le> pcHead q \<and>
    unat (pcHead q) + unat (uxLength q) * unat (uxItemSize q) < 2 ^ 32 \<and>
    pcTail q = slot_addr q (unat (uxLength q)) \<and>
    r < unat (uxLength q) \<and> c \<le> unat (uxLength q) \<and>
    pcReadFrom q = slot_addr q r \<and>
    pcWriteTo q = slot_addr q ((r + 1 + c) mod unat (uxLength q)) \<and>
    uxMessagesWaiting q = of_nat c"

definition slot :: "mem \<Rightarrow> Queue_t \<Rightarrow> nat \<Rightarrow> u8 list" where
  "slot m q i = mem_read m (slot_addr q i) (unat (uxItemSize q))"

definition slots :: "mem \<Rightarrow> Queue_t \<Rightarrow> nat \<Rightarrow> nat \<Rightarrow> u8 list list" where
  "slots m q r c = map (\<lambda>j. slot m q ((r + 1 + j) mod unat (uxLength q))) [0..<c]"

lemma slot_addr_nat:
  assumes "q_geom q r c" "i \<le> unat (uxLength q)"
  shows "unat (slot_addr q i) = unat (pcHead q) + i * unat (uxItemSize q)"
proof -
  have "i * unat (uxItemSize q) \<le> unat (uxLength q) * unat (uxItemSize q)" using assms by simp
  then have "unat (pcHead q) + i * unat (uxItemSize q) < 2 ^ 32"
    using assms(1) unfolding q_geom_def by linarith
  then show ?thesis
    by (simp add: slot_addr_def unat_word_ariths unat_of_nat take_bit_nat_def mod_simps)
qed

lemma slot_write_other:
  assumes g: "q_geom q r c" and ij: "i < unat (uxLength q)" "j < unat (uxLength q)" "i \<noteq> j"
    and len: "length bs = unat (uxItemSize q)"
  shows "slot (mem_write (slot_addr q j) bs m) q i = slot m q i"
  unfolding slot_def
proof (rule mem_read_cong)
  fix a assume a: "a < unat (uxItemSize q)"
  let ?s = "unat (uxItemSize q)"
  have lt: "unat (pcHead q) + unat (uxLength q) * ?s < 2 ^ 32" using g by (simp add: q_geom_def)
  have bi: "Suc i * ?s \<le> unat (uxLength q) * ?s" "Suc j * ?s \<le> unat (uxLength q) * ?s"
    using ij by (simp_all only: mult_le_mono1 Suc_leI)
  have x: "unat (slot_addr q i + of_nat a) = unat (pcHead q) + i * ?s + a"
    using slot_addr_nat [OF g, of i] ij a lt bi by (simp add: unat_word_ariths unat_of_nat take_bit_nat_def mod_simps)
  have y: "unat (slot_addr q j) = unat (pcHead q) + j * ?s"
    using slot_addr_nat [OF g, of j] ij by simp
  have "?s \<le> unat (slot_addr q i + of_nat a - slot_addr q j)"
  proof (cases "i < j")
    case True
    then have "Suc i * ?s \<le> j * ?s" by (simp only: mult_le_mono1 Suc_leI)
    then show ?thesis unfolding word_diff_nat x y using a lt bi by auto
  next
    case False
    then have "Suc j * ?s \<le> i * ?s" using ij by (simp only: mult_le_mono1 Suc_leI)
    then show ?thesis unfolding word_diff_nat x y using a lt bi by auto
  qed
  then show "mem_write (slot_addr q j) bs m (slot_addr q i + of_nat a) = m (slot_addr q i + of_nat a)"
    by (intro mem_write_other) (simp add: len)
qed

lemma slot_write_same:
  assumes "length bs = unat (uxItemSize q)"
  shows "slot (mem_write (slot_addr q j) bs m) q j = bs"
  unfolding slot_def assms [symmetric] by (rule mem_read_write_same) (simp add: assms unat_u32_less)


section \<open>Copies refine list operations\<close>

definition queue_is :: "u32 \<Rightarrow> 'a qkernel_scheme \<Rightarrow> u8 list list \<Rightarrow> bool" where
  "queue_is p k xs \<longleftrightarrow>
    (\<exists>r. q_geom (q_at k p) r (length xs) \<and> slots (q_mem k) (q_at k p) r (length xs) = xs)"

lemma slot_addr_cong:
  "pcHead q' = pcHead q \<Longrightarrow> uxItemSize q' = uxItemSize q \<Longrightarrow> slot_addr q' = slot_addr q"
  "pcHead q' = pcHead q \<Longrightarrow> uxItemSize q' = uxItemSize q \<Longrightarrow> slot m q' = slot m q"
  by (auto simp: slot_addr_def slot_def fun_eq_iff)

lemma slots_cong:
  "pcHead q' = pcHead q \<Longrightarrow> uxItemSize q' = uxItemSize q \<Longrightarrow> uxLength q' = uxLength q \<Longrightarrow>
   slots m q' = slots m q"
  using slot_addr_cong(2) [of q' q m] by (simp add: slots_def fun_eq_iff)

text \<open>The wrap tests of the source compute the successor and predecessor slot modulo the length.\<close>

lemma slot_succ:
  assumes g: "q_geom q r c" and i: "i < unat (uxLength q)"
  shows "(if slot_addr q i + uxItemSize q \<ge> pcTail q then pcHead q else slot_addr q i + uxItemSize q) =
    slot_addr q (Suc i mod unat (uxLength q))"
proof -
  let ?n = "unat (uxLength q)"
  have eq: "slot_addr q i + uxItemSize q = slot_addr q (Suc i)" by (simp add: slot_addr_def algebra_simps)
  have t: "pcTail q = slot_addr q ?n" and s: "0 < unat (uxItemSize q)"
    using g by (simp_all add: q_geom_def unat_gt_0)
  have "slot_addr q (Suc i) \<ge> pcTail q \<longleftrightarrow> Suc i = ?n"
  proof -
    have "slot_addr q (Suc i) \<ge> pcTail q \<longleftrightarrow> ?n * unat (uxItemSize q) \<le> Suc i * unat (uxItemSize q)"
      unfolding t word_le_nat_alt using slot_addr_nat [OF g, of "Suc i"] slot_addr_nat [OF g, of ?n] i
      by (simp del: mult_Suc)
    also have "\<dots> \<longleftrightarrow> Suc i = ?n" using i s by (simp only: mult_le_cancel2) auto
    finally show ?thesis .
  qed
  moreover have "pcHead q = slot_addr q 0" by (simp add: slot_addr_def)
  ultimately show ?thesis unfolding eq using i by auto
qed

lemma slot_pred:
  assumes g: "q_geom q r c" and i: "i < unat (uxLength q)"
  shows "(if slot_addr q i - uxItemSize q < pcHead q then pcTail q - uxItemSize q else slot_addr q i - uxItemSize q) =
    slot_addr q ((i + unat (uxLength q) - 1) mod unat (uxLength q))"
proof -
  let ?n = "unat (uxLength q)"
  have t: "pcTail q = slot_addr q ?n" and n: "0 < ?n" and h: "uxItemSize q \<le> pcHead q" and s: "0 < unat (uxItemSize q)"
    using g by (simp_all add: q_geom_def unat_gt_0)
  have pred: "slot_addr q (Suc j) - uxItemSize q = slot_addr q j" for j
    by (simp add: slot_addr_def algebra_simps)
  show ?thesis
  proof (cases i)
    case 0
    have "slot_addr q 0 - uxItemSize q < pcHead q"
      using h s by (simp add: slot_addr_def word_less_nat_alt unat_sub word_le_nat_alt)
    moreover have "pcTail q - uxItemSize q = slot_addr q (?n - 1)" using pred [of "?n - 1"] t n by simp
    ultimately show ?thesis using 0 n by simp
  next
    case (Suc j)
    have "\<not> slot_addr q j < pcHead q"
      using slot_addr_nat [OF g, of j] i Suc by (simp add: word_less_nat_alt)
    moreover have "(i + ?n - 1) mod ?n = j" using Suc i by simp
    ultimately show ?thesis using Suc pred by simp
  qed
qed

lemma queue_is_back:
  assumes q: "queue_is p k xs" and room: "length xs < unat (uxLength (q_at k p))"
    and bs: "length bs = unat (uxItemSize (q_at k p))"
  shows "\<exists>k'. prvCopyDataToQueue p (Some bs) queueSEND_TO_BACK k = Inr (k', False) \<and> queue_is p k' (xs @ [bs]) \<and>
    uxLength (q_at k' p) = uxLength (q_at k p) \<and> uxItemSize (q_at k' p) = uxItemSize (q_at k p) \<and>
    cTxLock (q_at k' p) = cTxLock (q_at k p) \<and> cRxLock (q_at k' p) = cRxLock (q_at k p) \<and>
    l_item k' = l_item k \<and> l_list k' = l_list k"
proof -
  define Q where "Q = q_at k p"
  let ?n = "unat (uxLength Q)" and ?c = "length xs"
  obtain r where g: "q_geom Q r ?c" and xs: "slots (q_mem k) Q r ?c = xs"
    using q by (auto simp: queue_is_def Q_def)
  have n: "0 < ?n" "r < ?n" "?c < ?n" using g room by (auto simp: q_geom_def Q_def)
  define w where "w = (r + 1 + ?c) mod ?n"
  have w: "w < ?n" "pcWriteTo Q = slot_addr Q w" using g n by (simp_all add: q_geom_def w_def)
  define m' where "m' = mem_write (slot_addr Q w) bs (q_mem k)"
  define Q' where "Q' = Q\<lparr>pcWriteTo := slot_addr Q (Suc w mod ?n), uxMessagesWaiting := uxMessagesWaiting Q + 1\<rparr>"
  define k' where "k' = upd_q p (\<lambda>q. q\<lparr>pcWriteTo := slot_addr Q (Suc w mod ?n),
      uxMessagesWaiting := uxMessagesWaiting Q + 1\<rparr>) (k\<lparr>q_mem := m'\<rparr>)"
  have run: "prvCopyDataToQueue p (Some bs) queueSEND_TO_BACK k = Inr (k', False)"
    using g bs slot_succ [OF g w(1)]
    by (auto simp: prvCopyDataToQueue_def Let_def Q_def [symmetric] memcpy_in_def k'_def m'_def w(2) q_geom_def)
  have sw: "Suc w mod ?n = (r + 1 + Suc ?c) mod ?n" by (simp add: w_def mod_Suc_eq)
  have g': "q_geom Q' r (Suc ?c)"
    using g n sw by (simp add: q_geom_def Q'_def slot_addr_def)
  have old: "slot m' Q ((r + 1 + j) mod ?n) = slot (q_mem k) Q ((r + 1 + j) mod ?n)" if "j < ?c" for j
  proof -
    have "(r + 1 + j) mod ?n \<noteq> w"
    proof
      assume "(r + 1 + j) mod ?n = w"
      then have "?n dvd (r + 1 + ?c) - (r + 1 + j)" unfolding w_def using that by (metis mod_eq_dvd_iff_nat less_imp_le_nat add_le_cancel_left)
      then have "?n dvd ?c - j" by simp
      then show False using that n by (metis dvd_imp_le diff_le_self less_le_trans not_le zero_less_diff)
    qed
    then show ?thesis unfolding m'_def using n w bs by (intro slot_write_other [OF g]) (simp_all add: Q_def)
  qed
  have "slots m' Q' r (Suc ?c) = xs @ [bs]"
  proof -
    have "slots m' Q' = slots m' Q" by (rule slots_cong) (simp_all add: Q'_def)
    then have "slots m' Q' r (Suc ?c) = slots m' Q r ?c @ [slot m' Q w]"
      by (simp add: slots_def w_def)
    also have "slots m' Q r ?c = slots (q_mem k) Q r ?c" using old by (simp add: slots_def)
    also note xs
    also have "slot m' Q w = bs" unfolding m'_def by (rule slot_write_same) (simp add: bs Q_def)
    finally show ?thesis .
  qed
  with g' have "queue_is p k' (xs @ [bs])"
    by (auto simp: queue_is_def k'_def upd_q_def Q'_def Q_def)
  with run show ?thesis by (auto simp: k'_def upd_q_def Q_def)
qed


lemma ring_ne:
  assumes "j < c" "c \<le> (n :: nat)" "j' < n" "j < j'"  "j' < j + n"
  shows "(a + j) mod n \<noteq> (a + j') mod n"
proof
  assume "(a + j) mod n = (a + j') mod n"
  then have "n dvd (a + j') - (a + j)" using assms by (metis mod_eq_dvd_iff_nat less_imp_le_nat add_le_cancel_left)
  then have "n dvd j' - j" by simp
  then show False using assms by (metis dvd_imp_le diff_le_self le_less_trans not_le zero_less_diff)
qed

lemma mod_suc_shift: "(Suc r mod n + 1 + j) mod n = (r + 1 + Suc j) mod n"
  using mod_add_left_eq [of "Suc r" n "1 + j"] by (simp add: add.assoc)

lemma queue_is_take:
  assumes q: "queue_is p k (x # xs)"
  shows "\<exists>k1. prvCopyDataFromQueue p k = (k1, x) \<and>
    queue_is p (upd_q p (\<lambda>q. q\<lparr>uxMessagesWaiting := uxMessagesWaiting (q_at k p) - 1\<rparr>) k1) xs \<and>
    uxLength (q_at k1 p) = uxLength (q_at k p) \<and> uxItemSize (q_at k1 p) = uxItemSize (q_at k p) \<and>
    cRxLock (q_at k1 p) = cRxLock (q_at k p) \<and> cTxLock (q_at k1 p) = cTxLock (q_at k p) \<and>
    l_item k1 = l_item k \<and> l_list k1 = l_list k \<and> q_mem k1 = q_mem k"
proof -
  define Q where "Q = q_at k p"
  let ?n = "unat (uxLength Q)" and ?c = "length xs"
  obtain r where g: "q_geom Q r (Suc ?c)" and xs: "slots (q_mem k) Q r (Suc ?c) = x # xs"
    using q by (auto simp: queue_is_def Q_def)
  have n: "r < ?n" "Suc ?c \<le> ?n" "pcReadFrom Q = slot_addr Q r" "uxItemSize Q \<noteq> 0"
    using g by (auto simp: q_geom_def)
  define r' where "r' = Suc r mod ?n"
  have shift: "(r' + 1 + j) mod ?n = (r + 1 + Suc j) mod ?n" for j
    unfolding r'_def by (rule mod_suc_shift)
  have "slots (q_mem k) Q r (Suc ?c) = slot (q_mem k) Q r' # slots (q_mem k) Q r' ?c"
    unfolding slots_def upt_conv_Cons [OF zero_less_Suc] map_Suc_upt [symmetric]
    by (simp add: shift [simplified] r'_def [symmetric] del: upt_Suc)
  with xs have x: "slot (q_mem k) Q r' = x" and rest: "slots (q_mem k) Q r' ?c = xs" by simp_all
  define k1 where "k1 = upd_q p (\<lambda>q. q\<lparr>u_1 := slot_addr Q r'\<rparr>) k"
  have run: "prvCopyDataFromQueue p k = (k1, x)"
    using slot_succ [OF g n(1)] n x
    by (simp add: prvCopyDataFromQueue_def Let_def Q_def [symmetric] k1_def r'_def slot_def)
  define Q' where "Q' = Q\<lparr>u_1 := slot_addr Q r', uxMessagesWaiting := uxMessagesWaiting Q - 1\<rparr>"
  have "q_geom Q' r' ?c"
    using g n shift [of ?c] by (simp add: q_geom_def Q'_def slot_addr_def r'_def)
  moreover have "slots (q_mem k) Q' = slots (q_mem k) Q" by (rule slots_cong) (simp_all add: Q'_def)
  ultimately have "queue_is p (upd_q p (\<lambda>q. q\<lparr>uxMessagesWaiting := uxMessagesWaiting Q - 1\<rparr>) k1) xs"
    using rest by (auto simp: queue_is_def k1_def upd_q_def Q'_def Q_def)
  with run show ?thesis by (auto simp: k1_def upd_q_def Q_def)
qed

lemma queue_is_front:
  assumes q: "queue_is p k xs" and room: "length xs < unat (uxLength (q_at k p))"
    and bs: "length bs = unat (uxItemSize (q_at k p))"
  shows "\<exists>k'. prvCopyDataToQueue p (Some bs) queueSEND_TO_FRONT k = Inr (k', False) \<and> queue_is p k' (bs # xs) \<and>
    uxLength (q_at k' p) = uxLength (q_at k p) \<and> uxItemSize (q_at k' p) = uxItemSize (q_at k p) \<and>
    cTxLock (q_at k' p) = cTxLock (q_at k p) \<and> cRxLock (q_at k' p) = cRxLock (q_at k p) \<and>
    l_item k' = l_item k \<and> l_list k' = l_list k"
proof -
  define Q where "Q = q_at k p"
  let ?n = "unat (uxLength Q)" and ?c = "length xs"
  obtain r where g: "q_geom Q r ?c" and xs: "slots (q_mem k) Q r ?c = xs"
    using q by (auto simp: queue_is_def Q_def)
  have n: "r < ?n" "?c < ?n" "pcReadFrom Q = slot_addr Q r" "uxItemSize Q \<noteq> 0"
    using g room by (auto simp: q_geom_def Q_def)
  define r' where "r' = (r + ?n - 1) mod ?n"
  define m' where "m' = mem_write (slot_addr Q r) bs (q_mem k)"
  define Q' where "Q' = Q\<lparr>u_1 := slot_addr Q r', uxMessagesWaiting := uxMessagesWaiting Q + 1\<rparr>"
  define k' where "k' = upd_q p (\<lambda>q. q\<lparr>u_1 := slot_addr Q r',
      uxMessagesWaiting := uxMessagesWaiting Q + 1\<rparr>) (k\<lparr>q_mem := m'\<rparr>)"
  have run: "prvCopyDataToQueue p (Some bs) queueSEND_TO_FRONT k = Inr (k', False)"
    using n bs slot_pred [OF g n(1)]
    by (auto simp: prvCopyDataToQueue_def Let_def Q_def [symmetric] memcpy_in_def k'_def m'_def r'_def)
  have suc: "Suc r' mod ?n = r" using n by (simp add: r'_def mod_Suc_eq)
  have shift: "(r' + 1 + Suc j) mod ?n = (r + 1 + j) mod ?n" for j
    using mod_suc_shift [of r' ?n j] suc by simp
  have g': "q_geom Q' r' (Suc ?c)"
    using g n shift [of ?c] by (simp add: q_geom_def Q'_def slot_addr_def r'_def)
  have old: "slot m' Q ((r + 1 + j) mod ?n) = slot (q_mem k) Q ((r + 1 + j) mod ?n)" if "j < ?c" for j
  proof -
    have "(r + 0) mod ?n \<noteq> (r + Suc j) mod ?n" using that n by (intro ring_ne [of 0 1]) auto
    then show ?thesis unfolding m'_def using n bs that
      by (intro slot_write_other [OF g]) (simp_all add: Q_def [symmetric])
  qed
  have "slots m' Q' r' (Suc ?c) = bs # xs"
  proof -
    have "slots m' Q' = slots m' Q" by (rule slots_cong) (simp_all add: Q'_def)
    moreover have "slots m' Q r' (Suc ?c) = slot m' Q r # slots m' Q r ?c"
      unfolding slots_def upt_conv_Cons [OF zero_less_Suc] map_Suc_upt [symmetric]
      using suc by (simp add: shift [simplified] del: upt_Suc)
    moreover have "slots m' Q r ?c = slots (q_mem k) Q r ?c" using old by (simp add: slots_def)
    moreover have "slot m' Q r = bs" unfolding m'_def by (rule slot_write_same) (simp add: bs Q_def)
    ultimately show ?thesis using xs by simp
  qed
  with g' have "queue_is p k' (bs # xs)"
    by (auto simp: queue_is_def k'_def upd_q_def Q'_def Q_def)
  with run show ?thesis by (auto simp: k'_def upd_q_def Q_def)
qed


section \<open>The calls of the gateway\<close>

lemma queue_is_count: "queue_is p k xs \<Longrightarrow> unat (uxMessagesWaiting (q_at k p)) = length xs \<and>
    length xs \<le> unat (uxLength (q_at k p))"
proof -
  assume "queue_is p k xs"
  then obtain r where g: "q_geom (q_at k p) r (length xs)" by (auto simp: queue_is_def)
  then have le: "length xs \<le> unat (uxLength (q_at k p))" by (simp add: q_geom_def)
  then have "length xs < 4294967296" using unat_u32_less [of "uxLength (q_at k p)"] by linarith
  with g le show ?thesis by (simp add: q_geom_def unat_of_nat_u32)
qed

lemma queue_is_item_size: "queue_is p k xs \<Longrightarrow> uxItemSize (q_at k p) \<noteq> 0"
  by (auto simp: queue_is_def q_geom_def)

lemma queue_is_frame:
  "q_at k' p = q_at k p \<Longrightarrow> q_mem k' = q_mem k \<Longrightarrow> queue_is p k' xs = queue_is p k xs"
  by (simp add: queue_is_def)

lemma queue_is_lock: "queue_is p (upd_q p (\<lambda>q. q\<lparr>cTxLock := v\<rparr>) k) xs = queue_is p k xs"
proof -
  have "q_geom (q\<lparr>cTxLock := v\<rparr>) = q_geom q" for q by (simp add: q_geom_def slot_addr_def fun_eq_iff)
  moreover have "slots m (q\<lparr>cTxLock := v\<rparr>) = slots m q" for m q by (rule slots_cong) simp_all
  ultimately show ?thesis by (simp add: queue_is_def upd_q_def)
qed

lemma send_from_isr_ok:
  assumes p: "p \<noteq> NULL" and q: "queue_is p k xs" and bs: "length bs = unat (uxItemSize (q_at k p))"
    and w: "waiters_ok (xTasksWaitingToReceive p) k" and l: "cTxLock (q_at k p) \<noteq> queueINT8_MAX"
    and room: "length xs < unat (uxLength (q_at k p))"
  shows "\<exists>k' w'. xQueueGenericSendFromISR p (Some bs) w0 queueSEND_TO_BACK k = Inr (k', w', pdPASS) \<and>
    queue_is p k' (xs @ [bs])"
proof -
  obtain k1 where k1: "prvCopyDataToQueue p (Some bs) queueSEND_TO_BACK k = Inr (k1, False)" "queue_is p k1 (xs @ [bs])"
    "l_item k1 = l_item k" "l_list k1 = l_list k"
    using queue_is_back [OF q room bs] by auto
  have less: "uxMessagesWaiting (q_at k p) < uxLength (q_at k p)"
    using queue_is_count [OF q] room by (simp add: word_less_nat_alt)
  show ?thesis
  proof (cases "cTxLock (q_at k p) = queueUNLOCKED")
    case True
    have "waiters_ok (xTasksWaitingToReceive p) k1"
      using w k1(3,4) by (simp add: waiters_ok_def listLIST_IS_EMPTY_def listGET_OWNER_OF_HEAD_ENTRY_def)
    then obtain k2 b where k2: "wake_first (xTasksWaitingToReceive p) k1 = Inr (k2, b)"
      using wake_first_total by blast
    then have "queue_is p k2 (xs @ [bs])"
      using wake_first_frame [OF k2] k1(2) queue_is_frame [of k2 p k1] by simp
    with True k2 k1 less p show ?thesis by (simp add: xQueueGenericSendFromISR_def Let_def)
  next
    case False
    with l k1 less p show ?thesis by (simp add: xQueueGenericSendFromISR_def Let_def queue_is_lock)
  qed
qed

lemma send_from_isr_full:
  assumes "p \<noteq> NULL" and q: "queue_is p k xs" and room: "\<not> length xs < unat (uxLength (q_at k p))"
  shows "xQueueGenericSendFromISR p (Some bs) w0 queueSEND_TO_BACK k = Inr (k, w0, errQUEUE_FULL)"
proof -
  have "\<not> uxMessagesWaiting (q_at k p) < uxLength (q_at k p)"
    using queue_is_count [OF q] room by (simp add: word_less_nat_alt)
  with assms show ?thesis by (simp add: xQueueGenericSendFromISR_def Let_def)
qed

lemma receive_nonempty:
  assumes p: "p \<noteq> NULL" and q: "queue_is p k (x # xs)" and w: "waiters_ok (xTasksWaitingToSend p) k"
  shows "\<exists>k'. xQueueReceive p False 0 k = Inr (k', x, Returned pdPASS) \<and> queue_is p k' xs"
proof -
  obtain k1 where k1: "prvCopyDataFromQueue p k = (k1, x)"
    "queue_is p (upd_q p (\<lambda>q. q\<lparr>uxMessagesWaiting := uxMessagesWaiting (q_at k p) - 1\<rparr>) k1) xs"
    "l_item k1 = l_item k" "l_list k1 = l_list k"
    using queue_is_take [OF q] by auto
  define k2 where "k2 = upd_q p (\<lambda>q. q\<lparr>uxMessagesWaiting := uxMessagesWaiting (q_at k p) - 1\<rparr>) k1"
  have "waiters_ok (xTasksWaitingToSend p) k2"
    using w k1(3,4) by (simp add: waiters_ok_def listLIST_IS_EMPTY_def listGET_OWNER_OF_HEAD_ENTRY_def k2_def upd_q_def)
  then obtain k3 b where k3: "wake_first (xTasksWaitingToSend p) k2 = Inr (k3, b)"
    using wake_first_total by blast
  have "uxMessagesWaiting (q_at k p) > 0" using queue_is_count [OF q] by (simp add: word_less_nat_alt)
  moreover have "queue_is p (if b then portYIELD_WITHIN_API k3 else k3) xs"
    using k1(2) wake_first_frame [OF k3] queue_is_frame [of "if b then portYIELD_WITHIN_API k3 else k3" p k2]
    by (simp add: k2_def)
  ultimately show ?thesis
    using p k1 k3 by (simp add: xQueueReceive_def receive_asserts_def xQueueReceive_crit_def Let_def
        wake_and_yield_def k2_def [symmetric])
qed

lemma receive_empty:
  assumes "p \<noteq> NULL" and q: "queue_is p k []"
  shows "xQueueReceive p False 0 k = Inr (k, [], Returned errQUEUE_EMPTY)"
proof -
  have "uxMessagesWaiting (q_at k p) = 0" using queue_is_count [OF q] by (simp add: word_unat_eq_iff)
  with assms show ?thesis
    by (simp add: xQueueReceive_def receive_asserts_def xQueueReceive_crit_def initial_wait_def)
qed

lemma vListInitialise_other:
  "list_at h L [] \<Longrightarrow> L \<noteq> L' \<Longrightarrow> list_at (vListInitialise L' h) L []"
  by (simp add: list_at_def vListInitialise_def heap_upd xListEnd_def)

lemma create_checks:
  fixes n s :: u32
  assumes "n \<noteq> 0" "unat n * unat s + 72 < 2 ^ 32"
  shows "0 < n" "s \<le> 0xFFFFFFFF div n" "n * s \<le> 0xFFFFFFFF - 72" "unat (n * s) = unat n * unat s"
proof -
  have n: "0 < unat n" using assms(1) by (simp add: unat_gt_0)
  show "0 < n" using n by (simp add: word_less_nat_alt)
  show m: "unat (n * s) = unat n * unat s" using assms(2) by (simp add: unat_word_ariths)
  show "n * s \<le> 0xFFFFFFFF - 72" using assms(2) by (simp add: word_le_nat_alt m)
  have "unat s * unat n \<le> 4294967295" using assms(2) by (simp add: mult.commute)
  then have "unat s \<le> 4294967295 div unat n" using n by (simp add: less_eq_div_iff_mult_less_eq)
  then show "s \<le> 0xFFFFFFFF div n" by (simp add: word_le_nat_alt unat_div)
qed

lemma create_empty:
  assumes a: "addr \<noteq> NULL" "n \<noteq> 0" "s \<noteq> 0" "unat addr + 72 + unat n * unat s < 2 ^ 32" "unat s \<le> unat addr + 72"
  shows "\<exists>k'. xQueueGenericCreate addr n s k = Inr (k', addr) \<and> queue_is addr k' [] \<and>
     uxLength (q_at k' addr) = n \<and> uxItemSize (q_at k' addr) = s \<and> cTxLock (q_at k' addr) = queueUNLOCKED \<and>
     cRxLock (q_at k' addr) = queueUNLOCKED \<and>
     list_at k' (xTasksWaitingToSend addr) [] \<and> list_at k' (xTasksWaitingToReceive addr) []"
proof -
  have chk: "0 < n" "s \<le> 0xFFFFFFFF div n" "n * s \<le> 0xFFFFFFFF - 72"
    using create_checks [of n s] a by simp_all
  have one: "1 \<le> n" using a(2) by (simp add: word_le_nat_alt unat_gt_0 Suc_le_eq)
  define Q where "Q = (q_at k addr)\<lparr>pcHead := addr + 72, uxLength := n, uxItemSize := s,
     u_0 := addr + 72 + n * s, uxMessagesWaiting := 0, pcWriteTo := addr + 72,
     u_1 := addr + 72 + (n - 1) * s, cRxLock := queueUNLOCKED, cTxLock := queueUNLOCKED\<rparr>"
  define k1 where "k1 = upd_q addr (\<lambda>_. Q) k"
  define k' where "k' = vListInitialise (xTasksWaitingToReceive addr) (vListInitialise (xTasksWaitingToSend addr) k1)"
  have run: "xQueueGenericCreate addr n s k = Inr (k', addr)"
    using chk one a(1,3) by (simp add: xQueueGenericCreate_def prvInitialiseNewQueue_def xQueueGenericReset_def
        Let_def k'_def k1_def Q_def upd_q_def)
  have h: "unat (addr + 72) = unat addr + 72" using a(4) by (simp add: unat_word_ariths)
  have "of_nat ((unat n - 1) * unat s) = (n - 1) * s"
    using one by (simp add: of_nat_diff word_le_nat_alt)
  then have "q_geom Q (unat n - 1) 0"
    using a h by (simp add: q_geom_def Q_def slot_addr_def word_le_nat_alt unat_gt_0 mult.commute)
  then have "queue_is addr k' []"
    by (auto simp: queue_is_def k'_def k1_def upd_q_def slots_def)
  moreover have "list_at k' (xTasksWaitingToSend addr) [] \<and> list_at k' (xTasksWaitingToReceive addr) []"
    by (auto simp: k'_def xTasksWaitingToSend_def xTasksWaitingToReceive_def
        intro: vListInitialise_other vListInitialise_at)
  ultimately show ?thesis using run by (auto simp: k'_def k1_def upd_q_def Q_def)
qed

section \<open>The queue as a bounded channel\<close>

definition queue_contents :: "u32 \<Rightarrow> 'a qkernel_scheme \<Rightarrow> u8 list list" where
  "queue_contents p k =
    (let q = q_at k p
     in slots (q_mem k) q ((unat (pcReadFrom q) - unat (pcHead q)) div unat (uxItemSize q)) (unat (uxMessagesWaiting q)))"

lemma queue_contents_eq: "queue_is p k xs \<Longrightarrow> queue_contents p k = xs"
proof -
  assume q: "queue_is p k xs"
  then obtain r where g: "q_geom (q_at k p) r (length xs)" and xs: "slots (q_mem k) (q_at k p) r (length xs) = xs"
    by (auto simp: queue_is_def)
  have "unat (pcReadFrom (q_at k p)) = unat (pcHead (q_at k p)) + r * unat (uxItemSize (q_at k p))"
    using slot_addr_nat [OF g, of r] g by (simp add: q_geom_def)
  moreover have "0 < unat (uxItemSize (q_at k p))" using g by (simp add: q_geom_def unat_gt_0)
  ultimately show ?thesis using xs queue_is_count [OF q] by (simp add: queue_contents_def Let_def)
qed

text \<open>
  A queue nobody waits on and that is not locked: the state between calls when all users pass a
  block time of zero, as the gateway does.
\<close>

definition quiet :: "u32 \<Rightarrow> 'a qkernel_scheme \<Rightarrow> bool" where
  "quiet p k \<longleftrightarrow> p \<noteq> NULL \<and> queue_is p k (queue_contents p k) \<and>
    listLIST_IS_EMPTY (xTasksWaitingToSend p) k \<and> listLIST_IS_EMPTY (xTasksWaitingToReceive p) k \<and>
    cTxLock (q_at k p) = queueUNLOCKED \<and> cRxLock (q_at k p) = queueUNLOCKED"

definition queue_cap :: "u32 \<Rightarrow> 'a qkernel_scheme \<Rightarrow> nat" where
  "queue_cap p k = unat (uxLength (q_at k p))"

definition item_fits :: "u32 \<Rightarrow> 'a qkernel_scheme \<Rightarrow> u8 list \<Rightarrow> bool" where
  "item_fits p k bs \<longleftrightarrow> length bs = unat (uxItemSize (q_at k p))"

definition isr_send :: "u32 \<Rightarrow> u8 list \<Rightarrow> 'a qkernel_scheme \<Rightarrow> 'a qkernel_scheme \<times> bool" where
  "isr_send p bs k =
    (case xQueueGenericSendFromISR p (Some bs) False queueSEND_TO_BACK k of
       Inl e \<Rightarrow> (k, False) | Inr (k', _, st) \<Rightarrow> (k', st = pdPASS))"

definition poll_receive :: "u32 \<Rightarrow> 'a qkernel_scheme \<Rightarrow> 'a qkernel_scheme \<times> u8 list option" where
  "poll_receive p k =
    (case xQueueReceive p False 0 k of
       Inl e \<Rightarrow> (k, None) | Inr (k', bs, out) \<Rightarrow> (k', if out = Returned pdPASS then Some bs else None))"

lemma quiet_send:
  assumes q: "quiet p k" and f: "item_fits p k bs" and room: "length (queue_contents p k) < queue_cap p k"
  shows "\<exists>k'. xQueueGenericSendFromISR p (Some bs) w queueSEND_TO_BACK k = Inr (k', w, pdPASS) \<and>
    quiet p k' \<and> queue_contents p k' = queue_contents p k @ [bs] \<and>
    queue_cap p k' = queue_cap p k \<and> item_fits p k' = item_fits p k"
proof -
  obtain k1 where k1: "prvCopyDataToQueue p (Some bs) queueSEND_TO_BACK k = Inr (k1, False)"
    "queue_is p k1 (queue_contents p k @ [bs])" "uxLength (q_at k1 p) = uxLength (q_at k p)"
    "uxItemSize (q_at k1 p) = uxItemSize (q_at k p)" "cTxLock (q_at k1 p) = cTxLock (q_at k p)"
    "cRxLock (q_at k1 p) = cRxLock (q_at k p)" "l_list k1 = l_list k"
    using queue_is_back [of p k "queue_contents p k" bs] assms by (auto simp: quiet_def item_fits_def queue_cap_def)
  have less: "uxMessagesWaiting (q_at k p) < uxLength (q_at k p)"
    using queue_is_count [of p k "queue_contents p k"] q room by (simp add: quiet_def queue_cap_def word_less_nat_alt)
  have "wake_first (xTasksWaitingToReceive p) k1 = Inr (k1, False)"
    using q k1(7) by (simp add: wake_first_def quiet_def listLIST_IS_EMPTY_def)
  with k1 less q show ?thesis
    using queue_contents_eq [OF k1(2)]
    by (auto simp: xQueueGenericSendFromISR_def Let_def quiet_def queue_cap_def item_fits_def
        listLIST_IS_EMPTY_def fun_eq_iff)
qed

lemma quiet_receive:
  assumes q: "quiet p k" and xs: "queue_contents p k = x # xs"
  shows "\<exists>k'. xQueueReceive p False 0 k = Inr (k', x, Returned pdPASS) \<and> quiet p k' \<and> queue_contents p k' = xs \<and>
    queue_cap p k' = queue_cap p k \<and> item_fits p k' = item_fits p k"
proof -
  have qi: "queue_is p k (x # xs)" using q xs by (simp add: quiet_def)
  obtain k1 where k1: "prvCopyDataFromQueue p k = (k1, x)"
    "queue_is p (upd_q p (\<lambda>q. q\<lparr>uxMessagesWaiting := uxMessagesWaiting (q_at k p) - 1\<rparr>) k1) xs"
    "uxLength (q_at k1 p) = uxLength (q_at k p)" "uxItemSize (q_at k1 p) = uxItemSize (q_at k p)"
    "cRxLock (q_at k1 p) = cRxLock (q_at k p)" "cTxLock (q_at k1 p) = cTxLock (q_at k p)" "l_list k1 = l_list k"
    using queue_is_take [OF qi] by auto
  define k2 where "k2 = upd_q p (\<lambda>q. q\<lparr>uxMessagesWaiting := uxMessagesWaiting (q_at k p) - 1\<rparr>) k1"
  have "wake_first (xTasksWaitingToSend p) k2 = Inr (k2, False)"
    using q k1(7) by (simp add: wake_first_def quiet_def listLIST_IS_EMPTY_def k2_def upd_q_def)
  moreover have "uxMessagesWaiting (q_at k p) > 0" using queue_is_count [OF qi] by (simp add: word_less_nat_alt)
  ultimately have "xQueueReceive p False 0 k = Inr (k2, x, Returned pdPASS)"
    using q k1(1) by (simp add: xQueueReceive_def receive_asserts_def xQueueReceive_crit_def Let_def
        wake_and_yield_def k2_def [symmetric] quiet_def)
  moreover have "quiet p k2 \<and> queue_contents p k2 = xs"
    using q k1 queue_contents_eq [OF k1(2)]
    by (auto simp: quiet_def k2_def upd_q_def listLIST_IS_EMPTY_def)
  moreover have "queue_cap p k2 = queue_cap p k \<and> item_fits p k2 = item_fits p k"
    using k1 by (auto simp: queue_cap_def item_fits_def k2_def upd_q_def fun_eq_iff)
  ultimately show ?thesis by blast
qed

interpretation rtos: bounded_fifo "quiet p" "queue_contents p" "queue_cap p" "item_fits p" "isr_send p" "poll_receive p"
  for p
proof unfold_locales
  fix k :: "'a qkernel_scheme" and x xs
  show "length (queue_contents p k) \<le> queue_cap p k" if "quiet p k"
    using that queue_is_count [of p k "queue_contents p k"] by (simp add: quiet_def queue_cap_def)
  show "snd (isr_send p x k) \<and> queue_contents p (fst (isr_send p x k)) = queue_contents p k @ [x]"
    if "quiet p k" "item_fits p k x" "length (queue_contents p k) < queue_cap p k"
    using quiet_send [OF that, of False] by (auto simp: isr_send_def)
  have full: "isr_send p x k = (k, False)" if "quiet p k" "\<not> length (queue_contents p k) < queue_cap p k"
    using send_from_isr_full [of p k "queue_contents p k" x False] that
    by (simp add: isr_send_def quiet_def queue_cap_def)
  show "\<not> snd (isr_send p x k) \<and> queue_contents p (fst (isr_send p x k)) = queue_contents p k"
    if "quiet p k" "item_fits p k x" "\<not> length (queue_contents p k) < queue_cap p k"
    using full that by simp
  show "quiet p (fst (isr_send p x k)) \<and> queue_cap p (fst (isr_send p x k)) = queue_cap p k \<and>
      item_fits p (fst (isr_send p x k)) = item_fits p k" if "quiet p k" "item_fits p k x"
  proof (cases "length (queue_contents p k) < queue_cap p k")
    case True
    then show ?thesis using quiet_send [OF that True, of False] by (auto simp: isr_send_def)
  next
    case False
    then show ?thesis using full that by simp
  qed
  show "snd (poll_receive p k) = Some x \<and> queue_contents p (fst (poll_receive p k)) = xs"
    if "quiet p k" "queue_contents p k = x # xs"
    using quiet_receive [OF that] by (auto simp: poll_receive_def)
  have empty: "poll_receive p k = (k, None)" if "quiet p k" "queue_contents p k = []"
    using receive_empty [of p k] that by (simp add: poll_receive_def quiet_def)
  show "snd (poll_receive p k) = None \<and> queue_contents p (fst (poll_receive p k)) = []"
    if "quiet p k" "queue_contents p k = []"
    using empty that by simp
  show "quiet p (fst (poll_receive p k)) \<and> queue_cap p (fst (poll_receive p k)) = queue_cap p k \<and>
      item_fits p (fst (poll_receive p k)) = item_fits p k" if "quiet p k"
  proof (cases "queue_contents p k")
    case Nil
    then show ?thesis using empty that by simp
  next
    case (Cons y ys)
    then show ?thesis using quiet_receive [OF that Cons] by (auto simp: poll_receive_def)
  qed
qed

section \<open>Properties\<close>

text \<open>The kernel's static data after start-up, cleared to zero.\<close>

definition zero_kernel :: qkernel where
  "zero_kernel = \<lparr>l_item = \<lambda>_. \<lparr>xItemValue = 0, pxNext = 0, pxPrevious = 0, pvOwner = 0, pxContainer = 0\<rparr>,
     l_list = \<lambda>_. \<lparr>uxNumberOfItems = 0, pxIndex = 0\<rparr>,
     tcb = \<lambda>_. \<lparr>pxTopOfStack = 0, uxPriority = 0, pxStack = 0, pcTaskName = [], uxBasePriority = 0, uxMutexesHeld = 0,
         pvThreadLocalStoragePointers = [], ulNotifiedValue = 0, ucNotifyState = 0, ucDelayAborted = False\<rparr>,
     pxCurrentTCB = 0, pxReadyTasksLists = 0x34001000, xPendingReadyList = 0x34001100,
     xSuspendedTaskList = 0x34001200, xTasksWaitingTermination = 0x34001500, xDelayedTaskList1 = 0x34001300, xDelayedTaskList2 = 0x34001400, pxDelayedTaskList = 0x34001300, pxOverflowDelayedTaskList = 0x34001400,
     uxCurrentNumberOfTasks = 0, xTickCount = 0, uxTopReadyPriority = 0, xSchedulerRunning = False,
     xPendedTicks = 0, xYieldPending = False, xNumOfOverflows = 0, xNextTaskUnblockTime = 0,
     uxSchedulerSuspended = 0, uxDeletedTasksWaitingCleanUp = 0,
       uxTaskNumber = 0, xIdleTaskHandle = 0, stack_mem = \<lambda>_. 0, pendSV = False, q_mem = \<lambda>_. 0,
     q_at = \<lambda>_. \<lparr>pcHead = 0, pcWriteTo = 0, u_0 = 0, u_1 = 0, uxMessagesWaiting = 0, uxLength = 0,
                uxItemSize = 0, cRxLock = 0, cTxLock = 0\<rparr>\<rparr>"

lemma created_quiet:
  assumes "addr \<noteq> NULL" "n \<noteq> 0" "s \<noteq> 0" "unat addr + 72 + unat n * unat s < 2 ^ 32" "unat s \<le> unat addr + 72"
  shows "\<exists>k'. xQueueGenericCreate addr n s k = Inr (k', addr) \<and> quiet addr k' \<and> queue_contents addr k' = [] \<and>
    queue_cap addr k' = unat n \<and> (\<forall>bs. item_fits addr k' bs \<longleftrightarrow> length bs = unat s)"
proof -
  obtain k' where k': "xQueueGenericCreate addr n s k = Inr (k', addr)" "queue_is addr k' []"
     "uxLength (q_at k' addr) = n" "uxItemSize (q_at k' addr) = s" "cTxLock (q_at k' addr) = queueUNLOCKED"
     "cRxLock (q_at k' addr) = queueUNLOCKED"
     "list_at k' (xTasksWaitingToSend addr) []" "list_at k' (xTasksWaitingToReceive addr) []"
    using create_empty [OF assms] by blast
  then show ?thesis
    using assms(1) queue_contents_eq [OF k'(2)]
    by (auto simp: quiet_def queue_cap_def item_fits_def list_at_def Let_def listLIST_IS_EMPTY_def)
qed

text \<open>(C23) Creation. For a non-empty queue whose storage fits above the structure in the address space,
  \<open>xQueueGenericCreate\<close> returns the handle of an empty, unlocked queue with the requested number of
  places and item size.\<close>

theorem queue_create_empty:
  assumes "addr \<noteq> NULL" "n \<noteq> 0" "s \<noteq> 0" "unat addr + 72 + unat n * unat s < 2 ^ 32" "unat s \<le> unat addr + 72"
  shows "\<exists>k'. xQueueGenericCreate addr n s k = Inr (k', addr) \<and> quiet addr k' \<and> queue_contents addr k' = [] \<and>
    queue_cap addr k' = unat n \<and> (\<forall>bs. item_fits addr k' bs \<longleftrightarrow> length bs = unat s)"
  using created_quiet [OF assms] .

theorem queue_create_empty_witness:
  "\<exists>k'. xQueueGenericCreate 0x34100000 64 80 zero_kernel = Inr (k', 0x34100000) \<and>
     quiet 0x34100000 k' \<and> queue_contents 0x34100000 k' = [] \<and> queue_cap 0x34100000 k' = 64"
  using queue_create_empty [of "0x34100000" 64 80 zero_kernel] by auto

text \<open>(C22) The queue between the CAN callback and the transmit task is a bounded FIFO. For every sequence of
  sends from the interrupt and polls by the task, the items held before and the accepted items, in order,
  are exactly the delivered items followed by the items still held: nothing is lost after acceptance,
  duplicated or reordered, and never more than \<open>uxLength\<close> items are held.\<close>

theorem queue_fifo:
  assumes "quiet p k" "\<And>x. Put x \<in> set ops \<Longrightarrow> length x = unat (uxItemSize (q_at k p))"
    "run_ops (isr_send p) (poll_receive p) ops k = (k', accepted, delivered)"
  shows "queue_contents p k @ accepted = delivered @ queue_contents p k' \<and> quiet p k' \<and>
    length (queue_contents p k') \<le> unat (uxLength (q_at k p))"
  using rtos.run_ops_fifo [OF assms(1) _ assms(3)] assms(2) by (auto simp: item_fits_def queue_cap_def)

theorem queue_fifo_witness:
  "\<exists>k' acc del. run_ops (isr_send 0x34100000) (poll_receive 0x34100000)
      [Put (replicate 80 1), Put (replicate 80 2), Get, Get, Get]
      (fst (projr (xQueueGenericCreate 0x34100000 64 80 zero_kernel))) = (k', acc, del) \<and>
    acc = del @ queue_contents 0x34100000 k' \<and> quiet 0x34100000 k'"
proof -
  obtain k where k: "xQueueGenericCreate 0x34100000 64 80 zero_kernel = Inr (k, 0x34100000)"
    "quiet 0x34100000 k" "queue_contents 0x34100000 k = []" "\<forall>bs. item_fits 0x34100000 k bs \<longleftrightarrow> length bs = 80"
    using created_quiet [of "0x34100000" 64 80 zero_kernel] by auto
  obtain k' acc del where r: "run_ops (isr_send 0x34100000) (poll_receive 0x34100000)
      [Put (replicate 80 1), Put (replicate 80 2), Get, Get, Get] k = (k', acc, del)"
    by (metis prod_cases3)
  have "unat (uxItemSize (q_at k 0x34100000)) = 80" using k(4) unfolding item_fits_def by (metis length_replicate)
  then have "length x = unat (uxItemSize (q_at k 0x34100000))"
    if "Put x \<in> set [Put (replicate 80 1), Put (replicate 80 2), Get, Get, Get]" for x using that by auto
  from queue_fifo [OF k(2) this r] k(3)
  have "acc = del @ queue_contents 0x34100000 k' \<and> quiet 0x34100000 k'" by simp
  with r k(1) show ?thesis unfolding k(1) sum.sel(2) fst_conv by blast
qed

text \<open>(C24) Sending from an interrupt, on every branch: on a full queue nothing changes and \<open>errQUEUE_FULL\<close> is
  returned; otherwise the item is appended and \<open>pdPASS\<close> returned, also while a task has the queue locked
  and also when a waiting task is woken.\<close>

theorem send_from_isr_cases:
  assumes "p \<noteq> NULL" "queue_is p k xs" "length bs = unat (uxItemSize (q_at k p))"
    "waiters_ok (xTasksWaitingToReceive p) k" "cTxLock (q_at k p) \<noteq> queueINT8_MAX"
  shows "if length xs < unat (uxLength (q_at k p))
    then \<exists>k' w'. xQueueGenericSendFromISR p (Some bs) w queueSEND_TO_BACK k = Inr (k', w', pdPASS) \<and>
           queue_is p k' (xs @ [bs])
    else xQueueGenericSendFromISR p (Some bs) w queueSEND_TO_BACK k = Inr (k, w, errQUEUE_FULL)"
  using send_from_isr_ok [OF assms] send_from_isr_full [OF assms(1,2)] by auto

theorem send_from_isr_cases_witness:
  "\<exists>k k' w'. xQueueGenericCreate 0x34100000 1 2 zero_kernel = Inr (k, 0x34100000) \<and>
     xQueueGenericSendFromISR 0x34100000 (Some [5, 6]) False queueSEND_TO_BACK k = Inr (k', w', pdPASS) \<and>
     queue_is 0x34100000 k' [[5, 6]]"
proof -
  obtain k where k: "xQueueGenericCreate 0x34100000 1 2 zero_kernel = Inr (k, 0x34100000)"
    "quiet 0x34100000 k" "queue_contents 0x34100000 k = []" "queue_cap 0x34100000 k = 1"
    "\<forall>bs. item_fits 0x34100000 k bs \<longleftrightarrow> length bs = 2"
    using created_quiet [of "0x34100000" 1 2 zero_kernel] by auto
  have "unat (uxItemSize (q_at k 0x34100000)) = 2" using k(5) unfolding item_fits_def by (metis length_replicate)
  then show ?thesis
    using send_from_isr_cases [of "0x34100000" k "[]" "[5, 6]" False] k
    by (auto simp: quiet_def waiters_ok_def queue_cap_def)
qed

text \<open>(C25) Sending to the front is last-in first-out: an item sent with \<open>queueSEND_TO_FRONT\<close> to a queue with
  room is the very next item received, and the rest of the queue is then as before.\<close>

theorem send_to_front_received_next:
  assumes "p \<noteq> NULL" "queue_is p k xs" "length xs < unat (uxLength (q_at k p))"
    "length bs = unat (uxItemSize (q_at k p))" "waiters_ok (xTasksWaitingToSend p) k"
  shows "\<exists>k1 k2. prvCopyDataToQueue p (Some bs) queueSEND_TO_FRONT k = Inr (k1, False) \<and>
    xQueueReceive p False 0 k1 = Inr (k2, bs, Returned pdPASS) \<and> queue_is p k2 xs"
proof -
  obtain k1 where k1: "prvCopyDataToQueue p (Some bs) queueSEND_TO_FRONT k = Inr (k1, False)"
    "queue_is p k1 (bs # xs)" "l_item k1 = l_item k" "l_list k1 = l_list k"
    using queue_is_front [OF assms(2,3,4)] by auto
  then have "waiters_ok (xTasksWaitingToSend p) k1"
    using assms(5) by (simp add: waiters_ok_def listLIST_IS_EMPTY_def listGET_OWNER_OF_HEAD_ENTRY_def)
  with receive_nonempty [OF assms(1) k1(2)] k1(1) show ?thesis by blast
qed

theorem send_to_front_witness:
  "\<exists>k k1 k2. xQueueGenericCreate 0x34100000 1 2 zero_kernel = Inr (k, 0x34100000) \<and>
     prvCopyDataToQueue 0x34100000 (Some [5, 6]) queueSEND_TO_FRONT k = Inr (k1, False) \<and>
     xQueueReceive 0x34100000 False 0 k1 = Inr (k2, [5, 6], Returned pdPASS)"
proof -
  obtain k where k: "xQueueGenericCreate 0x34100000 1 2 zero_kernel = Inr (k, 0x34100000)"
    "quiet 0x34100000 k" "queue_contents 0x34100000 k = []" "queue_cap 0x34100000 k = 1"
    "\<forall>bs. item_fits 0x34100000 k bs \<longleftrightarrow> length bs = 2"
    using created_quiet [of "0x34100000" 1 2 zero_kernel] by auto
  have "unat (uxItemSize (q_at k 0x34100000)) = 2" using k(5) unfolding item_fits_def by (metis length_replicate)
  then show ?thesis
    using send_to_front_received_next [of "0x34100000" k "[]" "[5, 6]"] k
    by (auto simp: quiet_def waiters_ok_def queue_cap_def)
qed

end
