(* ===== verification/Gmac_Ring.thy ===== *)
theory Gmac_Ring
  imports Gw_Prelude
begin

text \<open>
  The buffer descriptor rings of the GMAC driver, \<open>RTD/src/Gmac_Ip.c\<close>: initialisation, granting
  a transmit buffer, handing a frame to the DMA, reading the transmit status, reading and
  re-arming received frames, the power state and the MAC address registers.

  A ring is the array of descriptors that \<open>DMA_TXDESC_LIST_ADDRESS\<close> points to; a descriptor
  pointer into it (\<open>TxCurrentDesc\<close>, the tail pointer register) is the index of the descriptor.
  The driver has one instance. Register masks that the GMAC header gives are the values recorded in
  the macro information of \<open>Debug_RAM/RTD/src/Gmac_Ip.o\<close>. The DMA engine itself is a
  step that rewrites a descriptor it owns.
\<close>

section \<open>Descriptors, registers and driver state\<close>

datatype Gmac_Ip_StatusType =
    GMAC_STATUS_SUCCESS
  | GMAC_STATUS_ERROR
  | GMAC_STATUS_BUSY
  | GMAC_STATUS_TIMEOUT
  | GMAC_STATUS_UNSUPPORTED
  | GMAC_STATUS_RX_QUEUE_EMPTY
  | GMAC_STATUS_TX_QUEUE_FULL
  | GMAC_STATUS_BUFF_NOT_FOUND
  | GMAC_STATUS_TX_BUFF_BUSY
  | GMAC_STATUS_TX_BUFF_OVERFLOW

datatype Gmac_Ip_PowerStateType =
  GMAC_PSTATE_INACTIVE | GMAC_PSTATE_ACTIVE | GMAC_PSTATE_SLEEP | GMAC_PSTATE_RESET

datatype Gmac_Ip_PayloadType =
    GMAC_IP_PAYLOAD_TYPE_UNKNOWN | GMAC_IP_PAYLOAD_TYPE_UDP
  | GMAC_IP_PAYLOAD_TYPE_TCP | GMAC_IP_PAYLOAD_TYPE_ICMP

abbreviation "GMAC_TX_STAT_ERR_MASK \<equiv> (0x00007F0D :: u32)"
abbreviation "GMAC_TX_STAT_TTSS_MASK \<equiv> (0x00020000 :: u32)"
abbreviation "GMAC_RX_STAT_ERR_MASK \<equiv> (0x01F80000 :: u32)"
abbreviation "GMAC_TDES3_OWN_MASK \<equiv> (0x80000000 :: u32)"
abbreviation "GMAC_TDES3_FD_MASK \<equiv> (0x20000000 :: u32)"
abbreviation "GMAC_TDES3_LD_MASK \<equiv> (0x10000000 :: u32)"
abbreviation "GMAC_TDES2_IOC_MASK \<equiv> (0x80000000 :: u32)"
abbreviation "GMAC_TDES2_TTSE_MASK \<equiv> (0x40000000 :: u32)"
abbreviation "GMAC_RDES0_IVT_MASK \<equiv> (0xFFFF0000 :: u32)"
abbreviation "GMAC_RDES0_OVT_MASK \<equiv> (0x0000FFFF :: u32)"
abbreviation "GMAC_RDES1_TSA_MASK \<equiv> (0x00004000 :: u32)"
abbreviation "GMAC_RDES1_IPCE_MASK \<equiv> (0x00000080 :: u32)"
abbreviation "GMAC_RDES1_IPV6_MASK \<equiv> (0x00000020 :: u32)"
abbreviation "GMAC_RDES1_IPV4_MASK \<equiv> (0x00000010 :: u32)"
abbreviation "GMAC_RDES1_IPHE_MASK \<equiv> (0x00000008 :: u32)"
abbreviation "GMAC_RDES1_PT_MASK \<equiv> (0x00000007 :: u32)"
abbreviation "GMAC_RDES3_PL_MASK \<equiv> (0x00007FFF :: u32)"
abbreviation "GMAC_RDES3_OWN_MASK \<equiv> (0x80000000 :: u32)"
abbreviation "GMAC_RDES3_LD_MASK \<equiv> (0x10000000 :: u32)"
abbreviation "GMAC_RDES3_INTE_MASK \<equiv> (0x40000000 :: u32)"
abbreviation "GMAC_RDES3_BUF1V_MASK \<equiv> (0x01000000 :: u32)"
abbreviation "GMAC_RDES3_RS1V_MASK \<equiv> (0x04000000 :: u32)"
abbreviation "GMAC_RDES3_RS0V_MASK \<equiv> (0x02000000 :: u32)"
abbreviation "GMAC_RDES3_CTXT_MASK \<equiv> (0x40000000 :: u32)"
abbreviation "GMAC_INFO1_CONSUMED_MASK \<equiv> (0x01000000 :: u32)"
abbreviation "GMAC_INFO1_LOCKED_MASK \<equiv> (0x10000000 :: u32)"
abbreviation "GMAC_INFO1_LENGTH_MASK \<equiv> (0x00003FFF :: u32)"

abbreviation "GMAC_CH_NORMAL_INTERRUPTS \<equiv> (0x0845 :: u32)"
abbreviation "GMAC_CH_ABNORMAL_INTERRUPTS \<equiv> (0x3582 :: u32)"
abbreviation "GMAC_DMA_CH0_INTERRUPT_ENABLE_NIE_MASK \<equiv> (0x8000 :: u32)"
abbreviation "GMAC_DMA_CH0_INTERRUPT_ENABLE_AIE_MASK \<equiv> (0x4000 :: u32)"
abbreviation "GMAC_DMA_CH0_CONTROL_DSL \<equiv> (0x40000 :: u32)"
abbreviation "GMAC_DMA_CH0_CONTROL_PBLx8 \<equiv> (0x10000 :: u32)"
abbreviation "GMAC_DMA_CH0_TX_CONTROL_OSF \<equiv> (0x10 :: u32)"
abbreviation "GMAC_DMA_CH0_TX_CONTROL_ST_MASK \<equiv> (0x1 :: u32)"
abbreviation "GMAC_DMA_CH0_RX_CONTROL_SR_MASK \<equiv> (0x1 :: u32)"
abbreviation "GMAC_DMA_CH0_RX_CONTROL_RPF_MASK \<equiv> (0x80000000 :: u32)"
abbreviation "GMAC_MTL_TXQ0_OPERATION_MODE_FTQ_MASK \<equiv> (0x1 :: u32)"
abbreviation "GMAC_DMA_MODE_SWR_MASK \<equiv> (0x1 :: u32)"
abbreviation "GMAC_MAC_PMT_CONTROL_STATUS_PWRDWN_MASK \<equiv> (0x1 :: u32)"
abbreviation "GMAC_MAC_CONFIGURATION_RE_MASK \<equiv> (0x1 :: u32)"
abbreviation "GMAC_MAC_CONFIGURATION_TE_MASK \<equiv> (0x2 :: u32)"
abbreviation "GMAC_MAC_ADDRESS0_HIGH_AE_MASK \<equiv> (0x80000000 :: u32)"
abbreviation "GMAC_MAC_ADDRESS0_HIGH_ADDRHI_MASK \<equiv> (0xFFFF :: u32)"
abbreviation "GMAC_BYTE_MASK \<equiv> (0xFF :: u32)"

definition GMAC_DMA_CH0_TX_CONTROL_TxPBL :: "u32 \<Rightarrow> u32" where
  "GMAC_DMA_CH0_TX_CONTROL_TxPBL x = push_bit 16 x AND 0x3F0000"

definition GMAC_DMA_CH0_RX_CONTROL_RxPBL :: "u32 \<Rightarrow> u32" where
  "GMAC_DMA_CH0_RX_CONTROL_RxPBL x = push_bit 16 x AND 0x3F0000"

definition GMAC_DMA_CH0_RX_CONTROL_RBSZ_13_y :: "u32 \<Rightarrow> u32" where
  "GMAC_DMA_CH0_RX_CONTROL_RBSZ_13_y x = push_bit 4 x AND 0x7FF0"

definition GMAC_TDES3_CPC :: "u32 \<Rightarrow> u32" where
  "GMAC_TDES3_CPC x = push_bit 26 x AND 0x0C000000"

definition GMAC_TDES3_CIC :: "u32 \<Rightarrow> u32" where
  "GMAC_TDES3_CIC x = push_bit 16 x AND 0x00030000"

record Gmac_Ip_BufferDescriptorType =
  Des0 :: u32
  Des1 :: u32
  Des2 :: u32
  Des3 :: u32
  Info0 :: u32
  Info1 :: u32

record Gmac_Ip_BufferType =
  BufData :: u32
  BufLength :: u16

record Gmac_Ip_TimestampType =
  ts_nanoseconds :: u32
  ts_seconds :: u32
  ts_secondsHi :: u16

record Gmac_Ip_TxOptionsType =
  NoInt :: bool
  CrcPadIns :: u32
  ChecksumIns :: u32

record Gmac_Ip_TxInfoType =
  TxErrMask :: u32
  TxTimestamp :: Gmac_Ip_TimestampType

record Gmac_Ip_RxInfoType =
  RxErrMask :: u32
  PktLen :: u16
  PayloadType :: Gmac_Ip_PayloadType
  Ipv6 :: bool
  Ipv4 :: bool
  IpPayloadErr :: bool
  IpHeaderErr :: bool
  OuterVlanTag :: u16
  InnerVlanTag :: u16
  RxTimestamp :: Gmac_Ip_TimestampType

record Gmac_Ip_TxRingConfigType =
  TxBuffer :: u32
  TxInterrupts :: u32
  TxBufferLen :: u16
  TxRingSize :: u16
  TxDmaBurstLength :: u8

record Gmac_Ip_RxRingConfigType =
  RxBuffer :: u32
  RxInterrupts :: u32
  RxBufferLen :: u16
  RxRingSize :: u16
  RxDmaBurstLength :: u8

text \<open>
  One DMA channel: its transmit and receive descriptors, the driver's pointers into them (which
  \<open>Gmac_Ip_StateType\<close> keeps per channel) and the registers of \<open>Gmac_apxChBases\<close> and
  \<open>Gmac_apxQueueBases\<close> that the driver writes.
\<close>

record gmac_channel =
  TxRing :: "Gmac_Ip_BufferDescriptorType list"
  TxCurrentDesc :: nat
  DMA_TXDESC_TAIL_POINTER :: nat
  DMA_TXDESC_RING_LENGTH :: u32
  RxRing :: "Gmac_Ip_BufferDescriptorType list"
  RxCurrentDesc :: nat
  RxAllocDesc :: nat
  DMA_RXDESC_TAIL_POINTER :: nat
  DMA_RXDESC_RING_LENGTH :: u32
  DMA_CONTROL :: u32
  DMA_TX_CONTROL :: u32
  DMA_RX_CONTROL :: u32
  DMA_INTERRUPT_ENABLE :: u32
  MTL_TXQ_OPERATION_MODE :: u32

record gmac =
  gm_state_valid :: bool
  TxRingCount :: u16
  RxRingCount :: u16
  Ch :: "gmac_channel list"
  DMA_MODE :: u32
  MAC_PMT_CONTROL_STATUS :: u32
  MAC_CONFIGURATION :: u32
  MAC_ADDRESS0_HIGH :: u32
  MAC_ADDRESS0_LOW :: u32
  MAC_SYSTEM_TIME_SECONDS :: u32
  MAC_SYSTEM_TIME_HIGHER_WORD_SECONDS :: u32

abbreviation "FEATURE_GMAC_NUM_INSTANCES \<equiv> (1 :: u8)"

text \<open>\<open>&ListBd[RING_LENGTH + 1]\<close> as an index, and the wrap of a pointer that reaches it.\<close>

definition ring_end :: "u32 \<Rightarrow> nat" where
  "ring_end ring_length = unat (ring_length + 1)"

definition ring_wrap :: "u32 \<Rightarrow> nat \<Rightarrow> nat" where
  "ring_wrap ring_length i = (if i \<ge> ring_end ring_length then 0 else i)"

definition bd_at :: "Gmac_Ip_BufferDescriptorType list \<Rightarrow> nat \<Rightarrow> Gmac_Ip_BufferDescriptorType res" where
  "bd_at ring i = (if i < length ring then Inr (ring ! i) else Inl OutOfBounds)"

section \<open>Hash, time stamps and payload type\<close>

fun crc_bits :: "nat \<Rightarrow> u32 \<Rightarrow> u32" where
  "crc_bits 0 crc = crc"
| "crc_bits (Suc j) crc =
    crc_bits j (if crc AND 1 \<noteq> 0 then drop_bit 1 crc XOR 0xEDB88320 else drop_bit 1 crc)"

fun crc_bytes :: "u8 list \<Rightarrow> u32 \<Rightarrow> u32" where
  "crc_bytes [] crc = crc"
| "crc_bytes (b # bs) crc = crc_bytes bs (crc_bits 8 (crc XOR ucast b))"

definition Gmac_Ip_ComputeCRC32 :: "u8 list \<Rightarrow> u32" where
  "Gmac_Ip_ComputeCRC32 Mac = NOT (crc_bytes Mac 0xFFFFFFFF)"

text \<open>
  The 16 high bits of the seconds are not in the descriptor; they are taken from the running clock,
  less one when the low word has wrapped since the frame was stamped.
\<close>

definition bd_timestamp :: "gmac \<Rightarrow> Gmac_Ip_BufferDescriptorType \<Rightarrow> Gmac_Ip_TimestampType" where
  "bd_timestamp g bd =
    (let CurrTimeSec = MAC_SYSTEM_TIME_SECONDS g;
         CurrTimeSecHi = (ucast (MAC_SYSTEM_TIME_HIGHER_WORD_SECONDS g) :: u16);
         BdSec = Des1 bd
     in \<lparr>ts_nanoseconds = Des0 bd, ts_seconds = BdSec,
         ts_secondsHi = (if BdSec \<le> CurrTimeSec then CurrTimeSecHi else CurrTimeSecHi - 1)\<rparr>)"

definition no_timestamp :: Gmac_Ip_TimestampType where
  "no_timestamp = \<lparr>ts_nanoseconds = 0, ts_seconds = 0, ts_secondsHi = 0\<rparr>"

definition Gmac_Ip_GetTimestamp :: "gmac \<Rightarrow> Gmac_Ip_BufferDescriptorType \<Rightarrow> Gmac_Ip_TimestampType" where
  "Gmac_Ip_GetTimestamp g bd =
    (if Des3 bd AND GMAC_TX_STAT_TTSS_MASK \<noteq> 0 then bd_timestamp g bd else no_timestamp)"

definition Gmac_Ip_GetPayloadType :: "u32 \<Rightarrow> Gmac_Ip_PayloadType" where
  "Gmac_Ip_GetPayloadType v =
    (if v = 1 then GMAC_IP_PAYLOAD_TYPE_UDP
     else if v = 2 then GMAC_IP_PAYLOAD_TYPE_TCP
     else if v = 3 then GMAC_IP_PAYLOAD_TYPE_ICMP
     else GMAC_IP_PAYLOAD_TYPE_UNKNOWN)"

section \<open>Initialisation of the rings\<close>

text \<open>The loop over \<open>j\<close> writes the first \<open>RingSize\<close> descriptors of the array and no others.\<close>

definition init_tx_bd :: "Gmac_Ip_TxRingConfigType \<Rightarrow> nat \<Rightarrow> Gmac_Ip_BufferDescriptorType" where
  "init_tx_bd cfg j =
    \<lparr>Des0 = (if TxBuffer cfg \<noteq> 0 then TxBuffer cfg + ucast (TxBufferLen cfg) * of_nat j else 0),
     Des1 = 0, Des2 = 0, Des3 = 0, Info0 = 0,
     Info1 = ucast (TxBufferLen cfg) AND GMAC_INFO1_LENGTH_MASK\<rparr>"

definition enabled_interrupts :: "u32 \<Rightarrow> u32" where
  "enabled_interrupts ints =
    ints OR (if ints AND GMAC_CH_NORMAL_INTERRUPTS \<noteq> 0 then GMAC_DMA_CH0_INTERRUPT_ENABLE_NIE_MASK else 0)
         OR (if ints AND GMAC_CH_ABNORMAL_INTERRUPTS \<noteq> 0 then GMAC_DMA_CH0_INTERRUPT_ENABLE_AIE_MASK else 0)"

definition Gmac_Ip_InitTxBD_ring :: "bool \<Rightarrow> Gmac_Ip_TxRingConfigType \<Rightarrow> gmac_channel \<Rightarrow> gmac_channel" where
  "Gmac_Ip_InitTxBD_ring EnableCtrl cfg ch =
    (let burst = (ucast (TxDmaBurstLength cfg) :: u32);
         ctl = (if 32 < TxDmaBurstLength cfg then GMAC_DMA_CH0_CONTROL_PBLx8 else 0);
         txctl = GMAC_DMA_CH0_TX_CONTROL_TxPBL (if 32 < TxDmaBurstLength cfg then burst div 8 else burst)
                 OR GMAC_DMA_CH0_TX_CONTROL_OSF
     in ch\<lparr>
       TxRing := map (init_tx_bd cfg) [0..<unat (TxRingSize cfg)] @ drop (unat (TxRingSize cfg)) (TxRing ch),
       DMA_TXDESC_TAIL_POINTER := 0,
       DMA_TXDESC_RING_LENGTH := ucast (TxRingSize cfg) - 1,
       DMA_CONTROL := GMAC_DMA_CH0_CONTROL_DSL OR ctl,
       DMA_TX_CONTROL := (if EnableCtrl then txctl OR GMAC_DMA_CH0_TX_CONTROL_ST_MASK else txctl),
       DMA_INTERRUPT_ENABLE := enabled_interrupts (TxInterrupts cfg)\<rparr>)"

definition init_rx_bd :: "Gmac_Ip_RxRingConfigType \<Rightarrow> nat \<Rightarrow> Gmac_Ip_BufferDescriptorType" where
  "init_rx_bd cfg j =
    (let addr = RxBuffer cfg + ucast (RxBufferLen cfg) * of_nat j;
         len = ucast (RxBufferLen cfg) AND GMAC_INFO1_LENGTH_MASK
     in if RxBuffer cfg \<noteq> 0
        then \<lparr>Des0 = addr, Des1 = 0, Des2 = 0,
              Des3 = GMAC_RDES3_OWN_MASK OR GMAC_RDES3_INTE_MASK OR GMAC_RDES3_BUF1V_MASK,
              Info0 = addr, Info1 = len\<rparr>
        else \<lparr>Des0 = 0, Des1 = 0, Des2 = 0,
              Des3 = GMAC_RDES3_INTE_MASK OR GMAC_RDES3_BUF1V_MASK,
              Info0 = 0, Info1 = len\<rparr>)"

definition Gmac_Ip_InitRxBD_ring :: "bool \<Rightarrow> Gmac_Ip_RxRingConfigType \<Rightarrow> gmac_channel \<Rightarrow> gmac_channel" where
  "Gmac_Ip_InitRxBD_ring EnableCtrl cfg ch =
    (let burst = (ucast (RxDmaBurstLength cfg) :: u32);
         ctl = (if 32 < RxDmaBurstLength cfg then GMAC_DMA_CH0_CONTROL_PBLx8 else 0);
         rxctl = GMAC_DMA_CH0_RX_CONTROL_RxPBL (if 32 < RxDmaBurstLength cfg then burst div 8 else burst)
                 OR GMAC_DMA_CH0_RX_CONTROL_RBSZ_13_y (drop_bit 3 (ucast (RxBufferLen cfg)))
     in ch\<lparr>
       RxRing := map (init_rx_bd cfg) [0..<unat (RxRingSize cfg)] @ drop (unat (RxRingSize cfg)) (RxRing ch),
       DMA_RXDESC_TAIL_POINTER := unat (RxRingSize cfg),
       DMA_RXDESC_RING_LENGTH := ucast (RxRingSize cfg) - 1,
       DMA_CONTROL := GMAC_DMA_CH0_CONTROL_DSL OR ctl,
       DMA_RX_CONTROL := (if EnableCtrl then rxctl OR GMAC_DMA_CH0_RX_CONTROL_SR_MASK else rxctl),
       DMA_INTERRUPT_ENABLE := DMA_INTERRUPT_ENABLE ch OR enabled_interrupts (RxInterrupts cfg)\<rparr>)"

text \<open>The outer loops: channel \<open>i\<close> is configured from the \<open>i\<close>-th ring configuration.\<close>

fun init_channels :: "('c \<Rightarrow> gmac_channel \<Rightarrow> gmac_channel) \<Rightarrow> 'c list \<Rightarrow> gmac_channel list \<Rightarrow> gmac_channel list res" where
  "init_channels f [] chs = Inr chs"
| "init_channels f (c # cs) [] = Inl OutOfBounds"
| "init_channels f (c # cs) (ch # chs) = rbind (init_channels f cs chs) (\<lambda>r. Inr (f c ch # r))"

definition Gmac_Ip_InitTxBD :: "bool \<Rightarrow> Gmac_Ip_TxRingConfigType list \<Rightarrow> gmac \<Rightarrow> gmac res" where
  "Gmac_Ip_InitTxBD EnableCtrl cfgs g =
    rbind (init_channels (Gmac_Ip_InitTxBD_ring EnableCtrl) cfgs (Ch g)) (\<lambda>chs. Inr (g\<lparr>Ch := chs\<rparr>))"

definition Gmac_Ip_InitRxBD :: "bool \<Rightarrow> Gmac_Ip_RxRingConfigType list \<Rightarrow> gmac \<Rightarrow> gmac res" where
  "Gmac_Ip_InitRxBD EnableCtrl cfgs g =
    rbind (init_channels (Gmac_Ip_InitRxBD_ring EnableCtrl) cfgs (Ch g)) (\<lambda>chs. Inr (g\<lparr>Ch := chs\<rparr>))"

text \<open>The state structure: every pointer at the start of its ring.\<close>

definition Gmac_Ip_InitStateStructure :: "Gmac_Ip_TxRingConfigType list \<Rightarrow> Gmac_Ip_RxRingConfigType list \<Rightarrow> gmac \<Rightarrow> gmac res" where
  "Gmac_Ip_InitStateStructure txcfgs rxcfgs g =
    rbind (init_channels (\<lambda>_ ch. ch\<lparr>RxCurrentDesc := 0, RxAllocDesc := 0\<rparr>) rxcfgs (Ch g)) (\<lambda>chs1.
    rbind (init_channels (\<lambda>_ ch. ch\<lparr>TxCurrentDesc := 0\<rparr>) txcfgs chs1) (\<lambda>chs2.
    Inr (g\<lparr>Ch := chs2, gm_state_valid := True,
           RxRingCount := of_nat (length rxcfgs), TxRingCount := of_nat (length txcfgs)\<rparr>)))"

section \<open>Restoring descriptors\<close>

definition Gmac_Ip_RestoreRxCtxtDescr :: "Gmac_Ip_BufferDescriptorType \<Rightarrow> (Gmac_Ip_BufferDescriptorType \<times> bool) res" where
  "Gmac_Ip_RestoreRxCtxtDescr bd =
    dev_assert (Des3 bd AND GMAC_RDES3_OWN_MASK = 0)
    (dev_assert (Des3 bd AND GMAC_RDES3_CTXT_MASK \<noteq> 0)
    (Inr (if Info0 bd \<noteq> 0
          then (bd\<lparr>Des0 := Info0 bd, Des1 := 0, Des2 := 0,
                   Info1 := Info1 bd AND NOT GMAC_INFO1_CONSUMED_MASK,
                   Des3 := GMAC_RDES3_OWN_MASK OR GMAC_RDES3_INTE_MASK OR GMAC_RDES3_BUF1V_MASK\<rparr>, True)
          else (bd, False))))"

definition restore_tx_bd :: "Gmac_Ip_BufferDescriptorType \<Rightarrow> Gmac_Ip_BufferDescriptorType" where
  "restore_tx_bd bd =
    (let bd1 = (if Info0 bd \<noteq> 0 then bd\<lparr>Des0 := Info0 bd, Info0 := 0\<rparr> else bd)
     in bd1\<lparr>Des3 := Des3 bd1 AND NOT GMAC_TDES3_OWN_MASK,
            Info1 := Info1 bd1 AND NOT GMAC_INFO1_LOCKED_MASK\<rparr>)"

definition restore_rx_bd :: "Gmac_Ip_BufferDescriptorType \<Rightarrow> Gmac_Ip_BufferDescriptorType" where
  "restore_rx_bd bd = bd\<lparr>
     Des0 := Info0 bd,
     Info1 := Info1 bd AND NOT GMAC_INFO1_CONSUMED_MASK,
     Des3 := (if Info0 bd \<noteq> 0
              then GMAC_RDES3_OWN_MASK OR GMAC_RDES3_INTE_MASK OR GMAC_RDES3_BUF1V_MASK
              else GMAC_RDES3_INTE_MASK OR GMAC_RDES3_BUF1V_MASK)\<rparr>"

text \<open>The inner loops visit descriptors \<open>0\<close> to \<open>RING_LENGTH\<close>, the outer ones the configured channels.\<close>

definition restore_prefix ::
  "(Gmac_Ip_BufferDescriptorType \<Rightarrow> Gmac_Ip_BufferDescriptorType) \<Rightarrow> u32 \<Rightarrow>
   Gmac_Ip_BufferDescriptorType list \<Rightarrow> Gmac_Ip_BufferDescriptorType list res" where
  "restore_prefix f ring_length ring =
    (let n = Suc (unat ring_length)
     in if n \<le> length ring then Inr (map f (take n ring) @ drop n ring) else Inl OutOfBounds)"

fun for_channels :: "nat \<Rightarrow> (gmac_channel \<Rightarrow> gmac_channel res) \<Rightarrow> gmac_channel list \<Rightarrow> gmac_channel list res" where
  "for_channels 0 f chs = Inr chs"
| "for_channels (Suc n) f [] = Inl OutOfBounds"
| "for_channels (Suc n) f (ch # chs) =
    rbind (f ch) (\<lambda>ch'. rbind (for_channels n f chs) (\<lambda>r. Inr (ch' # r)))"

definition Gmac_Ip_RestoreTxDescr :: "gmac \<Rightarrow> gmac res" where
  "Gmac_Ip_RestoreTxDescr g =
    rbind (for_channels (unat (TxRingCount g))
            (\<lambda>ch. rbind (restore_prefix restore_tx_bd (DMA_TXDESC_RING_LENGTH ch) (TxRing ch))
                    (\<lambda>r. Inr (ch\<lparr>TxRing := r\<rparr>))) (Ch g))
      (\<lambda>chs. Inr (g\<lparr>Ch := chs\<rparr>))"

definition Gmac_Ip_RestoreRxDescr :: "gmac \<Rightarrow> gmac res" where
  "Gmac_Ip_RestoreRxDescr g =
    rbind (for_channels (unat (RxRingCount g))
            (\<lambda>ch. rbind (restore_prefix restore_rx_bd (DMA_RXDESC_RING_LENGTH ch) (RxRing ch))
                    (\<lambda>r. Inr (ch\<lparr>RxRing := r\<rparr>))) (Ch g))
      (\<lambda>chs. Inr (g\<lparr>Ch := chs\<rparr>))"

section \<open>Power state, MAC address, starting and stopping\<close>

definition GMAC_GetPowerState :: "gmac \<Rightarrow> Gmac_Ip_PowerStateType" where
  "GMAC_GetPowerState g =
    (if DMA_MODE g AND GMAC_DMA_MODE_SWR_MASK \<noteq> 0 then GMAC_PSTATE_RESET
     else if MAC_PMT_CONTROL_STATUS g AND GMAC_MAC_PMT_CONTROL_STATUS_PWRDWN_MASK \<noteq> 0 then GMAC_PSTATE_SLEEP
     else if MAC_CONFIGURATION g AND (GMAC_MAC_CONFIGURATION_RE_MASK OR GMAC_MAC_CONFIGURATION_TE_MASK) \<noteq> 0
     then GMAC_PSTATE_ACTIVE
     else GMAC_PSTATE_INACTIVE)"

definition Gmac_Ip_GetPowerState :: "u8 \<Rightarrow> gmac \<Rightarrow> Gmac_Ip_PowerStateType res" where
  "Gmac_Ip_GetPowerState Instance g =
    dev_assert (Instance < FEATURE_GMAC_NUM_INSTANCES) (Inr (GMAC_GetPowerState g))"

definition Gmac_Ip_SetMacAddr :: "u8 \<Rightarrow> u8 list \<Rightarrow> gmac \<Rightarrow> gmac res" where
  "Gmac_Ip_SetMacAddr Instance MacAddr g =
    dev_assert (Instance < FEATURE_GMAC_NUM_INSTANCES)
    (if length MacAddr < 6 then Inl OutOfBounds
     else Inr (g\<lparr>
       MAC_ADDRESS0_HIGH := push_bit 8 (ucast (MacAddr ! 5)) OR ucast (MacAddr ! 4) OR GMAC_MAC_ADDRESS0_HIGH_AE_MASK,
       MAC_ADDRESS0_LOW := push_bit 24 (ucast (MacAddr ! 3)) OR push_bit 16 (ucast (MacAddr ! 2)) OR
                           push_bit 8 (ucast (MacAddr ! 1)) OR ucast (MacAddr ! 0)\<rparr>))"

definition Gmac_Ip_GetMacAddr :: "u8 \<Rightarrow> gmac \<Rightarrow> u8 list res" where
  "Gmac_Ip_GetMacAddr Instance g =
    dev_assert (Instance < FEATURE_GMAC_NUM_INSTANCES)
    (let lo = MAC_ADDRESS0_LOW g;
         hi = MAC_ADDRESS0_HIGH g AND GMAC_MAC_ADDRESS0_HIGH_ADDRHI_MASK
     in Inr [ucast (GMAC_BYTE_MASK AND lo), ucast (GMAC_BYTE_MASK AND drop_bit 8 lo),
             ucast (GMAC_BYTE_MASK AND drop_bit 16 lo), ucast (GMAC_BYTE_MASK AND drop_bit 24 lo),
             ucast (GMAC_BYTE_MASK AND hi), ucast (GMAC_BYTE_MASK AND drop_bit 8 hi)])"

definition Gmac_Ip_EnableController :: "gmac \<Rightarrow> gmac res" where
  "Gmac_Ip_EnableController g =
    rbind (for_channels (unat (TxRingCount g))
            (\<lambda>ch. Inr (ch\<lparr>DMA_TX_CONTROL := DMA_TX_CONTROL ch OR GMAC_DMA_CH0_TX_CONTROL_ST_MASK\<rparr>)) (Ch g)) (\<lambda>chs1.
    rbind (for_channels (unat (RxRingCount g))
            (\<lambda>ch. Inr (ch\<lparr>DMA_RX_CONTROL := DMA_RX_CONTROL ch OR GMAC_DMA_CH0_RX_CONTROL_SR_MASK\<rparr>)) chs1) (\<lambda>chs2.
    Inr (g\<lparr>Ch := chs2,
           MAC_CONFIGURATION := MAC_CONFIGURATION g OR
             (GMAC_MAC_CONFIGURATION_TE_MASK OR GMAC_MAC_CONFIGURATION_RE_MASK)\<rparr>)))"

text \<open>
  \<open>Gmac_Ip_CheckMTLEmpty\<close> polls the queue status registers until each queue is empty or the
  time-out expires. What it sees is up to the hardware: \<open>timed_out i\<close> is whether the time-out had
  expired when the loop over queue \<open>i\<close> ended.
\<close>

fun Gmac_Ip_CheckMTLEmpty :: "nat \<Rightarrow> (nat \<Rightarrow> bool) \<Rightarrow> Gmac_Ip_StatusType" where
  "Gmac_Ip_CheckMTLEmpty 0 timed_out = GMAC_STATUS_SUCCESS"
| "Gmac_Ip_CheckMTLEmpty (Suc n) timed_out =
    (if timed_out 0 then GMAC_STATUS_TIMEOUT else Gmac_Ip_CheckMTLEmpty n (\<lambda>i. timed_out (Suc i)))"

definition Gmac_Ip_DisableController ::
  "(nat \<Rightarrow> bool) \<Rightarrow> (nat \<Rightarrow> bool) \<Rightarrow> gmac \<Rightarrow> (gmac \<times> Gmac_Ip_StatusType) res" where
  "Gmac_Ip_DisableController tx_timed_out rx_timed_out g =
    rbind (for_channels (unat (TxRingCount g))
            (\<lambda>ch. Inr (ch\<lparr>DMA_TX_CONTROL := DMA_TX_CONTROL ch AND NOT GMAC_DMA_CH0_TX_CONTROL_ST_MASK,
                          MTL_TXQ_OPERATION_MODE := MTL_TXQ_OPERATION_MODE ch OR GMAC_MTL_TXQ0_OPERATION_MODE_FTQ_MASK\<rparr>))
            (Ch g)) (\<lambda>chs1.
    let g1 = g\<lparr>Ch := chs1\<rparr>;
        st1 = Gmac_Ip_CheckMTLEmpty (unat (TxRingCount g)) tx_timed_out
    in if st1 \<noteq> GMAC_STATUS_SUCCESS then Inr (g1, st1)
       else rbind (for_channels (unat (RxRingCount g))
              (\<lambda>ch. Inr (ch\<lparr>DMA_RX_CONTROL :=
                 (DMA_RX_CONTROL ch AND NOT GMAC_DMA_CH0_RX_CONTROL_SR_MASK) OR GMAC_DMA_CH0_RX_CONTROL_RPF_MASK\<rparr>))
              chs1) (\<lambda>chs2.
            let g2 = g1\<lparr>Ch := chs2,
                        MAC_CONFIGURATION := MAC_CONFIGURATION g AND NOT
                          (GMAC_MAC_CONFIGURATION_TE_MASK OR GMAC_MAC_CONFIGURATION_RE_MASK)\<rparr>;
                st2 = Gmac_Ip_CheckMTLEmpty (unat (RxRingCount g)) rx_timed_out
            in if st2 \<noteq> GMAC_STATUS_SUCCESS then Inr (g2, st2)
               else rbind (Gmac_Ip_RestoreTxDescr g2) (\<lambda>g3.
                    rbind (Gmac_Ip_RestoreRxDescr g3) (\<lambda>g4. Inr (g4, st2)))))"

section \<open>Transmission\<close>

text \<open>The common guards: the instance, the state pointer and the ring number.\<close>

definition with_tx_channel :: "u8 \<Rightarrow> u8 \<Rightarrow> gmac \<Rightarrow> (gmac_channel \<Rightarrow> (gmac_channel \<times> 'a) res) \<Rightarrow> (gmac \<times> 'a) res" where
  "with_tx_channel Instance Ring g f =
    dev_assert (Instance < FEATURE_GMAC_NUM_INSTANCES)
    (dev_assert (gm_state_valid g)
    (dev_assert (unat Ring < unat (TxRingCount g))
    (if unat Ring < length (Ch g)
     then rbind (f (Ch g ! unat Ring)) (\<lambda>(ch, x). Inr (g\<lparr>Ch := (Ch g)[unat Ring := ch]\<rparr>, x))
     else Inl OutOfBounds)))"

definition get_tx_buff :: "Gmac_Ip_BufferType \<Rightarrow> gmac_channel \<Rightarrow>
    (gmac_channel \<times> Gmac_Ip_StatusType \<times> Gmac_Ip_BufferType \<times> u16 option) res" where
  "get_tx_buff Buff ch =
    rbind (bd_at (TxRing ch) (TxCurrentDesc ch)) (\<lambda>bd.
    let cap = (ucast (Info1 bd AND GMAC_INFO1_LENGTH_MASK) :: u16)
    in if Des3 bd AND GMAC_TDES3_OWN_MASK \<noteq> 0 \<or> Info1 bd AND GMAC_INFO1_LOCKED_MASK \<noteq> 0
       then Inr (ch, GMAC_STATUS_TX_BUFF_BUSY, Buff, None)
       else if (ucast (BufLength Buff) :: u32) > Info1 bd AND GMAC_INFO1_LENGTH_MASK
       then Inr (ch, GMAC_STATUS_TX_BUFF_OVERFLOW, Buff\<lparr>BufLength := cap\<rparr>, None)
       else Inr (ch\<lparr>TxRing := (TxRing ch)[TxCurrentDesc ch := bd\<lparr>Info1 := Info1 bd OR GMAC_INFO1_LOCKED_MASK\<rparr>],
                    TxCurrentDesc := ring_wrap (DMA_TXDESC_RING_LENGTH ch) (Suc (TxCurrentDesc ch))\<rparr>,
                 GMAC_STATUS_SUCCESS, \<lparr>BufData = Des0 bd, BufLength = cap\<rparr>,
                 Some (of_nat (TxCurrentDesc ch))))"

definition Gmac_Ip_GetTxBuff :: "u8 \<Rightarrow> u8 \<Rightarrow> Gmac_Ip_BufferType \<Rightarrow> gmac \<Rightarrow>
    (gmac \<times> Gmac_Ip_StatusType \<times> Gmac_Ip_BufferType \<times> u16 option) res" where
  "Gmac_Ip_GetTxBuff Instance Ring Buff g = with_tx_channel Instance Ring g (get_tx_buff Buff)"

definition send_bd :: "Gmac_Ip_BufferType \<Rightarrow> Gmac_Ip_TxOptionsType option \<Rightarrow>
    Gmac_Ip_BufferDescriptorType \<Rightarrow> Gmac_Ip_BufferDescriptorType" where
  "send_bd Buff Options bd =
    (let len = (ucast (BufLength Buff) :: u32);
         d2 = len OR GMAC_TDES2_IOC_MASK OR GMAC_TDES2_TTSE_MASK;
         d3 = GMAC_TDES3_FD_MASK OR GMAC_TDES3_LD_MASK OR len
     in bd\<lparr>
       Des0 := BufData Buff,
       Info0 := BufData Buff,
       Des2 := (case Options of None \<Rightarrow> d2 | Some opt \<Rightarrow> if NoInt opt then d2 AND NOT GMAC_TDES2_IOC_MASK else d2),
       Des3 := (case Options of None \<Rightarrow> d3
                | Some opt \<Rightarrow> d3 OR (GMAC_TDES3_CPC (CrcPadIns opt) OR GMAC_TDES3_CIC (ChecksumIns opt)))
               OR GMAC_TDES3_OWN_MASK\<rparr>)"

definition send_frame :: "Gmac_Ip_BufferType \<Rightarrow> Gmac_Ip_TxOptionsType option \<Rightarrow> gmac_channel \<Rightarrow>
    (gmac_channel \<times> Gmac_Ip_StatusType) res" where
  "send_frame Buff Options ch =
    rbind (bd_at (TxRing ch) (DMA_TXDESC_TAIL_POINTER ch)) (\<lambda>bd.
    if Des3 bd AND GMAC_TDES3_OWN_MASK \<noteq> 0 then Inr (ch, GMAC_STATUS_TX_QUEUE_FULL)
    else Inr (ch\<lparr>TxRing := (TxRing ch)[DMA_TXDESC_TAIL_POINTER ch := send_bd Buff Options bd],
                 DMA_TXDESC_TAIL_POINTER :=
                   ring_wrap (DMA_TXDESC_RING_LENGTH ch) (Suc (DMA_TXDESC_TAIL_POINTER ch))\<rparr>,
              GMAC_STATUS_SUCCESS))"

definition Gmac_Ip_SendFrame :: "u8 \<Rightarrow> u8 \<Rightarrow> Gmac_Ip_BufferType \<Rightarrow> Gmac_Ip_TxOptionsType option \<Rightarrow> gmac \<Rightarrow>
    (gmac \<times> Gmac_Ip_StatusType) res" where
  "Gmac_Ip_SendFrame Instance Ring Buff Options g = with_tx_channel Instance Ring g (send_frame Buff Options)"

text \<open>The search of \<open>Gmac_Ip_GetTransmitStatus\<close>: the first of \<open>n\<close> descriptors from \<open>i\<close> that carries the address.\<close>

fun find_tx_bd :: "nat \<Rightarrow> nat \<Rightarrow> u32 \<Rightarrow> Gmac_Ip_BufferDescriptorType list \<Rightarrow> nat option res" where
  "find_tx_bd 0 i addr ring = Inr None"
| "find_tx_bd (Suc n) i addr ring =
    rbind (bd_at ring i) (\<lambda>bd. if Info0 bd = addr then Inr (Some i) else find_tx_bd n (Suc i) addr ring)"

definition get_transmit_status :: "gmac \<Rightarrow> Gmac_Ip_BufferType \<Rightarrow> gmac_channel \<Rightarrow>
    (gmac_channel \<times> Gmac_Ip_StatusType \<times> Gmac_Ip_TxInfoType option) res" where
  "get_transmit_status g Buff ch =
    rbind (find_tx_bd (Suc (unat (DMA_TXDESC_RING_LENGTH ch))) 0 (BufData Buff) (TxRing ch)) (\<lambda>r.
    case r of
      None \<Rightarrow> Inr (ch, GMAC_STATUS_BUFF_NOT_FOUND, None)
    | Some i \<Rightarrow>
        let bd = TxRing ch ! i
        in if Des3 bd AND GMAC_TDES3_OWN_MASK \<noteq> 0 then Inr (ch, GMAC_STATUS_BUSY, None)
           else Inr (ch\<lparr>TxRing := (TxRing ch)[i :=
                          bd\<lparr>Des0 := Info0 bd, Info0 := 0, Info1 := Info1 bd AND NOT GMAC_INFO1_LOCKED_MASK\<rparr>]\<rparr>,
                     GMAC_STATUS_SUCCESS,
                     Some \<lparr>TxErrMask = Des3 bd AND GMAC_TX_STAT_ERR_MASK, TxTimestamp = Gmac_Ip_GetTimestamp g bd\<rparr>))"

definition Gmac_Ip_GetTransmitStatus :: "u8 \<Rightarrow> u8 \<Rightarrow> Gmac_Ip_BufferType \<Rightarrow> gmac \<Rightarrow>
    (gmac \<times> Gmac_Ip_StatusType \<times> Gmac_Ip_TxInfoType option) res" where
  "Gmac_Ip_GetTransmitStatus Instance Ring Buff g = with_tx_channel Instance Ring g (get_transmit_status g Buff)"

section \<open>Reception\<close>

definition with_rx_channel :: "u8 \<Rightarrow> u8 \<Rightarrow> gmac \<Rightarrow> (gmac_channel \<Rightarrow> (gmac_channel \<times> 'a) res) \<Rightarrow> (gmac \<times> 'a) res" where
  "with_rx_channel Instance Ring g f =
    dev_assert (Instance < FEATURE_GMAC_NUM_INSTANCES)
    (dev_assert (gm_state_valid g)
    (dev_assert (unat Ring < unat (RxRingCount g))
    (if unat Ring < length (Ch g)
     then rbind (f (Ch g ! unat Ring)) (\<lambda>(ch, x). Inr (g\<lparr>Ch := (Ch g)[unat Ring := ch]\<rparr>, x))
     else Inl OutOfBounds)))"

text \<open>
  The time stamp of a received frame is in the context descriptor that follows the last data descriptor;
  the current pointer moves on to it.
\<close>

definition Gmac_Ip_ReadTimeStampInfo :: "gmac \<Rightarrow> gmac_channel \<Rightarrow> (gmac_channel \<times> Gmac_Ip_TimestampType) res" where
  "Gmac_Ip_ReadTimeStampInfo g ch =
    rbind (bd_at (RxRing ch) (RxCurrentDesc ch)) (\<lambda>bd.
    if Des1 bd AND GMAC_RDES1_TSA_MASK \<noteq> 0 \<and> Des3 bd AND GMAC_RDES3_LD_MASK \<noteq> 0
    then let i = ring_wrap (DMA_RXDESC_RING_LENGTH ch) (Suc (RxCurrentDesc ch))
         in rbind (bd_at (RxRing ch) i) (\<lambda>ctxt. Inr (ch\<lparr>RxCurrentDesc := i\<rparr>, bd_timestamp g ctxt))
    else Inr (ch, no_timestamp))"

definition rx_frame_ready :: "Gmac_Ip_BufferDescriptorType \<Rightarrow> bool" where
  "rx_frame_ready bd \<longleftrightarrow>
    Des3 bd AND GMAC_RDES3_OWN_MASK = 0 \<and> Info1 bd AND GMAC_INFO1_CONSUMED_MASK = 0 \<and> Info0 bd \<noteq> 0"

definition read_frame :: "gmac \<Rightarrow> Gmac_Ip_BufferType \<Rightarrow> Gmac_Ip_RxInfoType \<Rightarrow> gmac_channel \<Rightarrow>
    (gmac_channel \<times> Gmac_Ip_StatusType \<times> Gmac_Ip_BufferType \<times> Gmac_Ip_RxInfoType) res" where
  "read_frame g Buff Info ch =
    rbind (bd_at (RxRing ch) (RxCurrentDesc ch)) (\<lambda>bd.
    if \<not> rx_frame_ready bd then Inr (ch, GMAC_STATUS_RX_QUEUE_EMPTY, Buff, Info)
    else
      let cap = (ucast (Info1 bd AND GMAC_INFO1_LENGTH_MASK) :: u16);
          pl = (ucast (Des3 bd AND GMAC_RDES3_PL_MASK) :: u16);
          len = (if pl > cap then cap else pl);
          ch1 = ch\<lparr>RxRing := (RxRing ch)[RxCurrentDesc ch :=
                     bd\<lparr>Info0 := 0, Info1 := Info1 bd OR GMAC_INFO1_CONSUMED_MASK\<rparr>]\<rparr>;
          i1 = Info\<lparr>RxErrMask := Des3 bd AND GMAC_RX_STAT_ERR_MASK, PktLen := len\<rparr>;
          i2 = (if Des3 bd AND GMAC_RDES3_RS1V_MASK \<noteq> 0
                then i1\<lparr>IpHeaderErr := (Des1 bd AND GMAC_RDES1_IPHE_MASK \<noteq> 0),
                        IpPayloadErr := (Des1 bd AND GMAC_RDES1_IPCE_MASK \<noteq> 0),
                        Ipv4 := (Des1 bd AND GMAC_RDES1_IPV4_MASK \<noteq> 0),
                        Ipv6 := (Des1 bd AND GMAC_RDES1_IPV6_MASK \<noteq> 0),
                        PayloadType := Gmac_Ip_GetPayloadType (Des1 bd AND GMAC_RDES1_PT_MASK)\<rparr>
                else i1);
          i3 = (if Des3 bd AND GMAC_RDES3_RS0V_MASK \<noteq> 0
                then i2\<lparr>OuterVlanTag := ucast (Des0 bd AND GMAC_RDES0_OVT_MASK),
                        InnerVlanTag := ucast (drop_bit 16 (Des0 bd AND GMAC_RDES0_IVT_MASK))\<rparr>
                else i2\<lparr>OuterVlanTag := 0, InnerVlanTag := 0\<rparr>)
      in rbind (Gmac_Ip_ReadTimeStampInfo g ch1) (\<lambda>(ch2, ts).
         Inr (ch2\<lparr>RxCurrentDesc := ring_wrap (DMA_RXDESC_RING_LENGTH ch2) (Suc (RxCurrentDesc ch2))\<rparr>,
              GMAC_STATUS_SUCCESS, \<lparr>BufData = Info0 bd, BufLength = len\<rparr>, i3\<lparr>RxTimestamp := ts\<rparr>)))"

definition Gmac_Ip_ReadFrame :: "u8 \<Rightarrow> u8 \<Rightarrow> Gmac_Ip_BufferType \<Rightarrow> Gmac_Ip_RxInfoType \<Rightarrow> gmac \<Rightarrow>
    (gmac \<times> Gmac_Ip_StatusType \<times> Gmac_Ip_BufferType \<times> Gmac_Ip_RxInfoType) res" where
  "Gmac_Ip_ReadFrame Instance Ring Buff Info g = with_rx_channel Instance Ring g (read_frame g Buff Info)"

definition provide_rx_buff :: "Gmac_Ip_BufferType \<Rightarrow> gmac_channel \<Rightarrow> (gmac_channel \<times> unit) res" where
  "provide_rx_buff Buff ch =
    rbind (bd_at (RxRing ch) (RxAllocDesc ch)) (\<lambda>bd.
    let RingLength = DMA_RXDESC_RING_LENGTH ch;
        a = RxAllocDesc ch;
        ci = ring_wrap RingLength (Suc a)
    in dev_assert (Des3 bd AND GMAC_RDES3_OWN_MASK = 0)
       (rbind (if Des1 bd AND GMAC_RDES1_TSA_MASK \<noteq> 0 \<and> Des3 bd AND GMAC_RDES3_LD_MASK \<noteq> 0
               then rbind (bd_at (RxRing ch) ci) (\<lambda>ctxt.
                    rbind (Gmac_Ip_RestoreRxCtxtDescr ctxt) (\<lambda>(ctxt', restored).
                    Inr (if restored then ch\<lparr>RxRing := (RxRing ch)[ci := ctxt'], RxAllocDesc := ci\<rparr> else ch)))
               else Inr ch) (\<lambda>ch1.
        Inr (ch1\<lparr>RxRing := (RxRing ch1)[a := (RxRing ch1 ! a)\<lparr>
                    Des0 := BufData Buff, Des1 := 0, Des2 := 0, Info0 := BufData Buff,
                    Info1 := Info1 (RxRing ch1 ! a) AND NOT GMAC_INFO1_CONSUMED_MASK,
                    Des3 := GMAC_RDES3_OWN_MASK OR GMAC_RDES3_INTE_MASK OR GMAC_RDES3_BUF1V_MASK\<rparr>],
                 RxAllocDesc := ring_wrap RingLength (Suc (RxAllocDesc ch1))\<rparr>, ()))))"

definition Gmac_Ip_ProvideRxBuff :: "u8 \<Rightarrow> u8 \<Rightarrow> Gmac_Ip_BufferType \<Rightarrow> gmac \<Rightarrow> (gmac \<times> unit) res" where
  "Gmac_Ip_ProvideRxBuff Instance Ring Buff g = with_rx_channel Instance Ring g (provide_rx_buff Buff)"

definition Gmac_Ip_IsFrameAvailable :: "u8 \<Rightarrow> u8 \<Rightarrow> gmac \<Rightarrow> (gmac \<times> bool) res" where
  "Gmac_Ip_IsFrameAvailable Instance Ring g =
    with_rx_channel Instance Ring g (\<lambda>ch.
      rbind (bd_at (RxRing ch) (RxCurrentDesc ch)) (\<lambda>bd. Inr (ch, rx_frame_ready bd)))"

section \<open>Positions on a ring\<close>

definition ring_pos :: "nat \<Rightarrow> nat \<Rightarrow> nat \<Rightarrow> nat" where
  "ring_pos n h j = (h + j) mod n"

lemma ring_pos_less [simp]: "0 < n \<Longrightarrow> ring_pos n h j < n"
  by (simp add: ring_pos_def)

lemma ring_pos_less_head [simp]: "h < n \<Longrightarrow> ring_pos n h j < n"
  by (rule ring_pos_less) simp

lemma ring_pos_inj: "ring_pos n h i = ring_pos n h j \<longleftrightarrow> i = j" if "i < n" "j < n"
proof
  assume "ring_pos n h i = ring_pos n h j"
  then have "i mod n = j mod n" by (simp add: ring_pos_def mod_eq_nat2E nat_mod_eq_iff)
  with that show "i = j" by simp
qed simp

lemma ring_pos_surj: "i < n \<Longrightarrow> h < n \<Longrightarrow> \<exists>j<n. ring_pos n h j = i"
  by (rule exI [of _ "if h \<le> i then i - h else i + n - h"]) (auto simp: ring_pos_def)

lemma ring_pos_Suc: "0 < n \<Longrightarrow> ring_pos n (Suc h mod n) j = ring_pos n h (Suc j)"
  by (simp add: ring_pos_def mod_add_left_eq)

lemma ring_pos_self: "h < n \<Longrightarrow> ring_pos n h n = h"
  by (simp add: ring_pos_def)

lemma ring_wrap_pos:
  assumes "ring_end l = n" "0 < n"
  shows "ring_wrap l (Suc (ring_pos n h j)) = ring_pos n h (Suc j)"
proof -
  have "ring_pos n h (Suc j) = Suc (ring_pos n h j) mod n"
    by (simp add: ring_pos_def mod_Suc_eq)
  moreover have "n \<le> Suc (ring_pos n h j) \<longleftrightarrow> Suc (ring_pos n h j) = n"
    using ring_pos_less [of n h j] assms by linarith
  ultimately show ?thesis using assms
    by (cases "Suc (ring_pos n h j) = n") (simp_all add: ring_wrap_def)
qed


section \<open>The transmit ring as a rotating window\<close>

text \<open>
  Clients of a transmit ring see four lists of buffers: those sent whose status has not been read
  (\<open>done\<close> by the DMA, oldest first), those still owned by the DMA, and those granted and not yet
  sent. Together they occupy a window of the ring that starts at \<open>h\<close>; the rest is free.
\<close>

record tx_view =
  v_done :: "u32 list"
  v_flying :: "u32 list"
  v_granted :: "u32 list"

definition outstanding :: "tx_view \<Rightarrow> u32 list" where
  "outstanding v = v_done v @ v_flying v @ v_granted v"

definition slot_ok :: "tx_view \<Rightarrow> u32 \<Rightarrow> nat \<Rightarrow> u32 \<Rightarrow> Gmac_Ip_BufferDescriptorType \<Rightarrow> bool" where
  "slot_ok v cap j b bd \<longleftrightarrow>
    Info1 bd AND GMAC_INFO1_LENGTH_MASK = cap \<and>
    (if j < length (v_done v)
     then Des3 bd AND GMAC_TDES3_OWN_MASK = 0 \<and> Info1 bd AND GMAC_INFO1_LOCKED_MASK \<noteq> 0 \<and> Info0 bd = b
     else if j < length (v_done v) + length (v_flying v)
     then Des3 bd AND GMAC_TDES3_OWN_MASK \<noteq> 0 \<and> Info1 bd AND GMAC_INFO1_LOCKED_MASK \<noteq> 0 \<and> Info0 bd = b
     else if j < length (outstanding v)
     then Des3 bd AND GMAC_TDES3_OWN_MASK = 0 \<and> Info1 bd AND GMAC_INFO1_LOCKED_MASK \<noteq> 0 \<and> Info0 bd = 0 \<and> Des0 bd = b
     else Des3 bd AND GMAC_TDES3_OWN_MASK = 0 \<and> Info1 bd AND GMAC_INFO1_LOCKED_MASK = 0 \<and> Info0 bd = 0 \<and> Des0 bd = b)"

definition window_ok :: "(nat \<Rightarrow> u32) \<Rightarrow> u32 \<Rightarrow> nat \<Rightarrow> tx_view \<Rightarrow> gmac_channel \<Rightarrow> bool" where
  "window_ok base cap h v ch \<longleftrightarrow>
    (let n = length (TxRing ch)
     in ring_end (DMA_TXDESC_RING_LENGTH ch) = n \<and> h < n \<and>
        inj_on base {..<n} \<and> (\<forall>i<n. base i \<noteq> 0) \<and>
        length (outstanding v) \<le> n \<and>
        outstanding v = map (\<lambda>j. base (ring_pos n h j)) [0..<length (outstanding v)] \<and>
        TxCurrentDesc ch = ring_pos n h (length (outstanding v)) \<and>
        DMA_TXDESC_TAIL_POINTER ch = ring_pos n h (length (v_done v) + length (v_flying v)) \<and>
        (\<forall>j<n. slot_ok v cap j (base (ring_pos n h j)) (TxRing ch ! ring_pos n h j)))"

definition tx_ring_ok :: "(nat \<Rightarrow> u32) \<Rightarrow> u32 \<Rightarrow> tx_view \<Rightarrow> gmac_channel \<Rightarrow> bool" where
  "tx_ring_ok base cap v ch \<longleftrightarrow> (\<exists>h. window_ok base cap h v ch)"

lemma window_update:
  assumes "\<forall>j<n. slot_ok v cap j (base (ring_pos n h j)) (ring ! ring_pos n h j)"
    and "length ring = n" "k < n"
    and "slot_ok v' cap k (base (ring_pos n h k)) bd"
    and "\<And>j b bd. j < n \<Longrightarrow> j \<noteq> k \<Longrightarrow> slot_ok v cap j b bd \<Longrightarrow> slot_ok v' cap j b bd"
  shows "\<forall>j<n. slot_ok v' cap j (base (ring_pos n h j)) (ring[ring_pos n h k := bd] ! ring_pos n h j)"
proof (intro allI impI)
  fix j assume j: "j < n"
  show "slot_ok v' cap j (base (ring_pos n h j)) (ring[ring_pos n h k := bd] ! ring_pos n h j)"
  proof (cases "j = k")
    case True
    with assms show ?thesis by simp
  next
    case False
    with j assms(3) have "ring_pos n h j \<noteq> ring_pos n h k" by (simp add: ring_pos_inj)
    with False j assms show ?thesis by simp
  qed
qed

lemma outstanding_distinct:
  assumes "window_ok base cap h v ch"
  shows "distinct (outstanding v)"
proof -
  let ?n = "length (TxRing ch)" let ?k = "length (outstanding v)"
  have *: "outstanding v = map (\<lambda>j. base (ring_pos ?n h j)) [0..<?k]" "?k \<le> ?n" "h < ?n" "inj_on base {..<?n}"
    using assms by (auto simp: window_ok_def Let_def)
  have "inj_on (\<lambda>j. base (ring_pos ?n h j)) (set [0..<?k])"
  proof (rule inj_onI)
    fix i j assume ij: "i \<in> set [0..<?k]" "j \<in> set [0..<?k]" "base (ring_pos ?n h i) = base (ring_pos ?n h j)"
    with *(3,4) have "ring_pos ?n h i = ring_pos ?n h j" by (auto dest!: inj_onD)
    with ij *(2) show "i = j" by (simp add: ring_pos_inj)
  qed
  then have "distinct (map (\<lambda>j. base (ring_pos ?n h j)) [0..<?k])" by (simp add: distinct_map)
  then show ?thesis using *(1) by simp
qed

text \<open>What the window gives at one position, by the list the position falls in.\<close>

lemma window_slot:
  assumes "window_ok base cap h v ch" "j < length (TxRing ch)"
  shows "slot_ok v cap j (base (ring_pos (length (TxRing ch)) h j)) (TxRing ch ! ring_pos (length (TxRing ch)) h j)"
  using assms by (simp add: window_ok_def Let_def)

lemma window_nth:
  assumes "window_ok base cap h v ch" "j < length (outstanding v)"
  shows "outstanding v ! j = base (ring_pos (length (TxRing ch)) h j)"
proof -
  let ?k = "length (outstanding v)"
  have "outstanding v = map (\<lambda>j. base (ring_pos (length (TxRing ch)) h j)) [0..<?k]"
    using assms by (simp add: window_ok_def Let_def)
  then have "outstanding v ! j = map (\<lambda>j. base (ring_pos (length (TxRing ch)) h j)) [0..<?k] ! j" by simp
  also have "\<dots> = base (ring_pos (length (TxRing ch)) h j)" using assms(2) by simp
  finally show ?thesis .
qed

lemma window_step:
  fixes ch h
  defines "pos \<equiv> ring_pos (length (TxRing ch)) h"
  assumes w: "window_ok base cap h v ch" and k: "k < length (TxRing ch)"
    and slot: "slot_ok v' cap k (base (pos k)) bd"
    and rest: "\<And>j b bd. j \<noteq> k \<Longrightarrow> slot_ok v cap j b bd \<Longrightarrow> slot_ok v' cap j b bd"
    and out: "outstanding v' = map (\<lambda>j. base (pos j)) [0..<length (outstanding v')]"
      "length (outstanding v') \<le> length (TxRing ch)"
    and ch': "TxRing ch' = (TxRing ch)[pos k := bd]"
      "DMA_TXDESC_RING_LENGTH ch' = DMA_TXDESC_RING_LENGTH ch"
      "TxCurrentDesc ch' = pos (length (outstanding v'))"
      "DMA_TXDESC_TAIL_POINTER ch' = pos (length (v_done v') + length (v_flying v'))"
  shows "window_ok base cap h v' ch'"
proof -
  let ?n = "length (TxRing ch)"
  have "\<forall>j<?n. slot_ok v' cap j (base (pos j)) ((TxRing ch)[pos k := bd] ! pos j)"
    unfolding pos_def
  proof (rule window_update [OF _ refl k])
    show "\<forall>j<?n. slot_ok v cap j (base (ring_pos ?n h j)) (TxRing ch ! ring_pos ?n h j)"
      using w by (simp add: window_ok_def Let_def)
  qed (use slot rest in \<open>auto simp: pos_def\<close>)
  with w out ch' show ?thesis by (simp add: window_ok_def Let_def pos_def)
qed

lemma window_facts:
  assumes "window_ok base cap h v ch"
  shows "ring_end (DMA_TXDESC_RING_LENGTH ch) = length (TxRing ch)" "h < length (TxRing ch)" "0 < length (TxRing ch)"
    "length (outstanding v) \<le> length (TxRing ch)"
    "outstanding v = map (\<lambda>j. base (ring_pos (length (TxRing ch)) h j)) [0..<length (outstanding v)]"
    "TxCurrentDesc ch = ring_pos (length (TxRing ch)) h (length (outstanding v))"
    "DMA_TXDESC_TAIL_POINTER ch = ring_pos (length (TxRing ch)) h (length (v_done v) + length (v_flying v))"
  using assms by (auto simp: window_ok_def Let_def)

text \<open>Granting a buffer moves the first free place behind the window into it.\<close>

lemma get_tx_buff_grants:
  fixes ch Buff v h base
  defines "b \<equiv> base (ring_pos (length (TxRing ch)) h (length (outstanding v)))"
  assumes w: "window_ok base cap h v ch" and room: "length (outstanding v) < length (TxRing ch)"
    and len: "ucast (BufLength Buff) \<le> cap"
  shows "\<exists>ch'. get_tx_buff Buff ch =
      Inr (ch', GMAC_STATUS_SUCCESS, \<lparr>BufData = b, BufLength = ucast cap\<rparr>, Some (of_nat (TxCurrentDesc ch))) \<and>
    window_ok base cap h (v\<lparr>v_granted := v_granted v @ [b]\<rparr>) ch' \<and> length (TxRing ch') = length (TxRing ch)"
proof -
  let ?n = "length (TxRing ch)" and ?k = "length (outstanding v)"
  let ?p = "ring_pos ?n h ?k"
  let ?bd = "TxRing ch ! ?p"
  let ?bd' = "?bd\<lparr>Info1 := Info1 ?bd OR GMAC_INFO1_LOCKED_MASK\<rparr>"
  let ?v' = "v\<lparr>v_granted := v_granted v @ [b]\<rparr>"
  let ?ch' = "ch\<lparr>TxRing := (TxRing ch)[?p := ?bd'], TxCurrentDesc := ring_pos ?n h (Suc ?k)\<rparr>"
  note facts = window_facts [OF w]
  have out': "outstanding ?v' = outstanding v @ [b]" by (simp add: outstanding_def)
  have free: "Des3 ?bd AND GMAC_TDES3_OWN_MASK = 0" "Info1 ?bd AND GMAC_INFO1_LOCKED_MASK = 0"
    "Info0 ?bd = 0" "Des0 ?bd = b" "Info1 ?bd AND GMAC_INFO1_LENGTH_MASK = cap"
    using window_slot [OF w room] by (auto simp: slot_ok_def outstanding_def b_def split: if_splits)
  have "get_tx_buff Buff ch = Inr (?ch', GMAC_STATUS_SUCCESS,
      \<lparr>BufData = b, BufLength = ucast cap\<rparr>, Some (of_nat (TxCurrentDesc ch)))"
    using facts free len ring_wrap_pos [OF facts(1,3)] by (simp add: get_tx_buff_def bd_at_def Let_def not_less)
  moreover have "window_ok base cap h ?v' ?ch'"
  proof (rule window_step [OF w room])
    show "slot_ok ?v' cap ?k (base ?p) ?bd'"
      using free by (simp add: slot_ok_def out' b_def mask_simps) (simp add: outstanding_def)
    show "slot_ok v cap j b bd \<Longrightarrow> slot_ok ?v' cap j b bd" if "j \<noteq> ?k" for j b bd
      using that by (auto simp: slot_ok_def out')
    show "outstanding ?v' = map (\<lambda>j. base (ring_pos ?n h j)) [0..<length (outstanding ?v')]"
      unfolding out' using facts(5) by (simp add: b_def)
  qed (use room facts in \<open>simp_all add: out'\<close>)
  ultimately show ?thesis by auto
qed

text \<open>When the window fills the ring the grant is refused, and so is a frame longer than a buffer.\<close>

lemma get_tx_buff_busy:
  assumes w: "window_ok base cap h v ch" and full: "length (outstanding v) = length (TxRing ch)"
  shows "get_tx_buff Buff ch = Inr (ch, GMAC_STATUS_TX_BUFF_BUSY, Buff, None)"
proof -
  note facts = window_facts [OF w]
  have "TxCurrentDesc ch = ring_pos (length (TxRing ch)) h 0"
    using facts(2,6) full by (simp add: ring_pos_def)
  moreover have "Info1 (TxRing ch ! ring_pos (length (TxRing ch)) h 0) AND GMAC_INFO1_LOCKED_MASK \<noteq> 0"
    using window_slot [OF w, of 0] facts(3) full by (auto simp: slot_ok_def split: if_splits)
  ultimately show ?thesis using facts(2) by (simp add: get_tx_buff_def bd_at_def Let_def)
qed

lemma get_tx_buff_overflow:
  assumes w: "window_ok base cap h v ch" and room: "length (outstanding v) < length (TxRing ch)"
    and len: "cap < ucast (BufLength Buff)"
  shows "get_tx_buff Buff ch = Inr (ch, GMAC_STATUS_TX_BUFF_OVERFLOW, Buff\<lparr>BufLength := ucast cap\<rparr>, None)"
proof -
  let ?bd = "TxRing ch ! ring_pos (length (TxRing ch)) h (length (outstanding v))"
  note facts = window_facts [OF w]
  have "Des3 ?bd AND GMAC_TDES3_OWN_MASK = 0" "Info1 ?bd AND GMAC_INFO1_LOCKED_MASK = 0"
    "Info1 ?bd AND GMAC_INFO1_LENGTH_MASK = cap"
    using window_slot [OF w room] by (auto simp: slot_ok_def outstanding_def split: if_splits)
  with facts len show ?thesis by (simp add: get_tx_buff_def bd_at_def Let_def)
qed

text \<open>Sending the oldest granted buffer hands its descriptor to the DMA; the ring is never full then.\<close>

lemma send_bd_simps [simp]:
  "Des3 (send_bd Buff Options bd) AND GMAC_TDES3_OWN_MASK = GMAC_TDES3_OWN_MASK"
  "Info0 (send_bd Buff Options bd) = BufData Buff" "Info1 (send_bd Buff Options bd) = Info1 bd"
  "Des0 (send_bd Buff Options bd) = BufData Buff"
  by (simp_all add: send_bd_def Let_def or_mask_and_mask)

lemma send_frame_sends:
  assumes w: "window_ok base cap h v ch" and g: "v_granted v = b # G" and b: "BufData Buff = b"
  shows "\<exists>ch'. send_frame Buff Options ch = Inr (ch', GMAC_STATUS_SUCCESS) \<and>
    window_ok base cap h (v\<lparr>v_flying := v_flying v @ [b], v_granted := G\<rparr>) ch' \<and>
    TxRing ch' = (TxRing ch)[DMA_TXDESC_TAIL_POINTER ch := send_bd Buff Options (TxRing ch ! DMA_TXDESC_TAIL_POINTER ch)]"
proof -
  let ?n = "length (TxRing ch)" and ?s = "length (v_done v) + length (v_flying v)"
  let ?p = "ring_pos ?n h ?s"
  let ?bd = "TxRing ch ! ?p"
  let ?v' = "v\<lparr>v_flying := v_flying v @ [b], v_granted := G\<rparr>"
  let ?ch' = "ch\<lparr>TxRing := (TxRing ch)[?p := send_bd Buff Options ?bd],
                 DMA_TXDESC_TAIL_POINTER := ring_pos ?n h (Suc ?s)\<rparr>"
  note facts = window_facts [OF w]
  have out': "outstanding ?v' = outstanding v" using g by (simp add: outstanding_def)
  have s: "?s < length (outstanding v)" using g by (simp add: outstanding_def)
  have bp: "base ?p = b" using window_nth [OF w s] g by (simp add: outstanding_def nth_append)
  have sn: "?s < ?n" using s facts(4) by simp
  have slot: "Des3 ?bd AND GMAC_TDES3_OWN_MASK = 0" "Info1 ?bd AND GMAC_INFO1_LOCKED_MASK \<noteq> 0"
    "Info1 ?bd AND GMAC_INFO1_LENGTH_MASK = cap"
    using window_slot [OF w sn] s by (auto simp: slot_ok_def split: if_splits)
  have "send_frame Buff Options ch = Inr (?ch', GMAC_STATUS_SUCCESS)"
    using facts slot ring_wrap_pos [OF facts(1,3)] by (simp add: send_frame_def bd_at_def Let_def)
  moreover have "window_ok base cap h ?v' ?ch'"
  proof (rule window_step [OF w sn])
    show "slot_ok ?v' cap ?s (base ?p) (send_bd Buff Options ?bd)"
      using slot b bp by (simp add: slot_ok_def)
    show "slot_ok v cap j b bd \<Longrightarrow> slot_ok ?v' cap j b bd" if "j \<noteq> ?s" for j b bd
      using that by (auto simp: slot_ok_def out')
    show "outstanding ?v' = map (\<lambda>j. base (ring_pos ?n h j)) [0..<length (outstanding ?v')]"
      using facts(5) by (simp only: out')
  qed (use facts in \<open>simp_all add: out'\<close>)
  ultimately show ?thesis using facts(7) by auto
qed

text \<open>The address search of the status query finds the descriptor that carries the buffer.\<close>

lemma window_info0:
  assumes w: "window_ok base cap h v ch" and j: "j < length (TxRing ch)"
  shows "Info0 (TxRing ch ! ring_pos (length (TxRing ch)) h j) =
    (if j < length (v_done v) + length (v_flying v) then base (ring_pos (length (TxRing ch)) h j) else 0)"
  using window_slot [OF w j] by (auto simp: slot_ok_def split: if_splits)

lemma window_info0_unique:
  assumes w: "window_ok base cap h v ch" and i: "i < length (TxRing ch)"
    and k: "k < length (v_done v) + length (v_flying v)"
    and eq: "Info0 (TxRing ch ! i) = base (ring_pos (length (TxRing ch)) h k)"
  shows "i = ring_pos (length (TxRing ch)) h k"
proof -
  let ?n = "length (TxRing ch)"
  note facts = window_facts [OF w]
  have base: "inj_on base {..<?n}" "\<forall>i<?n. base i \<noteq> 0" using w by (auto simp: window_ok_def Let_def)
  obtain j where j: "j < ?n" "ring_pos ?n h j = i" using ring_pos_surj [OF i facts(2)] by blast
  from eq window_info0 [OF w j(1)] base(2) facts(2) j(2)
  have "base i = base (ring_pos ?n h k)" by (auto split: if_splits)
  with base(1) i facts(2) show ?thesis by (auto dest!: inj_onD)
qed

lemma find_tx_bd_first:
  assumes "i \<le> p" "p < i + n" "i + n \<le> length ring" "Info0 (ring ! p) = a"
    "\<And>q. i \<le> q \<Longrightarrow> q < p \<Longrightarrow> Info0 (ring ! q) \<noteq> a"
  shows "find_tx_bd n i a ring = Inr (Some p)"
  using assms
proof (induction n arbitrary: i)
  case 0
  then show ?case by simp
next
  case (Suc n)
  show ?case
  proof (cases "i = p")
    case True
    with Suc.prems show ?thesis by (simp add: bd_at_def)
  next
    case False
    with Suc.prems have "Info0 (ring ! i) \<noteq> a" by simp
    moreover have "find_tx_bd n (Suc i) a ring = Inr (Some p)"
      using Suc.prems False by (intro Suc.IH) auto
    ultimately show ?thesis using Suc.prems by (simp add: bd_at_def)
  qed
qed

lemma window_find:
  assumes w: "window_ok base cap h v ch" and k: "k < length (v_done v) + length (v_flying v)"
  shows "find_tx_bd (Suc (unat (DMA_TXDESC_RING_LENGTH ch))) 0 (base (ring_pos (length (TxRing ch)) h k)) (TxRing ch) =
    Inr (Some (ring_pos (length (TxRing ch)) h k))"
proof -
  let ?n = "length (TxRing ch)" and ?l = "DMA_TXDESC_RING_LENGTH ch"
  note facts = window_facts [OF w]
  have "?l + 1 \<noteq> 0" using facts(1,3) by (auto simp: ring_end_def)
  then have n: "Suc (unat ?l) = ?n" using facts(1) by (simp add: ring_end_def unatSuc add.commute)
  have kn: "k < ?n" using k facts(4) by (simp add: outstanding_def)
  show ?thesis unfolding n
  proof (rule find_tx_bd_first)
    show "Info0 (TxRing ch ! ring_pos ?n h k) = base (ring_pos ?n h k)"
      using window_info0 [OF w kn] k by simp
    show "Info0 (TxRing ch ! q) \<noteq> base (ring_pos ?n h k)" if "q < ring_pos ?n h k" for q
      using window_info0_unique [OF w _ k, of q] that ring_pos_less_head [OF facts(2), of k] by force
  qed (use facts in simp_all)
qed

text \<open>
  The DMA engine: when it has transmitted the frame of a descriptor it owns it writes the time stamp into the
  first two words and the status into the fourth, with the ownership bit cleared.
\<close>

definition dma_write_back :: "nat \<Rightarrow> u32 \<Rightarrow> u32 \<Rightarrow> u32 \<Rightarrow> gmac_channel \<Rightarrow> gmac_channel" where
  "dma_write_back i lo hi status ch = ch\<lparr>TxRing := (TxRing ch)[i :=
     (TxRing ch ! i)\<lparr>Des0 := lo, Des1 := hi, Des3 := status AND NOT GMAC_TDES3_OWN_MASK\<rparr>]\<rparr>"

lemma dma_completes:
  assumes w: "window_ok base cap h v ch" and f: "v_flying v = b # F"
    and i: "i < length (TxRing ch)" "Info0 (TxRing ch ! i) = b"
  shows "window_ok base cap h (v\<lparr>v_done := v_done v @ [b], v_flying := F\<rparr>) (dma_write_back i lo hi status ch)"
proof -
  let ?n = "length (TxRing ch)" and ?c = "length (v_done v)"
  let ?v' = "v\<lparr>v_done := v_done v @ [b], v_flying := F\<rparr>"
  note facts = window_facts [OF w]
  have c: "?c < length (v_done v) + length (v_flying v)" "?c < length (outstanding v)"
    using f by (simp_all add: outstanding_def)
  have cn: "?c < ?n" using c(2) facts(4) by simp
  have out': "outstanding ?v' = outstanding v" using f by (simp add: outstanding_def)
  have bp: "base (ring_pos ?n h ?c) = b" using window_nth [OF w c(2)] f by (simp add: outstanding_def nth_append)
  have ip: "i = ring_pos ?n h ?c" using window_info0_unique [OF w i(1) c(1)] i(2) bp by simp
  have slot: "Info1 (TxRing ch ! i) AND GMAC_INFO1_LOCKED_MASK \<noteq> 0"
    "Info1 (TxRing ch ! i) AND GMAC_INFO1_LENGTH_MASK = cap"
    using window_slot [OF w cn] c unfolding ip by (auto simp: slot_ok_def split: if_splits)
  show ?thesis
  proof (rule window_step [OF w cn])
    show "slot_ok ?v' cap ?c (base (ring_pos ?n h ?c))
        ((TxRing ch ! i)\<lparr>Des0 := lo, Des1 := hi, Des3 := status AND NOT GMAC_TDES3_OWN_MASK\<rparr>)"
      using slot i(2) bp and_not_mask_and_mask [of status GMAC_TDES3_OWN_MASK] by (simp add: slot_ok_def)
    show "slot_ok v cap j b bd \<Longrightarrow> slot_ok ?v' cap j b bd" if "j \<noteq> ?c" for j b bd
      using that f by (auto simp: slot_ok_def out')
    show "outstanding ?v' = map (\<lambda>j. base (ring_pos ?n h j)) [0..<length (outstanding ?v')]"
      using facts(5) by (simp only: out')
  qed (use facts f in \<open>simp_all add: out' dma_write_back_def ip\<close>)
qed

text \<open>Reading the status: a frame still owned by the DMA is busy, a transmitted one is released.\<close>

lemma status_busy:
  assumes w: "window_ok base cap h v ch" and b: "BufData Buff \<in> set (v_flying v)"
  shows "get_transmit_status g Buff ch = Inr (ch, GMAC_STATUS_BUSY, None)"
proof -
  let ?n = "length (TxRing ch)"
  note facts = window_facts [OF w]
  obtain m where m: "m < length (v_flying v)" "v_flying v ! m = BufData Buff" using b by (auto simp: in_set_conv_nth)
  let ?k = "length (v_done v) + m"
  have k: "?k < length (v_done v) + length (v_flying v)" "?k < length (outstanding v)"
    using m by (simp_all add: outstanding_def)
  have bp: "base (ring_pos ?n h ?k) = BufData Buff"
    using window_nth [OF w k(2)] m by (simp add: outstanding_def nth_append)
  have "Des3 (TxRing ch ! ring_pos ?n h ?k) AND GMAC_TDES3_OWN_MASK \<noteq> 0"
    using window_slot [OF w, of ?k] k facts(4) by (auto simp: slot_ok_def split: if_splits)
  then show ?thesis using window_find [OF w k(1)] by (simp add: get_transmit_status_def bp Let_def)
qed

lemma status_releases:
  assumes w: "window_ok base cap h v ch" and d: "v_done v = b # D" and b: "BufData Buff = b"
  shows "\<exists>ch' info. get_transmit_status g Buff ch = Inr (ch', GMAC_STATUS_SUCCESS, Some info) \<and>
    window_ok base cap (Suc h mod length (TxRing ch)) (v\<lparr>v_done := D\<rparr>) ch' \<and>
    length (TxRing ch') = length (TxRing ch)"
proof -
  let ?n = "length (TxRing ch)" and ?k = "length (outstanding v)"
  let ?p = "ring_pos ?n h 0"
  let ?bd = "TxRing ch ! ?p"
  let ?bd' = "?bd\<lparr>Des0 := Info0 ?bd, Info0 := 0, Info1 := Info1 ?bd AND NOT GMAC_INFO1_LOCKED_MASK\<rparr>"
  let ?v' = "v\<lparr>v_done := D\<rparr>"
  let ?ch' = "ch\<lparr>TxRing := (TxRing ch)[?p := ?bd']\<rparr>"
  note facts = window_facts [OF w]
  have k: "0 < length (v_done v) + length (v_flying v)" using d by simp
  have out: "outstanding v = b # outstanding ?v'" using d by (simp add: outstanding_def)
  have bp: "base ?p = b" using window_nth [OF w, of 0] out by simp
  have slot: "slot_ok v cap 0 b ?bd" using window_slot [OF w facts(3)] bp by simp
  have pos: "ring_pos ?n (Suc h mod ?n) j = ring_pos ?n h (Suc j)" for j using ring_pos_Suc [OF facts(3)] by simp
  have free: "slot_ok ?v' cap j b ?bd'" if "?k \<le> Suc j" for j
    using slot that out d and_not_mask_and_mask [of "Info1 ?bd" GMAC_INFO1_LOCKED_MASK]
      and_not_mask_and_other [of GMAC_INFO1_LOCKED_MASK GMAC_INFO1_LENGTH_MASK "Info1 ?bd"]
    by (simp add: slot_ok_def) (simp add: outstanding_def)
  have shift: "slot_ok v cap (Suc j) x bd \<Longrightarrow> slot_ok ?v' cap j x bd" for j x bd
    using d out by (simp add: slot_ok_def split: if_splits)
  have slots: "slot_ok ?v' cap j (base (ring_pos ?n h (Suc j))) (TxRing ?ch' ! ring_pos ?n h (Suc j))" if j: "j < ?n" for j
  proof (cases "Suc j = ?n")
    case True
    then have "ring_pos ?n h (Suc j) = ?p" using facts(2) by (simp add: ring_pos_def)
    with free [of j] True facts(2,4) bp show ?thesis by simp
  next
    case False
    with j have "Suc j < ?n" by simp
    then have "ring_pos ?n h (Suc j) \<noteq> ?p" using ring_pos_inj [of "Suc j" ?n 0 h] facts(3) by simp
    with shift window_slot [OF w \<open>Suc j < ?n\<close>] show ?thesis by simp
  qed
  have outs: "outstanding ?v' = map (\<lambda>j. base (ring_pos ?n h (Suc j))) [0..<length (outstanding ?v')]"
  proof (rule nth_equalityI)
    fix i assume "i < length (outstanding ?v')"
    then show "outstanding ?v' ! i = map (\<lambda>j. base (ring_pos ?n h (Suc j))) [0..<length (outstanding ?v')] ! i"
      using window_nth [OF w, of "Suc i"] out by simp
  qed simp
  have "window_ok base cap (Suc h mod ?n) ?v' ?ch'"
    using w slots outs d out facts unfolding window_ok_def Let_def
    by (simp add: pos)
  moreover have "get_transmit_status g Buff ch = Inr (?ch', GMAC_STATUS_SUCCESS,
      Some \<lparr>TxErrMask = Des3 ?bd AND GMAC_TX_STAT_ERR_MASK, TxTimestamp = Gmac_Ip_GetTimestamp g ?bd\<rparr>)"
    using window_find [OF w k] slot d by (simp add: get_transmit_status_def bp b Let_def slot_ok_def)
  ultimately show ?thesis by auto
qed

section \<open>Reachable ring states\<close>

definition tx_config_ok :: "Gmac_Ip_TxRingConfigType \<Rightarrow> bool" where
  "tx_config_ok cfg \<longleftrightarrow>
    1 < TxRingSize cfg \<and> 0 < TxBufferLen cfg \<and> TxBuffer cfg \<noteq> 0 \<and>
    unat (TxBuffer cfg) + unat (TxBufferLen cfg) * unat (TxRingSize cfg) \<le> 2 ^ 32"

definition tx_base :: "Gmac_Ip_TxRingConfigType \<Rightarrow> nat \<Rightarrow> u32" where
  "tx_base cfg j = TxBuffer cfg + ucast (TxBufferLen cfg) * of_nat j"

definition tx_cap :: "Gmac_Ip_TxRingConfigType \<Rightarrow> u32" where
  "tx_cap cfg = ucast (TxBufferLen cfg) AND GMAC_INFO1_LENGTH_MASK"

definition empty_view :: tx_view where
  "empty_view = \<lparr>v_done = [], v_flying = [], v_granted = []\<rparr>"

text \<open>
  A step of a client of the ring or of the DMA. Buffers are sent in the order they were granted and their
  status is read in the order they were sent, as the Ethernet driver does; the DMA works through its
  descriptors in order. A refused grant or a busy status is a step too.
\<close>

inductive tx_step :: "gmac_channel \<times> tx_view \<Rightarrow> gmac_channel \<times> tx_view \<Rightarrow> bool" where
  grant: "get_tx_buff Buff ch = Inr (ch', GMAC_STATUS_SUCCESS, Buff', bid) \<Longrightarrow>
    tx_step (ch, v) (ch', v\<lparr>v_granted := v_granted v @ [BufData Buff']\<rparr>)"
| refused: "get_tx_buff Buff ch = Inr (ch', st, Buff', bid) \<Longrightarrow> st \<noteq> GMAC_STATUS_SUCCESS \<Longrightarrow>
    tx_step (ch, v) (ch', v)"
| send: "v_granted v = b # G \<Longrightarrow> BufData Buff = b \<Longrightarrow> send_frame Buff Options ch = Inr (ch', GMAC_STATUS_SUCCESS) \<Longrightarrow>
    tx_step (ch, v) (ch', v\<lparr>v_flying := v_flying v @ [b], v_granted := G\<rparr>)"
| transmitted: "v_flying v = b # F \<Longrightarrow> i < length (TxRing ch) \<Longrightarrow> Info0 (TxRing ch ! i) = b \<Longrightarrow>
    tx_step (ch, v) (dma_write_back i lo hi status ch, v\<lparr>v_done := v_done v @ [b], v_flying := F\<rparr>)"
| still_busy: "get_transmit_status g Buff ch = Inr (ch', GMAC_STATUS_BUSY, info) \<Longrightarrow>
    BufData Buff \<in> set (v_flying v) \<Longrightarrow> tx_step (ch, v) (ch', v)"
| released: "v_done v = b # D \<Longrightarrow> BufData Buff = b \<Longrightarrow>
    get_transmit_status g Buff ch = Inr (ch', GMAC_STATUS_SUCCESS, info) \<Longrightarrow>
    tx_step (ch, v) (ch', v\<lparr>v_done := D\<rparr>)"

inductive tx_reachable :: "Gmac_Ip_TxRingConfigType \<Rightarrow> gmac_channel \<times> tx_view \<Rightarrow> bool" for cfg where
  init: "length (TxRing ch) = unat (TxRingSize cfg) \<Longrightarrow>
    tx_reachable cfg ((Gmac_Ip_InitTxBD_ring ctrl cfg ch)\<lparr>TxCurrentDesc := 0\<rparr>, empty_view)"
| step: "tx_reachable cfg s \<Longrightarrow> tx_step s s' \<Longrightarrow> tx_reachable cfg s'"

inductive_cases tx_stepE: "tx_step (ch, v) s'"

lemma unat_tx_base:
  assumes "tx_config_ok cfg" "j < unat (TxRingSize cfg)"
  shows "unat (tx_base cfg j) = unat (TxBuffer cfg) + unat (TxBufferLen cfg) * j"
proof -
  let ?l = "unat (TxBufferLen cfg)" and ?n = "unat (TxRingSize cfg)"
  have l: "0 < ?l" using assms(1) by (simp add: tx_config_ok_def word_less_nat_alt unat_gt_0)
  have bound: "unat (TxBuffer cfg) + ?l * ?n \<le> 2 ^ 32" using assms(1) by (simp add: tx_config_ok_def)
  have "?l * j < ?l * ?n" using l assms(2) by simp
  with bound have lt: "unat (TxBuffer cfg) + ?l * j < 2 ^ 32" by linarith
  have j32: "j < 2 ^ 32" using assms(2) unat_u16_less [of "TxRingSize cfg"] by simp
  have len: "unat (ucast (TxBufferLen cfg) :: u32) = ?l" by (rule unat_ucast_up) simp
  have "unat (ucast (TxBufferLen cfg) * of_nat j :: u32) = ?l * j"
    using lt j32 len by (simp add: unat_word_ariths unat_of_nat_u32)
  with lt show ?thesis by (simp add: tx_base_def unat_word_ariths)
qed

lemma init_window:
  assumes cfg: "tx_config_ok cfg" and len: "length (TxRing ch) = unat (TxRingSize cfg)"
  shows "window_ok (tx_base cfg) (tx_cap cfg) 0 empty_view ((Gmac_Ip_InitTxBD_ring ctrl cfg ch)\<lparr>TxCurrentDesc := 0\<rparr>)"
proof -
  let ?n = "unat (TxRingSize cfg)"
  have n: "1 < ?n" using cfg by (simp add: tx_config_ok_def word_less_nat_alt)
  have re: "ring_end (ucast (TxRingSize cfg) - 1) = ?n" by (simp add: ring_end_def unat_ucast_up)
  have l: "0 < unat (TxBufferLen cfg)" using cfg by (simp add: tx_config_ok_def word_less_nat_alt unat_gt_0)
  have inj: "inj_on (tx_base cfg) {..<?n}"
  proof (rule inj_onI)
    fix i j assume ij: "i \<in> {..<?n}" "j \<in> {..<?n}" "tx_base cfg i = tx_base cfg j"
    then have "unat (TxBufferLen cfg) * i = unat (TxBufferLen cfg) * j"
      using unat_tx_base [OF cfg, of i] unat_tx_base [OF cfg, of j] by (metis add_left_cancel lessThan_iff)
    with l show "i = j" by simp
  qed
  have nz: "\<forall>i<?n. tx_base cfg i \<noteq> 0"
  proof (intro allI impI notI)
    fix i assume "i < ?n" "tx_base cfg i = 0"
    with unat_tx_base [OF cfg, of i] have "unat (TxBuffer cfg) = 0" by simp
    with cfg show False by (simp add: tx_config_ok_def unat_eq_0)
  qed
  have slots: "slot_ok empty_view (tx_cap cfg) j (tx_base cfg j) (init_tx_bd cfg j)" for j
    using cfg by (simp add: slot_ok_def empty_view_def outstanding_def init_tx_bd_def tx_base_def tx_cap_def tx_config_ok_def)
      (simp add: and.assoc)
  have pos: "ring_pos ?n 0 j = j" if "j < ?n" for j using that by (simp add: ring_pos_def)
  show ?thesis unfolding window_ok_def Let_def
    using n re inj nz slots len pos
    by (simp add: Gmac_Ip_InitTxBD_ring_def Let_def) (simp add: empty_view_def outstanding_def)
qed

text \<open>Every step keeps the window; the ring never changes its size.\<close>

lemma get_tx_buff_granted:
  assumes w: "window_ok base cap h v ch" and g: "get_tx_buff Buff ch = Inr (ch', GMAC_STATUS_SUCCESS, Buff', bid)"
  shows "window_ok base cap h (v\<lparr>v_granted := v_granted v @ [BufData Buff']\<rparr>) ch' \<and>
    length (TxRing ch') = length (TxRing ch)"
proof -
  have "length (outstanding v) < length (TxRing ch)"
    using get_tx_buff_busy [OF w, of Buff] window_facts(4) [OF w] g by (cases "length (outstanding v) = length (TxRing ch)") auto
  moreover from this have "ucast (BufLength Buff) \<le> cap"
    using get_tx_buff_overflow [OF w, of Buff] g by (cases "cap < ucast (BufLength Buff)") (auto simp: not_less)
  ultimately show ?thesis using get_tx_buff_grants [OF w, of Buff] g by auto
qed

lemma get_tx_buff_refused:
  "get_tx_buff Buff ch = Inr (ch', st, Buff', bid) \<Longrightarrow> st \<noteq> GMAC_STATUS_SUCCESS \<Longrightarrow> ch' = ch"
  by (auto simp: get_tx_buff_def Let_def rbind_Inr_iff split: if_splits)

lemma tx_step_keeps:
  assumes "tx_step (ch, v) (ch', v')" and w: "window_ok base cap h v ch"
  shows "\<exists>h'. window_ok base cap h' v' ch' \<and> length (TxRing ch') = length (TxRing ch)"
  using assms(1)
proof (cases rule: tx_step.cases)
  case (grant Buff Buff' bid)
  with get_tx_buff_granted [OF w] show ?thesis by blast
next
  case (refused Buff st Buff' bid)
  with get_tx_buff_refused [of Buff ch ch' st Buff' bid] w show ?thesis by auto
next
  case (send b G Buff Options)
  with send_frame_sends [OF w, of b G Buff Options] show ?thesis by auto
next
  case (transmitted b F i lo hi status)
  with dma_completes [OF w, of b F i lo hi status] show ?thesis by (auto simp: dma_write_back_def)
next
  case (still_busy g Buff info)
  with status_busy [OF w] w show ?thesis by auto
next
  case (released b D Buff g info)
  with status_releases [OF w, of b D Buff g] show ?thesis by auto
qed

lemma tx_reachable_window:
  assumes "tx_reachable cfg s" "tx_config_ok cfg"
  shows "\<exists>h. window_ok (tx_base cfg) (tx_cap cfg) h (snd s) (fst s) \<and>
    length (TxRing (fst s)) = unat (TxRingSize cfg)"
  using assms
proof (induction rule: tx_reachable.induct)
  case (init ch ctrl)
  then show ?case using init_window [of cfg ch ctrl] by (auto simp: Gmac_Ip_InitTxBD_ring_def Let_def)
next
  case (step s s')
  obtain ch v ch' v' where s: "s = (ch, v)" "s' = (ch', v')" by (cases s, cases s')
  with step tx_step_keeps [of ch v ch' v'] show ?case by fastforce
qed

text \<open>A granted buffer is never one that is granted, in flight or not yet reported.\<close>

lemma grant_is_fresh:
  assumes w: "window_ok base cap h v ch" and g: "get_tx_buff Buff ch = Inr (ch', GMAC_STATUS_SUCCESS, Buff', bid)"
  shows "BufData Buff' \<notin> set (outstanding v)"
proof -
  have "window_ok base cap h (v\<lparr>v_granted := v_granted v @ [BufData Buff']\<rparr>) ch'"
    using get_tx_buff_granted [OF w g] by blast
  then have "distinct (outstanding (v\<lparr>v_granted := v_granted v @ [BufData Buff']\<rparr>))" by (rule outstanding_distinct)
  then show ?thesis by (simp add: outstanding_def)
qed

text \<open>(C37) Exclusive ownership of transmit buffers. In every state that the driver and the DMA can reach from the
  initialised ring, the buffers granted, in flight and waiting for their status are pairwise different and
  at most as many as the ring has descriptors, and a buffer that \<open>Gmac_Ip_GetTxBuff\<close> grants is none of them.
\<close>

theorem tx_ring_exclusive:
  assumes "tx_config_ok cfg" "tx_reachable cfg (ch, v)"
  shows "distinct (outstanding v) \<and> length (outstanding v) \<le> unat (TxRingSize cfg) \<and>
    (\<forall>Buff ch' Buff' bid. get_tx_buff Buff ch = Inr (ch', GMAC_STATUS_SUCCESS, Buff', bid) \<longrightarrow>
       BufData Buff' \<notin> set (outstanding v))"
proof -
  obtain h where w: "window_ok (tx_base cfg) (tx_cap cfg) h v ch" "length (TxRing ch) = unat (TxRingSize cfg)"
    using tx_reachable_window [OF assms(2,1)] by auto
  then show ?thesis using outstanding_distinct [OF w(1)] window_facts(4) [OF w(1)] grant_is_fresh [OF w(1)] by auto
qed

text \<open>A ring of two descriptors over two buffers of 64 bytes, as initialised.\<close>

definition ex_tx_config :: Gmac_Ip_TxRingConfigType where
  "ex_tx_config = \<lparr>TxBuffer = 0x1000, TxInterrupts = 1, TxBufferLen = 1536, TxRingSize = 2, TxDmaBurstLength = 32\<rparr>"

definition ex_channel :: gmac_channel where
  "ex_channel = \<lparr>TxRing = replicate 2 (init_tx_bd ex_tx_config 0), TxCurrentDesc = 0, DMA_TXDESC_TAIL_POINTER = 0,
    DMA_TXDESC_RING_LENGTH = 0, RxRing = [], RxCurrentDesc = 0, RxAllocDesc = 0, DMA_RXDESC_TAIL_POINTER = 0,
    DMA_RXDESC_RING_LENGTH = 0, DMA_CONTROL = 0, DMA_TX_CONTROL = 0, DMA_RX_CONTROL = 0,
    DMA_INTERRUPT_ENABLE = 0, MTL_TXQ_OPERATION_MODE = 0\<rparr>"

definition ex_ready :: gmac_channel where
  "ex_ready = (Gmac_Ip_InitTxBD_ring False ex_tx_config ex_channel)\<lparr>TxCurrentDesc := 0\<rparr>"

lemma ex_tx_config_ok: "tx_config_ok ex_tx_config"
  by (simp add: tx_config_ok_def ex_tx_config_def)

lemma ex_ready_reachable: "tx_reachable ex_tx_config (ex_ready, empty_view)"
  unfolding ex_ready_def by (rule tx_reachable.init) (simp add: ex_channel_def ex_tx_config_def)

theorem tx_ring_exclusive_witness:
  "tx_config_ok ex_tx_config \<and> tx_reachable ex_tx_config (ex_ready, empty_view) \<and>
   distinct (outstanding empty_view) \<and> length (outstanding empty_view) \<le> 2"
  using tx_ring_exclusive [OF ex_tx_config_ok ex_ready_reachable] ex_tx_config_ok ex_ready_reachable
  by (simp add: ex_tx_config_def)

text \<open>(C38) Progress of the transmit ring. In every reachable state a grant for a length that fits succeeds as long
  as fewer buffers are outstanding than the ring has descriptors and is refused as busy otherwise; the oldest
  granted buffer can always be sent (the queue is never reported full), the status of a frame the DMA still owns is busy, and the
  status of the oldest transmitted frame releases it.
\<close>

theorem tx_ring_progress:
  assumes "tx_config_ok cfg" "tx_reachable cfg (ch, v)"
  shows "(length (outstanding v) < unat (TxRingSize cfg) \<and> ucast (BufLength Buff) \<le> tx_cap cfg \<longrightarrow>
       (\<exists>ch' Buff' bid. get_tx_buff Buff ch = Inr (ch', GMAC_STATUS_SUCCESS, Buff', bid) \<and>
          tx_reachable cfg (ch', v\<lparr>v_granted := v_granted v @ [BufData Buff']\<rparr>))) \<and>
    (length (outstanding v) = unat (TxRingSize cfg) \<longrightarrow>
       get_tx_buff Buff ch = Inr (ch, GMAC_STATUS_TX_BUFF_BUSY, Buff, None)) \<and>
    (v_granted v \<noteq> [] \<longrightarrow>
       (\<exists>ch'. send_frame \<lparr>BufData = hd (v_granted v), BufLength = len\<rparr> Options ch = Inr (ch', GMAC_STATUS_SUCCESS))) \<and>
    (BufData Buff \<in> set (v_flying v) \<longrightarrow> get_transmit_status g Buff ch = Inr (ch, GMAC_STATUS_BUSY, None)) \<and>
    (v_done v \<noteq> [] \<longrightarrow>
       (\<exists>ch' info. get_transmit_status g \<lparr>BufData = hd (v_done v), BufLength = len\<rparr> ch =
          Inr (ch', GMAC_STATUS_SUCCESS, Some info) \<and> tx_reachable cfg (ch', v\<lparr>v_done := tl (v_done v)\<rparr>)))"
proof -
  obtain h where w: "window_ok (tx_base cfg) (tx_cap cfg) h v ch" and n: "length (TxRing ch) = unat (TxRingSize cfg)"
    using tx_reachable_window [OF assms(2,1)] by auto
  have "\<exists>ch' Buff' bid. get_tx_buff Buff ch = Inr (ch', GMAC_STATUS_SUCCESS, Buff', bid) \<and>
      tx_reachable cfg (ch', v\<lparr>v_granted := v_granted v @ [BufData Buff']\<rparr>)"
    if room: "length (outstanding v) < unat (TxRingSize cfg)" and fits: "ucast (BufLength Buff) \<le> tx_cap cfg"
  proof -
    obtain ch' Buff' bid where g: "get_tx_buff Buff ch = Inr (ch', GMAC_STATUS_SUCCESS, Buff', bid)"
      using get_tx_buff_grants [OF w _ fits] room n by auto
    with tx_reachable.step [OF assms(2) tx_step.grant [OF g]] show ?thesis by blast
  qed
  moreover have "\<exists>ch'. send_frame \<lparr>BufData = hd (v_granted v), BufLength = len\<rparr> Options ch = Inr (ch', GMAC_STATUS_SUCCESS)"
    if "v_granted v \<noteq> []"
    using send_frame_sends [OF w, of "hd (v_granted v)" "tl (v_granted v)"
        "\<lparr>BufData = hd (v_granted v), BufLength = len\<rparr>" Options] that by auto
  moreover have "\<exists>ch' info. get_transmit_status g \<lparr>BufData = hd (v_done v), BufLength = len\<rparr> ch =
      Inr (ch', GMAC_STATUS_SUCCESS, Some info) \<and> tx_reachable cfg (ch', v\<lparr>v_done := tl (v_done v)\<rparr>)"
    if "v_done v \<noteq> []"
  proof -
    let ?B = "\<lparr>BufData = hd (v_done v), BufLength = len\<rparr>"
    have d: "v_done v = hd (v_done v) # tl (v_done v)" using that by simp
    from status_releases [OF w d, of ?B g] show ?thesis
      using tx_reachable.step [OF assms(2) tx_step.released [OF d, of ?B]] by auto
  qed
  ultimately show ?thesis using get_tx_buff_busy [OF w, of Buff, unfolded n] status_busy [OF w, of Buff g] by blast
qed

theorem tx_ring_progress_witness:
  "tx_config_ok ex_tx_config \<and> tx_reachable ex_tx_config (ex_ready, empty_view) \<and>
   (\<exists>ch' Buff' bid. get_tx_buff \<lparr>BufData = 0, BufLength = 60\<rparr> ex_ready = Inr (ch', GMAC_STATUS_SUCCESS, Buff', bid) \<and>
      tx_reachable ex_tx_config (ch', empty_view\<lparr>v_granted := [BufData Buff']\<rparr>))"
proof -
  have "length (outstanding empty_view) < unat (TxRingSize ex_tx_config) \<and> v_granted empty_view = [] \<and>
      ucast (BufLength \<lparr>BufData = 0, BufLength = 60\<rparr>) \<le> tx_cap ex_tx_config"
    by (simp add: ex_tx_config_def tx_cap_def empty_view_def outstanding_def)
  with tx_ring_progress [OF ex_tx_config_ok ex_ready_reachable, of "\<lparr>BufData = 0, BufLength = 60\<rparr>"]
  show ?thesis using ex_tx_config_ok ex_ready_reachable by auto
qed

section \<open>The MAC address registers\<close>

lemma bit_mask_literals:
  "bit (255 :: int) n \<longleftrightarrow> n < 8" "bit (65535 :: int) n \<longleftrightarrow> n < 16"
  "bit (2147483648 :: int) n \<longleftrightarrow> n = 31" "bit (8388608 :: int) n \<longleftrightarrow> n = 23"
proof -
  have "(255 :: int) = mask 8" "(65535 :: int) = mask 16" "(2147483648 :: int) = 2 ^ 31" "(8388608 :: int) = 2 ^ 23"
    by (simp_all add: mask_eq_exp_minus_1)
  then show "bit (255 :: int) n \<longleftrightarrow> n < 8" "bit (65535 :: int) n \<longleftrightarrow> n < 16"
    "bit (2147483648 :: int) n \<longleftrightarrow> n = 31" "bit (8388608 :: int) n \<longleftrightarrow> n = 23"
    by (simp_all only: bit_mask_iff bit_exp_iff) auto
qed

text \<open>(C39) The MAC address registers keep the address: what \<open>Gmac_Ip_SetMacAddr\<close> packs into the high and low
  register, \<open>Gmac_Ip_GetMacAddr\<close> unpacks to the same six bytes.
\<close>

theorem mac_addr_roundtrip:
  assumes "length a = 6"
  shows "rbind (Gmac_Ip_SetMacAddr 0 a g) (Gmac_Ip_GetMacAddr 0) = Inr a"
proof -
  obtain a0 a1 a2 a3 a4 a5 where a: "a = [a0, a1, a2, a3, a4, a5]"
    using assms(1) by (auto simp: numeral_eq_Suc length_Suc_conv)
  show ?thesis
    unfolding a Gmac_Ip_SetMacAddr_def Gmac_Ip_GetMacAddr_def
    by (simp add: Let_def bit_eq_iff [where ?'a = "8 word"] bit_simps bit_u8_high bit_mask_literals)
qed

definition gmac_reset :: gmac where
  "gmac_reset = \<lparr>gm_state_valid = False, TxRingCount = 0, RxRingCount = 0, Ch = [], DMA_MODE = 0,
    MAC_PMT_CONTROL_STATUS = 0, MAC_CONFIGURATION = 0, MAC_ADDRESS0_HIGH = 0, MAC_ADDRESS0_LOW = 0,
    MAC_SYSTEM_TIME_SECONDS = 0, MAC_SYSTEM_TIME_HIGHER_WORD_SECONDS = 0\<rparr>"

theorem mac_addr_roundtrip_witness:
  "length [0x00, 0x11, 0x22, 0x33, 0x44, 0x66 :: u8] = 6 \<and>
   rbind (Gmac_Ip_SetMacAddr 0 [0x00, 0x11, 0x22, 0x33, 0x44, 0x66] gmac_reset) (Gmac_Ip_GetMacAddr 0) =
     Inr [0x00, 0x11, 0x22, 0x33, 0x44, 0x66]"
  using mac_addr_roundtrip [of "[0x00, 0x11, 0x22, 0x33, 0x44, 0x66]" gmac_reset] by simp

end
