(* ===== verification/Eth_Driver.thy ===== *)
theory Eth_Driver
  imports Gmac_Ring
begin

text \<open>
  The AUTOSAR Ethernet driver over the GMAC rings: \<open>RTD/src/Eth.c\<close> (buffer requests, transmission,
  transmission reports, reception) and the wrapper \<open>RTD/src/Eth_Ipw.c\<close>, with the callbacks of
  \<open>RTD/src/EthIf_Cbk.c\<close>. There is one controller. Frame buffers live in a byte-addressed memory; a null
  pointer is the address 0. A pointer to an entry of \<open>Eth_axTxBufferIdxMap\<close> is the index of the entry,
  or \<open>None\<close> for a null pointer.
\<close>

section \<open>State\<close>

datatype Std_ReturnType = E_OK | E_NOT_OK

datatype BufReq_ReturnType = BUFREQ_OK | BUFREQ_E_NOT_OK | BUFREQ_E_BUSY | BUFREQ_E_OVFL

datatype Eth_ModeType = ETH_MODE_DOWN | ETH_MODE_ACTIVE

datatype Eth_StateType = ETH_STATE_UNINIT | ETH_STATE_INIT

datatype Eth_RxStatusType = ETH_NOT_RECEIVED | ETH_RECEIVED | ETH_RECEIVED_MORE_DATA_AVAILABLE

datatype Eth_Error =
  ETH_E_INV_CTRL_IDX | ETH_E_UNINIT | ETH_E_PARAM_POINTER | ETH_E_INV_PARAM | ETH_E_INV_MODE

abbreviation "ETH_MAX_CTRLIDX_SUPPORTED \<equiv> (1 :: u8)"
abbreviation "ETH_MAX_TXFIFO_SUPPORTED \<equiv> (3 :: u8)"
abbreviation "ETH_FRAME_HEADER_LENGTH \<equiv> (14 :: u16)"
abbreviation "ETH_SID_PROVIDETXBUFFER \<equiv> (0x09 :: u8)"
abbreviation "ETH_SID_TRANSMIT \<equiv> (0x0A :: u8)"
abbreviation "ETH_SID_RECEIVE \<equiv> (0x0B :: u8)"
abbreviation "ETH_SID_TXCONFIRMATION \<equiv> (0x0C :: u8)"
abbreviation "ETH_SID_SETCONTROLLERMODE \<equiv> (0x03 :: u8)"
abbreviation "ETH_SID_GETCONTROLLERMODE \<equiv> (0x04 :: u8)"
abbreviation "ETH_SID_SETPHYSADDR \<equiv> (0x13 :: u8)"
abbreviation "ETH_SID_GETPHYSADDR \<equiv> (0x08 :: u8)"

record Eth_axTxBufferIdxMapType =
  FifoIdx :: u8
  pu8BufferData :: u32
  bTxConfirmation :: bool
  pNextBuffer :: "nat option"

record Eth_QueueInfo =
  pQueueHead :: "nat option"
  pQueueTail :: "nat option"

record Eth_CtrlCfgType =
  VlanPcpToFifoIdx :: "u8 list"
  BufferCount :: u32
  FifoCount :: u8

text \<open>
  \<open>Eth_apxInternalCfg\<close> is the configuration pointer: \<open>None\<close> before \<open>Eth_Init\<close>, then one optional
  controller configuration per index. \<open>det_log\<close> are the calls of \<open>Det_ReportError\<close> (service and
  error), \<open>tx_confirmed\<close> the calls of \<open>EthIf_TxConfirmation\<close> (buffer index and result), \<open>rx_indicated\<close> those of
  \<open>EthIf_RxIndication\<close> (frame type, broadcast, source address, payload).
\<close>

record eth =
  eth_gmac :: gmac
  eth_mem :: mem
  Eth_apxInternalCfg :: "Eth_CtrlCfgType option list option"
  Eth_axCtrlState :: Eth_StateType
  Eth_axTxBufferIdxMap :: "Eth_axTxBufferIdxMapType list"
  Eth_axTransmissionRequests :: "Eth_QueueInfo list"
  Eth_Ipw_axFirstTxBufferIdxInFifo :: "u32 list"
  Eth_Ipw_axRxFrameBuffer :: "Gmac_Ip_BufferType list"
  Eth_Ipw_axRxFrameInfo :: "Gmac_Ip_RxInfoType list"
  EthIf_TxConfirmations :: u32
  EthIf_RxIndications :: u32
  EthIf_ChecksumValue :: u16
  det_log :: "(u8 \<times> Eth_Error) list"
  tx_confirmed :: "(u32 \<times> Std_ReturnType) list"
  rx_indicated :: "(u16 \<times> bool \<times> u8 list \<times> u8 list) list"

definition Det_ReportError :: "u8 \<Rightarrow> Eth_Error \<Rightarrow> eth \<Rightarrow> eth" where
  "Det_ReportError sid err s = s\<lparr>det_log := det_log s @ [(sid, err)]\<rparr>"

definition ctrl_config :: "u8 \<Rightarrow> eth \<Rightarrow> Eth_CtrlCfgType option" where
  "ctrl_config CtrlIdx s =
    (case Eth_apxInternalCfg s of None \<Rightarrow> None
     | Some cfgs \<Rightarrow> if unat CtrlIdx < length cfgs then cfgs ! unat CtrlIdx else None)"

section \<open>The wrapper\<close>

definition Eth_Ipw_GetControllerMode :: "u8 \<Rightarrow> eth \<Rightarrow> Eth_ModeType res" where
  "Eth_Ipw_GetControllerMode CtrlIdx s =
    rbind (Gmac_Ip_GetPowerState CtrlIdx (eth_gmac s)) (\<lambda>p.
    Inr (if p = GMAC_PSTATE_ACTIVE then ETH_MODE_ACTIVE else ETH_MODE_DOWN))"

definition Eth_Ipw_GetPhysicalAddress :: "u8 \<Rightarrow> eth \<Rightarrow> u8 list res" where
  "Eth_Ipw_GetPhysicalAddress CtrlIdx s = Gmac_Ip_GetMacAddr CtrlIdx (eth_gmac s)"

definition Eth_Ipw_SetPhysicalAddress :: "u8 \<Rightarrow> u8 list \<Rightarrow> eth \<Rightarrow> eth res" where
  "Eth_Ipw_SetPhysicalAddress CtrlIdx addr s =
    rbind (Gmac_Ip_SetMacAddr CtrlIdx addr (eth_gmac s)) (\<lambda>g. Inr (s\<lparr>eth_gmac := g\<rparr>))"

definition Eth_Ipw_EnableController :: "eth \<Rightarrow> (eth \<times> Std_ReturnType) res" where
  "Eth_Ipw_EnableController s =
    rbind (Gmac_Ip_EnableController (eth_gmac s)) (\<lambda>g. Inr (s\<lparr>eth_gmac := g\<rparr>, E_OK))"

definition Eth_Ipw_DisableController ::
  "(nat \<Rightarrow> bool) \<Rightarrow> (nat \<Rightarrow> bool) \<Rightarrow> eth \<Rightarrow> (eth \<times> Std_ReturnType) res" where
  "Eth_Ipw_DisableController tx_timed_out rx_timed_out s =
    rbind (Gmac_Ip_DisableController tx_timed_out rx_timed_out (eth_gmac s)) (\<lambda>(g, st).
    Inr (s\<lparr>eth_gmac := g\<rparr>, if st = GMAC_STATUS_SUCCESS then E_OK else E_NOT_OK))"

text \<open>The result carries \<open>Some (BufferIdx, FrameBuffer)\<close> when those out-parameters are written, and the granted length.\<close>

definition Eth_Ipw_ProvideTxBuffer :: "u8 \<Rightarrow> u8 \<Rightarrow> u16 \<Rightarrow> eth \<Rightarrow>
    (eth \<times> BufReq_ReturnType \<times> (u32 \<times> u32) option \<times> u16) res" where
  "Eth_Ipw_ProvideTxBuffer CtrlIdx Fifo FrameLength s =
    rbind (Gmac_Ip_GetTxBuff CtrlIdx Fifo \<lparr>BufData = 0, BufLength = FrameLength\<rparr> (eth_gmac s)) (\<lambda>(g, st, buff, within).
    let s1 = s\<lparr>eth_gmac := g\<rparr>
    in (case st of
          GMAC_STATUS_SUCCESS \<Rightarrow>
            (if unat Fifo < length (Eth_Ipw_axFirstTxBufferIdxInFifo s)
             then (case within of
                     None \<Rightarrow> Inr (s1, BUFREQ_OK, None, BufLength buff)
                   | Some i \<Rightarrow> Inr (s1, BUFREQ_OK,
                       Some (Eth_Ipw_axFirstTxBufferIdxInFifo s ! unat Fifo + ucast i, BufData buff), BufLength buff))
             else Inl OutOfBounds)
        | GMAC_STATUS_TX_BUFF_BUSY \<Rightarrow> Inr (s1, BUFREQ_E_BUSY, None, BufLength buff)
        | GMAC_STATUS_TX_BUFF_OVERFLOW \<Rightarrow> Inr (s1, BUFREQ_E_OVFL, None, BufLength buff)
        | _ \<Rightarrow> Inr (s1, BUFREQ_E_NOT_OK, None, BufLength buff)))"

text \<open>\<open>GMAC_CRC_AND_PAD_INSERTION\<close> and \<open>GMAC_CHECKSUM_INSERTION_DISABLE\<close> are 0; checksum offload is off.\<close>

definition ipw_tx_options :: Gmac_Ip_TxOptionsType where
  "ipw_tx_options = \<lparr>NoInt = False, CrcPadIns = 0, ChecksumIns = 0\<rparr>"

definition Eth_Ipw_Transmit :: "u8 \<Rightarrow> u8 \<Rightarrow> u32 \<Rightarrow> u16 \<Rightarrow> eth \<Rightarrow> (eth \<times> Std_ReturnType) res" where
  "Eth_Ipw_Transmit CtrlIdx Fifo Buffer Length s =
    rbind (Gmac_Ip_SendFrame CtrlIdx Fifo \<lparr>BufData = Buffer, BufLength = Length\<rparr> (Some ipw_tx_options) (eth_gmac s))
      (\<lambda>(g, st). Inr (s\<lparr>eth_gmac := g\<rparr>, if st = GMAC_STATUS_SUCCESS then E_OK else E_NOT_OK))"

text \<open>The second component of the result is \<open>FrameHasError\<close>, written only on success.\<close>

definition Eth_Ipw_GetTransmissionStatus :: "u8 \<Rightarrow> u8 \<Rightarrow> u32 \<Rightarrow> eth \<Rightarrow> (eth \<times> Std_ReturnType \<times> bool option) res" where
  "Eth_Ipw_GetTransmissionStatus CtrlIdx Fifo Buffer s =
    rbind (Gmac_Ip_GetTransmitStatus CtrlIdx Fifo \<lparr>BufData = Buffer, BufLength = 0\<rparr> (eth_gmac s)) (\<lambda>(g, st, info).
    Inr (s\<lparr>eth_gmac := g\<rparr>,
         if st = GMAC_STATUS_SUCCESS then E_OK else E_NOT_OK,
         if st = GMAC_STATUS_SUCCESS then map_option (\<lambda>i. TxErrMask i \<noteq> 0) info else None))"

text \<open>The index of the first buffer of each FIFO: running sums of the ring sizes.\<close>

fun first_tx_buffer_idx :: "u32 \<Rightarrow> Gmac_Ip_TxRingConfigType list \<Rightarrow> u32 list" where
  "first_tx_buffer_idx n [] = []"
| "first_tx_buffer_idx n (c # cs) = n # first_tx_buffer_idx (n + ucast (TxRingSize c)) cs"

section \<open>Requesting a buffer and transmitting it\<close>

definition Eth_Local_CheckEthHLDEntry :: "u8 \<Rightarrow> u8 \<Rightarrow> eth \<Rightarrow> eth \<times> Std_ReturnType" where
  "Eth_Local_CheckEthHLDEntry CtrlIdx sid s =
    (if Eth_apxInternalCfg s = None then (Det_ReportError sid ETH_E_UNINIT s, E_NOT_OK)
     else if CtrlIdx \<ge> ETH_MAX_CTRLIDX_SUPPORTED \<or> ctrl_config CtrlIdx s = None
     then (Det_ReportError sid ETH_E_INV_CTRL_IDX s, E_NOT_OK)
     else if Eth_axCtrlState s \<noteq> ETH_STATE_INIT then (Det_ReportError sid ETH_E_UNINIT s, E_NOT_OK)
     else (s, E_OK))"

text \<open>
  \<open>Some\<close> in the result are the out-parameters \<open>*BufIdxPtr\<close> and \<open>*BufPtr\<close> when they are written; the last
  component is \<open>*LenBytePtr\<close> after the call. The pointer arguments are valid.
\<close>

definition Eth_ProvideTxBuffer :: "u8 \<Rightarrow> u8 \<Rightarrow> u16 \<Rightarrow> eth \<Rightarrow>
    (eth \<times> BufReq_ReturnType \<times> (u32 \<times> u32) option \<times> u16) res" where
  "Eth_ProvideTxBuffer CtrlIdx Priority LenByte s =
    (case Eth_Local_CheckEthHLDEntry CtrlIdx ETH_SID_PROVIDETXBUFFER s of
       (s0, E_NOT_OK) \<Rightarrow> Inr (s0, BUFREQ_E_NOT_OK, None, LenByte)
     | (s0, E_OK) \<Rightarrow>
         (if LenByte > 65535 - ETH_FRAME_HEADER_LENGTH then Inr (s0, BUFREQ_E_OVFL, None, LenByte)
          else let cfg = the (ctrl_config CtrlIdx s0)
               in if unat Priority < length (VlanPcpToFifoIdx cfg)
                  then let fifo = VlanPcpToFifoIdx cfg ! unat Priority
                       in rbind (Eth_Ipw_ProvideTxBuffer CtrlIdx fifo (LenByte + ETH_FRAME_HEADER_LENGTH) s0)
                          (\<lambda>(s1, st, granted, FrameLength).
                          let len = FrameLength - ETH_FRAME_HEADER_LENGTH
                          in (case (st, granted) of
                                (BUFREQ_OK, Some (idx, buf)) \<Rightarrow>
                                  (if unat idx < length (Eth_axTxBufferIdxMap s1)
                                   then Inr (s1\<lparr>Eth_axTxBufferIdxMap := (Eth_axTxBufferIdxMap s1)[unat idx :=
                                               (Eth_axTxBufferIdxMap s1 ! unat idx)\<lparr>FifoIdx := fifo, pu8BufferData := buf\<rparr>]\<rparr>,
                                             BUFREQ_OK, Some (idx, buf + 14), len)
                                   else Inl OutOfBounds)
                              | _ \<Rightarrow> Inr (s1, st, None, len)))
                  else Inl OutOfBounds))"

text \<open>\<open>Eth_Local_Memcpy\<close> copies the last byte first; \<open>n\<close> counts down as \<open>TempVar\<close> does.\<close>

fun Eth_Local_Memcpy :: "nat \<Rightarrow> u32 \<Rightarrow> u8 list \<Rightarrow> mem \<Rightarrow> mem" where
  "Eth_Local_Memcpy 0 dst src m = m"
| "Eth_Local_Memcpy (Suc n) dst src m = Eth_Local_Memcpy n dst src (m(dst + of_nat n := src ! n))"

definition Eth_Local_Macro_Htons :: "u16 \<Rightarrow> u16" where
  "Eth_Local_Macro_Htons v = push_bit 8 (v AND 0xFF) OR drop_bit 8 (v AND 0xFF00)"

text \<open>The two bytes of a 16-bit variable in memory, on the little-endian core.\<close>

definition u16_bytes :: "u16 \<Rightarrow> u8 list" where
  "u16_bytes v = [ucast v, ucast (drop_bit 8 v)]"

definition write_eth_header :: "u32 \<Rightarrow> u8 list \<Rightarrow> u8 list \<Rightarrow> u16 \<Rightarrow> mem \<Rightarrow> mem" where
  "write_eth_header buf dst src FrameType m =
    Eth_Local_Memcpy 2 (buf + 12) (u16_bytes (Eth_Local_Macro_Htons FrameType))
      (Eth_Local_Memcpy 6 (buf + 6) src (Eth_Local_Memcpy 6 buf dst m))"

text \<open>Appending an entry to the list of pending requests of a FIFO.\<close>

definition enqueue_request :: "nat \<Rightarrow> nat \<Rightarrow> eth \<Rightarrow> eth res" where
  "enqueue_request f i s =
    (if f < length (Eth_axTransmissionRequests s) \<and> i < length (Eth_axTxBufferIdxMap s)
     then let q = Eth_axTransmissionRequests s ! f; m = Eth_axTxBufferIdxMap s
          in rbind (case pQueueHead q of
                      None \<Rightarrow> Inr (m, q\<lparr>pQueueHead := Some i, pQueueTail := Some i\<rparr>)
                    | Some h \<Rightarrow>
                        (case pQueueTail q of
                           None \<Rightarrow> Inl OutOfBounds
                         | Some t \<Rightarrow> if t < length m then Inr (m[t := (m ! t)\<lparr>pNextBuffer := Some i\<rparr>], q\<lparr>pQueueTail := Some i\<rparr>)
                                     else Inl OutOfBounds))
             (\<lambda>(m1, q1). Inr (s\<lparr>Eth_axTxBufferIdxMap := m1[i := (m1 ! i)\<lparr>pNextBuffer := None\<rparr>],
                                Eth_axTransmissionRequests := (Eth_axTransmissionRequests s)[f := q1]\<rparr>))
     else Inl OutOfBounds)"

definition Eth_Transmit :: "u8 \<Rightarrow> u32 \<Rightarrow> u16 \<Rightarrow> bool \<Rightarrow> u16 \<Rightarrow> u8 list \<Rightarrow> eth \<Rightarrow> (eth \<times> Std_ReturnType) res" where
  "Eth_Transmit CtrlIdx BufIdx FrameType TxConfirmation LenByte PhysAddr s =
    (case Eth_Local_CheckEthHLDEntry CtrlIdx ETH_SID_TRANSMIT s of
       (s0, E_NOT_OK) \<Rightarrow> Inr (s0, E_NOT_OK)
     | (s0, E_OK) \<Rightarrow>
         rbind (Eth_Ipw_GetControllerMode CtrlIdx s0) (\<lambda>mode.
         if mode \<noteq> ETH_MODE_ACTIVE then Inr (Det_ReportError ETH_SID_TRANSMIT ETH_E_INV_MODE s0, E_NOT_OK)
         else if BufIdx \<ge> BufferCount (the (ctrl_config CtrlIdx s0))
         then Inr (Det_ReportError ETH_SID_TRANSMIT ETH_E_INV_PARAM s0, E_NOT_OK)
         else if \<not> unat BufIdx < length (Eth_axTxBufferIdxMap s0) then Inl OutOfBounds
         else let e = Eth_axTxBufferIdxMap s0 ! unat BufIdx
         in if pu8BufferData e = 0 then Inr (Det_ReportError ETH_SID_TRANSMIT ETH_E_INV_PARAM s0, E_NOT_OK)
         else if length PhysAddr < 6 then Inl OutOfBounds
         else rbind (Eth_Ipw_GetPhysicalAddress CtrlIdx s0) (\<lambda>src.
         let s1 = s0\<lparr>Eth_axTxBufferIdxMap := (Eth_axTxBufferIdxMap s0)[unat BufIdx := e\<lparr>bTxConfirmation := TxConfirmation\<rparr>],
                     eth_mem := write_eth_header (pu8BufferData e) PhysAddr src FrameType (eth_mem s0)\<rparr>
         in rbind (enqueue_request (unat (FifoIdx e)) (unat BufIdx) s1) (\<lambda>s2.
            Eth_Ipw_Transmit CtrlIdx (FifoIdx e) (pu8BufferData e) (LenByte + ETH_FRAME_HEADER_LENGTH) s2))))"

section \<open>Transmission reports\<close>

definition EthIf_TxConfirmation :: "u32 \<Rightarrow> Std_ReturnType \<Rightarrow> eth \<Rightarrow> eth" where
  "EthIf_TxConfirmation BufIdx Result s =
    s\<lparr>EthIf_TxConfirmations := EthIf_TxConfirmations s + 1, tx_confirmed := tx_confirmed s @ [(BufIdx, Result)]\<rparr>"

text \<open>
  One request of \<open>Eth_ReportTransmission\<close>: the status of the buffer of entry \<open>i\<close> is read; when it has been
  transmitted the upper layer is told, the entry is cleared and leaves the head of the list.
\<close>

definition report_one :: "u8 \<Rightarrow> u8 \<Rightarrow> nat \<Rightarrow> eth \<Rightarrow> (eth \<times> Std_ReturnType) res" where
  "report_one CtrlIdx Fifo i s =
    (if i < length (Eth_axTxBufferIdxMap s) \<and> unat Fifo < length (Eth_axTransmissionRequests s)
     then rbind (Eth_Ipw_GetTransmissionStatus CtrlIdx Fifo (pu8BufferData (Eth_axTxBufferIdxMap s ! i)) s) (\<lambda>(s1, st, err).
          let e = Eth_axTxBufferIdxMap s1 ! i;
              f = unat Fifo
          in if st = E_OK
             then let s2 = (if bTxConfirmation e
                            then EthIf_TxConfirmation (of_nat i) (if err = Some True then E_NOT_OK else E_OK) s1 else s1)
                  in Inr (s2\<lparr>Eth_axTxBufferIdxMap := (Eth_axTxBufferIdxMap s2)[i := e\<lparr>pu8BufferData := 0\<rparr>],
                             Eth_axTransmissionRequests := (Eth_axTransmissionRequests s2)[f :=
                               (Eth_axTransmissionRequests s2 ! f)\<lparr>pQueueHead := pNextBuffer e\<rparr>]\<rparr>, E_OK)
             else Inr (s1, E_NOT_OK))
     else Inl OutOfBounds)"

text \<open>
  The loop over the list. A well-formed list has no more entries than the map, so the number of rounds
  allowed, one more than the map has entries, is never used up.
\<close>

fun report_loop :: "nat \<Rightarrow> u8 \<Rightarrow> u8 \<Rightarrow> nat option \<Rightarrow> eth \<Rightarrow> eth res" where
  "report_loop fuel CtrlIdx Fifo None s = Inr s"
| "report_loop 0 CtrlIdx Fifo (Some i) s = Inl NoExit"
| "report_loop (Suc fuel) CtrlIdx Fifo (Some i) s =
    rbind (report_one CtrlIdx Fifo i s) (\<lambda>(s1, st).
    if st = E_OK then report_loop fuel CtrlIdx Fifo (pNextBuffer (Eth_axTxBufferIdxMap s1 ! i)) s1 else Inr s1)"

definition Eth_ReportTransmission :: "u8 \<Rightarrow> u8 \<Rightarrow> eth \<Rightarrow> eth res" where
  "Eth_ReportTransmission CtrlIdx Fifo s =
    (if Fifo < ETH_MAX_TXFIFO_SUPPORTED
     then if unat Fifo < length (Eth_axTransmissionRequests s)
          then report_loop (Suc (length (Eth_axTxBufferIdxMap s))) CtrlIdx Fifo
                 (pQueueHead (Eth_axTransmissionRequests s ! unat Fifo)) s
          else Inl OutOfBounds
     else Inr s)"

fun report_fifos :: "nat \<Rightarrow> u8 \<Rightarrow> u8 \<Rightarrow> eth \<Rightarrow> eth res" where
  "report_fifos 0 CtrlIdx f s = Inr s"
| "report_fifos (Suc n) CtrlIdx f s = rbind (Eth_ReportTransmission CtrlIdx f s) (report_fifos n CtrlIdx (f + 1))"

definition Eth_TxConfirmation :: "u8 \<Rightarrow> eth \<Rightarrow> eth res" where
  "Eth_TxConfirmation CtrlIdx s =
    (case Eth_Local_CheckEthHLDEntry CtrlIdx ETH_SID_TXCONFIRMATION s of
       (s0, E_NOT_OK) \<Rightarrow> Inr s0
     | (s0, E_OK) \<Rightarrow>
         rbind (Eth_Ipw_GetControllerMode CtrlIdx s0) (\<lambda>mode.
         if mode \<noteq> ETH_MODE_ACTIVE then Inr (Det_ReportError ETH_SID_TXCONFIRMATION ETH_E_INV_MODE s0)
         else report_fifos (unat (FifoCount (the (ctrl_config CtrlIdx s0)))) CtrlIdx 0 s0))"

definition Eth_TxIrqCallback :: "u8 \<Rightarrow> u8 \<Rightarrow> eth \<Rightarrow> eth res" where
  "Eth_TxIrqCallback CtrlIdx DMAChannel s = Eth_ReportTransmission CtrlIdx DMAChannel s"

section \<open>Reception\<close>

definition Eth_Ipw_ReceiveFrame :: "u8 \<Rightarrow> u8 \<Rightarrow> eth \<Rightarrow> (eth \<times> Eth_RxStatusType \<times> u32 \<times> u16 \<times> bool) res" where
  "Eth_Ipw_ReceiveFrame CtrlIdx Fifo s =
    (if unat Fifo < length (Eth_Ipw_axRxFrameBuffer s) \<and> unat Fifo < length (Eth_Ipw_axRxFrameInfo s)
     then rbind (Gmac_Ip_ReadFrame CtrlIdx Fifo (Eth_Ipw_axRxFrameBuffer s ! unat Fifo) (Eth_Ipw_axRxFrameInfo s ! unat Fifo) (eth_gmac s))
          (\<lambda>(g, st, buff, info).
          let s1 = s\<lparr>eth_gmac := g,
                     Eth_Ipw_axRxFrameBuffer := (Eth_Ipw_axRxFrameBuffer s)[unat Fifo := buff],
                     Eth_Ipw_axRxFrameInfo := (Eth_Ipw_axRxFrameInfo s)[unat Fifo := info]\<rparr>
          in if st = GMAC_STATUS_RX_QUEUE_EMPTY then Inr (s1, ETH_NOT_RECEIVED, 0, 0, False)
             else rbind (Gmac_Ip_IsFrameAvailable CtrlIdx Fifo g) (\<lambda>(g', more).
                  Inr (s1, if more then ETH_RECEIVED_MORE_DATA_AVAILABLE else ETH_RECEIVED,
                       BufData buff, PktLen info, RxErrMask info \<noteq> 0)))
     else Inl OutOfBounds)"

definition Eth_Ipw_ReleaseResources :: "u8 \<Rightarrow> u8 \<Rightarrow> eth \<Rightarrow> eth res" where
  "Eth_Ipw_ReleaseResources CtrlIdx Fifo s =
    (if unat Fifo < length (Eth_Ipw_axRxFrameBuffer s)
     then rbind (Gmac_Ip_ProvideRxBuff CtrlIdx Fifo (Eth_Ipw_axRxFrameBuffer s ! unat Fifo) (eth_gmac s)) (\<lambda>(g, _).
          Inr (s\<lparr>eth_gmac := g, Eth_Ipw_axRxFrameBuffer := (Eth_Ipw_axRxFrameBuffer s)[unat Fifo :=
                   (Eth_Ipw_axRxFrameBuffer s ! unat Fifo)\<lparr>BufData := 0\<rparr>]\<rparr>))
     else Inl OutOfBounds)"

definition Eth_Local_IsBroadcastFrame :: "u8 list \<Rightarrow> bool" where
  "Eth_Local_IsBroadcastFrame PhyAddr \<longleftrightarrow> take 6 PhyAddr = replicate 6 0xFF"

text \<open>The stub callback counts the indication and stores the 16-bit word at offset 10 of the payload.\<close>

definition EthIf_RxIndication :: "u16 \<Rightarrow> bool \<Rightarrow> u32 \<Rightarrow> u32 \<Rightarrow> u16 \<Rightarrow> eth \<Rightarrow> eth" where
  "EthIf_RxIndication FrameType IsBroadcast PhysAddrPtr DataPtr LenByte s =
    s\<lparr>EthIf_RxIndications := EthIf_RxIndications s + 1,
      EthIf_ChecksumValue := ucast (eth_mem s (DataPtr + 10)) OR push_bit 8 (ucast (eth_mem s (DataPtr + 11))),
      rx_indicated := rx_indicated s @
        [(FrameType, IsBroadcast, mem_read (eth_mem s) PhysAddrPtr 6, mem_read (eth_mem s) DataPtr (unat LenByte))]\<rparr>"

text \<open>The third component of the result is \<open>*RxStatusPtr\<close> after the call.\<close>

definition Eth_Receive :: "u8 \<Rightarrow> u8 \<Rightarrow> Eth_RxStatusType \<Rightarrow> eth \<Rightarrow> (eth \<times> Eth_RxStatusType) res" where
  "Eth_Receive CtrlIdx Fifo RxStatus s =
    (case Eth_Local_CheckEthHLDEntry CtrlIdx ETH_SID_RECEIVE s of
       (s0, E_NOT_OK) \<Rightarrow> Inr (s0, RxStatus)
     | (s0, E_OK) \<Rightarrow>
         rbind (Eth_Ipw_GetControllerMode CtrlIdx s0) (\<lambda>mode.
         if mode \<noteq> ETH_MODE_ACTIVE then Inr (Det_ReportError ETH_SID_RECEIVE ETH_E_INV_MODE s0, RxStatus)
         else rbind (Eth_Ipw_ReceiveFrame CtrlIdx Fifo s0) (\<lambda>(s1, st, frame, len, err).
           let m = eth_mem s1;
               FrameType = (ucast (m (frame + 13)) :: u16) OR push_bit 8 (ucast (m (frame + 12)));
               s2 = (if st \<noteq> ETH_NOT_RECEIVED \<and> \<not> err
                     then EthIf_RxIndication FrameType (Eth_Local_IsBroadcastFrame (mem_read m frame 6))
                            (frame + 6) (frame + 14) (len - ETH_FRAME_HEADER_LENGTH) s1
                     else s1)
           in if st \<noteq> ETH_NOT_RECEIVED then rbind (Eth_Ipw_ReleaseResources CtrlIdx Fifo s2) (\<lambda>s3. Inr (s3, st))
              else Inr (s2, st))))"

section \<open>Controller mode and physical address\<close>

fun clear_requests :: "nat \<Rightarrow> nat option \<Rightarrow> Eth_axTxBufferIdxMapType list \<Rightarrow> Eth_axTxBufferIdxMapType list res" where
  "clear_requests fuel None m = Inr m"
| "clear_requests 0 (Some i) m = Inl NoExit"
| "clear_requests (Suc fuel) (Some i) m =
    (if i < length m then clear_requests fuel (pNextBuffer (m ! i)) (m[i := (m ! i)\<lparr>pu8BufferData := 0\<rparr>])
     else Inl OutOfBounds)"

fun clear_fifos :: "nat \<Rightarrow> nat \<Rightarrow> eth \<Rightarrow> eth res" where
  "clear_fifos 0 f s = Inr s"
| "clear_fifos (Suc n) f s =
    (if f < length (Eth_axTransmissionRequests s)
     then rbind (clear_requests (Suc (length (Eth_axTxBufferIdxMap s))) (pQueueHead (Eth_axTransmissionRequests s ! f))
                   (Eth_axTxBufferIdxMap s)) (\<lambda>m.
          clear_fifos n (Suc f) (s\<lparr>Eth_axTxBufferIdxMap := m,
             Eth_axTransmissionRequests := (Eth_axTransmissionRequests s)[f :=
               (Eth_axTransmissionRequests s ! f)\<lparr>pQueueHead := None\<rparr>]\<rparr>))
     else Inl OutOfBounds)"

definition Eth_SetControllerMode ::
  "(nat \<Rightarrow> bool) \<Rightarrow> (nat \<Rightarrow> bool) \<Rightarrow> u8 \<Rightarrow> Eth_ModeType \<Rightarrow> eth \<Rightarrow> (eth \<times> Std_ReturnType) res" where
  "Eth_SetControllerMode tx_timed_out rx_timed_out CtrlIdx CtrlMode s =
    (case Eth_Local_CheckEthHLDEntry CtrlIdx ETH_SID_SETCONTROLLERMODE s of
       (s0, E_NOT_OK) \<Rightarrow> Inr (s0, E_NOT_OK)
     | (s0, E_OK) \<Rightarrow>
         (if CtrlMode = ETH_MODE_ACTIVE then Eth_Ipw_EnableController s0
          else rbind (clear_fifos (unat (FifoCount (the (ctrl_config CtrlIdx s0)))) 0 s0)
                 (Eth_Ipw_DisableController tx_timed_out rx_timed_out)))"

text \<open>The entry checks of the getters come in a different order: the out-pointer before the state. It is valid here.\<close>

definition Eth_GetControllerMode :: "u8 \<Rightarrow> eth \<Rightarrow> (eth \<times> Std_ReturnType \<times> Eth_ModeType option) res" where
  "Eth_GetControllerMode CtrlIdx s =
    (case Eth_Local_CheckEthHLDEntry CtrlIdx ETH_SID_GETCONTROLLERMODE s of
       (s0, E_NOT_OK) \<Rightarrow> Inr (s0, E_NOT_OK, None)
     | (s0, E_OK) \<Rightarrow> rbind (Eth_Ipw_GetControllerMode CtrlIdx s0) (\<lambda>m. Inr (s0, E_OK, Some m)))"

definition Eth_GetPhysAddr :: "u8 \<Rightarrow> eth \<Rightarrow> (eth \<times> u8 list option) res" where
  "Eth_GetPhysAddr CtrlIdx s =
    (case Eth_Local_CheckEthHLDEntry CtrlIdx ETH_SID_GETPHYSADDR s of
       (s0, E_NOT_OK) \<Rightarrow> Inr (s0, None)
     | (s0, E_OK) \<Rightarrow> rbind (Eth_Ipw_GetPhysicalAddress CtrlIdx s0) (\<lambda>a. Inr (s0, Some a)))"

definition Eth_SetPhysAddr :: "u8 \<Rightarrow> u8 list \<Rightarrow> eth \<Rightarrow> eth res" where
  "Eth_SetPhysAddr CtrlIdx addr s =
    (case Eth_Local_CheckEthHLDEntry CtrlIdx ETH_SID_SETPHYSADDR s of
       (s0, E_NOT_OK) \<Rightarrow> Inr s0
     | (s0, E_OK) \<Rightarrow> Eth_Ipw_SetPhysicalAddress CtrlIdx addr s0)"

end
