(* ===== verification/Eth_Fifo.thy ===== *)
theory Eth_Fifo
  imports Eth_Driver
begin

text \<open>
  The transmit FIFOs of the Ethernet driver in a consistent state: the ring of descriptors, the map from buffer
  indices to buffers and the list of pending requests agree. Requesting a buffer, transmitting it, its
  completion by the DMA and the transmission report keep the agreement; the frame that the DMA finds is the one
  the caller built.
\<close>

section \<open>A FIFO of the driver in a consistent state\<close>

fun chain :: "Eth_axTxBufferIdxMapType list \<Rightarrow> nat list \<Rightarrow> bool" where
  "chain m [] \<longleftrightarrow> True"
| "chain m [i] \<longleftrightarrow> pNextBuffer (m ! i) = None"
| "chain m (i # j # is) \<longleftrightarrow> pNextBuffer (m ! i) = Some j \<and> chain m (j # is)"

lemma chain_cong: "(\<And>i. i \<in> set is \<Longrightarrow> pNextBuffer (m ! i) = pNextBuffer (m' ! i)) \<Longrightarrow> chain m is = chain m' is"
  by (induction m "is" rule: chain.induct) auto

lemma chain_Cons: "chain m (i # is) \<longleftrightarrow> pNextBuffer (m ! i) = (case is of [] \<Rightarrow> None | j # _ \<Rightarrow> Some j) \<and> chain m is"
  by (cases "is") auto

lemma chain_snoc:
  assumes "chain m is" "distinct (is @ [i])" "\<And>j. j \<in> set (is @ [i]) \<Longrightarrow> j < length m" "is \<noteq> []"
  shows "chain ((m[last is := (m ! last is)\<lparr>pNextBuffer := Some i\<rparr>])[i := x\<lparr>pNextBuffer := None\<rparr>]) (is @ [i])"
  using assms
proof (induction "is")
  case Nil
  then show ?case by simp
next
  case (Cons j js)
  show ?case
  proof (cases "js = []")
    case True
    with Cons.prems show ?thesis by simp
  next
    case False
    have "chain ((m[last js := (m ! last js)\<lparr>pNextBuffer := Some i\<rparr>])[i := x\<lparr>pNextBuffer := None\<rparr>]) (js @ [i])"
      using Cons False by (auto simp: chain_Cons)
    moreover have "j \<noteq> last js" "j \<noteq> i" using Cons.prems False by auto
    ultimately show ?thesis using Cons.prems False by (cases js) (auto simp: chain_Cons)
  qed
qed

text \<open>The map index of the descriptor at position \<open>j\<close> of the window of a FIFO whose first buffer has index \<open>first\<close>.\<close>

definition buf_idx :: "nat \<Rightarrow> nat \<Rightarrow> nat \<Rightarrow> nat \<Rightarrow> nat" where
  "buf_idx first n h j = first + ring_pos n h j"

definition requests_ok :: "nat \<Rightarrow> nat \<Rightarrow> nat \<Rightarrow> nat \<Rightarrow> Eth_axTxBufferIdxMapType list \<Rightarrow> Eth_QueueInfo \<Rightarrow> bool" where
  "requests_ok first n h k m q \<longleftrightarrow>
    chain m (map (buf_idx first n h) [0..<k]) \<and>
    pQueueHead q = (if k = 0 then None else Some (buf_idx first n h 0)) \<and>
    (0 < k \<longrightarrow> pQueueTail q = Some (buf_idx first n h (k - 1)))"

definition fifo_ok :: "(nat \<Rightarrow> u32) \<Rightarrow> u32 \<Rightarrow> nat \<Rightarrow> nat \<Rightarrow> tx_view \<Rightarrow> u8 \<Rightarrow> eth \<Rightarrow> bool" where
  "fifo_ok base cap first h v r s \<longleftrightarrow>
    (let g = eth_gmac s; f = unat r; ch = Ch g ! f; n = length (TxRing ch); m = Eth_axTxBufferIdxMap s
     in gm_state_valid g \<and> f < unat (TxRingCount g) \<and> f < length (Ch g) \<and>
        window_ok base cap h v ch \<and>
        n \<le> 65536 \<and> first + n \<le> length m \<and> length m < 2 ^ 32 \<and>
        f < length (Eth_Ipw_axFirstTxBufferIdxInFifo s) \<and> Eth_Ipw_axFirstTxBufferIdxInFifo s ! f = of_nat first \<and>
        r < ETH_MAX_TXFIFO_SUPPORTED \<and> f < length (Eth_axTransmissionRequests s) \<and>
        (\<forall>j < length (outstanding v).
           pu8BufferData (m ! buf_idx first n h j) = base (ring_pos n h j) \<and> FifoIdx (m ! buf_idx first n h j) = r) \<and>
        requests_ok first n h (length (v_done v) + length (v_flying v)) m (Eth_axTransmissionRequests s ! f))"

lemma buf_idx_inj: "i < n \<Longrightarrow> j < n \<Longrightarrow> buf_idx first n h i = buf_idx first n h j \<longleftrightarrow> i = j"
  by (simp add: buf_idx_def ring_pos_inj)

lemma buf_idx_less: "h < n \<Longrightarrow> first + n \<le> len \<Longrightarrow> buf_idx first n h j < len"
  unfolding buf_idx_def using ring_pos_less_head [of h n j] by linarith

lemma buf_idx_Suc: "0 < n \<Longrightarrow> buf_idx first n (Suc h mod n) j = buf_idx first n h (Suc j)"
  by (simp add: buf_idx_def ring_pos_Suc)

lemma with_tx_channel_at:
  assumes "gm_state_valid g" "unat r < unat (TxRingCount g)" "unat r < length (Ch g)" "F (Ch g ! unat r) = Inr (ch, x)"
  shows "with_tx_channel 0 r g F = Inr (g\<lparr>Ch := (Ch g)[unat r := ch]\<rparr>, x)"
  using assms by (simp add: with_tx_channel_def)


lemma fifo_facts:
  assumes "fifo_ok base cap first h v r s"
  defines "n \<equiv> length (TxRing (Ch (eth_gmac s) ! unat r))"
  shows "gm_state_valid (eth_gmac s)" "unat r < unat (TxRingCount (eth_gmac s))" "unat r < length (Ch (eth_gmac s))"
    "window_ok base cap h v (Ch (eth_gmac s) ! unat r)" "first + n \<le> length (Eth_axTxBufferIdxMap s)"
    "length (Eth_axTxBufferIdxMap s) < 2 ^ 32" "n \<le> 65536"
    "unat r < length (Eth_Ipw_axFirstTxBufferIdxInFifo s)" "Eth_Ipw_axFirstTxBufferIdxInFifo s ! unat r = of_nat first"
    "r < ETH_MAX_TXFIFO_SUPPORTED" "unat r < length (Eth_axTransmissionRequests s)"
    "requests_ok first n h (length (v_done v) + length (v_flying v)) (Eth_axTxBufferIdxMap s)
       (Eth_axTransmissionRequests s ! unat r)"
    "h < n" "length (outstanding v) \<le> n"
  using assms window_facts(2,4) [of base cap h v "Ch (eth_gmac s) ! unat r"] by (auto simp: fifo_ok_def Let_def)

lemma fifo_entry:
  assumes "fifo_ok base cap first h v r s" "j < length (outstanding v)"
  defines "n \<equiv> length (TxRing (Ch (eth_gmac s) ! unat r))"
  shows "pu8BufferData (Eth_axTxBufferIdxMap s ! buf_idx first n h j) = outstanding v ! j"
    "FifoIdx (Eth_axTxBufferIdxMap s ! buf_idx first n h j) = r"
    "buf_idx first n h j < length (Eth_axTxBufferIdxMap s)"
proof -
  note facts = fifo_facts [OF assms(1), folded n_def]
  show "pu8BufferData (Eth_axTxBufferIdxMap s ! buf_idx first n h j) = outstanding v ! j"
    "FifoIdx (Eth_axTxBufferIdxMap s ! buf_idx first n h j) = r"
    using assms(1,2) window_nth [OF facts(4) assms(2)] by (simp_all add: fifo_ok_def Let_def n_def)
  show "buf_idx first n h j < length (Eth_axTxBufferIdxMap s)" using facts by (intro buf_idx_less) auto
qed

text \<open>A request whose frame the DMA still owns stops the report and changes nothing.\<close>

lemma report_one_busy:
  assumes ok: "fifo_ok base cap first h v r s" and v: "v_done v = []" "v_flying v = b # F"
  defines "n \<equiv> length (TxRing (Ch (eth_gmac s) ! unat r))"
  shows "report_one 0 r (buf_idx first n h 0) s = Inr (s, E_NOT_OK)"
proof -
  note facts = fifo_facts [OF ok, folded n_def]
  have o: "0 < length (outstanding v)" "outstanding v ! 0 = b" using v by (simp_all add: outstanding_def)
  note entry = fifo_entry [OF ok o(1), folded n_def, unfolded o(2)]
  have "get_transmit_status (eth_gmac s) \<lparr>BufData = b, BufLength = 0\<rparr> (Ch (eth_gmac s) ! unat r) =
      Inr (Ch (eth_gmac s) ! unat r, GMAC_STATUS_BUSY, None)"
    using v by (intro status_busy [OF facts(4)]) simp
  then have "Gmac_Ip_GetTransmitStatus 0 r \<lparr>BufData = b, BufLength = 0\<rparr> (eth_gmac s) = Inr (eth_gmac s, GMAC_STATUS_BUSY, None)"
    unfolding Gmac_Ip_GetTransmitStatus_def using facts by (subst with_tx_channel_at) auto
  then show ?thesis using entry facts by (simp add: report_one_def Eth_Ipw_GetTransmissionStatus_def Let_def)
qed

text \<open>
  What an operation on one channel of the GMAC needs to show for the FIFO to stay consistent: the new ring
  window, the entries of the outstanding buffers and the request list.
\<close>

lemma fifo_okI:
  fixes s' r base first h' v'
  defines "n \<equiv> length (TxRing (Ch (eth_gmac s') ! unat r))"
  assumes ok: "fifo_ok base cap first h v r s"
    and g: "eth_gmac s' = (eth_gmac s)\<lparr>Ch := (Ch (eth_gmac s))[unat r := ch']\<rparr>"
    and w: "window_ok base cap h' v' ch'" and n: "n = length (TxRing (Ch (eth_gmac s) ! unat r))"
    and m: "length (Eth_axTxBufferIdxMap s') = length (Eth_axTxBufferIdxMap s)"
    and first: "Eth_Ipw_axFirstTxBufferIdxInFifo s' = Eth_Ipw_axFirstTxBufferIdxInFifo s"
    and q: "length (Eth_axTransmissionRequests s') = length (Eth_axTransmissionRequests s)"
    and entries: "\<And>j. j < length (outstanding v') \<Longrightarrow>
      pu8BufferData (Eth_axTxBufferIdxMap s' ! buf_idx first n h' j) = outstanding v' ! j \<and>
      FifoIdx (Eth_axTxBufferIdxMap s' ! buf_idx first n h' j) = r"
    and reqs: "requests_ok first n h' (length (v_done v') + length (v_flying v')) (Eth_axTxBufferIdxMap s')
      (Eth_axTransmissionRequests s' ! unat r)"
  shows "fifo_ok base cap first h' v' r s'"
proof -
  note facts = fifo_facts [OF ok, folded n]
  have ch: "Ch (eth_gmac s') ! unat r = ch'" using g facts(3) by simp
  have n': "n = length (TxRing ch')" by (simp add: n_def ch)
  have "outstanding v' ! j = base (ring_pos n h' j)" if "j < length (outstanding v')" for j
    using window_nth [OF w that] by (simp add: n')
  then show ?thesis unfolding fifo_ok_def Let_def n_def [symmetric]
    using facts g w m first q entries reqs ch by simp
qed

lemma buf_idx_shift: "0 < n \<Longrightarrow> map (buf_idx first n (Suc h mod n)) [0..<k] = map (buf_idx first n h) [Suc 0..<Suc k]"
  by (intro nth_equalityI) (simp_all add: buf_idx_Suc del: upt_Suc)

lemma requests_ok_release:
  assumes "requests_ok first n h (Suc k) m q" "0 < n" "Suc k \<le> n" "h < n" "first + n \<le> length m"
  shows "requests_ok first n (Suc h mod n) k (m[buf_idx first n h 0 := (m ! buf_idx first n h 0)\<lparr>pu8BufferData := 0\<rparr>])
    (q\<lparr>pQueueHead := pNextBuffer (m ! buf_idx first n h 0)\<rparr>)"
proof -
  let ?i = "buf_idx first n h 0" and ?is = "map (buf_idx first n h) [1..<Suc k]"
  have shift: "map (buf_idx first n (Suc h mod n)) [0..<k] = ?is"
    using buf_idx_shift [OF assms(2)] by simp
  have c: "chain m (?i # ?is)" using assms(1) by (simp add: requests_ok_def upt_conv_Cons del: upt_Suc)
  then have nxt: "pNextBuffer (m ! ?i) = (if k = 0 then None else Some (buf_idx first n h 1))"
    by (cases k) (auto simp: chain_Cons upt_conv_Cons simp del: upt_Suc)
  have "pNextBuffer (m[?i := (m ! ?i)\<lparr>pu8BufferData := 0\<rparr>] ! j) = pNextBuffer (m ! j)" for j
    using buf_idx_less [OF assms(4,5), of 0] by (cases "j = ?i") auto
  then have "chain (m[?i := (m ! ?i)\<lparr>pu8BufferData := 0\<rparr>]) ?is" using c chain_cong [of ?is m] by (auto simp: chain_Cons)
  with assms(1,2) nxt shift show ?thesis by (cases k) (simp_all add: requests_ok_def buf_idx_Suc)
qed

lemma report_one_done:
  assumes ok: "fifo_ok base cap first h v r s" and v: "v_done v = b # D"
  defines "n \<equiv> length (TxRing (Ch (eth_gmac s) ! unat r))"
  defines "i \<equiv> buf_idx first n h 0"
  shows "\<exists>s'. report_one 0 r i s = Inr (s', E_OK) \<and> fifo_ok base cap first (Suc h mod n) (v\<lparr>v_done := D\<rparr>) r s' \<and>
    length (TxRing (Ch (eth_gmac s') ! unat r)) = n \<and> eth_mem s' = eth_mem s \<and>
    map fst (tx_confirmed s') = map fst (tx_confirmed s) @ (if bTxConfirmation (Eth_axTxBufferIdxMap s ! i) then [of_nat i] else []) \<and>
    Eth_axTxBufferIdxMap s' = (Eth_axTxBufferIdxMap s)[i := (Eth_axTxBufferIdxMap s ! i)\<lparr>pu8BufferData := 0\<rparr>] \<and>
    pQueueHead (Eth_axTransmissionRequests s' ! unat r) = pNextBuffer (Eth_axTxBufferIdxMap s' ! i)"
proof -
  note facts = fifo_facts [OF ok, folded n_def]
  let ?m = "Eth_axTxBufferIdxMap s" and ?v' = "v\<lparr>v_done := D\<rparr>"
  let ?q = "Eth_axTransmissionRequests s ! unat r"
  have out: "outstanding v = b # outstanding ?v'" using v by (simp add: outstanding_def)
  then have o: "0 < length (outstanding v)" "outstanding v ! 0 = b" by simp_all
  note entry = fifo_entry [OF ok o(1), folded n_def i_def, unfolded o(2)]
  have n0: "0 < n" using facts(13) by simp
  obtain ch' info where st: "get_transmit_status (eth_gmac s) \<lparr>BufData = b, BufLength = 0\<rparr> (Ch (eth_gmac s) ! unat r) =
      Inr (ch', GMAC_STATUS_SUCCESS, Some info)"
    and w: "window_ok base cap (Suc h mod n) ?v' ch'" and len: "length (TxRing ch') = n"
    using status_releases [OF facts(4) v, of "\<lparr>BufData = b, BufLength = 0\<rparr>" "eth_gmac s"] by (auto simp: n_def)
  let ?g = "(eth_gmac s)\<lparr>Ch := (Ch (eth_gmac s))[unat r := ch']\<rparr>"
  have "Gmac_Ip_GetTransmitStatus 0 r \<lparr>BufData = b, BufLength = 0\<rparr> (eth_gmac s) = Inr (?g, GMAC_STATUS_SUCCESS, Some info)"
    unfolding Gmac_Ip_GetTransmitStatus_def by (rule with_tx_channel_at [where F = "get_transmit_status _ _", OF facts(1-3) st])
  then obtain s' where s': "report_one 0 r i s = Inr (s', E_OK)" "eth_gmac s' = ?g" "eth_mem s' = eth_mem s"
    "Eth_axTxBufferIdxMap s' = ?m[i := (?m ! i)\<lparr>pu8BufferData := 0\<rparr>]"
    "Eth_axTransmissionRequests s' = (Eth_axTransmissionRequests s)[unat r := ?q\<lparr>pQueueHead := pNextBuffer (?m ! i)\<rparr>]"
    "Eth_Ipw_axFirstTxBufferIdxInFifo s' = Eth_Ipw_axFirstTxBufferIdxInFifo s"
    "map fst (tx_confirmed s') = map fst (tx_confirmed s) @ (if bTxConfirmation (?m ! i) then [of_nat i] else [])"
    using entry facts by (simp add: report_one_def Eth_Ipw_GetTransmissionStatus_def Let_def EthIf_TxConfirmation_def)
  have "fifo_ok base cap first (Suc h mod n) ?v' r s'"
  proof (rule fifo_okI [OF ok s'(2) w])
    show n': "length (TxRing (Ch (eth_gmac s') ! unat r)) = length (TxRing (Ch (eth_gmac s) ! unat r))"
      using s'(2) facts(3) len by (simp add: n_def)
    note n'' = n' [folded n_def]
    show "requests_ok first (length (TxRing (Ch (eth_gmac s') ! unat r))) (Suc h mod n)
        (length (v_done ?v') + length (v_flying ?v')) (Eth_axTxBufferIdxMap s') (Eth_axTransmissionRequests s' ! unat r)"
      using requests_ok_release [of first n h "length D + length (v_flying v)" ?m ?q] facts n0 v s'(4,5) out
      by (simp add: n'' i_def outstanding_def)
    show "pu8BufferData (Eth_axTxBufferIdxMap s' ! buf_idx first (length (TxRing (Ch (eth_gmac s') ! unat r))) (Suc h mod n) j) = outstanding ?v' ! j \<and>
        FifoIdx (Eth_axTxBufferIdxMap s' ! buf_idx first (length (TxRing (Ch (eth_gmac s') ! unat r))) (Suc h mod n) j) = r"
      if j: "j < length (outstanding ?v')" for j
    proof -
      have "Suc j < n" using j out facts(14) by simp
      then have "buf_idx first n h (Suc j) \<noteq> i" using buf_idx_inj [of "Suc j" n 0] n0 by (simp add: i_def)
      then show ?thesis using fifo_entry [OF ok, of "Suc j"] j out s'(4) n0 by (simp add: n'' buf_idx_Suc n_def [symmetric])
    qed
  qed (use s' in simp_all)
  with s' len facts(3,11) entry(3) show ?thesis by (intro exI [of _ s']) simp
qed


text \<open>The loop takes exactly the transmitted requests off the list, in order, and stops at the first one in flight.\<close>

lemma report_loop_exact:
  assumes "fifo_ok base cap first h v r s" "length (v_done v) < fuel" "n = length (TxRing (Ch (eth_gmac s) ! unat r))"
  shows "\<exists>s' h'. report_loop fuel 0 r (pQueueHead (Eth_axTransmissionRequests s ! unat r)) s = Inr s' \<and>
    fifo_ok base cap first h' (v\<lparr>v_done := []\<rparr>) r s' \<and> h' = ring_pos n h (length (v_done v)) \<and>
    length (TxRing (Ch (eth_gmac s') ! unat r)) = n \<and> eth_mem s' = eth_mem s \<and>
    map fst (tx_confirmed s') = map fst (tx_confirmed s) @
      map of_nat (filter (\<lambda>i. bTxConfirmation (Eth_axTxBufferIdxMap s ! i)) (map (buf_idx first n h) [0..<length (v_done v)]))"
  using assms
proof (induction "v_done v" arbitrary: v h s fuel)
  case Nil
  note facts = fifo_facts [OF Nil.prems(1), folded Nil.prems(3)]
  obtain fuel' where fuel: "fuel = Suc fuel'" using Nil.prems(2) by (cases fuel) auto
  have v: "v\<lparr>v_done := []\<rparr> = v" using Nil.hyps by simp
  have h: "ring_pos n h (length (v_done v)) = h" using facts(13) Nil.hyps by (simp add: ring_pos_def)
  show ?case
  proof (cases "v_flying v")
    case Nil': Nil
    then have "pQueueHead (Eth_axTransmissionRequests s ! unat r) = None"
      using facts(12) Nil.hyps by (simp add: requests_ok_def)
    then show ?thesis unfolding v using Nil.prems Nil.hyps h by (auto intro!: exI [of _ s])
  next
    case (Cons b F)
    then have "pQueueHead (Eth_axTransmissionRequests s ! unat r) = Some (buf_idx first n h 0)"
      using facts(12) Nil.hyps by (simp add: requests_ok_def)
    then show ?thesis unfolding v using report_one_busy [OF Nil.prems(1) Nil.hyps [symmetric] Cons] Nil.prems Nil.hyps h
      by (auto simp: fuel intro!: exI [of _ s])
  qed
next
  case (Cons b D)
  note facts = fifo_facts [OF Cons.prems(1), folded Cons.prems(3)]
  let ?i = "buf_idx first n h 0" and ?v' = "v\<lparr>v_done := D\<rparr>"
  obtain fuel' where fuel: "fuel = Suc fuel'" using Cons.prems(2) by (cases fuel) auto
  have n0: "0 < n" using facts(13) by simp
  have Dn: "Suc (length D) \<le> n" using facts(14) Cons.hyps(2) [symmetric] by (simp add: outstanding_def)
  have head: "pQueueHead (Eth_axTransmissionRequests s ! unat r) = Some ?i"
    using facts(12) Cons.hyps(2) [symmetric] by (simp add: requests_ok_def)
  obtain s1 where s1: "report_one 0 r ?i s = Inr (s1, E_OK)" "fifo_ok base cap first (Suc h mod n) ?v' r s1"
    "length (TxRing (Ch (eth_gmac s1) ! unat r)) = n" "eth_mem s1 = eth_mem s"
    "map fst (tx_confirmed s1) = map fst (tx_confirmed s) @ (if bTxConfirmation (Eth_axTxBufferIdxMap s ! ?i) then [of_nat ?i] else [])"
    "Eth_axTxBufferIdxMap s1 = (Eth_axTxBufferIdxMap s)[?i := (Eth_axTxBufferIdxMap s ! ?i)\<lparr>pu8BufferData := 0\<rparr>]"
    "pQueueHead (Eth_axTransmissionRequests s1 ! unat r) = pNextBuffer (Eth_axTxBufferIdxMap s1 ! ?i)"
    using report_one_done [OF Cons.prems(1) Cons.hyps(2) [symmetric], folded Cons.prems(3)] by blast
  have D: "D = v_done ?v'" "length (v_done ?v') < fuel'"
    using Cons.prems(2) Cons.hyps(2) [symmetric] by (simp_all add: fuel)
  obtain s' h' where s': "report_loop fuel' 0 r (pQueueHead (Eth_axTransmissionRequests s1 ! unat r)) s1 = Inr s'"
    "fifo_ok base cap first h' (?v'\<lparr>v_done := []\<rparr>) r s'" "h' = ring_pos n (Suc h mod n) (length (v_done ?v'))" "length (TxRing (Ch (eth_gmac s') ! unat r)) = n" "eth_mem s' = eth_mem s1"
    "map fst (tx_confirmed s') = map fst (tx_confirmed s1) @ map of_nat
       (filter (\<lambda>i. bTxConfirmation (Eth_axTxBufferIdxMap s1 ! i)) (map (buf_idx first n (Suc h mod n)) [0..<length (v_done ?v')]))"
    using Cons.hyps(1) [OF D(1) s1(2) D(2) s1(3) [symmetric]] by blast
  have conf: "bTxConfirmation (Eth_axTxBufferIdxMap s1 ! j) = bTxConfirmation (Eth_axTxBufferIdxMap s ! j)" for j
    using s1(6) buf_idx_less [OF facts(13,5), of 0] by (cases "j = ?i") auto
  have idx: "map (buf_idx first n h) [0..<Suc (length D)] = ?i # map (buf_idx first n (Suc h mod n)) [0..<length D]"
    by (simp add: buf_idx_shift [OF n0] upt_conv_Cons del: upt_Suc)
  show ?case
    using s1(1-5,7) s' head Cons.hyps(2) [symmetric] unfolding fuel
    by (intro exI [of _ s'] exI [of _ h']) (simp add: conf idx ring_pos_Suc [OF n0] del: upt_Suc)
qed

lemma report_exact:
  assumes ok: "fifo_ok base cap first h v r s"
  defines "n \<equiv> length (TxRing (Ch (eth_gmac s) ! unat r))"
  shows "\<exists>s'. Eth_ReportTransmission 0 r s = Inr s' \<and>
    fifo_ok base cap first (ring_pos n h (length (v_done v))) (v\<lparr>v_done := []\<rparr>) r s' \<and>
    length (TxRing (Ch (eth_gmac s') ! unat r)) = n \<and> eth_mem s' = eth_mem s \<and>
    map fst (tx_confirmed s') = map fst (tx_confirmed s) @
      map of_nat (filter (\<lambda>i. bTxConfirmation (Eth_axTxBufferIdxMap s ! i)) (map (buf_idx first n h) [0..<length (v_done v)]))"
proof -
  note facts = fifo_facts [OF ok, folded n_def]
  have "length (v_done v) < Suc (length (Eth_axTxBufferIdxMap s))"
    using facts(5,14) by (simp add: outstanding_def)
  from report_loop_exact [OF ok this refl] facts show ?thesis
    by (auto simp: Eth_ReportTransmission_def n_def)
qed

text \<open>(C36) A transmission report reports exactly the transmitted frames. On a FIFO whose request list and descriptor
  ring agree, \<open>Eth_ReportTransmission\<close> returns (its loop ends), confirms the buffers of the requests that
  the DMA has completed, in the order they were sent and only those for which a confirmation was asked, releases
  them, and keeps every request still in flight queued; frame memory is untouched and list and ring agree again.
\<close>

theorem report_transmission_exact:
  assumes ok: "fifo_ok base cap first h v r s"
  defines "n \<equiv> length (TxRing (Ch (eth_gmac s) ! unat r))"
  shows "\<exists>s' h'. Eth_ReportTransmission 0 r s = Inr s' \<and> fifo_ok base cap first h' (v\<lparr>v_done := []\<rparr>) r s' \<and>
    eth_mem s' = eth_mem s \<and>
    map fst (tx_confirmed s') = map fst (tx_confirmed s) @
      map of_nat (filter (\<lambda>i. bTxConfirmation (Eth_axTxBufferIdxMap s ! i)) (map (buf_idx first n h) [0..<length (v_done v)]))"
  unfolding n_def using report_exact [OF ok] by blast

section \<open>The frame header in memory\<close>

lemma mem_write_upd_other:
  assumes "length bs \<le> unat (y - a)"
  shows "mem_write a bs (m(y := x)) = (mem_write a bs m)(y := x)"
  using assms
proof (induction bs arbitrary: a m)
  case Nil
  then show ?case by simp
next
  case (Cons b bs)
  then have ne: "y - a \<noteq> 0" by auto
  then have "unat (y - a - 1) = unat (y - a) - 1" by (rule unat_minus_one)
  then have "length bs \<le> unat (y - (a + 1))" using Cons.prems by (simp add: algebra_simps)
  then have "mem_write (a + 1) bs ((m(a := b))(y := x)) = (mem_write (a + 1) bs (m(a := b)))(y := x)" by (rule Cons.IH)
  moreover have "(m(y := x))(a := b) = (m(a := b))(y := x)" using ne by (auto simp: fun_upd_twist)
  ultimately show ?case by (simp only: mem_write.simps)
qed

lemma Eth_Local_Memcpy_mem_write:
  assumes "n \<le> length src" "n < 2 ^ 32"
  shows "Eth_Local_Memcpy n dst src m = mem_write dst (take n src) m"
  using assms
proof (induction n arbitrary: m)
  case 0
  then show ?case by simp
next
  case (Suc n)
  have "Eth_Local_Memcpy (Suc n) dst src m = (mem_write dst (take n src) m)(dst + of_nat n := src ! n)"
    using Suc by (simp add: mem_write_upd_other unat_of_nat_u32)
  also have "\<dots> = mem_write dst (take n src @ [src ! n]) m"
    using Suc.prems by (simp add: mem_write_append)
  finally show ?case using Suc.prems by (simp add: take_Suc_conv_app_nth)
qed

lemma htons_bytes: "u16_bytes (Eth_Local_Macro_Htons v) = [ucast (drop_bit 8 v), ucast v]"
proof -
  have "bit (255 :: int) n \<longleftrightarrow> n < 8" "bit (65280 :: int) n \<longleftrightarrow> 8 \<le> n \<and> n < 16" for n
  proof -
    have *: "(255 :: int) = mask 8" "(65280 :: int) = push_bit 8 (mask 8)" by (simp_all add: mask_eq_exp_minus_1 push_bit_eq_mult)
    show "bit (255 :: int) n \<longleftrightarrow> n < 8" by (simp only: * bit_mask_iff) auto
    show "bit (65280 :: int) n \<longleftrightarrow> 8 \<le> n \<and> n < 16" by (simp only: * bit_mask_iff bit_push_bit_iff) auto
  qed
  then show ?thesis
    by (auto simp: u16_bytes_def Eth_Local_Macro_Htons_def bit_eq_iff [where ?'a = "8 word"] bit_simps)
qed

definition eth_header :: "u8 list \<Rightarrow> u8 list \<Rightarrow> u16 \<Rightarrow> u8 list" where
  "eth_header dst src FrameType = take 6 dst @ take 6 src @ [ucast (drop_bit 8 FrameType), ucast FrameType]"

lemma write_eth_header_mem:
  assumes "6 \<le> length dst" "6 \<le> length src"
  shows "write_eth_header buf dst src ty m = mem_write buf (eth_header dst src ty) m"
proof -
  have l: "length (take 6 dst) = 6" "length (take 6 src) = 6" using assms by simp_all
  have "Eth_Local_Memcpy 2 (buf + 12) (u16_bytes (Eth_Local_Macro_Htons ty)) m' =
      mem_write (buf + 12) [ucast (drop_bit 8 ty), ucast ty] m'" for m'
    by (subst Eth_Local_Memcpy_mem_write) (simp_all add: htons_bytes)
  then show ?thesis
    using assms l by (simp add: write_eth_header_def eth_header_def Eth_Local_Memcpy_mem_write mem_write_append add.assoc)
qed

text \<open>The frame that the DMA finds in the buffer: header, then the payload that was there.\<close>

lemma frame_in_memory:
  assumes "6 \<le> length dst" "6 \<le> length src" "14 + L < 2 ^ 32"
  shows "mem_read (write_eth_header buf dst src ty m) buf (14 + L) = eth_header dst src ty @ mem_read m (buf + 14) L"
proof -
  let ?m' = "write_eth_header buf dst src ty m"
  have len: "length (eth_header dst src ty) = 14" using assms by (simp add: eth_header_def)
  have m': "?m' = mem_write buf (eth_header dst src ty) m" using assms by (simp add: write_eth_header_mem)
  have "mem_read ?m' buf 14 = eth_header dst src ty"
    using mem_read_write_same [of "eth_header dst src ty" buf m] len by (simp add: m')
  moreover have "mem_read ?m' (buf + 14) L = mem_read m (buf + 14) L"
  proof (rule mem_read_cong)
    fix i assume "i < L"
    then have "unat (of_nat (14 + i) :: u32) = 14 + i" using assms(3) by (intro unat_of_nat_u32) simp
    then have "14 \<le> unat (14 + of_nat i :: u32)" by simp
    then show "?m' (buf + 14 + of_nat i) = m (buf + 14 + of_nat i)"
      unfolding m' using len by (intro mem_write_other) (simp add: add.assoc)
  qed
  ultimately show ?thesis by (simp add: mem_read_add)
qed

section \<open>Buffer requests and transmission on a consistent FIFO\<close>

definition driver_ready :: "Eth_CtrlCfgType \<Rightarrow> eth \<Rightarrow> bool" where
  "driver_ready cfg s \<longleftrightarrow>
    Eth_apxInternalCfg s \<noteq> None \<and> ctrl_config 0 s = Some cfg \<and> Eth_axCtrlState s = ETH_STATE_INIT \<and>
    GMAC_GetPowerState (eth_gmac s) = GMAC_PSTATE_ACTIVE"

lemma driver_ready_entry: "driver_ready cfg s \<Longrightarrow> Eth_Local_CheckEthHLDEntry 0 sid s = (s, E_OK)"
  by (auto simp: driver_ready_def Eth_Local_CheckEthHLDEntry_def)

lemma driver_ready_mode: "driver_ready cfg s \<Longrightarrow> Eth_Ipw_GetControllerMode 0 s = Inr ETH_MODE_ACTIVE"
  by (simp add: driver_ready_def Eth_Ipw_GetControllerMode_def Gmac_Ip_GetPowerState_def)

lemma driver_ready_cong:
  "driver_ready cfg s \<Longrightarrow> Eth_apxInternalCfg s' = Eth_apxInternalCfg s \<Longrightarrow> Eth_axCtrlState s' = Eth_axCtrlState s \<Longrightarrow>
   GMAC_GetPowerState (eth_gmac s') = GMAC_GetPowerState (eth_gmac s) \<Longrightarrow> driver_ready cfg s'"
  by (simp add: driver_ready_def ctrl_config_def)

lemma power_state_Ch [simp]: "GMAC_GetPowerState (g\<lparr>Ch := chs\<rparr>) = GMAC_GetPowerState g"
  by (simp add: GMAC_GetPowerState_def)

lemma requests_ok_cong:
  assumes "requests_ok first n h k m q" "\<And>j. j < k \<Longrightarrow> pNextBuffer (m' ! buf_idx first n h j) = pNextBuffer (m ! buf_idx first n h j)"
  shows "requests_ok first n h k m' q"
proof -
  have "chain m (map (buf_idx first n h) [0..<k]) = chain m' (map (buf_idx first n h) [0..<k])"
    using assms(2) by (intro chain_cong) auto
  with assms(1) show ?thesis by (simp add: requests_ok_def)
qed

text \<open>A request that fits the buffers of a FIFO with a free place is granted the next buffer of its ring.\<close>

lemma provide_grants:
  assumes ok: "fifo_ok base cap first h v r s" and ready: "driver_ready cfg s"
    and prio: "unat prio < length (VlanPcpToFifoIdx cfg)" "VlanPcpToFifoIdx cfg ! unat prio = r"
    and len: "len \<le> 65521" "ucast (len + 14) \<le> cap"
  defines "n \<equiv> length (TxRing (Ch (eth_gmac s) ! unat r))" and "k \<equiv> length (outstanding v)"
  assumes room: "k < n"
  defines "b \<equiv> base (ring_pos n h k)" and "i \<equiv> buf_idx first n h k"
  shows "\<exists>s'. Eth_ProvideTxBuffer 0 prio len s = Inr (s', BUFREQ_OK, Some (of_nat i, b + 14), ucast cap - 14) \<and>
    fifo_ok base cap first h (v\<lparr>v_granted := v_granted v @ [b]\<rparr>) r s' \<and> driver_ready cfg s' \<and>
    eth_mem s' = eth_mem s \<and> length (TxRing (Ch (eth_gmac s') ! unat r)) = n \<and>
    MAC_ADDRESS0_HIGH (eth_gmac s') = MAC_ADDRESS0_HIGH (eth_gmac s) \<and>
    MAC_ADDRESS0_LOW (eth_gmac s') = MAC_ADDRESS0_LOW (eth_gmac s) \<and> tx_confirmed s' = tx_confirmed s"
proof -
  note facts = fifo_facts [OF ok, folded n_def]
  let ?m = "Eth_axTxBufferIdxMap s" and ?v' = "v\<lparr>v_granted := v_granted v @ [b]\<rparr>"
  let ?B = "\<lparr>BufData = 0, BufLength = len + 14\<rparr>"
  have out': "outstanding ?v' = outstanding v @ [b]" by (simp add: outstanding_def)
  obtain ch' where g: "get_tx_buff ?B (Ch (eth_gmac s) ! unat r) =
      Inr (ch', GMAC_STATUS_SUCCESS, \<lparr>BufData = b, BufLength = ucast cap\<rparr>, Some (of_nat (ring_pos n h k)))"
    and w: "window_ok base cap h ?v' ch'" and len': "length (TxRing ch') = n"
    using get_tx_buff_grants [OF facts(4), of ?B] room len(2) window_facts(6) [OF facts(4)] by (auto simp: n_def k_def b_def)
  have p: "ring_pos n h k < n" using facts(13) by simp
  have i: "of_nat first + ucast (of_nat (ring_pos n h k) :: u16) = (of_nat i :: u32)"
    using p facts(7) by (simp add: i_def buf_idx_def unsigned_of_nat take_bit_nat_eq_self)
  have iless: "i < length ?m" using buf_idx_less [OF facts(13,5)] by (simp add: i_def)
  have ui: "unat (of_nat i :: u32) = i" using iless facts(6) by (intro unat_of_nat_u32) simp
  let ?g = "(eth_gmac s)\<lparr>Ch := (Ch (eth_gmac s))[unat r := ch']\<rparr>"
  let ?s' = "s\<lparr>eth_gmac := ?g, Eth_axTxBufferIdxMap := ?m[i := (?m ! i)\<lparr>FifoIdx := r, pu8BufferData := b\<rparr>]\<rparr>"
  have "Gmac_Ip_GetTxBuff 0 r ?B (eth_gmac s) =
      Inr (?g, GMAC_STATUS_SUCCESS, \<lparr>BufData = b, BufLength = ucast cap\<rparr>, Some (of_nat (ring_pos n h k)))"
    unfolding Gmac_Ip_GetTxBuff_def by (rule with_tx_channel_at [where F = "get_tx_buff _", OF facts(1-3) g])
  then have "Eth_Ipw_ProvideTxBuffer 0 r (len + 14) s = Inr (s\<lparr>eth_gmac := ?g\<rparr>, BUFREQ_OK, Some (of_nat i, b), ucast cap)"
    using facts(8,9) i by (simp add: Eth_Ipw_ProvideTxBuffer_def Let_def)
  moreover have "the (ctrl_config 0 s) = cfg" using ready by (simp add: driver_ready_def)
  ultimately have "Eth_ProvideTxBuffer 0 prio len s = Inr (?s', BUFREQ_OK, Some (of_nat i, b + 14), ucast cap - 14)"
    using driver_ready_entry [OF ready] prio len(1) iless ui by (simp add: Eth_ProvideTxBuffer_def Let_def not_less)
  moreover have "fifo_ok base cap first h ?v' r ?s'"
  proof (rule fifo_okI [OF ok _ w])
    have n': "length (TxRing (Ch (eth_gmac ?s') ! unat r)) = n" using facts(3) len' by simp
    show "length (TxRing (Ch (eth_gmac ?s') ! unat r)) = length (TxRing (Ch (eth_gmac s) ! unat r))"
      using n' by (simp add: n_def)
    show "requests_ok first (length (TxRing (Ch (eth_gmac ?s') ! unat r))) h (length (v_done ?v') + length (v_flying ?v'))
        (Eth_axTxBufferIdxMap ?s') (Eth_axTransmissionRequests ?s' ! unat r)"
      unfolding n' using facts(12) iless
      by (auto intro!: requests_ok_cong [where m = ?m] simp: nth_list_update)
    show "pu8BufferData (Eth_axTxBufferIdxMap ?s' ! buf_idx first (length (TxRing (Ch (eth_gmac ?s') ! unat r))) h j) = outstanding ?v' ! j \<and>
        FifoIdx (Eth_axTxBufferIdxMap ?s' ! buf_idx first (length (TxRing (Ch (eth_gmac ?s') ! unat r))) h j) = r"
      if j: "j < length (outstanding ?v')" for j
    proof (cases "j = k")
      case True
      then show ?thesis unfolding n' using iless by (simp add: out' k_def i_def)
    next
      case False
      with j have jk: "j < k" by (simp add: out' k_def)
      then have "buf_idx first n h j \<noteq> i" using room by (simp add: i_def buf_idx_inj)
      then show ?thesis unfolding n' using jk fifo_entry [OF ok, folded n_def, of j] by (simp add: out' k_def nth_append)
    qed
  qed simp_all
  moreover have "driver_ready cfg ?s'" by (rule driver_ready_cong [OF ready]) simp_all
  ultimately show ?thesis using facts(3) len' by (intro exI [of _ ?s']) simp
qed

text \<open>Adding a request behind the last one keeps the list; the new entry is the one of the buffer sent.\<close>

lemma enqueue_ok:
  assumes reqs: "requests_ok first n h k (Eth_axTxBufferIdxMap s) (Eth_axTransmissionRequests s ! f)"
    and f: "f < length (Eth_axTransmissionRequests s)"
    and k: "k < n" and m: "h < n" "first + n \<le> length (Eth_axTxBufferIdxMap s)"
  defines "i \<equiv> buf_idx first n h k"
  shows "\<exists>m' q'. enqueue_request f i s =
      Inr (s\<lparr>Eth_axTxBufferIdxMap := m', Eth_axTransmissionRequests := (Eth_axTransmissionRequests s)[f := q']\<rparr>) \<and>
    requests_ok first n h (Suc k) m' q' \<and> length m' = length (Eth_axTxBufferIdxMap s) \<and>
    (\<forall>j < length m'. pu8BufferData (m' ! j) = pu8BufferData (Eth_axTxBufferIdxMap s ! j) \<and>
       FifoIdx (m' ! j) = FifoIdx (Eth_axTxBufferIdxMap s ! j) \<and>
       bTxConfirmation (m' ! j) = bTxConfirmation (Eth_axTxBufferIdxMap s ! j))"
proof -
  let ?m = "Eth_axTxBufferIdxMap s" and ?q = "Eth_axTransmissionRequests s ! f"
  let ?is = "map (buf_idx first n h) [0..<k]"
  have less: "buf_idx first n h j < length ?m" for j using buf_idx_less [OF m] .
  then have il: "i < length ?m" by (simp add: i_def)
  show ?thesis
  proof (cases k)
    case 0
    let ?m' = "?m[i := (?m ! i)\<lparr>pNextBuffer := None\<rparr>]" and ?q' = "?q\<lparr>pQueueHead := Some i, pQueueTail := Some i\<rparr>"
    have "enqueue_request f i s = Inr (s\<lparr>Eth_axTxBufferIdxMap := ?m', Eth_axTransmissionRequests := (Eth_axTransmissionRequests s)[f := ?q']\<rparr>)"
      using f less [of k] reqs 0 by (simp add: enqueue_request_def i_def requests_ok_def Let_def)
    moreover have "requests_ok first n h (Suc k) ?m' ?q'" using 0 less [of 0] by (simp add: requests_ok_def i_def)
    ultimately show ?thesis using il less by (intro exI [of _ ?m'] exI [of _ ?q']) (auto simp: nth_list_update)
  next
    case (Suc k')
    let ?t = "buf_idx first n h k'"
    let ?m1 = "?m[?t := (?m ! ?t)\<lparr>pNextBuffer := Some i\<rparr>]"
    let ?m' = "?m1[i := (?m1 ! i)\<lparr>pNextBuffer := None\<rparr>]" and ?q' = "?q\<lparr>pQueueTail := Some i\<rparr>"
    have q: "pQueueHead ?q = Some (buf_idx first n h 0)" "pQueueTail ?q = Some ?t" "chain ?m ?is"
      using reqs Suc by (simp_all add: requests_ok_def)
    have "enqueue_request f i s = Inr (s\<lparr>Eth_axTxBufferIdxMap := ?m', Eth_axTransmissionRequests := (Eth_axTransmissionRequests s)[f := ?q']\<rparr>)"
      using f less [of k] less [of k'] q by (simp add: enqueue_request_def i_def Let_def)
    moreover have "chain ?m' (?is @ [i])"
    proof -
      have "distinct (map (buf_idx first n h) [0..<Suc k])"
        using k by (auto simp: distinct_map inj_on_def buf_idx_inj simp del: upt_Suc)
      then have "distinct (?is @ [i])" by (simp add: i_def)
      moreover have "?is \<noteq> []" "last ?is = ?t" using Suc by simp_all
      ultimately show ?thesis using chain_snoc [OF q(3), of i "?m1 ! i"] less by (auto simp: i_def)
    qed
    then have "requests_ok first n h (Suc k) ?m' ?q'" using q by (simp add: requests_ok_def i_def)
    ultimately show ?thesis using il less by (intro exI [of _ ?m'] exI [of _ ?q']) (auto simp: nth_list_update)
  qed
qed

lemma mac_addr_total: "\<exists>src. Gmac_Ip_GetMacAddr 0 g = Inr src \<and> length src = 6"
  by (simp add: Gmac_Ip_GetMacAddr_def Let_def)

text \<open>Transmitting the oldest granted buffer puts the header in front of the payload and hands the frame to the DMA.\<close>

lemma transmit_sends:
  assumes ok: "fifo_ok base cap first h v r s" and ready: "driver_ready cfg s"
    and g: "v_granted v = b # G" and dst: "6 \<le> length dst" and src: "Gmac_Ip_GetMacAddr 0 (eth_gmac s) = Inr src"
  defines "n \<equiv> length (TxRing (Ch (eth_gmac s) ! unat r))" and "k \<equiv> length (v_done v) + length (v_flying v)"
  defines "i \<equiv> buf_idx first n h k"
  assumes i: "of_nat i < BufferCount cfg"
  shows "\<exists>s'. Eth_Transmit 0 (of_nat i) ty conf len dst s = Inr (s', E_OK) \<and>
    fifo_ok base cap first h (v\<lparr>v_flying := v_flying v @ [b], v_granted := G\<rparr>) r s' \<and> driver_ready cfg s' \<and>
    eth_mem s' = write_eth_header b dst src ty (eth_mem s) \<and> tx_confirmed s' = tx_confirmed s \<and>
    length (TxRing (Ch (eth_gmac s') ! unat r)) = n \<and>
    bTxConfirmation (Eth_axTxBufferIdxMap s' ! i) = conf \<and>
    TxRing (Ch (eth_gmac s') ! unat r) ! ring_pos n h k =
      send_bd \<lparr>BufData = b, BufLength = len + 14\<rparr> (Some ipw_tx_options) (TxRing (Ch (eth_gmac s) ! unat r) ! ring_pos n h k)"
proof -
  note facts = fifo_facts [OF ok, folded n_def k_def]
  let ?m = "Eth_axTxBufferIdxMap s" and ?v' = "v\<lparr>v_flying := v_flying v @ [b], v_granted := G\<rparr>"
  let ?B = "\<lparr>BufData = b, BufLength = len + 14\<rparr>"
  let ?m1 = "?m[i := (?m ! i)\<lparr>bTxConfirmation := conf\<rparr>]"
  let ?s1 = "s\<lparr>Eth_axTxBufferIdxMap := ?m1, eth_mem := write_eth_header b dst src ty (eth_mem s)\<rparr>"
  have out: "outstanding ?v' = outstanding v" "k < length (outstanding v)" "outstanding v ! k = b"
    using g by (simp_all add: outstanding_def k_def nth_append)
  note entry = fifo_entry [OF ok out(2), folded n_def i_def, unfolded out(3)]
  have kn: "k < n" using out(2) facts(14) by simp
  have b: "b = base (ring_pos n h k)" using window_nth [OF facts(4) out(2)] out(3) by (simp add: n_def)
  then have b0: "b \<noteq> 0" using facts(4,13) by (simp add: window_ok_def Let_def n_def [symmetric])
  have ui: "unat (of_nat i :: u32) = i" using entry(3) facts(6) by (intro unat_of_nat_u32) simp
  have "requests_ok first n h k ?m1 (Eth_axTransmissionRequests s ! unat r)"
    by (rule requests_ok_cong [OF facts(12)]) (use entry(3) in \<open>auto simp: nth_list_update\<close>)
  then obtain m' q' where enq: "enqueue_request (unat r) i ?s1 =
      Inr (?s1\<lparr>Eth_axTxBufferIdxMap := m', Eth_axTransmissionRequests := (Eth_axTransmissionRequests s)[unat r := q']\<rparr>)"
    and reqs: "requests_ok first n h (Suc k) m' q'" and m': "length m' = length ?m"
      "\<forall>j < length m'. pu8BufferData (m' ! j) = pu8BufferData (?m1 ! j) \<and> FifoIdx (m' ! j) = FifoIdx (?m1 ! j) \<and>
         bTxConfirmation (m' ! j) = bTxConfirmation (?m1 ! j)"
    using enqueue_ok [of first n h k ?s1 "unat r"] facts(5,11,13) kn by (auto simp: i_def [symmetric])
  let ?s2 = "?s1\<lparr>Eth_axTxBufferIdxMap := m', Eth_axTransmissionRequests := (Eth_axTransmissionRequests s)[unat r := q']\<rparr>"
  obtain ch' where send: "send_frame ?B (Some ipw_tx_options) (Ch (eth_gmac s) ! unat r) = Inr (ch', GMAC_STATUS_SUCCESS)"
    and w: "window_ok base cap h ?v' ch'"
    and ring: "TxRing ch' = (TxRing (Ch (eth_gmac s) ! unat r))[ring_pos n h k :=
      send_bd ?B (Some ipw_tx_options) (TxRing (Ch (eth_gmac s) ! unat r) ! ring_pos n h k)]"
    using send_frame_sends [OF facts(4) g, of ?B "Some ipw_tx_options"] window_facts(7) [OF facts(4)]
    by (auto simp: n_def k_def)
  let ?g = "(eth_gmac s)\<lparr>Ch := (Ch (eth_gmac s))[unat r := ch']\<rparr>"
  let ?s' = "?s2\<lparr>eth_gmac := ?g\<rparr>"
  have "Gmac_Ip_SendFrame 0 r ?B (Some ipw_tx_options) (eth_gmac s) = Inr (?g, GMAC_STATUS_SUCCESS)"
    unfolding Gmac_Ip_SendFrame_def by (rule with_tx_channel_at [where F = "send_frame _ _", OF facts(1-3) send])
  then have "Eth_Ipw_Transmit 0 r b (len + 14) ?s2 = Inr (?s', E_OK)" by (simp add: Eth_Ipw_Transmit_def)
  moreover have "ctrl_config 0 s = Some cfg" using ready by (simp add: driver_ready_def)
  ultimately have tx: "Eth_Transmit 0 (of_nat i) ty conf len dst s = Inr (?s', E_OK)"
    using driver_ready_entry [OF ready] driver_ready_mode [OF ready] i ui entry b0 dst src enq
    by (simp add: Eth_Transmit_def Let_def Eth_Ipw_GetPhysicalAddress_def not_le)
  have n': "length (TxRing (Ch (eth_gmac ?s') ! unat r)) = n" using facts(3) ring by (simp add: n_def)
  have "fifo_ok base cap first h ?v' r ?s'"
  proof (rule fifo_okI [OF ok _ w])
    show "length (TxRing (Ch (eth_gmac ?s') ! unat r)) = length (TxRing (Ch (eth_gmac s) ! unat r))"
      using n' by (simp add: n_def)
    show "requests_ok first (length (TxRing (Ch (eth_gmac ?s') ! unat r))) h (length (v_done ?v') + length (v_flying ?v'))
        (Eth_axTxBufferIdxMap ?s') (Eth_axTransmissionRequests ?s' ! unat r)"
      unfolding n' using reqs facts(11) by (simp add: k_def)
    show "pu8BufferData (Eth_axTxBufferIdxMap ?s' ! buf_idx first (length (TxRing (Ch (eth_gmac ?s') ! unat r))) h j) = outstanding ?v' ! j \<and>
        FifoIdx (Eth_axTxBufferIdxMap ?s' ! buf_idx first (length (TxRing (Ch (eth_gmac ?s') ! unat r))) h j) = r"
      if j: "j < length (outstanding ?v')" for j
      unfolding n' using j fifo_entry [OF ok, folded n_def, of j] m' entry(3) by (simp add: out nth_list_update)
  qed (use m' in simp_all)
  moreover have "driver_ready cfg ?s'" by (rule driver_ready_cong [OF ready]) simp_all
  moreover have "bTxConfirmation (m' ! i) = conf" using m' entry(3) by simp
  ultimately show ?thesis using tx ring n' facts(3,13) by (intro exI [of _ ?s']) (simp add: n_def [symmetric])
qed

lemma fifo_ok_mem [simp]: "fifo_ok base cap first h v r (s\<lparr>eth_mem := m\<rparr>) = fifo_ok base cap first h v r s"
  by (simp add: fifo_ok_def Let_def)

lemma driver_ready_mem [simp]: "driver_ready cfg (s\<lparr>eth_mem := m\<rparr>) = driver_ready cfg s"
  by (simp add: driver_ready_def ctrl_config_def)

lemma window_cap: "window_ok base cap h v ch \<Longrightarrow> cap \<le> 0x3FFF"
  using window_slot [of base cap h v ch 0] window_facts(3) [of base cap h v ch]
  by (auto simp: slot_ok_def word_and_le1 split: if_splits)

lemma send_bd_length:
  assumes "BufLength B \<le> 0x3FFF"
  shows "Des2 (send_bd B (Some ipw_tx_options) bd) AND 0x3FFF = ucast (BufLength B)"
proof -
  have l: "(ucast (BufLength B) :: u32) \<le> 0x3FFF"
    using assms by (simp add: word_le_nat_alt unat_ucast_up)
  then have "(ucast (BufLength B) :: u32) < 2 ^ 14" by (simp add: word_less_nat_alt word_le_nat_alt)
  then have "(ucast (BufLength B) :: u32) AND mask 14 = ucast (BufLength B)" by (rule less_mask_eq)
  moreover have "(0x3FFF :: u32) = mask 14" by (simp add: mask_eq_exp_minus_1)
  ultimately have "(ucast (BufLength B) :: u32) AND 0x3FFF = ucast (BufLength B)" by simp
  then show ?thesis by (simp add: send_bd_def ipw_tx_options_def Let_def bit.conj_disj_distrib2)
qed

lemma buf_idx_below_count:
  assumes "h < n" "first + n \<le> unat c"
  shows "of_nat (buf_idx first n h k) < (c :: u32)"
proof -
  have "buf_idx first n h k < unat c" using assms by (rule buf_idx_less)
  moreover from this have "unat (of_nat (buf_idx first n h k) :: u32) = buf_idx first n h k"
    using unat_u32_less [of c] by (intro unat_of_nat_u32) simp
  ultimately show ?thesis by (simp add: word_less_nat_alt)
qed

lemma granted_length:
  assumes "len \<le> (65521 :: u16)" "ucast (len + 14) \<le> (cap :: u32)" "cap \<le> 0x3FFF"
  shows "len \<le> ucast cap - 14" "unat len + 14 \<le> 0x3FFF"
proof -
  have "unat (len + 14) = unat len + 14" using assms(1) by (simp add: unat_word_ariths word_le_nat_alt)
  then have le: "unat len + 14 \<le> unat cap" "unat cap \<le> 0x3FFF"
    using assms(2,3) by (simp_all add: word_le_nat_alt unat_ucast_up)
  then have c: "unat (ucast cap :: u16) = unat cap" by (simp add: unsigned_ucast_eq take_bit_nat_eq_self)
  then have "unat (ucast cap - 14 :: u16) = unat cap - 14" using le by (subst unat_sub) (simp_all add: word_le_nat_alt)
  with le show "len \<le> ucast cap - 14" by (simp add: word_le_nat_alt)
  show "unat len + 14 \<le> 0x3FFF" using le by simp
qed

text \<open>A request that is granted, filled and transmitted: the resulting ring, frame and memory.\<close>

lemma provide_transmit:
  assumes ok: "fifo_ok base cap first h v r s" and ready: "driver_ready cfg s" and granted: "v_granted v = []"
    and prio: "unat prio < length (VlanPcpToFifoIdx cfg)" "VlanPcpToFifoIdx cfg ! unat prio = r"
    and len: "len \<le> 65521" "ucast (len + 14) \<le> cap" "length payload \<le> unat len" and dst: "length dst = 6"
    and room: "length (outstanding v) < length (TxRing (Ch (eth_gmac s) ! unat r))"
    and count: "first + length (TxRing (Ch (eth_gmac s) ! unat r)) \<le> unat (BufferCount cfg)"
  defines "n \<equiv> length (TxRing (Ch (eth_gmac s) ! unat r))"
  defines "b \<equiv> base (ring_pos n h (length (outstanding v)))" and "p \<equiv> ring_pos n h (length (outstanding v))"
  shows "\<exists>s1 idx glen s2 src bd.
    Eth_ProvideTxBuffer 0 prio len s = Inr (s1, BUFREQ_OK, Some (idx, b + 14), glen) \<and> len \<le> glen \<and>
    Eth_Transmit 0 idx ty conf (of_nat (length payload)) dst (s1\<lparr>eth_mem := mem_write (b + 14) payload (eth_mem s1)\<rparr>) =
      Inr (s2, E_OK) \<and>
    fifo_ok base cap first h (v\<lparr>v_flying := v_flying v @ [b]\<rparr>) r s2 \<and> driver_ready cfg s2 \<and>
    Gmac_Ip_GetMacAddr 0 (eth_gmac s) = Inr src \<and> length src = 6 \<and>
    length (TxRing (Ch (eth_gmac s2) ! unat r)) = n \<and> p < n \<and>
    bd = TxRing (Ch (eth_gmac s2) ! unat r) ! p \<and> Des3 bd AND GMAC_TDES3_OWN_MASK \<noteq> 0 \<and> Des0 bd = b \<and> Info0 bd = b \<and>
    unat (Des2 bd AND 0x3FFF) = 14 + length payload \<and>
    mem_read (eth_mem s2) (Des0 bd) (unat (Des2 bd AND 0x3FFF)) = eth_header dst src ty @ payload \<and>
    eth_mem s1 = eth_mem s \<and> eth_mem s2 = mem_write b (eth_header dst src ty) (mem_write (b + 14) payload (eth_mem s))"
proof -
  let ?n = "length (TxRing (Ch (eth_gmac s) ! unat r))" and ?k = "length (outstanding v)"
  let ?b = "base (ring_pos ?n h ?k)" and ?i = "buf_idx first ?n h ?k" and ?L = "length payload"
  let ?B = "\<lparr>BufData = ?b, BufLength = of_nat ?L + 14\<rparr>"
  note facts = fifo_facts [OF ok]
  obtain s1 where s1: "Eth_ProvideTxBuffer 0 prio len s = Inr (s1, BUFREQ_OK, Some (of_nat ?i, ?b + 14), ucast cap - 14)"
    "fifo_ok base cap first h (v\<lparr>v_granted := v_granted v @ [?b]\<rparr>) r s1" "driver_ready cfg s1" "eth_mem s1 = eth_mem s"
    "length (TxRing (Ch (eth_gmac s1) ! unat r)) = ?n"
    "MAC_ADDRESS0_HIGH (eth_gmac s1) = MAC_ADDRESS0_HIGH (eth_gmac s)" "MAC_ADDRESS0_LOW (eth_gmac s1) = MAC_ADDRESS0_LOW (eth_gmac s)"
    using provide_grants [OF ok ready prio len(1,2) room] by blast
  obtain src where src: "Gmac_Ip_GetMacAddr 0 (eth_gmac s) = Inr src" "length src = 6" using mac_addr_total by blast
  then have src1: "Gmac_Ip_GetMacAddr 0 (eth_gmac s1) = Inr src" using s1(6,7) by (simp add: Gmac_Ip_GetMacAddr_def)
  let ?s1 = "s1\<lparr>eth_mem := mem_write (?b + 14) payload (eth_mem s1)\<rparr>"
  have k: "length (v_done v) + length (v_flying v) = ?k" using granted by (simp add: outstanding_def)
  have i: "of_nat ?i < BufferCount cfg" using buf_idx_below_count [OF facts(13) count] .
  note glen = granted_length [OF len(1,2) window_cap [OF facts(4)]]
  have uL: "unat (of_nat ?L + 14 :: u16) = ?L + 14"
    using len(3) glen(2) by (simp add: unat_word_ariths unat_of_nat take_bit_nat_eq_self)
  obtain s2 where s2: "Eth_Transmit 0 (of_nat ?i) ty conf (of_nat ?L) dst ?s1 = Inr (s2, E_OK)"
    "fifo_ok base cap first h (v\<lparr>v_flying := v_flying v @ [?b], v_granted := []\<rparr>) r s2" "driver_ready cfg s2"
    "eth_mem s2 = write_eth_header ?b dst src ty (eth_mem ?s1)"
    "TxRing (Ch (eth_gmac s2) ! unat r) ! ring_pos ?n h ?k =
      send_bd ?B (Some ipw_tx_options) (TxRing (Ch (eth_gmac ?s1) ! unat r) ! ring_pos ?n h ?k)"
    "length (TxRing (Ch (eth_gmac s2) ! unat r)) = ?n"
    using transmit_sends [where s = ?s1 and v = "v\<lparr>v_granted := [?b]\<rparr>" and r = r and cfg = cfg and b = ?b and G = "[]"
        and dst = dst and src = src and base = base and cap = cap and first = first and h = h and ty = ty and conf = conf
        and len = "of_nat ?L"] s1(2,3,5) granted dst src1 i k by auto
  let ?bd = "TxRing (Ch (eth_gmac s2) ! unat r) ! ring_pos ?n h ?k"
  have len2: "unat (Des2 ?bd AND 0x3FFF) = 14 + ?L"
    using send_bd_length [of ?B] uL len(3) glen(2) s2(5) by (simp add: word_le_nat_alt unat_ucast_up)
  have "mem_read (eth_mem s2) ?b (14 + ?L) = eth_header dst src ty @ mem_read (mem_write (?b + 14) payload (eth_mem s1)) (?b + 14) ?L"
    unfolding s2(4) using dst src(2) len(3) glen(2) by (subst frame_in_memory) simp_all
  then have frame: "mem_read (eth_mem s2) (Des0 ?bd) (unat (Des2 ?bd AND 0x3FFF)) = eth_header dst src ty @ payload"
    using len2 s2(5) len(3) glen(2) by (simp add: mem_read_write_same)
  have "v\<lparr>v_flying := v_flying v @ [?b], v_granted := []\<rparr> = v\<lparr>v_flying := v_flying v @ [?b]\<rparr>" using granted by simp
  moreover have "Des3 ?bd AND GMAC_TDES3_OWN_MASK \<noteq> 0" "Des0 ?bd = ?b" "Info0 ?bd = ?b" using s2(5) by simp_all
  moreover have "?bd = TxRing (Ch (eth_gmac s2) ! unat r) ! p" "?b = b" "p < n" by (simp_all add: p_def n_def b_def facts(13))
  moreover have "eth_mem s2 = mem_write ?b (eth_header dst src ty) (mem_write (?b + 14) payload (eth_mem s))"
    using s2(4) s1(4) dst src(2) by (simp add: write_eth_header_mem)
  ultimately show ?thesis using s1(1,4) s2(1-3,6) src frame glen(1) len2
    by (intro exI [of _ s1] exI [of _ "of_nat ?i"] exI [of _ "ucast cap - 14"] exI [of _ s2] exI [of _ src] exI [of _ ?bd])
      (simp add: n_def)
qed

text \<open>(C35) From a buffer request to the frame on the ring. On a consistent FIFO with a free descriptor a request that
  fits is granted; when the caller then writes its payload at the returned address and calls \<open>Eth_Transmit\<close>, the
  call succeeds and the DMA owns a descriptor whose address and length denote memory holding exactly
  destination, source, type in network order and the payload; the frame is queued behind those in flight.
\<close>

theorem provide_transmit_frame:
  assumes ok: "fifo_ok base cap first h v r s" and ready: "driver_ready cfg s" and granted: "v_granted v = []"
    and prio: "unat prio < length (VlanPcpToFifoIdx cfg)" "VlanPcpToFifoIdx cfg ! unat prio = r"
    and len: "len \<le> 65521" "ucast (len + 14) \<le> cap" "length payload \<le> unat len" and dst: "length dst = 6"
    and room: "length (outstanding v) < length (TxRing (Ch (eth_gmac s) ! unat r))"
    and count: "first + length (TxRing (Ch (eth_gmac s) ! unat r)) \<le> unat (BufferCount cfg)"
  shows "\<exists>s1 idx b glen s2 src bd.
    Eth_ProvideTxBuffer 0 prio len s = Inr (s1, BUFREQ_OK, Some (idx, b + 14), glen) \<and> len \<le> glen \<and>
    Eth_Transmit 0 idx ty conf (of_nat (length payload)) dst (s1\<lparr>eth_mem := mem_write (b + 14) payload (eth_mem s1)\<rparr>) =
      Inr (s2, E_OK) \<and>
    fifo_ok base cap first h (v\<lparr>v_flying := v_flying v @ [b]\<rparr>) r s2 \<and> driver_ready cfg s2 \<and>
    Gmac_Ip_GetMacAddr 0 (eth_gmac s) = Inr src \<and>
    bd \<in> set (TxRing (Ch (eth_gmac s2) ! unat r)) \<and> Des3 bd AND GMAC_TDES3_OWN_MASK \<noteq> 0 \<and> Des0 bd = b \<and>
    mem_read (eth_mem s2) (Des0 bd) (unat (Des2 bd AND 0x3FFF)) = eth_header dst src ty @ payload"
proof -
  note facts = fifo_facts [OF ok]
  show ?thesis using provide_transmit [OF assms, of ty conf] by (metis nth_mem)
qed


text \<open>A driver with one FIFO over the ring of two descriptors, active and with nothing outstanding.\<close>

definition ex_eth_config :: Eth_CtrlCfgType where
  "ex_eth_config = \<lparr>VlanPcpToFifoIdx = [0, 0, 0, 0, 0, 0, 0, 0], BufferCount = 2, FifoCount = 1\<rparr>"

definition ex_eth :: eth where
  "ex_eth = \<lparr>eth_gmac = gmac_reset\<lparr>gm_state_valid := True, TxRingCount := 1, Ch := [ex_ready], MAC_CONFIGURATION := 3\<rparr>,
    eth_mem = (\<lambda>_. 0), Eth_apxInternalCfg = Some [Some ex_eth_config], Eth_axCtrlState = ETH_STATE_INIT,
    Eth_axTxBufferIdxMap = replicate 2 \<lparr>FifoIdx = 0, pu8BufferData = 0, bTxConfirmation = False, pNextBuffer = None\<rparr>,
    Eth_axTransmissionRequests = [\<lparr>pQueueHead = None, pQueueTail = None\<rparr>],
    Eth_Ipw_axFirstTxBufferIdxInFifo = [0], Eth_Ipw_axRxFrameBuffer = [], Eth_Ipw_axRxFrameInfo = [],
    EthIf_TxConfirmations = 0, EthIf_RxIndications = 0, EthIf_ChecksumValue = 0, det_log = [], tx_confirmed = [],
    rx_indicated = []\<rparr>"

lemma ex_ready_window: "window_ok (tx_base ex_tx_config) (tx_cap ex_tx_config) 0 empty_view ex_ready"
  unfolding ex_ready_def by (rule init_window [OF ex_tx_config_ok]) (simp add: ex_channel_def ex_tx_config_def)

lemma ex_ready_length: "length (TxRing ex_ready) = 2"
  by (simp add: ex_ready_def Gmac_Ip_InitTxBD_ring_def Let_def ex_tx_config_def ex_channel_def)

lemma ex_eth_fifo_ok: "fifo_ok (tx_base ex_tx_config) (tx_cap ex_tx_config) 0 0 empty_view 0 ex_eth"
  using ex_ready_window
  by (simp add: fifo_ok_def Let_def ex_eth_def gmac_reset_def ex_ready_length requests_ok_def)
    (simp add: empty_view_def outstanding_def)

lemma ex_eth_ready: "driver_ready ex_eth_config ex_eth"
  by (simp add: driver_ready_def ex_eth_def ctrl_config_def gmac_reset_def GMAC_GetPowerState_def)

lemma ex_eth_length: "length (TxRing (Ch (eth_gmac ex_eth) ! unat (0 :: u8))) = 2"
  by (simp add: ex_eth_def gmac_reset_def ex_ready_length)

theorem provide_transmit_frame_witness:
  "\<exists>s1 idx b glen s2 src bd.
    Eth_ProvideTxBuffer 0 0 20 ex_eth = Inr (s1, BUFREQ_OK, Some (idx, b + 14), glen) \<and>
    Eth_Transmit 0 idx 0x0A0B True 3 [0, 0x11, 0x22, 0x33, 0x44, 0x44]
      (s1\<lparr>eth_mem := mem_write (b + 14) [1, 2, 3] (eth_mem s1)\<rparr>) = Inr (s2, E_OK) \<and>
    bd \<in> set (TxRing (Ch (eth_gmac s2) ! 0)) \<and> Des0 bd = b \<and>
    mem_read (eth_mem s2) (Des0 bd) (unat (Des2 bd AND 0x3FFF)) =
      eth_header [0, 0x11, 0x22, 0x33, 0x44, 0x44] src 0x0A0B @ [1, 2, 3]"
proof -
  have "v_granted empty_view = []" "unat (0 :: u8) < length (VlanPcpToFifoIdx ex_eth_config)"
    "VlanPcpToFifoIdx ex_eth_config ! unat (0 :: u8) = 0" "(20 :: u16) \<le> 65521" "ucast (20 + 14 :: u16) \<le> tx_cap ex_tx_config"
    "length [1, 2, 3 :: u8] \<le> unat (20 :: u16)" "length [0, 0x11, 0x22, 0x33, 0x44, 0x44 :: u8] = 6"
    "length (outstanding empty_view) < length (TxRing (Ch (eth_gmac ex_eth) ! unat (0 :: u8)))"
    "0 + length (TxRing (Ch (eth_gmac ex_eth) ! unat (0 :: u8))) \<le> unat (BufferCount ex_eth_config)"
    unfolding ex_eth_length
    by (simp_all add: empty_view_def outstanding_def ex_eth_config_def tx_cap_def ex_tx_config_def)
  from provide_transmit_frame [OF ex_eth_fifo_ok ex_eth_ready this, where conf = True and ty = "0x0A0B"]
  show ?thesis by fastforce
qed

text \<open>The DMA completing a frame, seen from the driver: only the descriptor changes.\<close>

definition eth_dma_done :: "u8 \<Rightarrow> nat \<Rightarrow> u32 \<Rightarrow> u32 \<Rightarrow> u32 \<Rightarrow> eth \<Rightarrow> eth" where
  "eth_dma_done r i lo hi status s = s\<lparr>eth_gmac := (eth_gmac s)\<lparr>Ch := (Ch (eth_gmac s))[unat r :=
     dma_write_back i lo hi status (Ch (eth_gmac s) ! unat r)]\<rparr>\<rparr>"

lemma fifo_dma_done:
  assumes ok: "fifo_ok base cap first h v r s" and f: "v_flying v = b # F"
    and i: "i < length (TxRing (Ch (eth_gmac s) ! unat r))" "Info0 (TxRing (Ch (eth_gmac s) ! unat r) ! i) = b"
  shows "fifo_ok base cap first h (v\<lparr>v_done := v_done v @ [b], v_flying := F\<rparr>) r (eth_dma_done r i lo hi status s)"
proof -
  let ?s' = "eth_dma_done r i lo hi status s" and ?v' = "v\<lparr>v_done := v_done v @ [b], v_flying := F\<rparr>"
  note facts = fifo_facts [OF ok]
  have out: "outstanding ?v' = outstanding v" "length (v_done ?v') + length (v_flying ?v') = length (v_done v) + length (v_flying v)"
    using f by (simp_all add: outstanding_def)
  have n: "length (TxRing (Ch (eth_gmac ?s') ! unat r)) = length (TxRing (Ch (eth_gmac s) ! unat r))"
    using facts(3) by (simp add: eth_dma_done_def dma_write_back_def)
  show ?thesis
  proof (rule fifo_okI [OF ok _ dma_completes [OF facts(4) f i, of lo hi status] n])
    show "requests_ok first (length (TxRing (Ch (eth_gmac ?s') ! unat r))) h (length (v_done ?v') + length (v_flying ?v'))
        (Eth_axTxBufferIdxMap ?s') (Eth_axTransmissionRequests ?s' ! unat r)"
      unfolding n out(2) using facts(12) by (simp add: eth_dma_done_def)
  qed (use fifo_entry [OF ok] facts(3) in \<open>simp_all add: out(1) eth_dma_done_def dma_write_back_def\<close>)
qed

text \<open>The example driver after one frame was sent with confirmation and completed by the DMA.\<close>

lemma ex_eth_sent:
  "\<exists>s b. fifo_ok (tx_base ex_tx_config) (tx_cap ex_tx_config) 0 0 \<lparr>v_done = [b], v_flying = [], v_granted = []\<rparr> 0 s \<and>
     tx_confirmed s = [] \<and> bTxConfirmation (Eth_axTxBufferIdxMap s ! 0) \<and> length (TxRing (Ch (eth_gmac s) ! 0)) = 2"
proof -
  let ?base = "tx_base ex_tx_config" and ?cap = "tx_cap ex_tx_config"
  let ?b = "?base (ring_pos 2 0 0)"
  have out: "outstanding empty_view = []" by (simp add: outstanding_def empty_view_def)
  obtain s1 where s1: "fifo_ok ?base ?cap 0 0 (empty_view\<lparr>v_granted := [?b]\<rparr>) 0 s1" "driver_ready ex_eth_config s1"
    "length (TxRing (Ch (eth_gmac s1) ! 0)) = 2" "tx_confirmed s1 = []"
    using provide_grants [OF ex_eth_fifo_ok ex_eth_ready, of 0 20, unfolded ex_eth_length out]
    by (auto simp: ex_eth_config_def tx_cap_def ex_tx_config_def empty_view_def) (simp add: ex_eth_def)
  obtain src where src: "Gmac_Ip_GetMacAddr 0 (eth_gmac s1) = Inr src" using mac_addr_total by blast
  obtain s2 where s2: "fifo_ok ?base ?cap 0 0 (empty_view\<lparr>v_granted := [], v_flying := [?b]\<rparr>) 0 s2" "tx_confirmed s2 = []"
    "bTxConfirmation (Eth_axTxBufferIdxMap s2 ! 0)" "length (TxRing (Ch (eth_gmac s2) ! 0)) = 2"
    using transmit_sends [OF s1(1,2), of ?b "[]" "replicate 6 0" src 0 True 3] s1(3,4) src
    by (auto simp: empty_view_def ex_eth_config_def buf_idx_def ring_pos_def)
  have w: "window_ok ?base ?cap 0 (empty_view\<lparr>v_granted := [], v_flying := [?b]\<rparr>) (Ch (eth_gmac s2) ! 0)"
    using fifo_facts(4) [OF s2(1)] by simp
  have "Info0 (TxRing (Ch (eth_gmac s2) ! 0) ! 0) = ?b"
    using window_info0 [OF w, of 0] s2(4) by (simp add: empty_view_def ring_pos_def)
  then have "fifo_ok ?base ?cap 0 0 \<lparr>v_done = [?b], v_flying = [], v_granted = []\<rparr> 0 (eth_dma_done 0 0 0 0 0 s2)"
    using fifo_dma_done [OF s2(1), of ?b "[]" 0 0 0 0] s2(4) by (simp add: empty_view_def)
  moreover have "Ch (eth_gmac s2) \<noteq> []" using fifo_facts(3) [OF s2(1)] by auto
  ultimately show ?thesis using s2(2-4)
    by (intro exI [of _ "eth_dma_done 0 0 0 0 0 s2"] exI [of _ ?b]) (simp add: eth_dma_done_def dma_write_back_def)
qed

theorem report_transmission_exact_witness:
  "\<exists>s b s'. fifo_ok (tx_base ex_tx_config) (tx_cap ex_tx_config) 0 0 \<lparr>v_done = [b], v_flying = [], v_granted = []\<rparr> 0 s \<and>
     tx_confirmed s = [] \<and> Eth_ReportTransmission 0 0 s = Inr s' \<and> map fst (tx_confirmed s') = [0]"
proof -
  obtain s b where s: "fifo_ok (tx_base ex_tx_config) (tx_cap ex_tx_config) 0 0 \<lparr>v_done = [b], v_flying = [], v_granted = []\<rparr> 0 s"
    "tx_confirmed s = []" "bTxConfirmation (Eth_axTxBufferIdxMap s ! 0)" "length (TxRing (Ch (eth_gmac s) ! 0)) = 2"
    using ex_eth_sent by blast
  have idx: "map (buf_idx 0 2 0) [0..<length [b]] = [0]" by (simp add: buf_idx_def ring_pos_def)
  have ch: "length (TxRing (Ch (eth_gmac s) ! unat (0 :: u8))) = 2" using s(4) by simp
  obtain s' where "Eth_ReportTransmission 0 0 s = Inr s'" "map fst (tx_confirmed s') = [0]"
    using report_transmission_exact [OF s(1)] unfolding ch tx_view.simps idx by (auto simp: s(2,3))
  with s(1,2) show ?thesis by (intro exI [of _ s] exI [of _ b] exI [of _ s'] conjI)
qed

end
