(* ===== verification/Eth_Dma.thy ===== *)
theory Eth_Dma
  imports Eth_Fifo
begin

text \<open>
  The transmit rings seen by the DMA engine: the driver leaves the descriptors that the DMA owns alone, and the
  frames in flight stay in memory, unchanged and in order, until the DMA has fetched them.
\<close>

section \<open>Descriptors owned by the DMA\<close>

text \<open>The driver leaves every descriptor alone while the DMA owns it, and of the controller it changes only the channels.\<close>

definition dma_owned :: "Gmac_Ip_BufferDescriptorType \<Rightarrow> bool" where
  "dma_owned bd \<longleftrightarrow> Des3 bd AND GMAC_TDES3_OWN_MASK \<noteq> 0"

definition keeps_owned :: "gmac_channel \<Rightarrow> gmac_channel \<Rightarrow> bool" where
  "keeps_owned ch ch' \<longleftrightarrow> length (TxRing ch') = length (TxRing ch) \<and>
    (\<forall>i < length (TxRing ch). dma_owned (TxRing ch ! i) \<longrightarrow> TxRing ch' ! i = TxRing ch ! i)"

definition driver_keeps_owned :: "gmac \<Rightarrow> gmac \<Rightarrow> bool" where
  "driver_keeps_owned g g' \<longleftrightarrow> g' = g\<lparr>Ch := Ch g'\<rparr> \<and> length (Ch g') = length (Ch g) \<and>
    (\<forall>f < length (Ch g). keeps_owned (Ch g ! f) (Ch g' ! f))"

lemma keeps_owned_refl [simp]: "keeps_owned ch ch"
  by (simp add: keeps_owned_def)

lemma driver_keeps_refl [simp]: "driver_keeps_owned g g"
  by (simp add: driver_keeps_owned_def)

lemma keeps_owned_trans: "keeps_owned a b \<Longrightarrow> keeps_owned b c \<Longrightarrow> keeps_owned a c"
  by (simp add: keeps_owned_def)

lemma driver_keeps_trans:
  assumes "driver_keeps_owned a b" "driver_keeps_owned b c"
  shows "driver_keeps_owned a c"
proof -
  have "c = b\<lparr>Ch := Ch c\<rparr>" "b = a\<lparr>Ch := Ch b\<rparr>" using assms by (simp_all add: driver_keeps_owned_def)
  then have "c = a\<lparr>Ch := Ch c\<rparr>" by (cases a, cases b, cases c) simp
  with assms show ?thesis by (auto simp: driver_keeps_owned_def intro: keeps_owned_trans)
qed

lemma bd_at_Inr: "bd_at ring i = Inr bd \<longleftrightarrow> i < length ring \<and> bd = ring ! i"
  by (auto simp: bd_at_def)

lemma keeps_owned_update:
  assumes "\<not> dma_owned (TxRing ch ! i)" "TxRing ch' = (TxRing ch)[i := bd]"
  shows "keeps_owned ch ch'"
  using assms by (auto simp: keeps_owned_def) (metis nth_list_update_neq)

lemma get_tx_buff_keeps: "get_tx_buff Buff ch = Inr (ch', x) \<Longrightarrow> keeps_owned ch ch'"
  by (auto simp: get_tx_buff_def rbind_Inr_iff bd_at_Inr Let_def dma_owned_def intro: keeps_owned_update
      split: if_splits)

lemma send_frame_keeps: "send_frame Buff Options ch = Inr (ch', st) \<Longrightarrow> keeps_owned ch ch'"
  by (auto simp: send_frame_def rbind_Inr_iff bd_at_Inr Let_def dma_owned_def intro: keeps_owned_update
      split: if_splits)

lemma get_transmit_status_keeps:
  assumes "get_transmit_status g Buff ch = Inr (ch', x)"
  shows "keeps_owned ch ch'"
proof -
  obtain r where r: "find_tx_bd (Suc (unat (DMA_TXDESC_RING_LENGTH ch))) 0 (BufData Buff) (TxRing ch) = Inr r"
    using assms by (auto simp: get_transmit_status_def rbind_Inr_iff simp del: find_tx_bd.simps)
  show ?thesis
  proof (cases r)
    case None
    with assms r show ?thesis by (simp add: get_transmit_status_def del: find_tx_bd.simps)
  next
    case (Some i)
    show ?thesis
    proof (cases "dma_owned (TxRing ch ! i)")
      case True
      with assms r Some show ?thesis by (simp add: get_transmit_status_def Let_def dma_owned_def del: find_tx_bd.simps)
    next
      case False
      with assms r Some show ?thesis
        by (auto simp: get_transmit_status_def Let_def dma_owned_def intro!: keeps_owned_update [OF False]
            simp del: find_tx_bd.simps)
    qed
  qed
qed

lemma with_tx_channel_keeps:
  assumes "with_tx_channel I r g F = Inr (g', x)" "\<And>ch ch' y. F ch = Inr (ch', y) \<Longrightarrow> keeps_owned ch ch'"
  shows "driver_keeps_owned g g'"
  using assms by (auto simp: with_tx_channel_def dev_assert_Inr_iff rbind_Inr_iff driver_keeps_owned_def nth_list_update
      split: if_splits)

lemma gmac_tx_keeps:
  "Gmac_Ip_GetTxBuff I r B g = Inr (g', x) \<Longrightarrow> driver_keeps_owned g g'"
  "Gmac_Ip_SendFrame I r B opts g = Inr (g', st) \<Longrightarrow> driver_keeps_owned g g'"
  "Gmac_Ip_GetTransmitStatus I r B g = Inr (g', y) \<Longrightarrow> driver_keeps_owned g g'"
  by (auto simp: Gmac_Ip_GetTxBuff_def Gmac_Ip_SendFrame_def Gmac_Ip_GetTransmitStatus_def
      elim!: with_tx_channel_keeps dest: get_tx_buff_keeps send_frame_keeps get_transmit_status_keeps)

lemma det_report_gmac [simp]: "eth_gmac (Det_ReportError sid e s) = eth_gmac s"
  by (simp add: Det_ReportError_def)

lemma check_entry_gmac: "Eth_Local_CheckEthHLDEntry c sid s = (s', r) \<Longrightarrow> eth_gmac s' = eth_gmac s"
  by (auto simp: Eth_Local_CheckEthHLDEntry_def split: if_splits)

lemma ipw_provide_keeps:
  "Eth_Ipw_ProvideTxBuffer c f len s = Inr (s', x) \<Longrightarrow> driver_keeps_owned (eth_gmac s) (eth_gmac s')"
  by (auto simp: Eth_Ipw_ProvideTxBuffer_def rbind_Inr_iff Let_def dest!: gmac_tx_keeps
      split: if_splits option.splits Gmac_Ip_StatusType.splits)

lemma provide_keeps:
  assumes run: "Eth_ProvideTxBuffer c p len s = Inr (s', x)"
  shows "driver_keeps_owned (eth_gmac s) (eth_gmac s')"
proof (cases "Eth_Local_CheckEthHLDEntry c ETH_SID_PROVIDETXBUFFER s")
  case (Pair s0 ok)
  then have g: "eth_gmac s0 = eth_gmac s" by (rule check_entry_gmac)
  define f where "f = VlanPcpToFifoIdx (the (ctrl_config c s0)) ! unat p"
  show ?thesis
  proof (cases "ok = E_NOT_OK \<or> len > 65535 - ETH_FRAME_HEADER_LENGTH")
    case True
    then have "s' = s0" using run by (cases ok) (simp_all add: Eth_ProvideTxBuffer_def Pair)
    with g show ?thesis by simp
  next
    case False
    then have ok: "ok = E_OK" "\<not> 65521 < len" by (cases ok; simp)+
    obtain s1 st granted l where ipw: "Eth_Ipw_ProvideTxBuffer c f (len + 14) s0 = Inr (s1, st, granted, l)"
      using run ok by (auto simp: Eth_ProvideTxBuffer_def Pair rbind_Inr_iff Let_def f_def split: if_splits)
    have "eth_gmac s' = eth_gmac s1"
      using run ok ipw by (cases st; cases granted)
        (auto simp: Eth_ProvideTxBuffer_def Pair Let_def f_def [symmetric] split: if_splits)
    with ipw_provide_keeps [OF ipw] g show ?thesis by simp
  qed
qed

lemma enqueue_request_gmac: "enqueue_request f i s = Inr s' \<Longrightarrow> eth_gmac s' = eth_gmac s"
  by (auto simp: enqueue_request_def rbind_Inr_iff Let_def split: if_splits)

lemma ipw_transmit_keeps:
  "Eth_Ipw_Transmit c f b len s = Inr (s', x) \<Longrightarrow> driver_keeps_owned (eth_gmac s) (eth_gmac s')"
  by (auto simp: Eth_Ipw_Transmit_def rbind_Inr_iff dest: gmac_tx_keeps)

lemma transmit_keeps:
  assumes "Eth_Transmit c i ty conf len dst s = Inr (s', x)"
  shows "driver_keeps_owned (eth_gmac s) (eth_gmac s')"
proof (cases "Eth_Local_CheckEthHLDEntry c ETH_SID_TRANSMIT s")
  case (Pair s0 ok)
  then have g: "eth_gmac s0 = eth_gmac s" by (rule check_entry_gmac)
  show ?thesis
    using assms g by (cases ok)
      (auto simp: Eth_Transmit_def Pair rbind_Inr_iff Let_def split: if_splits
        dest!: ipw_transmit_keeps enqueue_request_gmac)
qed

lemma report_one_keeps:
  "report_one c f i s = Inr (s', st) \<Longrightarrow> driver_keeps_owned (eth_gmac s) (eth_gmac s')"
  by (auto simp: report_one_def Eth_Ipw_GetTransmissionStatus_def rbind_Inr_iff Let_def EthIf_TxConfirmation_def
      dest: gmac_tx_keeps split: if_splits)

lemma report_loop_keeps:
  "report_loop fuel c f i s = Inr s' \<Longrightarrow> driver_keeps_owned (eth_gmac s) (eth_gmac s')"
proof (induction fuel c f i s rule: report_loop.induct)
  case (3 fuel c f i s)
  then obtain s1 st where s1: "report_one c f i s = Inr (s1, st)" by (auto simp: rbind_Inr_iff)
  from report_one_keeps [OF this] 3 show ?case
    by (cases "st = E_OK") (auto simp: s1 intro: driver_keeps_trans)
qed auto

lemma report_keeps:
  "Eth_ReportTransmission c f s = Inr s' \<Longrightarrow> driver_keeps_owned (eth_gmac s) (eth_gmac s')"
  by (auto simp: Eth_ReportTransmission_def dest: report_loop_keeps split: if_splits)

section \<open>Frames in flight\<close>

text \<open>What the DMA fetches for a descriptor: the bytes at its address, as many as its length field says.\<close>

definition dma_frame :: "mem \<Rightarrow> Gmac_Ip_BufferDescriptorType \<Rightarrow> u8 list" where
  "dma_frame m bd = mem_read m (Des0 bd) (unat (Des2 bd AND 0x3FFF))"

definition carries :: "mem \<Rightarrow> u32 \<Rightarrow> gmac_channel \<Rightarrow> u32 \<Rightarrow> u8 list \<Rightarrow> bool" where
  "carries m cap ch b frame \<longleftrightarrow>
    (\<exists>i < length (TxRing ch). let bd = TxRing ch ! i
       in dma_owned bd \<and> Info0 bd = b \<and> Des0 bd = b \<and> unat (Des2 bd AND 0x3FFF) \<le> unat cap \<and> dma_frame m bd = frame)"

definition buffers_disjoint :: "(nat \<Rightarrow> u32) \<Rightarrow> u32 \<Rightarrow> nat \<Rightarrow> bool" where
  "buffers_disjoint base cap n \<longleftrightarrow>
    (\<forall>i < n. \<forall>j < n. i \<noteq> j \<longrightarrow> disjoint_blocks (base i) (unat cap) (base j) (unat cap))"

lemma carries_keeps: "carries m cap ch b fr \<Longrightarrow> keeps_owned ch ch' \<Longrightarrow> carries m cap ch' b fr"
  by (auto simp: carries_def keeps_owned_def Let_def)

text \<open>A write inside one block does not show in a disjoint one.\<close>

lemma mem_read_write_disjoint:
  assumes d: "disjoint_blocks b n b' k" and off: "off + length bs \<le> k" and n': "n' \<le> n"
  shows "mem_read (mem_write (b' + of_nat off) bs m) b n' = mem_read m b n'"
proof (rule mem_read_cong)
  fix i assume i: "i < n'"
  let ?d = "unat (b - b')"
  have k: "k \<le> ?d" and n: "n \<le> unat (b' - b)" using d by (simp_all add: disjoint_blocks_def)
  have "b' - b \<noteq> 0" using n n' i by auto
  then have "unat b \<noteq> unat b'" by (metis right_minus_eq unsigned_word_eqI)
  then have "?d + unat (b' - b) = 2 ^ 32"
    using word_diff_nat [of b b'] word_diff_nat [of b' b] unat_u32_less [of b] unat_u32_less [of b'] by (auto split: if_splits)
  then have i32: "?d + i < 2 ^ 32" using n n' i by simp
  have off32: "off < 2 ^ 32" using off k unat_u32_less [of "b - b'"] by simp
  have s: "unat (b - b' + of_nat i) = ?d + i"
    using i32 by (simp add: unat_word_ariths unat_of_nat_u32)
  have "(of_nat off :: u32) \<le> b - b' + of_nat i"
    using s k off off32 by (simp add: word_le_nat_alt unat_of_nat_u32)
  then have "unat (b - b' + of_nat i - of_nat off) = ?d + i - off"
    using s off32 by (simp add: unat_sub unat_of_nat_u32)
  then have "length bs \<le> unat (b + of_nat i - (b' + of_nat off))"
    using k off by (simp add: algebra_simps)
  then show "mem_write (b' + of_nat off) bs m (b + of_nat i) = m (b + of_nat i)" by (rule mem_write_other)
qed

lemma carries_write:
  assumes "carries m cap ch b fr" "disjoint_blocks b (unat cap) b' (unat cap)" "off + length bs \<le> unat cap"
  shows "carries (mem_write (b' + of_nat off) bs m) cap ch b fr"
proof -
  have *: "mem_read (mem_write (b' + of_nat off) bs m) b k = mem_read m b k" if "k \<le> unat cap" for k
    using mem_read_write_disjoint [OF assms(2,3) that] .
  from assms(1) obtain i where i: "i < length (TxRing ch)" "dma_owned (TxRing ch ! i)" "Info0 (TxRing ch ! i) = b"
    "Des0 (TxRing ch ! i) = b" "unat (Des2 (TxRing ch ! i) AND 0x3FFF) \<le> unat cap" "dma_frame m (TxRing ch ! i) = fr"
    by (auto simp: carries_def Let_def)
  with * show ?thesis unfolding carries_def Let_def by (intro exI [of _ i]) (simp add: dma_frame_def)
qed

text \<open>Transmitting one more frame: the frames in flight stay as they are and the new one joins them.\<close>

lemma transmit_joins_flight:
  assumes ok: "fifo_ok base cap first h v r s" and ready: "driver_ready cfg s" and granted: "v_granted v = []"
    and prio: "unat prio < length (VlanPcpToFifoIdx cfg)" "VlanPcpToFifoIdx cfg ! unat prio = r"
    and len: "len \<le> 65521" "ucast (len + 14) \<le> cap" "length payload \<le> unat len" and dst: "length dst = 6"
    and room: "length (outstanding v) < length (TxRing (Ch (eth_gmac s) ! unat r))"
    and count: "first + length (TxRing (Ch (eth_gmac s) ! unat r)) \<le> unat (BufferCount cfg)"
    and disj: "buffers_disjoint base cap (length (TxRing (Ch (eth_gmac s) ! unat r)))"
    and flying: "list_all2 (carries (eth_mem s) cap (Ch (eth_gmac s) ! unat r)) (v_flying v) frames"
    and src: "Gmac_Ip_GetMacAddr 0 (eth_gmac s) = Inr src"
  shows "\<exists>s1 idx b glen s2.
    Eth_ProvideTxBuffer 0 prio len s = Inr (s1, BUFREQ_OK, Some (idx, b + 14), glen) \<and>
    Eth_Transmit 0 idx ty conf (of_nat (length payload)) dst (s1\<lparr>eth_mem := mem_write (b + 14) payload (eth_mem s1)\<rparr>) =
      Inr (s2, E_OK) \<and>
    fifo_ok base cap first h (v\<lparr>v_flying := v_flying v @ [b]\<rparr>) r s2 \<and> driver_ready cfg s2 \<and>
    length (TxRing (Ch (eth_gmac s2) ! unat r)) = length (TxRing (Ch (eth_gmac s) ! unat r)) \<and>
    Gmac_Ip_GetMacAddr 0 (eth_gmac s2) = Inr src \<and>
    list_all2 (carries (eth_mem s2) cap (Ch (eth_gmac s2) ! unat r)) (v_flying v @ [b]) (frames @ [eth_header dst src ty @ payload])"
proof -
  let ?n = "length (TxRing (Ch (eth_gmac s) ! unat r))" and ?k = "length (outstanding v)"
  let ?p = "ring_pos ?n h ?k"
  let ?b = "base ?p"
  note facts = fifo_facts [OF ok]
  obtain s1 idx glen s2 src' bd where r: "Eth_ProvideTxBuffer 0 prio len s = Inr (s1, BUFREQ_OK, Some (idx, ?b + 14), glen)"
    and t: "Eth_Transmit 0 idx ty conf (of_nat (length payload)) dst (s1\<lparr>eth_mem := mem_write (?b + 14) payload (eth_mem s1)\<rparr>) = Inr (s2, E_OK)"
    and s2: "fifo_ok base cap first h (v\<lparr>v_flying := v_flying v @ [?b]\<rparr>) r s2" "driver_ready cfg s2"
      "length (TxRing (Ch (eth_gmac s2) ! unat r)) = ?n" "?p < ?n"
    and src': "Gmac_Ip_GetMacAddr 0 (eth_gmac s) = Inr src'" "length src' = 6"
    and bd: "bd = TxRing (Ch (eth_gmac s2) ! unat r) ! ?p" "Des3 bd AND GMAC_TDES3_OWN_MASK \<noteq> 0" "Des0 bd = ?b" "Info0 bd = ?b"
      "unat (Des2 bd AND 0x3FFF) = 14 + length payload"
      "mem_read (eth_mem s2) (Des0 bd) (unat (Des2 bd AND 0x3FFF)) = eth_header dst src' ty @ payload"
    and m: "eth_mem s2 = mem_write ?b (eth_header dst src' ty) (mem_write (?b + 14) payload (eth_mem s))"
    using provide_transmit [OF ok ready granted prio len dst room count, of ty conf] by blast
  have src_eq: "src' = src" using src src' by simp
  have k1: "driver_keeps_owned (eth_gmac s) (eth_gmac s1)" using provide_keeps [OF r] .
  have k2: "driver_keeps_owned (eth_gmac s1) (eth_gmac s2)" using transmit_keeps [OF t] by simp
  have keeps: "driver_keeps_owned (eth_gmac s) (eth_gmac s2)" using driver_keeps_trans [OF k1 k2] .
  then have g2: "eth_gmac s2 = (eth_gmac s)\<lparr>Ch := Ch (eth_gmac s2)\<rparr>" by (simp add: driver_keeps_owned_def)
  have mac: "Gmac_Ip_GetMacAddr 0 (eth_gmac s2) = Inr src" using src by (subst g2) (simp add: Gmac_Ip_GetMacAddr_def)
  have ch: "keeps_owned (Ch (eth_gmac s) ! unat r) (Ch (eth_gmac s2) ! unat r)"
    using keeps facts(3) by (simp add: driver_keeps_owned_def)
  have plen: "14 + length payload \<le> unat cap"
  proof -
    have "unat (len + 14) = unat len + 14" using len(1) by (simp add: unat_word_ariths word_le_nat_alt)
    then show ?thesis using len(2,3) by (simp add: word_le_nat_alt unat_ucast_up)
  qed
  have hlen: "length (eth_header dst src ty) = 14" using dst src' src_eq by (simp add: eth_header_def)
  have old: "list_all2 (carries (eth_mem s2) cap (Ch (eth_gmac s2) ! unat r)) (v_flying v) frames"
  proof (rule list_all2_all_nthI)
    show "length (v_flying v) = length frames" using flying by (rule list_all2_lengthD)
    fix j assume j: "j < length (v_flying v)"
    let ?j = "length (v_done v) + j"
    have o: "?j < ?k" "outstanding v ! ?j = v_flying v ! j" using j by (simp_all add: outstanding_def nth_append)
    then have bj: "v_flying v ! j = base (ring_pos ?n h ?j)" using window_nth [OF facts(4) o(1)] by simp
    have "ring_pos ?n h ?j \<noteq> ?p" using o(1) room by (subst ring_pos_inj) auto
    then have d: "disjoint_blocks (v_flying v ! j) (unat cap) ?b (unat cap)"
      using disj facts(13) bj by (simp add: buffers_disjoint_def)
    have "carries (eth_mem s) cap (Ch (eth_gmac s) ! unat r) (v_flying v ! j) (frames ! j)"
      using list_all2_nthD [OF flying j] .
    then have "carries (mem_write (?b + of_nat 14) payload (eth_mem s)) cap (Ch (eth_gmac s) ! unat r) (v_flying v ! j) (frames ! j)"
      using d plen by (intro carries_write) auto
    from carries_write [OF this d, of 0 "eth_header dst src ty"]
    have "carries (mem_write (?b + of_nat 0) (eth_header dst src ty) (mem_write (?b + of_nat 14) payload (eth_mem s))) cap
        (Ch (eth_gmac s) ! unat r) (v_flying v ! j) (frames ! j)"
      using plen hlen by simp
    then show "carries (eth_mem s2) cap (Ch (eth_gmac s2) ! unat r) (v_flying v ! j) (frames ! j)"
      using m src_eq ch by (auto intro: carries_keeps)
  qed
  have "carries (eth_mem s2) cap (Ch (eth_gmac s2) ! unat r) ?b (eth_header dst src ty @ payload)"
    unfolding carries_def Let_def dma_owned_def dma_frame_def
    using bd s2(3,4) plen src_eq by (intro exI [of _ ?p]) simp
  with old have "list_all2 (carries (eth_mem s2) cap (Ch (eth_gmac s2) ! unat r)) (v_flying v @ [?b]) (frames @ [eth_header dst src ty @ payload])"
    by (simp add: list_all2_appendI)
  with r t s2 mac show ?thesis by blast
qed

text \<open>The DMA at its current descriptor: when it owns it, the frame it fetches is the oldest one in flight.\<close>

lemma dma_cur_owned:
  assumes ok: "fifo_ok base cap first h v r s"
  defines "n \<equiv> length (TxRing (Ch (eth_gmac s) ! unat r))"
  defines "bd \<equiv> TxRing (Ch (eth_gmac s) ! unat r) ! ring_pos n h (length (v_done v))"
  shows "dma_owned bd \<longleftrightarrow> v_flying v \<noteq> []" "v_flying v = b # F \<Longrightarrow> Info0 bd = b"
proof -
  let ?c = "length (v_done v)"
  note facts = fifo_facts [OF ok, folded n_def]
  show own: "dma_owned bd \<longleftrightarrow> v_flying v \<noteq> []"
  proof (cases "?c < n")
    case True
    then show ?thesis using window_slot [OF facts(4), of ?c]
      by (auto simp: slot_ok_def dma_owned_def bd_def n_def outstanding_def split: if_splits)
  next
    case False
    then have c: "?c = n" "v_flying v = []" using facts(14) by (cases "v_flying v"; simp add: outstanding_def)+
    have "ring_pos n h n = ring_pos n h 0" using facts(13) by (simp add: ring_pos_def)
    then show ?thesis using c window_slot [OF facts(4), of 0] window_facts(3) [OF facts(4)]
      by (auto simp: slot_ok_def dma_owned_def bd_def n_def split: if_splits)
  qed
  assume f: "v_flying v = b # F"
  then have c: "?c < length (outstanding v)" "outstanding v ! ?c = b" by (simp_all add: outstanding_def nth_append)
  have "?c < n" using c(1) facts(14) by simp
  then have "Info0 bd = base (ring_pos n h ?c)" using window_info0 [OF facts(4), of ?c] f by (simp add: bd_def n_def)
  then show "Info0 bd = b" using window_nth [OF facts(4) c(1)] c(2) by (simp add: n_def)
qed

lemma dma_fetches_oldest:
  assumes ok: "fifo_ok base cap first h v r s"
  defines "n \<equiv> length (TxRing (Ch (eth_gmac s) ! unat r))"
  defines "c \<equiv> ring_pos n h (length (v_done v))"
  assumes own: "dma_owned (TxRing (Ch (eth_gmac s) ! unat r) ! c)"
    and flying: "list_all2 (carries (eth_mem s) cap (Ch (eth_gmac s) ! unat r)) (v_flying v) frames"
  shows "\<exists>b F fs. v_flying v = b # F \<and> frames = dma_frame (eth_mem s) (TxRing (Ch (eth_gmac s) ! unat r) ! c) # fs \<and>
    fifo_ok base cap first h (v\<lparr>v_done := v_done v @ [b], v_flying := F\<rparr>) r (eth_dma_done r c lo hi status s) \<and>
    list_all2 (carries (eth_mem s) cap (Ch (eth_gmac (eth_dma_done r c lo hi status s)) ! unat r)) F fs"
proof -
  let ?ch = "Ch (eth_gmac s) ! unat r"
  let ?ch' = "Ch (eth_gmac (eth_dma_done r c lo hi status s)) ! unat r"
  note facts = fifo_facts [OF ok, folded n_def]
  obtain b F where f: "v_flying v = b # F" using dma_cur_owned(1) [OF ok] own by (auto simp: c_def n_def neq_Nil_conv)
  have i: "Info0 (TxRing ?ch ! c) = b" using dma_cur_owned(2) [OF ok f] by (simp add: c_def n_def)
  have cn: "c < n" using facts(13) by (simp add: c_def)
  obtain f0 fs where fs: "frames = f0 # fs" "carries (eth_mem s) cap ?ch b f0" "list_all2 (carries (eth_mem s) cap ?ch) F fs"
    using flying f by (auto simp: list_all2_Cons1)
  have uniq: "j = c" if "j < n" "Info0 (TxRing ?ch ! j) = b" for j
  proof -
    have d: "length (v_done v) < length (v_done v) + length (v_flying v)" using f by simp
    have "base c = b" using window_nth [OF facts(4), of "length (v_done v)"] f
      by (simp add: outstanding_def nth_append c_def n_def)
    with window_info0_unique [OF facts(4) _ d, of j] that show ?thesis by (simp add: c_def n_def)
  qed
  have "f0 = dma_frame (eth_mem s) (TxRing ?ch ! c)"
    using fs(2) uniq by (auto simp: carries_def Let_def n_def)
  moreover have "fifo_ok base cap first h (v\<lparr>v_done := v_done v @ [b], v_flying := F\<rparr>) r (eth_dma_done r c lo hi status s)"
    using fifo_dma_done [OF ok f, of c lo hi status] cn i by (simp add: n_def)
  moreover have "list_all2 (carries (eth_mem s) cap ?ch') F fs"
  proof (rule list_all2_all_nthI)
    show "length F = length fs" using fs(3) by (rule list_all2_lengthD)
    fix j assume j: "j < length F"
    have "distinct (outstanding v)" using outstanding_distinct [OF facts(4)] .
    then have "F ! j \<noteq> b" using f j by (auto simp: outstanding_def)
    moreover obtain k where k: "k < n" "dma_owned (TxRing ?ch ! k)" "Info0 (TxRing ?ch ! k) = F ! j" "Des0 (TxRing ?ch ! k) = F ! j"
        "unat (Des2 (TxRing ?ch ! k) AND 0x3FFF) \<le> unat cap" "dma_frame (eth_mem s) (TxRing ?ch ! k) = fs ! j"
      using list_all2_nthD [OF fs(3) j] by (auto simp: carries_def Let_def n_def)
    ultimately have "k \<noteq> c" using i by auto
    then have "TxRing ?ch' ! k = TxRing ?ch ! k" "length (TxRing ?ch') = n"
      using facts(3) by (simp_all add: eth_dma_done_def dma_write_back_def n_def)
    with k show "carries (eth_mem s) cap ?ch' (F ! j) (fs ! j)"
      unfolding carries_def Let_def by (intro exI [of _ k]) simp
  qed
  ultimately show ?thesis using f fs(1) by blast
qed


text \<open>The buffers that the initialisation lays out one behind the other are disjoint.\<close>

lemma tx_base_disjoint:
  assumes cfg: "tx_config_ok cfg"
  shows "buffers_disjoint (tx_base cfg) (tx_cap cfg) (unat (TxRingSize cfg))"
proof -
  let ?l = "unat (TxBufferLen cfg)" and ?n = "unat (TxRingSize cfg)" and ?B = "unat (TxBuffer cfg)"
  have bound: "?B + ?l * ?n \<le> 2 ^ 32" using cfg by (simp add: tx_config_ok_def)
  have cap: "unat (tx_cap cfg) \<le> ?l"
  proof -
    have "tx_cap cfg \<le> ucast (TxBufferLen cfg)" by (simp add: tx_cap_def word_and_le2)
    then show ?thesis by (simp add: word_le_nat_alt unat_ucast_up)
  qed
  have "unat (tx_cap cfg) \<le> unat (tx_base cfg j - tx_base cfg i)" if ij: "i < ?n" "j < ?n" "i \<noteq> j" for i j
  proof (cases "i < j")
    case True
    then obtain d where d: "j = Suc (i + d)" using less_imp_Suc_add by blast
    have "unat (tx_base cfg j - tx_base cfg i) = ?l * Suc d"
      unfolding word_diff_nat unat_tx_base [OF cfg ij(1)] unat_tx_base [OF cfg ij(2)] using d by (simp add: algebra_simps)
    then show ?thesis using cap by simp
  next
    case False
    then obtain d where d: "i = Suc (j + d)" using ij(3) less_imp_Suc_add by (metis linorder_neqE_nat)
    obtain e where e: "?n = Suc (i + e)" using ij(1) less_imp_Suc_add by blast
    have l: "0 < ?l" using cfg by (simp add: tx_config_ok_def word_less_nat_alt unat_gt_0)
    have less: "\<not> ?B + ?l * i \<le> ?B + ?l * j" using l d by (simp add: algebra_simps)
    have b: "?B + ?l * i + ?l \<le> 2 ^ 32" using bound unfolding e by (simp add: algebra_simps)
    have "unat (tx_base cfg j - tx_base cfg i) = ?B + ?l * j + 2 ^ 32 - (?B + ?l * i)"
      unfolding word_diff_nat unat_tx_base [OF cfg ij(1)] unat_tx_base [OF cfg ij(2)] using less by simp
    then show ?thesis using cap b by simp
  qed
  then show ?thesis by (auto simp: buffers_disjoint_def disjoint_blocks_def)
qed

section \<open>Properties\<close>

text \<open>(C11) The driver never writes a descriptor that the DMA owns. Whatever the state and the arguments,
  a call of \<open>Eth_ProvideTxBuffer\<close>, \<open>Eth_Transmit\<close> or \<open>Eth_ReportTransmission\<close> that returns leaves every
  transmit descriptor of every channel unchanged that had the ownership bit set before the call.\<close>

theorem driver_respects_dma:
  assumes "Eth_ProvideTxBuffer c p len s = Inr (s', x) \<or> Eth_Transmit c i ty conf n dst s = Inr (s', y) \<or>
      Eth_ReportTransmission c f s = Inr s'"
    and "k < length (Ch (eth_gmac s))" "j < length (TxRing (Ch (eth_gmac s) ! k))"
    and "Des3 (TxRing (Ch (eth_gmac s) ! k) ! j) AND GMAC_TDES3_OWN_MASK \<noteq> 0"
  shows "TxRing (Ch (eth_gmac s') ! k) ! j = TxRing (Ch (eth_gmac s) ! k) ! j"
proof -
  have "driver_keeps_owned (eth_gmac s) (eth_gmac s')"
    using assms(1) by (auto dest: provide_keeps transmit_keeps report_keeps)
  with assms(2-) show ?thesis by (simp add: driver_keeps_owned_def keeps_owned_def dma_owned_def)
qed

text \<open>The example driver with one frame in flight.\<close>

lemma ex_eth_flying:
  "\<exists>s b. fifo_ok (tx_base ex_tx_config) (tx_cap ex_tx_config) 0 0 \<lparr>v_done = [], v_flying = [b], v_granted = []\<rparr> 0 s \<and>
     length (TxRing (Ch (eth_gmac s) ! 0)) = 2"
proof -
  let ?base = "tx_base ex_tx_config" and ?cap = "tx_cap ex_tx_config"
  have "v_granted empty_view = []" "unat (0 :: u8) < length (VlanPcpToFifoIdx ex_eth_config)"
    "VlanPcpToFifoIdx ex_eth_config ! unat (0 :: u8) = 0" "(20 :: u16) \<le> 65521" "ucast (20 + 14 :: u16) \<le> ?cap"
    "length [1, 2, 3 :: u8] \<le> unat (20 :: u16)" "length [0, 0x11, 0x22, 0x33, 0x44, 0x44 :: u8] = 6"
    "length (outstanding empty_view) < length (TxRing (Ch (eth_gmac ex_eth) ! unat (0 :: u8)))"
    "0 + length (TxRing (Ch (eth_gmac ex_eth) ! unat (0 :: u8))) \<le> unat (BufferCount ex_eth_config)"
    unfolding ex_eth_length
    by (simp_all add: empty_view_def outstanding_def ex_eth_config_def tx_cap_def ex_tx_config_def)
  from provide_transmit [OF ex_eth_fifo_ok ex_eth_ready this, of 0 True, unfolded ex_eth_length]
  obtain s2 where "fifo_ok ?base ?cap 0 0 (empty_view\<lparr>v_flying := v_flying empty_view @ [?base (ring_pos 2 0 (length (outstanding empty_view)))]\<rparr>) 0 s2"
    "length (TxRing (Ch (eth_gmac s2) ! unat (0 :: u8))) = 2" by blast
  then show ?thesis by (auto simp: empty_view_def outstanding_def)
qed

theorem driver_respects_dma_witness:
  "\<exists>s s'. Eth_ReportTransmission 0 0 s = Inr s' \<and> Des3 (TxRing (Ch (eth_gmac s) ! 0) ! 0) AND GMAC_TDES3_OWN_MASK \<noteq> 0 \<and>
     TxRing (Ch (eth_gmac s') ! 0) ! 0 = TxRing (Ch (eth_gmac s) ! 0) ! 0"
proof -
  obtain s b where s: "fifo_ok (tx_base ex_tx_config) (tx_cap ex_tx_config) 0 0 \<lparr>v_done = [], v_flying = [b], v_granted = []\<rparr> 0 s"
    "length (TxRing (Ch (eth_gmac s) ! 0)) = 2" using ex_eth_flying by blast
  obtain s' where s': "Eth_ReportTransmission 0 0 s = Inr s'" using report_exact [OF s(1)] by blast
  have own: "Des3 (TxRing (Ch (eth_gmac s) ! 0) ! 0) AND GMAC_TDES3_OWN_MASK \<noteq> 0"
    using dma_cur_owned(1) [OF s(1)] s(2) by (simp add: dma_owned_def ring_pos_def)
  have "0 < length (Ch (eth_gmac s))" using fifo_facts(3) [OF s(1)] by simp
  then have "TxRing (Ch (eth_gmac s') ! 0) ! 0 = TxRing (Ch (eth_gmac s) ! 0) ! 0"
    using driver_respects_dma [of 0 0 0 s s' _ 0 0 True 0 "[]" _ 0 0 0] s' own s(2) by simp
  with s' own show ?thesis by blast
qed

end
