(* ===== verification/Gw_Container.thy ===== *)
theory Gw_Container
  imports Gw_Msg Gw_Tas Container_Spec Freertos_Queue Eth_Dma
begin

text \<open>
  The transmit task \<open>ETH_PDU_Send_TAS\<close> of \<open>src/FlexCAN_SKKU.c\<close>: it takes CAN messages from the queue,
  packs them as I-PDUs into a container and sends the container as one Ethernet frame when the gate
  of FIFO 0 is open, when the container is full or when the next I-PDU does not fit. The task's local
  variables are a record; one pass through the endless loop is a function from the locals and the
  shared state to their new values. The MAC clock that the gate decision reads is an argument of the pass.
\<close>

section \<open>State\<close>

record CANStatistics_t =
  rxCount :: u32
  txCount :: u32
  txErrCount :: u32
  queueFullErrors :: u32
  ethBufferErrors :: u32
  ethTxErrors :: u32
  containersSent :: u32
  containersDropped :: u32
  boundary4KBCrosses :: u32
  boundary4KBRetries :: u32
  boundary4KBFailures :: u32

record gateway =
  gw_kernel :: qkernel
  gw_eth :: eth
  canStats :: CANStatistics_t
  xQueue_CAN :: u32

record tas_locals =
  rxData :: Flexcan_Ip_MsgBuffType
  overflowPdu :: Flexcan_Ip_MsgBuffType
  hasOverflowPdu :: bool
  currentContainer :: "u8 list"
  containerLen :: u16
  iPduCount :: u8
  currentTC :: u8
  containerPending :: bool
  bufIdx :: u32
  ethPayload :: u32
  bufLen :: u16

abbreviation "CONTAINER_MAX_SIZE \<equiv> (1536 :: nat)"
abbreviation "CONTAINER_LIMIT \<equiv> (1518 :: nat)"
abbreviation "GW_CONTAINER_VERSION \<equiv> (0x01 :: u8)"
abbreviation "GW_CONTAINER_HDR_SIZE \<equiv> (2 :: u16)"
abbreviation "GW_IPDU_HDR_SIZE \<equiv> (3 :: u16)"

definition Gmac_0_MacAddr :: "u8 list" where
  "Gmac_0_MacAddr = [0x00, 0x11, 0x22, 0x33, 0x44, 0x44]"

section \<open>One pass of the loop\<close>

text \<open>
  Section 1, the source of the next message: the one set aside, else the queue, polled with block time 0
  (such a call always returns). The third component is \<open>hasPduToProcess\<close>.
\<close>

definition pdu_source :: "tas_locals \<Rightarrow> gateway \<Rightarrow> (tas_locals \<times> gateway \<times> bool) res" where
  "pdu_source t w =
    (if hasOverflowPdu t then Inr (t\<lparr>rxData := overflowPdu t, hasOverflowPdu := False\<rparr>, w, True)
     else rbind (xQueueReceive (xQueue_CAN w) False 0 (gw_kernel w)) (\<lambda>(k, bs, out).
          case out of
            Returned st \<Rightarrow>
              (if st = pdPASS then Inr (t\<lparr>rxData := msg_of_bytes bs\<rparr>, w\<lparr>gw_kernel := k\<rparr>, True)
               else Inr (t, w\<lparr>gw_kernel := k\<rparr>, False))
          | Continue _ \<Rightarrow> Inl NoExit))"

definition start_container :: "u8 \<Rightarrow> tas_locals \<Rightarrow> tas_locals" where
  "start_container msgTC t =
    (if containerPending t then t
     else t\<lparr>currentContainer := (currentContainer t)[0 := GW_CONTAINER_VERSION, 1 := 0],
            containerLen := GW_CONTAINER_HDR_SIZE, iPduCount := 0, currentTC := msgTC, containerPending := True\<rparr>)"

text \<open>
  Section 2, packing. Sums are computed in \<open>int\<close>, so they do not wrap; \<open>memcpy\<close> reads \<open>iPduLen\<close> bytes of
  the 64-byte data array and writes into the 1536-byte container.
\<close>

definition add_ipdu :: "u16 \<Rightarrow> u8 \<Rightarrow> tas_locals \<Rightarrow> tas_locals res" where
  "add_ipdu iPduId msgTC t =
    (let iPduLen = dataLen (rxData t);
         requiredSpace = GW_IPDU_HDR_SIZE + ucast iPduLen;
         n = unat (containerLen t)
     in if n + unat requiredSpace \<le> CONTAINER_LIMIT
        then if unat iPduLen \<le> length (msg_data (rxData t)) \<and> n + unat requiredSpace \<le> length (currentContainer t)
             then let c1 = blit (currentContainer t) n
                             [ucast (drop_bit 8 iPduId), ucast (iPduId AND 0xFF), iPduLen];
                      c2 = blit c1 (n + 3) (take (unat iPduLen) (msg_data (rxData t)));
                      cnt = iPduCount t + 1
                  in Inr (t\<lparr>currentContainer := c2[1 := cnt], containerLen := containerLen t + requiredSpace,
                            iPduCount := cnt, currentTC := (if msgTC < currentTC t then msgTC else currentTC t)\<rparr>)
             else Inl OutOfBounds
        else Inr (t\<lparr>overflowPdu := rxData t, hasOverflowPdu := True\<rparr>))"

text \<open>The result \<open>False\<close> is the \<open>continue\<close> for an unmapped identifier, which ends the pass.\<close>

definition pdu_process :: "tas_locals \<Rightarrow> (tas_locals \<times> bool) res" where
  "pdu_process t =
    (let (iPduId, tc) = GW_GetPduId_FromCanFd (msgId (rxData t)) (Some TC_BEST_EFFORT); msgTC = the tc
     in if iPduId = 0xFFFF then Inr (t, False)
        else rbind (add_ipdu iPduId msgTC (start_container msgTC t)) (\<lambda>t'. Inr (t', True)))"

text \<open>Section 3, the decision.\<close>

definition shouldTransmit :: "u32 \<Rightarrow> u32 \<Rightarrow> tas_locals \<Rightarrow> bool" where
  "shouldTransmit sec nsec t \<longleftrightarrow>
    containerPending t \<and> containerLen t > GW_CONTAINER_HDR_SIZE \<and>
    (hasOverflowPdu t \<or> unat (containerLen t) \<ge> CONTAINER_LIMIT \<or>
     TAS_IsGateOpen_FIFOx sec nsec 0 \<and> containerLen t \<ge> 2)"

text \<open>Section 4, the transmission. \<open>E_OK\<close> and \<open>BUFREQ_OK\<close> are both 0.\<close>

definition transmit_container :: "tas_locals \<Rightarrow> gateway \<Rightarrow> (tas_locals \<times> gateway) res" where
  "transmit_container t w =
    (let fifoIdx = TC_to_FIFO (currentTC t)
     in rbind (Eth_ProvideTxBuffer 0 fifoIdx (of_nat CONTAINER_LIMIT) (gw_eth w)) (\<lambda>(e1, ret, granted, len).
        let reset = (\<lambda>t. t\<lparr>containerPending := False, containerLen := 0, iPduCount := 0\<rparr>);
            w1 = w\<lparr>gw_eth := e1\<rparr>;
            t1 = t\<lparr>bufLen := len\<rparr>
        in case (ret, granted) of
             (BUFREQ_OK, Some (idx, payload)) \<Rightarrow>
               (if unat (containerLen t) \<le> length (currentContainer t)
                then let e2 = e1\<lparr>eth_mem := mem_write payload (take (unat (containerLen t)) (currentContainer t)) (eth_mem e1)\<rparr>
                     in rbind (Eth_Transmit 0 idx 0x0A0B True (containerLen t) Gmac_0_MacAddr e2) (\<lambda>(e3, ret2).
                        Inr (reset (t1\<lparr>bufIdx := idx, ethPayload := payload\<rparr>),
                             w1\<lparr>gw_eth := e3, canStats := (if ret2 = E_OK
                                then (canStats w)\<lparr>containersSent := containersSent (canStats w) + 1\<rparr>
                                else (canStats w)\<lparr>ethTxErrors := ethTxErrors (canStats w) + 1\<rparr>)\<rparr>))
                else Inl OutOfBounds)
           | _ \<Rightarrow> Inr (reset t1, w1\<lparr>canStats := (canStats w)\<lparr>ethBufferErrors := ethBufferErrors (canStats w) + 1\<rparr>\<rparr>)))"

definition ETH_PDU_Send_TAS_pass :: "u32 \<Rightarrow> u32 \<Rightarrow> tas_locals \<times> gateway \<Rightarrow> (tas_locals \<times> gateway) res" where
  "ETH_PDU_Send_TAS_pass sec nsec s =
    (case s of (t, w) \<Rightarrow>
     rbind (pdu_source t w) (\<lambda>(t1, w1, hasPduToProcess).
     rbind (if hasPduToProcess then pdu_process t1 else Inr (t1, True)) (\<lambda>(t2, go_on).
     if go_on \<and> shouldTransmit sec nsec t2 then transmit_container t2 w1 else Inr (t2, w1))))"

text \<open>
  The container a pass decides to send: its bytes at the point where the transmission of section 4 begins, whether or
  not the driver then takes them.
\<close>

definition pass_formed :: "u32 \<Rightarrow> u32 \<Rightarrow> tas_locals \<times> gateway \<Rightarrow> u8 list option" where
  "pass_formed sec nsec s =
    (case s of (t, w) \<Rightarrow>
     case rbind (pdu_source t w) (\<lambda>(t1, _, hasPduToProcess). if hasPduToProcess then pdu_process t1 else Inr (t1, True)) of
       Inr (t2, go_on) \<Rightarrow>
         (if go_on \<and> shouldTransmit sec nsec t2 then Some (take (unat (containerLen t2)) (currentContainer t2)) else None)
     | Inl _ \<Rightarrow> None)"

section \<open>The callback's side of the queue\<close>

text \<open>
  The enqueueing part of \<open>CAN0_Callback_SKKU\<close>: the message is counted and sent to the queue; the result says whether
  the queue took it.
\<close>

definition callback_enqueue :: "u8 list \<Rightarrow> Flexcan_Ip_MsgBuffType \<Rightarrow> gateway \<Rightarrow> (gateway \<times> bool) res" where
  "callback_enqueue pad m w =
    rbind (xQueueGenericSendFromISR (xQueue_CAN w) (Some (msg_bytes pad m)) False queueSEND_TO_BACK (gw_kernel w)) (\<lambda>(k, woken, st).
    let c = (canStats w)\<lparr>rxCount := rxCount (canStats w) + 1\<rparr>
    in if st = pdPASS then Inr (w\<lparr>gw_kernel := k, canStats := c\<rparr>, True)
       else Inr (w\<lparr>gw_kernel := k, canStats := c\<lparr>queueFullErrors := queueFullErrors c + 1\<rparr>\<rparr>, False))"

section \<open>The container under construction\<close>

text \<open>The messages the driver delivers: 64 bytes of data, of which the first \<open>dataLen\<close> count.\<close>

definition msg_ok :: "Flexcan_Ip_MsgBuffType \<Rightarrow> bool" where
  "msg_ok m \<longleftrightarrow> length (msg_data m) = 64 \<and> unat (dataLen m) \<le> 64"

text \<open>The I-PDU a message contributes: none when its identifier is not in the table.\<close>

definition ipdus_of :: "Flexcan_Ip_MsgBuffType \<Rightarrow> ipdu list" where
  "ipdus_of m =
    (let i = fst (GW_GetPduId_FromCanFd (msgId m) (Some TC_BEST_EFFORT))
     in if i = 0xFFFF then [] else [(i, take (unat (dataLen m)) (msg_data m))])"

definition container_is :: "ipdu list \<Rightarrow> tas_locals \<Rightarrow> bool" where
  "container_is ps t \<longleftrightarrow>
    length (currentContainer t) = CONTAINER_MAX_SIZE \<and> containerPending t \<and>
    unat (containerLen t) = length (encode ps) \<and> length (encode ps) \<le> CONTAINER_LIMIT \<and>
    take (length (encode ps)) (currentContainer t) = encode ps \<and>
    iPduCount t = of_nat (length ps) \<and> currentTC t = TC_CRITICAL"

text \<open>Between two passes: no container, or a container with at least one I-PDU, and a message set aside only without container.\<close>

definition locals_ok :: "ipdu list \<Rightarrow> tas_locals \<Rightarrow> bool" where
  "locals_ok ps t \<longleftrightarrow>
    length (currentContainer t) = CONTAINER_MAX_SIZE \<and>
    (if containerPending t then ps \<noteq> [] \<and> container_is ps t else ps = [] \<and> containerLen t = 0 \<and> iPduCount t = 0) \<and>
    (hasOverflowPdu t \<longrightarrow> \<not> containerPending t \<and> msg_ok (overflowPdu t) \<and> ipdus_of (overflowPdu t) \<noteq> [])"

lemma ipdus_of_cases:
  "ipdus_of m = [] \<and> fst (GW_GetPduId_FromCanFd (msgId m) (Some TC_BEST_EFFORT)) = 0xFFFF \<or>
   (\<exists>i. GW_GetPduId_FromCanFd (msgId m) (Some TC_BEST_EFFORT) = (i, Some TC_CRITICAL) \<and> i \<noteq> 0xFFFF \<and>
        ipdus_of m = [(i, take (unat (dataLen m)) (msg_data m))])"
proof (cases "1 \<le> msgId m \<and> msgId m \<le> 4")
  case True
  then have l: "GW_GetPduId_FromCanFd (msgId m) (Some TC_BEST_EFFORT) = (1000 + ucast (msgId m), Some TC_CRITICAL)"
    by (simp add: pdu_id_lookup)
  have "msgId m = 1 \<or> msgId m = 2 \<or> msgId m = 3 \<or> msgId m = 4"
    using True by (auto simp: word_unat_eq_iff word_le_nat_alt)
  then have "(1000 + ucast (msgId m) :: u16) \<noteq> 0xFFFF" by auto
  with l show ?thesis by (simp add: ipdus_of_def)
next
  case False
  then have "GW_GetPduId_FromCanFd (msgId m) (Some TC_BEST_EFFORT) = (0xFFFF, Some TC_BEST_EFFORT)"
    by (simp add: pdu_id_lookup)
  then show ?thesis by (simp add: ipdus_of_def)
qed

lemma ipdu_length: "msg_ok m \<Longrightarrow> p \<in> set (ipdus_of m) \<Longrightarrow> length (snd p) = unat (dataLen m)"
  by (auto simp: ipdus_of_def msg_ok_def Let_def split: if_splits)

lemma encode_ge_2: "2 \<le> length (encode ps)"
  by (simp add: length_encode)

lemma length_encode_append: "length (encode (ps @ qs)) = length (encode ps) + (length (encode qs) - 2)"
  by (simp add: length_encode)

text \<open>A fresh container holds nothing yet.\<close>

lemma start_container_fresh:
  assumes "length (currentContainer t) = CONTAINER_MAX_SIZE" "\<not> containerPending t"
  shows "container_is [] (start_container TC_CRITICAL t)"
proof -
  obtain x y cs where c: "currentContainer t = x # y # cs" using assms(1)
    by (cases "currentContainer t"; cases "tl (currentContainer t)") auto
  with assms show ?thesis by (simp add: container_is_def start_container_def)
qed

text \<open>Adding an I-PDU that fits extends the encoding; the new bytes lie inside the limit.\<close>

lemma add_ipdu_fits:
  fixes i :: u16
  assumes c: "container_is ps t" and m: "msg_ok (rxData t)"
    and fits: "length (encode ps) + 3 + unat (dataLen (rxData t)) \<le> CONTAINER_LIMIT"
    and p: "p = (i, take (unat (dataLen (rxData t))) (msg_data (rxData t)))"
  shows "\<exists>t'. add_ipdu i TC_CRITICAL t = Inr t' \<and> container_is (ps @ [p]) t' \<and>
    hasOverflowPdu t' = hasOverflowPdu t \<and> overflowPdu t' = overflowPdu t"
proof -
  let ?n = "length (encode ps)" and ?l = "unat (dataLen (rxData t))" and ?cc = "currentContainer t"
  let ?h = "[ucast (drop_bit 8 i), ucast (i AND 0xFF), dataLen (rxData t)]"
  let ?d = "take ?l (msg_data (rxData t))"
  have n: "unat (containerLen t) = ?n" and len: "length ?cc = CONTAINER_MAX_SIZE" and pre: "take ?n ?cc = encode ps"
    using c by (simp_all add: container_is_def)
  have lo: "(ucast (i AND 0xFF) :: u8) = ucast i"
    by (simp add: bit_eq_iff [where ?'a = "8 word"] bit_simps) (auto simp: bit_mask_literals)
  have pe: "encode_ipdu p = ?h @ ?d" using m by (simp add: encode_ipdu_def p lo msg_ok_def)
  have rs: "unat (GW_IPDU_HDR_SIZE + ucast (dataLen (rxData t)) :: u16) = 3 + ?l"
    using m by (simp add: unat_word_ariths unat_ucast_up msg_ok_def)
  have ld: "length ?d = ?l" using m by (simp add: msg_ok_def)
  let ?c2 = "blit (blit ?cc ?n ?h) (?n + 3) ?d" and ?cnt = "iPduCount t + 1"
  have c2: "take (?n + 3 + ?l) ?c2 = encode ps @ encode_ipdu p"
  proof -
    have "take (?n + 3 + ?l) ?c2 = take (?n + 3) (blit ?cc ?n ?h) @ ?d"
      using take_blit_ge [of "?n + 3" ?d "blit ?cc ?n ?h"] len fits ld by simp
    also have "take (?n + 3) (blit ?cc ?n ?h) = encode ps @ ?h"
      using take_blit_ge [of ?n ?h ?cc] len fits pre by (simp add: numeral_3_eq_3)
    finally show ?thesis by (simp add: pe)
  qed
  have cnt: "?cnt = of_nat (Suc (length ps))" using c by (simp add: container_is_def)
  have "take (?n + 3 + ?l) (?c2[1 := ?cnt]) = encode (ps @ [p])"
    using c2 cnt by (simp add: encode_snoc take_update_swap add.commute)
  moreover have le: "length (encode (ps @ [p])) = ?n + 3 + ?l" using ld by (simp add: length_encode p)
  moreover have "unat (containerLen t + (GW_IPDU_HDR_SIZE + ucast (dataLen (rxData t)))) = ?n + 3 + ?l"
    using n rs fits by (subst unat_word_ariths) simp
  moreover have "length ?c2 = CONTAINER_MAX_SIZE" using len fits ld by simp
  ultimately show ?thesis
    using c m n rs len fits cnt by (auto simp: add_ipdu_def Let_def container_is_def msg_ok_def add.commute [of "1 :: u8"])
qed

lemma add_ipdu_overflows:
  assumes c: "container_is ps t" and m: "msg_ok (rxData t)"
    and full: "\<not> length (encode ps) + 3 + unat (dataLen (rxData t)) \<le> CONTAINER_LIMIT"
  shows "add_ipdu i tc t = Inr (t\<lparr>overflowPdu := rxData t, hasOverflowPdu := True\<rparr>)"
proof -
  have "unat (GW_IPDU_HDR_SIZE + ucast (dataLen (rxData t)) :: u16) = 3 + unat (dataLen (rxData t))"
    using m by (simp add: unat_word_ariths unat_ucast_up msg_ok_def)
  with assms show ?thesis by (simp add: add_ipdu_def Let_def container_is_def)
qed


text \<open>
  Packing one message into the container of the pass. A message without I-PDU changes nothing and ends the
  pass; otherwise its I-PDU is appended when it fits, and set aside when it does not, which cannot happen to
  a fresh container.
\<close>

lemma locals_ok_start:
  assumes ok: "locals_ok ps t"
  shows "container_is ps (start_container TC_CRITICAL t)"
  using ok start_container_fresh [of t] by (cases "containerPending t") (auto simp: locals_ok_def start_container_def)

lemma start_container_simps [simp]:
  "rxData (start_container tc t) = rxData t" "overflowPdu (start_container tc t) = overflowPdu t"
  "hasOverflowPdu (start_container tc t) = hasOverflowPdu t"
  by (simp_all add: start_container_def)

lemma pdu_process_unmapped:
  assumes "ipdus_of (rxData t) = []"
  shows "pdu_process t = Inr (t, False)"
proof -
  have "fst (GW_GetPduId_FromCanFd (msgId (rxData t)) (Some TC_BEST_EFFORT)) = 0xFFFF"
    using assms by (simp add: ipdus_of_def Let_def split: if_splits)
  then show ?thesis by (auto simp: pdu_process_def Let_def split: prod.splits)
qed

lemma pdu_process_packs:
  assumes ok: "locals_ok ps t" and m: "msg_ok (rxData t)" and i: "ipdus_of (rxData t) \<noteq> []"
    and fits: "length (encode (ps @ ipdus_of (rxData t))) \<le> CONTAINER_LIMIT"
  shows "\<exists>t'. pdu_process t = Inr (t', True) \<and> container_is (ps @ ipdus_of (rxData t)) t' \<and>
    hasOverflowPdu t' = hasOverflowPdu t \<and> overflowPdu t' = overflowPdu t"
proof -
  obtain j where j: "GW_GetPduId_FromCanFd (msgId (rxData t)) (Some TC_BEST_EFFORT) = (j, Some TC_CRITICAL)" "j \<noteq> 0xFFFF"
    "ipdus_of (rxData t) = [(j, take (unat (dataLen (rxData t))) (msg_data (rxData t)))]"
    using ipdus_of_cases [of "rxData t"] i by blast
  then have "length (encode ps) + 3 + unat (dataLen (rxData t)) \<le> CONTAINER_LIMIT"
    using fits m by (simp add: length_encode msg_ok_def)
  with add_ipdu_fits [OF locals_ok_start [OF ok], of _ j] m j
  show ?thesis by (auto simp: pdu_process_def Let_def)
qed

lemma pdu_process_sets_aside:
  assumes ok: "locals_ok ps t" and m: "msg_ok (rxData t)" and i: "ipdus_of (rxData t) \<noteq> []"
    and full: "\<not> length (encode (ps @ ipdus_of (rxData t))) \<le> CONTAINER_LIMIT"
  shows "pdu_process t = Inr (t\<lparr>overflowPdu := rxData t, hasOverflowPdu := True\<rparr>, True) \<and> ps \<noteq> [] \<and> container_is ps t"
proof -
  obtain j where j: "GW_GetPduId_FromCanFd (msgId (rxData t)) (Some TC_BEST_EFFORT) = (j, Some TC_CRITICAL)" "j \<noteq> 0xFFFF"
    "ipdus_of (rxData t) = [(j, take (unat (dataLen (rxData t))) (msg_data (rxData t)))]"
    using ipdus_of_cases [of "rxData t"] i by blast
  then have f: "\<not> length (encode ps) + 3 + unat (dataLen (rxData t)) \<le> CONTAINER_LIMIT"
    using full m by (simp add: length_encode msg_ok_def)
  then have ps: "ps \<noteq> []" using m by (auto simp: msg_ok_def)
  then have p: "containerPending t" "container_is ps t" using ok by (auto simp: locals_ok_def split: if_splits)
  then have "start_container TC_CRITICAL t = t" by (simp add: start_container_def)
  with add_ipdu_overflows [OF p(2) m f, of j] j ps p show ?thesis by (simp add: pdu_process_def Let_def)
qed

text \<open>The decision, over a container that is in use.\<close>

definition should_send :: "bool \<Rightarrow> bool \<Rightarrow> ipdu list \<Rightarrow> bool" where
  "should_send gate aside ps \<longleftrightarrow> ps \<noteq> [] \<and> (aside \<or> CONTAINER_LIMIT \<le> length (encode ps) \<or> gate)"

lemma shouldTransmit_iff:
  assumes "container_is ps t"
  shows "shouldTransmit sec nsec t \<longleftrightarrow> should_send (TAS_IsGateOpen_FIFOx sec nsec 0) (hasOverflowPdu t) ps"
proof -
  have n: "unat (containerLen t) = length (encode ps)" "containerPending t" using assms by (simp_all add: container_is_def)
  have "2 < length (encode ps) \<longleftrightarrow> ps \<noteq> []" by (cases ps) (auto simp: length_encode)
  then show ?thesis using n encode_ge_2 [of ps]
    by (auto simp: shouldTransmit_def should_send_def word_less_nat_alt word_le_nat_alt)
qed

end
