(* ===== verification/Gw_Pass.thy ===== *)
theory Gw_Pass
  imports Gw_Container
begin

text \<open>
  One pass of the transmit task on a consistent Ethernet port: an abstract pass over lists of I-PDUs, and the proof
  that the pass of the code refines it, on every branch: message set aside, queue empty, unmapped identifier,
  container sent, container dropped because no transmit buffer is free.
\<close>

section \<open>The Ethernet port in a consistent state\<close>

text \<open>
  The configuration the gateway needs: priority 0 maps to FIFO 0, the buffers hold the largest frame, and the indices
  of FIFO 0 are below the configured number of buffers.
\<close>

definition port_config_ok :: "(nat \<Rightarrow> u32) \<Rightarrow> u32 \<Rightarrow> nat \<Rightarrow> Eth_CtrlCfgType \<Rightarrow> nat \<Rightarrow> bool" where
  "port_config_ok base cap first cfg n \<longleftrightarrow>
    VlanPcpToFifoIdx cfg \<noteq> [] \<and> VlanPcpToFifoIdx cfg ! 0 = 0 \<and> CONTAINER_LIMIT + 14 \<le> unat cap \<and>
    first + n \<le> unat (BufferCount cfg) \<and> buffers_disjoint base cap n"

text \<open>The frames in flight are \<open>frames\<close>; no buffer is granted between two passes.\<close>

definition port_ok :: "(nat \<Rightarrow> u32) \<Rightarrow> u32 \<Rightarrow> nat \<Rightarrow> Eth_CtrlCfgType \<Rightarrow> u8 list \<Rightarrow> nat \<Rightarrow> nat \<Rightarrow> tx_view \<Rightarrow> u8 list list \<Rightarrow> eth \<Rightarrow> bool" where
  "port_ok base cap first cfg src n h v frames e \<longleftrightarrow>
    fifo_ok base cap first h v 0 e \<and> driver_ready cfg e \<and> v_granted v = [] \<and>
    length (TxRing (Ch (eth_gmac e) ! 0)) = n \<and> port_config_ok base cap first cfg n \<and>
    Gmac_Ip_GetMacAddr 0 (eth_gmac e) = Inr src \<and>
    list_all2 (carries (eth_mem e) cap (Ch (eth_gmac e) ! 0)) (v_flying v) frames"

definition gw_frame :: "u8 list \<Rightarrow> ipdu list \<Rightarrow> u8 list" where
  "gw_frame src ps = eth_header Gmac_0_MacAddr src 0x0A0B @ encode ps"

definition container_reset :: "tas_locals \<Rightarrow> tas_locals \<Rightarrow> bool" where
  "container_reset t t' \<longleftrightarrow>
    \<not> containerPending t' \<and> containerLen t' = 0 \<and> iPduCount t' = 0 \<and> length (currentContainer t') = length (currentContainer t) \<and>
    hasOverflowPdu t' = hasOverflowPdu t \<and> overflowPdu t' = overflowPdu t"

lemma transmit_container_sends:
  assumes c: "container_is ps t" and e: "port_ok base cap first cfg src n h v frames (gw_eth w)"
    and room: "length (outstanding v) < n"
  shows "\<exists>t' w' b. transmit_container t w = Inr (t', w') \<and> container_reset t t' \<and>
    port_ok base cap first cfg src n h (v\<lparr>v_flying := v_flying v @ [b]\<rparr>) (frames @ [gw_frame src ps]) (gw_eth w') \<and>
    gw_kernel w' = gw_kernel w \<and> xQueue_CAN w' = xQueue_CAN w \<and>
    canStats w' = (canStats w)\<lparr>containersSent := containersSent (canStats w) + 1\<rparr>"
proof -
  let ?e = "gw_eth w"
  have e': "fifo_ok base cap first h v 0 ?e" "driver_ready cfg ?e" "v_granted v = []" "length (TxRing (Ch (eth_gmac ?e) ! unat (0 :: u8))) = n"
    "Gmac_Ip_GetMacAddr 0 (eth_gmac ?e) = Inr src"
    "list_all2 (carries (eth_mem ?e) cap (Ch (eth_gmac ?e) ! unat (0 :: u8))) (v_flying v) frames"
    and cf: "port_config_ok base cap first cfg n" using e by (simp_all add: port_ok_def)
  have cfg: "unat (0 :: u8) < length (VlanPcpToFifoIdx cfg)" "VlanPcpToFifoIdx cfg ! unat (0 :: u8) = 0"
    "(1518 :: u16) \<le> 65521" "ucast (1518 + 14 :: u16) \<le> cap" "first + n \<le> unat (BufferCount cfg)" "buffers_disjoint base cap n"
    using cf by (auto simp: port_config_ok_def word_le_nat_alt)
  have n: "unat (containerLen t) = length (encode ps)" "take (length (encode ps)) (currentContainer t) = encode ps"
    "length (encode ps) \<le> unat (1518 :: u16)" "length (currentContainer t) = CONTAINER_MAX_SIZE" "currentTC t = TC_CRITICAL"
    using c by (simp_all add: container_is_def)
  have len: "of_nat (length (encode ps)) = containerLen t" using n(1) by (metis of_nat_unat ucast_id)
  have dst: "length Gmac_0_MacAddr = 6" by (simp add: Gmac_0_MacAddr_def)
  obtain s1 idx b glen s2 where
    p: "Eth_ProvideTxBuffer 0 0 1518 ?e = Inr (s1, BUFREQ_OK, Some (idx, b + 14), glen)"
    and t: "Eth_Transmit 0 idx 0x0A0B True (containerLen t) Gmac_0_MacAddr (s1\<lparr>eth_mem := mem_write (b + 14) (encode ps) (eth_mem s1)\<rparr>) = Inr (s2, E_OK)"
    and s2: "fifo_ok base cap first h (v\<lparr>v_flying := v_flying v @ [b]\<rparr>) 0 s2" "driver_ready cfg s2"
      "length (TxRing (Ch (eth_gmac s2) ! unat (0 :: u8))) = n" "Gmac_Ip_GetMacAddr 0 (eth_gmac s2) = Inr src"
      "list_all2 (carries (eth_mem s2) cap (Ch (eth_gmac s2) ! unat (0 :: u8))) (v_flying v @ [b]) (frames @ [eth_header Gmac_0_MacAddr src 0x0A0B @ encode ps])"
    using transmit_joins_flight [OF e'(1-3) cfg(1-4) n(3) dst, unfolded e'(4), OF room cfg(5,6) e'(6,5), of "0x0A0B" True, unfolded len] by blast
  have fifo: "TC_to_FIFO TC_CRITICAL = 0" by (simp add: TC_to_FIFO_def)
  show ?thesis
    using p t n s2 e'(3) cf by (auto simp: transmit_container_def fifo container_reset_def port_ok_def gw_frame_def Let_def intro!: exI [of _ b])
qed

lemma provide_busy:
  assumes ok: "fifo_ok base cap first h v r s" and ready: "driver_ready cfg s"
    and prio: "unat prio < length (VlanPcpToFifoIdx cfg)" "VlanPcpToFifoIdx cfg ! unat prio = r" and len: "len \<le> 65521"
    and full: "length (outstanding v) = length (TxRing (Ch (eth_gmac s) ! unat r))"
  shows "Eth_ProvideTxBuffer 0 prio len s = Inr (s, BUFREQ_E_BUSY, None, len)"
proof -
  note facts = fifo_facts [OF ok]
  let ?B = "\<lparr>BufData = 0, BufLength = len + 14\<rparr>"
  have "Gmac_Ip_GetTxBuff 0 r ?B (eth_gmac s) = Inr (eth_gmac s, GMAC_STATUS_TX_BUFF_BUSY, ?B, None)"
    unfolding Gmac_Ip_GetTxBuff_def
    using with_tx_channel_at [where F = "get_tx_buff ?B", OF facts(1-3) get_tx_buff_busy [OF facts(4) full]] by simp
  then have "Eth_Ipw_ProvideTxBuffer 0 r (len + 14) s = Inr (s, BUFREQ_E_BUSY, None, len + 14)"
    by (simp add: Eth_Ipw_ProvideTxBuffer_def Let_def)
  moreover have "the (ctrl_config 0 s) = cfg" using ready by (simp add: driver_ready_def)
  ultimately show ?thesis
    using driver_ready_entry [OF ready] prio len by (simp add: Eth_ProvideTxBuffer_def Let_def not_less)
qed

lemma transmit_container_drops:
  assumes c: "container_is ps t" and e: "port_ok base cap first cfg src n h v frames (gw_eth w)"
    and full: "\<not> length (outstanding v) < n"
  shows "\<exists>t'. transmit_container t w =
      Inr (t', w\<lparr>canStats := (canStats w)\<lparr>ethBufferErrors := ethBufferErrors (canStats w) + 1\<rparr>\<rparr>) \<and> container_reset t t'"
proof -
  have e': "fifo_ok base cap first h v 0 (gw_eth w)" "driver_ready cfg (gw_eth w)" "length (TxRing (Ch (eth_gmac (gw_eth w)) ! unat (0 :: u8))) = n"
    and cf: "port_config_ok base cap first cfg n" using e by (simp_all add: port_ok_def)
  have "length (outstanding v) = n" using fifo_facts(14) [OF e'(1)] e'(3) full by simp
  then have "Eth_ProvideTxBuffer 0 0 1518 (gw_eth w) = Inr (gw_eth w, BUFREQ_E_BUSY, None, 1518)"
    using cf by (intro provide_busy [OF e'(1,2)]) (auto simp: port_config_ok_def e'(3) [simplified])
  moreover have "TC_to_FIFO (currentTC t) = 0" using c by (simp add: container_is_def TC_to_FIFO_def)
  ultimately show ?thesis by (simp add: transmit_container_def container_reset_def Let_def)
qed

section \<open>What a pass does, abstractly\<close>

text \<open>
  The abstract state of the transmit task: the message set aside, the I-PDUs in the container and the I-PDUs of
  each queued message. A pass may hand over the container or, when no transmit buffer is free, discard it.
\<close>

datatype emission = Silent | Emitted "ipdu list" | Dropped "ipdu list"

type_synonym gw_abs = "ipdu list \<times> ipdu list \<times> ipdu list list"

definition abs_send :: "bool \<Rightarrow> bool \<Rightarrow> gw_abs \<Rightarrow> gw_abs \<times> emission" where
  "abs_send gate room s =
    (case s of (aside, pend, q) \<Rightarrow>
       if should_send gate (aside \<noteq> []) pend then ((aside, [], q), if room then Emitted pend else Dropped pend)
       else (s, Silent))"

definition abs_pack :: "ipdu list \<Rightarrow> ipdu list \<Rightarrow> ipdu list list \<Rightarrow> gw_abs" where
  "abs_pack p pend q = (if length (encode (pend @ p)) \<le> CONTAINER_LIMIT then ([], pend @ p, q) else (p, pend, q))"

definition abs_pass :: "bool \<Rightarrow> bool \<Rightarrow> gw_abs \<Rightarrow> gw_abs \<times> emission" where
  "abs_pass gate room s =
    (case s of (aside, pend, q) \<Rightarrow>
       if aside \<noteq> [] then abs_send gate room (abs_pack aside pend q)
       else (case q of
               [] \<Rightarrow> abs_send gate room s
             | p # q' \<Rightarrow> if p = [] then (([], pend, q'), Silent) else abs_send gate room (abs_pack p pend q')))"

fun emitted :: "emission \<Rightarrow> ipdu list" where
  "emitted Silent = []" | "emitted (Emitted ps) = ps" | "emitted (Dropped ps) = ps"

definition held :: "gw_abs \<Rightarrow> ipdu list" where
  "held s = (case s of (aside, pend, q) \<Rightarrow> pend @ aside @ concat q)"

lemma held_simps [simp]: "held (aside, pend, q) = pend @ aside @ concat q"
  by (simp add: held_def)

text \<open>A pass loses, duplicates and reorders nothing.\<close>

lemma abs_send_held: "abs_send gate room s = (s', e) \<Longrightarrow> held s = emitted e @ held s'"
  by (cases s) (auto simp: abs_send_def split: if_splits)

lemma abs_pack_held: "held (abs_pack p pend q) = pend @ p @ concat q"
  by (simp add: abs_pack_def)

lemma abs_pass_held:
  assumes "abs_pass gate room s = (s', e)" "fst s \<noteq> [] \<longrightarrow> fst (snd s) = []"
  shows "held s = emitted e @ held s'"
proof -
  obtain aside pend q where s: "s = (aside, pend, q)" by (cases s)
  show ?thesis
  proof (cases "aside = []")
    case False
    then have "abs_send gate room (abs_pack aside pend q) = (s', e)" "pend = []" using assms by (simp_all add: s abs_pass_def)
    from abs_send_held [OF this(1)] this(2) show ?thesis by (simp add: s abs_pack_held)
  next
    case True
    show ?thesis
    proof (cases q)
      case Nil
      with True assms(1) have "abs_send gate room s = (s', e)" by (simp add: s abs_pass_def)
      then show ?thesis by (rule abs_send_held)
    next
      case (Cons p q')
      show ?thesis
      proof (cases "p = []")
        case True
        with \<open>aside = []\<close> Cons assms(1) show ?thesis by (auto simp: s abs_pass_def)
      next
        case False
        with True Cons assms(1) have "abs_send gate room (abs_pack p pend q') = (s', e)" by (simp add: s abs_pass_def)
        from abs_send_held [OF this] True Cons show ?thesis by (simp add: s abs_pack_held)
      qed
    qed
  qed
qed

section \<open>A pass refines the abstract one\<close>

definition queue_ok :: "gateway \<Rightarrow> bool" where
  "queue_ok w \<longleftrightarrow> quiet (xQueue_CAN w) (gw_kernel w) \<and>
    (\<forall>bs. item_fits (xQueue_CAN w) (gw_kernel w) bs \<longleftrightarrow> length bs = 80) \<and>
    (\<forall>bs \<in> set (queue_contents (xQueue_CAN w) (gw_kernel w)). msg_ok (msg_of_bytes bs))"

definition aside_of :: "tas_locals \<Rightarrow> ipdu list" where
  "aside_of t = (if hasOverflowPdu t then ipdus_of (overflowPdu t) else [])"

definition queued_ipdus :: "gateway \<Rightarrow> ipdu list list" where
  "queued_ipdus w = map (ipdus_of \<circ> msg_of_bytes) (queue_contents (xQueue_CAN w) (gw_kernel w))"

text \<open>The part of a pass behind the packing, on a container in use; a message is set aside only when the container is sent.\<close>

definition sent_view :: "emission \<Rightarrow> u32 \<Rightarrow> tx_view \<Rightarrow> tx_view" where
  "sent_view e b v = (case e of Emitted _ \<Rightarrow> v\<lparr>v_flying := v_flying v @ [b]\<rparr> | _ \<Rightarrow> v)"

definition sent_frames :: "u8 list \<Rightarrow> emission \<Rightarrow> u8 list list" where
  "sent_frames src e = (case e of Emitted ps \<Rightarrow> [gw_frame src ps] | _ \<Rightarrow> [])"

definition counted :: "emission \<Rightarrow> CANStatistics_t \<Rightarrow> CANStatistics_t" where
  "counted e c =
    (case e of Silent \<Rightarrow> c
     | Emitted _ \<Rightarrow> c\<lparr>containersSent := containersSent c + 1\<rparr>
     | Dropped _ \<Rightarrow> c\<lparr>ethBufferErrors := ethBufferErrors c + 1\<rparr>)"

lemma send_refines:
  assumes c: "container_is ps t" "ps \<noteq> []" and e: "port_ok base cap first cfg src n h v frames (gw_eth w)"
    and aside: "hasOverflowPdu t \<longrightarrow> msg_ok (overflowPdu t) \<and> ipdus_of (overflowPdu t) \<noteq> []"
    and abs: "abs_send (TAS_IsGateOpen_FIFOx sec nsec 0) (length (outstanding v) < n) (aside_of t, ps, q) = ((a', p', q'), em)"
  shows "\<exists>t' w' b. (if shouldTransmit sec nsec t then transmit_container t w else Inr (t, w)) = Inr (t', w') \<and>
    locals_ok p' t' \<and> aside_of t' = a' \<and> q' = q \<and>
    port_ok base cap first cfg src n h (sent_view em b v) (frames @ sent_frames src em) (gw_eth w') \<and>
    gw_kernel w' = gw_kernel w \<and> xQueue_CAN w' = xQueue_CAN w \<and> canStats w' = counted em (canStats w)"
proof -
  let ?gate = "TAS_IsGateOpen_FIFOx sec nsec 0"
  have aa: "aside_of t \<noteq> [] \<longleftrightarrow> hasOverflowPdu t" using aside by (simp add: aside_of_def)
  note st = shouldTransmit_iff [OF c(1), of sec nsec]
  have lenc: "length (currentContainer t) = CONTAINER_MAX_SIZE" using c by (simp add: container_is_def)
  have reset: "locals_ok [] t' \<and> aside_of t' = aside_of t" if "container_reset t t'" for t'
    using that aside lenc by (simp add: container_reset_def locals_ok_def aside_of_def)
  show ?thesis
  proof (cases "should_send ?gate (hasOverflowPdu t) ps")
    case False
    then have "\<not> hasOverflowPdu t" using c(2) by (simp add: should_send_def)
    then have "locals_ok ps t" using c lenc by (simp add: locals_ok_def) (simp add: container_is_def)
    then show ?thesis using False st abs aa e
      by (auto simp: abs_send_def sent_view_def sent_frames_def counted_def)
  next
    case True
    show ?thesis
    proof (cases "length (outstanding v) < n")
      case room: True
      then obtain t' w' b where r: "transmit_container t w = Inr (t', w')" "container_reset t t'"
        "port_ok base cap first cfg src n h (v\<lparr>v_flying := v_flying v @ [b]\<rparr>) (frames @ [gw_frame src ps]) (gw_eth w')"
        "gw_kernel w' = gw_kernel w" "xQueue_CAN w' = xQueue_CAN w"
        "canStats w' = (canStats w)\<lparr>containersSent := containersSent (canStats w) + 1\<rparr>"
        using transmit_container_sends [OF c(1) e] by blast
      have "a' = aside_of t" "p' = []" "q' = q" "em = Emitted ps" using abs True room aa by (auto simp: abs_send_def)
      with True st r reset [OF r(2)] show ?thesis
        by (intro exI [of _ t'] exI [of _ w'] exI [of _ b]) (simp add: sent_view_def sent_frames_def counted_def)
    next
      case full: False
      let ?w' = "w\<lparr>canStats := (canStats w)\<lparr>ethBufferErrors := ethBufferErrors (canStats w) + 1\<rparr>\<rparr>"
      obtain t' where r: "transmit_container t w = Inr (t', ?w')" "container_reset t t'"
        using transmit_container_drops [OF c(1) e full] by blast
      have "a' = aside_of t" "p' = []" "q' = q" "em = Dropped ps" using abs True full aa by (auto simp: abs_send_def)
      with True st r e reset [OF r(2)] show ?thesis
        by (intro exI [of _ t'] exI [of _ ?w'] exI) (simp add: sent_view_def sent_frames_def counted_def)
    qed
  qed
qed

text \<open>Packing a message and sending, when the message has an I-PDU.\<close>

lemma pack_refines:
  assumes ok: "locals_ok ps t" "\<not> hasOverflowPdu t" and m: "msg_ok (rxData t)" "ipdus_of (rxData t) \<noteq> []"
    and e: "port_ok base cap first cfg src n h v frames (gw_eth w)"
    and abs: "abs_send (TAS_IsGateOpen_FIFOx sec nsec 0) (length (outstanding v) < n) (abs_pack (ipdus_of (rxData t)) ps q) = ((a', p', q'), em)"
  shows "\<exists>t' w' b. rbind (pdu_process t) (\<lambda>(t2, go_on). if go_on \<and> shouldTransmit sec nsec t2 then transmit_container t2 w else Inr (t2, w)) = Inr (t', w') \<and>
    locals_ok p' t' \<and> aside_of t' = a' \<and> q' = q \<and>
    port_ok base cap first cfg src n h (sent_view em b v) (frames @ sent_frames src em) (gw_eth w') \<and>
    gw_kernel w' = gw_kernel w \<and> xQueue_CAN w' = xQueue_CAN w \<and> canStats w' = counted em (canStats w)"
proof (cases "length (encode (ps @ ipdus_of (rxData t))) \<le> CONTAINER_LIMIT")
  case True
  obtain t2 where t2: "pdu_process t = Inr (t2, True)" "container_is (ps @ ipdus_of (rxData t)) t2" "\<not> hasOverflowPdu t2"
    using pdu_process_packs [OF ok(1) m True] ok(2) by auto
  have "abs_pack (ipdus_of (rxData t)) ps q = (aside_of t2, ps @ ipdus_of (rxData t), q)"
    using True t2(3) by (simp add: abs_pack_def aside_of_def)
  with send_refines [OF t2(2) _ e, of sec nsec q a' p' q' em] abs m(2) t2 show ?thesis by simp
next
  case False
  let ?t2 = "t\<lparr>overflowPdu := rxData t, hasOverflowPdu := True\<rparr>"
  have t2: "pdu_process t = Inr (?t2, True)" "ps \<noteq> []" "container_is ps ?t2"
    using pdu_process_sets_aside [OF ok(1) m False] by (simp_all add: container_is_def)
  have "abs_pack (ipdus_of (rxData t)) ps q = (aside_of ?t2, ps, q)" using False by (simp add: abs_pack_def aside_of_def)
  with send_refines [OF t2(3,2) e, of sec nsec q a' p' q' em] abs m t2 show ?thesis by simp
qed

lemma locals_ok_rx [simp]: "locals_ok ps (t\<lparr>rxData := m\<rparr>) = locals_ok ps t"
  by (simp add: locals_ok_def container_is_def)

lemma aside_of_rx [simp]: "aside_of (t\<lparr>rxData := m\<rparr>) = aside_of t"
  by (simp add: aside_of_def)

lemma queue_ok_frame:
  "queue_ok w \<Longrightarrow> gw_kernel w' = gw_kernel w \<Longrightarrow> xQueue_CAN w' = xQueue_CAN w \<Longrightarrow>
   queue_ok w' \<and> queued_ipdus w' = queued_ipdus w"
  by (simp add: queue_ok_def queued_ipdus_def)

text \<open>Receiving the oldest message from the queue.\<close>

lemma source_receives:
  assumes q: "queue_ok w" "queue_contents (xQueue_CAN w) (gw_kernel w) = bs # rest" and t: "\<not> hasOverflowPdu t"
  shows "\<exists>k. pdu_source t w = Inr (t\<lparr>rxData := msg_of_bytes bs\<rparr>, w\<lparr>gw_kernel := k\<rparr>, True) \<and>
    queue_ok (w\<lparr>gw_kernel := k\<rparr>) \<and> queued_ipdus w = ipdus_of (msg_of_bytes bs) # queued_ipdus (w\<lparr>gw_kernel := k\<rparr>) \<and>
    msg_ok (msg_of_bytes bs) \<and> queue_cap (xQueue_CAN w) k = queue_cap (xQueue_CAN w) (gw_kernel w)"
proof -
  have "quiet (xQueue_CAN w) (gw_kernel w)" using q(1) by (simp add: queue_ok_def)
  from quiet_receive [OF this q(2)] obtain k where
    k: "xQueueReceive (xQueue_CAN w) False 0 (gw_kernel w) = Inr (k, bs, Returned pdPASS)" "quiet (xQueue_CAN w) k"
      "queue_contents (xQueue_CAN w) k = rest" "queue_cap (xQueue_CAN w) k = queue_cap (xQueue_CAN w) (gw_kernel w)"
      "item_fits (xQueue_CAN w) k = item_fits (xQueue_CAN w) (gw_kernel w)"
    by blast
  with q t show ?thesis
    by (intro exI [of _ k]) (simp add: pdu_source_def queue_ok_def queued_ipdus_def)
qed

lemma source_empty:
  assumes q: "queue_ok w" "queue_contents (xQueue_CAN w) (gw_kernel w) = []" and t: "\<not> hasOverflowPdu t"
  shows "pdu_source t w = Inr (t, w, False)"
proof -
  have "xQueueReceive (xQueue_CAN w) False 0 (gw_kernel w) = Inr (gw_kernel w, [], Returned errQUEUE_EMPTY)"
    using q by (intro receive_empty) (auto simp: queue_ok_def quiet_def)
  with t show ?thesis by (simp add: pdu_source_def)
qed

definition pass_result where
  "pass_result base cap first cfg src n h v frames w a' p' q' em r \<longleftrightarrow>
    (\<exists>t' w' b. r = Inr (t', w') \<and> locals_ok p' t' \<and> aside_of t' = a' \<and> queue_ok w' \<and> queued_ipdus w' = q' \<and>
      port_ok base cap first cfg src n h (sent_view em b v) (frames @ sent_frames src em) (gw_eth w') \<and>
      xQueue_CAN w' = xQueue_CAN w \<and> queue_cap (xQueue_CAN w) (gw_kernel w') = queue_cap (xQueue_CAN w) (gw_kernel w) \<and>
      canStats w' = counted em (canStats w))"

lemma pass_resultI:
  assumes "r = Inr (t', w')" "locals_ok p' t'" "aside_of t' = a'" "queue_ok w1" "queued_ipdus w1 = q'"
    "port_ok base cap first cfg src n h (sent_view em b v) (frames @ sent_frames src em) (gw_eth w')"
    "gw_kernel w' = gw_kernel w1" "xQueue_CAN w' = xQueue_CAN w" "xQueue_CAN w1 = xQueue_CAN w"
    "queue_cap (xQueue_CAN w) (gw_kernel w1) = queue_cap (xQueue_CAN w) (gw_kernel w)" "canStats w' = counted em (canStats w)"
  shows "pass_result base cap first cfg src n h v frames w a' p' q' em r"
proof -
  have "queue_ok w' \<and> queued_ipdus w' = q'" using queue_ok_frame [OF assms(4,7)] assms(5,8,9) by simp
  with assms show ?thesis unfolding pass_result_def by auto
qed

lemma pass_refines:
  assumes ok: "locals_ok ps t" and q: "queue_ok w" and e: "port_ok base cap first cfg src n h v frames (gw_eth w)"
    and abs: "abs_pass (TAS_IsGateOpen_FIFOx sec nsec 0) (length (outstanding v) < n) (aside_of t, ps, queued_ipdus w) = ((a', p', q'), em)"
  shows "pass_result base cap first cfg src n h v frames w a' p' q' em (ETH_PDU_Send_TAS_pass sec nsec (t, w))"
proof (cases "hasOverflowPdu t")
  case True
  let ?t1 = "t\<lparr>rxData := overflowPdu t, hasOverflowPdu := False\<rparr>"
  have a: "aside_of t = ipdus_of (overflowPdu t)" "ipdus_of (overflowPdu t) \<noteq> []" "msg_ok (overflowPdu t)" "locals_ok ps ?t1"
    using True ok by (auto simp: aside_of_def locals_ok_def)
  have "abs_send (TAS_IsGateOpen_FIFOx sec nsec 0) (length (outstanding v) < n) (abs_pack (ipdus_of (rxData ?t1)) ps (queued_ipdus w)) = ((a', p', q'), em)"
    using abs a by (simp add: abs_pass_def)
  from pack_refines [OF a(4) _ _ _ e this] a
  obtain t' w' b where r: "rbind (pdu_process ?t1) (\<lambda>(t2, go_on).
      if go_on \<and> shouldTransmit sec nsec t2 then transmit_container t2 w else Inr (t2, w)) = Inr (t', w')"
    "locals_ok p' t'" "aside_of t' = a'" "q' = queued_ipdus w"
    "port_ok base cap first cfg src n h (sent_view em b v) (frames @ sent_frames src em) (gw_eth w')"
    "gw_kernel w' = gw_kernel w" "xQueue_CAN w' = xQueue_CAN w" "canStats w' = counted em (canStats w)"
    by auto
  have "ETH_PDU_Send_TAS_pass sec nsec (t, w) = Inr (t', w')"
    using r(1) True by (simp add: ETH_PDU_Send_TAS_pass_def pdu_source_def)
  from pass_resultI [OF this r(2,3) q r(4) [symmetric] r(5-7)] r(8) show ?thesis by simp
next
  case no: False
  then have a: "aside_of t = []" by (simp add: aside_of_def)
  show ?thesis
  proof (cases "queue_contents (xQueue_CAN w) (gw_kernel w)")
    case Nil
    then have abs': "abs_send (TAS_IsGateOpen_FIFOx sec nsec 0) (length (outstanding v) < n) (aside_of t, ps, []) = ((a', p', q'), em)"
      and qi: "queued_ipdus w = []" using abs a by (simp_all add: abs_pass_def queued_ipdus_def)
    have run: "ETH_PDU_Send_TAS_pass sec nsec (t, w) = (if shouldTransmit sec nsec t then transmit_container t w else Inr (t, w))"
      using source_empty [OF q Nil no] by (simp add: ETH_PDU_Send_TAS_pass_def)
    show ?thesis
    proof (cases "containerPending t")
      case True
      then have "container_is ps t" "ps \<noteq> []" using ok by (simp_all add: locals_ok_def)
      from send_refines [OF this e _ abs'] no
      obtain t' w' b where r: "(if shouldTransmit sec nsec t then transmit_container t w else Inr (t, w)) = Inr (t', w')"
        "locals_ok p' t'" "aside_of t' = a'" "q' = []"
        "port_ok base cap first cfg src n h (sent_view em b v) (frames @ sent_frames src em) (gw_eth w')"
        "gw_kernel w' = gw_kernel w" "xQueue_CAN w' = xQueue_CAN w" "canStats w' = counted em (canStats w)"
        by auto
      have "queued_ipdus w = q'" using qi r(4) by simp
      from pass_resultI [OF r(1-3) q this r(5-7)] r(8) show ?thesis unfolding run by simp
    next
      case False
      then have "ps = []" "\<not> shouldTransmit sec nsec t" using ok by (simp_all add: locals_ok_def shouldTransmit_def)
      with abs' a qi e q ok show ?thesis
        unfolding pass_result_def run by (auto simp: abs_send_def should_send_def sent_view_def sent_frames_def counted_def)
    qed
  next
    case (Cons bs rest)
    obtain k where k: "pdu_source t w = Inr (t\<lparr>rxData := msg_of_bytes bs\<rparr>, w\<lparr>gw_kernel := k\<rparr>, True)"
      "queue_ok (w\<lparr>gw_kernel := k\<rparr>)" "queued_ipdus w = ipdus_of (msg_of_bytes bs) # queued_ipdus (w\<lparr>gw_kernel := k\<rparr>)"
      "msg_ok (msg_of_bytes bs)" "queue_cap (xQueue_CAN w) k = queue_cap (xQueue_CAN w) (gw_kernel w)"
      using source_receives [OF q Cons no] by blast
    let ?t1 = "t\<lparr>rxData := msg_of_bytes bs\<rparr>" and ?w1 = "w\<lparr>gw_kernel := k\<rparr>"
    have run: "ETH_PDU_Send_TAS_pass sec nsec (t, w) = rbind (pdu_process ?t1) (\<lambda>(t2, go_on).
        if go_on \<and> shouldTransmit sec nsec t2 then transmit_container t2 ?w1 else Inr (t2, ?w1))"
      by (simp add: ETH_PDU_Send_TAS_pass_def k(1))
    show ?thesis
    proof (cases "ipdus_of (msg_of_bytes bs) = []")
      case True
      then have "a' = []" "p' = ps" "q' = queued_ipdus ?w1" "em = Silent" using abs a k(3) by (simp_all add: abs_pass_def)
      with pdu_process_unmapped [of ?t1] True k ok a e show ?thesis
        unfolding pass_result_def run by (simp add: sent_view_def sent_frames_def counted_def)
    next
      case False
      then have s1: "abs_send (TAS_IsGateOpen_FIFOx sec nsec 0) (length (outstanding v) < n) (abs_pack (ipdus_of (rxData ?t1)) ps (queued_ipdus ?w1)) = ((a', p', q'), em)"
        using abs a k(3) by (simp add: abs_pass_def)
      have e1: "port_ok base cap first cfg src n h v frames (gw_eth ?w1)" using e by simp
      have t1: "locals_ok ps ?t1" "\<not> hasOverflowPdu ?t1" "msg_ok (rxData ?t1)" "ipdus_of (rxData ?t1) \<noteq> []"
        using ok no k(4) False by simp_all
      obtain t' w' b where r: "rbind (pdu_process ?t1) (\<lambda>(t2, go_on).
          if go_on \<and> shouldTransmit sec nsec t2 then transmit_container t2 ?w1 else Inr (t2, ?w1)) = Inr (t', w')"
        "locals_ok p' t'" "aside_of t' = a'" "q' = queued_ipdus ?w1"
        "port_ok base cap first cfg src n h (sent_view em b v) (frames @ sent_frames src em) (gw_eth w')"
        "gw_kernel w' = gw_kernel ?w1" "xQueue_CAN w' = xQueue_CAN ?w1" "canStats w' = counted em (canStats ?w1)"
        using pack_refines [OF t1 e1 s1] by blast
      show ?thesis unfolding run
        by (rule pass_resultI [OF r(1-3) k(2) r(4) [symmetric] r(5,6)]) (use r(7,8) k(5) in simp_all)
    qed
  qed
qed

section \<open>What a pass decides to send\<close>

definition formed_by :: "emission \<Rightarrow> u8 list option" where
  "formed_by em = (case em of Silent \<Rightarrow> None | Emitted ps \<Rightarrow> Some (encode ps) | Dropped ps \<Rightarrow> Some (encode ps))"

lemma send_formed:
  assumes c: "container_is ps t" and aside: "hasOverflowPdu t \<longrightarrow> ipdus_of (overflowPdu t) \<noteq> []"
    and abs: "abs_send (TAS_IsGateOpen_FIFOx sec nsec 0) room (aside_of t, ps, q) = (s', em)"
  shows "(if shouldTransmit sec nsec t then Some (take (unat (containerLen t)) (currentContainer t)) else None) = formed_by em"
proof -
  have "aside_of t \<noteq> [] \<longleftrightarrow> hasOverflowPdu t" using aside by (simp add: aside_of_def)
  moreover have "take (unat (containerLen t)) (currentContainer t) = encode ps" using c by (simp add: container_is_def)
  ultimately show ?thesis using abs shouldTransmit_iff [OF c, of sec nsec] by (auto simp: abs_send_def formed_by_def split: if_splits)
qed

lemma pack_formed:
  assumes ok: "locals_ok ps t" "\<not> hasOverflowPdu t" and m: "msg_ok (rxData t)" "ipdus_of (rxData t) \<noteq> []"
    and abs: "abs_send (TAS_IsGateOpen_FIFOx sec nsec 0) room (abs_pack (ipdus_of (rxData t)) ps q) = (s', em)"
  shows "\<exists>t2. pdu_process t = Inr (t2, True) \<and>
    (if shouldTransmit sec nsec t2 then Some (take (unat (containerLen t2)) (currentContainer t2)) else None) = formed_by em"
proof (cases "length (encode (ps @ ipdus_of (rxData t))) \<le> CONTAINER_LIMIT")
  case True
  obtain t2 where t2: "pdu_process t = Inr (t2, True)" "container_is (ps @ ipdus_of (rxData t)) t2" "\<not> hasOverflowPdu t2"
    using pdu_process_packs [OF ok(1) m True] ok(2) by auto
  have "abs_pack (ipdus_of (rxData t)) ps q = (aside_of t2, ps @ ipdus_of (rxData t), q)"
    using True t2(3) by (simp add: abs_pack_def aside_of_def)
  with send_formed [OF t2(2)] abs t2 show ?thesis by metis
next
  case False
  let ?t2 = "t\<lparr>overflowPdu := rxData t, hasOverflowPdu := True\<rparr>"
  have t2: "pdu_process t = Inr (?t2, True)" "container_is ps ?t2"
    using pdu_process_sets_aside [OF ok(1) m False] by (simp_all add: container_is_def)
  have "abs_pack (ipdus_of (rxData t)) ps q = (aside_of ?t2, ps, q)" using False by (simp add: abs_pack_def aside_of_def)
  with send_formed [OF t2(2), of sec nsec room q s' em] abs m t2(1) show ?thesis by (intro exI [of _ ?t2]) simp
qed

lemma pass_formed_refines:
  assumes ok: "locals_ok ps t" and q: "queue_ok w"
    and abs: "abs_pass (TAS_IsGateOpen_FIFOx sec nsec 0) room (aside_of t, ps, queued_ipdus w) = (s', em)"
  shows "pass_formed sec nsec (t, w) = formed_by em"
proof (cases "hasOverflowPdu t")
  case True
  let ?t1 = "t\<lparr>rxData := overflowPdu t, hasOverflowPdu := False\<rparr>"
  have a: "aside_of t = ipdus_of (overflowPdu t)" "ipdus_of (overflowPdu t) \<noteq> []" "msg_ok (overflowPdu t)" "locals_ok ps ?t1"
    using True ok by (auto simp: aside_of_def locals_ok_def)
  then have "abs_send (TAS_IsGateOpen_FIFOx sec nsec 0) room (abs_pack (ipdus_of (rxData ?t1)) ps (queued_ipdus w)) = (s', em)"
    using abs by (simp add: abs_pass_def)
  from pack_formed [OF a(4) _ _ _ this] a True show ?thesis by (auto simp: pass_formed_def pdu_source_def)
next
  case no: False
  then have a: "aside_of t = []" by (simp add: aside_of_def)
  show ?thesis
  proof (cases "queue_contents (xQueue_CAN w) (gw_kernel w)")
    case Nil
    then have abs': "abs_send (TAS_IsGateOpen_FIFOx sec nsec 0) room (aside_of t, ps, []) = (s', em)"
      using abs a by (simp add: abs_pass_def queued_ipdus_def)
    have run: "pass_formed sec nsec (t, w) = (if shouldTransmit sec nsec t then Some (take (unat (containerLen t)) (currentContainer t)) else None)"
      using source_empty [OF q Nil no] by (simp add: pass_formed_def)
    show ?thesis
    proof (cases "containerPending t")
      case True
      then have "container_is ps t" using ok by (simp add: locals_ok_def)
      from send_formed [OF this _ abs'] no show ?thesis unfolding run by simp
    next
      case False
      then have "ps = []" "\<not> shouldTransmit sec nsec t" using ok by (simp_all add: locals_ok_def shouldTransmit_def)
      then show ?thesis using abs' unfolding run by (simp add: abs_send_def should_send_def formed_by_def)
    qed
  next
    case (Cons bs rest)
    obtain k where k: "pdu_source t w = Inr (t\<lparr>rxData := msg_of_bytes bs\<rparr>, w\<lparr>gw_kernel := k\<rparr>, True)"
      "queued_ipdus w = ipdus_of (msg_of_bytes bs) # queued_ipdus (w\<lparr>gw_kernel := k\<rparr>)" "msg_ok (msg_of_bytes bs)"
      using source_receives [OF q Cons no] by blast
    let ?t1 = "t\<lparr>rxData := msg_of_bytes bs\<rparr>"
    show ?thesis
    proof (cases "ipdus_of (msg_of_bytes bs) = []")
      case True
      then show ?thesis using abs a k pdu_process_unmapped [of ?t1] by (simp add: abs_pass_def pass_formed_def formed_by_def)
    next
      case False
      then have s1: "abs_send (TAS_IsGateOpen_FIFOx sec nsec 0) room (abs_pack (ipdus_of (rxData ?t1)) ps (queued_ipdus (w\<lparr>gw_kernel := k\<rparr>))) = (s', em)"
        using abs a k(2) by (simp add: abs_pass_def)
      have t1: "locals_ok ps ?t1" "\<not> hasOverflowPdu ?t1" "msg_ok (rxData ?t1)" "ipdus_of (rxData ?t1) \<noteq> []"
        using ok no k(3) False by simp_all
      from pack_formed [OF t1 s1] k(1) show ?thesis by (auto simp: pass_formed_def)
    qed
  qed
qed

section \<open>The frames in flight\<close>

text \<open>
  The frames that the DMA still has to fetch, read off the descriptor ring: those of the owned descriptors from its
  current one on.
\<close>

definition owned_frames :: "nat \<Rightarrow> eth \<Rightarrow> u8 list list" where
  "owned_frames cur e = map (dma_frame (eth_mem e)) (takeWhile dma_owned (rotate cur (TxRing (Ch (eth_gmac e) ! 0))))"

lemma ring_pos_add: "ring_pos n (ring_pos n h i) j = ring_pos n h (i + j)"
  by (simp add: ring_pos_def mod_add_left_eq add.assoc)

lemma rotate_nth_ring: "j < length xs \<Longrightarrow> rotate c xs ! j = xs ! ring_pos (length xs) c j"
  by (simp add: nth_rotate ring_pos_def)

lemma takeWhile_nth_eq:
  assumes "k \<le> length xs" "\<forall>j < k. P (xs ! j)" "k < length xs \<longrightarrow> \<not> P (xs ! k)"
  shows "takeWhile P xs = take k xs"
  using assms
proof (induction xs arbitrary: k)
  case (Cons x xs)
  show ?case
  proof (cases k)
    case 0
    then show ?thesis using Cons.prems by simp
  next
    case (Suc k')
    have "\<forall>j < k'. P (xs ! j)" "k' < length xs \<longrightarrow> \<not> P (xs ! k')" "P x" using Cons.prems Suc by (auto dest: spec [of _ "Suc _"] spec [of _ 0])
    then show ?thesis using Cons.IH [of k'] Cons.prems(1) Suc by simp
  qed
qed simp

lemma owned_frames_eq:
  assumes e: "port_ok base cap first cfg src n h v frames e"
  shows "owned_frames (ring_pos n h (length (v_done v))) e = frames"
proof -
  let ?ch = "Ch (eth_gmac e) ! 0" and ?d = "length (v_done v)" and ?k = "length (v_flying v)"
  let ?ring = "TxRing ?ch" and ?c = "ring_pos n h (length (v_done v))"
  have p: "fifo_ok base cap first h v 0 e" "v_granted v = []" "length ?ring = n" "list_all2 (carries (eth_mem e) cap ?ch) (v_flying v) frames"
    using e by (simp_all add: port_ok_def)
  have w: "window_ok base cap h v ?ch" using fifo_facts(4) [OF p(1)] by simp
  note wf = window_facts [OF w, unfolded p(3)]
  have len: "length (outstanding v) = ?d + ?k" using p(2) by (simp add: outstanding_def)
  have k: "?d + ?k \<le> n" using wf(4) len by simp
  have at: "rotate ?c ?ring ! j = ?ring ! ring_pos n h (?d + j)" if "j < n" for j
    using rotate_nth_ring [of j ?ring ?c] that p(3) by (simp add: ring_pos_add)
  have slot: "slot_ok v cap i (base (ring_pos n h i)) (?ring ! ring_pos n h i)" if "i < n" for i
    using window_slot [OF w, of i] that p(3) by simp
  have own: "dma_owned (rotate ?c ?ring ! j)" if "j < ?k" for j
    using slot [of "?d + j"] at [of j] that k by (simp add: slot_ok_def dma_owned_def)
  have free: "\<not> dma_owned (rotate ?c ?ring ! ?k)" if "?k < n"
  proof (cases "?d + ?k < n")
    case True
    then show ?thesis using slot [of "?d + ?k"] at [OF that] len by (simp add: slot_ok_def dma_owned_def)
  next
    case False
    then have "?d + ?k = n" "0 < ?d" using k that by (simp, force)
    then have "ring_pos n h (?d + ?k) = ring_pos n h 0" by (simp add: ring_pos_def)
    then show ?thesis using slot [of 0] at [OF that] \<open>0 < ?d\<close> wf(3) by (simp add: slot_ok_def dma_owned_def)
  qed
  have tw: "takeWhile dma_owned (rotate ?c ?ring) = take ?k (rotate ?c ?ring)"
    using own free k p(3) by (intro takeWhile_nth_eq) auto
  have fr: "dma_frame (eth_mem e) (rotate ?c ?ring ! j) = frames ! j" if j: "j < ?k" for j
  proof -
    have "v_flying v ! j = outstanding v ! (?d + j)" using j p(2) by (simp add: outstanding_def nth_append)
    also have "\<dots> = base (ring_pos n h (?d + j))" using window_nth [OF w, of "?d + j"] j len p(3) by simp
    finally have b: "v_flying v ! j = base (ring_pos n h (?d + j))" .
    obtain i where i: "i < n" "Info0 (?ring ! i) = v_flying v ! j" "dma_owned (?ring ! i)" "dma_frame (eth_mem e) (?ring ! i) = frames ! j"
      using p(3,4) j by (auto simp: list_all2_conv_all_nth carries_def Let_def)
    obtain m where m: "m < n" "ring_pos n h m = i" using ring_pos_surj i(1) wf(2) by blast
    have "Info0 (?ring ! i) = base i" using slot [OF m(1)] i(3) m(2) by (auto simp: slot_ok_def dma_owned_def split: if_splits)
    then have "base i = base (ring_pos n h (?d + j))" using i(2) b by simp
    moreover have "inj_on base {..<n}" using w p(3) by (simp add: window_ok_def Let_def)
    ultimately have "i = ring_pos n h (?d + j)" using i(1) wf(3) by (auto dest: inj_onD)
    then show ?thesis using i(4) at [of j] j k by simp
  qed
  have "length frames = ?k" using p(4) by (simp add: list_all2_lengthD)
  then show ?thesis unfolding owned_frames_def tw using fr k p(3) by (intro nth_equalityI) auto
qed

end
