(* ===== verification/Gw_System.thy ===== *)
theory Gw_System
  imports Gw_Pass "HOL-Library.Sublist"
begin

text \<open>
  The gateway as a system of interleaved steps: arriving CAN messages, passes of the transmit task, the DMA and the
  transmit interrupt, with its invariant and the end-to-end properties.
\<close>

section \<open>The gateway as a system\<close>

lemma enqueue_accepts:
  assumes q: "queue_ok w" and m: "msg_ok m" "length pad = 2"
    and room: "length (queued_ipdus w) < queue_cap (xQueue_CAN w) (gw_kernel w)"
  shows "\<exists>w'. callback_enqueue pad m w = Inr (w', True) \<and> queue_ok w' \<and> queued_ipdus w' = queued_ipdus w @ [ipdus_of m] \<and>
    gw_eth w' = gw_eth w \<and> canStats w' = (canStats w)\<lparr>rxCount := rxCount (canStats w) + 1\<rparr> \<and> xQueue_CAN w' = xQueue_CAN w \<and>
    queue_cap (xQueue_CAN w) (gw_kernel w') = queue_cap (xQueue_CAN w) (gw_kernel w)"
proof -
  let ?p = "xQueue_CAN w" and ?k = "gw_kernel w" and ?bs = "msg_bytes pad m"
  have l: "length (msg_data m) = 64" using m(1) by (simp add: msg_ok_def)
  then have "item_fits ?p ?k ?bs" using q m(2) by (simp add: queue_ok_def)
  moreover have "quiet ?p ?k" using q by (simp add: queue_ok_def)
  moreover have "length (queue_contents ?p ?k) < queue_cap ?p ?k" using room by (simp add: queued_ipdus_def)
  ultimately obtain k where k: "xQueueGenericSendFromISR ?p (Some ?bs) False queueSEND_TO_BACK ?k = Inr (k, False, pdPASS)"
    "quiet ?p k" "queue_contents ?p k = queue_contents ?p ?k @ [?bs]" "queue_cap ?p k = queue_cap ?p ?k" "item_fits ?p k = item_fits ?p ?k"
    using quiet_send by blast
  with q m l show ?thesis
    by (simp add: callback_enqueue_def Let_def queue_ok_def queued_ipdus_def msg_of_msg_bytes)
qed

lemma enqueue_rejects:
  assumes q: "queue_ok w" and full: "\<not> length (queued_ipdus w) < queue_cap (xQueue_CAN w) (gw_kernel w)"
  shows "\<exists>w'. callback_enqueue pad m w = Inr (w', False) \<and> queue_ok w' \<and> queued_ipdus w' = queued_ipdus w \<and> gw_eth w' = gw_eth w \<and>
    canStats w' = (canStats w)\<lparr>rxCount := rxCount (canStats w) + 1, queueFullErrors := queueFullErrors (canStats w) + 1\<rparr> \<and>
    xQueue_CAN w' = xQueue_CAN w \<and> gw_kernel w' = gw_kernel w"
proof -
  let ?p = "xQueue_CAN w" and ?k = "gw_kernel w"
  have "xQueueGenericSendFromISR ?p (Some (msg_bytes pad m)) False queueSEND_TO_BACK ?k = Inr (?k, False, errQUEUE_FULL)"
    using q full by (intro send_from_isr_full) (auto simp: queue_ok_def quiet_def queue_cap_def queued_ipdus_def)
  with q show ?thesis by (simp add: callback_enqueue_def Let_def queue_ok_def queued_ipdus_def)
qed

text \<open>
  The steps of the system: a CAN message arrives, the transmit task makes one pass, the DMA fetches the frame of its
  current descriptor and writes it back, the transmit interrupt reports. A step is atomic. The events record what is
  observed: the messages the queue took and refused, for each pass the bytes of the container it decided to send (if
  any) and the frames it appended to those waiting in the descriptor ring, and the frames that the DMA put on the
  wire. The frames in flight are read off the descriptors the DMA owns.
\<close>

record gw_sys =
  sys_task :: tas_locals
  sys_gw :: gateway
  dma_cur :: nat

datatype gw_event =
    Accepted Flexcan_Ip_MsgBuffType | Refused Flexcan_Ip_MsgBuffType
  | Passed "u8 list option" "u8 list list" | Fetched "u8 list" | Reported

abbreviation tx_ring0 :: "gateway \<Rightarrow> Gmac_Ip_BufferDescriptorType list" where
  "tx_ring0 w \<equiv> TxRing (Ch (eth_gmac (gw_eth w)) ! 0)"

definition in_flight :: "gw_sys \<Rightarrow> u8 list list" where
  "in_flight s = owned_frames (dma_cur s) (gw_eth (sys_gw s))"

inductive gw_step :: "gw_sys \<Rightarrow> gw_event \<Rightarrow> gw_sys \<Rightarrow> bool" where
  rx_taken: "msg_ok m \<Longrightarrow> length pad = 2 \<Longrightarrow> callback_enqueue pad m (sys_gw s) = Inr (w', True) \<Longrightarrow>
    gw_step s (Accepted m) (s\<lparr>sys_gw := w'\<rparr>)"
| rx_refused: "msg_ok m \<Longrightarrow> length pad = 2 \<Longrightarrow> callback_enqueue pad m (sys_gw s) = Inr (w', False) \<Longrightarrow>
    gw_step s (Refused m) (s\<lparr>sys_gw := w'\<rparr>)"
| task_pass: "ETH_PDU_Send_TAS_pass sec nsec (sys_task s, sys_gw s) = Inr (t', w') \<Longrightarrow> s' = s\<lparr>sys_task := t', sys_gw := w'\<rparr> \<Longrightarrow>
    gw_step s (Passed (pass_formed sec nsec (sys_task s, sys_gw s)) (drop (length (in_flight s)) (in_flight s'))) s'"
| dma_fetch: "bd = tx_ring0 (sys_gw s) ! dma_cur s \<Longrightarrow> dma_owned bd \<Longrightarrow> w = sys_gw s \<Longrightarrow>
    gw_step s (Fetched (dma_frame (eth_mem (gw_eth w)) bd))
      (s\<lparr>sys_gw := w\<lparr>gw_eth := eth_dma_done 0 (dma_cur s) lo hi status (gw_eth w)\<rparr>,
         dma_cur := Suc (dma_cur s) mod length (tx_ring0 w)\<rparr>)"
| tx_irq: "Eth_TxIrqCallback 0 0 (gw_eth (sys_gw s)) = Inr e' \<Longrightarrow>
    gw_step s Reported (s\<lparr>sys_gw := (sys_gw s)\<lparr>gw_eth := e'\<rparr>\<rparr>)"

inductive gw_run :: "gw_sys \<Rightarrow> gw_event list \<Rightarrow> gw_sys \<Rightarrow> bool" for s0 where
  start: "gw_run s0 [] s0"
| continue: "gw_run s0 es s \<Longrightarrow> gw_step s ev s' \<Longrightarrow> gw_run s0 (es @ [ev]) s'"

fun accepted_ipdus :: "gw_event list \<Rightarrow> ipdu list" where
  "accepted_ipdus [] = []"
| "accepted_ipdus (Accepted m # es) = ipdus_of m @ accepted_ipdus es"
| "accepted_ipdus (_ # es) = accepted_ipdus es"

fun wire :: "gw_event list \<Rightarrow> u8 list list" where
  "wire [] = []"
| "wire (Fetched f # es) = f # wire es"
| "wire (_ # es) = wire es"

fun refused_count :: "gw_event list \<Rightarrow> nat" where
  "refused_count [] = 0"
| "refused_count (Refused m # es) = Suc (refused_count es)"
| "refused_count (_ # es) = refused_count es"

text \<open>
  What the passes of a run did: the containers formed, the frames handed over to the DMA, the containers of the passes
  that handed something over and those of the passes that handed over nothing.
\<close>

fun formed :: "gw_event list \<Rightarrow> u8 list list" where
  "formed [] = []"
| "formed (Passed (Some c) fs # es) = c # formed es"
| "formed (_ # es) = formed es"

fun handed :: "gw_event list \<Rightarrow> u8 list list" where
  "handed [] = []"
| "handed (Passed c fs # es) = fs @ handed es"
| "handed (_ # es) = handed es"

fun delivered :: "gw_event list \<Rightarrow> u8 list list" where
  "delivered [] = []"
| "delivered (Passed (Some c) (f # fs) # es) = c # delivered es"
| "delivered (_ # es) = delivered es"

fun dropped :: "gw_event list \<Rightarrow> u8 list list" where
  "dropped [] = []"
| "dropped (Passed (Some c) [] # es) = c # dropped es"
| "dropped (_ # es) = dropped es"

fun formed_containers :: "emission list \<Rightarrow> ipdu list list" where
  "formed_containers [] = []"
| "formed_containers (Silent # es) = formed_containers es"
| "formed_containers (e # es) = emitted e # formed_containers es"

fun sent_containers :: "emission list \<Rightarrow> ipdu list list" where
  "sent_containers [] = []"
| "sent_containers (Emitted ps # es) = ps # sent_containers es"
| "sent_containers (_ # es) = sent_containers es"

fun dropped_containers :: "emission list \<Rightarrow> ipdu list list" where
  "dropped_containers [] = []"
| "dropped_containers (Dropped ps # es) = ps # dropped_containers es"
| "dropped_containers (_ # es) = dropped_containers es"

lemma event_appends [simp]:
  "accepted_ipdus (es @ fs) = accepted_ipdus es @ accepted_ipdus fs" "wire (es @ fs) = wire es @ wire fs"
  "refused_count (es @ fs) = refused_count es + refused_count fs"
  by (induction es rule: accepted_ipdus.induct; simp)+

lemma formed_append [simp]: "formed (es @ fs) = formed es @ formed fs"
  by (induction es rule: formed.induct) simp_all

lemma handed_append [simp]: "handed (es @ fs) = handed es @ handed fs"
  by (induction es rule: handed.induct) simp_all

lemma delivered_append [simp]: "delivered (es @ fs) = delivered es @ delivered fs"
  by (induction es rule: delivered.induct) simp_all

lemma dropped_append [simp]: "dropped (es @ fs) = dropped es @ dropped fs"
  by (induction es rule: dropped.induct) simp_all

lemmas pass_event_appends = formed_append handed_append delivered_append dropped_append

lemma emission_appends [simp]:
  "sent_containers (xs @ ys) = sent_containers xs @ sent_containers ys"
  "dropped_containers (xs @ ys) = dropped_containers xs @ dropped_containers ys"
  "formed_containers (xs @ ys) = formed_containers xs @ formed_containers ys"
  by (induction xs rule: sent_containers.induct; simp)+

lemma concat_formed: "concat (formed_containers ems) = concat (map emitted ems)"
  by (induction ems rule: formed_containers.induct) auto

lemma pass_events:
  "formed [Passed (formed_by em) (sent_frames src em)] = map encode (formed_containers [em])"
  "handed [Passed (formed_by em) (sent_frames src em)] = map (gw_frame src) (sent_containers [em])"
  "delivered [Passed (formed_by em) (sent_frames src em)] = map encode (sent_containers [em])"
  "dropped [Passed (formed_by em) (sent_frames src em)] = map encode (dropped_containers [em])"
  by (cases em; simp add: formed_by_def sent_frames_def)+

text \<open>
  The invariant of a run. The I-PDUs of the accepted messages are those of the containers formed so far followed by
  what the task and the queue still hold; the frames fetched by the DMA followed by those in flight are the frames
  handed over, which carry the containers that were not dropped; the counters count.
\<close>

definition sys_inv :: "(nat \<Rightarrow> u32) \<Rightarrow> u32 \<Rightarrow> nat \<Rightarrow> Eth_CtrlCfgType \<Rightarrow> u8 list \<Rightarrow> nat \<Rightarrow> CANStatistics_t \<Rightarrow>
    gw_event list \<Rightarrow> gw_sys \<Rightarrow> ipdu list \<Rightarrow> nat \<Rightarrow> tx_view \<Rightarrow> u8 list list \<Rightarrow> emission list \<Rightarrow> bool" where
  "sys_inv base cap first cfg src n c0 es s ps h v frames ems \<longleftrightarrow>
    (let t = sys_task s; w = sys_gw s
     in locals_ok ps t \<and> queue_ok w \<and> port_ok base cap first cfg src n h v frames (gw_eth w) \<and>
        dma_cur s = ring_pos n h (length (v_done v)) \<and>
        accepted_ipdus es = concat (map emitted ems) @ held (aside_of t, ps, queued_ipdus w) \<and>
        formed es = map encode (formed_containers ems) \<and> handed es = map (gw_frame src) (sent_containers ems) \<and>
        delivered es = map encode (sent_containers ems) \<and> dropped es = map encode (dropped_containers ems) \<and>
        wire es @ frames = handed es \<and>
        (\<forall>c \<in> set (sent_containers ems). length (encode c) \<le> CONTAINER_LIMIT) \<and>
        containersSent (canStats w) = containersSent c0 + of_nat (length (handed es)) \<and>
        ethBufferErrors (canStats w) = ethBufferErrors c0 + of_nat (length (dropped es)) \<and>
        queueFullErrors (canStats w) = queueFullErrors c0 + of_nat (refused_count es))"

definition sys_reach where
  "sys_reach base cap first cfg src n c0 es s \<longleftrightarrow> (\<exists>ps h v frames ems. sys_inv base cap first cfg src n c0 es s ps h v frames ems)"

lemma sys_reachI: "sys_inv base cap first cfg src n c0 es s ps h v frames ems \<Longrightarrow> sys_reach base cap first cfg src n c0 es s"
  unfolding sys_reach_def by blast

lemma sys_reach_rx:
  assumes inv: "sys_reach base cap first cfg src n c0 es s" and m: "msg_ok m" "length pad = 2"
    and run: "callback_enqueue pad m (sys_gw s) = Inr (w', taken)"
  shows "sys_reach base cap first cfg src n c0 (es @ [if taken then Accepted m else Refused m]) (s\<lparr>sys_gw := w'\<rparr>)"
proof -
  obtain ps h v frames ems where i: "sys_inv base cap first cfg src n c0 es s ps h v frames ems"
    using inv by (auto simp: sys_reach_def)
  then have q: "queue_ok (sys_gw s)" by (simp add: sys_inv_def Let_def)
  have "sys_inv base cap first cfg src n c0 (es @ [if taken then Accepted m else Refused m]) (s\<lparr>sys_gw := w'\<rparr>) ps h v frames ems"
  proof (cases "length (queued_ipdus (sys_gw s)) < queue_cap (xQueue_CAN (sys_gw s)) (gw_kernel (sys_gw s))")
    case True
    from enqueue_accepts [OF q m True] run i show ?thesis by (auto simp: sys_inv_def Let_def)
  next
    case False
    from enqueue_rejects [OF q False, of pad m] run i show ?thesis by (auto simp: sys_inv_def Let_def algebra_simps)
  qed
  then show ?thesis by (rule sys_reachI)
qed

lemma locals_ok_bounded: "locals_ok ps t \<Longrightarrow> length (encode ps) \<le> CONTAINER_LIMIT"
  by (auto simp: locals_ok_def container_is_def split: if_splits)

lemma abs_pack_bounded:
  "length (encode pend) \<le> CONTAINER_LIMIT \<Longrightarrow> abs_pack p pend q = (a, pend', q') \<Longrightarrow> length (encode pend') \<le> CONTAINER_LIMIT"
  by (auto simp: abs_pack_def split: if_splits)

lemma abs_send_bounded:
  "abs_send gate room (a, pend, q) = (s', Emitted c) \<Longrightarrow> length (encode pend) \<le> CONTAINER_LIMIT \<Longrightarrow> length (encode c) \<le> CONTAINER_LIMIT"
  by (auto simp: abs_send_def split: if_splits)

lemma abs_pass_bounded:
  assumes "abs_pass gate room (a, pend, q) = (s', Emitted c)" "length (encode pend) \<le> CONTAINER_LIMIT"
  shows "length (encode c) \<le> CONTAINER_LIMIT"
proof -
  have pack: "length (encode c) \<le> CONTAINER_LIMIT" if "abs_send gate room (abs_pack p pend q') = (s', Emitted c)" for p q'
    using that abs_pack_bounded [OF assms(2)] abs_send_bounded by (metis prod_cases3)
  show ?thesis
  proof (cases "a = [] \<and> q = []")
    case True
    then show ?thesis using assms abs_send_bounded by (simp add: abs_pass_def)
  next
    case False
    then show ?thesis using assms(1) pack by (auto simp: abs_pass_def split: if_splits list.splits)
  qed
qed

lemma aside_empties: "locals_ok ps t \<Longrightarrow> aside_of t \<noteq> [] \<longrightarrow> ps = []"
  by (auto simp: locals_ok_def aside_of_def split: if_splits)

lemma in_flight_frames:
  assumes "port_ok base cap first cfg src n h v frames (gw_eth (sys_gw s))" "dma_cur s = ring_pos n h (length (v_done v))"
  shows "in_flight s = frames"
  using owned_frames_eq [OF assms(1)] assms(2) by (simp add: in_flight_def)

lemma sys_reach_pass:
  assumes inv: "sys_reach base cap first cfg src n c0 es s"
  shows "\<exists>t' w'. ETH_PDU_Send_TAS_pass sec nsec (sys_task s, sys_gw s) = Inr (t', w') \<and>
    (let s' = s\<lparr>sys_task := t', sys_gw := w'\<rparr>
     in sys_reach base cap first cfg src n c0
          (es @ [Passed (pass_formed sec nsec (sys_task s, sys_gw s)) (drop (length (in_flight s)) (in_flight s'))]) s')"
proof -
  obtain ps h v frames ems where i: "sys_inv base cap first cfg src n c0 es s ps h v frames ems"
    using inv by (auto simp: sys_reach_def)
  then have ok: "locals_ok ps (sys_task s)" "queue_ok (sys_gw s)" "port_ok base cap first cfg src n h v frames (gw_eth (sys_gw s))"
    by (simp_all add: sys_inv_def Let_def)
  let ?a = "(aside_of (sys_task s), ps, queued_ipdus (sys_gw s))"
  obtain a' p' q' em where abs: "abs_pass (TAS_IsGateOpen_FIFOx sec nsec 0) (length (outstanding v) < n) ?a = ((a', p', q'), em)"
    by (metis prod_cases3 surj_pair)
  obtain t' w' b where r: "ETH_PDU_Send_TAS_pass sec nsec (sys_task s, sys_gw s) = Inr (t', w')" "locals_ok p' t'" "aside_of t' = a'"
    "queue_ok w'" "queued_ipdus w' = q'"
    "port_ok base cap first cfg src n h (sent_view em b v) (frames @ sent_frames src em) (gw_eth w')"
    "canStats w' = counted em (canStats (sys_gw s))"
    using pass_refines [OF ok abs] by (auto simp: pass_result_def)
  have h: "held ?a = emitted em @ held (a', p', q')"
    using abs_pass_held [OF abs] aside_empties [OF ok(1)] by simp
  have bd: "em = Emitted c \<Longrightarrow> length (encode c) \<le> CONTAINER_LIMIT" for c
    using abs_pass_bounded [of _ _ _ _ _ _ c] abs locals_ok_bounded [OF ok(1)] by blast
  have d: "v_done (sent_view em b v) = v_done v" by (cases em) (simp_all add: sent_view_def)
  let ?s' = "s\<lparr>sys_task := t', sys_gw := w'\<rparr>"
  let ?ev = "Passed (pass_formed sec nsec (sys_task s, sys_gw s)) (drop (length (in_flight s)) (in_flight ?s'))"
  have fl: "in_flight s = frames" "in_flight ?s' = frames @ sent_frames src em"
    using in_flight_frames [OF ok(3)] in_flight_frames [of base cap first cfg src n h "sent_view em b v" _ ?s'] r(6) d i
    by (simp_all add: sys_inv_def Let_def)
  have ev: "?ev = Passed (formed_by em) (sent_frames src em)"
    unfolding fl using pass_formed_refines [OF ok(1,2) abs] by simp
  have "sys_inv base cap first cfg src n c0 (es @ [?ev]) ?s' p' h (sent_view em b v) (frames @ sent_frames src em) (ems @ [em])"
    using i r h d bd unfolding ev sys_inv_def Let_def pass_event_appends pass_events
    by (cases em) (auto simp: sent_frames_def counted_def algebra_simps)
  from sys_reachI [OF this] r(1) show ?thesis unfolding Let_def by blast
qed

lemma eth_dma_done_frame [simp]:
  "eth_mem (eth_dma_done r i lo hi st e) = eth_mem e"
  "Gmac_Ip_GetMacAddr 0 (eth_gmac (eth_dma_done r i lo hi st e)) = Gmac_Ip_GetMacAddr 0 (eth_gmac e)"
  "driver_ready cfg (eth_dma_done r i lo hi st e) = driver_ready cfg e"
  by (simp_all add: eth_dma_done_def Gmac_Ip_GetMacAddr_def driver_ready_def ctrl_config_def)

lemma ring_pos_step: "0 < n \<Longrightarrow> Suc (ring_pos n h j) mod n = ring_pos n h (Suc j)"
  by (simp add: ring_pos_def mod_Suc_eq)

lemma sys_reach_dma:
  assumes inv: "sys_reach base cap first cfg src n c0 es s" and bd: "bd = tx_ring0 (sys_gw s) ! dma_cur s" "dma_owned bd"
  defines "w \<equiv> sys_gw s"
  shows "sys_reach base cap first cfg src n c0 (es @ [Fetched (dma_frame (eth_mem (gw_eth w)) bd)])
    (s\<lparr>sys_gw := w\<lparr>gw_eth := eth_dma_done 0 (dma_cur s) lo hi status (gw_eth w)\<rparr>, dma_cur := Suc (dma_cur s) mod length (tx_ring0 w)\<rparr>)"
proof -
  obtain ps h v frames ems where i: "sys_inv base cap first cfg src n c0 es s ps h v frames ems"
    using inv by (auto simp: sys_reach_def)
  let ?e = "gw_eth w" and ?e' = "eth_dma_done 0 (dma_cur s) lo hi status (gw_eth w)"
  have p: "fifo_ok base cap first h v 0 ?e" "length (tx_ring0 w) = n"
    "list_all2 (carries (eth_mem ?e) cap (Ch (eth_gmac ?e) ! unat (0 :: u8))) (v_flying v) frames" "dma_cur s = ring_pos n h (length (v_done v))"
    using i by (simp_all add: sys_inv_def Let_def port_ok_def w_def)
  have n: "length (TxRing (Ch (eth_gmac ?e) ! unat (0 :: u8))) = n" using p(2) by simp
  have own: "dma_owned (TxRing (Ch (eth_gmac ?e) ! unat (0 :: u8)) ! ring_pos n h (length (v_done v)))" using bd p(4) by (simp add: w_def)
  obtain b F fs where f: "v_flying v = b # F" "frames = dma_frame (eth_mem ?e) bd # fs"
    "fifo_ok base cap first h (v\<lparr>v_done := v_done v @ [b], v_flying := F\<rparr>) 0 ?e'"
    "list_all2 (carries (eth_mem ?e) cap (Ch (eth_gmac ?e') ! 0)) F fs"
    using dma_fetches_oldest [OF p(1), unfolded n, OF own p(3), of lo hi status] bd p(4) by (auto simp: w_def)
  have len: "length (TxRing (Ch (eth_gmac ?e') ! 0)) = n"
    using p(2) fifo_facts(3) [OF p(1)] by (simp add: eth_dma_done_def dma_write_back_def)
  have n0: "0 < n" using fifo_facts(13) [OF p(1)] n by simp
  have "sys_inv base cap first cfg src n c0 (es @ [Fetched (dma_frame (eth_mem ?e) bd)])
    (s\<lparr>sys_gw := w\<lparr>gw_eth := ?e'\<rparr>, dma_cur := Suc (dma_cur s) mod length (tx_ring0 w)\<rparr>) ps h (v\<lparr>v_done := v_done v @ [b], v_flying := F\<rparr>) fs ems"
    using i f len p(2,4) ring_pos_step [OF n0]
    by (auto simp: sys_inv_def Let_def port_ok_def w_def [symmetric] queue_ok_def queued_ipdus_def)
  then show ?thesis by (rule sys_reachI)
qed

lemma report_one_setup:
  "report_one c f i s = Inr (s', st) \<Longrightarrow> Eth_apxInternalCfg s' = Eth_apxInternalCfg s \<and> Eth_axCtrlState s' = Eth_axCtrlState s"
  by (auto simp: report_one_def Eth_Ipw_GetTransmissionStatus_def rbind_Inr_iff Let_def EthIf_TxConfirmation_def split: if_splits)

lemma report_loop_setup:
  "report_loop fuel c f i s = Inr s' \<Longrightarrow> Eth_apxInternalCfg s' = Eth_apxInternalCfg s \<and> Eth_axCtrlState s' = Eth_axCtrlState s"
proof (induction fuel c f i s rule: report_loop.induct)
  case (3 fuel c f i s)
  then obtain s1 st where s1: "report_one c f i s = Inr (s1, st)" by (auto simp: rbind_Inr_iff)
  from report_one_setup [OF this] 3 show ?case by (cases "st = E_OK") (auto simp: s1)
qed auto

lemma report_setup:
  assumes "Eth_ReportTransmission c f s = Inr s'"
  shows "driver_ready cfg s' = driver_ready cfg s" "Gmac_Ip_GetMacAddr 0 (eth_gmac s') = Gmac_Ip_GetMacAddr 0 (eth_gmac s)"
proof -
  have g: "eth_gmac s' = (eth_gmac s)\<lparr>Ch := Ch (eth_gmac s')\<rparr>" using report_keeps [OF assms] by (simp add: driver_keeps_owned_def)
  have "Eth_apxInternalCfg s' = Eth_apxInternalCfg s \<and> Eth_axCtrlState s' = Eth_axCtrlState s"
    using assms by (auto simp: Eth_ReportTransmission_def dest: report_loop_setup split: if_splits)
  moreover have "GMAC_GetPowerState (eth_gmac s') = GMAC_GetPowerState (eth_gmac s)" by (subst g) simp
  ultimately show "driver_ready cfg s' = driver_ready cfg s" by (simp add: driver_ready_def ctrl_config_def)
  show "Gmac_Ip_GetMacAddr 0 (eth_gmac s') = Gmac_Ip_GetMacAddr 0 (eth_gmac s)" by (subst g) (simp add: Gmac_Ip_GetMacAddr_def)
qed

lemma sys_reach_irq:
  assumes inv: "sys_reach base cap first cfg src n c0 es s"
  shows "\<exists>e'. Eth_TxIrqCallback 0 0 (gw_eth (sys_gw s)) = Inr e' \<and>
    sys_reach base cap first cfg src n c0 (es @ [Reported]) (s\<lparr>sys_gw := (sys_gw s)\<lparr>gw_eth := e'\<rparr>\<rparr>)"
proof -
  obtain ps h v frames ems where i: "sys_inv base cap first cfg src n c0 es s ps h v frames ems"
    using inv by (auto simp: sys_reach_def)
  let ?e = "gw_eth (sys_gw s)"
  have p: "fifo_ok base cap first h v 0 ?e" "length (TxRing (Ch (eth_gmac ?e) ! unat (0 :: u8))) = n"
    "list_all2 (carries (eth_mem ?e) cap (Ch (eth_gmac ?e) ! 0)) (v_flying v) frames"
    using i by (simp_all add: sys_inv_def Let_def port_ok_def)
  let ?h' = "ring_pos n h (length (v_done v))"
  obtain e' where e': "Eth_ReportTransmission 0 0 ?e = Inr e'" "fifo_ok base cap first ?h' (v\<lparr>v_done := []\<rparr>) 0 e'"
    "length (TxRing (Ch (eth_gmac e') ! 0)) = n" "eth_mem e' = eth_mem ?e"
    using report_exact [OF p(1), unfolded p(2)] by auto
  have "keeps_owned (Ch (eth_gmac ?e) ! 0) (Ch (eth_gmac e') ! 0)"
    using report_keeps [OF e'(1)] fifo_facts(3) [OF p(1)] by (simp add: driver_keeps_owned_def)
  then have fl: "list_all2 (carries (eth_mem e') cap (Ch (eth_gmac e') ! 0)) (v_flying v) frames"
    using p(3) unfolding e'(4) by (auto intro: list_all2_mono carries_keeps)
  have "ring_pos n ?h' 0 = ?h'" using fifo_facts(13) [OF e'(2)] e'(3) by (simp add: ring_pos_def)
  then have "sys_inv base cap first cfg src n c0 (es @ [Reported]) (s\<lparr>sys_gw := (sys_gw s)\<lparr>gw_eth := e'\<rparr>\<rparr>) ps ?h' (v\<lparr>v_done := []\<rparr>) frames ems"
    using i e' fl report_setup [OF e'(1)] by (auto simp: sys_inv_def Let_def port_ok_def queue_ok_def queued_ipdus_def)
  from sys_reachI [OF this] e'(1) show ?thesis by (auto simp: Eth_TxIrqCallback_def)
qed

lemma gw_step_reach:
  assumes "gw_step s ev s'" "sys_reach base cap first cfg src n c0 es s"
  shows "sys_reach base cap first cfg src n c0 (es @ [ev]) s'"
  using assms
proof (cases rule: gw_step.cases)
  case (rx_taken m pad w')
  then show ?thesis using sys_reach_rx [OF assms(2), of m pad w' True] by simp
next
  case (rx_refused m pad w')
  then show ?thesis using sys_reach_rx [OF assms(2), of m pad w' False] by simp
next
  case (task_pass sec nsec t' w')
  then show ?thesis using sys_reach_pass [OF assms(2), of sec nsec] by (auto simp: Let_def)
next
  case (dma_fetch bd w lo hi status)
  then show ?thesis using sys_reach_dma [OF assms(2)] by simp
next
  case (tx_irq e')
  then show ?thesis using sys_reach_irq [OF assms(2)] by auto
qed

lemma gw_run_reach:
  assumes "gw_run s0 es s" "sys_reach base cap first cfg src n c0 [] s0"
  shows "sys_reach base cap first cfg src n c0 es s"
  using assms by (induction rule: gw_run.induct) (auto intro: gw_step_reach)

text \<open>
  The system as it starts: the locals as initialised, an empty queue for 80-byte messages, an initialised and active
  Ethernet port with nothing outstanding.
\<close>

definition gw_initial :: "(nat \<Rightarrow> u32) \<Rightarrow> u32 \<Rightarrow> nat \<Rightarrow> Eth_CtrlCfgType \<Rightarrow> u8 list \<Rightarrow> nat \<Rightarrow> gw_sys \<Rightarrow> bool" where
  "gw_initial base cap first cfg src n s \<longleftrightarrow>
    (let t = sys_task s; w = sys_gw s
     in \<not> hasOverflowPdu t \<and> \<not> containerPending t \<and> containerLen t = 0 \<and> iPduCount t = 0 \<and>
        length (currentContainer t) = CONTAINER_MAX_SIZE \<and>
        queue_ok w \<and> queue_contents (xQueue_CAN w) (gw_kernel w) = [] \<and>
        port_ok base cap first cfg src n 0 empty_view [] (gw_eth w) \<and> dma_cur s = 0)"

lemma initial_reach:
  assumes "gw_initial base cap first cfg src n s"
  shows "sys_reach base cap first cfg src n (canStats (sys_gw s)) [] s"
proof (rule sys_reachI)
  show "sys_inv base cap first cfg src n (canStats (sys_gw s)) [] s [] 0 empty_view [] []"
    using assms by (auto simp: gw_initial_def sys_inv_def Let_def locals_ok_def aside_of_def queued_ipdus_def ring_pos_def empty_view_def)
qed

lemma sent_subseq: "subseq (concat (sent_containers ems)) (concat (map emitted ems))"
  by (induction ems rule: sent_containers.induct) (auto intro: list_emb_append_mono list_emb_append2)

lemma sent_all: "dropped_containers ems = [] \<Longrightarrow> concat (sent_containers ems) = concat (map emitted ems)"
  by (induction ems rule: sent_containers.induct) auto

lemma run_msgs_ok: "gw_run s0 es s \<Longrightarrow> Accepted m \<in> set es \<Longrightarrow> msg_ok m"
  by (induction rule: gw_run.induct) (auto elim: gw_step.cases)

lemma in_accepted: "p \<in> set (accepted_ipdus es) \<longleftrightarrow> (\<exists>m. Accepted m \<in> set es \<and> p \<in> set (ipdus_of m))"
  by (induction es rule: accepted_ipdus.induct) auto

text \<open>A receiver that decodes the payload of a frame gets the container back, when the container is short enough for the count byte.\<close>

lemma frame_decodes:
  assumes "length src = 6" "length c < 256" "\<forall>p \<in> set c. length (snd p) < 256"
  shows "decode (drop 14 (gw_frame src c) @ pad) = Some c"
  using decode_encode [OF assms(2,3)] assms(1) by (simp add: gw_frame_def eth_header_def Gmac_0_MacAddr_def)

lemma port_src_length: "port_ok base cap first cfg src n h v frames e \<Longrightarrow> length src = 6"
  using mac_addr_total [of "eth_gmac e"] by (auto simp: port_ok_def)

section \<open>Properties\<close>

text \<open>(C1) End to end, nothing is lost, duplicated or reordered unnoticed. For every interleaving of arriving CAN messages,
  passes of the transmit task at any clock value, DMA completions and transmit interrupts from the initial state,
  observed through the events of the run and the descriptor ring:
  the I-PDUs of the messages the queue accepted, in order, are those of the containers formed (whose bytes are the ones
  observed when a pass decides to send), in order, followed by those still in the container, set aside or queued;
  the frames put on the wire followed by the frames of the descriptors the DMA still owns are exactly the frames handed
  over, in order, and these are the Ethernet header followed by the container, one for each pass that formed a container
  and was given a buffer; \<open>containersSent\<close> counts the frames handed over, \<open>ethBufferErrors\<close> the passes that formed a
  container and handed over nothing, \<open>queueFullErrors\<close> the refused messages.\<close>

theorem gateway_end_to_end:
  assumes "gw_initial base cap first cfg src n s0" "gw_run s0 es s"
  shows "(\<exists>css ps. formed es = map encode css \<and> locals_ok ps (sys_task s) \<and>
      accepted_ipdus es = concat css @ ps @ aside_of (sys_task s) @ concat (queued_ipdus (sys_gw s))) \<and>
    wire es @ in_flight s = handed es \<and>
    handed es = map (\<lambda>c. eth_header Gmac_0_MacAddr src 0x0A0B @ c) (delivered es) \<and>
    containersSent (canStats (sys_gw s)) = containersSent (canStats (sys_gw s0)) + of_nat (length (handed es)) \<and>
    ethBufferErrors (canStats (sys_gw s)) = ethBufferErrors (canStats (sys_gw s0)) + of_nat (length (dropped es)) \<and>
    queueFullErrors (canStats (sys_gw s)) = queueFullErrors (canStats (sys_gw s0)) + of_nat (refused_count es)"
proof -
  obtain ps h v frames ems where i: "sys_inv base cap first cfg src n (canStats (sys_gw s0)) es s ps h v frames ems"
    using gw_run_reach [OF assms(2) initial_reach [OF assms(1)]] by (auto simp: sys_reach_def)
  have fl: "in_flight s = frames" using i by (intro in_flight_frames) (auto simp: sys_inv_def Let_def)
  have "handed es = map (\<lambda>c. eth_header Gmac_0_MacAddr src 0x0A0B @ c) (delivered es)"
    using i by (simp add: sys_inv_def Let_def gw_frame_def)
  with i fl show ?thesis
    by (intro conjI exI [of _ "formed_containers ems"] exI [of _ ps]) (simp_all add: sys_inv_def Let_def concat_formed)
qed

text \<open>(C2) What a receiver decodes. When every accepted message carries at least three data bytes, each frame on the
  wire, with any padding behind it, decodes to a container, and the I-PDUs decoded from all frames are a
  subsequence of the I-PDUs of the accepted messages; they are a prefix when no pass of the run formed a container
  without handing it over, and \<open>ethBufferErrors\<close> counts the passes that did.\<close>

theorem gateway_decodes:
  assumes "gw_initial base cap first cfg src n s0" "gw_run s0 es s"
    and "\<forall>m. Accepted m \<in> set es \<longrightarrow> 3 \<le> unat (dataLen m)"
  shows "\<exists>css. map (\<lambda>f. decode (drop 14 f @ pad)) (wire es) = map Some css \<and> subseq (concat css) (accepted_ipdus es) \<and>
    (dropped es = [] \<longrightarrow> prefix (concat css) (accepted_ipdus es)) \<and>
    ethBufferErrors (canStats (sys_gw s)) = ethBufferErrors (canStats (sys_gw s0)) + of_nat (length (dropped es))"
proof -
  obtain ps h v frames ems where i: "sys_inv base cap first cfg src n (canStats (sys_gw s0)) es s ps h v frames ems"
    using gw_run_reach [OF assms(2) initial_reach [OF assms(1)]] by (auto simp: sys_reach_def)
  define k where "k = length (wire es)"
  let ?sent = "sent_containers ems"
  have w: "wire es @ frames = map (gw_frame src) ?sent" "\<forall>c \<in> set ?sent. length (encode c) \<le> CONTAINER_LIMIT"
    and a: "prefix (concat (map emitted ems)) (accepted_ipdus es)"
    and d: "ethBufferErrors (canStats (sys_gw s)) = ethBufferErrors (canStats (sys_gw s0)) + of_nat (length (dropped es))"
      "dropped es = map encode (dropped_containers ems)"
    and src: "length src = 6"
    using i port_src_length by (auto simp: sys_inv_def Let_def prefix_def)
  have wire: "wire es = map (gw_frame src) (take k ?sent)"
    unfolding k_def using w(1) by (metis append_eq_conv_conj take_map)
  have sub: "subseq (concat ?sent) (accepted_ipdus es)"
    using sent_subseq a by (meson prefix_imp_subseq subseq_order.trans)
  have len: "3 \<le> length (snd p) \<and> length (snd p) < 256" if "c \<in> set ?sent" "p \<in> set c" for c p
  proof -
    have "p \<in> set (concat ?sent)" using that by auto
    then have "p \<in> set (accepted_ipdus es)" using list_emb_set [OF sub] by blast
    then obtain m where m: "Accepted m \<in> set es" "p \<in> set (ipdus_of m)" by (auto simp: in_accepted)
    then have "msg_ok m" using run_msgs_ok [OF assms(2)] by blast
    with m assms(3) ipdu_length [of m p] show ?thesis by (auto simp: msg_ok_def)
  qed
  have dec: "decode (drop 14 (gw_frame src c) @ pad) = Some c" if "c \<in> set ?sent" for c
  proof (rule frame_decodes [OF src])
    have "2 + length c * (3 + 3) \<le> length (encode c)" using len that by (intro length_encode_min) auto
    then show "length c < 256" using w(2) that by fastforce
    show "\<forall>p \<in> set c. length (snd p) < 256" using len that by auto
  qed
  let ?css = "take k ?sent"
  have pre: "prefix (concat ?css) (concat ?sent)" by (metis append_take_drop_id concat_append prefixI)
  have "map (\<lambda>f. decode (drop 14 f @ pad)) (wire es) = map Some ?css"
    unfolding wire using dec by (auto dest: in_set_takeD)
  moreover have "subseq (concat ?css) (accepted_ipdus es)"
    using prefix_imp_subseq [OF pre] sub by (rule subseq_order.trans)
  moreover have "dropped es = [] \<longrightarrow> prefix (concat ?css) (accepted_ipdus es)"
    using pre a d(2) sent_all [of ems] by (auto intro: prefix_order.trans)
  ultimately show ?thesis using d(1) by blast
qed

text \<open>(C3) The gateway never fails an assertion, never accesses an array out of bounds and never hangs in a loop: in
  every state reached from the initial one, a pass of the transmit task at any clock value, the callback for any
  message and the transmit interrupt all return.\<close>

theorem gateway_never_faults:
  assumes "gw_initial base cap first cfg src n s0" "gw_run s0 es s" "msg_ok m" "length pad = 2"
  shows "(\<exists>r. ETH_PDU_Send_TAS_pass sec nsec (sys_task s, sys_gw s) = Inr r) \<and>
    (\<exists>r. callback_enqueue pad m (sys_gw s) = Inr r) \<and> (\<exists>e. Eth_TxIrqCallback 0 0 (gw_eth (sys_gw s)) = Inr e)"
proof -
  have r: "sys_reach base cap first cfg src n (canStats (sys_gw s0)) es s"
    using gw_run_reach [OF assms(2) initial_reach [OF assms(1)]] .
  then have q: "queue_ok (sys_gw s)" by (auto simp: sys_reach_def sys_inv_def Let_def)
  have "\<exists>r. callback_enqueue pad m (sys_gw s) = Inr r"
    using enqueue_accepts [OF q assms(3,4)] enqueue_rejects [OF q] by blast
  then show ?thesis using sys_reach_pass [OF r, of sec nsec] sys_reach_irq [OF r] by blast
qed

lemma window_room:
  assumes w: "window_ok base cap h v ch" and free: "Info1 (TxRing ch ! TxCurrentDesc ch) AND GMAC_INFO1_LOCKED_MASK = 0"
  shows "length (outstanding v) < length (TxRing ch)"
proof (rule ccontr)
  note facts = window_facts [OF w]
  assume "\<not> ?thesis"
  then have full: "length (outstanding v) = length (TxRing ch)" using facts(4) by simp
  then have "TxCurrentDesc ch = ring_pos (length (TxRing ch)) h 0" using facts(2,6) by (simp add: ring_pos_def)
  moreover have "Info1 (TxRing ch ! ring_pos (length (TxRing ch)) h 0) AND GMAC_INFO1_LOCKED_MASK \<noteq> 0"
    using window_slot [OF w, of 0] facts(3) full by (auto simp: slot_ok_def split: if_splits)
  ultimately show False using free by simp
qed

lemma abs_send_open:
  "pend \<noteq> [] \<Longrightarrow> abs_send True True (a, pend, q) = ((a, [], q), Emitted pend)"
  by (simp add: abs_send_def should_send_def)

lemma abs_pass_open:
  assumes "pend \<noteq> []" "q = [] \<or> hd q \<noteq> []"
  shows "\<exists>a' q' c. abs_pass True True ([], pend, q) = ((a', [], q'), Emitted c) \<and> prefix pend c"
  using assms by (cases q) (auto simp: abs_pass_def abs_pack_def abs_send_open)

text \<open>(C4) Progress. In every reachable state with I-PDUs in the container, a pass at a time when the gate of FIFO 0
  is open hands one frame over to the DMA, provided the next transmit descriptor is not locked and the next
  queued message is not one with an unmapped identifier (which would end the pass early): the frame joins those in
  flight at their end, its payload encodes a container that starts with the I-PDUs the task held, what is not in it is
  still set aside or queued, the container is reset and the frame is counted.\<close>

theorem pass_hands_over:
  assumes "gw_initial base cap first cfg src n s0" "gw_run s0 es s"
    and "containerPending (sys_task s)" "TAS_IsGateOpen_FIFOx sec nsec 0"
    and "queued_ipdus (sys_gw s) = [] \<or> hd (queued_ipdus (sys_gw s)) \<noteq> []"
    and "Info1 (tx_ring0 (sys_gw s) ! TxCurrentDesc (Ch (eth_gmac (gw_eth (sys_gw s))) ! 0)) AND GMAC_INFO1_LOCKED_MASK = 0"
  shows "\<exists>t' w' ps c. ETH_PDU_Send_TAS_pass sec nsec (sys_task s, sys_gw s) = Inr (t', w') \<and> \<not> containerPending t' \<and>
    container_is ps (sys_task s) \<and> prefix ps c \<and>
    in_flight (s\<lparr>sys_task := t', sys_gw := w'\<rparr>) = in_flight s @ [gw_frame src c] \<and>
    ps @ concat (queued_ipdus (sys_gw s)) = c @ aside_of t' @ concat (queued_ipdus w') \<and>
    canStats w' = (canStats (sys_gw s))\<lparr>containersSent := containersSent (canStats (sys_gw s)) + 1\<rparr>"
proof -
  obtain ps h v frames ems where i: "sys_inv base cap first cfg src n (canStats (sys_gw s0)) es s ps h v frames ems"
    using gw_run_reach [OF assms(2) initial_reach [OF assms(1)]] by (auto simp: sys_reach_def)
  let ?t = "sys_task s" and ?w = "sys_gw s"
  have ok: "locals_ok ps ?t" "queue_ok ?w" "port_ok base cap first cfg src n h v frames (gw_eth ?w)"
    and cur: "dma_cur s = ring_pos n h (length (v_done v))"
    using i by (simp_all add: sys_inv_def Let_def)
  then have "window_ok base cap h v (Ch (eth_gmac (gw_eth ?w)) ! 0)" "length (tx_ring0 ?w) = n"
    using fifo_facts(4) [of base cap first h v 0 "gw_eth ?w"] by (simp_all add: port_ok_def)
  then have room: "length (outstanding v) < n" using window_room assms(6) by blast
  have ps: "ps \<noteq> []" "aside_of ?t = []" "container_is ps ?t" using ok(1) assms(3) by (auto simp: locals_ok_def aside_of_def)
  obtain a' q' c where "abs_pass True True ([], ps, queued_ipdus ?w) = ((a', [], q'), Emitted c)" and pre: "prefix ps c"
    using abs_pass_open [OF ps(1) assms(5)] by blast
  then have abs: "abs_pass (TAS_IsGateOpen_FIFOx sec nsec 0) (length (outstanding v) < n) (aside_of ?t, ps, queued_ipdus ?w) = ((a', [], q'), Emitted c)"
    using assms(4) room ps(2) by simp
  obtain t' w' b where r: "ETH_PDU_Send_TAS_pass sec nsec (?t, ?w) = Inr (t', w')" "locals_ok [] t'" "aside_of t' = a'" "queued_ipdus w' = q'"
    "port_ok base cap first cfg src n h (v\<lparr>v_flying := v_flying v @ [b]\<rparr>) (frames @ [gw_frame src c]) (gw_eth w')"
    "canStats w' = (canStats ?w)\<lparr>containersSent := containersSent (canStats ?w) + 1\<rparr>"
    using pass_refines [OF ok abs] by (auto simp: pass_result_def counted_def sent_view_def sent_frames_def)
  have held: "ps @ concat (queued_ipdus ?w) = c @ aside_of t' @ concat (queued_ipdus w')"
    using abs_pass_held [OF abs] ps(2) r(3,4) by simp
  have flight: "in_flight (s\<lparr>sys_task := t', sys_gw := w'\<rparr>) = in_flight s @ [gw_frame src c]"
    using in_flight_frames [OF ok(3) cur] cur
      in_flight_frames [of base cap first cfg src n h "v\<lparr>v_flying := v_flying v @ [b]\<rparr>" _ "s\<lparr>sys_task := t', sys_gw := w'\<rparr>"] r(5)
    by simp
  have "\<not> containerPending t'" using r(2) by (auto simp: locals_ok_def split: if_splits)
  then show ?thesis
    by (intro exI conjI) (rule r(1), assumption, rule ps(3), rule pre, rule flight, rule held, rule r(6))
qed

text \<open>Accepting a message without data and packing it while the gate is closed, again and again.\<close>

definition filling :: "(nat \<Rightarrow> u32) \<Rightarrow> u32 \<Rightarrow> nat \<Rightarrow> Eth_CtrlCfgType \<Rightarrow> u8 list \<Rightarrow> nat \<Rightarrow> ipdu \<Rightarrow> nat \<Rightarrow> gw_sys \<Rightarrow> bool" where
  "filling base cap first cfg src n x k s \<longleftrightarrow>
    locals_ok (replicate k x) (sys_task s) \<and> aside_of (sys_task s) = [] \<and> queue_ok (sys_gw s) \<and> queued_ipdus (sys_gw s) = [] \<and>
    0 < queue_cap (xQueue_CAN (sys_gw s)) (gw_kernel (sys_gw s)) \<and> port_ok base cap first cfg src n 0 empty_view [] (gw_eth (sys_gw s))"

lemma fill_step:
  assumes f: "filling base cap first cfg src n x k s" and m: "msg_ok m" "ipdus_of m = [x]"
    and room: "length (encode (replicate (Suc k) x)) < CONTAINER_LIMIT"
  shows "\<exists>s1 c fs s2. gw_step s (Accepted m) s1 \<and> gw_step s1 (Passed c fs) s2 \<and> filling base cap first cfg src n x (Suc k) s2"
proof -
  let ?w = "sys_gw s"
  have f': "locals_ok (replicate k x) (sys_task s)" "aside_of (sys_task s) = []" "queue_ok ?w" "queued_ipdus ?w = []"
    "0 < queue_cap (xQueue_CAN ?w) (gw_kernel ?w)" "port_ok base cap first cfg src n 0 empty_view [] (gw_eth ?w)"
    using f by (simp_all add: filling_def)
  obtain w1 where w1: "callback_enqueue [0, 0] m ?w = Inr (w1, True)" "queue_ok w1" "queued_ipdus w1 = [[x]]" "gw_eth w1 = gw_eth ?w"
    "xQueue_CAN w1 = xQueue_CAN ?w" "queue_cap (xQueue_CAN ?w) (gw_kernel w1) = queue_cap (xQueue_CAN ?w) (gw_kernel ?w)"
    using enqueue_accepts [OF f'(3) m(1), of "[0, 0]"] f'(4,5) m(2) by auto
  have closed: "\<not> TAS_IsGateOpen_FIFOx 0 950000 0" by (simp add: gate_open_iff gate_window_def)
  have rep: "replicate k x @ [x] = replicate (Suc k) x" by (simp add: replicate_append_same)
  have "abs_pass (TAS_IsGateOpen_FIFOx 0 950000 0) (length (outstanding empty_view) < n) (aside_of (sys_task s), replicate k x, queued_ipdus w1) =
      (([], replicate (Suc k) x, []), Silent)"
    using closed room f'(2) w1(3) by (simp add: abs_pass_def abs_pack_def abs_send_def should_send_def rep del: replicate_Suc)
  from pass_refines [OF f'(1) w1(2) _ this, of base cap first cfg src 0 "[]"] f'(6) w1(4)
  obtain t2 w2 where r: "ETH_PDU_Send_TAS_pass 0 950000 (sys_task s, w1) = Inr (t2, w2)" "locals_ok (replicate (Suc k) x) t2" "aside_of t2 = []"
    "queue_ok w2" "queued_ipdus w2 = []" "port_ok base cap first cfg src n 0 empty_view [] (gw_eth w2)" "xQueue_CAN w2 = xQueue_CAN w1"
    "queue_cap (xQueue_CAN w1) (gw_kernel w2) = queue_cap (xQueue_CAN w1) (gw_kernel w1)"
    by (auto simp: pass_result_def sent_view_def sent_frames_def simp del: replicate_Suc)
  let ?s1 = "s\<lparr>sys_gw := w1\<rparr>" and ?s2 = "s\<lparr>sys_task := t2, sys_gw := w2\<rparr>"
  have "gw_step s (Accepted m) ?s1" by (rule rx_taken [OF m(1) _ w1(1)]) simp
  moreover obtain c fs where "gw_step ?s1 (Passed c fs) ?s2" using task_pass [of 0 950000 ?s1 t2 w2 ?s2] r(1) by auto
  moreover have "filling base cap first cfg src n x (Suc k) ?s2" using r f'(5) w1(5,6) by (simp add: filling_def)
  ultimately show ?thesis by blast
qed

lemma fill_run:
  assumes f: "filling base cap first cfg src n x 0 s0" and m: "msg_ok m" "ipdus_of m = [x]" and x: "snd x = []" "2 + 3 * k < CONTAINER_LIMIT"
  shows "\<exists>es s. gw_run s0 es s \<and> filling base cap first cfg src n x k s \<and> accepted_ipdus es = replicate k x"
  using x(2)
proof (induction k)
  case 0
  then show ?case using f gw_run.start by fastforce
next
  case (Suc k)
  then obtain es s where s: "gw_run s0 es s" "filling base cap first cfg src n x k s" "accepted_ipdus es = replicate k x" by auto
  have "length (encode (replicate (Suc k) x)) < CONTAINER_LIMIT" using Suc.prems x(1) by (simp add: length_encode sum_list_replicate)
  from fill_step [OF s(2) m this] obtain s1 c fs s2
    where "gw_step s (Accepted m) s1" "gw_step s1 (Passed c fs) s2" "filling base cap first cfg src n x (Suc k) s2" by blast
  moreover from this have "gw_run s0 ((es @ [Accepted m]) @ [Passed c fs]) s2" using s(1) by (blast intro: gw_run.continue)
  ultimately show ?case using s(3) m(2) by (intro exI [of _ "(es @ [Accepted m]) @ [Passed c fs]"] exI [of _ s2]) (simp add: replicate_append_same)
qed

text \<open>(C5) The count byte wraps. A message without data takes three bytes of the container, so that more than 255 fit
  below the limit: from the initial state there is a run in which the task packs 256 accepted I-PDUs into one container
  whose count byte is then 0, and a receiver that trusts the count reads an empty container.\<close>

theorem count_byte_wraps:
  assumes "gw_initial base cap first cfg src n s0" "0 < queue_cap (xQueue_CAN (sys_gw s0)) (gw_kernel (sys_gw s0))"
    and "msg_ok m" "ipdus_of m = [x]" "dataLen m = 0"
  shows "\<exists>es s. gw_run s0 es s \<and> accepted_ipdus es = replicate 256 x \<and>
    (let c = take (unat (containerLen (sys_task s))) (currentContainer (sys_task s))
     in c = encode (replicate 256 x) \<and> c ! 1 = 0 \<and> decode c = Some [])"
proof -
  have x: "snd x = []" using ipdu_length [of m x] assms(3-5) by simp
  have "filling base cap first cfg src n x 0 s0"
    using assms(1,2) by (auto simp: filling_def gw_initial_def Let_def locals_ok_def aside_of_def queued_ipdus_def)
  from fill_run [OF this assms(3,4) x, of 256]
  obtain es s where s: "gw_run s0 es s" "filling base cap first cfg src n x 256 s" "accepted_ipdus es = replicate 256 x" by auto
  have ne: "replicate 256 x \<noteq> []" by simp
  have "container_is (replicate 256 x) (sys_task s)" using s(2) ne unfolding filling_def locals_ok_def by metis
  moreover have enc: "encode (replicate 256 x) = 1 # 0 # concat (map encode_ipdu (replicate 256 x))"
    by (simp only: encode_def length_replicate) simp
  moreover have "decode (encode (replicate 256 x)) = Some []" unfolding enc by (simp add: decode_def)
  moreover have "encode (replicate 256 x) ! 1 = 0" unfolding enc by simp
  ultimately show ?thesis using s(1,3) unfolding container_is_def Let_def by metis
qed

section \<open>An example run\<close>

text \<open>The gateway with a queue for 64 messages and the example port with its ring of two buffers.\<close>

definition ex_msg :: Flexcan_Ip_MsgBuffType where
  "ex_msg = \<lparr>msg_cs = 0, msgId = 2, msg_data = replicate 64 7, dataLen = 8, id_hit = 0, time_stamp = 0\<rparr>"

definition ex_empty_msg :: Flexcan_Ip_MsgBuffType where
  "ex_empty_msg = ex_msg\<lparr>dataLen := 0\<rparr>"

definition ex_sys :: "qkernel \<Rightarrow> gw_sys" where
  "ex_sys k =
    \<lparr>sys_task = \<lparr>rxData = ex_msg, overflowPdu = ex_msg, hasOverflowPdu = False, currentContainer = replicate 1536 0,
       containerLen = 0, iPduCount = 0, currentTC = TC_BEST_EFFORT, containerPending = False, bufIdx = 0, ethPayload = 0, bufLen = 0\<rparr>,
     sys_gw = \<lparr>gw_kernel = k, gw_eth = ex_eth, canStats = \<lparr>rxCount = 0, txCount = 0, txErrCount = 0, queueFullErrors = 0,
       ethBufferErrors = 0, ethTxErrors = 0, containersSent = 0, containersDropped = 0, boundary4KBCrosses = 0,
       boundary4KBRetries = 0, boundary4KBFailures = 0\<rparr>, xQueue_CAN = 0x34100000\<rparr>, dma_cur = 0\<rparr>"

abbreviation "ex_initial \<equiv> gw_initial (tx_base ex_tx_config) (tx_cap ex_tx_config) 0 ex_eth_config (replicate 6 0) 2"

lemma ex_msgs: "msg_ok ex_msg" "ipdus_of ex_msg = [(1002, replicate 8 7)]" "msg_ok ex_empty_msg" "ipdus_of ex_empty_msg = [(1002, [])]"
  by (simp_all add: ex_msg_def ex_empty_msg_def msg_ok_def ipdus_of_def Let_def pdu_id_lookup)

lemma ex_port: "port_ok (tx_base ex_tx_config) (tx_cap ex_tx_config) 0 ex_eth_config (replicate 6 0) 2 0 empty_view [] ex_eth"
proof -
  have "buffers_disjoint (tx_base ex_tx_config) (tx_cap ex_tx_config) 2"
    using tx_base_disjoint [OF ex_tx_config_ok] by (simp add: ex_tx_config_def)
  moreover have "Gmac_Ip_GetMacAddr 0 (eth_gmac ex_eth) = Inr (replicate 6 0)"
    by (simp add: Gmac_Ip_GetMacAddr_def ex_eth_def gmac_reset_def Let_def eval_nat_numeral)
  ultimately show ?thesis
    using ex_eth_fifo_ok ex_eth_ready ex_eth_length
    by (simp add: port_ok_def port_config_ok_def ex_eth_config_def) (simp add: empty_view_def tx_cap_def ex_tx_config_def)
qed

lemma ex_initial_state:
  "\<exists>k. ex_initial (ex_sys k) \<and> queue_cap (xQueue_CAN (sys_gw (ex_sys k))) (gw_kernel (sys_gw (ex_sys k))) = 64"
proof -
  obtain k :: qkernel where k: "quiet 0x34100000 k" "queue_contents 0x34100000 k = []" "queue_cap 0x34100000 k = 64"
    "\<forall>bs. item_fits 0x34100000 k bs \<longleftrightarrow> length bs = 80"
    using created_quiet [of "0x34100000" 64 80 zero_kernel] by auto
  then have "ex_initial (ex_sys k)" using ex_port by (simp add: gw_initial_def Let_def ex_sys_def queue_ok_def)
  then show ?thesis using k(3) by (auto simp: ex_sys_def)
qed

text \<open>One message is accepted, packed and sent at the start of the cycle, and the DMA fetches the frame.\<close>

lemma ex_run:
  "\<exists>s0 s1 s c fs f. ex_initial s0 \<and> gw_run s0 [Accepted ex_msg, Passed c fs, Fetched f] s \<and>
     gw_run s0 [Accepted ex_msg] s1 \<and> queue_cap (xQueue_CAN (sys_gw s0)) (gw_kernel (sys_gw s0)) = 64"
proof -
  let ?base = "tx_base ex_tx_config" and ?cap = "tx_cap ex_tx_config" and ?src = "replicate 6 (0 :: u8)"
  obtain k where k: "ex_initial (ex_sys k)" "queue_cap (xQueue_CAN (sys_gw (ex_sys k))) (gw_kernel (sys_gw (ex_sys k))) = 64"
    using ex_initial_state by blast
  let ?s0 = "ex_sys k" and ?w = "sys_gw (ex_sys k)"
  have i: "queue_ok ?w" "queued_ipdus ?w = []" "locals_ok [] (sys_task ?s0)" "aside_of (sys_task ?s0) = []"
    "port_ok ?base ?cap 0 ex_eth_config ?src 2 0 empty_view [] (gw_eth ?w)" "dma_cur ?s0 = 0"
    using k(1) by (simp_all add: gw_initial_def Let_def queued_ipdus_def locals_ok_def aside_of_def)
  obtain w1 where w1: "callback_enqueue [0, 0] ex_msg ?w = Inr (w1, True)" "queue_ok w1" "queued_ipdus w1 = [ipdus_of ex_msg]" "gw_eth w1 = gw_eth ?w"
    using enqueue_accepts [OF i(1) ex_msgs(1), of "[0, 0]"] i(2) k(2) by auto
  have "length (outstanding empty_view) < (2 :: nat)" by (simp add: outstanding_def empty_view_def)
  then have "abs_pass (TAS_IsGateOpen_FIFOx 0 0 0) (length (outstanding empty_view) < 2) (aside_of (sys_task ?s0), [], queued_ipdus w1) =
      (([], [], []), Emitted (ipdus_of ex_msg))"
    using i(4) w1(3) ex_msgs(2)
    by (simp add: abs_pass_def abs_pack_def abs_send_def should_send_def gate_open_iff gate_window_def length_encode)
  from pass_refines [OF i(3) w1(2) _ this, of ?base ?cap 0 ex_eth_config ?src 0 "[]"] i(5) w1(4)
  obtain t2 w2 b where r: "ETH_PDU_Send_TAS_pass 0 0 (sys_task ?s0, w1) = Inr (t2, w2)"
    "port_ok ?base ?cap 0 ex_eth_config ?src 2 0 (empty_view\<lparr>v_flying := [b]\<rparr>) [gw_frame ?src (ipdus_of ex_msg)] (gw_eth w2)"
    by (auto simp: pass_result_def sent_view_def sent_frames_def empty_view_def)
  let ?s1 = "?s0\<lparr>sys_gw := w1\<rparr>" and ?s2 = "?s0\<lparr>sys_task := t2, sys_gw := w2\<rparr>"
  have st1: "gw_step ?s0 (Accepted ex_msg) ?s1" by (rule rx_taken [OF ex_msgs(1) _ w1(1)]) simp
  obtain c fs where st2: "gw_step ?s1 (Passed c fs) ?s2" using task_pass [of 0 0 ?s1 t2 w2 ?s2] r(1) by auto
  have "fifo_ok ?base ?cap 0 0 (empty_view\<lparr>v_flying := [b]\<rparr>) 0 (gw_eth w2)" "length (tx_ring0 w2) = 2"
    using r(2) by (simp_all add: port_ok_def)
  from dma_cur_owned(1) [OF this(1)] this(2) have "dma_owned (tx_ring0 (sys_gw ?s2) ! dma_cur ?s2)"
    using i(6) by (simp add: empty_view_def ring_pos_def)
  from dma_fetch [OF refl this refl] obtain f s3 where st3: "gw_step ?s2 (Fetched f) s3" by blast
  have run1: "gw_run ?s0 ([] @ [Accepted ex_msg]) ?s1" by (rule gw_run.continue [OF gw_run.start st1])
  have "gw_run ?s0 ((([] @ [Accepted ex_msg]) @ [Passed c fs]) @ [Fetched f]) s3"
    by (rule gw_run.continue [OF gw_run.continue [OF run1 st2] st3])
  with run1 k show ?thesis by (metis append.left_neutral append_Cons)
qed

theorem gateway_end_to_end_witness:
  "\<exists>s0 s c fs f css ps. ex_initial s0 \<and> gw_run s0 [Accepted ex_msg, Passed c fs, Fetched f] s \<and>
     formed [Passed c fs] = map encode css \<and> f # in_flight s = fs \<and>
     [(1002, replicate 8 7)] = concat css @ ps @ aside_of (sys_task s) @ concat (queued_ipdus (sys_gw s))"
proof -
  obtain s0 s c fs f where r: "ex_initial s0" "gw_run s0 [Accepted ex_msg, Passed c fs, Fetched f] s" using ex_run by blast
  note g = gateway_end_to_end [OF r]
  obtain css ps where "formed [Accepted ex_msg, Passed c fs, Fetched f] = map encode css"
    "accepted_ipdus [Accepted ex_msg, Passed c fs, Fetched f] = concat css @ ps @ aside_of (sys_task s) @ concat (queued_ipdus (sys_gw s))"
    using g by blast
  moreover have "wire [Accepted ex_msg, Passed c fs, Fetched f] @ in_flight s = handed [Accepted ex_msg, Passed c fs, Fetched f]"
    using g by blast
  moreover have "formed [Accepted ex_msg, Passed c fs, Fetched f] = formed [Passed c fs]" by (cases c) simp_all
  ultimately show ?thesis using r ex_msgs(2)
    by (intro exI [of _ s0] exI [of _ s] exI [of _ c] exI [of _ fs] exI [of _ f] exI [of _ css] exI [of _ ps]) simp
qed

theorem gateway_decodes_witness:
  "\<exists>s0 s c fs f ps. ex_initial s0 \<and> gw_run s0 [Accepted ex_msg, Passed c fs, Fetched f] s \<and>
     decode (drop 14 f @ replicate 30 0) = Some ps \<and> subseq ps [(1002, replicate 8 7)]"
proof -
  obtain s0 s c fs f where r: "ex_initial s0" "gw_run s0 [Accepted ex_msg, Passed c fs, Fetched f] s" using ex_run by blast
  let ?es = "[Accepted ex_msg, Passed c fs, Fetched f]"
  have len: "\<forall>m. Accepted m \<in> set ?es \<longrightarrow> 3 \<le> unat (dataLen m)" by (simp add: ex_msg_def)
  obtain css where css: "map (\<lambda>f. decode (drop 14 f @ replicate 30 0)) (wire ?es) = map Some css"
    "subseq (concat css) (accepted_ipdus ?es)"
    using gateway_decodes [OF r len, of "replicate 30 0"] by blast
  obtain ps where "css = [ps]" "decode (drop 14 f @ replicate 30 0) = Some ps" using css(1) by auto
  with r css(2) show ?thesis
    by (intro exI [of _ s0] exI [of _ s] exI [of _ c] exI [of _ fs] exI [of _ f] exI [of _ ps]) (simp add: ex_msgs(2))
qed

theorem gateway_never_faults_witness:
  "\<exists>s0 s c fs f r. ex_initial s0 \<and> gw_run s0 [Accepted ex_msg, Passed c fs, Fetched f] s \<and>
     ETH_PDU_Send_TAS_pass 7 950000 (sys_task s, sys_gw s) = Inr r"
proof -
  obtain s0 s c fs f where r: "ex_initial s0" "gw_run s0 [Accepted ex_msg, Passed c fs, Fetched f] s" using ex_run by blast
  have "\<exists>r. ETH_PDU_Send_TAS_pass 7 950000 (sys_task s, sys_gw s) = Inr r"
    using gateway_never_faults [OF r ex_msgs(1), of "[0, 0]" 7 950000] by simp
  with r show ?thesis by blast
qed

theorem count_byte_wraps_witness:
  "\<exists>s0 es s. ex_initial s0 \<and> gw_run s0 es s \<and> accepted_ipdus es = replicate 256 (1002, []) \<and>
     decode (take (unat (containerLen (sys_task s))) (currentContainer (sys_task s))) = Some []"
proof -
  obtain k where k: "ex_initial (ex_sys k)" "queue_cap (xQueue_CAN (sys_gw (ex_sys k))) (gw_kernel (sys_gw (ex_sys k))) = 64"
    using ex_initial_state by blast
  have "dataLen ex_empty_msg = 0" by (simp add: ex_empty_msg_def)
  from count_byte_wraps [OF k(1) _ ex_msgs(3,4) this] k show ?thesis unfolding Let_def by (metis zero_less_numeral)
qed

text \<open>For the progress property: one message packed while the gate was closed.\<close>

lemma ex_packed:
  "\<exists>s0 es s. ex_initial s0 \<and> gw_run s0 es s \<and> containerPending (sys_task s) \<and> queued_ipdus (sys_gw s) = [] \<and>
     Info1 (tx_ring0 (sys_gw s) ! TxCurrentDesc (Ch (eth_gmac (gw_eth (sys_gw s))) ! 0)) AND GMAC_INFO1_LOCKED_MASK = 0"
proof -
  let ?base = "tx_base ex_tx_config" and ?cap = "tx_cap ex_tx_config" and ?x = "(1002, []) :: ipdu"
  obtain k where k: "ex_initial (ex_sys k)" "queue_cap (xQueue_CAN (sys_gw (ex_sys k))) (gw_kernel (sys_gw (ex_sys k))) = 64"
    using ex_initial_state by blast
  have "filling ?base ?cap 0 ex_eth_config (replicate 6 0) 2 ?x 0 (ex_sys k)"
    using k by (auto simp: filling_def gw_initial_def Let_def locals_ok_def aside_of_def queued_ipdus_def)
  from fill_run [OF this ex_msgs(3,4), of 1]
  obtain es s where s: "gw_run (ex_sys k) es s" "filling ?base ?cap 0 ex_eth_config (replicate 6 0) 2 ?x 1 s" by auto
  have p: "containerPending (sys_task s)" "queued_ipdus (sys_gw s) = []"
    "port_ok ?base ?cap 0 ex_eth_config (replicate 6 0) 2 0 empty_view [] (gw_eth (sys_gw s))"
    using s(2) by (auto simp: filling_def locals_ok_def split: if_splits)
  then have w: "window_ok ?base ?cap 0 empty_view (Ch (eth_gmac (gw_eth (sys_gw s))) ! 0)"
    using fifo_facts(4) [of ?base ?cap 0 0 empty_view 0 "gw_eth (sys_gw s)"] by (simp add: port_ok_def)
  note facts = window_facts [OF w]
  have "Info1 (tx_ring0 (sys_gw s) ! TxCurrentDesc (Ch (eth_gmac (gw_eth (sys_gw s))) ! 0)) AND GMAC_INFO1_LOCKED_MASK = 0"
    using window_slot [OF w, of 0] facts(3,6) by (simp add: slot_ok_def empty_view_def outstanding_def)
  with k(1) s(1) p show ?thesis by blast
qed

theorem pass_hands_over_witness:
  "\<exists>s0 es s t' w' c. ex_initial s0 \<and> gw_run s0 es s \<and> ETH_PDU_Send_TAS_pass 3 20000000 (sys_task s, sys_gw s) = Inr (t', w') \<and>
     in_flight (s\<lparr>sys_task := t', sys_gw := w'\<rparr>) = in_flight s @ [gw_frame (replicate 6 0) c]"
proof -
  obtain s0 es s where s: "ex_initial s0" "gw_run s0 es s" "containerPending (sys_task s)" "queued_ipdus (sys_gw s) = []"
     "Info1 (tx_ring0 (sys_gw s) ! TxCurrentDesc (Ch (eth_gmac (gw_eth (sys_gw s))) ! 0)) AND GMAC_INFO1_LOCKED_MASK = 0"
    using ex_packed by blast
  have "TAS_IsGateOpen_FIFOx 3 20000000 0" by (simp add: gate_open_iff gate_window_def)
  from pass_hands_over [OF s(1-3) this _ s(5)] s(1,2,4) show ?thesis by blast
qed

end
