(* ===== verification/Flexcan_Hw.thy ===== *)
theory Flexcan_Hw
  imports Gw_Msg
begin

text \<open>
  The register level of the FlexCAN driver (\<open>FlexCAN_Ip_HwAccess.c\<close> and \<open>.h\<close>) as this device and
  configuration compile it: CAN FD, enhanced receive FIFO and expandable memory on, DMA, high-resolution time stamps
  and the errata work-arounds off. First the definitions, then the lemmas on the data length codes and on the layout of
  the message buffers: both layout loops of the source walk the RAM blocks like one reference function, buffers do not
  overlap and stay inside their RAM.
\<close>

section \<open>Data length codes\<close>

definition payload_code :: "u8 list" where
  "payload_code = [0, 1, 2, 3, 4, 5, 6, 7, 8] @ replicate 4 9 @ replicate 4 10 @ replicate 4 11 @ replicate 4 12 @
     replicate 8 13 @ replicate 16 14 @ replicate 16 15"

definition FlexCAN_ComputeDLCValue :: "u8 \<Rightarrow> u8" where
  "FlexCAN_ComputeDLCValue payloadSize = (if payloadSize \<le> 64 then payload_code ! unat payloadSize else 0xFF)"

definition FlexCAN_ComputePayloadSize :: "u8 \<Rightarrow> u8" where
  "FlexCAN_ComputePayloadSize dlcValue =
    (if dlcValue \<le> 8 then dlcValue
     else if dlcValue = 9 then 12 else if dlcValue = 10 then 16 else if dlcValue = 11 then 20
     else if dlcValue = 12 then 24 else if dlcValue = 13 then 32 else if dlcValue = 14 then 48
     else if dlcValue = 15 then 64 else 8)"

section \<open>Registers and message buffer RAM\<close>

text \<open>
  One FlexCAN instance as the driver sees it. The RAM is addressed by words, counted from the base address of the
  instance, every one of which has the expandable memory on this device (\<open>FlexCAN_IsExpandableMemoryAvailable\<close>); flags and masks are the four registers each of \<open>IFLAG\<close> and \<open>IMASK\<close>.
\<close>

record flexcan_hw =
  can_ram :: "nat \<Rightarrow> u32"
  IFLAG :: "u32 list"
  IMASK :: "u32 list"
  FDCTRL :: u32
  CAN_CTRL1 :: u32
  CAN_CTRL2 :: u32
  ERFCR :: u32
  ERFSR :: u32

abbreviation "FLEXCAN_IP_FEATURE_MAX_MB_NUM \<equiv> (128 :: nat)"
abbreviation "FLEXCAN_IP_FEATURE_MBDSR_COUNT \<equiv> (4 :: nat)"
abbreviation "FLEXCAN_RAM_WORD \<equiv> (0x80 div 4 :: nat)"
abbreviation "FLEXCAN_EXP_RAM_WORD \<equiv> (0x1000 div 4 :: nat)"
abbreviation "FLEXCAN_IP_ID_STD_MASK \<equiv> (0x1FFC0000 :: u32)"
abbreviation "FLEXCAN_IP_ID_EXT_MASK \<equiv> (0x3FFFF :: u32)"
abbreviation "FLEXCAN_IP_CS_TIME_STAMP_MASK \<equiv> (0xFFFF :: u32)"
abbreviation "FLEXCAN_IP_CS_DLC_MASK \<equiv> (0xF0000 :: u32)"
abbreviation "FLEXCAN_IP_CS_RTR_MASK \<equiv> (0x100000 :: u32)"
abbreviation "FLEXCAN_IP_CS_IDE_MASK \<equiv> (0x200000 :: u32)"
abbreviation "FLEXCAN_IP_CS_SRR_MASK \<equiv> (0x400000 :: u32)"
abbreviation "FLEXCAN_IP_CS_CODE_MASK \<equiv> (0xF000000 :: u32)"
abbreviation "FLEXCAN_IP_MB_EDL_MASK \<equiv> (0x80000000 :: u32)"
abbreviation "FLEXCAN_IP_MB_BRS_MASK \<equiv> (0x40000000 :: u32)"
abbreviation "FLEXCAN_RX_INACTIVE \<equiv> (0 :: u32)"
abbreviation "FLEXCAN_RX_EMPTY \<equiv> (4 :: u32)"
abbreviation "FLEXCAN_RX_NOT_USED \<equiv> (0xF :: u32)"
abbreviation "FLEXCAN_TX_INACTIVE \<equiv> (8 :: u32)"
abbreviation "FLEXCAN_TX_DATA \<equiv> (0xC :: u32)"
abbreviation "FLEXCAN_TX_REMOTE \<equiv> (0x1C :: u32)"
abbreviation "FLEXCAN_TX_NOT_USED \<equiv> (0xF :: u32)"

datatype Flexcan_Ip_MsgBuffIdType = FLEXCAN_MSG_ID_STD | FLEXCAN_MSG_ID_EXT

record Flexcan_Ip_MsbuffCodeStatusType =
  cs_code :: u32
  cs_msgIdType :: Flexcan_Ip_MsgBuffIdType
  cs_dataLen :: u32
  cs_fd_enable :: bool
  cs_fd_padding :: u8
  cs_enable_brs :: bool

text \<open>The payload size of a RAM block: the fields \<open>MBDSR0\<close> to \<open>MBDSR3\<close> of \<open>FDCTRL\<close>.\<close>

definition FlexCAN_GetPayloadSize :: "flexcan_hw \<Rightarrow> nat \<Rightarrow> u8" where
  "FlexCAN_GetPayloadSize hw mbdsrIdx =
    (let f = FDCTRL hw;
         code = (if mbdsrIdx = 1 then drop_bit 19 (f AND 0x180000)
                 else if mbdsrIdx = 2 then drop_bit 22 (f AND 0xC00000)
                 else if mbdsrIdx = 3 then drop_bit 25 (f AND 0x6000000)
                 else drop_bit 16 (f AND 0x30000))
     in ucast (push_bit (unat code) (8 :: u32)))"

text \<open>
  The loop of \<open>FlexCAN_GetMsgBuffRegion\<close> over the RAM blocks, from block \<open>i\<close> on: \<open>n\<close> blocks are left. The result is the
  block where it stops with the remaining index, the number of buffers per block and the buffer size of the last
  block looked at.
\<close>

fun region_loop :: "flexcan_hw \<Rightarrow> nat \<Rightarrow> nat \<Rightarrow> u16 \<Rightarrow> u8 \<Rightarrow> u8 \<Rightarrow> u8 \<Rightarrow> nat \<times> u16 \<times> u8 \<times> u8 \<times> u8" where
  "region_loop hw 0 i ramBlockOffset idx maxMbNum mb_size = (i, ramBlockOffset, idx, maxMbNum, mb_size)"
| "region_loop hw (Suc n) i ramBlockOffset idx maxMbNum mb_size =
    (let mb_size' = FlexCAN_GetPayloadSize hw i + 8;
         maxMbNum' = ucast ((512 :: u32) div ucast mb_size')
     in if maxMbNum' > idx then (i, ramBlockOffset, idx, maxMbNum', mb_size')
        else region_loop hw n (Suc i) (ramBlockOffset + 128) (idx - maxMbNum') maxMbNum' mb_size')"

definition FlexCAN_GetMsgBuffRegion :: "flexcan_hw \<Rightarrow> u32 \<Rightarrow> nat" where
  "FlexCAN_GetMsgBuffRegion hw msgBuffIdx =
    (let (i, ramBlockOffset, idx, maxMbNum, mb_size) = region_loop hw FLEXCAN_IP_FEATURE_MBDSR_COUNT 0 0 (ucast msgBuffIdx) 0 0
     in if i = FLEXCAN_IP_FEATURE_MBDSR_COUNT
        then FLEXCAN_EXP_RAM_WORD + ((unat idx div 7) * 128 + (unat idx mod 7) * (72 div 4))
        else FLEXCAN_RAM_WORD + (unat ramBlockOffset + (unat idx mod unat maxMbNum) * (unat mb_size div 4)))"

text \<open>The similar loop that finds the payload size of a message buffer; the block counter is a byte.\<close>

fun mb_payload_loop :: "flexcan_hw \<Rightarrow> nat \<Rightarrow> nat \<Rightarrow> u8 \<Rightarrow> u8 \<Rightarrow> u32 \<Rightarrow> u8" where
  "mb_payload_loop hw 0 i payload maxMbBlockNum maxMsgBuffNum = 64"
| "mb_payload_loop hw (Suc n) i payload maxMbBlockNum maxMsgBuffNum =
    (let payload' = FlexCAN_GetPayloadSize hw i;
         mb_size = payload' + 8;
         m = maxMbBlockNum + ucast ((512 :: u32) div ucast mb_size)
     in if (ucast m :: u32) > maxMsgBuffNum then payload' else mb_payload_loop hw n (Suc i) payload' m maxMsgBuffNum)"

definition FlexCAN_GetMbPayloadSize :: "flexcan_hw \<Rightarrow> u32 \<Rightarrow> u8" where
  "FlexCAN_GetMbPayloadSize hw maxMsgBuffNum = mb_payload_loop hw FLEXCAN_IP_FEATURE_MBDSR_COUNT 0 8 0 maxMsgBuffNum"

section \<open>Flags and interrupt masks\<close>

definition reg_of :: "u32 \<Rightarrow> nat" where
  "reg_of msgBuffIdx = (if msgBuffIdx < 32 then 0 else if msgBuffIdx < 64 then 1 else if msgBuffIdx < 96 then 2 else 3)"

definition mb_bit :: "u32 \<Rightarrow> u32" where
  "mb_bit msgBuffIdx = push_bit (unat (msgBuffIdx mod 32)) 1"

text \<open>The flag registers are cleared by writing one: the bits written as one become zero.\<close>

definition FlexCAN_ClearMsgBuffIntStatusFlag :: "u32 \<Rightarrow> flexcan_hw \<Rightarrow> flexcan_hw" where
  "FlexCAN_ClearMsgBuffIntStatusFlag msgBuffIdx hw =
    hw\<lparr>IFLAG := (IFLAG hw)[reg_of msgBuffIdx := IFLAG hw ! reg_of msgBuffIdx AND NOT (mb_bit msgBuffIdx)]\<rparr>"

definition FlexCAN_GetBuffStatusFlag :: "flexcan_hw \<Rightarrow> u32 \<Rightarrow> u8" where
  "FlexCAN_GetBuffStatusFlag hw msgBuffIdx =
    ucast (drop_bit (unat (msgBuffIdx mod 32)) (IFLAG hw ! reg_of msgBuffIdx AND mb_bit msgBuffIdx))"

text \<open>\<open>FlexCAN_Ip_au32ImaskBuff[instance]\<close> is the shadow \<open>buff\<close>; the register follows it at once only when interrupts are active.\<close>

definition FlexCAN_SetMsgBuffIntCmd :: "u32 \<Rightarrow> bool \<Rightarrow> bool \<Rightarrow> u32 list \<times> flexcan_hw \<Rightarrow> u32 list \<times> flexcan_hw" where
  "FlexCAN_SetMsgBuffIntCmd msgBuffIdx enable bIsIntActive s =
    (case s of (buff, hw) \<Rightarrow>
     let r = reg_of msgBuffIdx; temp = mb_bit msgBuffIdx
     in if enable
        then let buff' = buff[r := buff ! r OR temp]
             in (buff', if bIsIntActive then hw\<lparr>IMASK := (IMASK hw)[r := buff' ! r]\<rparr> else hw)
        else let buff' = buff[r := buff ! r AND NOT temp] in (buff', hw\<lparr>IMASK := (IMASK hw)[r := buff' ! r]\<rparr>))"

definition FlexCAN_IsMbOutOfRange :: "flexcan_hw \<Rightarrow> u8 \<Rightarrow> bool \<Rightarrow> u32 \<Rightarrow> bool" where
  "FlexCAN_IsMbOutOfRange hw u8MbIndex bIsLegacyFifoEn u32MaxMbNum =
    (if u8MbIndex \<ge> ucast u32MaxMbNum then True
     else if bIsLegacyFifoEn
     then let elements = drop_bit 24 (CAN_CTRL2 hw AND 0xF000000)
          in (ucast u8MbIndex :: u32) \<le> 5 + ((elements + 1) * 8) div 4
     else False)"

text \<open>
  The enhanced receive FIFO: the four instances have one; \<open>erfen\<close> are mask and shift of the enable field of \<open>ERFCR\<close>,
  which the register header of the device defines.
\<close>

definition FlexCAN_IsEnhancedRxFifoAvailable :: "u8 \<Rightarrow> bool" where
  "FlexCAN_IsEnhancedRxFifoAvailable i \<longleftrightarrow> i \<in> set [0, 1, 2, 3]"

definition FlexCAN_IsEnhancedRxFifoEnabled :: "u32 \<times> nat \<Rightarrow> flexcan_hw \<Rightarrow> bool" where
  "FlexCAN_IsEnhancedRxFifoEnabled erfen hw \<longleftrightarrow> drop_bit (snd erfen) (ERFCR hw AND fst erfen) \<noteq> 0"

definition FlexCAN_GetEnhancedRxFIFOStatusFlag :: "flexcan_hw \<Rightarrow> u32 \<Rightarrow> u8" where
  "FlexCAN_GetEnhancedRxFIFOStatusFlag hw intFlag =
    (let k = unat (ucast intFlag AND 0x1F :: u8) in ucast (drop_bit k (ERFSR hw AND push_bit k 1)))"

definition FlexCAN_IsListenOnlyModeEnabled :: "flexcan_hw \<Rightarrow> bool" where
  "FlexCAN_IsListenOnlyModeEnabled hw \<longleftrightarrow> CAN_CTRL1 hw AND 0x8 \<noteq> 0"

section \<open>Message buffers\<close>

definition ram_write :: "nat \<Rightarrow> u32 \<Rightarrow> flexcan_hw \<Rightarrow> flexcan_hw" where
  "ram_write a x hw = hw\<lparr>can_ram := (can_ram hw)(a := x)\<rparr>"

definition FlexCAN_SetRxMsgBuff :: "u32 \<Rightarrow> Flexcan_Ip_MsbuffCodeStatusType \<Rightarrow> u32 \<Rightarrow> flexcan_hw \<Rightarrow> flexcan_hw" where
  "FlexCAN_SetRxMsgBuff msgBuffIdx cs msg_id hw =
    (let a = FlexCAN_GetMsgBuffRegion hw msgBuffIdx;
         (mb, mid) = (case cs_msgIdType cs of
             FLEXCAN_MSG_ID_EXT \<Rightarrow> ((0 OR FLEXCAN_IP_CS_IDE_MASK) AND NOT FLEXCAN_IP_CS_SRR_MASK,
               msg_id AND (FLEXCAN_IP_ID_STD_MASK OR FLEXCAN_IP_ID_EXT_MASK))
           | FLEXCAN_MSG_ID_STD \<Rightarrow> (0, push_bit 18 msg_id AND FLEXCAN_IP_ID_STD_MASK));
         mb' = (if cs_code cs \<noteq> FLEXCAN_RX_NOT_USED
                then (mb AND NOT FLEXCAN_IP_CS_CODE_MASK) OR (push_bit 24 (cs_code cs) AND FLEXCAN_IP_CS_CODE_MASK) else mb)
     in ram_write (a + 1) mid (ram_write a mb' hw))"

definition FlexCAN_GetMsgBuffTimestamp :: "flexcan_hw \<Rightarrow> u32 \<Rightarrow> u32" where
  "FlexCAN_GetMsgBuffTimestamp hw msgBuffIdx = can_ram hw (FlexCAN_GetMsgBuffRegion hw msgBuffIdx) AND FLEXCAN_IP_CS_TIME_STAMP_MASK"

text \<open>\<open>FLEXCAN_IP_REV_BYTES_32\<close>, and the byte index inside a word-swapped array.\<close>

definition rev_bytes_32 :: "u32 \<Rightarrow> u32" where
  "rev_bytes_32 x = of_le32 (rev (le32 x))"

definition swap_index :: "nat \<Rightarrow> nat" where
  "swap_index i = (i - i mod 4) + (3 - i mod 4)"

definition ram_byte :: "flexcan_hw \<Rightarrow> nat \<Rightarrow> nat \<Rightarrow> u8" where
  "ram_byte hw a i = le32 (can_ram hw (a + i div 4)) ! (i mod 4)"

definition ram_write_byte :: "nat \<Rightarrow> nat \<Rightarrow> u8 \<Rightarrow> flexcan_hw \<Rightarrow> flexcan_hw" where
  "ram_write_byte a i b hw = ram_write (a + i div 4) (of_le32 ((le32 (can_ram hw (a + i div 4)))[i mod 4 := b])) hw"

text \<open>Reading a message buffer. The bytes of the message beyond the payload keep their old values.\<close>

definition get_data :: "flexcan_hw \<Rightarrow> nat \<Rightarrow> nat \<Rightarrow> u8 list \<Rightarrow> u8 list" where
  "get_data hw a n d =
    fold (\<lambda>i d. d[i := ram_byte hw a (swap_index i)]) [n - n mod 4..<n]
      (fold (\<lambda>k d. blit d (4 * k) (le32 (rev_bytes_32 (can_ram hw (a + k))))) [0..<n div 4] d)"

definition FlexCAN_GetMsgBuff :: "flexcan_hw \<Rightarrow> u32 \<Rightarrow> Flexcan_Ip_MsgBuffType \<Rightarrow> Flexcan_Ip_MsgBuffType" where
  "FlexCAN_GetMsgBuff hw msgBuffIdx m =
    (let a = FlexCAN_GetMsgBuffRegion hw msgBuffIdx;
         mb = can_ram hw a;
         p = FlexCAN_ComputePayloadSize (ucast (drop_bit 16 (mb AND FLEXCAN_IP_CS_DLC_MASK)));
         payload = (if p > FlexCAN_GetMbPayloadSize hw msgBuffIdx then FlexCAN_GetMbPayloadSize hw msgBuffIdx else p)
     in m\<lparr>dataLen := payload, msg_cs := mb,
          msgId := (if mb AND FLEXCAN_IP_CS_IDE_MASK \<noteq> 0 then can_ram hw (a + 1) else drop_bit 18 (can_ram hw (a + 1))),
          time_stamp := mb AND FLEXCAN_IP_CS_TIME_STAMP_MASK,
          msg_data := get_data hw (a + 2) (unat payload) (msg_data m)\<rparr>)"

text \<open>Filling a transmit message buffer at word \<open>a\<close>. \<open>None\<close> is a null data pointer.\<close>

definition put_data :: "nat \<Rightarrow> u8 list \<Rightarrow> nat \<Rightarrow> flexcan_hw \<Rightarrow> flexcan_hw" where
  "put_data a d n hw =
    fold (\<lambda>i hw. ram_write_byte a (swap_index i) (d ! i) hw) [n - n mod 4..<n]
      (fold (\<lambda>k hw. ram_write (a + k) (rev_bytes_32 (of_le32 (take 4 (drop (4 * k) d)))) hw) [0..<n div 4] hw)"

definition pad_data :: "nat \<Rightarrow> u8 \<Rightarrow> nat \<Rightarrow> nat \<Rightarrow> flexcan_hw \<Rightarrow> flexcan_hw" where
  "pad_data a b n payload hw = fold (\<lambda>i hw. ram_write_byte a (swap_index i) b hw) [n..<payload] hw"

definition tx_config_word :: "Flexcan_Ip_MsbuffCodeStatusType \<Rightarrow> u8 \<Rightarrow> bool \<Rightarrow> u32" where
  "tx_config_word cs dlc isRemote =
    (let c0 = (case cs_msgIdType cs of FLEXCAN_MSG_ID_EXT \<Rightarrow> FLEXCAN_IP_CS_IDE_MASK OR FLEXCAN_IP_CS_SRR_MASK | FLEXCAN_MSG_ID_STD \<Rightarrow> 0);
         c1 = (c0 AND NOT FLEXCAN_IP_CS_DLC_MASK) OR (push_bit 16 (ucast dlc) AND FLEXCAN_IP_CS_DLC_MASK);
         c2 = (if cs_code cs = FLEXCAN_TX_REMOTE \<or> isRemote then c1 OR FLEXCAN_IP_CS_RTR_MASK else c1);
         c3 = c2 AND NOT FLEXCAN_IP_CS_CODE_MASK;
         code = push_bit 24 (cs_code cs) AND FLEXCAN_IP_CS_CODE_MASK;
         c4 = (if cs_fd_enable cs then (c3 OR (code OR FLEXCAN_IP_MB_EDL_MASK)) AND NOT FLEXCAN_IP_CS_RTR_MASK else c3 OR code)
     in if cs_enable_brs cs then c4 OR FLEXCAN_IP_MB_BRS_MASK else c4)"

definition FlexCAN_SetTxMsgBuff ::
  "nat \<Rightarrow> Flexcan_Ip_MsbuffCodeStatusType \<Rightarrow> u32 \<Rightarrow> u8 list option \<Rightarrow> bool \<Rightarrow> flexcan_hw \<Rightarrow> flexcan_hw res" where
  "FlexCAN_SetTxMsgBuff a cs msg_id data isRemote hw =
    (let hw1 = ram_write (a + 1) 0 (ram_write a (push_bit 24 (FLEXCAN_TX_INACTIVE AND 0x1F) AND FLEXCAN_IP_CS_CODE_MASK) hw);
         dlc = FlexCAN_ComputeDLCValue (ucast (cs_dataLen cs));
         n = unat (cs_dataLen cs)
     in rbind (case data of
                 None \<Rightarrow> Inr hw1
               | Some d \<Rightarrow> if n \<le> length d
                   then Inr (pad_data (a + 2) (cs_fd_padding cs) n (unat (FlexCAN_ComputePayloadSize dlc)) (put_data (a + 2) d n hw1))
                   else Inl OutOfBounds) (\<lambda>hw2.
        let mid = (case cs_msgIdType cs of
                     FLEXCAN_MSG_ID_EXT \<Rightarrow> msg_id AND (FLEXCAN_IP_ID_STD_MASK OR FLEXCAN_IP_ID_EXT_MASK)
                   | FLEXCAN_MSG_ID_STD \<Rightarrow> push_bit 18 msg_id AND FLEXCAN_IP_ID_STD_MASK);
            hw3 = ram_write (a + 1) mid hw2
        in if cs_code cs \<noteq> FLEXCAN_TX_NOT_USED then Inr (ram_write a (tx_config_word cs dlc isRemote) hw3) else Inr hw3))"

section \<open>Lengths round up to the next CAN FD size\<close>

definition fd_sizes :: "nat list" where
  "fd_sizes = [0, 1, 2, 3, 4, 5, 6, 7, 8, 12, 16, 20, 24, 32, 48, 64]"

lemma payload_table: "\<forall>k < 16. unat (FlexCAN_ComputePayloadSize (of_nat k)) = fd_sizes ! k"
  by code_simp

lemma payload_of_dlc: "unat dlc < 16 \<Longrightarrow> unat (FlexCAN_ComputePayloadSize dlc) = fd_sizes ! unat dlc"
  using payload_table [rule_format, of "unat dlc"] by simp

lemma dlc_table:
  "\<forall>k < 65. payload_code ! k < 16 \<and> k \<le> fd_sizes ! unat (payload_code ! k) \<and>
     (\<forall>s \<in> set fd_sizes. k \<le> s \<longrightarrow> fd_sizes ! unat (payload_code ! k) \<le> s)"
  by code_simp

lemma dlc_least:
  assumes "n \<le> 64"
  shows "unat (FlexCAN_ComputeDLCValue n) < 16"
    and "unat (FlexCAN_ComputePayloadSize (FlexCAN_ComputeDLCValue n)) \<in> set fd_sizes"
    and "unat n \<le> unat (FlexCAN_ComputePayloadSize (FlexCAN_ComputeDLCValue n))"
    and "s \<in> set fd_sizes \<Longrightarrow> unat n \<le> s \<Longrightarrow> unat (FlexCAN_ComputePayloadSize (FlexCAN_ComputeDLCValue n)) \<le> s"
proof -
  have n: "unat n < 65" using assms by (simp add: word_le_nat_alt)
  note t = dlc_table [rule_format, OF n]
  have d: "FlexCAN_ComputeDLCValue n = payload_code ! unat n" using assms by (simp add: FlexCAN_ComputeDLCValue_def)
  show dl: "unat (FlexCAN_ComputeDLCValue n) < 16" using t by (simp add: d word_less_nat_alt)
  note p = payload_of_dlc [OF dl]
  show "unat (FlexCAN_ComputePayloadSize (FlexCAN_ComputeDLCValue n)) \<in> set fd_sizes"
    unfolding p using dl by (intro nth_mem) (simp add: fd_sizes_def)
  show "unat n \<le> unat (FlexCAN_ComputePayloadSize (FlexCAN_ComputeDLCValue n))" unfolding p using t by (simp add: d)
  show "s \<in> set fd_sizes \<Longrightarrow> unat n \<le> s \<Longrightarrow> unat (FlexCAN_ComputePayloadSize (FlexCAN_ComputeDLCValue n)) \<le> s"
    unfolding p using t by (simp add: d)
qed

section \<open>Layout of the message buffers\<close>

text \<open>
  The reference: given the payload sizes of the RAM blocks, the word and the payload size of the buffer with a given
  index. Buffers beyond the last block are in the expandable memory.
\<close>

fun locate :: "nat list \<Rightarrow> nat \<Rightarrow> nat \<Rightarrow> nat \<times> nat" where
  "locate [] off idx = (FLEXCAN_EXP_RAM_WORD + (idx div 7 * 128 + idx mod 7 * 18), 64)"
| "locate (p # ps) off idx =
    (if idx < 512 div (p + 8) then (off + idx * ((p + 8) div 4), p) else locate ps (off + 128) (idx - 512 div (p + 8)))"

definition payloads :: "flexcan_hw \<Rightarrow> nat list" where
  "payloads hw = map (\<lambda>i. unat (FlexCAN_GetPayloadSize hw i)) [0..<4]"

lemma two_bits: "unat (x AND 3 :: u32) \<in> {0, 1, 2, 3}"
proof -
  have "x AND 3 \<le> 3" by (rule word_and_le1)
  then have "unat (x AND 3) \<le> 3" by (simp add: word_le_nat_alt)
  then show ?thesis by auto
qed

lemma payload_cases: "FlexCAN_GetPayloadSize hw i \<in> {8, 16, 32, 64}"
proof -
  have c: "ucast (push_bit (unat (x AND 3)) (8 :: u32)) \<in> {8, 16, 32, 64 :: u8}" for x :: u32
    using two_bits [of x] by auto
  show ?thesis
    using c [of "drop_bit 19 (FDCTRL hw)"] c [of "drop_bit 22 (FDCTRL hw)"] c [of "drop_bit 25 (FDCTRL hw)"] c [of "drop_bit 16 (FDCTRL hw)"]
    by (cases "i = 1"; cases "i = 2"; cases "i = 3"; simp add: FlexCAN_GetPayloadSize_def del: insert_iff)
qed

lemma unat_payload_cases: "unat (FlexCAN_GetPayloadSize hw i) \<in> {8, 16, 32, 64}"
  using payload_cases [of hw i] by auto

lemma payloads_cases: "set (payloads hw) \<subseteq> {8, 16, 32, 64}"
  using unat_payload_cases [of hw] by (auto simp: payloads_def)

lemma block_room: "unat (ucast ((512 :: u32) div ucast (FlexCAN_GetPayloadSize hw i + 8)) :: u8) = 512 div (unat (FlexCAN_GetPayloadSize hw i) + 8)"
  "unat (FlexCAN_GetPayloadSize hw i + 8) = unat (FlexCAN_GetPayloadSize hw i) + 8"
  using payload_cases [of hw i] by auto

text \<open>Both loops of the source walk the blocks like the reference.\<close>

fun region_of :: "nat \<times> u16 \<times> u8 \<times> u8 \<times> u8 \<Rightarrow> nat" where
  "region_of (i, off, idx, m, sz) =
    (if i = 4 then FLEXCAN_EXP_RAM_WORD + ((unat idx div 7) * 128 + (unat idx mod 7) * (72 div 4))
     else FLEXCAN_RAM_WORD + (unat off + (unat idx mod unat m) * (unat sz div 4)))"

lemma region_loop_locate:
  "i + n = 4 \<Longrightarrow> unat off = 128 * i \<Longrightarrow>
   region_of (region_loop hw n i off idx m sz) =
   fst (locate (map (\<lambda>i. unat (FlexCAN_GetPayloadSize hw i)) [i..<4]) (FLEXCAN_RAM_WORD + 128 * i) (unat idx))"
proof (induction n arbitrary: i off idx m sz)
  case 0
  then show ?case by simp
next
  case (Suc n)
  let ?p = "FlexCAN_GetPayloadSize hw i"
  let ?m = "ucast ((512 :: u32) div ucast (?p + 8)) :: u8"
  have upt: "[i..<4] = i # [Suc i..<4]" using Suc.prems by (intro upt_conv_Cons) simp
  show ?case
  proof (cases "?m > idx")
    case True
    then have "unat idx < 512 div (unat ?p + 8)" by (simp add: word_less_nat_alt block_room)
    with True Suc.prems show ?thesis by (simp add: upt block_room Let_def)
  next
    case False
    then have le: "?m \<le> idx" by simp
    then have i1: "unat (idx - ?m) = unat idx - 512 div (unat ?p + 8)" by (simp add: unat_sub block_room)
    have i2: "\<not> unat idx < 512 div (unat ?p + 8)" using le by (simp add: word_le_nat_alt block_room)
    have off: "unat (off + 128) = 128 * Suc i" using Suc.prems by (subst unat_word_ariths) simp
    have "region_of (region_loop hw (Suc n) i off idx m sz) = region_of (region_loop hw n (Suc i) (off + 128) (idx - ?m) ?m (?p + 8))"
      using False by (simp add: Let_def)
    also have "\<dots> = fst (locate (map (\<lambda>i. unat (FlexCAN_GetPayloadSize hw i)) [Suc i..<4]) (FLEXCAN_RAM_WORD + 128 * Suc i) (unat (idx - ?m)))"
      using Suc.prems off by (intro Suc.IH) simp_all
    finally show ?thesis using i2 by (simp add: upt i1 algebra_simps)
  qed
qed

lemma region_locate:
  assumes "unat mb < 256"
  shows "FlexCAN_GetMsgBuffRegion hw mb = fst (locate (payloads hw) FLEXCAN_RAM_WORD (unat mb))"
proof -
  have "unat (ucast mb :: u8) = unat mb" using assms by (simp add: unsigned_ucast_eq unsigned_take_bit_eq take_bit_nat_eq_self)
  moreover obtain i off idx m sz where "region_loop hw 4 0 0 (ucast mb) 0 0 = (i, off, idx, m, sz)"
    by (metis prod_cases5)
  ultimately show ?thesis
    using region_loop_locate [of 0 4 0 hw "ucast mb" 0 0] by (simp add: FlexCAN_GetMsgBuffRegion_def payloads_def)
qed

lemma mb_payload_loop_locate:
  "i + n = 4 \<Longrightarrow> unat m \<le> 32 * i \<Longrightarrow> unat m \<le> unat mb \<Longrightarrow>
   unat (mb_payload_loop hw n i p m mb) = snd (locate (map (\<lambda>i. unat (FlexCAN_GetPayloadSize hw i)) [i..<4]) off (unat mb - unat m))"
proof (induction n arbitrary: i p m off)
  case 0
  then show ?case by simp
next
  case (Suc n)
  let ?p = "FlexCAN_GetPayloadSize hw i"
  let ?m = "m + ucast ((512 :: u32) div ucast (?p + 8)) :: u8"
  have upt: "[i..<4] = i # [Suc i..<4]" using Suc.prems by (intro upt_conv_Cons) simp
  have b: "512 div (unat ?p + 8) \<le> 32" using payload_cases [of hw i] by auto
  have m: "unat ?m = unat m + 512 div (unat ?p + 8)"
    using Suc.prems b by (subst unat_word_ariths) (simp add: block_room)
  have um: "unat (ucast ?m :: u32) = unat ?m" by (rule unat_ucast_up) simp
  show ?case
  proof (cases "ucast ?m > mb")
    case True
    then have "unat mb < unat m + 512 div (unat ?p + 8)" by (simp only: word_less_nat_alt um m)
    with True Suc.prems show ?thesis by (simp add: upt Let_def) arith
  next
    case False
    then have ge: "unat m + 512 div (unat ?p + 8) \<le> unat mb" by (simp only: not_less word_le_nat_alt um m)
    have "unat (mb_payload_loop hw (Suc n) i p m mb) = unat (mb_payload_loop hw n (Suc i) ?p ?m mb)"
      using False by (simp add: Let_def)
    also have "\<dots> = snd (locate (map (\<lambda>i. unat (FlexCAN_GetPayloadSize hw i)) [Suc i..<4]) (off + 128) (unat mb - unat ?m))"
      using Suc.prems b m ge by (intro Suc.IH) simp_all
    moreover have "\<not> unat mb - unat m < 512 div (unat ?p + 8)" using ge by linarith
    ultimately show ?thesis by (simp only: upt list.map locate.simps if_False m diff_diff_left)
  qed
qed

lemma mb_payload_locate: "unat (FlexCAN_GetMbPayloadSize hw mb) = snd (locate (payloads hw) FLEXCAN_RAM_WORD (unat mb))"
  using mb_payload_loop_locate [of 0 4 0 mb hw 8 FLEXCAN_RAM_WORD] by (simp add: FlexCAN_GetMbPayloadSize_def payloads_def)

text \<open>Buffers follow each other without overlap, and a buffer of the first four blocks stays inside its block.\<close>

lemma locate_lower: "off + 128 * length ps \<le> FLEXCAN_EXP_RAM_WORD \<Longrightarrow> off \<le> fst (locate ps off j)"
proof (induction ps arbitrary: off j)
  case Nil
  then show ?case by simp
next
  case (Cons p ps)
  have "off + 128 \<le> fst (locate ps (off + 128) (j - 512 div (p + 8)))" using Cons.prems by (intro Cons.IH) simp
  then show ?case by simp
qed

lemma exp_step: "i < j \<Longrightarrow> i div 7 * 128 + i mod 7 * 18 + 18 \<le> j div 7 * 128 + j mod 7 * (18 :: nat)"
proof -
  assume "i < j"
  show ?thesis
  proof (cases "i div 7 = j div 7")
    case True
    have "i = 7 * (i div 7) + i mod 7" "j = 7 * (j div 7) + j mod 7" by simp_all
    with \<open>i < j\<close> True have "i mod 7 < j mod 7" by linarith
    then show ?thesis by (simp add: True)
  next
    case False
    moreover have "i div 7 \<le> j div 7" using \<open>i < j\<close> by (intro div_le_mono) simp
    ultimately have "Suc (i div 7) * 128 \<le> j div 7 * 128" by (intro mult_le_mono1) simp
    moreover have "i mod 7 * 18 \<le> 6 * 18" by (intro mult_le_mono1) simp
    ultimately show ?thesis by simp
  qed
qed

lemma locate_disjoint:
  assumes "set ps \<subseteq> {8, 16, 32, 64}" "off + 128 * length ps \<le> FLEXCAN_EXP_RAM_WORD" "i < j"
  shows "fst (locate ps off i) + (2 + snd (locate ps off i) div 4) \<le> fst (locate ps off j)"
  using assms
proof (induction ps arbitrary: off i j)
  case Nil
  then show ?case using exp_step [of i j] by simp
next
  case (Cons p ps)
  let ?n = "512 div (p + 8)"
  have p: "p \<in> {8, 16, 32, 64}" using Cons.prems by simp
  have room: "i * ((p + 8) div 4) + (2 + p div 4) \<le> 128" if "i < ?n"
    using p that by auto
  consider "j < ?n" | "i < ?n" "\<not> j < ?n" | "\<not> i < ?n" using Cons.prems by linarith
  then show ?case
  proof cases
    case 1
    then show ?thesis using Cons.prems p by auto
  next
    case 2
    have "off + 128 \<le> fst (locate ps (off + 128) (j - ?n))" using Cons.prems by (intro locate_lower) simp
    then show ?thesis using 2 room by simp
  next
    case 3
    then show ?thesis using Cons.IH [of "off + 128" "i - ?n" "j - ?n"] Cons.prems by simp
  qed
qed

fun rooms :: "nat list \<Rightarrow> nat" where
  "rooms [] = 0"
| "rooms (p # ps) = 512 div (p + 8) + rooms ps"

lemma locate_upper:
  assumes "set ps \<subseteq> {8, 16, 32, 64}" "i < rooms ps"
  shows "fst (locate ps off i) + (2 + snd (locate ps off i) div 4) \<le> off + 128 * length ps"
  using assms
proof (induction ps arbitrary: off i)
  case (Cons p ps)
  have p: "p \<in> {8, 16, 32, 64}" using Cons.prems by simp
  have "i * ((p + 8) div 4) + (2 + p div 4) \<le> 128" if "i < 512 div (p + 8)" using p that by auto
  then show ?case using Cons.prems Cons.IH [of "i - 512 div (p + 8)" "off + 128"] by (cases "i < 512 div (p + 8)") auto
qed simp

lemma mb_payload_div4: "unat (FlexCAN_GetMbPayloadSize hw mb) \<in> {8, 16, 32, 64}"
proof -
  have "snd (locate ps off i) \<in> {8, 16, 32, 64}" if "set ps \<subseteq> {8, 16, 32, 64}" for ps off i
    using that by (induction ps arbitrary: off i) auto
  then show ?thesis unfolding mb_payload_locate using payloads_cases by blast
qed

text \<open>The words that a message buffer occupies: two of arbitration field and its payload.\<close>

definition mb_words :: "flexcan_hw \<Rightarrow> u32 \<Rightarrow> nat set" where
  "mb_words hw mb = {FlexCAN_GetMsgBuffRegion hw mb..<FlexCAN_GetMsgBuffRegion hw mb + 2 + unat (FlexCAN_GetMbPayloadSize hw mb) div 4}"

lemma mb_words_disjoint:
  assumes "mb \<noteq> mb'" "unat mb < 256" "unat mb' < 256"
  shows "mb_words hw mb \<inter> mb_words hw mb' = {}"
proof -
  have "FlexCAN_GetMsgBuffRegion hw i + (2 + unat (FlexCAN_GetMbPayloadSize hw i) div 4) \<le> FlexCAN_GetMsgBuffRegion hw j"
    if "unat i < unat j" "unat i < 256" "unat j < 256" for i j
    unfolding region_locate [OF that(2)] region_locate [OF that(3)] mb_payload_locate
    using that payloads_cases [of hw] by (intro locate_disjoint) (auto simp: payloads_def)
  note step = this
  have "unat mb \<noteq> unat mb'" using assms(1) by (simp add: word_unat_eq_iff)
  then consider "unat mb < unat mb'" | "unat mb' < unat mb" by linarith
  then show ?thesis
  proof cases
    case 1
    then show ?thesis using step [of mb mb'] assms by (auto simp: mb_words_def)
  next
    case 2
    then show ?thesis using step [of mb' mb] assms by (auto simp: mb_words_def)
  qed
qed

lemma ex_fdctrl_rooms:
  "payloads \<lparr>can_ram = \<lambda>_. 0, IFLAG = [0, 0, 0, 0], IMASK = [0, 0, 0, 0], FDCTRL = 0x6DB0000, CAN_CTRL1 = 0, CAN_CTRL2 = 0, ERFCR = 0, ERFSR = 0\<rparr> = [64, 64, 64, 64]"
  by (simp add: payloads_def FlexCAN_GetPayloadSize_def upt_rec)

text \<open>(C9)
  Whatever payload sizes \<open>FDCTRL\<close> selects, two different message buffers never share a word of the RAM, so filling
  one cannot corrupt another; and the buffers that fit the four RAM blocks lie inside them, from offset 0x80 to 0x880.
  Here \<open>mb_words\<close> combines \<open>FlexCAN_GetMsgBuffRegion\<close> and \<open>FlexCAN_GetMbPayloadSize\<close>, whose loops count
  independently of each other.
\<close>

theorem mailboxes_disjoint:
  assumes "unat mb < 256" "unat mb' < 256" "mb \<noteq> mb'"
  shows "mb_words hw mb \<inter> mb_words hw mb' = {} \<and>
    (unat mb < rooms (payloads hw) \<longrightarrow> mb_words hw mb \<subseteq> {0x80 div 4..<0x880 div 4})"
proof
  show "mb_words hw mb \<inter> mb_words hw mb' = {}" by (rule mb_words_disjoint [OF assms(3,1,2)])
  show "unat mb < rooms (payloads hw) \<longrightarrow> mb_words hw mb \<subseteq> {0x80 div 4..<0x880 div 4}"
    using locate_upper [OF payloads_cases, of "unat mb" hw FLEXCAN_RAM_WORD] locate_lower [of FLEXCAN_RAM_WORD "payloads hw" "unat mb"]
    by (auto simp: mb_words_def region_locate [OF assms(1)] mb_payload_locate payloads_def)
qed

theorem mailboxes_disjoint_witness:
  "mb_words \<lparr>can_ram = \<lambda>_. 0, IFLAG = [0, 0, 0, 0], IMASK = [0, 0, 0, 0], FDCTRL = 0x6DB0000, CAN_CTRL1 = 0, CAN_CTRL2 = 0, ERFCR = 0, ERFSR = 0\<rparr> 27
   \<subseteq> {0x80 div 4..<0x880 div 4}"
  using mailboxes_disjoint [of 27 26 "\<lparr>can_ram = \<lambda>_. 0, IFLAG = [0, 0, 0, 0], IMASK = [0, 0, 0, 0], FDCTRL = 0x6DB0000, CAN_CTRL1 = 0, CAN_CTRL2 = 0, ERFCR = 0, ERFSR = 0\<rparr>"]
  by (simp add: ex_fdctrl_rooms)

text \<open>(C40)
  \<open>FlexCAN_ComputeDLCValue\<close> and \<open>FlexCAN_ComputePayloadSize\<close> together round a length up to the next CAN FD payload
  size: the code is one of the sixteen, no smaller size holds the data, and a length above 64 gives the error code 0xFF.
\<close>

theorem dlc_rounds_up:
  "(n \<le> 64 \<longrightarrow>
     unat (FlexCAN_ComputeDLCValue n) < 16 \<and>
     unat (FlexCAN_ComputePayloadSize (FlexCAN_ComputeDLCValue n)) = Min {s \<in> set fd_sizes. unat n \<le> s}) \<and>
   (\<not> n \<le> 64 \<longrightarrow> FlexCAN_ComputeDLCValue n = 0xFF)"
proof (intro conjI impI)
  assume n: "n \<le> 64"
  show "unat (FlexCAN_ComputeDLCValue n) < 16" by (rule dlc_least(1) [OF n])
  show "unat (FlexCAN_ComputePayloadSize (FlexCAN_ComputeDLCValue n)) = Min {s \<in> set fd_sizes. unat n \<le> s}"
    using dlc_least [OF n] by (intro Min_eqI [symmetric]) auto
qed (simp add: FlexCAN_ComputeDLCValue_def)

theorem dlc_rounds_up_witness:
  "unat (FlexCAN_ComputePayloadSize (FlexCAN_ComputeDLCValue 33)) = Min {s \<in> set fd_sizes. 33 \<le> s} \<and>
   FlexCAN_ComputeDLCValue 65 = 0xFF"
  using dlc_rounds_up [of 33] dlc_rounds_up [of 65] by simp

end
