(* ===== verification/Flexcan_Mb.thy ===== *)
theory Flexcan_Mb
  imports Flexcan_Hw
begin

text \<open>
  The contents of message buffers. The RAM stores the data bytes of each word in reverse; \<open>FlexCAN_GetMsgBuff\<close> and
  \<open>FlexCAN_SetTxMsgBuff\<close> move whole words first and the remaining bytes one by one. The lemmas give both a view
  as byte lists, state which words a write may change, and end in the round trip.
\<close>

section \<open>Byte order\<close>

lemma le32_of_le32: "length bs = 4 \<Longrightarrow> le32 (of_le32 bs) = bs"
proof -
  assume "length bs = 4"
  then obtain a b c d where bs: "bs = [a, b, c, d]"
    by (auto simp: numeral_eq_Suc length_Suc_conv)
  have "ucast (of_le32 [a, b, c, d]) = a"
    by (rule bit_word_eqI) (auto simp: of_le32_def bit_simps)
  moreover have "ucast (drop_bit 8 (of_le32 [a, b, c, d])) = b"
    by (rule bit_word_eqI) (auto simp: of_le32_def bit_simps bit_u8_high)
  moreover have "ucast (drop_bit 16 (of_le32 [a, b, c, d])) = c"
    by (rule bit_word_eqI) (auto simp: of_le32_def bit_simps bit_u8_high)
  moreover have "ucast (drop_bit 24 (of_le32 [a, b, c, d])) = d"
    by (rule bit_word_eqI) (auto simp: of_le32_def bit_simps bit_u8_high)
  ultimately show ?thesis by (simp add: bs le32_def)
qed

lemma le32_rev_bytes: "le32 (rev_bytes_32 x) = rev (le32 x)"
  by (simp add: rev_bytes_32_def le32_of_le32)

lemma swap_index_div [simp]: "swap_index i div 4 = i div 4"
  by (simp add: swap_index_def minus_mod_eq_mult_div)

lemma swap_index_mod [simp]: "swap_index i mod 4 = 3 - i mod 4"
  unfolding swap_index_def minus_mod_eq_mult_div mod_mult_self4 by simp

lemma swap_index_inj [simp]: "swap_index i = swap_index j \<longleftrightarrow> i = j"
proof
  assume "swap_index i = swap_index j"
  then have "i div 4 = j div 4" "3 - i mod 4 = 3 - j mod 4" by (metis swap_index_div, metis swap_index_mod)
  moreover have "i mod 4 < 4" "j mod 4 < 4" by simp_all
  ultimately have "i div 4 = j div 4" "i mod 4 = j mod 4" by linarith+
  then show "i = j" by (metis div_mult_mod_eq)
qed simp

lemma div_mod_neq: "i \<noteq> j \<Longrightarrow> i div 4 = j div 4 \<Longrightarrow> i mod 4 \<noteq> j mod (4 :: nat)"
  by (metis div_mult_mod_eq)

lemma ram_byte_write_byte: "ram_byte (ram_write_byte a i b hw) a j = (if i = j then b else ram_byte hw a j)"
  using div_mod_neq [of i j]
  by (cases "i div 4 = j div 4") (auto simp: ram_byte_def ram_write_byte_def ram_write_def le32_of_le32)

lemma ram_byte_write_word:
  assumes "length ws = 4"
  shows "ram_byte (ram_write (a + k) (rev_bytes_32 (of_le32 ws)) hw) a (swap_index j) =
    (if j div 4 = k then ws ! (j mod 4) else ram_byte hw a (swap_index j))"
proof -
  have "j mod 4 < 4" by simp
  then show ?thesis using assms by (simp add: ram_byte_def ram_write_def le32_rev_bytes le32_of_le32 rev_nth)
qed

section \<open>The data area as a byte list\<close>

definition mb_bytes :: "flexcan_hw \<Rightarrow> nat \<Rightarrow> nat \<Rightarrow> u8 list" where
  "mb_bytes hw a n = map (\<lambda>j. ram_byte hw a (swap_index j)) [0..<n]"

lemma length_mb_bytes [simp]: "length (mb_bytes hw a n) = n"
  by (simp add: mb_bytes_def)

lemma put_words:
  assumes "4 * k \<le> length d"
  shows "ram_byte (fold (\<lambda>k hw. ram_write (a + k) (rev_bytes_32 (of_le32 (take 4 (drop (4 * k) d)))) hw) [0..<k] hw) a (swap_index j) =
    (if j < 4 * k then d ! j else ram_byte hw a (swap_index j))"
  using assms
proof (induction k)
  case (Suc k)
  have "j div 4 = k \<longleftrightarrow> 4 * k \<le> j \<and> j < 4 * Suc k" by auto
  moreover have "length (take 4 (drop (4 * k) d)) = 4" using Suc.prems by simp
  ultimately show ?case using Suc by (auto simp: ram_byte_write_word nth_append div_mult_mod_eq)
qed simp

lemma put_bytes:
  assumes "m \<le> n"
  shows "ram_byte (fold (\<lambda>i hw. ram_write_byte a (swap_index i) (f i) hw) [m..<n] hw) a (swap_index j) =
    (if m \<le> j \<and> j < n then f j else ram_byte hw a (swap_index j))"
  using assms
proof (induction n)
  case (Suc n)
  then show ?case by (cases "m \<le> n") (auto simp: ram_byte_write_byte not_less_eq_eq)
qed simp

lemma put_data_bytes:
  assumes "n \<le> length d"
  shows "ram_byte (put_data a d n hw) a (swap_index j) = (if j < n then d ! j else ram_byte hw a (swap_index j))"
proof -
  have "n - n mod 4 = 4 * (n div 4)" by (simp add: minus_mod_eq_mult_div)
  with assms show ?thesis by (auto simp: put_data_def put_bytes put_words)
qed

lemma pad_data_bytes:
  "n \<le> p \<Longrightarrow> ram_byte (pad_data a b n p hw) a (swap_index j) = (if n \<le> j \<and> j < p then b else ram_byte hw a (swap_index j))"
  by (simp add: pad_data_def put_bytes)

lemma get_words:
  assumes "4 * k \<le> length d"
  shows "fold (\<lambda>k d. blit d (4 * k) (le32 (rev_bytes_32 (can_ram hw (a + k))))) [0..<k] d = mb_bytes hw a (4 * k) @ drop (4 * k) d"
  using assms
proof (induction k)
  case (Suc k)
  have w: "le32 (rev_bytes_32 (can_ram hw (a + k))) = map (\<lambda>j. ram_byte hw a (swap_index j)) [4 * k..<4 * Suc k]"
    by (auto simp: le32_rev_bytes ram_byte_def rev_nth list_eq_iff_nth_eq)
  have "mb_bytes hw a (4 * Suc k) = mb_bytes hw a (4 * k) @ map (\<lambda>j. ram_byte hw a (swap_index j)) [4 * k..<4 * Suc k]"
    using upt_add_eq_append [of 0 "4 * k" 4] by (simp add: mb_bytes_def add.commute)
  with Suc w show ?case by (simp add: blit_def add.commute)
qed (simp add: mb_bytes_def)

lemma get_data_eq:
  assumes "n \<le> length d"
  shows "get_data hw a n d = mb_bytes hw a n @ drop n d"
proof -
  have bytes: "fold (\<lambda>i d. d[i := ram_byte hw a (swap_index i)]) [m..<n] (mb_bytes hw a m @ drop m d) = mb_bytes hw a n @ drop n d"
    if "m \<le> n" "n \<le> length d" for m n
    using that
  proof (induction n)
    case (Suc n)
    show ?case
    proof (cases "m \<le> n")
      case True
      have "drop n d = d ! n # drop (Suc n) d" using Suc.prems by (simp add: Cons_nth_drop_Suc)
      moreover have "mb_bytes hw a (Suc n) = mb_bytes hw a n @ [ram_byte hw a (swap_index n)]" by (simp add: mb_bytes_def)
      ultimately show ?thesis using Suc True by (simp add: list_update_append)
    next
      case False
      then have "m = Suc n" using Suc.prems by simp
      then show ?thesis by simp
    qed
  qed simp
  have "n - n mod 4 = 4 * (n div 4)" by (simp add: minus_mod_eq_mult_div)
  with assms show ?thesis by (simp add: get_data_def get_words bytes)
qed

section \<open>What a write leaves alone\<close>

definition same_but :: "nat set \<Rightarrow> flexcan_hw \<Rightarrow> flexcan_hw \<Rightarrow> bool" where
  "same_but X hw hw' \<longleftrightarrow> (\<exists>r. hw' = hw\<lparr>can_ram := r\<rparr> \<and> (\<forall>x. x \<notin> X \<longrightarrow> r x = can_ram hw x))"

lemma same_but_refl [intro]: "same_but X hw hw"
  by (auto simp: same_but_def intro: exI [of _ "can_ram hw"])

lemma same_but_trans [trans]: "same_but X hw hw1 \<Longrightarrow> same_but X hw1 hw2 \<Longrightarrow> same_but X hw hw2"
  by (auto simp: same_but_def)

lemma same_but_write: "x \<in> X \<Longrightarrow> same_but X hw (ram_write x v hw)"
  by (auto simp: same_but_def ram_write_def)

lemma same_but_fold:
  "(\<And>i hw. i \<in> set is \<Longrightarrow> same_but X hw (f i hw)) \<Longrightarrow> same_but X hw (fold f is hw)"
proof (induction "is" arbitrary: hw)
  case (Cons i "is")
  have "same_but X hw (f i hw)" by (rule Cons.prems) simp
  also have "same_but X (f i hw) (fold f is (f i hw))" by (rule Cons.IH) (simp add: Cons.prems)
  finally show ?case by simp
qed auto

lemma same_but_put_data:
  assumes "n \<le> 4 * w"
  shows "same_but {a..<a + w} hw (put_data a d n hw)"
  unfolding put_data_def using assms
  by (intro same_but_trans [OF same_but_fold same_but_fold]) (auto simp: ram_write_byte_def intro!: same_but_write)

lemma same_but_pad_data: "p \<le> 4 * w \<Longrightarrow> same_but {a..<a + w} hw (pad_data a b n p hw)"
  unfolding pad_data_def by (intro same_but_fold) (auto simp: ram_write_byte_def intro!: same_but_write)

lemma same_but_mono: "same_but X hw hw' \<Longrightarrow> X \<subseteq> Y \<Longrightarrow> same_but Y hw hw'"
  by (auto simp: same_but_def)

lemma payload_size_cong: "FDCTRL hw' = FDCTRL hw \<Longrightarrow> FlexCAN_GetPayloadSize hw' i = FlexCAN_GetPayloadSize hw i"
  by (simp add: FlexCAN_GetPayloadSize_def)

lemma region_loop_cong: "FDCTRL hw' = FDCTRL hw \<Longrightarrow> region_loop hw' n i off idx m s = region_loop hw n i off idx m s"
  by (induction n arbitrary: i off idx m s) (simp_all add: payload_size_cong [of hw' hw] Let_def)

lemma mb_payload_loop_cong: "FDCTRL hw' = FDCTRL hw \<Longrightarrow> mb_payload_loop hw' n i p m mb = mb_payload_loop hw n i p m mb"
  by (induction n arbitrary: i p m) (simp_all add: payload_size_cong [of hw' hw] Let_def)

lemma layout_cong:
  assumes "FDCTRL hw' = FDCTRL hw"
  shows "FlexCAN_GetMsgBuffRegion hw' mb = FlexCAN_GetMsgBuffRegion hw mb" "FlexCAN_GetMbPayloadSize hw' mb = FlexCAN_GetMbPayloadSize hw mb"
  by (simp_all only: FlexCAN_GetMsgBuffRegion_def FlexCAN_GetMbPayloadSize_def region_loop_cong [OF assms] mb_payload_loop_cong [OF assms])

lemma get_msg_cong:
  assumes "FDCTRL hw' = FDCTRL hw" "\<And>x. x \<in> mb_words hw mb \<Longrightarrow> can_ram hw' x = can_ram hw x"
    and "length (msg_data m) = 64"
  shows "FlexCAN_GetMsgBuff hw' mb m = FlexCAN_GetMsgBuff hw mb m"
proof -
  let ?a = "FlexCAN_GetMsgBuffRegion hw mb" and ?P = "FlexCAN_GetMbPayloadSize hw mb"
  have cs: "can_ram hw' ?a = can_ram hw ?a" "can_ram hw' (Suc ?a) = can_ram hw (Suc ?a)"
    using assms(2) by (simp_all add: mb_words_def)
  have data: "mb_bytes hw' (?a + 2) n = mb_bytes hw (?a + 2) n" if "n \<le> unat ?P" for n
  proof -
    have "can_ram hw' (?a + 2 + j div 4) = can_ram hw (?a + 2 + j div 4)" if "j < n" for j
      using that \<open>n \<le> unat ?P\<close> mb_payload_div4 [of hw mb] by (intro assms(2)) (auto simp: mb_words_def)
    then show ?thesis by (simp add: mb_bytes_def ram_byte_def)
  qed
  have "get_data hw' (?a + 2) (unat p) (msg_data m) = get_data hw (?a + 2) (unat p) (msg_data m)" if "p \<le> ?P" for p
    using that data [of "unat p"] mb_payload_div4 [of hw mb] assms(3) by (auto simp: get_data_eq word_le_nat_alt)
  then show ?thesis by (simp add: FlexCAN_GetMsgBuff_def layout_cong [OF assms(1)] cs Let_def)
qed


section \<open>Writing and reading back\<close>

text \<open>Fields of the configuration word\<close>

lemma mask_or_and_other [mask_simps]: "m AND l = 0 \<Longrightarrow> (m OR x) AND l = x AND l" for x m l :: "'a::len word"
  by (simp add: bit.conj_disj_distrib2)

lemma dlc_field: "drop_bit 16 (push_bit 16 (ucast dlc)) AND 15 = (ucast (dlc AND 15) :: u32)" for dlc :: u8
proof -
  have m: "15 = (mask 4 :: u32)" "15 = (mask 4 :: u8)" by (simp_all add: mask_eq_exp_minus_1)
  show ?thesis unfolding m by (rule bit_word_eqI) (auto simp: bit_simps)
qed

lemma tx_config_dlc:
  "drop_bit 16 (tx_config_word cs dlc r AND FLEXCAN_IP_CS_DLC_MASK) = ucast (dlc AND 15)"
  unfolding tx_config_word_def Let_def
  by (cases "cs_msgIdType cs"; cases "cs_fd_enable cs"; cases "cs_enable_brs cs"; cases "cs_code cs = FLEXCAN_TX_REMOTE \<or> r")
     (simp_all add: mask_simps and.assoc dlc_field)

lemma tx_config_ide:
  "tx_config_word cs dlc r AND FLEXCAN_IP_CS_IDE_MASK \<noteq> 0 \<longleftrightarrow> cs_msgIdType cs = FLEXCAN_MSG_ID_EXT"
  unfolding tx_config_word_def Let_def
  by (cases "cs_msgIdType cs"; cases "cs_fd_enable cs"; cases "cs_enable_brs cs"; cases "cs_code cs = FLEXCAN_TX_REMOTE \<or> r")
     (simp_all add: mask_simps and.assoc)

lemma tx_config_code:
  "drop_bit 24 (tx_config_word cs dlc r AND FLEXCAN_IP_CS_CODE_MASK) = drop_bit 24 (push_bit 24 (cs_code cs) AND FLEXCAN_IP_CS_CODE_MASK)"
  unfolding tx_config_word_def Let_def
  by (cases "cs_msgIdType cs"; cases "cs_fd_enable cs"; cases "cs_enable_brs cs"; cases "cs_code cs = FLEXCAN_TX_REMOTE \<or> r")
     (simp_all add: mask_simps and.assoc)

lemma tx_config_fd:
  "tx_config_word cs dlc r AND FLEXCAN_IP_MB_EDL_MASK \<noteq> 0 \<longleftrightarrow> cs_fd_enable cs"
  "tx_config_word cs dlc r AND FLEXCAN_IP_MB_BRS_MASK \<noteq> 0 \<longleftrightarrow> cs_enable_brs cs"
  unfolding tx_config_word_def Let_def
  by (cases "cs_msgIdType cs"; cases "cs_fd_enable cs"; cases "cs_enable_brs cs"; cases "cs_code cs = FLEXCAN_TX_REMOTE \<or> r";
      simp add: mask_simps and.assoc)+

definition tx_id :: "Flexcan_Ip_MsgBuffIdType \<Rightarrow> u32 \<Rightarrow> u32" where
  "tx_id t msg_id = (case t of FLEXCAN_MSG_ID_EXT \<Rightarrow> msg_id AND (FLEXCAN_IP_ID_STD_MASK OR FLEXCAN_IP_ID_EXT_MASK)
    | FLEXCAN_MSG_ID_STD \<Rightarrow> push_bit 18 msg_id AND FLEXCAN_IP_ID_STD_MASK)"

lemma ram_write_simps [simp]:
  "can_ram (ram_write x v hw) = (can_ram hw)(x := v)" "FDCTRL (ram_write x v hw) = FDCTRL hw"
  by (simp_all add: ram_write_def)

lemma ram_byte_write_below: "x < b \<Longrightarrow> ram_byte (ram_write x v hw) b j = ram_byte hw b j"
  by (simp add: ram_byte_def)

lemma mb_bytes_write_below: "x < b \<Longrightarrow> mb_bytes (ram_write x v hw) b n = mb_bytes hw b n"
  by (simp add: mb_bytes_def ram_byte_write_below)

lemma put_pad_bytes:
  assumes "n \<le> length d" "n \<le> s"
  shows "mb_bytes (pad_data a b n s (put_data a d n hw)) a s = take n d @ replicate (s - n) b"
  using assms by (auto simp: mb_bytes_def list_eq_iff_nth_eq nth_append pad_data_bytes put_data_bytes)

lemma set_tx_result:
  assumes n: "n = unat (cs_dataLen cs)" "n \<le> 64" "n \<le> length d"
    and s: "s = unat (FlexCAN_ComputePayloadSize (FlexCAN_ComputeDLCValue (ucast (cs_dataLen cs))))" "s \<le> 4 * w"
    and code: "cs_code cs \<noteq> FLEXCAN_TX_NOT_USED"
  obtains hw' where "FlexCAN_SetTxMsgBuff a cs msg_id (Some d) r hw = Inr hw'"
    "can_ram hw' a = tx_config_word cs (FlexCAN_ComputeDLCValue (ucast (cs_dataLen cs))) r"
    "can_ram hw' (a + 1) = tx_id (cs_msgIdType cs) msg_id"
    "mb_bytes hw' (a + 2) s = take n d @ replicate (s - n) (cs_fd_padding cs)"
    "same_but {a..<a + 2 + w} hw hw'" "n \<le> s"
proof -
  have un: "unat (ucast (cs_dataLen cs) :: u8) = n"
    using n(1,2) by (simp add: unsigned_ucast_eq unsigned_take_bit_eq take_bit_nat_eq_self)
  then have "(ucast (cs_dataLen cs) :: u8) \<le> 64" using n(2) by (simp add: word_le_nat_alt)
  from dlc_least(3) [OF this] have ns: "n \<le> s" by (simp add: s(1) un)
  define hw1 where "hw1 = ram_write (a + 1) 0 (ram_write a (push_bit 24 (FLEXCAN_TX_INACTIVE AND 0x1F) AND FLEXCAN_IP_CS_CODE_MASK) hw)"
  define hw2 where "hw2 = pad_data (a + 2) (cs_fd_padding cs) n s (put_data (a + 2) d n hw1)"
  define hw3 where "hw3 = ram_write a (tx_config_word cs (FlexCAN_ComputeDLCValue (ucast (cs_dataLen cs))) r)
    (ram_write (a + 1) (tx_id (cs_msgIdType cs) msg_id) hw2)"
  have eq: "FlexCAN_SetTxMsgBuff a cs msg_id (Some d) r hw = Inr hw3"
    using n(3) code by (simp add: FlexCAN_SetTxMsgBuff_def Let_def hw3_def hw2_def hw1_def tx_id_def
      flip: n(1) s(1) del: push_bit_numeral and_numerals)
  have bytes: "mb_bytes hw3 (a + 2) s = take n d @ replicate (s - n) (cs_fd_padding cs)"
    unfolding hw3_def hw2_def using n(3) ns by (simp add: mb_bytes_write_below put_pad_bytes)
  have "same_but {a..<a + 2 + w} hw hw1"
    unfolding hw1_def by (rule same_but_trans [OF same_but_write same_but_write]) simp_all
  also have "same_but {a..<a + 2 + w} hw1 (put_data (a + 2) d n hw1)"
    using ns s(2) by (intro same_but_mono [OF same_but_put_data [of n w]]) auto
  also have "same_but {a..<a + 2 + w} \<dots> hw2"
    unfolding hw2_def using s(2) by (intro same_but_mono [OF same_but_pad_data [of s w]]) auto
  also have "same_but {a..<a + 2 + w} hw2 hw3"
    unfolding hw3_def by (rule same_but_trans [OF same_but_write same_but_write]) simp_all
  finally have "same_but {a..<a + 2 + w} hw hw3" .
  with eq bytes ns show thesis by (intro that [of hw3]) (simp_all add: hw3_def)
qed

lemma ucast_u8_u32: "ucast (ucast x :: u32) = x" for x :: u8
  by (rule bit_word_eqI) (simp add: bit_simps)

lemma tx_id_read:
  "tx_id FLEXCAN_MSG_ID_EXT msg_id = msg_id AND 0x1FFFFFFF"
  "drop_bit 18 (tx_id FLEXCAN_MSG_ID_STD msg_id) = msg_id AND 0x7FF"
proof -
  have m: "0x7FF = (mask 11 :: u32)" by (simp add: mask_eq_exp_minus_1)
  have "drop_bit 18 (push_bit 18 msg_id) AND 0x7FF = msg_id AND 0x7FF"
    unfolding m by (rule bit_word_eqI) (auto simp: bit_simps)
  then show "drop_bit 18 (tx_id FLEXCAN_MSG_ID_STD msg_id) = msg_id AND 0x7FF" by (simp add: tx_id_def)
qed (simp add: tx_id_def)

lemma tx_read_back:
  assumes mb: "unat mb < 256" and code: "cs_code cs \<noteq> FLEXCAN_TX_NOT_USED"
    and n: "n = unat (cs_dataLen cs)" "n \<le> length d" "n \<le> 64"
    and s: "s = FlexCAN_ComputePayloadSize (FlexCAN_ComputeDLCValue (ucast (cs_dataLen cs)))" "s \<le> FlexCAN_GetMbPayloadSize hw mb"
    and m: "length (msg_data m) = 64"
  shows "\<exists>hw'. FlexCAN_SetTxMsgBuff (FlexCAN_GetMsgBuffRegion hw mb) cs msg_id (Some d) r hw = Inr hw' \<and>
    dataLen (FlexCAN_GetMsgBuff hw' mb m) = s \<and>
    msg_cs (FlexCAN_GetMsgBuff hw' mb m) = tx_config_word cs (FlexCAN_ComputeDLCValue (ucast (cs_dataLen cs))) r \<and>
    msgId (FlexCAN_GetMsgBuff hw' mb m) = msg_id AND (if cs_msgIdType cs = FLEXCAN_MSG_ID_EXT then 0x1FFFFFFF else 0x7FF) \<and>
    msg_data (FlexCAN_GetMsgBuff hw' mb m) = take n d @ replicate (unat s - n) (cs_fd_padding cs) @ drop (unat s) (msg_data m) \<and>
    (\<forall>mb' m'. mb' \<noteq> mb \<and> unat mb' < 256 \<and> length (msg_data m') = 64 \<longrightarrow>
       FlexCAN_GetMsgBuff hw' mb' m' = FlexCAN_GetMsgBuff hw mb' m') \<and>
    same_but (mb_words hw mb) hw hw'"
proof -
  let ?a = "FlexCAN_GetMsgBuffRegion hw mb" and ?P = "FlexCAN_GetMbPayloadSize hw mb"
    and ?dlc = "FlexCAN_ComputeDLCValue (ucast (cs_dataLen cs))"
  have sP: "unat s \<le> unat ?P" using s(2) by (simp add: word_le_nat_alt)
  then have w: "unat s \<le> 4 * (unat ?P div 4)" and s64: "unat s \<le> 64" using mb_payload_div4 [of hw mb] by auto
  obtain hw' where hw': "FlexCAN_SetTxMsgBuff ?a cs msg_id (Some d) r hw = Inr hw'"
    and ram: "can_ram hw' ?a = tx_config_word cs ?dlc r" "can_ram hw' (?a + 1) = tx_id (cs_msgIdType cs) msg_id"
    and bytes: "mb_bytes hw' (?a + 2) (unat s) = take n d @ replicate (unat s - n) (cs_fd_padding cs)"
    and same: "same_but {?a..<?a + 2 + unat ?P div 4} hw hw'"
    using set_tx_result [OF n(1,3,2) arg_cong [where f = unat, OF s(1)] w code] by blast
  have fd: "FDCTRL hw' = FDCTRL hw" using same by (auto simp: same_but_def)
  have "unat (ucast (cs_dataLen cs) :: u8) \<le> 64"
    using n(1,3) by (simp add: unsigned_ucast_eq unsigned_take_bit_eq take_bit_nat_eq_self)
  then have dl: "unat ?dlc < 16" by (intro dlc_least(1)) (simp add: word_le_nat_alt)
  have "?dlc AND 15 = ?dlc"
  proof -
    have "15 = (mask 4 :: u8)" by (simp add: mask_eq_exp_minus_1)
    then have "?dlc AND 15 = take_bit 4 ?dlc" by (simp add: take_bit_eq_mask)
    also have "\<dots> = ?dlc" using dl by (simp add: word_unat_eq_iff unsigned_take_bit_eq take_bit_nat_eq_self)
    finally show ?thesis .
  qed
  then have dlc: "ucast (drop_bit 16 (tx_config_word cs ?dlc r AND FLEXCAN_IP_CS_DLC_MASK)) = ?dlc"
    unfolding tx_config_dlc by (simp add: ucast_u8_u32)
  have rd: "FlexCAN_GetMsgBuff hw' mb m = m\<lparr>dataLen := s, msg_cs := tx_config_word cs ?dlc r,
      msgId := (if cs_msgIdType cs = FLEXCAN_MSG_ID_EXT then tx_id (cs_msgIdType cs) msg_id
                else drop_bit 18 (tx_id (cs_msgIdType cs) msg_id)),
      time_stamp := tx_config_word cs ?dlc r AND FLEXCAN_IP_CS_TIME_STAMP_MASK,
      msg_data := mb_bytes hw' (?a + 2) (unat s) @ drop (unat s) (msg_data m)\<rparr>"
    unfolding FlexCAN_GetMsgBuff_def layout_cong [OF fd] Let_def ram dlc tx_config_ide s(1) [symmetric]
    using s(2) s64 m by (simp add: get_data_eq not_less)
  have other: "FlexCAN_GetMsgBuff hw' mb' m' = FlexCAN_GetMsgBuff hw mb' m'"
    if "mb' \<noteq> mb" "unat mb' < 256" "length (msg_data m') = 64" for mb' m'
  proof (rule get_msg_cong [OF fd _ that(3)])
    fix x assume "x \<in> mb_words hw mb'"
    then have "x \<notin> mb_words hw mb" using mb_words_disjoint [OF that(1,2) mb, of hw] by blast
    then show "can_ram hw' x = can_ram hw x" using same by (auto simp: same_but_def mb_words_def)
  qed
  show ?thesis
    by (intro exI [of _ hw'] conjI allI impI; cases "cs_msgIdType cs") (simp_all add: hw' rd [unfolded bytes] tx_id_read other same [folded mb_words_def])
qed

definition ex_can_hw :: flexcan_hw where
  "ex_can_hw = \<lparr>can_ram = \<lambda>_. 0, IFLAG = [0, 0, 0, 0], IMASK = [0, 0, 0, 0], FDCTRL = 0x6DB0000, CAN_CTRL1 = 0, CAN_CTRL2 = 0, ERFCR = 0, ERFSR = 0\<rparr>"

definition ex_can_cs :: Flexcan_Ip_MsbuffCodeStatusType where
  "ex_can_cs = \<lparr>cs_code = FLEXCAN_TX_DATA, cs_msgIdType = FLEXCAN_MSG_ID_STD, cs_dataLen = 10, cs_fd_enable = True,
    cs_fd_padding = 0xAA, cs_enable_brs = True\<rparr>"

definition ex_can_msg :: Flexcan_Ip_MsgBuffType where
  "ex_can_msg = \<lparr>msg_cs = 0, msgId = 0, msg_data = replicate 64 0, dataLen = 0, id_hit = 0, time_stamp = 0\<rparr>"

text \<open>(C8)
  Round trip of a message buffer: what \<open>FlexCAN_SetTxMsgBuff\<close> stores, \<open>FlexCAN_GetMsgBuff\<close> reads back: the length
  rounded up to the next CAN FD size, the identifier cut to 11 or 29 bits, the data followed by the padding byte, and
  the bytes beyond the payload untouched. Every other message buffer reads the same as before.
\<close>

theorem tx_buffer_round_trip:
  assumes mb: "unat mb < 256" and code: "cs_code cs \<noteq> FLEXCAN_TX_NOT_USED"
    and n: "n = unat (cs_dataLen cs)" "n \<le> length d" "n \<le> 64"
    and s: "s = FlexCAN_ComputePayloadSize (FlexCAN_ComputeDLCValue (ucast (cs_dataLen cs)))" "s \<le> FlexCAN_GetMbPayloadSize hw mb"
    and m: "length (msg_data m) = 64"
  shows "\<exists>hw'. FlexCAN_SetTxMsgBuff (FlexCAN_GetMsgBuffRegion hw mb) cs msg_id (Some d) r hw = Inr hw' \<and>
    dataLen (FlexCAN_GetMsgBuff hw' mb m) = s \<and>
    msgId (FlexCAN_GetMsgBuff hw' mb m) = msg_id AND (if cs_msgIdType cs = FLEXCAN_MSG_ID_EXT then 0x1FFFFFFF else 0x7FF) \<and>
    msg_data (FlexCAN_GetMsgBuff hw' mb m) = take n d @ replicate (unat s - n) (cs_fd_padding cs) @ drop (unat s) (msg_data m) \<and>
    (\<forall>mb' m'. mb' \<noteq> mb \<and> unat mb' < 256 \<and> length (msg_data m') = 64 \<longrightarrow>
       FlexCAN_GetMsgBuff hw' mb' m' = FlexCAN_GetMsgBuff hw mb' m')"
  using tx_read_back [OF assms] by blast

theorem tx_buffer_round_trip_witness:
  "\<exists>hw'. FlexCAN_SetTxMsgBuff (FlexCAN_GetMsgBuffRegion ex_can_hw 4) ex_can_cs 0x123 (Some (replicate 10 7)) False ex_can_hw = Inr hw' \<and>
    dataLen (FlexCAN_GetMsgBuff hw' 4 ex_can_msg) = 12 \<and>
    msgId (FlexCAN_GetMsgBuff hw' 4 ex_can_msg) = 0x123 \<and>
    msg_data (FlexCAN_GetMsgBuff hw' 4 ex_can_msg) = replicate 10 7 @ replicate 2 0xAA @ replicate 52 0"
proof -
  have "FlexCAN_GetMbPayloadSize ex_can_hw 4 = 64" by code_simp
  moreover have "FlexCAN_ComputePayloadSize (FlexCAN_ComputeDLCValue 10) = 12" by code_simp
  ultimately show ?thesis
    using tx_buffer_round_trip [of 4 ex_can_cs 10 "replicate 10 7" 12 ex_can_hw ex_can_msg "0x123" False]
    by (auto simp: ex_can_cs_def ex_can_msg_def)
qed

end
