(* ===== verification/Flexcan_Drv.thy ===== *)
theory Flexcan_Drv
  imports Flexcan_Mb
begin

text \<open>
  The driver level of FlexCAN (\<open>FlexCAN_Ip.c\<close>): the message buffer handles with their state machine
  (idle, receiving, transmitting), starting a reception or transmission, the completion handlers with the installed
  callback, and the polling functions. The two receive FIFOs and the initialisation are not modelled; the functions
  that dispatch to the FIFO handlers take them as arguments, and every lemma holds for all handlers.
\<close>

section \<open>Driver state\<close>

datatype Flexcan_Ip_MbStateType = FLEXCAN_MB_IDLE | FLEXCAN_MB_RX_BUSY | FLEXCAN_MB_TX_BUSY

datatype Flexcan_Ip_StatusType =
  FLEXCAN_STATUS_SUCCESS | FLEXCAN_STATUS_ERROR | FLEXCAN_STATUS_BUSY | FLEXCAN_STATUS_TIMEOUT |
  FLEXCAN_STATUS_BUFF_OUT_OF_RANGE | FLEXCAN_STATUS_NO_TRANSFER_IN_PROGRESS

datatype Flexcan_Ip_EventType =
  FLEXCAN_EVENT_RX_COMPLETE | FLEXCAN_EVENT_RXFIFO_COMPLETE | FLEXCAN_EVENT_RXFIFO_WARNING | FLEXCAN_EVENT_RXFIFO_OVERFLOW |
  FLEXCAN_EVENT_TX_COMPLETE | FLEXCAN_EVENT_ENHANCED_RXFIFO_COMPLETE | FLEXCAN_EVENT_ENHANCED_RXFIFO_WATERMARK |
  FLEXCAN_EVENT_ENHANCED_RXFIFO_OVERFLOW | FLEXCAN_EVENT_ENHANCED_RXFIFO_UNDERFLOW | FLEXCAN_EVENT_ERROR |
  FLEXCAN_EVENT_ERROR_FAST | FLEXCAN_EVENT_BUSOFF | FLEXCAN_EVENT_RX_WARNING | FLEXCAN_EVENT_TX_WARNING

text \<open>A message object is named by its address; the address 0 is the null pointer.\<close>

record Flexcan_Ip_MBhandleType =
  pMBmessage :: u32
  mb_state :: Flexcan_Ip_MbStateType
  isPolling :: bool
  isRemote :: bool
  mb_time_stamp :: u32

record Flexcan_Ip_StateType =
  mbs :: "Flexcan_Ip_MBhandleType list"
  enhanced_state :: Flexcan_Ip_MbStateType
  bIsLegacyFifoEn :: bool
  u32MaxMbNum :: u32
  isIntActive :: bool
  has_callback :: bool

record Flexcan_Ip_DataInfoType =
  msg_id_type :: Flexcan_Ip_MsgBuffIdType
  data_length :: u32
  fd_enable :: bool
  fd_padding :: u8
  enable_brs :: bool
  is_remote :: bool
  is_polling :: bool

text \<open>
  The four instances with their registers, driver states (\<open>None\<close> is a null pointer in \<open>Flexcan_Ip_apxState\<close>) and
  interrupt mask shadows, and the message objects in memory. Clients extend the record.
\<close>

record can_dev =
  can_hw :: "u8 \<Rightarrow> flexcan_hw"
  can_state :: "u8 \<Rightarrow> Flexcan_Ip_StateType option"
  imask_buff :: "u8 \<Rightarrow> u32 list"
  msg_at :: "u32 \<Rightarrow> Flexcan_Ip_MsgBuffType"

abbreviation "FLEXCAN_INSTANCE_COUNT \<equiv> (4 :: u8)"

definition upd_hw :: "u8 \<Rightarrow> (flexcan_hw \<Rightarrow> flexcan_hw) \<Rightarrow> 'a can_dev_scheme \<Rightarrow> 'a can_dev_scheme" where
  "upd_hw i f d = d\<lparr>can_hw := (can_hw d)(i := f (can_hw d i))\<rparr>"

definition upd_mb :: "u8 \<Rightarrow> nat \<Rightarrow> (Flexcan_Ip_MBhandleType \<Rightarrow> Flexcan_Ip_MBhandleType) \<Rightarrow> 'a can_dev_scheme \<Rightarrow> 'a can_dev_scheme" where
  "upd_mb i mb f d =
    d\<lparr>can_state := (can_state d)(i := map_option (\<lambda>st. st\<lparr>mbs := (mbs st)[mb := f (mbs st ! mb)]\<rparr>) (can_state d i))\<rparr>"

text \<open>The arrays indexed by the instance are read before the assertion on it; the state pointer is dereferenced.\<close>

definition with_instance :: "u8 \<Rightarrow> 'a can_dev_scheme \<Rightarrow> (Flexcan_Ip_StateType \<Rightarrow> 'b res) \<Rightarrow> 'b res" where
  "with_instance i d f =
    (if i < FLEXCAN_INSTANCE_COUNT then case can_state d i of None \<Rightarrow> Inl OutOfBounds | Some st \<Rightarrow> f st else Inl OutOfBounds)"

definition set_int_cmd :: "u8 \<Rightarrow> u32 \<Rightarrow> bool \<Rightarrow> bool \<Rightarrow> 'a can_dev_scheme \<Rightarrow> 'a can_dev_scheme" where
  "set_int_cmd i mb enable active d =
    (let (buff, hw) = FlexCAN_SetMsgBuffIntCmd mb enable active (imask_buff d i, can_hw d i)
     in d\<lparr>imask_buff := (imask_buff d)(i := buff), can_hw := (can_hw d)(i := hw)\<rparr>)"

section \<open>Starting a reception or transmission\<close>

definition FlexCAN_StartRxMessageBufferData ::
  "u8 \<Rightarrow> u8 \<Rightarrow> u32 \<Rightarrow> bool \<Rightarrow> 'a can_dev_scheme \<Rightarrow> ('a can_dev_scheme \<times> Flexcan_Ip_StatusType) res" where
  "FlexCAN_StartRxMessageBufferData i mb_idx data polling d =
    with_instance i d (\<lambda>st.
    if FlexCAN_IsMbOutOfRange (can_hw d i) mb_idx (bIsLegacyFifoEn st) (u32MaxMbNum st) then Inr (d, FLEXCAN_STATUS_BUFF_OUT_OF_RANGE)
    else if \<not> unat mb_idx < length (mbs st) then Inl OutOfBounds
    else if mb_state (mbs st ! unat mb_idx) \<noteq> FLEXCAN_MB_IDLE then Inr (d, FLEXCAN_STATUS_BUSY)
    else Inr (upd_mb i (unat mb_idx) (\<lambda>m. m\<lparr>mb_state := FLEXCAN_MB_RX_BUSY, pMBmessage := data, isPolling := polling\<rparr>) d,
              FLEXCAN_STATUS_SUCCESS))"

definition FlexCAN_Ip_Receive ::
  "u8 \<Rightarrow> u8 \<Rightarrow> u32 \<Rightarrow> bool \<Rightarrow> 'a can_dev_scheme \<Rightarrow> ('a can_dev_scheme \<times> Flexcan_Ip_StatusType) res" where
  "FlexCAN_Ip_Receive i mb_idx data polling d =
    rbind (FlexCAN_StartRxMessageBufferData i mb_idx data polling d) (\<lambda>(d1, result).
    if result = FLEXCAN_STATUS_SUCCESS \<and> \<not> polling
    then with_instance i d1 (\<lambda>st. Inr (set_int_cmd i (ucast mb_idx) True (isIntActive st) d1, FLEXCAN_STATUS_SUCCESS))
    else Inr (d1, result))"

definition FlexCAN_StartSendData ::
  "u8 \<Rightarrow> u8 \<Rightarrow> Flexcan_Ip_DataInfoType \<Rightarrow> u32 \<Rightarrow> u8 list option \<Rightarrow> 'a can_dev_scheme \<Rightarrow> ('a can_dev_scheme \<times> Flexcan_Ip_StatusType) res" where
  "FlexCAN_StartSendData i mb_idx tx_info msg_id data d =
    with_instance i d (\<lambda>st.
    dev_assert ((ucast (data_length tx_info) :: u8) \<le> FlexCAN_GetMbPayloadSize (can_hw d i) (ucast mb_idx))
    (if FlexCAN_IsMbOutOfRange (can_hw d i) mb_idx (bIsLegacyFifoEn st) (u32MaxMbNum st) then Inr (d, FLEXCAN_STATUS_BUFF_OUT_OF_RANGE)
     else if \<not> unat mb_idx < length (mbs st) then Inl OutOfBounds
     else if mb_state (mbs st ! unat mb_idx) \<noteq> FLEXCAN_MB_IDLE then Inr (d, FLEXCAN_STATUS_BUSY)
     else let hw1 = FlexCAN_ClearMsgBuffIntStatusFlag (ucast mb_idx) (can_hw d i);
              cs = \<lparr>cs_code = (if is_remote tx_info then FLEXCAN_TX_REMOTE else FLEXCAN_TX_DATA), cs_msgIdType = msg_id_type tx_info,
                    cs_dataLen = data_length tx_info, cs_fd_enable = fd_enable tx_info, cs_fd_padding = fd_padding tx_info,
                    cs_enable_brs = enable_brs tx_info\<rparr>
          in rbind (FlexCAN_SetTxMsgBuff (FlexCAN_GetMsgBuffRegion hw1 (ucast mb_idx)) cs msg_id data False hw1) (\<lambda>hw2.
             Inr (upd_hw i (\<lambda>_. hw2) (upd_mb i (unat mb_idx) (\<lambda>m. m\<lparr>mb_state := FLEXCAN_MB_TX_BUSY, mb_time_stamp := 0,
                    isPolling := is_polling tx_info, isRemote := is_remote tx_info\<rparr>) d), FLEXCAN_STATUS_SUCCESS))))"

definition FlexCAN_Ip_Send ::
  "u8 \<Rightarrow> u8 \<Rightarrow> Flexcan_Ip_DataInfoType \<Rightarrow> u32 \<Rightarrow> u8 list option \<Rightarrow> 'a can_dev_scheme \<Rightarrow> ('a can_dev_scheme \<times> Flexcan_Ip_StatusType) res" where
  "FlexCAN_Ip_Send i mb_idx tx_info msg_id data d =
    (if \<not> i < FLEXCAN_INSTANCE_COUNT then Inl OutOfBounds
     else if FlexCAN_IsListenOnlyModeEnabled (can_hw d i) then Inr (d, FLEXCAN_STATUS_ERROR)
     else rbind (FlexCAN_StartSendData i mb_idx tx_info msg_id data d) (\<lambda>(d1, result).
          if result = FLEXCAN_STATUS_SUCCESS \<and> \<not> is_polling tx_info
          then with_instance i d1 (\<lambda>st. Inr (set_int_cmd i (ucast mb_idx) True (isIntActive st) d1, FLEXCAN_STATUS_SUCCESS))
          else Inr (d1, result)))"

definition FlexCAN_Ip_ConfigRxMb ::
  "u8 \<Rightarrow> u8 \<Rightarrow> Flexcan_Ip_DataInfoType \<Rightarrow> u32 \<Rightarrow> 'a can_dev_scheme \<Rightarrow> ('a can_dev_scheme \<times> Flexcan_Ip_StatusType) res" where
  "FlexCAN_Ip_ConfigRxMb i mb_idx rx_info msg_id d =
    with_instance i d (\<lambda>st.
    if FlexCAN_IsMbOutOfRange (can_hw d i) mb_idx (bIsLegacyFifoEn st) (u32MaxMbNum st) then Inr (d, FLEXCAN_STATUS_BUFF_OUT_OF_RANGE)
    else let hw1 = FlexCAN_ClearMsgBuffIntStatusFlag (ucast mb_idx) (can_hw d i);
             cs = (\<lambda>code. \<lparr>cs_code = code, cs_msgIdType = msg_id_type rx_info, cs_dataLen = data_length rx_info,
                    cs_fd_enable = fd_enable rx_info, cs_fd_padding = 0, cs_enable_brs = False\<rparr>);
             set = (\<lambda>code. FlexCAN_SetRxMsgBuff (ucast mb_idx) (cs code) msg_id)
         in Inr (upd_hw i (\<lambda>_. set FLEXCAN_RX_EMPTY (set FLEXCAN_RX_INACTIVE (set FLEXCAN_RX_NOT_USED hw1))) d, FLEXCAN_STATUS_SUCCESS))"

definition FlexCAN_Ip_GetTransferStatus :: "u8 \<Rightarrow> u8 \<Rightarrow> 'a can_dev_scheme \<Rightarrow> Flexcan_Ip_StatusType res" where
  "FlexCAN_Ip_GetTransferStatus i mb_idx d =
    with_instance i d (\<lambda>st.
    dev_assert (unat mb_idx < FLEXCAN_IP_FEATURE_MAX_MB_NUM \<or> mb_idx = 255)
    (if unat mb_idx < FLEXCAN_IP_FEATURE_MAX_MB_NUM
     then if unat mb_idx < length (mbs st)
          then Inr (if mb_state (mbs st ! unat mb_idx) = FLEXCAN_MB_IDLE then FLEXCAN_STATUS_SUCCESS else FLEXCAN_STATUS_BUSY)
          else Inl OutOfBounds
     else Inr (if enhanced_state st = FLEXCAN_MB_IDLE then FLEXCAN_STATUS_SUCCESS else FLEXCAN_STATUS_BUSY)))"

section \<open>Completion\<close>

text \<open>
  \<open>cb\<close> is the installed callback. \<open>local\<close> is the address of the handler's own message variable, registered when the
  buffer has no message. The reads that lock and unlock a message buffer have no effect on the modelled state.
\<close>

type_synonym 'a can_callback = "u8 \<Rightarrow> Flexcan_Ip_EventType \<Rightarrow> u32 \<Rightarrow> 'a can_dev_scheme \<Rightarrow> 'a can_dev_scheme res"

definition run_callback :: "'a can_callback \<Rightarrow> u8 \<Rightarrow> Flexcan_Ip_EventType \<Rightarrow> u32 \<Rightarrow> 'a can_dev_scheme \<Rightarrow> 'a can_dev_scheme res" where
  "run_callback cb i ev mb d = with_instance i d (\<lambda>st. if has_callback st then cb i ev mb d else Inr d)"

definition FlexCAN_IRQHandlerRxMB :: "'a can_callback \<Rightarrow> u32 \<Rightarrow> u8 \<Rightarrow> u32 \<Rightarrow> 'a can_dev_scheme \<Rightarrow> 'a can_dev_scheme res" where
  "FlexCAN_IRQHandlerRxMB cb local i mb_idx d =
    with_instance i d (\<lambda>st.
    if \<not> unat mb_idx < length (mbs st) then Inl OutOfBounds
    else let k = unat mb_idx;
             p = (if pMBmessage (mbs st ! k) = 0 then local else pMBmessage (mbs st ! k));
             was_polling = isPolling (mbs st ! k);
             d1 = d\<lparr>msg_at := (msg_at d)(p := FlexCAN_GetMsgBuff (can_hw d i) mb_idx (msg_at d p))\<rparr>;
             d2 = upd_mb i k (\<lambda>m. m\<lparr>pMBmessage := p, mb_state := FLEXCAN_MB_IDLE\<rparr>)
                    (upd_hw i (FlexCAN_ClearMsgBuffIntStatusFlag mb_idx) d1)
         in rbind (run_callback cb i FLEXCAN_EVENT_RX_COMPLETE mb_idx d2) (\<lambda>d3.
            with_instance i d3 (\<lambda>st3.
            if \<not> k < length (mbs st3) then Inl OutOfBounds
            else let m = mbs st3 ! k
                 in if mb_state m = FLEXCAN_MB_IDLE \<and> \<not> isPolling m
                    then Inr (set_int_cmd i mb_idx False (isIntActive st3) (upd_mb i k (\<lambda>m. m\<lparr>isPolling := True\<rparr>) d3))
                    else if \<not> was_polling \<and> isPolling m then Inr (set_int_cmd i mb_idx False (isIntActive st3) d3)
                    else Inr d3)))"

text \<open>The part that the transmit interrupt handler and the polling function share: time stamp, flag and state.\<close>

definition tx_complete :: "u8 \<Rightarrow> u32 \<Rightarrow> Flexcan_Ip_StateType \<Rightarrow> 'a can_dev_scheme \<Rightarrow> 'a can_dev_scheme" where
  "tx_complete i mb_idx st d =
    (let k = unat mb_idx; hw = can_hw d i
     in if isRemote (mbs st ! k)
        then let m = FlexCAN_GetMsgBuff hw mb_idx \<lparr>msg_cs = 0, msgId = 0, msg_data = replicate 64 0, dataLen = 0, id_hit = 0, time_stamp = 0\<rparr>;
                 d1 = upd_mb i k (\<lambda>h. h\<lparr>mb_time_stamp := time_stamp m, mb_state := FLEXCAN_MB_IDLE\<rparr>) d
             in if drop_bit 24 (msg_cs m AND FLEXCAN_IP_CS_CODE_MASK) = FLEXCAN_RX_EMPTY
                then upd_hw i (FlexCAN_ClearMsgBuffIntStatusFlag mb_idx) d1 else d1
        else upd_hw i (FlexCAN_ClearMsgBuffIntStatusFlag mb_idx)
               (upd_mb i k (\<lambda>h. h\<lparr>mb_time_stamp := FlexCAN_GetMsgBuffTimestamp hw mb_idx, mb_state := FLEXCAN_MB_IDLE\<rparr>) d))"

definition FlexCAN_IRQHandlerTxMB :: "'a can_callback \<Rightarrow> u8 \<Rightarrow> u32 \<Rightarrow> 'a can_dev_scheme \<Rightarrow> 'a can_dev_scheme res" where
  "FlexCAN_IRQHandlerTxMB cb i mb_idx d =
    with_instance i d (\<lambda>st.
    if \<not> unat mb_idx < length (mbs st) then Inl OutOfBounds
    else let k = unat mb_idx
         in rbind (run_callback cb i FLEXCAN_EVENT_TX_COMPLETE mb_idx (tx_complete i mb_idx st d)) (\<lambda>d1.
            with_instance i d1 (\<lambda>st1.
            if \<not> k < length (mbs st1) then Inl OutOfBounds
            else if mb_state (mbs st1 ! k) = FLEXCAN_MB_IDLE
            then Inr (set_int_cmd i mb_idx False (isIntActive st1) (upd_mb i k (\<lambda>m. m\<lparr>isPolling := True\<rparr>) d1))
            else if isPolling (mbs st1 ! k) then Inr (set_int_cmd i mb_idx False (isIntActive st1) d1)
            else Inr d1)))"

text \<open>
  Polling. \<open>legacy\<close> and the second component of \<open>enhanced\<close> stand for the handlers of the two receive FIFOs, which are
  called only when the corresponding FIFO is in use and has a frame; the configuration of the gateway uses neither.
\<close>

definition FlexCAN_Ip_MainFunctionRead ::
  "('a can_dev_scheme \<Rightarrow> 'a can_dev_scheme res) \<Rightarrow> (u32 \<times> nat) \<times> ('a can_dev_scheme \<Rightarrow> 'a can_dev_scheme res) \<Rightarrow> 'a can_callback \<Rightarrow> u32 \<Rightarrow>
   u8 \<Rightarrow> u8 \<Rightarrow> 'a can_dev_scheme \<Rightarrow> 'a can_dev_scheme res" where
  "FlexCAN_Ip_MainFunctionRead legacy enhanced cb local i mb_idx d =
    (if \<not> i < FLEXCAN_INSTANCE_COUNT then Inl OutOfBounds
     else dev_assert (unat mb_idx < FLEXCAN_IP_FEATURE_MAX_MB_NUM \<or> mb_idx = 255)
    (if mb_idx = 255
     then if FlexCAN_IsEnhancedRxFifoAvailable i \<and> FlexCAN_IsEnhancedRxFifoEnabled (fst enhanced) (can_hw d i) \<and>
             FlexCAN_GetEnhancedRxFIFOStatusFlag (can_hw d i) 28 \<noteq> 0
          then snd enhanced d else Inr d
     else with_instance i d (\<lambda>st.
       if bIsLegacyFifoEn st \<and> mb_idx \<le> 7
       then if mb_idx = 0 \<and> FlexCAN_GetBuffStatusFlag (can_hw d i) 5 \<noteq> 0 then legacy d else Inr d
       else if FlexCAN_GetBuffStatusFlag (can_hw d i) (ucast mb_idx) \<noteq> 0
       then if \<not> unat mb_idx < length (mbs st) then Inl OutOfBounds
            else if mb_state (mbs st ! unat mb_idx) = FLEXCAN_MB_RX_BUSY then FlexCAN_IRQHandlerRxMB cb local i (ucast mb_idx) d
            else Inr d
       else Inr d)))"

definition FlexCAN_Ip_MainFunctionWrite :: "'a can_callback \<Rightarrow> u8 \<Rightarrow> u8 \<Rightarrow> 'a can_dev_scheme \<Rightarrow> 'a can_dev_scheme res" where
  "FlexCAN_Ip_MainFunctionWrite cb i mb_idx d =
    (if \<not> i < FLEXCAN_INSTANCE_COUNT then Inl OutOfBounds
     else if FlexCAN_GetBuffStatusFlag (can_hw d i) (ucast mb_idx) \<noteq> 0
     then with_instance i d (\<lambda>st.
       if \<not> unat mb_idx < length (mbs st) then Inl OutOfBounds
       else if mb_state (mbs st ! unat mb_idx) = FLEXCAN_MB_TX_BUSY
       then run_callback cb i FLEXCAN_EVENT_TX_COMPLETE (ucast mb_idx) (tx_complete i (ucast mb_idx) st d)
       else Inr d)
     else Inr d)"

lemma upd_hw_sel [simp]:
  "can_hw (upd_hw i f d) = (can_hw d)(i := f (can_hw d i))" "can_state (upd_hw i f d) = can_state d"
  "imask_buff (upd_hw i f d) = imask_buff d" "msg_at (upd_hw i f d) = msg_at d" "can_dev.more (upd_hw i f d) = can_dev.more d"
  by (simp_all add: upd_hw_def)

lemma upd_mb_sel [simp]:
  "can_hw (upd_mb i k f d) = can_hw d" "imask_buff (upd_mb i k f d) = imask_buff d" "msg_at (upd_mb i k f d) = msg_at d"
  "can_dev.more (upd_mb i k f d) = can_dev.more d"
  "can_state (upd_mb i k f d) = (can_state d)(i := map_option (\<lambda>st. st\<lparr>mbs := (mbs st)[k := f (mbs st ! k)]\<rparr>) (can_state d i))"
  by (simp_all add: upd_mb_def)

lemma with_instance_at: "i < FLEXCAN_INSTANCE_COUNT \<Longrightarrow> can_state d i = Some st \<Longrightarrow> with_instance i d f = f st"
  by (simp add: with_instance_def)

lemma GetBuffStatusFlag_iff:
  assumes "length (IFLAG hw) = 4"
  shows "FlexCAN_GetBuffStatusFlag hw mb \<noteq> 0 \<longleftrightarrow> bit (IFLAG hw ! reg_of mb) (unat (mb mod 32))"
proof -
  let ?k = "unat (mb mod 32)" and ?x = "IFLAG hw ! reg_of mb"
  have "unat (mb mod 32) = unat mb mod 32" by (simp add: unat_mod)
  then have k: "?k < 32" by simp
  have e: "FlexCAN_GetBuffStatusFlag hw mb = (if bit ?x ?k then 1 else 0)"
    unfolding FlexCAN_GetBuffStatusFlag_def mb_bit_def
    by (rule bit_word_eqI) (use k in \<open>auto simp: bit_simps intro!: gr0I\<close>)
  then show ?thesis by simp
qed


section \<open>Lemmas\<close>

text \<open>A message buffer that the driver accepts: in range, with a callback installed, and no legacy FIFO in the way.\<close>

definition mb_ready :: "u8 \<Rightarrow> u8 \<Rightarrow> 'a can_dev_scheme \<Rightarrow> bool" where
  "mb_ready i mb d \<longleftrightarrow> i < FLEXCAN_INSTANCE_COUNT \<and> unat mb < FLEXCAN_IP_FEATURE_MAX_MB_NUM \<and>
    (\<exists>st. can_state d i = Some st \<and> \<not> bIsLegacyFifoEn st \<and> mb < ucast (u32MaxMbNum st) \<and> unat mb < length (mbs st) \<and> has_callback st)"

definition mb_of :: "u8 \<Rightarrow> u8 \<Rightarrow> 'a can_dev_scheme \<Rightarrow> Flexcan_Ip_MBhandleType" where
  "mb_of i mb d = mbs (the (can_state d i)) ! unat mb"

lemma receive_idle:
  assumes "mb_ready i mb d" "mb_state (mb_of i mb d) = FLEXCAN_MB_IDLE"
  shows "FlexCAN_Ip_Receive i mb p True d =
    Inr (upd_mb i (unat mb) (\<lambda>m. m\<lparr>mb_state := FLEXCAN_MB_RX_BUSY, pMBmessage := p, isPolling := True\<rparr>) d, FLEXCAN_STATUS_SUCCESS)"
  using assms
  by (auto simp: FlexCAN_Ip_Receive_def FlexCAN_StartRxMessageBufferData_def mb_ready_def mb_of_def with_instance_at
    FlexCAN_IsMbOutOfRange_def)

lemma receive_busy:
  assumes "mb_ready i mb d" "mb_state (mb_of i mb d) \<noteq> FLEXCAN_MB_IDLE"
  shows "FlexCAN_Ip_Receive i mb p polling d = Inr (d, FLEXCAN_STATUS_BUSY)"
  using assms
  by (auto simp: FlexCAN_Ip_Receive_def FlexCAN_StartRxMessageBufferData_def mb_ready_def mb_of_def with_instance_at
    FlexCAN_IsMbOutOfRange_def)

text \<open>Polling a message buffer with a received frame: the message is read and the callback runs; when it arms the buffer again, the state it leaves is final.\<close>

definition read_into :: "u8 \<Rightarrow> u8 \<Rightarrow> 'a can_dev_scheme \<Rightarrow> 'a can_dev_scheme" where
  "read_into i mb d =
    (let p = pMBmessage (mb_of i mb d)
     in upd_mb i (unat mb) (\<lambda>m. m\<lparr>pMBmessage := p, mb_state := FLEXCAN_MB_IDLE\<rparr>)
          (upd_hw i (FlexCAN_ClearMsgBuffIntStatusFlag (ucast mb))
            (d\<lparr>msg_at := (msg_at d)(p := FlexCAN_GetMsgBuff (can_hw d i) (ucast mb) (msg_at d p))\<rparr>)))"

lemma unat_ucast_u8_u32 [simp]: "unat (ucast x :: u32) = unat x" for x :: u8
  by (rule unat_ucast_up) simp

lemma poll_flagged:
  assumes r: "mb_ready i mb d" and busy: "mb_state (mb_of i mb d) = FLEXCAN_MB_RX_BUSY" and p: "pMBmessage (mb_of i mb d) \<noteq> 0"
    and flag: "FlexCAN_GetBuffStatusFlag (can_hw d i) (ucast mb) \<noteq> 0"
    and cb: "cb i FLEXCAN_EVENT_RX_COMPLETE (ucast mb) (read_into i mb d) = Inr d3"
    and after: "mb_ready i mb d3" "mb_state (mb_of i mb d3) = FLEXCAN_MB_RX_BUSY" "isPolling (mb_of i mb d3)" "isPolling (mb_of i mb d)"
  shows "FlexCAN_Ip_MainFunctionRead legacy enhanced cb local i mb d = Inr d3"
proof -
  have i: "i < FLEXCAN_INSTANCE_COUNT" using r by (simp add: mb_ready_def)
  obtain st where st: "can_state d i = Some st" "\<not> bIsLegacyFifoEn st" "unat mb < length (mbs st)" "has_callback st" "mbs st ! unat mb = mb_of i mb d"
    using r by (auto simp: mb_ready_def mb_of_def)
  obtain st3 where st3: "can_state d3 i = Some st3" "unat mb < length (mbs st3)" "mbs st3 ! unat mb = mb_of i mb d3"
    using after(1) by (auto simp: mb_ready_def mb_of_def)
  have mb: "unat mb < FLEXCAN_IP_FEATURE_MAX_MB_NUM" "mb \<noteq> 255" using r by (auto simp: mb_ready_def)
  have rd: "can_state (read_into i mb d) i = Some (st\<lparr>mbs := (mbs st)[unat mb := (mb_of i mb d)\<lparr>mb_state := FLEXCAN_MB_IDLE\<rparr>]\<rparr>)"
    by (simp add: read_into_def Let_def st)
  have "run_callback cb i FLEXCAN_EVENT_RX_COMPLETE (ucast mb) (read_into i mb d) = Inr d3"
    unfolding run_callback_def with_instance_at [OF i rd] by (simp add: st(4) cb)
  then have "FlexCAN_IRQHandlerRxMB cb local i (ucast mb) d = Inr d3"
    using p after(2,3,4) st(3,5) st3(2,3)
    unfolding FlexCAN_IRQHandlerRxMB_def with_instance_at [OF i st(1)]
    by (simp add: Let_def with_instance_at [OF i st3(1)] read_into_def)
  then show ?thesis
    using mb flag busy st by (simp add: FlexCAN_Ip_MainFunctionRead_def i with_instance_at)
qed

lemma poll_unflagged:
  assumes "mb_ready i mb d" "FlexCAN_GetBuffStatusFlag (can_hw d i) (ucast mb) = 0"
  shows "FlexCAN_Ip_MainFunctionRead legacy enhanced cb local i mb d = Inr d"
  using assms by (auto simp: FlexCAN_Ip_MainFunctionRead_def mb_ready_def with_instance_at)

text \<open>Clearing the flag of a message buffer clears no other flag.\<close>

lemma reg_of_div: "unat mb < 128 \<Longrightarrow> reg_of mb = unat mb div 32"
  by (auto simp: reg_of_def word_less_nat_alt)

lemma unat_mod_32: "unat (mb mod 32) = unat mb mod 32" for mb :: u32
  by (simp add: unat_mod)

lemma clear_flag_same:
  assumes "length (IFLAG hw) = 4"
  shows "FlexCAN_GetBuffStatusFlag (FlexCAN_ClearMsgBuffIntStatusFlag mb hw) mb = 0"
proof -
  have "length (IFLAG (FlexCAN_ClearMsgBuffIntStatusFlag mb hw)) = 4" using assms by (simp add: FlexCAN_ClearMsgBuffIntStatusFlag_def)
  moreover have "reg_of mb < length (IFLAG hw)" using assms by (simp add: reg_of_def)
  ultimately show ?thesis
    using GetBuffStatusFlag_iff [of "FlexCAN_ClearMsgBuffIntStatusFlag mb hw" mb]
    by (auto simp: FlexCAN_ClearMsgBuffIntStatusFlag_def mb_bit_def bit_simps)
qed

lemma clear_flag_other:
  assumes "unat mb < 128" "unat mb' < 128" "mb \<noteq> mb'" "length (IFLAG hw) = 4"
  shows "FlexCAN_GetBuffStatusFlag (FlexCAN_ClearMsgBuffIntStatusFlag mb hw) mb' = FlexCAN_GetBuffStatusFlag hw mb'"
proof (cases "reg_of mb = reg_of mb'")
  case True
  have "unat mb \<noteq> unat mb'" using assms(3) by (simp add: word_unat_eq_iff)
  with True have ne: "unat (mb mod 32) \<noteq> unat (mb' mod 32)"
    unfolding reg_of_div [OF assms(1)] reg_of_div [OF assms(2)] unat_mod_32 by (metis div_mult_mod_eq)
  have r: "reg_of mb' < length (IFLAG hw)" using assms by (simp add: reg_of_def)
  have "(IFLAG hw ! reg_of mb' AND NOT (mb_bit mb)) AND mb_bit mb' = IFLAG hw ! reg_of mb' AND mb_bit mb'"
    using ne by (intro bit_word_eqI) (auto simp: mb_bit_def bit_simps)
  then show ?thesis using True r by (simp add: FlexCAN_GetBuffStatusFlag_def FlexCAN_ClearMsgBuffIntStatusFlag_def)
next
  case False
  then show ?thesis by (simp add: FlexCAN_GetBuffStatusFlag_def FlexCAN_ClearMsgBuffIntStatusFlag_def)
qed

lemma clear_flag_frame [simp]:
  "can_ram (FlexCAN_ClearMsgBuffIntStatusFlag mb hw) = can_ram hw" "FDCTRL (FlexCAN_ClearMsgBuffIntStatusFlag mb hw) = FDCTRL hw"
  "length (IFLAG (FlexCAN_ClearMsgBuffIntStatusFlag mb hw)) = length (IFLAG hw)"
  by (simp_all add: FlexCAN_ClearMsgBuffIntStatusFlag_def)

end
