(* ===== verification/Can_Bus.thy ===== *)
theory Can_Bus
  imports Flexcan_Drv
begin

text \<open>
  What the CAN controllers do between two accesses of the driver, as the environment of the driver model: a received
  frame is stored in the words of its message buffer and raises the flag of the buffer; a message buffer is
  transmitted when its code field says so, which makes the buffer inactive and raises its flag.
\<close>

section \<open>Flags\<close>

definition raise_flag :: "u32 \<Rightarrow> flexcan_hw \<Rightarrow> flexcan_hw" where
  "raise_flag mb hw = hw\<lparr>IFLAG := (IFLAG hw)[reg_of mb := IFLAG hw ! reg_of mb OR mb_bit mb]\<rparr>"

lemma raise_flag_frame [simp]:
  "can_ram (raise_flag mb hw) = can_ram hw" "FDCTRL (raise_flag mb hw) = FDCTRL hw" "CAN_CTRL1 (raise_flag mb hw) = CAN_CTRL1 hw"
  "length (IFLAG (raise_flag mb hw)) = length (IFLAG hw)"
  by (simp_all add: raise_flag_def)

lemma raise_flag_same:
  assumes "length (IFLAG hw) = 4"
  shows "FlexCAN_GetBuffStatusFlag (raise_flag mb hw) mb \<noteq> 0"
proof -
  have "reg_of mb < length (IFLAG hw)" using assms by (simp add: reg_of_def)
  moreover have "unat (mb mod 32) < 32" unfolding unat_mod_32 by simp
  moreover have "length (IFLAG (raise_flag mb hw)) = 4" using assms by simp
  ultimately show ?thesis unfolding GetBuffStatusFlag_iff [OF \<open>length (IFLAG (raise_flag mb hw)) = 4\<close>]
    by (simp add: raise_flag_def mb_bit_def bit_simps)
qed

lemma reg_bit_inj:
  assumes "unat mb < 128" "unat mb' < 128" "mb \<noteq> mb'" "reg_of mb = reg_of mb'"
  shows "unat (mb mod 32) \<noteq> unat (mb' mod 32)"
proof -
  have "unat mb \<noteq> unat mb'" using assms(3) by (simp add: word_unat_eq_iff)
  with assms(4) show ?thesis
    unfolding reg_of_div [OF assms(1)] reg_of_div [OF assms(2)] unat_mod_32 by (metis div_mult_mod_eq)
qed

lemma raise_flag_other:
  assumes "unat mb < 128" "unat mb' < 128" "mb \<noteq> mb'" "length (IFLAG hw) = 4"
  shows "FlexCAN_GetBuffStatusFlag (raise_flag mb hw) mb' = FlexCAN_GetBuffStatusFlag hw mb'"
proof (cases "reg_of mb = reg_of mb'")
  case True
  have ne: "unat (mb mod 32) \<noteq> unat (mb' mod 32)" by (rule reg_bit_inj [OF assms(1-3) True])
  have r: "reg_of mb' < length (IFLAG hw)" using assms by (simp add: reg_of_def)
  have "(IFLAG hw ! reg_of mb' OR mb_bit mb) AND mb_bit mb' = IFLAG hw ! reg_of mb' AND mb_bit mb'"
    using ne by (intro bit_word_eqI) (auto simp: mb_bit_def bit_simps)
  then show ?thesis using True r by (simp add: FlexCAN_GetBuffStatusFlag_def raise_flag_def)
next
  case False
  then show ?thesis by (simp add: FlexCAN_GetBuffStatusFlag_def raise_flag_def)
qed

section \<open>Reception\<close>

text \<open>A frame as the controller stores it: the words of the message buffer, counted from its first one.\<close>

type_synonym can_words = "nat \<Rightarrow> u32"

definition store_frame :: "u32 \<Rightarrow> can_words \<Rightarrow> flexcan_hw \<Rightarrow> flexcan_hw" where
  "store_frame mb fr hw =
    (let a = FlexCAN_GetMsgBuffRegion hw mb; n = 2 + unat (FlexCAN_GetMbPayloadSize hw mb) div 4
     in hw\<lparr>can_ram := (\<lambda>x. if a \<le> x \<and> x < a + n then fr (x - a) else can_ram hw x)\<rparr>)"

definition receive_frame :: "(u8 \<times> u8) \<times> can_words \<Rightarrow> (u8 \<Rightarrow> flexcan_hw) \<Rightarrow> u8 \<Rightarrow> flexcan_hw" where
  "receive_frame a h = (case a of ((i, mb), fr) \<Rightarrow> h(i := raise_flag (ucast mb) (store_frame (ucast mb) fr (h i))))"

text \<open>The message that the driver reads from a message buffer in which a frame was stored.\<close>

definition frame_msg :: "flexcan_hw \<Rightarrow> u32 \<Rightarrow> can_words \<Rightarrow> Flexcan_Ip_MsgBuffType \<Rightarrow> Flexcan_Ip_MsgBuffType" where
  "frame_msg hw mb fr m = FlexCAN_GetMsgBuff (store_frame mb fr hw) mb m"

lemma store_frame_sel [simp]:
  "FDCTRL (store_frame mb fr hw) = FDCTRL hw" "IFLAG (store_frame mb fr hw) = IFLAG hw"
  "FlexCAN_GetBuffStatusFlag (store_frame mb fr hw) x = FlexCAN_GetBuffStatusFlag hw x"
  by (simp_all add: store_frame_def Let_def FlexCAN_GetBuffStatusFlag_def)

lemma store_frame_words:
  "can_ram (store_frame mb fr hw) x = (if x \<in> mb_words hw mb then fr (x - FlexCAN_GetMsgBuffRegion hw mb) else can_ram hw x)"
  by (simp add: store_frame_def Let_def mb_words_def add.assoc)

lemma mb_words_cong: "FDCTRL hw' = FDCTRL hw \<Longrightarrow> mb_words hw' mb = mb_words hw mb"
  by (simp only: mb_words_def layout_cong [of hw' hw])

lemma frame_msg_cong:
  assumes "FDCTRL hw' = FDCTRL hw" "length (msg_data m) = 64"
  shows "frame_msg hw' mb fr m = frame_msg hw mb fr m"
  unfolding frame_msg_def
proof (rule get_msg_cong)
  fix x assume "x \<in> mb_words (store_frame mb fr hw) mb"
  then have "x \<in> mb_words hw mb" unfolding mb_words_cong [OF store_frame_sel(1)] .
  then show "can_ram (store_frame mb fr hw') x = can_ram (store_frame mb fr hw) x"
    unfolding store_frame_words mb_words_cong [OF assms(1)] layout_cong(1) [OF assms(1)] by simp
qed (simp_all add: assms)

lemma receive_read:
  assumes "length (msg_data m) = 64"
  shows "FlexCAN_GetMsgBuff (raise_flag mb (store_frame mb fr hw)) mb m = frame_msg hw mb fr m"
  unfolding frame_msg_def using assms by (intro get_msg_cong) simp_all

lemma receive_read_other:
  assumes "mb \<noteq> mb'" "unat mb < 128" "unat mb' < 128" "length (msg_data m) = 64"
  shows "FlexCAN_GetMsgBuff (raise_flag mb (store_frame mb fr hw)) mb' m = FlexCAN_GetMsgBuff hw mb' m"
proof (rule get_msg_cong)
  fix x assume "x \<in> mb_words hw mb'"
  then have "x \<notin> mb_words hw mb" using mb_words_disjoint [of mb mb' hw] assms by auto
  then show "can_ram (raise_flag mb (store_frame mb fr hw)) x = can_ram hw x" by (simp add: store_frame_words)
qed (simp_all add: assms)

lemma receive_frame_at: "receive_frame ((i, mb), fr) h j = (if j = i then raise_flag (ucast mb) (store_frame (ucast mb) fr (h i)) else h j)"
  by (simp add: receive_frame_def)

lemma receive_frames_keep:
  "FDCTRL (fold receive_frame as h i) = FDCTRL (h i)" "length (IFLAG (fold receive_frame as h i)) = length (IFLAG (h i))"
  by (induction as arbitrary: h) (auto simp: receive_frame_at split: if_splits)

section \<open>Transmission\<close>

text \<open>A frame on the bus, as the controller takes it from an active message buffer.\<close>

record bus_frame =
  bus_id :: u32
  bus_ext :: bool
  bus_fd :: bool
  bus_brs :: bool
  bus_data :: "u8 list"

definition zero_msg :: Flexcan_Ip_MsgBuffType where
  "zero_msg = \<lparr>msg_cs = 0, msgId = 0, msg_data = replicate 64 0, dataLen = 0, id_hit = 0, time_stamp = 0\<rparr>"

definition bus_frame_of :: "flexcan_hw \<Rightarrow> u32 \<Rightarrow> bus_frame" where
  "bus_frame_of hw mb =
    (let m = FlexCAN_GetMsgBuff hw mb zero_msg
     in \<lparr>bus_id = msgId m, bus_ext = (msg_cs m AND FLEXCAN_IP_CS_IDE_MASK \<noteq> 0), bus_fd = (msg_cs m AND FLEXCAN_IP_MB_EDL_MASK \<noteq> 0),
         bus_brs = (msg_cs m AND FLEXCAN_IP_MB_BRS_MASK \<noteq> 0), bus_data = take (unat (dataLen m)) (msg_data m)\<rparr>)"

definition mb_code :: "flexcan_hw \<Rightarrow> u32 \<Rightarrow> u32" where
  "mb_code hw mb = drop_bit 24 (can_ram hw (FlexCAN_GetMsgBuffRegion hw mb) AND FLEXCAN_IP_CS_CODE_MASK)"

definition set_code :: "u32 \<Rightarrow> u32 \<Rightarrow> flexcan_hw \<Rightarrow> flexcan_hw" where
  "set_code mb code hw =
    (let a = FlexCAN_GetMsgBuffRegion hw mb
     in ram_write a ((can_ram hw a AND NOT FLEXCAN_IP_CS_CODE_MASK) OR (push_bit 24 code AND FLEXCAN_IP_CS_CODE_MASK)) hw)"

text \<open>One opportunity to transmit a message buffer: only an active one is sent.\<close>

definition bus_step :: "u32 \<Rightarrow> flexcan_hw \<Rightarrow> bus_frame list \<times> flexcan_hw" where
  "bus_step mb hw =
    (if mb_code hw mb = FLEXCAN_TX_DATA then ([bus_frame_of hw mb], raise_flag mb (set_code mb FLEXCAN_TX_INACTIVE hw)) else ([], hw))"

lemma set_code_sel [simp]:
  "FDCTRL (set_code mb c hw) = FDCTRL hw" "IFLAG (set_code mb c hw) = IFLAG hw" "CAN_CTRL1 (set_code mb c hw) = CAN_CTRL1 hw"
  by (simp_all add: set_code_def Let_def ram_write_def)

end
