(* ===== verification/Gw_Can.thy ===== *)
theory Gw_Can
  imports Gw_System Can_Bus
begin

text \<open>
  The CAN side of the gateway (\<open>FlexCAN_SKKU.c\<close>): the receive callback, the polling task and the cyclic transmit
  task, on top of the driver of \<open>Flexcan_Drv\<close> and in front of the queue of \<open>Gw_System\<close>. A polling round is
  refined by an abstract description of what it offers to the queue, and every offer is an event of the gateway system.
  Rounds of the tasks alternate with steps of the controllers of \<open>Can_Bus\<close> on the same registers and message RAM.
\<close>

section \<open>The CAN side of the application\<close>

text \<open>The devices and messages of the driver together with the gateway behind the queue.\<close>

record can_sys = can_dev +
  can_gw :: gateway

text \<open>
  The callback. \<open>rx\<close> is the address of the global message \<open>rxData\<close>; \<open>pad\<close> are the padding bytes of that structure.
\<close>

definition CAN0_Callback_SKKU :: "u8 list \<Rightarrow> u32 \<Rightarrow> u8 \<Rightarrow> Flexcan_Ip_EventType \<Rightarrow> u32 \<Rightarrow> can_sys \<Rightarrow> can_sys res" where
  "CAN0_Callback_SKKU pad rx i ev buffIdx d =
    (if ev = FLEXCAN_EVENT_RX_COMPLETE
     then rbind (if i = 0 then FlexCAN_Ip_Receive 0 (ucast buffIdx) rx True d
                 else if i = 1 then FlexCAN_Ip_Receive 1 (ucast buffIdx) rx True d
                 else Inr (d, FLEXCAN_STATUS_SUCCESS)) (\<lambda>(d1, _).
          rbind (callback_enqueue pad (msg_at d1 rx) (can_gw d1)) (\<lambda>(w, _). Inr (d1\<lparr>can_gw := w\<rparr>)))
     else Inr d)"

text \<open>A loop over a list whose body may fail.\<close>

fun rfold :: "('a \<Rightarrow> 's \<Rightarrow> 's res) \<Rightarrow> 'a list \<Rightarrow> 's \<Rightarrow> 's res" where
  "rfold f [] s = Inr s"
| "rfold f (x # xs) s = rbind (f x s) (rfold f xs)"

record CanRxTaskParam_t =
  rxp_instance :: u8
  mb_list :: "u8 list list"
  mb_count :: u8
  poll_delay_ticks :: u32

text \<open>
  The nested loops over the two instances and the configured buffers visit these pairs of indices. The start of the
  task arms each buffer with an element of the local array \<open>rxShadow\<close> of 80-byte messages; one round of its endless
  loop polls every buffer. The delay between rounds is left to the scheduler.
\<close>

definition poll_slots :: "CanRxTaskParam_t \<Rightarrow> (nat \<times> nat) list" where
  "poll_slots p = List.product [0..<2] [0..<unat (mb_count p)]"

definition CAN_Receive_Polling_Task_init :: "u32 \<Rightarrow> CanRxTaskParam_t \<Rightarrow> can_sys \<Rightarrow> can_sys res" where
  "CAN_Receive_Polling_Task_init rxShadow p d =
    (if \<not> mb_count p \<le> 4 then Inl OutOfBounds
     else rfold (\<lambda>(inst, i) d.
            rbind (FlexCAN_Ip_Receive (of_nat inst) (mb_list p ! inst ! i) (rxShadow + 80 * of_nat i) True d) (\<lambda>(d', _). Inr d'))
          (poll_slots p) d)"

definition CAN_Receive_Polling_Task_pass ::
  "(can_sys \<Rightarrow> can_sys res) \<Rightarrow> (u32 \<times> nat) \<times> (can_sys \<Rightarrow> can_sys res) \<Rightarrow> u8 list \<Rightarrow> u32 \<Rightarrow> u32 \<Rightarrow> CanRxTaskParam_t \<Rightarrow> can_sys \<Rightarrow> can_sys res" where
  "CAN_Receive_Polling_Task_pass legacy enhanced pad rx local p d =
    (if \<not> mb_count p \<le> 4 then Inl OutOfBounds
     else rfold (\<lambda>(inst, i). FlexCAN_Ip_MainFunctionRead legacy enhanced (CAN0_Callback_SKKU pad rx) local (of_nat inst) (mb_list p ! inst ! i))
          (poll_slots p) d)"

text \<open>The parameters that \<open>start_CAN\<close> passes.\<close>

definition start_CAN_rxp :: CanRxTaskParam_t where
  "start_CAN_rxp = \<lparr>rxp_instance = 0, mb_list = [[0, 1, 0, 0], [0, 1, 0, 0]], mb_count = 2, poll_delay_ticks = 1\<rparr>"

text \<open>One round of the cyclic transmit task, on its counter and the system.\<close>

record CanTxTaskParam_t =
  mbIdx :: u8
  canId :: u32
  periodMs :: u32
  offsetMs :: u32

definition tx_info :: Flexcan_Ip_DataInfoType where
  "tx_info = \<lparr>msg_id_type = FLEXCAN_MSG_ID_STD, data_length = 64, fd_enable = True, fd_padding = 1, enable_brs = True,
    is_remote = False, is_polling = True\<rparr>"

definition CAN_SendTask_Generic_pass ::
  "u8 list \<Rightarrow> u32 \<Rightarrow> CanTxTaskParam_t \<Rightarrow> u32 \<times> can_sys \<Rightarrow> (u32 \<times> can_sys) res" where
  "CAN_SendTask_Generic_pass pad rx p cd =
    (case cd of (counter, d) \<Rightarrow>
     rbind (FlexCAN_Ip_MainFunctionWrite (CAN0_Callback_SKKU pad rx) 0 (mbIdx p) d) (\<lambda>d1.
     rbind (FlexCAN_Ip_GetTransferStatus 0 (mbIdx p) d1) (\<lambda>st.
     if st = FLEXCAN_STATUS_BUSY then Inr (counter, d1)
     else let c = counter + 1; data = le32 c @ replicate 60 0
          in rbind (FlexCAN_Ip_Send 0 (mbIdx p) tx_info (canId p) (Some data) d1) (\<lambda>(d2, st2).
             let s = canStats (can_gw d2);
                 s' = (if st2 \<noteq> FLEXCAN_STATUS_SUCCESS then s\<lparr>txErrCount := txErrCount s + 1\<rparr> else s\<lparr>txCount := txCount s + 1\<rparr>)
             in Inr (c, d2\<lparr>can_gw := (can_gw d2)\<lparr>canStats := s'\<rparr>\<rparr>)))))"

section \<open>What polling does, abstractly\<close>

text \<open>
  A mailbox is an instance and a buffer index. \<open>pend\<close> are the I-PDUs of the frames waiting in the mailboxes,
  \<open>primed\<close> the mailboxes whose handle points to the global message, \<open>v\<close> the I-PDUs of the global message. Polling a
  primed mailbox refreshes the global message before offering it; polling another one offers the old value.
\<close>

type_synonym mbox = "u8 \<times> u8"

fun abs_poll :: "(mbox \<Rightarrow> ipdu list option) \<Rightarrow> (mbox \<Rightarrow> bool) \<Rightarrow> mbox list \<Rightarrow> ipdu list \<Rightarrow> ipdu list \<times> ipdu list list" where
  "abs_poll pend primed [] v = (v, [])"
| "abs_poll pend primed (x # xs) v =
    (case pend x of
       None \<Rightarrow> abs_poll pend primed xs v
     | Some f \<Rightarrow> let v' = (if primed x then f else v); r = abs_poll pend primed xs v' in (fst r, v' # snd r))"

text \<open>The queue takes an offer as long as it has room.\<close>

definition offer :: "nat \<Rightarrow> ipdu list list \<Rightarrow> ipdu list \<Rightarrow> ipdu list list" where
  "offer cap q x = (if length q < cap then q @ [x] else q)"

definition pending :: "(u8 \<Rightarrow> flexcan_hw) \<Rightarrow> mbox \<Rightarrow> ipdu list option" where
  "pending h x = (case x of (i, mb) \<Rightarrow>
    if FlexCAN_GetBuffStatusFlag (h i) (ucast mb) \<noteq> 0 then Some (ipdus_of (FlexCAN_GetMsgBuff (h i) (ucast mb) zero_msg)) else None)"

lemma read_msg_ok:
  assumes "length (msg_data m) = 64"
  shows "msg_ok (FlexCAN_GetMsgBuff hw mb m)" "ipdus_of (FlexCAN_GetMsgBuff hw mb m) = ipdus_of (FlexCAN_GetMsgBuff hw mb zero_msg)"
proof -
  define P where "P = FlexCAN_GetMbPayloadSize hw mb"
  define q where "q = FlexCAN_ComputePayloadSize (ucast (drop_bit 16 (can_ram hw (FlexCAN_GetMsgBuffRegion hw mb) AND FLEXCAN_IP_CS_DLC_MASK)))"
  define n where "n = (if q > P then P else q)"
  have "n \<le> P" by (simp add: n_def not_less)
  moreover have "unat P \<le> 64" unfolding P_def using mb_payload_div4 [of hw mb] by auto
  ultimately have n: "unat n \<le> 64" by (simp add: word_le_nat_alt)
  have r: "dataLen (FlexCAN_GetMsgBuff hw mb m) = n" "msg_data (FlexCAN_GetMsgBuff hw mb m) = mb_bytes hw (FlexCAN_GetMsgBuffRegion hw mb + 2) (unat n) @ drop (unat n) (msg_data m)"
    if "length (msg_data m) = 64" for m
    unfolding FlexCAN_GetMsgBuff_def Let_def P_def [symmetric] q_def [symmetric] n_def [symmetric]
    using n that by (simp_all add: get_data_eq)
  have i: "msgId (FlexCAN_GetMsgBuff hw mb m) = msgId (FlexCAN_GetMsgBuff hw mb zero_msg)"
    by (simp add: FlexCAN_GetMsgBuff_def Let_def)
  have z: "length (msg_data zero_msg) = 64" by (simp add: zero_msg_def)
  show "msg_ok (FlexCAN_GetMsgBuff hw mb m)" using n assms by (simp add: msg_ok_def r [OF assms])
  show "ipdus_of (FlexCAN_GetMsgBuff hw mb m) = ipdus_of (FlexCAN_GetMsgBuff hw mb zero_msg)"
    by (simp add: ipdus_of_def Let_def i r [OF assms] r [OF z])
qed

definition armed :: "can_sys \<Rightarrow> mbox \<Rightarrow> bool" where
  "armed d x \<longleftrightarrow> fst x < 2 \<and> mb_ready (fst x) (snd x) d \<and> mb_state (mb_of (fst x) (snd x) d) = FLEXCAN_MB_RX_BUSY \<and>
    isPolling (mb_of (fst x) (snd x) d) \<and> pMBmessage (mb_of (fst x) (snd x) d) \<noteq> 0"

definition polls_ok :: "u32 \<Rightarrow> mbox list \<Rightarrow> can_sys \<Rightarrow> bool" where
  "polls_ok rx xs d \<longleftrightarrow>
    rx \<noteq> 0 \<and> queue_ok (can_gw d) \<and> (\<forall>p. length (msg_data (msg_at d p)) = 64) \<and> msg_ok (msg_at d rx) \<and>
    (\<forall>i. length (IFLAG (can_hw d i)) = 4) \<and>
    (\<forall>x \<in> set xs. armed d x)"

definition primed_at :: "u32 \<Rightarrow> can_sys \<Rightarrow> mbox \<Rightarrow> bool" where
  "primed_at rx d x = (pMBmessage (mb_of (fst x) (snd x) d) = rx)"

text \<open>The state after a frame was taken: message read, flag cleared, mailbox armed with the global message, queue offered.\<close>

definition taken :: "u32 \<Rightarrow> u8 \<Rightarrow> u8 \<Rightarrow> gateway \<Rightarrow> can_sys \<Rightarrow> can_sys" where
  "taken rx i mb w d =
    (upd_mb i (unat mb) (\<lambda>m. m\<lparr>mb_state := FLEXCAN_MB_RX_BUSY, pMBmessage := rx, isPolling := True\<rparr>) (read_into i mb d))\<lparr>can_gw := w\<rparr>"

lemma read_into_sel [simp]:
  "can_hw (read_into i mb d) = (can_hw d)(i := FlexCAN_ClearMsgBuffIntStatusFlag (ucast mb) (can_hw d i))"
  "msg_at (read_into i mb d) = (msg_at d)(pMBmessage (mb_of i mb d) := FlexCAN_GetMsgBuff (can_hw d i) (ucast mb) (msg_at d (pMBmessage (mb_of i mb d))))"
  "can_dev.more (read_into i mb d) = can_dev.more d"
  by (simp_all add: read_into_def Let_def)

lemma can_gw_more: "can_gw d = can_sys.can_gw \<lparr>can_hw = undefined, can_state = undefined, imask_buff = undefined, msg_at = undefined, \<dots> = can_dev.more d\<rparr>"
  by (cases d) simp

lemma can_gw_upd [simp]: "can_gw (upd_mb i k f d) = can_gw d" "can_gw (read_into i mb d) = can_gw d"
  using can_gw_more [of d] can_gw_more [of "upd_mb i k f d"] can_gw_more [of "read_into i mb d"] by simp_all

lemma mb_ready_upd [simp]:
  "mb_ready i mb (upd_mb j k f d) \<longleftrightarrow> mb_ready i mb d"
  by (cases "can_state d j") (auto simp: mb_ready_def)

lemma mb_ready_read [simp]: "mb_ready i mb (read_into j mb' d) \<longleftrightarrow> mb_ready i mb d"
  by (cases "can_state d j") (auto simp: mb_ready_def read_into_def Let_def)

lemma mb_of_upd:
  assumes "mb_ready i mb d"
  shows "mb_of i mb (upd_mb j (unat mb') f d) = (if (i, mb) = (j, mb') then f (mb_of i mb d) else mb_of i mb d)"
  using assms by (cases "can_state d j") (auto simp: mb_of_def mb_ready_def word_unat_eq_iff [symmetric])

lemma mb_of_read:
  assumes "mb_ready i mb d"
  shows "mb_of i mb (read_into j mb' d) = (if (i, mb) = (j, mb') then (mb_of i mb d)\<lparr>mb_state := FLEXCAN_MB_IDLE\<rparr> else mb_of i mb d)"
  using assms by (cases "can_state d j") (auto simp: mb_of_def mb_ready_def word_unat_eq_iff [symmetric] read_into_def Let_def)

abbreviation can_cap :: "gateway \<Rightarrow> nat" where
  "can_cap w \<equiv> queue_cap (xQueue_CAN w) (gw_kernel w)"

lemma enqueue_offers:
  assumes q: "queue_ok w" and m: "msg_ok m" "length pad = 2"
  shows "\<exists>w' b. callback_enqueue pad m w = Inr (w', b) \<and> queue_ok w' \<and> queued_ipdus w' = offer (can_cap w) (queued_ipdus w) (ipdus_of m) \<and>
    can_cap w' = can_cap w"
proof (cases "length (queued_ipdus w) < can_cap w")
  case True
  from enqueue_accepts [OF q m True] obtain w' where
    "callback_enqueue pad m w = Inr (w', True)" "queue_ok w'" "queued_ipdus w' = queued_ipdus w @ [ipdus_of m]" "xQueue_CAN w' = xQueue_CAN w"
    "queue_cap (xQueue_CAN w) (gw_kernel w') = can_cap w"
    by blast
  with True show ?thesis by (intro exI [of _ w'] exI [of _ True]) (simp add: offer_def)
next
  case False
  from enqueue_rejects [OF q False, of pad m] obtain w' where
    "callback_enqueue pad m w = Inr (w', False)" "queue_ok w'" "queued_ipdus w' = queued_ipdus w" "xQueue_CAN w' = xQueue_CAN w" "gw_kernel w' = gw_kernel w"
    by blast
  with False show ?thesis by (intro exI [of _ w'] exI [of _ False]) (simp add: offer_def)
qed

lemma callback_taken:
  assumes r: "mb_ready i mb d" "i < 2" and e: "callback_enqueue pad (msg_at (read_into i mb d) rx) (can_gw d) = Inr (w, b)"
  shows "CAN0_Callback_SKKU pad rx i FLEXCAN_EVENT_RX_COMPLETE (ucast mb) (read_into i mb d) = Inr (taken rx i mb w d)"
proof -
  have i: "i = 0 \<or> i = 1" using r(2) by (simp add: word_less_nat_alt) (metis less_2_cases unat_0 unat_1 word_unat_eq_iff One_nat_def)
  have rec: "FlexCAN_Ip_Receive i mb rx True (read_into i mb d) =
    Inr (upd_mb i (unat mb) (\<lambda>m. m\<lparr>mb_state := FLEXCAN_MB_RX_BUSY, pMBmessage := rx, isPolling := True\<rparr>) (read_into i mb d), FLEXCAN_STATUS_SUCCESS)"
    using r(1) by (intro receive_idle) (simp_all add: mb_of_read)
  show ?thesis
    using i rec e by (auto simp: CAN0_Callback_SKKU_def ucast_u8_u32 taken_def)
qed

lemma taken_sel [simp]:
  "can_hw (taken rx i mb w d) = (can_hw d)(i := FlexCAN_ClearMsgBuffIntStatusFlag (ucast mb) (can_hw d i))"
  "msg_at (taken rx i mb w d) = (msg_at d)(pMBmessage (mb_of i mb d) := FlexCAN_GetMsgBuff (can_hw d i) (ucast mb) (msg_at d (pMBmessage (mb_of i mb d))))"
  "can_gw (taken rx i mb w d) = w"
  by (simp_all add: taken_def)

lemma mb_of_gw [simp]: "mb_of i mb (d\<lparr>can_gw := w\<rparr>) = mb_of i mb d" "mb_ready i mb (d\<lparr>can_gw := w\<rparr>) = mb_ready i mb d"
  by (simp_all add: mb_of_def mb_ready_def)

lemma taken_mb:
  assumes "mb_ready i mb d"
  shows "mb_ready i mb (taken rx j mb' w d)"
    "mb_of i mb (taken rx j mb' w d) =
      (if (i, mb) = (j, mb') then (mb_of i mb d)\<lparr>mb_state := FLEXCAN_MB_RX_BUSY, pMBmessage := rx, isPolling := True\<rparr> else mb_of i mb d)"
  using assms by (auto simp: taken_def mb_of_upd mb_of_read)

lemma armed_taken: "armed d x \<Longrightarrow> rx \<noteq> 0 \<Longrightarrow> armed (taken rx j mb' w d) x"
  using taken_mb [of "fst x" "snd x" d rx j mb' w] by (cases x) (auto simp: armed_def)

lemma poll_step:
  assumes ok: "polls_ok rx xs d" and x: "(i, mb) \<in> set xs" and pad: "length pad = 2"
    and flag: "pending (can_hw d) (i, mb) = Some f"
  defines "v \<equiv> (if primed_at rx d (i, mb) then f else ipdus_of (msg_at d rx))"
  shows "\<exists>w. FlexCAN_Ip_MainFunctionRead legacy enhanced (CAN0_Callback_SKKU pad rx) local i mb d = Inr (taken rx i mb w d) \<and>
    polls_ok rx xs (taken rx i mb w d) \<and> queued_ipdus w = offer (can_cap (can_gw d)) (queued_ipdus (can_gw d)) v \<and>
    can_cap w = can_cap (can_gw d) \<and> ipdus_of (msg_at (taken rx i mb w d) rx) = v \<and>
    (\<exists>m b. msg_ok m \<and> ipdus_of m = v \<and> callback_enqueue pad m (can_gw d) = Inr (w, b))"
proof -
  have r: "mb_ready i mb d" "i < 2" "mb_state (mb_of i mb d) = FLEXCAN_MB_RX_BUSY" "isPolling (mb_of i mb d)" "pMBmessage (mb_of i mb d) \<noteq> 0"
    and q: "queue_ok (can_gw d)" and l: "\<And>p. length (msg_data (msg_at d p)) = 64" and m: "msg_ok (msg_at d rx)"
    using ok x by (auto simp: polls_ok_def armed_def)
  have fl: "FlexCAN_GetBuffStatusFlag (can_hw d i) (ucast mb) \<noteq> 0" and f: "f = ipdus_of (FlexCAN_GetMsgBuff (can_hw d i) (ucast mb) zero_msg)"
    using flag by (auto simp: pending_def split: if_splits)
  let ?m = "msg_at (read_into i mb d) rx"
  have mv: "msg_ok ?m" "ipdus_of ?m = v" "length (msg_data ?m) = 64"
    using m read_msg_ok [OF l] l f by (auto simp: v_def primed_at_def msg_ok_def)
  obtain w b where w: "callback_enqueue pad ?m (can_gw d) = Inr (w, b)" "queue_ok w"
    "queued_ipdus w = offer (can_cap (can_gw d)) (queued_ipdus (can_gw d)) v" "can_cap w = can_cap (can_gw d)"
    using enqueue_offers [OF q mv(1) pad] mv(2) by auto
  have run: "FlexCAN_Ip_MainFunctionRead legacy enhanced (CAN0_Callback_SKKU pad rx) local i mb d = Inr (taken rx i mb w d)"
    using r fl callback_taken [OF r(1,2) w(1)] by (intro poll_flagged) (simp_all add: taken_mb)
  have len: "length (msg_data (FlexCAN_GetMsgBuff (can_hw d i) (ucast mb) (msg_at d p))) = 64" for p
    using read_msg_ok(1) [OF l] by (simp add: msg_ok_def)
  have "polls_ok rx xs (taken rx i mb w d)"
    using ok w(2) mv(1) len by (auto simp: polls_ok_def armed_taken)
  moreover have "\<exists>m b. msg_ok m \<and> ipdus_of m = v \<and> callback_enqueue pad m (can_gw d) = Inr (w, b)" using w(1) mv by blast
  ultimately show ?thesis using run w mv(2) by (intro exI [of _ w] conjI) simp_all
qed


lemma pending_taken:
  assumes "mb_ready i mb d" "mb_ready j mb' d" "(j, mb') \<noteq> (i, mb)" "length (IFLAG (can_hw d i)) = 4"
  shows "pending (can_hw (taken rx i mb w d)) (j, mb') = pending (can_hw d) (j, mb')"
proof -
  have f: "FlexCAN_GetMsgBuff (FlexCAN_ClearMsgBuffIntStatusFlag (ucast mb) (can_hw d i)) (ucast mb') zero_msg = FlexCAN_GetMsgBuff (can_hw d i) (ucast mb') zero_msg"
    by (intro get_msg_cong) (simp_all add: zero_msg_def)
  have g: "FlexCAN_GetBuffStatusFlag (FlexCAN_ClearMsgBuffIntStatusFlag (ucast mb) (can_hw d i)) (ucast mb') =
    FlexCAN_GetBuffStatusFlag (can_hw d i) (ucast mb')" if "mb' \<noteq> mb"
    using that assms by (intro clear_flag_other) (auto simp: mb_ready_def word_unat_eq_iff)
  show ?thesis using assms(3) f g by (cases "j = i") (auto simp: pending_def)
qed

lemma abs_poll_cong:
  "(\<And>x. x \<in> set xs \<Longrightarrow> pend x = pend' x) \<Longrightarrow> (\<And>x. x \<in> set xs \<Longrightarrow> primed x = primed' x) \<Longrightarrow>
   abs_poll pend primed xs v = abs_poll pend' primed' xs v"
proof (induction xs arbitrary: v)
  case (Cons x xs)
  then show ?case by (cases "pend' x") (simp_all add: Let_def)
qed simp

lemma primed_taken:
  assumes "armed d y"
  shows "primed_at rx (taken rx i mb w d) y \<longleftrightarrow> primed_at rx d y \<or> y = (i, mb)"
  using assms by (cases y) (auto simp: primed_at_def armed_def taken_mb)

text \<open>
  What polling a list \<open>xs\<close> of the mailboxes \<open>ys\<close> leaves: the abstract result, no frame pending in \<open>xs\<close>, and every
  mailbox that had one pointing to the global message. The offers are events of the gateway system.
\<close>

definition event_offer :: "gw_event \<Rightarrow> ipdu list option" where
  "event_offer ev = (case ev of Accepted m \<Rightarrow> Some (ipdus_of m) | Refused m \<Rightarrow> Some (ipdus_of m) | _ \<Rightarrow> None)"

definition offers_as_events :: "gateway \<Rightarrow> gateway \<Rightarrow> ipdu list list \<Rightarrow> bool" where
  "offers_as_events w w' os \<longleftrightarrow>
    (\<forall>s0 es s. gw_run s0 es s \<and> sys_gw s = w \<longrightarrow>
       (\<exists>es'. gw_run s0 (es @ es') (s\<lparr>sys_gw := w'\<rparr>) \<and> map event_offer es' = map Some os))"

lemma offers_as_events_Nil: "offers_as_events w w []"
  by (auto simp: offers_as_events_def intro!: exI [of _ "[]"])

lemma offers_as_events_Cons:
  assumes m: "msg_ok m" "length pad = 2" "callback_enqueue pad m w = Inr (w1, b)" and rest: "offers_as_events w1 w2 os"
  shows "offers_as_events w w2 (ipdus_of m # os)"
  unfolding offers_as_events_def
proof (intro allI impI)
  fix s0 es s assume s: "gw_run s0 es s \<and> sys_gw s = w"
  define ev where "ev = (if b then Accepted m else Refused m)"
  have "gw_step s ev (s\<lparr>sys_gw := w1\<rparr>)"
    using m s rx_taken [of m pad s w1] rx_refused [of m pad s w1] by (cases b) (simp_all add: ev_def)
  then have "gw_run s0 (es @ [ev]) (s\<lparr>sys_gw := w1\<rparr>)" using s by (blast intro: gw_run.continue)
  then obtain es' where "gw_run s0 ((es @ [ev]) @ es') (s\<lparr>sys_gw := w1, sys_gw := w2\<rparr>)" "map event_offer es' = map Some os"
    using rest unfolding offers_as_events_def by (metis (no_types, lifting) gw_sys.select_convs(2) gw_sys.surjective gw_sys.update_convs(2))
  then show "\<exists>es'. gw_run s0 (es @ es') (s\<lparr>sys_gw := w2\<rparr>) \<and> map event_offer es' = map Some (ipdus_of m # os)"
    by (intro exI [of _ "ev # es'"]) (simp add: ev_def event_offer_def)
qed

definition poll_result :: "u32 \<Rightarrow> mbox list \<Rightarrow> mbox list \<Rightarrow> can_sys \<Rightarrow> can_sys res \<Rightarrow> bool" where
  "poll_result rx ys xs d r \<longleftrightarrow>
    (\<exists>d'. r = Inr d' \<and> polls_ok rx ys d' \<and>
       ipdus_of (msg_at d' rx) = fst (abs_poll (pending (can_hw d)) (primed_at rx d) xs (ipdus_of (msg_at d rx))) \<and>
       queued_ipdus (can_gw d') = foldl (offer (can_cap (can_gw d))) (queued_ipdus (can_gw d))
         (snd (abs_poll (pending (can_hw d)) (primed_at rx d) xs (ipdus_of (msg_at d rx)))) \<and>
       can_cap (can_gw d') = can_cap (can_gw d) \<and>
       offers_as_events (can_gw d) (can_gw d') (snd (abs_poll (pending (can_hw d)) (primed_at rx d) xs (ipdus_of (msg_at d rx)))) \<and>
       (\<forall>y \<in> set ys. primed_at rx d' y \<longleftrightarrow> primed_at rx d y \<or> y \<in> set xs \<and> pending (can_hw d) y \<noteq> None) \<and>
       (\<forall>y \<in> set ys. pending (can_hw d') y = (if y \<in> set xs then None else pending (can_hw d) y)) \<and>
       (\<forall>i. FDCTRL (can_hw d' i) = FDCTRL (can_hw d i)))"

abbreviation poll_all where
  "poll_all legacy enhanced pad rx local \<equiv>
    rfold (\<lambda>(i, mb). FlexCAN_Ip_MainFunctionRead legacy enhanced (CAN0_Callback_SKKU pad rx) local i mb)"

lemma polls_ok_Cons: "polls_ok rx (x # xs) d \<longleftrightarrow> armed d x \<and> polls_ok rx xs d"
  by (auto simp: polls_ok_def)

lemma pending_taken_self:
  assumes "polls_ok rx xs d"
  shows "pending (can_hw (taken rx i mb w d)) (i, mb) = None"
  using assms by (simp add: pending_def polls_ok_def clear_flag_same)


lemma poll_refines:
  assumes "polls_ok rx ys d" "set xs \<subseteq> set ys" "distinct xs" "length pad = 2"
  shows "poll_result rx ys xs d (poll_all legacy enhanced pad rx local xs d)"
  using assms
proof (induction xs arbitrary: d)
  case Nil
  then show ?case by (simp add: poll_result_def offers_as_events_Nil)
next
  case (Cons x xs)
  obtain i mb where x: "x = (i, mb)" by (cases x)
  have ar: "armed d y" if "y \<in> set ys" for y using Cons.prems that by (auto simp: polls_ok_def)
  have ax: "armed d x" using Cons.prems ar by simp
  show ?case
  proof (cases "pending (can_hw d) x")
    case None
    then have "FlexCAN_GetBuffStatusFlag (can_hw d i) (ucast mb) = 0" by (simp add: pending_def x split: if_splits)
    then have run: "FlexCAN_Ip_MainFunctionRead legacy enhanced (CAN0_Callback_SKKU pad rx) local i mb d = Inr d"
      using ax by (intro poll_unflagged) (simp_all add: armed_def x)
    have "poll_result rx ys xs d (poll_all legacy enhanced pad rx local xs d)" using Cons by simp
    then show ?thesis using None run by (auto simp: poll_result_def x)
  next
    case (Some f)
    let ?v = "if primed_at rx d x then f else ipdus_of (msg_at d rx)"
    obtain w where run: "FlexCAN_Ip_MainFunctionRead legacy enhanced (CAN0_Callback_SKKU pad rx) local i mb d = Inr (taken rx i mb w d)"
      and ok: "polls_ok rx ys (taken rx i mb w d)" and q: "queued_ipdus w = offer (can_cap (can_gw d)) (queued_ipdus (can_gw d)) ?v"
      and cap: "can_cap w = can_cap (can_gw d)" and v: "ipdus_of (msg_at (taken rx i mb w d) rx) = ?v"
      and ev: "\<exists>m b. msg_ok m \<and> ipdus_of m = ?v \<and> callback_enqueue pad m (can_gw d) = Inr (w, b)"
      using poll_step [of rx ys d i mb pad f legacy enhanced local] Cons.prems Some x by auto
    let ?d = "taken rx i mb w d"
    have pr: "primed_at rx ?d y \<longleftrightarrow> primed_at rx d y \<or> y = x" if "y \<in> set ys" for y
      using primed_taken [OF ar [OF that]] by (simp add: x)
    have fl: "length (IFLAG (can_hw d i)) = 4" using Cons.prems by (simp add: polls_ok_def)
    have pe: "pending (can_hw ?d) y = pending (can_hw d) y" if "y \<in> set ys" "y \<noteq> x" for y
      using pending_taken [of i mb d "fst y" "snd y" rx w] ax ar [OF that(1)] that(2) fl by (simp add: armed_def x)
    have px: "pending (can_hw ?d) x = None" unfolding x by (rule pending_taken_self [OF Cons.prems(1)])
    have ne: "y \<noteq> x" if "y \<in> set xs" for y using Cons.prems(3) that by auto
    have abs: "abs_poll (pending (can_hw ?d)) (primed_at rx ?d) xs ?v = abs_poll (pending (can_hw d)) (primed_at rx d) xs ?v"
      using pr pe ne Cons.prems(2) by (intro abs_poll_cong) auto
    have "poll_result rx ys xs ?d (poll_all legacy enhanced pad rx local xs ?d)"
      using Cons.IH [OF ok] Cons.prems by simp
    then obtain d' where d': "poll_all legacy enhanced pad rx local xs ?d = Inr d'" "polls_ok rx ys d'"
      "ipdus_of (msg_at d' rx) = fst (abs_poll (pending (can_hw d)) (primed_at rx d) xs ?v)"
      "queued_ipdus (can_gw d') = foldl (offer (can_cap (can_gw d))) (offer (can_cap (can_gw d)) (queued_ipdus (can_gw d)) ?v)
         (snd (abs_poll (pending (can_hw d)) (primed_at rx d) xs ?v))"
      "can_cap (can_gw d') = can_cap (can_gw d)"
      "offers_as_events w (can_gw d') (snd (abs_poll (pending (can_hw d)) (primed_at rx d) xs ?v))"
      "\<And>y. y \<in> set ys \<Longrightarrow> primed_at rx d' y \<longleftrightarrow> primed_at rx ?d y \<or> y \<in> set xs \<and> pending (can_hw ?d) y \<noteq> None"
      "\<And>y. y \<in> set ys \<Longrightarrow> pending (can_hw d') y = (if y \<in> set xs then None else pending (can_hw ?d) y)"
      "\<And>i. FDCTRL (can_hw d' i) = FDCTRL (can_hw ?d i)"
      unfolding poll_result_def v abs by (auto simp only: taken_sel q cap)
    have run': "poll_all legacy enhanced pad rx local (x # xs) d = Inr d'" using run d'(1) by (simp add: x)
    have A: "abs_poll (pending (can_hw d)) (primed_at rx d) (x # xs) (ipdus_of (msg_at d rx)) =
      (fst (abs_poll (pending (can_hw d)) (primed_at rx d) xs ?v), ?v # snd (abs_poll (pending (can_hw d)) (primed_at rx d) xs ?v))"
      using Some by (simp add: Let_def split: prod.splits)
    have P: "primed_at rx d' y \<longleftrightarrow> primed_at rx d y \<or> y \<in> set (x # xs) \<and> pending (can_hw d) y \<noteq> None" if "y \<in> set ys" for y
      using d'(7) [OF that] pr [OF that] pe [OF that] Some ne by (cases "y = x") auto
    have Q: "pending (can_hw d') y = (if y \<in> set (x # xs) then None else pending (can_hw d) y)" if "y \<in> set ys" for y
      using d'(8) [OF that] pe [OF that] px by (cases "y = x") auto
    have E: "offers_as_events (can_gw d) (can_gw d') (?v # snd (abs_poll (pending (can_hw d)) (primed_at rx d) xs ?v))"
    proof -
      obtain m b where m: "msg_ok m" "ipdus_of m = ?v" "callback_enqueue pad m (can_gw d) = Inr (w, b)" using ev by blast
      show ?thesis using offers_as_events_Cons [OF m(1) Cons.prems(4) m(3) d'(6)] unfolding m(2) .
    qed
    have F: "FDCTRL (can_hw d' j) = FDCTRL (can_hw d j)" for j using d'(9) [of j] by simp
    show ?thesis unfolding poll_result_def run' A fst_conv snd_conv foldl_Cons using d'(2-5) E P Q F by blast
  qed
qed

definition poll_mboxes :: "CanRxTaskParam_t \<Rightarrow> mbox list" where
  "poll_mboxes p = map (\<lambda>(inst, i). (of_nat inst, mb_list p ! inst ! i)) (poll_slots p)"

text \<open>
  Rounds of the polling task. Before each round the controllers store the frames that arrived since the last one, an
  earlier frame in the same mailbox being overwritten; flags and message RAM are otherwise as the driver left them.
\<close>

fun poll_rounds ::
  "(can_sys \<Rightarrow> can_sys res) \<Rightarrow> (u32 \<times> nat) \<times> (can_sys \<Rightarrow> can_sys res) \<Rightarrow> u8 list \<Rightarrow> u32 \<Rightarrow> u32 \<Rightarrow> CanRxTaskParam_t \<Rightarrow>
   (mbox \<times> can_words) list list \<Rightarrow> can_sys \<Rightarrow> can_sys res" where
  "poll_rounds legacy enhanced pad rx local p [] d = Inr d"
| "poll_rounds legacy enhanced pad rx local p (as # ass) d =
    rbind (CAN_Receive_Polling_Task_pass legacy enhanced pad rx local p (d\<lparr>can_hw := fold receive_frame as (can_hw d)\<rparr>))
      (poll_rounds legacy enhanced pad rx local p ass)"

text \<open>What a round finds: for each polled mailbox with an arrival, in polling order, the I-PDUs of its last frame.\<close>

definition arrived :: "(u8 \<Rightarrow> flexcan_hw) \<Rightarrow> mbox \<Rightarrow> can_words \<Rightarrow> ipdu list" where
  "arrived h x fr = ipdus_of (frame_msg (h (fst x)) (ucast (snd x)) fr zero_msg)"

definition polled :: "CanRxTaskParam_t \<Rightarrow> (u8 \<Rightarrow> flexcan_hw) \<Rightarrow> (mbox \<times> can_words) list \<Rightarrow> (mbox \<times> ipdu list) list" where
  "polled p h as = List.map_filter (\<lambda>x. map_option (\<lambda>fr. (x, arrived h x fr)) (map_of (rev as) x)) (poll_mboxes p)"

lemma rfold_map: "rfold f (map g xs) s = rfold (\<lambda>x. f (g x)) xs s"
proof (induction xs arbitrary: s)
  case (Cons x xs)
  then show ?case by (cases "f (g x) s") simp_all
qed simp

lemma pass_polls:
  "mb_count p \<le> 4 \<Longrightarrow> CAN_Receive_Polling_Task_pass legacy enhanced pad rx local p d = poll_all legacy enhanced pad rx local (poll_mboxes p) d"
  by (simp add: CAN_Receive_Polling_Task_pass_def poll_mboxes_def rfold_map case_prod_unfold)

lemma polls_ok_hw:
  assumes "polls_ok rx xs d" "\<forall>i. length (IFLAG (h i)) = 4"
  shows "polls_ok rx xs (d\<lparr>can_hw := h\<rparr>)" "primed_at rx (d\<lparr>can_hw := h\<rparr>) = primed_at rx d"
  using assms by (auto simp: polls_ok_def armed_def mb_ready_def mb_of_def primed_at_def fun_eq_iff)

lemma zero_msg_length [simp]: "length (msg_data zero_msg) = 64"
  by (simp add: zero_msg_def)

lemma pending_receive:
  assumes "unat (snd y) < 128" "unat (snd x) < 128" "length (IFLAG (h (fst x))) = 4"
  shows "pending (receive_frame (x, fr) h) y = (if y = x then Some (arrived h x fr) else pending h y)"
proof -
  obtain i mb j mb' where x: "x = (i, mb)" and y: "y = (j, mb')" by (cases x, cases y)
  show ?thesis
  proof (cases "y = x")
    case True
    then show ?thesis using assms(3) raise_flag_same [of "store_frame (ucast mb) fr (h i)" "ucast mb"]
      by (simp add: x pending_def receive_frame_at receive_read arrived_def)
  next
    case False
    then have "ucast mb \<noteq> (ucast mb' :: u32)" if "j = i" using that by (auto simp: x y word_unat_eq_iff)
    then show ?thesis using assms False
      by (auto simp: x y pending_def receive_frame_at raise_flag_other receive_read_other)
  qed
qed

lemma arrived_cong: "FDCTRL (h' (fst x)) = FDCTRL (h (fst x)) \<Longrightarrow> arrived h' x fr = arrived h x fr"
  by (simp add: arrived_def frame_msg_cong [of "h' (fst x)" "h (fst x)"])

lemma polled_cong: "(\<And>i. FDCTRL (h' i) = FDCTRL (h i)) \<Longrightarrow> polled p h' as = polled p h as"
  by (simp add: polled_def arrived_cong [of h' _ h])

lemma pending_arrivals:
  assumes "unat (snd y) < 128" "\<forall>a \<in> set as. unat (snd (fst a)) < 128" "\<forall>i. length (IFLAG (h i)) = 4"
  shows "pending (fold receive_frame as h) y = (case map_of (rev as) y of None \<Rightarrow> pending h y | Some fr \<Rightarrow> Some (arrived h y fr))"
  using assms(2)
proof (induction as rule: rev_induct)
  case (snoc a as)
  obtain x fr where a: "a = (x, fr)" by (cases a)
  let ?h = "fold receive_frame as h"
  have "pending (receive_frame (x, fr) ?h) y = (if y = x then Some (arrived ?h x fr) else pending ?h y)"
    using snoc.prems assms(1,3) by (intro pending_receive) (simp_all add: a receive_frames_keep)
  moreover have "arrived ?h x fr = arrived h x fr" by (rule arrived_cong) (simp add: receive_frames_keep)
  ultimately show ?case using snoc by (auto simp: a)
qed simp

text \<open>
  What the application makes of the frames it polls when the mailboxes outside \<open>seen\<close> are still armed with the
  shadow array: the first frame of such a mailbox is replaced by the value \<open>v\<close> of the global message.
\<close>

fun lossy :: "mbox set \<Rightarrow> ipdu list \<Rightarrow> (mbox \<times> ipdu list) list \<Rightarrow> ipdu list list" where
  "lossy seen v [] = []"
| "lossy seen v ((x, f) # r) = (if x \<in> seen then f # lossy seen f r else v # lossy (insert x seen) v r)"

fun lossy_last :: "mbox set \<Rightarrow> ipdu list \<Rightarrow> (mbox \<times> ipdu list) list \<Rightarrow> ipdu list" where
  "lossy_last seen v [] = v"
| "lossy_last seen v ((x, f) # r) = (if x \<in> seen then lossy_last seen f r else lossy_last (insert x seen) v r)"

lemma lossy_append: "lossy seen v (r @ r') = lossy seen v r @ lossy (seen \<union> fst ` set r) (lossy_last seen v r) r'"
proof (induction seen v r rule: lossy.induct)
  case (2 seen v x f r)
  then show ?case by (cases "x \<in> seen") (simp_all add: insert_absorb)
qed simp

lemma lossy_seen: "fst ` set r \<subseteq> seen \<Longrightarrow> lossy seen v r = map snd r"
  by (induction seen v r rule: lossy.induct) auto

lemma abs_poll_lossy:
  fixes pend :: "mbox \<Rightarrow> ipdu list option"
  assumes "distinct xs" "\<forall>x \<in> set xs. primed x \<longleftrightarrow> x \<in> seen"
  defines "r \<equiv> List.map_filter (\<lambda>x. map_option (Pair x) (pend x)) xs"
  shows "snd (abs_poll pend primed xs v) = lossy seen v r \<and> fst (abs_poll pend primed xs v) = lossy_last seen v r"
  unfolding r_def using assms(1,2)
proof (induction xs arbitrary: seen v)
  case (Cons x xs)
  have "\<forall>y \<in> set xs. primed y \<longleftrightarrow> y \<in> insert x seen" "\<forall>y \<in> set xs. primed y \<longleftrightarrow> y \<in> seen" using Cons.prems by auto
  with Cons show ?case by (cases "pend x") (auto simp: List.map_filter_simps Let_def)
qed (simp add: List.map_filter_simps)

lemma map_filter_cong_on: "(\<And>x. x \<in> set xs \<Longrightarrow> f x = g x) \<Longrightarrow> List.map_filter f xs = List.map_filter g xs"
  by (induction xs) (auto simp: List.map_filter_simps split: option.splits)

definition arrivals_ok :: "(mbox \<times> can_words) list list \<Rightarrow> bool" where
  "arrivals_ok ass \<longleftrightarrow> (\<forall>as \<in> set ass. \<forall>a \<in> set as. unat (snd (fst a)) < FLEXCAN_IP_FEATURE_MAX_MB_NUM)"

definition none_pending :: "CanRxTaskParam_t \<Rightarrow> can_sys \<Rightarrow> bool" where
  "none_pending p d \<longleftrightarrow> (\<forall>x \<in> set (poll_mboxes p). pending (can_hw d) x = None)"

lemma poll_round:
  fixes as p d rx
  defines "L \<equiv> polled p (can_hw d) as"
  assumes ok: "polls_ok rx (poll_mboxes p) d" and clear: "none_pending p d" and as: "\<forall>a \<in> set as. unat (snd (fst a)) < 128"
    and p: "mb_count p \<le> 4" "distinct (poll_mboxes p)" and pad: "length pad = 2"
    and seen: "\<forall>x \<in> set (poll_mboxes p). primed_at rx d x \<longleftrightarrow> x \<in> seen"
  shows "\<exists>d'. CAN_Receive_Polling_Task_pass legacy enhanced pad rx local p (d\<lparr>can_hw := fold receive_frame as (can_hw d)\<rparr>) = Inr d' \<and>
    polls_ok rx (poll_mboxes p) d' \<and> none_pending p d' \<and> (\<forall>i. FDCTRL (can_hw d' i) = FDCTRL (can_hw d i)) \<and>
    ipdus_of (msg_at d' rx) = lossy_last seen (ipdus_of (msg_at d rx)) L \<and>
    queued_ipdus (can_gw d') = foldl (offer (can_cap (can_gw d))) (queued_ipdus (can_gw d)) (lossy seen (ipdus_of (msg_at d rx)) L) \<and>
    can_cap (can_gw d') = can_cap (can_gw d) \<and>
    offers_as_events (can_gw d) (can_gw d') (lossy seen (ipdus_of (msg_at d rx)) L) \<and>
    (\<forall>x \<in> set (poll_mboxes p). primed_at rx d' x \<longleftrightarrow> x \<in> seen \<union> fst ` set L)"
proof -
  let ?h = "fold receive_frame as (can_hw d)" and ?ms = "poll_mboxes p" and ?v = "ipdus_of (msg_at d rx)"
  have fl: "\<forall>i. length (IFLAG (can_hw d i)) = 4" using ok by (simp add: polls_ok_def)
  then have h: "\<forall>i. length (IFLAG (?h i)) = 4" by (simp add: receive_frames_keep)
  have mb: "unat (snd x) < 128" if "x \<in> set ?ms" for x using ok that by (auto simp: polls_ok_def armed_def mb_ready_def)
  have pend: "pending ?h x = map_option (arrived (can_hw d) x) (map_of (rev as) x)" if "x \<in> set ?ms" for x
    using pending_arrivals [OF mb [OF that] as fl] clear that by (auto simp: none_pending_def split: option.splits)
  have L: "List.map_filter (\<lambda>x. map_option (Pair x) (pending ?h x)) ?ms = L"
    unfolding L_def polled_def by (rule map_filter_cong_on) (simp add: pend option.map_comp comp_def)
  note A = abs_poll_lossy [OF p(2) seen, of "pending ?h" ?v, unfolded L]
  have S: "x \<in> fst ` set L \<longleftrightarrow> pending ?h x \<noteq> None" if "x \<in> set ?ms" for x
    using that unfolding L [symmetric] by (force simp: List.map_filter_def)
  show ?thesis
    using poll_refines [OF polls_ok_hw(1) [OF ok h] order_refl p(2) pad, of legacy enhanced local] seen S
    unfolding poll_result_def pass_polls [OF p(1)] none_pending_def
    by (simp add: A receive_frames_keep polls_ok_hw(2) [OF ok h]) blast
qed

lemma offers_as_events_append:
  assumes "offers_as_events w w1 os" "offers_as_events w1 w2 os'"
  shows "offers_as_events w w2 (os @ os')"
  unfolding offers_as_events_def
proof (intro allI impI)
  fix s0 es s assume "gw_run s0 es s \<and> sys_gw s = w"
  then obtain es1 where 1: "gw_run s0 (es @ es1) (s\<lparr>sys_gw := w1\<rparr>)" "map event_offer es1 = map Some os"
    using assms(1) unfolding offers_as_events_def by blast
  moreover have "sys_gw (s\<lparr>sys_gw := w1\<rparr>) = w1" by simp
  ultimately obtain es2 where "gw_run s0 ((es @ es1) @ es2) (s\<lparr>sys_gw := w1, sys_gw := w2\<rparr>)" "map event_offer es2 = map Some os'"
    using assms(2) unfolding offers_as_events_def by blast
  with 1 show "\<exists>es'. gw_run s0 (es @ es') (s\<lparr>sys_gw := w2\<rparr>) \<and> map event_offer es' = map Some (os @ os')"
    by (intro exI [of _ "es1 @ es2"]) simp
qed

lemma rounds_lossy:
  assumes "polls_ok rx (poll_mboxes p) d" "none_pending p d" "arrivals_ok ass"
    and "\<forall>x \<in> set (poll_mboxes p). primed_at rx d x \<longleftrightarrow> x \<in> seen"
    and p: "mb_count p \<le> 4" "distinct (poll_mboxes p)" and pad: "length pad = 2"
  shows "\<exists>d'. poll_rounds legacy enhanced pad rx local p ass d = Inr d' \<and> none_pending p d' \<and>
    queued_ipdus (can_gw d') = foldl (offer (can_cap (can_gw d))) (queued_ipdus (can_gw d))
      (lossy seen (ipdus_of (msg_at d rx)) (concat (map (polled p (can_hw d)) ass))) \<and>
    offers_as_events (can_gw d) (can_gw d') (lossy seen (ipdus_of (msg_at d rx)) (concat (map (polled p (can_hw d)) ass)))"
  using assms(1-4)
proof (induction ass arbitrary: d seen)
  case Nil
  then show ?case by (simp add: offers_as_events_Nil)
next
  case (Cons as ass)
  let ?L = "polled p (can_hw d) as" and ?v = "ipdus_of (msg_at d rx)"
  have as: "\<forall>a \<in> set as. unat (snd (fst a)) < 128" "arrivals_ok ass" using Cons.prems(3) by (simp_all add: arrivals_ok_def)
  obtain d1 where d1: "CAN_Receive_Polling_Task_pass legacy enhanced pad rx local p (d\<lparr>can_hw := fold receive_frame as (can_hw d)\<rparr>) = Inr d1"
    "polls_ok rx (poll_mboxes p) d1" "none_pending p d1" "\<And>i. FDCTRL (can_hw d1 i) = FDCTRL (can_hw d i)"
    "ipdus_of (msg_at d1 rx) = lossy_last seen ?v ?L"
    "queued_ipdus (can_gw d1) = foldl (offer (can_cap (can_gw d))) (queued_ipdus (can_gw d)) (lossy seen ?v ?L)"
    "can_cap (can_gw d1) = can_cap (can_gw d)" "offers_as_events (can_gw d) (can_gw d1) (lossy seen ?v ?L)"
    "\<forall>x \<in> set (poll_mboxes p). primed_at rx d1 x \<longleftrightarrow> x \<in> seen \<union> fst ` set ?L"
    using poll_round [OF Cons.prems(1,2) as(1) p pad Cons.prems(4), of legacy enhanced local] by (elim exE conjE) blast
  have P: "polled p (can_hw d1) bs = polled p (can_hw d) bs" for bs by (rule polled_cong) (rule d1(4))
  note IH = Cons.IH [OF d1(2,3) as(2) d1(9), unfolded P d1(5,7)]
  obtain d' where d': "poll_rounds legacy enhanced pad rx local p ass d1 = Inr d'" "none_pending p d'"
    "queued_ipdus (can_gw d') = foldl (offer (can_cap (can_gw d))) (queued_ipdus (can_gw d1))
      (lossy (seen \<union> fst ` set ?L) (lossy_last seen ?v ?L) (concat (map (polled p (can_hw d)) ass)))"
    "offers_as_events (can_gw d1) (can_gw d') (lossy (seen \<union> fst ` set ?L) (lossy_last seen ?v ?L) (concat (map (polled p (can_hw d)) ass)))"
    using IH by blast
  have "poll_rounds legacy enhanced pad rx local p (as # ass) d = Inr d'" using d1(1) d'(1) by simp
  moreover have "offers_as_events (can_gw d) (can_gw d') (lossy seen ?v (concat (map (polled p (can_hw d)) (as # ass))))"
    using offers_as_events_append [OF d1(8) d'(4)] by (simp add: lossy_append)
  ultimately show ?case using d'(2,3) d1(6) by (intro exI [of _ d']) (simp add: lossy_append)
qed

section \<open>The start of the polling task\<close>

definition init_targets :: "u32 \<Rightarrow> CanRxTaskParam_t \<Rightarrow> (mbox \<times> u32) list" where
  "init_targets sh p = map (\<lambda>(inst, i). ((of_nat inst, mb_list p ! inst ! i), sh + 80 * of_nat i)) (poll_slots p)"

definition arm :: "mbox \<times> u32 \<Rightarrow> can_sys \<Rightarrow> can_sys res" where
  "arm xa d = rbind (FlexCAN_Ip_Receive (fst (fst xa)) (snd (fst xa)) (snd xa) True d) (\<lambda>(d', _). Inr d')"

lemma init_arms_targets:
  "mb_count p \<le> 4 \<Longrightarrow> CAN_Receive_Polling_Task_init sh p d = rfold arm (init_targets sh p) d"
  by (simp add: CAN_Receive_Polling_Task_init_def init_targets_def rfold_map arm_def [abs_def] case_prod_unfold)

lemma fst_init_targets [simp]: "map fst (init_targets sh p) = poll_mboxes p"
  by (simp add: init_targets_def poll_mboxes_def case_prod_unfold)

lemma arm_all:
  assumes "distinct (map fst xas)" "\<forall>x \<in> fst ` set xas. mb_ready (fst x) (snd x) d \<and> mb_state (mb_of (fst x) (snd x) d) = FLEXCAN_MB_IDLE"
  shows "\<exists>d'. rfold arm xas d = Inr d' \<and> can_hw d' = can_hw d \<and> msg_at d' = msg_at d \<and> can_gw d' = can_gw d \<and>
    (\<forall>i mb. mb_ready i mb d' = mb_ready i mb d) \<and>
    (\<forall>(x, a) \<in> set xas. mb_of (fst x) (snd x) d' = (mb_of (fst x) (snd x) d)\<lparr>mb_state := FLEXCAN_MB_RX_BUSY, pMBmessage := a, isPolling := True\<rparr>) \<and>
    (\<forall>y. y \<notin> fst ` set xas \<and> mb_ready (fst y) (snd y) d \<longrightarrow> mb_of (fst y) (snd y) d' = mb_of (fst y) (snd y) d)"
  using assms
proof (induction xas arbitrary: d)
  case Nil
  then show ?case by simp
next
  case (Cons xa xas)
  obtain i mb a where xa: "xa = ((i, mb), a)" by (metis prod.exhaust)
  define d1 where "d1 = upd_mb i (unat mb) (\<lambda>m. m\<lparr>mb_state := FLEXCAN_MB_RX_BUSY, pMBmessage := a, isPolling := True\<rparr>) d"
  have rd: "mb_ready i mb d" "mb_state (mb_of i mb d) = FLEXCAN_MB_IDLE" using Cons.prems(2) xa by auto
  then have run: "arm xa d = Inr d1" by (simp add: arm_def xa receive_idle d1_def)
  have mb1: "mb_of j mb' d1 = (if (j, mb') = (i, mb) then (mb_of j mb' d)\<lparr>mb_state := FLEXCAN_MB_RX_BUSY, pMBmessage := a, isPolling := True\<rparr> else mb_of j mb' d)"
    if "mb_ready j mb' d" for j mb'
    unfolding d1_def by (rule mb_of_upd [OF that])
  have ne: "(i, mb) \<notin> fst ` set xas" using Cons.prems(1) xa by simp
  have "\<forall>x \<in> fst ` set xas. mb_ready (fst x) (snd x) d1 \<and> mb_state (mb_of (fst x) (snd x) d1) = FLEXCAN_MB_IDLE"
  proof
    fix x assume x: "x \<in> fst ` set xas"
    then have "mb_ready (fst x) (snd x) d" "mb_state (mb_of (fst x) (snd x) d) = FLEXCAN_MB_IDLE"
      using Cons.prems(2) by auto
    moreover have "x \<noteq> (i, mb)" using x ne by metis
    ultimately show "mb_ready (fst x) (snd x) d1 \<and> mb_state (mb_of (fst x) (snd x) d1) = FLEXCAN_MB_IDLE"
      by (cases x) (simp add: mb1, simp add: d1_def)
  qed
  then obtain d' where d': "rfold arm xas d1 = Inr d'" "can_hw d' = can_hw d1" "msg_at d' = msg_at d1" "can_gw d' = can_gw d1"
    "\<forall>i mb. mb_ready i mb d' = mb_ready i mb d1"
    "\<forall>(x, a) \<in> set xas. mb_of (fst x) (snd x) d' = (mb_of (fst x) (snd x) d1)\<lparr>mb_state := FLEXCAN_MB_RX_BUSY, pMBmessage := a, isPolling := True\<rparr>"
    "\<forall>y. y \<notin> fst ` set xas \<and> mb_ready (fst y) (snd y) d1 \<longrightarrow> mb_of (fst y) (snd y) d' = mb_of (fst y) (snd y) d1"
    using Cons.IH [of d1] Cons.prems(1) by auto
  have A: "mb_of (fst x) (snd x) d' = (mb_of (fst x) (snd x) d)\<lparr>mb_state := FLEXCAN_MB_RX_BUSY, pMBmessage := b, isPolling := True\<rparr>"
    if "(x, b) \<in> set (xa # xas)" for x b
  proof (cases "(x, b) = xa")
    case True
    then show ?thesis using d'(7) [rule_format, of x] ne rd mb1 [OF rd(1)] by (simp add: xa) (simp add: d1_def)
  next
    case False
    then have x: "(x, b) \<in> set xas" using that by simp
    then have "x \<noteq> (i, mb)" "mb_ready (fst x) (snd x) d" using ne Cons.prems(2) by (force, force)
    with d'(6) x mb1 [of "fst x" "snd x"] show ?thesis by (cases x) auto
  qed
  have B: "mb_of (fst y) (snd y) d' = mb_of (fst y) (snd y) d" if "y \<notin> fst ` set (xa # xas)" "mb_ready (fst y) (snd y) d" for y
    using that d'(7) [rule_format, of y] mb1 [OF that(2)] by (cases y) (auto simp: xa d1_def)
  show ?case
    using run d'(1-5) A B by (intro exI [of _ d']) (auto simp: d1_def)
qed

definition poll_start :: "u32 \<Rightarrow> u32 \<Rightarrow> CanRxTaskParam_t \<Rightarrow> can_sys \<Rightarrow> bool" where
  "poll_start rx sh p d \<longleftrightarrow>
    rx \<noteq> 0 \<and> queue_ok (can_gw d) \<and> (\<forall>a. length (msg_data (msg_at d a)) = 64) \<and> msg_ok (msg_at d rx) \<and>
    (\<forall>i. length (IFLAG (can_hw d i)) = 4) \<and> mb_count p \<le> 4 \<and> distinct (poll_mboxes p) \<and>
    (\<forall>i < unat (mb_count p). sh + 80 * of_nat i \<noteq> 0 \<and> sh + 80 * of_nat i \<noteq> rx) \<and>
    (\<forall>(i, mb) \<in> set (poll_mboxes p). i < 2 \<and> mb_ready i mb d \<and> mb_state (mb_of i mb d) = FLEXCAN_MB_IDLE)"

lemma init_starts:
  assumes "poll_start rx sh p d"
  shows "\<exists>d'. CAN_Receive_Polling_Task_init sh p d = Inr d' \<and> polls_ok rx (poll_mboxes p) d' \<and>
    (\<forall>x \<in> set (poll_mboxes p). \<not> primed_at rx d' x) \<and> msg_at d' = msg_at d \<and> can_gw d' = can_gw d \<and> can_hw d' = can_hw d"
proof -
  have c: "mb_count p \<le> 4" and di: "distinct (map fst (init_targets sh p))" using assms by (simp_all add: poll_start_def)
  have st: "fst ` set (init_targets sh p) = set (poll_mboxes p)" by (metis fst_init_targets set_map)
  have idle: "\<forall>x \<in> fst ` set (init_targets sh p). mb_ready (fst x) (snd x) d \<and> mb_state (mb_of (fst x) (snd x) d) = FLEXCAN_MB_IDLE"
    unfolding st using assms by (auto simp: poll_start_def)
  obtain d' where d': "rfold arm (init_targets sh p) d = Inr d'" "can_hw d' = can_hw d" "msg_at d' = msg_at d" "can_gw d' = can_gw d"
    "\<forall>i mb. mb_ready i mb d' = mb_ready i mb d"
    "\<forall>(x, a) \<in> set (init_targets sh p). mb_of (fst x) (snd x) d' =
       (mb_of (fst x) (snd x) d)\<lparr>mb_state := FLEXCAN_MB_RX_BUSY, pMBmessage := a, isPolling := True\<rparr>"
    using arm_all [OF di idle] by blast
  have addr: "a \<noteq> 0 \<and> a \<noteq> rx" if "(x, a) \<in> set (init_targets sh p)" for x a
    using that assms by (auto simp: init_targets_def poll_slots_def poll_start_def)
  have x: "armed d' x \<and> \<not> primed_at rx d' x" if mem: "x \<in> set (poll_mboxes p)" for x
  proof -
    have "x \<in> fst ` set (init_targets sh p)" using mem st by simp
    then obtain a where a: "(x, a) \<in> set (init_targets sh p)" by auto
    then have m: "mb_of (fst x) (snd x) d' = (mb_of (fst x) (snd x) d)\<lparr>mb_state := FLEXCAN_MB_RX_BUSY, pMBmessage := a, isPolling := True\<rparr>"
      using d'(6) by auto
    have "fst x < 2" "mb_ready (fst x) (snd x) d" using mem assms by (auto simp: poll_start_def)
    then show ?thesis using addr [OF a] by (simp add: armed_def primed_at_def m d'(5))
  qed
  have "polls_ok rx (poll_mboxes p) d'" using assms x by (simp add: polls_ok_def poll_start_def d'(2-4))
  with x d' show ?thesis by (intro exI [of _ d']) (simp add: init_arms_targets [OF c])
qed

section \<open>The cyclic transmit task\<close>

definition tx_ready :: "u8 \<Rightarrow> can_sys \<Rightarrow> bool" where
  "tx_ready mb d \<longleftrightarrow> mb_ready 0 mb d \<and> \<not> FlexCAN_IsListenOnlyModeEnabled (can_hw d 0) \<and>
    FlexCAN_GetMbPayloadSize (can_hw d 0) (ucast mb) = 64 \<and> length (IFLAG (can_hw d 0)) = 4"

text \<open>The frame that a counter value produces, as it appears on the bus.\<close>

definition tx_frame :: "CanTxTaskParam_t \<Rightarrow> u32 \<Rightarrow> bus_frame" where
  "tx_frame p c = \<lparr>bus_id = canId p AND 0x7FF, bus_ext = False, bus_fd = True, bus_brs = True, bus_data = le32 c @ replicate 60 0\<rparr>"

lemma clear_flag_layout [simp]:
  "FlexCAN_GetMsgBuffRegion (FlexCAN_ClearMsgBuffIntStatusFlag x hw) mb = FlexCAN_GetMsgBuffRegion hw mb"
  "FlexCAN_GetMbPayloadSize (FlexCAN_ClearMsgBuffIntStatusFlag x hw) mb = FlexCAN_GetMbPayloadSize hw mb"
  by (rule layout_cong, simp)+

lemma mb_code_msg: "mb_code hw mb = drop_bit 24 (msg_cs (FlexCAN_GetMsgBuff hw mb m) AND FLEXCAN_IP_CS_CODE_MASK)"
  by (simp add: mb_code_def FlexCAN_GetMsgBuff_def Let_def)

lemma set_tx_frame:
  fixes data :: "u8 list"
  assumes "unat mb < 256" "FlexCAN_GetMbPayloadSize hw mb = 64" "length data = 64"
  shows "\<exists>hw'. FlexCAN_SetTxMsgBuff (FlexCAN_GetMsgBuffRegion hw mb)
      \<lparr>cs_code = FLEXCAN_TX_DATA, cs_msgIdType = FLEXCAN_MSG_ID_STD, cs_dataLen = 64, cs_fd_enable = True, cs_fd_padding = pd, cs_enable_brs = True\<rparr>
      msg_id (Some data) False hw = Inr hw' \<and>
    mb_code hw' mb = FLEXCAN_TX_DATA \<and>
    bus_frame_of hw' mb = \<lparr>bus_id = msg_id AND 0x7FF, bus_ext = False, bus_fd = True, bus_brs = True, bus_data = data\<rparr> \<and>
    same_but (mb_words hw mb) hw hw'"
proof -
  let ?cs = "\<lparr>cs_code = FLEXCAN_TX_DATA, cs_msgIdType = FLEXCAN_MSG_ID_STD, cs_dataLen = 64, cs_fd_enable = True, cs_fd_padding = pd, cs_enable_brs = True\<rparr>"
  let ?w = "tx_config_word ?cs (FlexCAN_ComputeDLCValue 64) False"
  have "FlexCAN_ComputePayloadSize (FlexCAN_ComputeDLCValue 64) = 64" by code_simp
  then obtain hw' where h: "FlexCAN_SetTxMsgBuff (FlexCAN_GetMsgBuffRegion hw mb) ?cs msg_id (Some data) False hw = Inr hw'"
    "dataLen (FlexCAN_GetMsgBuff hw' mb zero_msg) = 64" "msg_cs (FlexCAN_GetMsgBuff hw' mb zero_msg) = ?w"
    "msgId (FlexCAN_GetMsgBuff hw' mb zero_msg) = msg_id AND 0x7FF" "msg_data (FlexCAN_GetMsgBuff hw' mb zero_msg) = data"
    "same_but (mb_words hw mb) hw hw'"
    using tx_read_back [of mb ?cs 64 data 64 hw zero_msg msg_id False] assms by (auto simp: zero_msg_def)
  have "mb_code hw' mb = FLEXCAN_TX_DATA"
    unfolding mb_code_msg [of _ _ zero_msg] h(3) tx_config_code by simp
  moreover have "bus_frame_of hw' mb = \<lparr>bus_id = msg_id AND 0x7FF, bus_ext = False, bus_fd = True, bus_brs = True, bus_data = data\<rparr>"
    unfolding bus_frame_of_def Let_def h(2-5) tx_config_ide tx_config_fd using assms(3) by simp
  ultimately show ?thesis using h(1,6) by blast
qed

lemma send_idle:
  fixes data :: "u8 list"
  assumes r: "tx_ready mb d" and idle: "mb_state (mb_of 0 mb d) = FLEXCAN_MB_IDLE" and l: "length data = 64"
  shows "\<exists>hw'. FlexCAN_Ip_Send 0 mb tx_info msg_id (Some data) d =
      Inr (upd_hw 0 (\<lambda>_. hw') (upd_mb 0 (unat mb) (\<lambda>m. m\<lparr>mb_state := FLEXCAN_MB_TX_BUSY, mb_time_stamp := 0, isPolling := True, isRemote := False\<rparr>) d),
        FLEXCAN_STATUS_SUCCESS) \<and>
    mb_code hw' (ucast mb) = FLEXCAN_TX_DATA \<and>
    bus_frame_of hw' (ucast mb) = \<lparr>bus_id = msg_id AND 0x7FF, bus_ext = False, bus_fd = True, bus_brs = True, bus_data = data\<rparr> \<and>
    same_but (mb_words (can_hw d 0) (ucast mb)) (FlexCAN_ClearMsgBuffIntStatusFlag (ucast mb) (can_hw d 0)) hw'"
proof -
  let ?hw = "FlexCAN_ClearMsgBuffIntStatusFlag (ucast mb) (can_hw d 0)"
  have m: "mb_ready 0 mb d" "FlexCAN_GetMbPayloadSize (can_hw d 0) (ucast mb) = 64" "\<not> FlexCAN_IsListenOnlyModeEnabled (can_hw d 0)"
    using r by (simp_all add: tx_ready_def)
  obtain st where st: "can_state d 0 = Some st" "\<not> bIsLegacyFifoEn st" "mb < ucast (u32MaxMbNum st)" "unat mb < length (mbs st)" "unat mb < 128"
    "mbs st ! unat mb = mb_of 0 mb d"
    using m(1) by (auto simp: mb_ready_def mb_of_def)
  have w: "mb_words ?hw (ucast mb) = mb_words (can_hw d 0) (ucast mb)" by (simp add: mb_words_def)
  have "FlexCAN_GetMbPayloadSize ?hw (ucast mb) = 64" using m(2) by simp
  from set_tx_frame [OF _ this l, of 1 msg_id] st(5)
  obtain hw' where "FlexCAN_SetTxMsgBuff (FlexCAN_GetMsgBuffRegion (can_hw d 0) (ucast mb))
      \<lparr>cs_code = FLEXCAN_TX_DATA, cs_msgIdType = FLEXCAN_MSG_ID_STD, cs_dataLen = 64, cs_fd_enable = True, cs_fd_padding = 1, cs_enable_brs = True\<rparr>
      msg_id (Some data) False ?hw = Inr hw'"
    "mb_code hw' (ucast mb) = FLEXCAN_TX_DATA"
    "bus_frame_of hw' (ucast mb) = \<lparr>bus_id = msg_id AND 0x7FF, bus_ext = False, bus_fd = True, bus_brs = True, bus_data = data\<rparr>"
    "same_but (mb_words (can_hw d 0) (ucast mb)) ?hw hw'"
    unfolding w by auto
  with m st idle show ?thesis
    by (intro exI [of _ hw'])
       (simp add: FlexCAN_Ip_Send_def FlexCAN_StartSendData_def with_instance_at tx_info_def FlexCAN_IsMbOutOfRange_def)
qed

lemma flag_same_but: "same_but X hw hw' \<Longrightarrow> FlexCAN_GetBuffStatusFlag hw' mb = FlexCAN_GetBuffStatusFlag hw mb"
  by (auto simp: same_but_def FlexCAN_GetBuffStatusFlag_def)

lemma layout_same_but: "same_but X hw hw' \<Longrightarrow> FlexCAN_GetMbPayloadSize hw' mb = FlexCAN_GetMbPayloadSize hw mb \<and> CAN_CTRL1 hw' = CAN_CTRL1 hw \<and> IFLAG hw' = IFLAG hw"
  using layout_cong(2) [of hw' hw mb] by (auto simp: same_but_def)

lemma mb_ready_upd_hw [simp]: "mb_ready i mb (upd_hw j f d) \<longleftrightarrow> mb_ready i mb d" "mb_of i mb (upd_hw j f d) = mb_of i mb d"
  by (simp_all add: mb_ready_def mb_of_def)

lemma can_gw_upd_hw [simp]: "can_gw (upd_hw i f d) = can_gw d"
  using can_gw_more [of d] can_gw_more [of "upd_hw i f d"] by simp

lemma status_of:
  assumes "mb_ready 0 mb d"
  shows "FlexCAN_Ip_GetTransferStatus 0 mb d = Inr (if mb_state (mb_of 0 mb d) = FLEXCAN_MB_IDLE then FLEXCAN_STATUS_SUCCESS else FLEXCAN_STATUS_BUSY)"
  using assms by (auto simp: FlexCAN_Ip_GetTransferStatus_def mb_ready_def mb_of_def with_instance_at)

text \<open>
  The two states between rounds: the mailbox holds an active frame, or it is idle or confirmed, so that the next round
  sends.
\<close>

definition tx_sending :: "CanTxTaskParam_t \<Rightarrow> u32 \<Rightarrow> can_sys \<Rightarrow> bool" where
  "tx_sending p c d \<longleftrightarrow> tx_ready (mbIdx p) d \<and> mb_state (mb_of 0 (mbIdx p) d) = FLEXCAN_MB_TX_BUSY \<and> \<not> isRemote (mb_of 0 (mbIdx p) d) \<and>
    FlexCAN_GetBuffStatusFlag (can_hw d 0) (ucast (mbIdx p)) = 0 \<and>
    mb_code (can_hw d 0) (ucast (mbIdx p)) = FLEXCAN_TX_DATA \<and> bus_frame_of (can_hw d 0) (ucast (mbIdx p)) = tx_frame p c"

definition tx_waiting :: "CanTxTaskParam_t \<Rightarrow> can_sys \<Rightarrow> bool" where
  "tx_waiting p d \<longleftrightarrow> tx_ready (mbIdx p) d \<and>
    (mb_state (mb_of 0 (mbIdx p) d) = FLEXCAN_MB_IDLE \<or>
     mb_state (mb_of 0 (mbIdx p) d) = FLEXCAN_MB_TX_BUSY \<and> \<not> isRemote (mb_of 0 (mbIdx p) d) \<and>
     FlexCAN_GetBuffStatusFlag (can_hw d 0) (ucast (mbIdx p)) \<noteq> 0)"

lemma send_pass:
  assumes r: "tx_ready (mbIdx p) d" and idle: "mb_state (mb_of 0 (mbIdx p) d) = FLEXCAN_MB_IDLE"
    and w: "FlexCAN_Ip_MainFunctionWrite (CAN0_Callback_SKKU pad rx) 0 (mbIdx p) d0 = Inr d"
  shows "\<exists>d1. CAN_SendTask_Generic_pass pad rx p (c, d0) = Inr (c + 1, d1) \<and> tx_sending p (c + 1) d1 \<and>
    canStats (can_gw d1) = (canStats (can_gw d))\<lparr>txCount := txCount (canStats (can_gw d)) + 1\<rparr>"
proof -
  let ?mb = "mbIdx p" and ?data = "le32 (c + 1) @ replicate 60 0"
  have m: "mb_ready 0 ?mb d" "length (IFLAG (can_hw d 0)) = 4" using r by (simp_all add: tx_ready_def)
  define f where "f = (\<lambda>m :: Flexcan_Ip_MBhandleType. m\<lparr>mb_state := FLEXCAN_MB_TX_BUSY, mb_time_stamp := 0, isPolling := True, isRemote := False\<rparr>)"
  obtain hw' where h: "FlexCAN_Ip_Send 0 ?mb tx_info (canId p) (Some ?data) d = Inr (upd_hw 0 (\<lambda>_. hw') (upd_mb 0 (unat ?mb) f d), FLEXCAN_STATUS_SUCCESS)"
    "mb_code hw' (ucast ?mb) = FLEXCAN_TX_DATA" "bus_frame_of hw' (ucast ?mb) = tx_frame p (c + 1)"
    "same_but (mb_words (can_hw d 0) (ucast ?mb)) (FlexCAN_ClearMsgBuffIntStatusFlag (ucast ?mb) (can_hw d 0)) hw'"
    using send_idle [OF r idle, of ?data "canId p"] by (auto simp: f_def tx_frame_def)
  let ?s = "canStats (can_gw d)"
  define d1 where "d1 = (upd_hw 0 (\<lambda>_. hw') (upd_mb 0 (unat ?mb) f d))\<lparr>can_gw := (can_gw d)\<lparr>canStats := ?s\<lparr>txCount := txCount ?s + 1\<rparr>\<rparr>\<rparr>"
  have run: "CAN_SendTask_Generic_pass pad rx p (c, d0) = Inr (c + 1, d1)"
    unfolding CAN_SendTask_Generic_pass_def using w status_of [OF m(1)] idle h(1) by (simp add: d1_def Let_def)
  have mb1: "mb_of 0 ?mb d1 = f (mb_of 0 ?mb d)" "mb_ready 0 ?mb d1" using mb_of_upd [OF m(1), of 0 ?mb f] m(1) by (simp_all add: d1_def)
  have hw1: "can_hw d1 0 = hw'" by (simp add: d1_def)
  have fl: "FlexCAN_GetBuffStatusFlag hw' (ucast ?mb) = 0" unfolding flag_same_but [OF h(4)] by (rule clear_flag_same [OF m(2)])
  have "tx_ready ?mb d1"
    using r mb1(2) layout_same_but [OF h(4), of "ucast ?mb"]
    by (simp add: tx_ready_def hw1 FlexCAN_IsListenOnlyModeEnabled_def) (simp add: FlexCAN_ClearMsgBuffIntStatusFlag_def)
  with run h fl mb1(1) show ?thesis
    by (intro exI [of _ d1]) (simp add: tx_sending_def hw1 f_def, simp add: d1_def)
qed

text \<open>A confirmed transmission: the flag of the mailbox is raised.\<close>

lemma confirm:
  assumes r: "tx_ready mb d" and st: "mb_state (mb_of 0 mb d) = FLEXCAN_MB_TX_BUSY" "\<not> isRemote (mb_of 0 mb d)"
    and fl: "FlexCAN_GetBuffStatusFlag (can_hw d 0) (ucast mb) \<noteq> 0"
  shows "\<exists>d1. FlexCAN_Ip_MainFunctionWrite (CAN0_Callback_SKKU pad rx) 0 mb d = Inr d1 \<and> tx_ready mb d1 \<and>
    mb_state (mb_of 0 mb d1) = FLEXCAN_MB_IDLE \<and> can_gw d1 = can_gw d"
proof -
  have m: "mb_ready 0 mb d" using r by (simp add: tx_ready_def)
  obtain s where s: "can_state d 0 = Some s" "unat mb < length (mbs s)" "has_callback s" "mbs s ! unat mb = mb_of 0 mb d"
    using m by (auto simp: mb_ready_def mb_of_def)
  define d1 where "d1 = tx_complete 0 (ucast mb) s d"
  have c: "d1 = upd_hw 0 (FlexCAN_ClearMsgBuffIntStatusFlag (ucast mb))
      (upd_mb 0 (unat mb) (\<lambda>h. h\<lparr>mb_time_stamp := FlexCAN_GetMsgBuffTimestamp (can_hw d 0) (ucast mb), mb_state := FLEXCAN_MB_IDLE\<rparr>) d)"
    using st(2) s(4) by (simp add: d1_def tx_complete_def Let_def)
  have s1: "\<exists>s1. can_state d1 0 = Some s1 \<and> has_callback s1" using s by (simp add: c)
  then have "FlexCAN_Ip_MainFunctionWrite (CAN0_Callback_SKKU pad rx) 0 mb d = Inr d1"
    using fl s st(1) by (auto simp: FlexCAN_Ip_MainFunctionWrite_def with_instance_at run_callback_def CAN0_Callback_SKKU_def simp flip: d1_def)
  moreover have "mb_state (mb_of 0 mb d1) = FLEXCAN_MB_IDLE" using m by (simp add: c mb_of_upd)
  moreover have "tx_ready mb d1"
    using r m by (simp add: tx_ready_def c) (simp add: FlexCAN_IsListenOnlyModeEnabled_def FlexCAN_ClearMsgBuffIntStatusFlag_def)
  ultimately show ?thesis by (intro exI [of _ d1]) (simp add: c)
qed

lemma pass_waiting:
  assumes "tx_waiting p d"
  shows "\<exists>d1. CAN_SendTask_Generic_pass pad rx p (c, d) = Inr (c + 1, d1) \<and> tx_sending p (c + 1) d1 \<and>
    canStats (can_gw d1) = (canStats (can_gw d))\<lparr>txCount := txCount (canStats (can_gw d)) + 1\<rparr>"
proof -
  have r: "tx_ready (mbIdx p) d" and m: "mb_ready 0 (mbIdx p) d" using assms by (simp_all add: tx_waiting_def tx_ready_def)
  show ?thesis
  proof (cases "mb_state (mb_of 0 (mbIdx p) d) = FLEXCAN_MB_IDLE")
    case True
    have "FlexCAN_Ip_MainFunctionWrite (CAN0_Callback_SKKU pad rx) 0 (mbIdx p) d = Inr d"
      using m True by (auto simp: FlexCAN_Ip_MainFunctionWrite_def mb_ready_def mb_of_def with_instance_at)
    from send_pass [OF r True this] show ?thesis .
  next
    case False
    then obtain d1 where d1: "FlexCAN_Ip_MainFunctionWrite (CAN0_Callback_SKKU pad rx) 0 (mbIdx p) d = Inr d1" "tx_ready (mbIdx p) d1"
      "mb_state (mb_of 0 (mbIdx p) d1) = FLEXCAN_MB_IDLE" "can_gw d1 = can_gw d"
      using confirm [OF r] assms by (auto simp: tx_waiting_def)
    from send_pass [OF d1(2,3,1)] d1(4) show ?thesis by simp
  qed
qed

lemma pass_sending:
  assumes "tx_sending p c d"
  shows "CAN_SendTask_Generic_pass pad rx p (c, d) = Inr (c, d)"
proof -
  have m: "mb_ready 0 (mbIdx p) d" using assms by (simp add: tx_sending_def tx_ready_def)
  show ?thesis
    using assms status_of [OF m] by (simp add: tx_sending_def CAN_SendTask_Generic_pass_def FlexCAN_Ip_MainFunctionWrite_def)
qed

lemma bus_sending:
  assumes "tx_sending p c d"
  shows "\<exists>hw. bus_step (ucast (mbIdx p)) (can_hw d 0) = ([tx_frame p c], hw) \<and> tx_waiting p (upd_hw 0 (\<lambda>_. hw) d)"
proof -
  let ?mb = "ucast (mbIdx p) :: u32" and ?hw = "raise_flag (ucast (mbIdx p)) (set_code (ucast (mbIdx p)) FLEXCAN_TX_INACTIVE (can_hw d 0))"
  have l: "length (IFLAG (can_hw d 0)) = 4" and r: "tx_ready (mbIdx p) d" using assms by (simp_all add: tx_sending_def tx_ready_def)
  have "bus_step ?mb (can_hw d 0) = ([tx_frame p c], ?hw)" using assms by (simp add: bus_step_def tx_sending_def)
  moreover have "FlexCAN_GetBuffStatusFlag ?hw ?mb \<noteq> 0" using l by (intro raise_flag_same) simp
  moreover have "FlexCAN_GetMbPayloadSize ?hw ?mb = FlexCAN_GetMbPayloadSize (can_hw d 0) ?mb" by (rule layout_cong) simp
  ultimately show ?thesis using assms
    by (intro exI [of _ ?hw]) (simp add: tx_waiting_def tx_sending_def tx_ready_def FlexCAN_IsListenOnlyModeEnabled_def)
qed

text \<open>
  Rounds of the transmit task. Between two rounds the controller may or may not get to transmit the mailbox; the
  result collects the frames that appear on the bus.
\<close>

fun tx_rounds :: "u8 list \<Rightarrow> u32 \<Rightarrow> CanTxTaskParam_t \<Rightarrow> bool list \<Rightarrow> u32 \<times> can_sys \<Rightarrow> (bus_frame list \<times> u32 \<times> can_sys) res" where
  "tx_rounds pad rx p [] cd = Inr ([], cd)"
| "tx_rounds pad rx p (b # bs) cd =
    rbind (CAN_SendTask_Generic_pass pad rx p cd) (\<lambda>(c, d).
    let (fs, hw) = (if b then bus_step (ucast (mbIdx p)) (can_hw d 0) else ([], can_hw d 0))
    in rbind (tx_rounds pad rx p bs (c, upd_hw 0 (\<lambda>_. hw) d)) (\<lambda>(fs', cd'). Inr (fs @ fs', cd')))"

lemma upd_hw_id [simp]: "upd_hw i (\<lambda>_. can_hw d i) d = d"
  by (simp add: upd_hw_def)

lemma pass_any:
  assumes "if h then tx_sending p (c + 1) d else tx_waiting p d"
  shows "\<exists>d1. CAN_SendTask_Generic_pass pad rx p (c + of_bool h, d) = Inr (c + 1, d1) \<and> tx_sending p (c + 1) d1 \<and>
    canStats (can_gw d1) = (canStats (can_gw d))\<lparr>txCount := txCount (canStats (can_gw d)) + of_bool (\<not> h)\<rparr>"
  using assms pass_waiting [of p d pad rx c] pass_sending [of p "c + 1" d pad rx] by (cases h) auto

lemma tx_rounds_result:
  fixes bs h
  defines "n \<equiv> count_list bs True" and "k \<equiv> (if bs = [] then h else \<not> last bs)"
  assumes "if h then tx_sending p (c + 1) d else tx_waiting p d"
  shows "\<exists>d'. tx_rounds pad rx p bs (c + of_bool h, d) =
      Inr (map (\<lambda>j. tx_frame p (c + of_nat j)) [1..<Suc n], c + of_nat n + of_bool k, d') \<and>
    canStats (can_gw d') = (canStats (can_gw d))\<lparr>txCount := txCount (canStats (can_gw d)) + of_nat n + of_bool k - of_bool h\<rparr>"
  using assms(3) unfolding n_def k_def
proof (induction bs arbitrary: h c d)
  case (Cons b bs)
  obtain d1 where d1: "CAN_SendTask_Generic_pass pad rx p (c + of_bool h, d) = Inr (c + 1, d1)" "tx_sending p (c + 1) d1"
    "canStats (can_gw d1) = (canStats (can_gw d))\<lparr>txCount := txCount (canStats (can_gw d)) + of_bool (\<not> h)\<rparr>"
    using pass_any [OF Cons.prems] by blast
  show ?case
  proof (cases b)
    case True
    obtain hw where hw: "bus_step (ucast (mbIdx p)) (can_hw d1 0) = ([tx_frame p (c + 1)], hw)" "tx_waiting p (upd_hw 0 (\<lambda>_. hw) d1)"
      using bus_sending [OF d1(2)] by blast
    let ?n = "count_list bs True"
    have "map (\<lambda>j. tx_frame p (c + 1 + of_nat j)) [1..<Suc ?n] = map (\<lambda>j. tx_frame p (c + of_nat j)) [Suc 1..<Suc (Suc ?n)]"
      by (simp only: map_Suc_upt [symmetric] map_map comp_def of_nat_Suc add.assoc)
    then have fr: "tx_frame p (c + 1) # map (\<lambda>j. tx_frame p (c + 1 + of_nat j)) [1..<Suc ?n] = map (\<lambda>j. tx_frame p (c + of_nat j)) [1..<Suc (Suc ?n)]"
      by (simp add: upt_conv_Cons del: upt_Suc)
    let ?k = "if bs = [] then False else \<not> last bs" and ?d2 = "upd_hw 0 (\<lambda>_. hw) d1"
    obtain d' where d': "tx_rounds pad rx p bs (c + 1, ?d2) =
        Inr (map (\<lambda>j. tx_frame p (c + 1 + of_nat j)) [1..<Suc ?n], c + 1 + of_nat ?n + of_bool ?k, d')"
      "canStats (can_gw d') = (canStats (can_gw ?d2))\<lparr>txCount := txCount (canStats (can_gw ?d2)) + of_nat ?n + of_bool ?k\<rparr>"
      using Cons.IH [of False "c + 1" ?d2] hw(2) by (auto simp del: upt_Suc)
    have "tx_rounds pad rx p (b # bs) (c + of_bool h, d) =
        Inr (map (\<lambda>j. tx_frame p (c + of_nat j)) [1..<Suc (Suc ?n)], c + 1 + of_nat ?n + of_bool ?k, d')"
      unfolding fr [symmetric] using d1(1) hw(1) d'(1) True by (simp del: upt_Suc)
    then show ?thesis using d'(2) d1(3) True by (intro exI [of _ d']) (simp add: algebra_simps del: upt_Suc)
  next
    case False
    let ?n = "count_list bs True" and ?k = "if bs = [] then True else \<not> last bs"
    obtain d' where d': "tx_rounds pad rx p bs (c + 1, d1) =
        Inr (map (\<lambda>j. tx_frame p (c + of_nat j)) [1..<Suc ?n], c + of_nat ?n + of_bool ?k, d')"
      "canStats (can_gw d') = (canStats (can_gw d1))\<lparr>txCount := txCount (canStats (can_gw d1)) + of_nat ?n + of_bool ?k - 1\<rparr>"
      using Cons.IH [of True c d1] d1(2) by (auto simp del: upt_Suc)
    have "tx_rounds pad rx p (b # bs) (c + of_bool h, d) =
        Inr (map (\<lambda>j. tx_frame p (c + of_nat j)) [1..<Suc ?n], c + of_nat ?n + of_bool ?k, d')"
      using d1(1) d'(1) False by (simp del: upt_Suc)
    then show ?thesis using d'(2) d1(3) False by (intro exI [of _ d']) (simp add: algebra_simps del: upt_Suc)
  qed
qed simp

section \<open>Properties\<close>

text \<open>(C6)
  From the mailboxes to the queue. Once the handles of all polled mailboxes point to the global message, polling
  delivers: for any sequence of rounds and any frames that the controllers store in the mailboxes between the rounds
  (an earlier frame in the same mailbox is overwritten by a later one of the same round), starting with no frame
  waiting, the rounds return, and the last frame of each mailbox is offered to the queue once, in the round that
  follows its arrival and never again, with the contents read from RAM, in polling order; no frame stays behind; the
  queue refuses only what does not fit. Each offer is an \<open>Accepted\<close> or \<open>Refused\<close> event of the gateway system, so the
  end-to-end properties apply to what follows.
\<close>

theorem polling_delivers_in_order:
  assumes "polls_ok rx (poll_mboxes p) d" "\<forall>x \<in> set (poll_mboxes p). primed_at rx d x" "none_pending p d" "arrivals_ok ass"
    and "mb_count p \<le> 4" "distinct (poll_mboxes p)" "length pad = 2"
  shows "\<exists>d'. poll_rounds legacy enhanced pad rx local p ass d = Inr d' \<and> none_pending p d' \<and>
    queued_ipdus (can_gw d') = foldl (offer (can_cap (can_gw d))) (queued_ipdus (can_gw d))
      (map snd (concat (map (polled p (can_hw d)) ass))) \<and>
    offers_as_events (can_gw d) (can_gw d') (map snd (concat (map (polled p (can_hw d)) ass)))"
proof -
  let ?r = "concat (map (polled p (can_hw d)) ass)"
  have "fst ` set ?r \<subseteq> set (poll_mboxes p)" by (auto simp: polled_def List.map_filter_def)
  then have "lossy (set (poll_mboxes p)) (ipdus_of (msg_at d rx)) ?r = map snd ?r" by (rule lossy_seen)
  moreover have "\<forall>x \<in> set (poll_mboxes p). primed_at rx d x \<longleftrightarrow> x \<in> set (poll_mboxes p)" using assms(2) by simp
  ultimately show ?thesis using rounds_lossy [OF assms(1,3,4) _ assms(5-7), of "set (poll_mboxes p)" legacy enhanced local] by simp
qed

text \<open>(C7)
  The first frame of every mailbox is lost. The polling task arms the mailboxes with the local \<open>rxShadow\<close>, the
  callback enqueues the global \<open>rxData\<close> and arms the mailbox with \<open>rxData\<close>. For any frames arriving between the rounds
  from the start of the task on, with no frame waiting then: the first frame polled from a mailbox is read into the
  array and never offered to the queue, which gets the contents of \<open>rxData\<close> at that time in its place (the initial ones
  or those of an earlier frame, which is thus queued twice); every later frame of the mailbox is offered once.
\<close>

theorem first_frame_lost:
  assumes "poll_start rx sh p d" "none_pending p d" "arrivals_ok ass" "length pad = 2"
  shows "\<exists>d0 d'. CAN_Receive_Polling_Task_init sh p d = Inr d0 \<and> poll_rounds legacy enhanced pad rx local p ass d0 = Inr d' \<and>
    queued_ipdus (can_gw d') = foldl (offer (can_cap (can_gw d))) (queued_ipdus (can_gw d))
      (lossy {} (ipdus_of (msg_at d rx)) (concat (map (polled p (can_hw d)) ass)))"
proof -
  have p: "mb_count p \<le> 4" "distinct (poll_mboxes p)" using assms(1) by (simp_all add: poll_start_def)
  obtain d0 where d0: "CAN_Receive_Polling_Task_init sh p d = Inr d0" "polls_ok rx (poll_mboxes p) d0"
    "\<forall>x \<in> set (poll_mboxes p). primed_at rx d0 x \<longleftrightarrow> x \<in> {}" "msg_at d0 = msg_at d" "can_gw d0 = can_gw d" "can_hw d0 = can_hw d"
    using init_starts [OF assms(1)] by auto
  have "none_pending p d0" using assms(2) by (simp add: none_pending_def d0(6))
  from rounds_lossy [OF d0(2) this assms(3) d0(3) p assms(4), of legacy enhanced local] d0(1)
  show ?thesis unfolding d0(4-6) by blast
qed

text \<open>(C10)
  The transmit task sends each counter value in one frame. A CAN controller sends a mailbox only while its code field
  marks it as a pending data frame, and then makes it inactive and raises its flag. For any sequence of rounds,
  with or without an opportunity to transmit behind each, from an idle mailbox: the bus sees one frame for each
  opportunity, CAN FD frames with bit rate switch under the configured identifier, carrying the counter values
  \<open>c + 1\<close>, \<open>c + 2\<close> and so on, without gap or repetition; the counter and \<open>txCount\<close> are ahead by one exactly while a
  frame waits in the mailbox, and a round before the controller confirms sends nothing.
\<close>

theorem send_task_counts:
  assumes "tx_ready (mbIdx p) d" "mb_state (mb_of 0 (mbIdx p) d) = FLEXCAN_MB_IDLE"
  shows "let n = count_list bs True; k = of_bool (bs \<noteq> [] \<and> \<not> last bs) in
    \<exists>d'. tx_rounds pad rx p bs (c, d) = Inr (map (\<lambda>j. tx_frame p (c + of_nat j)) [1..<Suc n], c + of_nat n + k, d') \<and>
    canStats (can_gw d') = (canStats (can_gw d))\<lparr>txCount := txCount (canStats (can_gw d)) + of_nat n + k\<rparr>"
proof -
  have "tx_waiting p d" using assms(1,2) by (simp add: tx_waiting_def)
  moreover have "(if bs = [] then False else \<not> last bs) \<longleftrightarrow> bs \<noteq> [] \<and> \<not> last bs" by simp
  ultimately show ?thesis using tx_rounds_result [of False p c d pad rx bs] unfolding Let_def by (simp only: of_bool_eq if_False add_0_right diff_zero)
qed

section \<open>Examples\<close>

definition ex_can :: "qkernel \<Rightarrow> can_sys" where
  "ex_can k =
    \<lparr>can_hw = \<lambda>_. ex_can_hw,
     can_state = \<lambda>i. if i < 2 then Some \<lparr>mbs = replicate 8 \<lparr>pMBmessage = 0, mb_state = FLEXCAN_MB_IDLE, isPolling = True, isRemote = False, mb_time_stamp = 0\<rparr>,
       enhanced_state = FLEXCAN_MB_IDLE, bIsLegacyFifoEn = False, u32MaxMbNum = 8, isIntActive = True, has_callback = True\<rparr> else None,
     imask_buff = \<lambda>_. [0, 0, 0, 0], msg_at = \<lambda>_. zero_msg, can_gw = sys_gw (ex_sys k)\<rparr>"

definition ex_words :: can_words where
  "ex_words k = (if k = 0 then 0x80000 else if k = 1 then push_bit 18 2 else 0)"

lemma ex_mboxes: "poll_mboxes start_CAN_rxp = [(0, 0), (0, 1), (1, 0), (1, 1)]"
  by (simp add: poll_mboxes_def poll_slots_def start_CAN_rxp_def upt_rec)

lemma ex_frame_read:
  "msgId (frame_msg ex_can_hw 0 ex_words zero_msg) = 2" "dataLen (frame_msg ex_can_hw 0 ex_words zero_msg) = 8"
  "take 8 (msg_data (frame_msg ex_can_hw 0 ex_words zero_msg)) = replicate 8 0"
  by code_simp+

lemma ex_polled: "h 0 = ex_can_hw \<Longrightarrow> polled start_CAN_rxp h [((0, 0), ex_words)] = [((0, 0), [(1002, replicate 8 0)])]"
  by (simp add: polled_def ex_mboxes List.map_filter_simps arrived_def ipdus_of_def Let_def ex_frame_read pdu_id_lookup)

lemma ex_none_pending: "can_hw d = (\<lambda>_. ex_can_hw) \<Longrightarrow> none_pending start_CAN_rxp d"
proof -
  have "FlexCAN_GetBuffStatusFlag ex_can_hw 0 = 0" "FlexCAN_GetBuffStatusFlag ex_can_hw 1 = 0" by code_simp+
  then show "can_hw d = (\<lambda>_. ex_can_hw) \<Longrightarrow> none_pending start_CAN_rxp d" by (simp add: none_pending_def pending_def ex_mboxes)
qed

lemma ex_poll_start:
  assumes "queue_ok (sys_gw (ex_sys k))"
  shows "poll_start 0x1000 0x100 start_CAN_rxp (ex_can k)"
proof -
  have mb: "mb_ready i mb (ex_can k) \<and> mb_state (mb_of i mb (ex_can k)) = FLEXCAN_MB_IDLE" if "i < 2" "mb < 8" for i mb
  proof -
    have "i < FLEXCAN_INSTANCE_COUNT" using that(1) by (simp add: word_less_nat_alt)
    moreover have "unat mb < 8" using that(2) by (simp add: word_less_nat_alt)
    ultimately show ?thesis using that by (simp add: mb_ready_def mb_of_def ex_can_def)
  qed
  have "\<forall>i < unat (mb_count start_CAN_rxp). 0x100 + 80 * of_nat i \<noteq> (0 :: u32) \<and> 0x100 + 80 * of_nat i \<noteq> (0x1000 :: u32)"
    by (auto simp: start_CAN_rxp_def less_2_cases_iff)
  moreover have "\<forall>(i, mb) \<in> set (poll_mboxes start_CAN_rxp). i < 2 \<and> mb_ready i mb (ex_can k) \<and> mb_state (mb_of i mb (ex_can k)) = FLEXCAN_MB_IDLE"
    using mb [of 0 0] mb [of 0 1] mb [of 1 0] mb [of 1 1] by (simp add: ex_mboxes)
  ultimately show ?thesis
    using assms by (simp add: poll_start_def ex_mboxes) (simp add: ex_can_def zero_msg_def msg_ok_def ex_can_hw_def start_CAN_rxp_def)
qed

definition ex_primed :: "qkernel \<Rightarrow> can_sys" where
  "ex_primed k = (ex_can k)\<lparr>can_state := \<lambda>i. map_option (\<lambda>st. st\<lparr>mbs := replicate 8
     \<lparr>pMBmessage = 0x1000, mb_state = FLEXCAN_MB_RX_BUSY, isPolling = True, isRemote = False, mb_time_stamp = 0\<rparr>\<rparr>) (can_state (ex_can k) i)\<rparr>"

lemma ex_primed_ok:
  assumes "queue_ok (sys_gw (ex_sys k))"
  shows "polls_ok 0x1000 (poll_mboxes start_CAN_rxp) (ex_primed k)" "\<forall>x \<in> set (poll_mboxes start_CAN_rxp). primed_at 0x1000 (ex_primed k) x"
proof -
  have mb: "armed (ex_primed k) (i, mb) \<and> primed_at 0x1000 (ex_primed k) (i, mb)" if "i < 2" "mb < 8" for i mb
  proof -
    have "i < FLEXCAN_INSTANCE_COUNT" using that(1) by (simp add: word_less_nat_alt)
    moreover have "unat mb < 8" using that(2) by (simp add: word_less_nat_alt)
    ultimately show ?thesis using that by (simp add: armed_def primed_at_def mb_ready_def mb_of_def ex_primed_def ex_can_def)
  qed
  have a: "\<forall>x \<in> set (poll_mboxes start_CAN_rxp). armed (ex_primed k) x \<and> primed_at 0x1000 (ex_primed k) x"
    using mb [of 0 0] mb [of 0 1] mb [of 1 0] mb [of 1 1] by (simp add: ex_mboxes)
  then show "polls_ok 0x1000 (poll_mboxes start_CAN_rxp) (ex_primed k)"
    using assms by (simp add: polls_ok_def) (simp add: ex_primed_def ex_can_def zero_msg_def msg_ok_def ex_can_hw_def)
  show "\<forall>x \<in> set (poll_mboxes start_CAN_rxp). primed_at 0x1000 (ex_primed k) x" using a by blast
qed

theorem polling_delivers_in_order_witness:
  "\<exists>k d'. poll_rounds Inr ((0x80000000, 31), Inr) [0, 0] 0x1000 0x2000 start_CAN_rxp [[((0, 0), ex_words)], [], [((0, 0), ex_words)]] (ex_primed k) = Inr d' \<and>
     queued_ipdus (can_gw d') = [[(1002, replicate 8 0)], [(1002, replicate 8 0)]]"
proof -
  obtain k where k: "ex_initial (ex_sys k)" "can_cap (sys_gw (ex_sys k)) = 64" using ex_initial_state by blast
  then have q: "queue_ok (sys_gw (ex_sys k))" "queued_ipdus (sys_gw (ex_sys k)) = []" by (simp_all add: gw_initial_def Let_def queued_ipdus_def)
  have g: "can_gw (ex_primed k) = sys_gw (ex_sys k)" "can_hw (ex_primed k) = (\<lambda>_. ex_can_hw)" by (simp_all add: ex_primed_def ex_can_def)
  have c: "mb_count start_CAN_rxp \<le> 4" "distinct (poll_mboxes start_CAN_rxp)" by (simp add: start_CAN_rxp_def) (simp add: ex_mboxes)
  let ?ass = "[[((0, 0), ex_words)], [], [((0, 0), ex_words)]]"
  have a: "arrivals_ok ?ass" by (simp add: arrivals_ok_def)
  have e: "polled start_CAN_rxp (\<lambda>_. ex_can_hw) [] = []" by (simp add: polled_def ex_mboxes List.map_filter_simps)
  obtain d' where "poll_rounds Inr ((0x80000000, 31), Inr) [0, 0] 0x1000 0x2000 start_CAN_rxp ?ass (ex_primed k) = Inr d'"
    "queued_ipdus (can_gw d') = foldl (offer 64) [] (map snd (concat (map (polled start_CAN_rxp (\<lambda>_. ex_can_hw)) ?ass)))"
    using polling_delivers_in_order [OF ex_primed_ok [OF q(1)] ex_none_pending [OF g(2)] a c, of "[0, 0]" Inr "((0x80000000, 31), Inr)" "0x2000"]
    unfolding g q(2) k(2) by auto
  then show ?thesis by (intro exI [of _ k] exI [of _ d']) (simp add: ex_polled e offer_def)
qed

theorem first_frame_lost_witness:
  "\<exists>k d0 d'. CAN_Receive_Polling_Task_init 0x100 start_CAN_rxp (ex_can k) = Inr d0 \<and>
     poll_rounds Inr ((0x80000000, 31), Inr) [0, 0] 0x1000 0x2000 start_CAN_rxp [[((0, 0), ex_words)], [((0, 0), ex_words)]] d0 = Inr d' \<and>
     queued_ipdus (can_gw d') = [[], [(1002, replicate 8 0)]]"
proof -
  obtain k where k: "ex_initial (ex_sys k)" "can_cap (sys_gw (ex_sys k)) = 64" using ex_initial_state by blast
  then have q: "queue_ok (sys_gw (ex_sys k))" "queued_ipdus (sys_gw (ex_sys k)) = []" by (simp_all add: gw_initial_def Let_def queued_ipdus_def)
  have z: "ipdus_of zero_msg = []" by (simp add: ipdus_of_def zero_msg_def pdu_id_lookup)
  have g: "can_gw (ex_can k) = sys_gw (ex_sys k)" "msg_at (ex_can k) 0x1000 = zero_msg" "can_hw (ex_can k) = (\<lambda>_. ex_can_hw)" by (simp_all add: ex_can_def)
  let ?ass = "[[((0, 0), ex_words)], [((0, 0), ex_words)]]"
  have a: "arrivals_ok ?ass" by (simp add: arrivals_ok_def)
  obtain d0 d' where "CAN_Receive_Polling_Task_init 0x100 start_CAN_rxp (ex_can k) = Inr d0"
    "poll_rounds Inr ((0x80000000, 31), Inr) [0, 0] 0x1000 0x2000 start_CAN_rxp ?ass d0 = Inr d'"
    "queued_ipdus (can_gw d') = foldl (offer 64) [] (lossy {} [] (concat (map (polled start_CAN_rxp (\<lambda>_. ex_can_hw)) ?ass)))"
    using first_frame_lost [OF ex_poll_start [OF q(1)] ex_none_pending [OF g(3)] a, of "[0, 0]" Inr "((0x80000000, 31), Inr)" "0x2000"]
    unfolding g q(2) k(2) z by auto
  then show ?thesis by (intro exI [of _ k] exI [of _ d0] exI [of _ d']) (simp add: ex_polled offer_def)
qed

lemma ex_tx_ready: "tx_ready 4 (ex_can k)" "mb_state (mb_of 0 4 (ex_can k)) = FLEXCAN_MB_IDLE"
proof -
  have "FlexCAN_GetMbPayloadSize ex_can_hw 4 = 64" by code_simp
  then show "tx_ready 4 (ex_can k)"
    by (simp add: tx_ready_def mb_ready_def ex_can_def FlexCAN_IsListenOnlyModeEnabled_def) (simp add: ex_can_hw_def)
qed (simp add: mb_of_def ex_can_def)

theorem send_task_counts_witness:
  "\<exists>k d'. tx_rounds [0, 0] 0x1000 \<lparr>mbIdx = 4, canId = 1, periodMs = 16, offsetMs = 0\<rparr> [False, True, True] (0, ex_can k) =
     Inr ([\<lparr>bus_id = 1, bus_ext = False, bus_fd = True, bus_brs = True, bus_data = [1, 0, 0, 0] @ replicate 60 0\<rparr>,
           \<lparr>bus_id = 1, bus_ext = False, bus_fd = True, bus_brs = True, bus_data = [2, 0, 0, 0] @ replicate 60 0\<rparr>], 2, d')"
proof -
  let ?p = "\<lparr>mbIdx = 4, canId = 1, periodMs = 16, offsetMs = 0\<rparr>"
  have "tx_ready (mbIdx ?p) (ex_can zero_kernel)" "mb_state (mb_of 0 (mbIdx ?p) (ex_can zero_kernel)) = FLEXCAN_MB_IDLE"
    using ex_tx_ready by simp_all
  from send_task_counts [OF this, of "[False, True, True]" "[0, 0]" "0x1000" 0] show ?thesis
    by (intro exI [of _ zero_kernel]) (auto simp: tx_frame_def le32_def upt_rec)
qed

end
