(* ===== verification/Freertos_Sched.thy ===== *)
theory Freertos_Sched
  imports Freertos_Tasks
begin

text \<open>
  What the lists of the scheduler mean. \<open>lists_ok k F\<close> says that the list at each address \<open>L\<close> with
  \<open>F L = Some xs\<close> holds the items \<open>xs\<close> and that no two lists share an item; the list operations change one list of \<open>F\<close>
  and leave the others alone. On top of it, \<open>sched_ok\<close> is the invariant of the ready and delayed lists: delayed tasks
  are sorted by wake time, all in the future, and \<open>xNextTaskUnblockTime\<close> is not later than the first.
  \<open>sleeping\<close> reads off the ticks each sleeping task still has to wait, in both delayed lists.

  Shown for the operations of \<open>tasks.c\<close>: a tick takes one off the remaining time of every sleeper and makes exactly
  those ready whose time is up (\<open>tick_step\<close>), a delay puts the running task to sleep for the time given
  (\<open>delay_whole\<close>), and a switch selects the next task in turn of the highest ready list (\<open>switch_step\<close>).
\<close>

section \<open>Many lists in one heap\<close>

definition ring :: "(u32 \<rightharpoonup> u32 list) \<Rightarrow> u32 \<Rightarrow> u32 set" where
  "ring F L = (case F L of None \<Rightarrow> {} | Some xs \<Rightarrow> set (xListEnd L # xs))"

definition lists_ok :: "'a list_heap_scheme \<Rightarrow> (u32 \<rightharpoonup> u32 list) \<Rightarrow> bool" where
  "lists_ok h F \<longleftrightarrow> (\<forall>L xs. F L = Some xs \<longrightarrow> list_at h L xs) \<and> (\<forall>L M. L \<noteq> M \<longrightarrow> ring F L \<inter> ring F M = {})"

definition items :: "(u32 \<rightharpoonup> u32 list) \<Rightarrow> u32 set" where
  "items F = (\<Union>L. ring F L)"

lemma ring_Some [simp]: "F L = Some xs \<Longrightarrow> ring F L = set (xListEnd L # xs)"
  by (simp add: ring_def)

lemma itemsI: "F L = Some xs \<Longrightarrow> x \<in> set (xListEnd L # xs) \<Longrightarrow> x \<in> items F"
  unfolding items_def using ring_Some [of F L xs] by blast

lemma lists_okD: "lists_ok h F \<Longrightarrow> F L = Some xs \<Longrightarrow> list_at h L xs"
  by (auto simp: lists_ok_def)

lemma lists_ok_apart: "lists_ok h F \<Longrightarrow> F L = Some xs \<Longrightarrow> F M = Some ys \<Longrightarrow> L \<noteq> M \<Longrightarrow> set (xListEnd L # xs) \<inter> set (xListEnd M # ys) = {}"
  using ring_Some [of F L xs] ring_Some [of F M ys] unfolding lists_ok_def by metis

lemma lists_ok_unique: "lists_ok h F \<Longrightarrow> F L = Some xs \<Longrightarrow> F M = Some ys \<Longrightarrow> x \<in> set xs \<Longrightarrow> x \<in> set ys \<Longrightarrow> L = M"
  using lists_ok_apart [of h F L xs M ys] by auto

lemma list_at_cong:
  assumes "\<And>x. x \<in> set (xListEnd L # xs) \<Longrightarrow> l_item h' x = l_item h x" "l_list h' L = l_list h L"
  shows "list_at h' L xs = list_at h L xs"
proof -
  have "linked h' (xListEnd L # xs @ [xListEnd L]) = linked h (xListEnd L # xs @ [xListEnd L])"
    using assms(1) by (intro linked_cong) (auto dest: in_set_butlastD split: if_splits)
  then show ?thesis using assms by (auto simp: list_at_def Let_def)
qed

text \<open>A change inside one ring, possibly with a new item, leaves every other list alone.\<close>

lemma lists_ok_change:
  assumes ok: "lists_ok h F" and at: "list_at h' L ys" and L: "F L = Some xs"
    and new: "set ys \<subseteq> insert n (set xs)" "n \<in> set ys \<Longrightarrow> n \<notin> set xs \<Longrightarrow> n \<notin> items F"
    and same: "\<And>x. x \<notin> set (xListEnd L # xs) \<Longrightarrow> x \<noteq> n \<Longrightarrow> l_item h' x = l_item h x" "\<And>M. M \<noteq> L \<Longrightarrow> l_list h' M = l_list h M"
    and n: "n \<in> set xs \<or> n \<notin> items F"
  shows "lists_ok h' (F(L \<mapsto> ys))"
  unfolding lists_ok_def
proof (intro conjI allI impI)
  have out: "x \<notin> set (xListEnd L # xs) \<and> x \<noteq> n" if "F M = Some zs" "M \<noteq> L" "x \<in> set (xListEnd M # zs)" for M zs x
    using lists_ok_apart [OF ok L that(1)] that n itemsI [of F M zs x] itemsI [of F M zs n] by auto
  show "list_at h' M zs" if "(F(L \<mapsto> ys)) M = Some zs" for M zs
  proof (cases "M = L")
    case True
    then show ?thesis using at that by simp
  next
    case False
    then have "F M = Some zs" using that by simp
    moreover have "list_at h' M zs = list_at h M zs" using out [OF \<open>F M = Some zs\<close> False] same False by (intro list_at_cong) blast+
    ultimately show ?thesis using lists_okD [OF ok] by simp
  qed
  have r: "ring (F(L \<mapsto> ys)) L \<inter> ring F M = {}" if "M \<noteq> L" for M
  proof (cases "F M")
    case (Some zs)
    have "xListEnd L \<notin> set (xListEnd M # zs)" "set xs \<inter> set (xListEnd M # zs) = {}" "n \<notin> set (xListEnd M # zs)"
      using out [OF Some that] by auto
    then show ?thesis using Some new(1) by (auto simp: ring_def)
  qed (simp add: ring_def)
  show "ring (F(L \<mapsto> ys)) M \<inter> ring (F(L \<mapsto> ys)) N = {}" if "M \<noteq> N" for M N
  proof -
    have k: "ring (F(L \<mapsto> ys)) K = ring F K" if "K \<noteq> L" for K using that by (simp add: ring_def)
    have "ring F M \<inter> ring F N = {}" using ok that by (simp add: lists_ok_def)
    then show ?thesis using r [of M] r [of N] k [of M] k [of N] that by (cases "M = L"; cases "N = L") auto
  qed
qed

lemma room: "list_at h L xs \<Longrightarrow> n \<notin> set (xListEnd L # xs) \<Longrightarrow> length xs + 1 < 2 ^ 32"
proof -
  assume at: "list_at h L xs" and n: "n \<notin> set (xListEnd L # xs)"
  have "distinct (n # xListEnd L # xs)" using at n by (simp add: list_at_def Let_def)
  then have "length (n # xListEnd L # xs) = card (set (n # xListEnd L # xs))" by (rule distinct_card [symmetric])
  also have "\<dots> \<le> card (UNIV :: u32 set)" by (rule card_mono) simp_all
  also have "\<dots> = 2 ^ 32" by (simp add: card_word)
  finally show ?thesis by simp
qed

text \<open>The neighbours of a member of a ring.\<close>

lemma prev_in_ring:
  assumes at: "list_at h L xs" and q: "q \<in> set (xListEnd L # xs)"
  shows "pxPrevious (l_item h q) \<in> set (xListEnd L # xs)"
proof (cases "q = xListEnd L")
  case True
  then show ?thesis using last_prev [of h L xs "[]"] at last_mem [of "xListEnd L" xs] by simp
next
  case False
  then obtain as bs where "xs = as @ q # bs" using q by (auto dest: split_list)
  then show ?thesis using last_prev [of h L as "q # bs"] at last_mem [of "xListEnd L" as] by auto
qed

lemma next_in_ring:
  assumes at: "list_at h L xs" and p: "p \<in> set (xListEnd L # xs)"
  shows "pxNext (l_item h p) \<in> set (xListEnd L # xs)"
proof (cases "p = xListEnd L")
  case True
  then show ?thesis using last_next [of h L "[]" xs] at hd_mem [of xs "xListEnd L"] by auto
next
  case False
  then obtain as bs where "xs = as @ p # bs" using p by (auto dest: split_list)
  then show ?thesis using last_next [of h L "as @ [p]" bs] at hd_mem [of bs "xListEnd L"] by auto
qed

lemma next_not_self: assumes "list_at h L xs" "x \<in> set xs" shows "pxNext (l_item h x) \<noteq> x"
proof -
  obtain as bs where xs: "xs = as @ x # bs" using assms(2) by (auto dest: split_list)
  have "distinct (xListEnd L # xs)" using assms(1) by (simp add: list_at_def Let_def)
  then show ?thesis using last_next [of h L "as @ [x]" bs] assms(1) hd_mem [of bs "xListEnd L"] xs by auto
qed

lemma prev_not_self: assumes "list_at h L xs" "x \<in> set xs" shows "pxPrevious (l_item h x) \<noteq> x"
proof -
  obtain as bs where xs: "xs = as @ x # bs" using assms(2) by (auto dest: split_list)
  have "distinct (xListEnd L # xs)" using assms(1) by (simp add: list_at_def Let_def)
  then show ?thesis using last_prev [of h L as "x # bs"] assms(1) last_mem [of "xListEnd L" as] xs by auto
qed

lemma lists_insert_end:
  assumes ok: "lists_ok h F" and L: "F L = Some xs" and n: "n \<notin> items F"
  shows "lists_ok (vListInsertEnd L n h) (F(L \<mapsto> insert_before (pxIndex (l_list h L)) n xs))"
proof -
  have at: "list_at h L xs" using ok L by (rule lists_okD)
  have nl: "n \<notin> set (xListEnd L # xs)" using n itemsI [of F L xs n] L by blast
  let ?q = "pxIndex (l_list h L)"
  have q: "?q \<in> set (xListEnd L # xs)" using at by (simp add: list_at_def Let_def)
  have p: "pxPrevious (l_item h ?q) \<in> set (xListEnd L # xs)" by (rule prev_in_ring [OF at q])
  have ne: "n \<noteq> ?q" "n \<noteq> pxPrevious (l_item h ?q)" using nl q p by auto
  note f = vListInsertEnd_fields [OF refl refl ne]
  show ?thesis
  proof (rule lists_ok_change [OF ok vListInsertEnd_at [OF at room [OF at nl] nl] L, of n])
    show "l_item (vListInsertEnd L n h) x = l_item h x" if "x \<notin> set (xListEnd L # xs)" "x \<noteq> n" for x
      using that p q by (intro ListItem_t.equality) (auto simp: f)
    show "l_list (vListInsertEnd L n h) M = l_list h M" if "M \<noteq> L" for M using that by (simp add: f)
    show "set (insert_before ?q n xs) \<subseteq> insert n (set xs)"
      by (auto simp: insert_before_def dest: set_takeWhileD set_dropWhileD)
  qed (use n in auto)
qed

lemma vListInsert_link_in_ring:
  assumes at: "list_at h L xs"
  obtains p where "p \<in> set (xListEnd L # xs)" "vListInsert L n h = Inr (vListInsert_link L n p h)"
proof (cases "xItemValue (l_item h n) = portMAX_DELAY")
  case True
  then show ?thesis using that [OF prev_in_ring [OF at, of "xListEnd L"]] by (simp add: vListInsert_def Let_def)
next
  case False
  let ?p = "last (xListEnd L # takeWhile (\<lambda>x. xItemValue (l_item h x) \<le> xItemValue (l_item h n)) xs)"
  have "unat (uxNumberOfItems (l_list h L)) = length xs" using at by (simp add: list_at_def Let_def unat_of_nat_u32)
  then have "vListInsert_find (unat (uxNumberOfItems (l_list h L))) (xItemValue (l_item h n)) (xListEnd L) h = Inr ?p"
    using False at by (subst vListInsert_find_at [of h _ xs "xListEnd L"]) (simp_all add: list_at_def Let_def)
  moreover have "?p \<in> set (xListEnd L # xs)"
    using last_mem [of "xListEnd L"] set_takeWhileD by (metis (no_types, lifting) list.set_intros(1,2) set_ConsD)
  ultimately show ?thesis using that [of ?p] False by (simp add: vListInsert_def Let_def)
qed

lemma lists_insert_sorted:
  assumes ok: "lists_ok h F" and L: "F L = Some xs" and n: "n \<notin> items F"
  obtains h' where "vListInsert L n h = Inr h'" "lists_ok h' (F(L \<mapsto> insert_by_value (\<lambda>x. xItemValue (l_item h x)) n xs))"
    "\<And>x. xItemValue (l_item h' x) = xItemValue (l_item h x)" "\<And>x. pvOwner (l_item h' x) = pvOwner (l_item h x)"
    "\<And>x. pxContainer (l_item h' x) = (if x = n then L else pxContainer (l_item h x))"
    "\<And>M. pxIndex (l_list h' M) = pxIndex (l_list h M)"
    "\<And>M. M \<noteq> L \<Longrightarrow> l_list h' M = l_list h M" "h' = h\<lparr>l_item := l_item h', l_list := l_list h'\<rparr>"
proof -
  have at: "list_at h L xs" using ok L by (rule lists_okD)
  have nl: "n \<notin> set (xListEnd L # xs)" using n itemsI [of F L xs n] L by blast
  obtain h' where h': "vListInsert L n h = Inr h'" "list_at h' L (insert_by_value (\<lambda>x. xItemValue (l_item h x)) n xs)"
    using vListInsert_at [OF at room [OF at nl] nl] by blast
  obtain p where p: "p \<in> set (xListEnd L # xs)" "h' = vListInsert_link L n p h"
    using h'(1) by (auto intro: vListInsert_link_in_ring [OF at, of n])
  have q: "pxNext (l_item h p) \<in> set (xListEnd L # xs)" by (rule next_in_ring [OF at p(1)])
  have ne: "n \<noteq> pxNext (l_item h p)" "n \<noteq> p" using nl q p by auto
  note f = vListInsert_link_fields [OF refl ne, where L = L, folded p(2)]
  have "lists_ok h' (F(L \<mapsto> insert_by_value (\<lambda>x. xItemValue (l_item h x)) n xs))"
  proof (rule lists_ok_change [OF ok h'(2) L, of n])
    show "l_item h' x = l_item h x" if "x \<notin> set (xListEnd L # xs)" "x \<noteq> n" for x
      using that p(1) q by (intro ListItem_t.equality) (auto simp: f)
    show "l_list h' M = l_list h M" if "M \<noteq> L" for M using that by (simp add: f)
    show "set (insert_by_value (\<lambda>x. xItemValue (l_item h x)) n xs) \<subseteq> insert n (set xs)"
      by (auto simp: insert_by_value_def dest: set_takeWhileD set_dropWhileD)
  qed (use n in auto)
  moreover have "h' = h\<lparr>l_item := l_item h', l_list := l_list h'\<rparr>" by (simp add: p(2) vListInsert_link_def heap_upd)
  ultimately show ?thesis using that h'(1) f by simp
qed

lemma lists_remove:
  assumes ok: "lists_ok h F" and L: "F L = Some xs" and x: "x \<in> set xs"
  shows "lists_ok (fst (uxListRemove x h)) (F(L \<mapsto> remove1 x xs))"
    "x \<notin> items (F(L \<mapsto> remove1 x xs))"
    "pvOwner (l_item (fst (uxListRemove x h)) y) = pvOwner (l_item h y)" "xItemValue (l_item (fst (uxListRemove x h)) y) = xItemValue (l_item h y)"
    "pxContainer (l_item (fst (uxListRemove x h)) y) = (if y = x then NULL else pxContainer (l_item h y))"
proof -
  have at: "list_at h L xs" using ok L by (rule lists_okD)
  have c: "L = pxContainer (l_item h x)" using at x by (simp add: list_at_def Let_def)
  have d: "distinct (xListEnd L # xs)" using at by (simp add: list_at_def Let_def)
  have q: "pxNext (l_item h x) \<in> set (xListEnd L # xs)" "pxNext (l_item h x) \<noteq> x" by (rule next_in_ring [OF at], use x in simp, rule next_not_self [OF at x])
  have p: "pxPrevious (l_item h x) \<in> set (xListEnd L # xs)" "pxPrevious (l_item h x) \<noteq> x" by (rule prev_in_ring [OF at], use x in simp, rule prev_not_self [OF at x])
  note f = uxListRemove_fields [OF c refl refl q(2) [symmetric] p(2) [symmetric]]
  show "lists_ok (fst (uxListRemove x h)) (F(L \<mapsto> remove1 x xs))"
  proof (rule lists_ok_change [OF ok _ L, of _ _ x])
    show "list_at (fst (uxListRemove x h)) L (remove1 x xs)" using uxListRemove_at [OF at x] by simp
    show "l_item (fst (uxListRemove x h)) y = l_item h y" if "y \<notin> set (xListEnd L # xs)" "y \<noteq> x" for y
      using that p q by (intro ListItem_t.equality) (auto simp: f)
    show "l_list (fst (uxListRemove x h)) M = l_list h M" if "M \<noteq> L" for M using that by (simp add: f)
    show "set (remove1 x xs) \<subseteq> insert x (set xs)" using set_remove1_subset [of x xs] by blast
  qed (use x d in auto)
  show "x \<notin> items (F(L \<mapsto> remove1 x xs))"
  proof
    assume "x \<in> items (F(L \<mapsto> remove1 x xs))"
    then obtain M where M: "x \<in> ring (F(L \<mapsto> remove1 x xs)) M" by (auto simp: items_def)
    show False
    proof (cases "M = L")
      case True
      then show False using M d x by (auto simp: ring_def)
    next
      case False
      then have "x \<in> ring F M" using M by (simp add: ring_def)
      moreover have "x \<in> ring F L" using x L by (simp add: ring_def)
      ultimately show False using ok False unfolding lists_ok_def by blast
    qed
  qed
  show "pvOwner (l_item (fst (uxListRemove x h)) y) = pvOwner (l_item h y)" "xItemValue (l_item (fst (uxListRemove x h)) y) = xItemValue (l_item h y)"
    "pxContainer (l_item (fst (uxListRemove x h)) y) = (if y = x then NULL else pxContainer (l_item h y))" by (simp_all add: f)
qed

section \<open>The invariant of the scheduler\<close>

abbreviation val :: "'a list_heap_scheme \<Rightarrow> u32 \<Rightarrow> u32" where
  "val h x \<equiv> xItemValue (l_item h x)"

abbreviation owner :: "'a list_heap_scheme \<Rightarrow> u32 \<Rightarrow> u32" where
  "owner h x \<equiv> pvOwner (l_item h x)"

abbreviation cont :: "'a list_heap_scheme \<Rightarrow> u32 \<Rightarrow> u32" where
  "cont h x \<equiv> pxContainer (l_item h x)"

definition lst :: "(u32 \<rightharpoonup> u32 list) \<Rightarrow> u32 \<Rightarrow> u32 list" where
  "lst F L = (case F L of None \<Rightarrow> [] | Some xs \<Rightarrow> xs)"

definition own_lists :: "'a kernel_scheme \<Rightarrow> u32 set" where
  "own_lists k = {pxDelayedTaskList k, pxOverflowDelayedTaskList k} \<union> {ready_list p k | p. p < 8}"

definition sleeper_ok :: "'a kernel_scheme \<Rightarrow> (u32 \<rightharpoonup> u32 list) \<Rightarrow> u32 \<Rightarrow> bool" where
  "sleeper_ok k F x \<longleftrightarrow>
    (let t = owner k x; ev = xEventListItem t; C = pxContainer (l_item k ev)
     in x = xStateListItem t \<and> uxPriority (tcb k t) < 8 \<and> (C \<noteq> NULL \<longrightarrow> C \<notin> own_lists k \<and> ev \<in> set (lst F C)))"

definition sched_core :: "'a kernel_scheme \<Rightarrow> (u32 \<rightharpoonup> u32 list) \<Rightarrow> bool" where
  "sched_core k F \<longleftrightarrow>
    lists_ok k F \<and> F NULL = None \<and> (\<forall>L \<in> own_lists k. F L \<noteq> None) \<and>
    pxDelayedTaskList k \<noteq> pxOverflowDelayedTaskList k \<and>
    (\<forall>p < 8. pxDelayedTaskList k \<noteq> ready_list p k \<and> pxOverflowDelayedTaskList k \<noteq> ready_list p k) \<and>
    (\<forall>x \<in> set (lst F (pxDelayedTaskList k)) \<union> set (lst F (pxOverflowDelayedTaskList k)). sleeper_ok k F x) \<and>
    sorted (map (val k) (lst F (pxDelayedTaskList k))) \<and> sorted (map (val k) (lst F (pxOverflowDelayedTaskList k))) \<and>
    uxTopReadyPriority k < 8 \<and> (\<forall>p < 8. lst F (ready_list p k) \<noteq> [] \<longrightarrow> p \<le> uxTopReadyPriority k)"

definition kframe :: "'a kernel_scheme \<Rightarrow> 'a kernel_scheme \<Rightarrow> bool" where
  "kframe k k' \<longleftrightarrow> k' = k\<lparr>l_item := l_item k', l_list := l_list k', uxTopReadyPriority := uxTopReadyPriority k', xNextTaskUnblockTime := xNextTaskUnblockTime k'\<rparr> \<and>
    (\<forall>x. val k' x = val k x \<and> owner k' x = owner k x)"

lemma kframe_refl [simp]: "kframe k k"
  by (simp add: kframe_def)

lemma kframeD:
  assumes "kframe k k'"
  shows "tcb k' = tcb k" "pxCurrentTCB k' = pxCurrentTCB k" "pxReadyTasksLists k' = pxReadyTasksLists k"
    "xPendingReadyList k' = xPendingReadyList k" "xSuspendedTaskList k' = xSuspendedTaskList k"
    "pxDelayedTaskList k' = pxDelayedTaskList k" "pxOverflowDelayedTaskList k' = pxOverflowDelayedTaskList k"
    "xTickCount k' = xTickCount k" "xYieldPending k' = xYieldPending k" "uxSchedulerSuspended k' = uxSchedulerSuspended k"
    "xNumOfOverflows k' = xNumOfOverflows k" "val k' x = val k x" "owner k' x = owner k x"
    "xSchedulerRunning k' = xSchedulerRunning k" "xPendedTicks k' = xPendedTicks k" "xIdleTaskHandle k' = xIdleTaskHandle k"
    "pendSV k' = pendSV k" "stack_mem k' = stack_mem k" "uxCurrentNumberOfTasks k' = uxCurrentNumberOfTasks k"
    "xTasksWaitingTermination k' = xTasksWaitingTermination k"
proof -
  have e: "k' = k\<lparr>l_item := l_item k', l_list := l_list k', uxTopReadyPriority := uxTopReadyPriority k', xNextTaskUnblockTime := xNextTaskUnblockTime k'\<rparr>"
    and v: "\<forall>x. val k' x = val k x \<and> owner k' x = owner k x" using assms by (auto simp: kframe_def)
  show "tcb k' = tcb k" "pxCurrentTCB k' = pxCurrentTCB k" "pxReadyTasksLists k' = pxReadyTasksLists k"
    "xPendingReadyList k' = xPendingReadyList k" "xSuspendedTaskList k' = xSuspendedTaskList k"
    "pxDelayedTaskList k' = pxDelayedTaskList k" "pxOverflowDelayedTaskList k' = pxOverflowDelayedTaskList k"
    "xTickCount k' = xTickCount k" "xYieldPending k' = xYieldPending k" "uxSchedulerSuspended k' = uxSchedulerSuspended k"
    "xNumOfOverflows k' = xNumOfOverflows k"
    "xSchedulerRunning k' = xSchedulerRunning k" "xPendedTicks k' = xPendedTicks k" "xIdleTaskHandle k' = xIdleTaskHandle k"
    "pendSV k' = pendSV k" "stack_mem k' = stack_mem k" "uxCurrentNumberOfTasks k' = uxCurrentNumberOfTasks k"
    "xTasksWaitingTermination k' = xTasksWaitingTermination k"
    by (subst e, simp)+
  show "val k' x = val k x" "owner k' x = owner k x" using v by auto
qed

lemma kframe_ready: "kframe k k' \<Longrightarrow> ready_list p k' = ready_list p k" "kframe k k' \<Longrightarrow> own_lists k' = own_lists k"
  by (simp_all add: ready_list_def own_lists_def kframeD)

lemma kframe_trans:
  assumes "kframe k1 k2" "kframe k2 k3"
  shows "kframe k1 k3"
proof -
  define li ll tp nx where "li = l_item k3" and "ll = l_list k3" and "tp = uxTopReadyPriority k3" and "nx = xNextTaskUnblockTime k3"
  have e1: "k2 = k1\<lparr>l_item := l_item k2, l_list := l_list k2, uxTopReadyPriority := uxTopReadyPriority k2, xNextTaskUnblockTime := xNextTaskUnblockTime k2\<rparr>"
    and e2: "k3 = k2\<lparr>l_item := li, l_list := ll, uxTopReadyPriority := tp, xNextTaskUnblockTime := nx\<rparr>"
    using assms by (simp_all add: kframe_def li_def ll_def tp_def nx_def)
  have "k3 = k1\<lparr>l_item := li, l_list := ll, uxTopReadyPriority := tp, xNextTaskUnblockTime := nx\<rparr>"
    by (subst e2, subst e1) simp
  then show ?thesis using kframeD(12,13) [OF assms(1)] kframeD(12,13) [OF assms(2)]
    by (simp add: kframe_def li_def ll_def tp_def nx_def)
qed

lemma lst_Some: "F L = Some xs \<Longrightarrow> lst F L = xs"
  by (simp add: lst_def)

lemma lst_upd [simp]: "lst (F(L \<mapsto> xs)) M = (if M = L then xs else lst F M)"
  by (simp add: lst_def)

lemma ready_list_inj: "p < 8 \<Longrightarrow> q < 8 \<Longrightarrow> ready_list p k = ready_list q k \<longleftrightarrow> p = q"
proof -
  assume pq: "p < 8" "q < 8"
  have u: "unat (20 * p) = 20 * unat p" "unat (20 * q) = 20 * unat q" using pq by (simp_all add: unat_word_ariths word_less_nat_alt)
  show ?thesis
  proof
    assume "ready_list p k = ready_list q k"
    then have "20 * p = 20 * q" by (simp add: ready_list_def)
    then have "20 * unat p = 20 * unat q" using u by metis
    then show "p = q" by (simp add: word_unat_eq_iff)
  qed simp
qed

lemma in_own [simp]: "pxDelayedTaskList k \<in> own_lists k" "pxOverflowDelayedTaskList k \<in> own_lists k" "p < 8 \<Longrightarrow> ready_list p k \<in> own_lists k"
  by (auto simp: own_lists_def)

lemma remove_frame: "kframe k (fst (uxListRemove x k))" if "lists_ok k F" "F L = Some xs" "x \<in> set xs"
  using lists_remove(3,4) [OF that] by (simp add: kframe_def uxListRemove_def heap_upd)

lemma sched_coreD:
  assumes "sched_core k F"
  shows "lists_ok k F" "F NULL = None" "L \<in> own_lists k \<Longrightarrow> F L = Some (lst F L)" "L \<in> own_lists k \<Longrightarrow> L \<noteq> NULL"
  using assms by (auto simp: sched_core_def lst_def split: option.splits)

lemma lists_ok_heap: "l_item h' = l_item h \<Longrightarrow> l_list h' = l_list h \<Longrightarrow> lists_ok h' F = lists_ok h F"
  unfolding lists_ok_def by (metis list_at_cong)

lemma set_insert_before [simp]: "set (insert_before idx n xs) = insert n (set xs)"
proof -
  have "set xs = set (takeWhile (\<lambda>x. x \<noteq> idx) xs @ dropWhile (\<lambda>x. x \<noteq> idx) xs)" by simp
  then show ?thesis unfolding insert_before_def set_append by auto
qed

lemma add_ready:
  assumes ok: "lists_ok k F" and p: "p = uxPriority (tcb k t)" and rs: "F (ready_list p k) = Some rs" and n: "xStateListItem t \<notin> items F"
  defines "k' \<equiv> prvAddTaskToReadyList t k"
  shows "lists_ok k' (F(ready_list p k \<mapsto> insert_before (pxIndex (l_list k (ready_list p k))) (xStateListItem t) rs))" (is ?A)
    "kframe k k'" "uxTopReadyPriority k' = max p (uxTopReadyPriority k)" "xNextTaskUnblockTime k' = xNextTaskUnblockTime k"
    "pxContainer (l_item k' y) = (if y = xStateListItem t then ready_list p k else pxContainer (l_item k y))"
proof -
  let ?L = "ready_list p k" and ?x = "xStateListItem t" and ?k1 = "taskRECORD_READY_PRIORITY p k"
  have k': "k' = vListInsertEnd ?L ?x ?k1"
    by (simp add: k'_def prvAddTaskToReadyList_def p Let_def listINSERT_END_def ready_list_def taskRECORD_READY_PRIORITY_def)
  have h1: "l_item ?k1 = l_item k" "l_list ?k1 = l_list k" by (simp_all add: taskRECORD_READY_PRIORITY_def)
  have ok1: "lists_ok ?k1 F" using ok lists_ok_heap [OF h1] by simp
  show ?A using lists_insert_end [OF ok1 rs n] unfolding k' h1 .
  have at: "list_at k ?L rs" using ok rs by (rule lists_okD)
  let ?q = "pxIndex (l_list k ?L)"
  have q: "?q \<in> set (xListEnd ?L # rs)" using at by (simp add: list_at_def Let_def)
  have pr: "pxPrevious (l_item k ?q) \<in> set (xListEnd ?L # rs)" by (rule prev_in_ring [OF at q])
  have "?x \<notin> set (xListEnd ?L # rs)" using n itemsI [of F ?L rs ?x] rs by blast
  then have ne: "?x \<noteq> pxIndex (l_list ?k1 ?L)" "?x \<noteq> pxPrevious (l_item ?k1 (pxIndex (l_list ?k1 ?L)))" using q pr unfolding h1 by auto
  note f = vListInsertEnd_fields [OF refl refl ne]
  show "uxTopReadyPriority k' = max p (uxTopReadyPriority k)" "xNextTaskUnblockTime k' = xNextTaskUnblockTime k"
    unfolding k' by (auto simp: vListInsertEnd_def heap_upd taskRECORD_READY_PRIORITY_def max_def)
  show "pxContainer (l_item k' y) = (if y = ?x then ?L else pxContainer (l_item k y))" unfolding k' f h1 ..
  have "k' = k\<lparr>l_item := l_item k', l_list := l_list k', uxTopReadyPriority := uxTopReadyPriority k', xNextTaskUnblockTime := xNextTaskUnblockTime k'\<rparr>"
    unfolding k' by (simp add: vListInsertEnd_def heap_upd taskRECORD_READY_PRIORITY_def)
  moreover have "val k' y = val k y" "owner k' y = owner k y" for y unfolding k' f h1 by simp_all
  ultimately show "kframe k k'" by (simp add: kframe_def)
qed

lemma items_remove: "items (F(L \<mapsto> remove1 x xs)) \<subseteq> items F" if "F L = Some xs"
proof
  fix y assume "y \<in> items (F(L \<mapsto> remove1 x xs))"
  then obtain M where "y \<in> ring (F(L \<mapsto> remove1 x xs)) M" by (auto simp: items_def)
  then have "y \<in> ring F M" using that set_remove1_subset [of x xs] by (auto simp: ring_def split: if_splits)
  then show "y \<in> items F" by (auto simp: items_def)
qed

lemma state_item_inj: "xStateListItem t = xStateListItem u \<longleftrightarrow> t = u" "xEventListItem t = xEventListItem u \<longleftrightarrow> t = u"
  by (simp_all add: xStateListItem_def xEventListItem_def)

text \<open>Taking a sleeping task out of the lists it is on.\<close>

definition unlist :: "u32 \<Rightarrow> 'a kernel_scheme \<Rightarrow> 'a kernel_scheme" where
  "unlist t k =
    (let k1 = listREMOVE_ITEM (xStateListItem t) k
     in if pxContainer (l_item k1 (xEventListItem t)) \<noteq> NULL then listREMOVE_ITEM (xEventListItem t) k1 else k1)"

definition unlisted :: "u32 \<Rightarrow> u32 \<Rightarrow> 'a kernel_scheme \<Rightarrow> (u32 \<rightharpoonup> u32 list) \<Rightarrow> (u32 \<rightharpoonup> u32 list)" where
  "unlisted L t k F =
    (let F1 = F(L \<mapsto> remove1 (xStateListItem t) (lst F L)); C = pxContainer (l_item k (xEventListItem t))
     in if C = NULL then F1 else F1(C \<mapsto> remove1 (xEventListItem t) (lst F C)))"

lemma unlist_ok:
  assumes ok: "lists_ok k F" "F NULL = None" and L: "F L = Some xs" "xStateListItem t \<in> set xs" "L \<in> own_lists k"
    and ev: "pxContainer (l_item k (xEventListItem t)) \<noteq> NULL \<longrightarrow>
      pxContainer (l_item k (xEventListItem t)) \<notin> own_lists k \<and> xEventListItem t \<in> set (lst F (pxContainer (l_item k (xEventListItem t))))"
  shows "lists_ok (unlist t k) (unlisted L t k F)" "kframe k (unlist t k)" "xStateListItem t \<notin> items (unlisted L t k F)"
    "uxTopReadyPriority (unlist t k) = uxTopReadyPriority k" "xNextTaskUnblockTime (unlist t k) = xNextTaskUnblockTime k"
    "pxContainer (l_item (unlist t k) y) = (if y = xStateListItem t \<or> y = xEventListItem t then NULL else pxContainer (l_item k y))"
proof -
  let ?x = "xStateListItem t" and ?e = "xEventListItem t"
  let ?C = "pxContainer (l_item k ?e)" and ?k1 = "fst (uxListRemove ?x k)" and ?F1 = "F(L \<mapsto> remove1 ?x xs)"
  note r = lists_remove [of k F, OF ok(1) L(1,2)]
  have f1: "kframe k ?k1" by (rule remove_frame [of k F, OF ok(1) L(1,2)])
  have same: "uxTopReadyPriority (fst (uxListRemove z h)) = uxTopReadyPriority h" "xNextTaskUnblockTime (fst (uxListRemove z h)) = xNextTaskUnblockTime h"
    for z and h :: "'a kernel_scheme" by (simp_all add: uxListRemove_def heap_upd)
  have xe: "?x \<noteq> ?e" by (simp add: xStateListItem_def xEventListItem_def)
  have c1: "pxContainer (l_item ?k1 ?e) = ?C" using r(5) [of ?e] xe by simp
  have all: "lists_ok (unlist t k) (unlisted L t k F) \<and> kframe k (unlist t k) \<and> ?x \<notin> items (unlisted L t k F) \<and>
      uxTopReadyPriority (unlist t k) = uxTopReadyPriority k \<and> xNextTaskUnblockTime (unlist t k) = xNextTaskUnblockTime k \<and>
      pxContainer (l_item (unlist t k) y) = (if y = ?x \<or> y = ?e then NULL else pxContainer (l_item k y))"
  proof (cases "?C = NULL")
    case True
    then have "unlist t k = ?k1" "unlisted L t k F = ?F1" using c1 lst_Some [of F, OF L(1)] by (simp_all add: unlist_def unlisted_def listREMOVE_ITEM_def)
    then show ?thesis
      using r(1,2) r(5) [of y] f1 same True by simp
  next
    case False
    then have C: "?C \<notin> own_lists k" "?e \<in> set (lst F ?C)" using ev by auto
    have CL: "?C \<noteq> L" using C(1) L(3) by auto
    have FC: "F ?C = Some (lst F ?C)" using C(2) by (cases "F ?C") (simp_all add: lst_def)
    then have F1C: "?F1 ?C = Some (lst F ?C)" using CL by simp
    note r2 = lists_remove [of ?k1 ?F1, OF r(1) F1C C(2)]
    have f2: "kframe ?k1 (fst (uxListRemove ?e ?k1))" by (rule remove_frame [of ?k1 ?F1, OF r(1) F1C C(2)])
    have u: "unlist t k = fst (uxListRemove ?e ?k1)" "unlisted L t k F = ?F1(?C \<mapsto> remove1 ?e (lst F ?C))"
      using False c1 lst_Some [of F, OF L(1)] by (simp_all add: unlist_def unlisted_def listREMOVE_ITEM_def Let_def)
    have "?x \<notin> items (?F1(?C \<mapsto> remove1 ?e (lst F ?C)))" using items_remove [of ?F1 ?C, OF F1C] r(2) by blast
    then show ?thesis
      unfolding u using r2(1) kframe_trans [OF f1 f2] same by (simp add: r2(5) r(5))
  qed
  show "lists_ok (unlist t k) (unlisted L t k F)" "kframe k (unlist t k)" "?x \<notin> items (unlisted L t k F)"
    "uxTopReadyPriority (unlist t k) = uxTopReadyPriority k" "xNextTaskUnblockTime (unlist t k) = xNextTaskUnblockTime k"
    "pxContainer (l_item (unlist t k) y) = (if y = ?x \<or> y = ?e then NULL else pxContainer (l_item k y))"
    using all by blast+
qed

definition wake :: "u32 \<Rightarrow> 'a kernel_scheme \<Rightarrow> 'a kernel_scheme" where
  "wake t k = prvAddTaskToReadyList t (unlist t k)"

definition woken :: "u32 \<Rightarrow> 'a kernel_scheme \<Rightarrow> (u32 \<rightharpoonup> u32 list) \<Rightarrow> (u32 \<rightharpoonup> u32 list)" where
  "woken t k F =
    (let R = ready_list (uxPriority (tcb k t)) k; G = unlisted (pxDelayedTaskList k) t k F
     in G(R \<mapsto> insert_before (pxIndex (l_list (unlist t k) R)) (xStateListItem t) (lst F R)))"

lemma wake_core:
  assumes core: "sched_core k F" and ds: "lst F (pxDelayedTaskList k) = x # ds" and t: "t = owner k x"
  shows "sched_core (wake t k) (woken t k F)" "kframe k (wake t k)"
    "lst (woken t k F) (pxDelayedTaskList k) = ds" "lst (woken t k F) (pxOverflowDelayedTaskList k) = lst F (pxOverflowDelayedTaskList k)"
    "p < 8 \<Longrightarrow> set (lst (woken t k F) (ready_list p k)) = set (lst F (ready_list p k)) \<union> (if p = uxPriority (tcb k t) then {x} else {})"
    "xNextTaskUnblockTime (wake t k) = xNextTaskUnblockTime k"
    "cont (wake t k) y = (if y = x then ready_list (uxPriority (tcb k t)) k else if y = xEventListItem t then NULL else cont k y)"
    "L \<notin> own_lists k \<Longrightarrow> cont k (xEventListItem t) \<noteq> L \<Longrightarrow> woken t k F L = F L"
proof -
  let ?D = "pxDelayedTaskList k" and ?O = "pxOverflowDelayedTaskList k" and ?e = "xEventListItem t" and ?p = "uxPriority (tcb k t)"
  let ?C = "pxContainer (l_item k ?e)" and ?R = "ready_list ?p k" and ?G = "unlisted ?D t k F" and ?u = "unlist t k"
  note S = sched_coreD [OF core]
  note SC = core [unfolded sched_core_def]
  have sx: "sleeper_ok k F x" using SC ds by auto
  have x: "x = xStateListItem t" "?p < 8" "?C \<noteq> NULL \<longrightarrow> ?C \<notin> own_lists k \<and> ?e \<in> set (lst F ?C)"
    using sx by (simp_all add: sleeper_ok_def Let_def t)
  have FD: "F ?D = Some (x # ds)" using S(3) [of ?D] ds by simp
  have FR: "F ?R = Some (lst F ?R)" using S(3) x(2) by simp
  note u = unlist_ok [of k F ?D "x # ds" t, OF S(1,2) FD _ _ x(3), unfolded x(1) [symmetric], simplified]
  have rd: "\<forall>p < 8. ?D \<noteq> ready_list p k \<and> ?O \<noteq> ready_list p k" and DO: "?D \<noteq> ?O" using SC by simp_all
  have RD: "?R \<noteq> ?D" "?R \<noteq> ?O" "?D \<noteq> ?O" using rd DO x(2) by auto
  have CR: "?C \<noteq> NULL \<Longrightarrow> ?C \<noteq> L" if "L \<in> own_lists k" for L using x(3) that by auto
  have Gown: "lst ?G L = (if L = ?D then ds else lst F L)" if "L \<in> own_lists k" for L
    using CR [OF that] ds x(1) by (auto simp: unlisted_def Let_def)
  have GR: "?G (ready_list ?p ?u) = Some (lst F ?R)"
    using FR RD(1) CR [OF in_own(3) [OF x(2)]] by (cases "?C = NULL") (auto simp: unlisted_def Let_def kframe_ready(1) [OF u(2)])
  have pu: "?p = uxPriority (tcb ?u t)" by (simp add: kframeD(1) [OF u(2)])
  note a = add_ready [of ?u ?G ?p t, OF u(1) pu GR u(3) [unfolded x(1)], folded wake_def, unfolded kframe_ready(1) [OF u(2)]]
  have W: "woken t k F = ?G(?R \<mapsto> insert_before (pxIndex (l_list ?u ?R)) (xStateListItem t) (lst F ?R))"
    by (simp add: woken_def Let_def)
  have fr: "kframe k (wake t k)" by (rule kframe_trans [OF u(2) a(2)])
  then show "kframe k (wake t k)" .
  have Wown: "lst (woken t k F) L = (if L = ?R then insert_before (pxIndex (l_list ?u ?R)) x (lst F ?R) else if L = ?D then ds else lst F L)"
    if "L \<in> own_lists k" for L using Gown [OF that] by (simp add: W x(1))
  show D: "lst (woken t k F) ?D = ds" and O: "lst (woken t k F) ?O = lst F ?O" using Wown RD by simp_all
  show "xNextTaskUnblockTime (wake t k) = xNextTaskUnblockTime k" using a(4) u(5) by simp
  show rdy: "set (lst (woken t k F) (ready_list p k)) = set (lst F (ready_list p k)) \<union> (if p = ?p then {x} else {})" if "p < 8" for p
  proof -
    have "ready_list p k \<noteq> ?D" using rd that by auto
    then show ?thesis using Wown [of "ready_list p k"] that x(2) ready_list_inj [OF that x(2), of k] by simp
  qed
  show cont: "cont (wake t k) y = (if y = x then ?R else if y = ?e then NULL else cont k y)" for y
    using a(5) [of y] u(6) [of y] x(1) by simp
  show "woken t k F L = F L" if "L \<notin> own_lists k" "?C \<noteq> L"
  proof -
    have "L \<noteq> ?R" "L \<noteq> ?D" using that(1) x(2) by auto
    then show ?thesis using that(2) by (simp add: W unlisted_def Let_def)
  qed
  have sl: "sleeper_ok (wake t k) (woken t k F) y" if y: "y \<in> set ds \<union> set (lst F ?O)" for y
  proof -
    have sy: "sleeper_ok k F y" using SC ds y by auto
    let ?t = "owner k y"
    let ?ev = "xEventListItem ?t" and ?Cy = "pxContainer (l_item k (xEventListItem ?t))"
    have yy: "y = xStateListItem ?t" "uxPriority (tcb k ?t) < 8" "?Cy \<noteq> NULL \<longrightarrow> ?Cy \<notin> own_lists k \<and> ?ev \<in> set (lst F ?Cy)"
      using sy by (simp_all add: sleeper_ok_def Let_def)
    have "y \<noteq> x"
    proof (cases "y \<in> set ds")
      case True
      have "distinct (x # ds)" using lists_okD [of k F, OF S(1) FD] by (simp add: list_at_def Let_def)
      then show ?thesis using True by auto
    next
      case False
      then show ?thesis using y lists_ok_unique [of k F ?D "x # ds" ?O "lst F ?O" x, OF S(1) FD S(3) [OF in_own(2)]] RD(3) by auto
    qed
    then have "?t \<noteq> t" using yy(1) x(1) by auto
    then have ne: "?ev \<noteq> ?e" by (simp add: state_item_inj)
    have "pxContainer (l_item k x) = ?D" using lists_okD [of k F, OF S(1) FD] by (simp add: list_at_def Let_def)
    moreover have "?D \<noteq> NULL" "?D \<in> own_lists k" using S(4) by simp_all
    ultimately have evx: "?ev \<noteq> x" using yy(3) by metis
    have c: "pxContainer (l_item (wake t k) ?ev) = ?Cy" using cont evx ne by simp
    moreover have "?ev \<in> set (lst (woken t k F) ?Cy)" if "?Cy \<noteq> NULL"
    proof -
      have o: "?Cy \<notin> own_lists k" "?ev \<in> set (lst F ?Cy)" using yy(3) that by auto
      then have "?Cy \<noteq> ?R" "?Cy \<noteq> ?D" using x(2) by auto
      then show ?thesis using o(2) ne by (auto simp: W unlisted_def Let_def in_set_remove1)
    qed
    ultimately show ?thesis using yy by (simp add: sleeper_ok_def Let_def kframeD [OF fr] kframe_ready [OF fr])
  qed
  show "sched_core (wake t k) (woken t k F)"
    unfolding sched_core_def kframeD(6,7) [OF fr] kframe_ready [OF fr] D O
  proof (intro conjI)
    show "lists_ok (wake t k) (woken t k F)" using a(1) unfolding W .
    have "?C \<noteq> NULL \<or> unlisted ?D t k F NULL = F NULL" using S(4) [of ?D] by (auto simp: unlisted_def Let_def)
    then show "woken t k F NULL = None" using S(2) S(4) [of ?D] S(4) [of ?R] x(2) by (auto simp: W unlisted_def Let_def)
    show "\<forall>L \<in> own_lists k. woken t k F L \<noteq> None" using S(3) by (auto simp: W unlisted_def Let_def)
    show "sorted (map (val (wake t k)) ds)" "sorted (map (val (wake t k)) (lst F ?O))" using SC ds by (simp_all add: kframeD [OF fr])
    show "uxTopReadyPriority (wake t k) < 8" using a(3) u(4) x(2) SC by (simp add: max_def)
    show "\<forall>p<8. lst (woken t k F) (ready_list p k) \<noteq> [] \<longrightarrow> p \<le> uxTopReadyPriority (wake t k)"
    proof (intro allI impI)
      fix p :: u32 assume p: "p < 8" "lst (woken t k F) (ready_list p k) \<noteq> []"
      have "lst F (ready_list p k) \<noteq> [] \<or> p = ?p" using rdy [OF p(1)] p(2) by (cases "p = ?p") auto
      then show "p \<le> uxTopReadyPriority (wake t k)" using SC p(1) a(3) u(4) by (auto simp: le_max_iff_disj)
    qed
    show "?D \<noteq> ?O" "\<forall>p < 8. ?D \<noteq> ready_list p k \<and> ?O \<noteq> ready_list p k" by (fact DO rd)+
    show "\<forall>y \<in> set ds \<union> set (lst F ?O). sleeper_ok (wake t k) (woken t k F) y" using sl by blast
  qed
qed

abbreviation "cur_prio k \<equiv> uxPriority (tcb k (pxCurrentTCB k))"
abbreviation "prio_of k x \<equiv> uxPriority (tcb k (owner k x))"

lemma list_head:
  assumes "lists_ok k F" "F L = Some (x # xs)"
  shows "\<not> listLIST_IS_EMPTY L k" "listGET_OWNER_OF_HEAD_ENTRY L k = owner k x" "listGET_ITEM_VALUE_OF_HEAD_ENTRY L k = val k x"
proof -
  have at: "list_at k L (x # xs)" using assms by (rule lists_okD)
  then have "uxNumberOfItems (l_list k L) = of_nat (Suc (length xs))" "Suc (length xs) < 2 ^ 32" by (simp_all add: list_at_def Let_def)
  then have "unat (uxNumberOfItems (l_list k L)) = Suc (length xs)" by (simp add: unat_of_nat_u32 del: of_nat_Suc)
  then show "\<not> listLIST_IS_EMPTY L k" by (auto simp: listLIST_IS_EMPTY_def)
  show "listGET_OWNER_OF_HEAD_ENTRY L k = owner k x" "listGET_ITEM_VALUE_OF_HEAD_ENTRY L k = val k x"
    using last_next [of k L "[]" "x # xs"] at by (simp_all add: listGET_OWNER_OF_HEAD_ENTRY_def listGET_ITEM_VALUE_OF_HEAD_ENTRY_def)
qed

lemma list_empty: "lists_ok k F \<Longrightarrow> F L = Some [] \<Longrightarrow> listLIST_IS_EMPTY L k"
  using lists_okD [of k F L "[]"] by (simp add: listLIST_IS_EMPTY_def list_at_def Let_def)

lemma sched_core_next: "sched_core (k\<lparr>xNextTaskUnblockTime := v\<rparr>) F = sched_core k F"
  by (simp add: sched_core_def own_lists_def ready_list_def sleeper_ok_def lists_ok_heap [of "k\<lparr>xNextTaskUnblockTime := v\<rparr>" k])

lemma kframe_next: "kframe k k' \<Longrightarrow> kframe k (k'\<lparr>xNextTaskUnblockTime := v\<rparr>)"
proof -
  have "kframe k' (k'\<lparr>xNextTaskUnblockTime := v\<rparr>)" by (simp add: kframe_def)
  then show "kframe k k' \<Longrightarrow> kframe k (k'\<lparr>xNextTaskUnblockTime := v\<rparr>)" by (metis kframe_trans)
qed

lemma tick_loop_wake:
  "increment_tick_loop n now sw k =
    (if listLIST_IS_EMPTY (pxDelayedTaskList k) k then Inr (k\<lparr>xNextTaskUnblockTime := portMAX_DELAY\<rparr>, sw)
     else let t = listGET_OWNER_OF_HEAD_ENTRY (pxDelayedTaskList k) k; v = val k (xStateListItem t)
          in if now < v then Inr (k\<lparr>xNextTaskUnblockTime := v\<rparr>, sw)
             else case n of 0 \<Rightarrow> Inl NoExit
                  | Suc m \<Rightarrow> increment_tick_loop m now
                      (if uxPriority (tcb (wake t k) t) \<ge> cur_prio (wake t k) then True else sw) (wake t k))"
  unfolding increment_tick_loop.simps [of n now sw k] wake_def unlist_def Let_def ..

definition first_wake :: "'a kernel_scheme \<Rightarrow> u32 list \<Rightarrow> u32" where
  "first_wake k ds = (case ds of [] \<Rightarrow> portMAX_DELAY | x # _ \<Rightarrow> val k x)"

text \<open>What the loop leaves alone: other lists, unless the event item of a sleeping task is in them.\<close>

definition untouched :: "u32 list \<Rightarrow> 'a kernel_scheme \<Rightarrow> (u32 \<rightharpoonup> u32 list) \<Rightarrow> 'a kernel_scheme \<Rightarrow> (u32 \<rightharpoonup> u32 list) \<Rightarrow> bool" where
  "untouched ds k F k' F' \<longleftrightarrow>
    (\<forall>y. y \<notin> set ds \<longrightarrow> cont k' y = cont k y \<or> cont k' y = NULL) \<and>
    (\<forall>L. L \<notin> own_lists k \<and> L \<noteq> NULL \<and> (\<forall>x \<in> set ds. cont k (xEventListItem (owner k x)) \<noteq> L) \<longrightarrow> F' L = F L)"

lemma untouched_refl [simp]: "l_item k' = l_item k \<Longrightarrow> untouched ds k F k' F"
  by (simp add: untouched_def)

lemma untouched_wake:
  assumes core: "sched_core k F" and ds: "lst F (pxDelayedTaskList k) = x # ds" and t: "t = owner k x"
    and u: "untouched ds (wake t k) (woken t k F) k' F'"
  shows "untouched (x # ds) k F k' F'"
proof -
  note w = wake_core [OF core ds t]
  have p: "uxPriority (tcb k t) < 8" using core ds t by (auto simp: sched_core_def sleeper_ok_def Let_def)
  have "F' L = F L" if L: "L \<notin> own_lists k" "L \<noteq> NULL" "\<forall>y \<in> set (x # ds). cont k (xEventListItem (owner k y)) \<noteq> L" for L
  proof -
    have "\<forall>y \<in> set ds. cont (wake t k) (xEventListItem (owner (wake t k) y)) \<noteq> L"
      using L p unfolding w(7) kframeD(13) [OF w(2)] by auto
    then have "F' L = woken t k F L" using u L(1,2) by (simp add: untouched_def kframe_ready [OF w(2)])
    also have "\<dots> = F L" using L t by (intro w(8)) auto
    finally show ?thesis .
  qed
  moreover have "cont k' y = cont k y \<or> cont k' y = NULL" if y: "y \<notin> set (x # ds)" for y
  proof -
    have "cont k' y = cont (wake t k) y \<or> cont k' y = NULL" using u y by (simp add: untouched_def)
    then show ?thesis using y unfolding w(7) by (auto split: if_splits)
  qed
  ultimately show ?thesis by (simp add: untouched_def)
qed

lemma tick_loop:
  assumes "sched_core k F" "lst F (pxDelayedTaskList k) = ds" "length ds \<le> n"
  shows "\<exists>k' F'. increment_tick_loop n now sw k =
      Inr (k', sw \<or> (\<exists>x \<in> set (takeWhile (\<lambda>x. val k x \<le> now) ds). cur_prio k \<le> prio_of k x)) \<and>
    sched_core k' F' \<and> kframe k k' \<and> lst F' (pxDelayedTaskList k) = dropWhile (\<lambda>x. val k x \<le> now) ds \<and>
    lst F' (pxOverflowDelayedTaskList k) = lst F (pxOverflowDelayedTaskList k) \<and>
    xNextTaskUnblockTime k' = first_wake k (dropWhile (\<lambda>x. val k x \<le> now) ds) \<and>
    (\<forall>p < 8. set (lst F' (ready_list p k)) = set (lst F (ready_list p k)) \<union> {x \<in> set (takeWhile (\<lambda>x. val k x \<le> now) ds). prio_of k x = p}) \<and>
    untouched ds k F k' F'"
  using assms
proof (induction ds arbitrary: k F n sw)
  case Nil
  have "F (pxDelayedTaskList k) = Some []" using sched_coreD(3) [OF Nil(1), of "pxDelayedTaskList k"] Nil(2) by simp
  then have "listLIST_IS_EMPTY (pxDelayedTaskList k) k" by (rule list_empty [OF sched_coreD(1) [OF Nil(1)]])
  then show ?case using Nil by (subst increment_tick_loop.simps)
      (intro exI [of _ "k\<lparr>xNextTaskUnblockTime := portMAX_DELAY\<rparr>"] exI [of _ F], simp add: sched_core_next kframe_next first_wake_def)
next
  case (Cons x ds)
  let ?D = "pxDelayedTaskList k" and ?t = "owner k x"
  note S = sched_coreD [OF Cons.prems(1)]
  have FD: "F ?D = Some (x # ds)" using S(3) [of ?D] Cons.prems(2) by simp
  note h = list_head [of k F, OF S(1) FD]
  have "sleeper_ok k F x" using Cons.prems(1,2) by (simp add: sched_core_def)
  then have x: "x = xStateListItem ?t" "uxPriority (tcb k ?t) < 8" by (simp_all add: sleeper_ok_def Let_def)
  show ?case
  proof (cases "now < val k x")
    case True
    then have "increment_tick_loop n now sw k = Inr (k\<lparr>xNextTaskUnblockTime := val k x\<rparr>, sw)"
      using h x(1) by (subst increment_tick_loop.simps) (simp add: Let_def)
    then show ?thesis using Cons.prems True
      by (intro exI [of _ "k\<lparr>xNextTaskUnblockTime := val k x\<rparr>"] exI [of _ F]) (simp add: sched_core_next kframe_next first_wake_def)
  next
    case False
    obtain m where m: "n = Suc m" "length ds \<le> m" using Cons.prems(3) by (cases n) auto
    let ?k = "wake ?t k" and ?F = "woken ?t k F"
    note w = wake_core [OF Cons.prems(1,2) refl]
    note fr = kframeD [OF w(2)] and fr2 = kframe_ready [OF w(2)]
    have run: "increment_tick_loop n now sw k = increment_tick_loop m now (sw \<or> cur_prio k \<le> prio_of k x) ?k"
      using h x(1) False m(1) by (subst tick_loop_wake) (simp add: Let_def fr)
    have due: "takeWhile (\<lambda>x. val k x \<le> now) (x # ds) = x # takeWhile (\<lambda>x. val k x \<le> now) ds"
      "dropWhile (\<lambda>x. val k x \<le> now) (x # ds) = dropWhile (\<lambda>x. val k x \<le> now) ds" using False by simp_all
    have fw: "first_wake ?k zs = first_wake k zs" for zs by (simp add: first_wake_def fr split: list.splits)
    obtain k' F' where k': "increment_tick_loop m now (sw \<or> cur_prio k \<le> prio_of k x) ?k =
        Inr (k', (sw \<or> cur_prio k \<le> prio_of k x) \<or> (\<exists>x \<in> set (takeWhile (\<lambda>x. val k x \<le> now) ds). cur_prio k \<le> prio_of k x))"
      "sched_core k' F'" "kframe ?k k'" "lst F' ?D = dropWhile (\<lambda>x. val k x \<le> now) ds"
      "lst F' (pxOverflowDelayedTaskList k) = lst F (pxOverflowDelayedTaskList k)"
      "xNextTaskUnblockTime k' = first_wake k (dropWhile (\<lambda>x. val k x \<le> now) ds)"
      "\<forall>p < 8. set (lst F' (ready_list p k)) = set (lst ?F (ready_list p k)) \<union> {x \<in> set (takeWhile (\<lambda>x. val k x \<le> now) ds). prio_of k x = p}" "untouched ds ?k ?F k' F'"
      using Cons.IH [of ?k ?F m "sw \<or> cur_prio k \<le> prio_of k x", OF w(1) _ m(2)] unfolding fr fr2 fw w(3,4) by blast
    have "set (lst F' (ready_list p k)) = set (lst F (ready_list p k)) \<union> {y \<in> set (takeWhile (\<lambda>x. val k x \<le> now) (x # ds)). prio_of k y = p}" if "p < 8" for p
      using k'(7) w(5) [OF that] that unfolding due by auto
    moreover have "untouched (x # ds) k F k' F'" by (rule untouched_wake [OF Cons.prems(1,2) refl k'(8)])
    ultimately show ?thesis unfolding run due(2) using k'(1-7) kframe_trans [OF w(2) k'(3)] unfolding due(1)
      by (intro exI [of _ k'] exI [of _ F']) auto
  qed
qed

definition sched_ok :: "'a kernel_scheme \<Rightarrow> (u32 \<rightharpoonup> u32 list) \<Rightarrow> bool" where
  "sched_ok k F \<longleftrightarrow> sched_core k F \<and>
    (\<forall>x \<in> set (lst F (pxDelayedTaskList k)). xTickCount k < val k x \<and> xNextTaskUnblockTime k \<le> val k x)"

text \<open>The ticks that a sleeping task still has to wait.\<close>

definition sleeping :: "'a kernel_scheme \<Rightarrow> (u32 \<rightharpoonup> u32 list) \<Rightarrow> u32 \<Rightarrow> nat option" where
  "sleeping k F x =
    (if x \<in> set (lst F (pxDelayedTaskList k)) then Some (unat (val k x) - unat (xTickCount k))
     else if x \<in> set (lst F (pxOverflowDelayedTaskList k)) then Some (unat (val k x) + 2 ^ 32 - unat (xTickCount k))
     else None)"

definition abs_tick :: "('t \<Rightarrow> nat option) \<Rightarrow> 't \<Rightarrow> nat option" where
  "abs_tick A x = (case A x of None \<Rightarrow> None | Some r \<Rightarrow> if r \<le> 1 then None else Some (r - 1))"

lemma sorted_takeWhile_le:
  fixes f :: "'b \<Rightarrow> 'c :: linorder"
  assumes "sorted (map f xs)"
  shows "set (takeWhile (\<lambda>x. f x \<le> v) xs) = {x \<in> set xs. f x \<le> v}" "set (dropWhile (\<lambda>x. f x \<le> v) xs) = {x \<in> set xs. \<not> f x \<le> v}"
  using assms by (induction xs) auto

lemma sorted_map_dropWhile: "sorted (map f xs) \<Longrightarrow> sorted (map f (dropWhile P xs))"
  by (induction xs) auto

lemma first_wake_le: "sorted (map (val k) zs) \<Longrightarrow> x \<in> set zs \<Longrightarrow> first_wake k zs \<le> val k x"
  by (cases zs) (auto simp: first_wake_def)

lemma tick_due:
  assumes core: "sched_core k F" and nx: "\<forall>x \<in> set (lst F (pxDelayedTaskList k)). xNextTaskUnblockTime k \<le> val k x"
  defines "ds \<equiv> lst F (pxDelayedTaskList k)"
  shows "\<exists>k' F'. (if now \<ge> xNextTaskUnblockTime k
        then increment_tick_loop (unat (uxNumberOfItems (l_list k (pxDelayedTaskList k)))) now False k else Inr (k, False)) =
      Inr (k', \<exists>x \<in> set ds. val k x \<le> now \<and> cur_prio k \<le> prio_of k x) \<and>
    sched_core k' F' \<and> kframe k k' \<and> set (lst F' (pxDelayedTaskList k)) = {x \<in> set ds. \<not> val k x \<le> now} \<and>
    lst F' (pxOverflowDelayedTaskList k) = lst F (pxOverflowDelayedTaskList k) \<and>
    (\<forall>x \<in> set (lst F' (pxDelayedTaskList k)). xNextTaskUnblockTime k' \<le> val k x) \<and>
    (\<forall>p < 8. set (lst F' (ready_list p k)) = set (lst F (ready_list p k)) \<union> {x \<in> set ds. val k x \<le> now \<and> prio_of k x = p}) \<and>
    untouched ds k F k' F'"
proof (cases "now \<ge> xNextTaskUnblockTime k")
  case True
  let ?D = "pxDelayedTaskList k"
  have dse: "lst F ?D = ds" by (simp add: ds_def)
  have so: "sorted (map (val k) ds)" using core by (simp add: sched_core_def ds_def)
  note tw = sorted_takeWhile_le [OF so, of now]
  have "list_at k ?D ds" using sched_coreD(1,3) [OF core] by (auto simp: ds_def intro: lists_okD)
  then have len: "unat (uxNumberOfItems (l_list k ?D)) = length ds" by (simp add: list_at_def Let_def unat_of_nat_u32)
  obtain k' F' where l: "increment_tick_loop (length ds) now False k =
      Inr (k', False \<or> (\<exists>x \<in> set (takeWhile (\<lambda>x. val k x \<le> now) ds). cur_prio k \<le> prio_of k x))"
    "sched_core k' F'" "kframe k k'" "lst F' ?D = dropWhile (\<lambda>x. val k x \<le> now) ds"
    "lst F' (pxOverflowDelayedTaskList k) = lst F (pxOverflowDelayedTaskList k)"
    "xNextTaskUnblockTime k' = first_wake k (dropWhile (\<lambda>x. val k x \<le> now) ds)"
    "\<forall>p < 8. set (lst F' (ready_list p k)) = set (lst F (ready_list p k)) \<union> {x \<in> set (takeWhile (\<lambda>x. val k x \<le> now) ds). prio_of k x = p}" "untouched ds k F k' F'"
    using tick_loop [OF core dse order_refl, of now False] by blast
  have "sorted (map (val k) (dropWhile (\<lambda>x. val k x \<le> now) ds))" by (rule sorted_map_dropWhile [OF so])
  then have "\<forall>x \<in> set (dropWhile (\<lambda>x. val k x \<le> now) ds). first_wake k (dropWhile (\<lambda>x. val k x \<le> now) ds) \<le> val k x"
    using first_wake_le by blast
  then show ?thesis using True l tw len by (intro exI [of _ k'] exI [of _ F']) auto
next
  case False
  then have "\<not> val k x \<le> now" if "x \<in> set ds" for x using nx that unfolding ds_def by (metis order_trans)
  then show ?thesis using False core nx by (intro exI [of _ k] exI [of _ F]) (auto simp: ds_def)
qed

lemma kernel_sched_core:
  "sched_core (k\<lparr>xTickCount := v\<rparr>) F = sched_core k F"
  "sched_core (k\<lparr>xYieldPending := b\<rparr>) F = sched_core k F" "sched_core (k\<lparr>uxSchedulerSuspended := w\<rparr>) F = sched_core k F"
  by (simp_all add: sched_core_def own_lists_def ready_list_def sleeper_ok_def lists_ok_heap [of "k\<lparr>xTickCount := v\<rparr>" k]
      lists_ok_heap [of "k\<lparr>xYieldPending := b\<rparr>" k] lists_ok_heap [of "k\<lparr>uxSchedulerSuspended := w\<rparr>" k])

lemma switch_core:
  assumes "sched_core k F"
  shows "sched_core (k\<lparr>pxDelayedTaskList := pxOverflowDelayedTaskList k, pxOverflowDelayedTaskList := pxDelayedTaskList k,
      xNumOfOverflows := w, xNextTaskUnblockTime := v\<rparr>) F" (is "sched_core ?k F")
proof -
  have own: "own_lists ?k = own_lists k" by (auto simp: own_lists_def ready_list_def)
  have l: "lists_ok ?k F = lists_ok k F" by (rule lists_ok_heap) simp_all
  have r: "ready_list p ?k = ready_list p k" for p by (simp add: ready_list_def)
  have s: "sleeper_ok ?k F x = sleeper_ok k F x" for x by (simp add: sleeper_ok_def own)
  have e: "l_item ?k = l_item k" "uxTopReadyPriority ?k = uxTopReadyPriority k" "pxDelayedTaskList ?k = pxOverflowDelayedTaskList k"
    "pxOverflowDelayedTaskList ?k = pxDelayedTaskList k" by simp_all
  show ?thesis using assms unfolding sched_core_def own l r s e by (auto simp: Un_commute)
qed

text \<open>The counting part of a tick: at the wrap-around the empty delayed list and the overflow list change places.\<close>

definition tick_counted :: "'a kernel_scheme \<Rightarrow> 'a kernel_scheme res" where
  "tick_counted k =
    (let now = xTickCount k + 1; k1 = k\<lparr>xTickCount := now\<rparr> in if now = 0 then taskSWITCH_DELAYED_LISTS k1 else Inr k1)"

definition tick_frame :: "'a kernel_scheme \<Rightarrow> 'a kernel_scheme \<Rightarrow> bool" where
  "tick_frame k k' \<longleftrightarrow> tcb k' = tcb k \<and> pxCurrentTCB k' = pxCurrentTCB k \<and> uxSchedulerSuspended k' = uxSchedulerSuspended k \<and>
    pxReadyTasksLists k' = pxReadyTasksLists k \<and> xTickCount k' = xTickCount k + 1 \<and> (\<forall>x. val k' x = val k x \<and> owner k' x = owner k x) \<and>
    xPendingReadyList k' = xPendingReadyList k \<and> xSuspendedTaskList k' = xSuspendedTaskList k \<and> own_lists k' = own_lists k \<and>
    xYieldPending k' = xYieldPending k \<and> xSchedulerRunning k' = xSchedulerRunning k \<and> xPendedTicks k' = xPendedTicks k \<and>
    xIdleTaskHandle k' = xIdleTaskHandle k \<and> pendSV k' = pendSV k \<and> stack_mem k' = stack_mem k \<and> uxCurrentNumberOfTasks k' = uxCurrentNumberOfTasks k \<and>
    xTasksWaitingTermination k' = xTasksWaitingTermination k"

lemma sleeping_disjoint: "sched_core k F \<Longrightarrow> x \<in> set (lst F (pxOverflowDelayedTaskList k)) \<Longrightarrow> x \<notin> set (lst F (pxDelayedTaskList k))"
proof -
  assume core: "sched_core k F" and x: "x \<in> set (lst F (pxOverflowDelayedTaskList k))"
  note S = sched_coreD [OF core]
  have "pxDelayedTaskList k \<noteq> pxOverflowDelayedTaskList k" using core by (simp add: sched_core_def)
  then show ?thesis using x lists_ok_unique [of k F "pxDelayedTaskList k" _ "pxOverflowDelayedTaskList k" _ x, OF S(1) S(3) S(3)] by auto
qed

lemma tick_counts:
  assumes ok: "sched_ok k F"
  obtains k2 where "tick_counted k = Inr k2" "sched_core k2 F" "tick_frame k k2"
    "\<forall>x \<in> set (lst F (pxDelayedTaskList k2)). xNextTaskUnblockTime k2 \<le> val k2 x \<and> xTickCount k2 \<le> val k2 x"
    "\<And>x. sleeping k F x = map_option Suc (sleeping k2 F x)" "l_item k2 = l_item k"
proof (cases "xTickCount k + 1 = 0")
  case False
  let ?k = "k\<lparr>xTickCount := xTickCount k + 1\<rparr>"
  have core: "sched_core k F" and del: "\<forall>x \<in> set (lst F (pxDelayedTaskList k)). xTickCount k < val k x \<and> xNextTaskUnblockTime k \<le> val k x"
    using ok by (simp_all add: sched_ok_def)
  have n: "unat (xTickCount k + 1) = unat (xTickCount k) + 1" using False by (metis Suc_eq_plus1 unatSuc add.commute)
  have le: "xTickCount k + 1 \<le> v" if "xTickCount k < v" for v using that n by (simp add: word_le_nat_alt word_less_nat_alt)
  have "sleeping k F x = map_option Suc (sleeping ?k F x)" for x
  proof (cases "x \<in> set (lst F (pxDelayedTaskList k))")
    case True
    then have "unat (xTickCount k) < unat (val k x)" using del by (simp add: word_less_nat_alt)
    then show ?thesis using True n by (simp add: sleeping_def)
  next
    case False
    then show ?thesis using n unat_u32_less [of "xTickCount k + 1"] by (auto simp: sleeping_def)
  qed
  then show ?thesis using that [of ?k] False core del le by (simp add: tick_counted_def Let_def tick_frame_def kernel_sched_core own_lists_def ready_list_def)
next
  case True
  let ?k = "k\<lparr>xTickCount := 0, pxDelayedTaskList := pxOverflowDelayedTaskList k, pxOverflowDelayedTaskList := pxDelayedTaskList k,
      xNumOfOverflows := xNumOfOverflows k + 1, xNextTaskUnblockTime := first_wake k (lst F (pxOverflowDelayedTaskList k))\<rparr>"
  let ?O = "lst F (pxOverflowDelayedTaskList k)"
  have core: "sched_core k F" and del: "\<forall>x \<in> set (lst F (pxDelayedTaskList k)). xTickCount k < val k x"
    using ok by (simp_all add: sched_ok_def)
  note S = sched_coreD [OF core]
  have t: "xTickCount k = 0xFFFFFFFF" using True by (simp add: eq_neg_iff_add_eq_0 [symmetric])
  have D: "lst F (pxDelayedTaskList k) = []"
  proof (rule ccontr)
    assume "lst F (pxDelayedTaskList k) \<noteq> []"
    then obtain x where "x \<in> set (lst F (pxDelayedTaskList k))" by (meson last_in_set)
    then have "(0xFFFFFFFF :: u32) < val k x" using del t by simp
    then show False using le_max_delay [of "val k x"] by (simp add: not_less [symmetric])
  qed
  have e: "listLIST_IS_EMPTY (pxDelayedTaskList k) k" using S(3) [of "pxDelayedTaskList k"] D by (intro list_empty [OF S(1)]) simp
  have sw: "tick_counted k = Inr ?k"
  proof (cases ?O)
    case Nil
    have "listLIST_IS_EMPTY (pxOverflowDelayedTaskList k) k" using S(3) [of "pxOverflowDelayedTaskList k"] Nil by (intro list_empty [OF S(1)]) simp
    then show ?thesis using True e Nil
      by (simp add: tick_counted_def taskSWITCH_DELAYED_LISTS_def prvResetNextTaskUnblockTime_def Let_def first_wake_def listLIST_IS_EMPTY_def)
  next
    case (Cons x xs)
    have FO: "F (pxOverflowDelayedTaskList k) = Some (x # xs)" using S(3) [of "pxOverflowDelayedTaskList k"] Cons by simp
    show ?thesis using True e Cons list_head [of k F, OF S(1) FO]
      by (simp add: tick_counted_def taskSWITCH_DELAYED_LISTS_def prvResetNextTaskUnblockTime_def Let_def first_wake_def
          listLIST_IS_EMPTY_def listGET_ITEM_VALUE_OF_HEAD_ENTRY_def)
  qed
  have c: "sched_core ?k F" using switch_core [of "k\<lparr>xTickCount := 0\<rparr>" F] core by (simp add: kernel_sched_core)
  have so: "sorted (map (val k) ?O)" using core by (simp add: sched_core_def)
  have "\<forall>x \<in> set ?O. first_wake k ?O \<le> val k x" using so first_wake_le by blast
  moreover have "sleeping k F x = map_option Suc (sleeping ?k F x)" for x using D t by (simp add: sleeping_def)
  moreover have "own_lists ?k = own_lists k" by (auto simp: own_lists_def ready_list_def)
  ultimately show ?thesis using that [OF sw c] True by (simp add: tick_frame_def)
qed

text \<open>What one tick does: the sleeping tasks come one tick nearer, those due become ready.\<close>

lemma xTaskIncrementTick_counted:
  "uxSchedulerSuspended k = 0 \<Longrightarrow> xTaskIncrementTick k =
    rbind (tick_counted k) (\<lambda>k2.
      rbind (if xTickCount k + 1 \<ge> xNextTaskUnblockTime k2
             then increment_tick_loop (unat (uxNumberOfItems (l_list k2 (pxDelayedTaskList k2)))) (xTickCount k + 1) False k2
             else Inr (k2, False)) (\<lambda>(k3, sw).
      Inr (k3, xYieldPending k3 \<or> uxNumberOfItems (l_list k3 (ready_list (cur_prio k3) k3)) > 1 \<or> sw)))"
proof -
  assume run: "uxSchedulerSuspended k = 0"
  have or: "(if a then True else b) = (a \<or> b)" for a b by simp
  show ?thesis unfolding xTaskIncrementTick_def tick_counted_def Let_def or run by (simp only: if_True simp_thms)
qed

lemma tick_step:
  assumes ok: "sched_ok k F" and run: "uxSchedulerSuspended k = 0"
  shows "\<exists>k' F' sw. xTaskIncrementTick k = Inr (k', sw) \<and> sched_ok k' F' \<and> tick_frame k k' \<and> sleeping k' F' = abs_tick (sleeping k F) \<and>
    (\<forall>p < 8. set (lst F' (ready_list p k')) = set (lst F (ready_list p k)) \<union> {x. sleeping k F x = Some 1 \<and> prio_of k x = p}) \<and>
    ((\<exists>x. sleeping k F x = Some 1 \<and> cur_prio k \<le> prio_of k x) \<longrightarrow> sw) \<and>
    (\<exists>ds. set ds \<subseteq> {x. sleeping k F x \<noteq> None} \<and> untouched ds k F k' F')"
proof -
  obtain k2 where k2: "tick_counted k = Inr k2" "sched_core k2 F" "tick_frame k k2"
    "\<forall>x \<in> set (lst F (pxDelayedTaskList k2)). xNextTaskUnblockTime k2 \<le> val k2 x \<and> xTickCount k2 \<le> val k2 x"
    "\<And>x. sleeping k F x = map_option Suc (sleeping k2 F x)" "l_item k2 = l_item k" by (rule tick_counts [OF ok]) blast
  let ?now = "xTickCount k + 1" and ?ds = "lst F (pxDelayedTaskList k2)" and ?O = "lst F (pxOverflowDelayedTaskList k2)"
  let ?sw = "\<lambda>k'. xYieldPending k' \<or> uxNumberOfItems (l_list k' (ready_list (cur_prio k') k')) > 1 \<or>
    (\<exists>x \<in> set ?ds. val k2 x \<le> ?now \<and> cur_prio k2 \<le> prio_of k2 x)"
  have now: "xTickCount k2 = ?now" using k2(3) by (simp add: tick_frame_def)
  obtain k' F' where k': "(if ?now \<ge> xNextTaskUnblockTime k2
        then increment_tick_loop (unat (uxNumberOfItems (l_list k2 (pxDelayedTaskList k2)))) ?now False k2 else Inr (k2, False)) =
      Inr (k', \<exists>x \<in> set ?ds. val k2 x \<le> ?now \<and> cur_prio k2 \<le> prio_of k2 x)"
    "sched_core k' F'" "kframe k2 k'" "set (lst F' (pxDelayedTaskList k2)) = {x \<in> set ?ds. \<not> val k2 x \<le> ?now}"
    "lst F' (pxOverflowDelayedTaskList k2) = ?O" "\<forall>x \<in> set (lst F' (pxDelayedTaskList k2)). xNextTaskUnblockTime k' \<le> val k2 x"
    "\<forall>p < 8. set (lst F' (ready_list p k2)) = set (lst F (ready_list p k2)) \<union> {x \<in> set ?ds. val k2 x \<le> ?now \<and> prio_of k2 x = p}" "untouched ?ds k2 F k' F'"
    using tick_due [OF k2(2), of ?now] k2(4) by blast
  note fr = kframeD [OF k'(3)] and fr2 = kframe_ready [OF k'(3)]
  have tf: "tick_frame k k'" using k2(3) by (simp add: tick_frame_def fr fr2)
  have due: "sleeping k F x = Some 1 \<longleftrightarrow> x \<in> set ?ds \<and> val k2 x \<le> ?now" for x
  proof -
    have "sleeping k F x = Some 1 \<longleftrightarrow> sleeping k2 F x = Some 0" unfolding k2(5) by (auto simp: One_nat_def)
    also have "\<dots> \<longleftrightarrow> x \<in> set ?ds \<and> val k2 x \<le> ?now"
      using k2(4) now unat_u32_less [of "xTickCount k2"] by (auto simp: sleeping_def word_le_nat_alt)
    finally show ?thesis .
  qed
  have sl: "sleeping k' F' = abs_tick (sleeping k F)"
  proof
    fix x
    show "sleeping k' F' x = abs_tick (sleeping k F) x"
    proof (cases "x \<in> set ?ds")
      case True
      then have "unat ?now \<le> unat (val k2 x)" using k2(4) now by (simp add: word_le_nat_alt)
      moreover have "x \<notin> set ?O" using True sleeping_disjoint [OF k2(2)] by blast
      ultimately show ?thesis using True k'(4,5) now unfolding abs_tick_def k2(5)
        by (auto simp: sleeping_def fr word_le_nat_alt)
    next
      case False
      then show ?thesis using k'(4,5) now unat_u32_less [of "xTickCount k2"] unfolding abs_tick_def k2(5)
        by (auto simp: sleeping_def fr)
    qed
  qed
  have "sched_ok k' F'" using k'(2,4,6) now by (auto simp: sched_ok_def fr not_le)
  moreover have "set (lst F' (ready_list p k')) = set (lst F (ready_list p k)) \<union> {x. sleeping k F x = Some 1 \<and> prio_of k x = p}" if "p < 8" for p
    using k'(7) that k2(3) unfolding fr2 due by (simp add: tick_frame_def ready_list_def)
  moreover have "xTaskIncrementTick k = Inr (k', ?sw k')"
    unfolding xTaskIncrementTick_counted [OF run] by (simp only: k2(1) k'(1) rbind.simps prod.case)
  moreover have "?sw k'" if "sleeping k F x = Some 1" "cur_prio k \<le> prio_of k x" for x
    using that k2(3) unfolding due tick_frame_def by auto
  moreover have "untouched ?ds k F k' F'" using k'(8) k2(3,6) by (simp add: untouched_def tick_frame_def)
  moreover have "sleeping k F x \<noteq> None" if "x \<in> set ?ds" for x
    using that k2(5) [of x] by (simp add: sleeping_def)
  then have "set ?ds \<subseteq> {x. sleeping k F x \<noteq> None}" by blast
  ultimately show ?thesis using sl tf by blast
qed

text \<open>The running task is on the ready list of its priority.\<close>

definition running_ok :: "'a kernel_scheme \<Rightarrow> (u32 \<rightharpoonup> u32 list) \<Rightarrow> bool" where
  "running_ok k F \<longleftrightarrow>
    (let x = xStateListItem (pxCurrentTCB k)
     in owner k x = pxCurrentTCB k \<and> sleeper_ok k F x \<and> x \<in> set (lst F (ready_list (cur_prio k) k)))"

lemma set_insert_by_value [simp]: "set (insert_by_value f n xs) = insert n (set xs)"
proof -
  have "set xs = set (takeWhile (\<lambda>x. f x \<le> f n) xs @ dropWhile (\<lambda>x. f x \<le> f n) xs)" by simp
  then show ?thesis unfolding insert_by_value_def set_append by auto
qed

lemma sleeper_ok_cong:
  assumes "sleeper_ok k F y" "owner k' y = owner k y" "uxPriority (tcb k' (owner k y)) = uxPriority (tcb k (owner k y))" "own_lists k' = own_lists k"
    "pxContainer (l_item k' (xEventListItem (owner k y))) = pxContainer (l_item k (xEventListItem (owner k y)))"
    "\<And>L. L \<notin> own_lists k \<Longrightarrow> lst F' L = lst F L"
  shows "sleeper_ok k' F' y"
  using assms by (auto simp: sleeper_ok_def Let_def)

lemma event_not_state:
  assumes "lists_ok k F" "sleeper_ok k F y" "F L = Some xs" "x \<in> set xs" "L \<in> own_lists k" "F NULL = None"
  shows "xEventListItem (owner k y) \<noteq> x"
proof
  assume e: "xEventListItem (owner k y) = x"
  have "pxContainer (l_item k x) = L" using lists_okD [of k F, OF assms(1,3)] assms(4) by (simp add: list_at_def Let_def)
  moreover have "L \<noteq> NULL" using assms(3,6) by auto
  ultimately show False using assms(2,5) e by (auto simp: sleeper_ok_def Let_def)
qed

text \<open>Putting the running task to sleep, into either delayed list.\<close>

lemma delay_into:
  fixes w :: u32
  assumes core: "sched_core k F" and run: "running_ok k F" and L: "L = pxDelayedTaskList k \<or> L = pxOverflowDelayedTaskList k"
  defines "c \<equiv> pxCurrentTCB k" and "x \<equiv> xStateListItem (pxCurrentTCB k)" and "R \<equiv> ready_list (cur_prio k) k"
  defines "k3 \<equiv> upd_item x (\<lambda>i. i\<lparr>xItemValue := w\<rparr>) (fst (uxListRemove x (upd_tcb c (\<lambda>t. t\<lparr>ucDelayAborted := False\<rparr>) k)))"
  obtains k4 F4 where "vListInsert L x k3 = Inr k4" "sched_core k4 F4"
    "set (lst F4 L) = insert x (set (lst F L))" "\<And>M. M \<noteq> L \<Longrightarrow> M \<noteq> R \<Longrightarrow> F4 M = F M" "lst F4 R = remove1 x (lst F R)"
    "\<And>y. val k4 y = (if y = x then w else val k y)" "\<And>y. owner k4 y = owner k y"
    "k4 = k\<lparr>l_item := l_item k4, l_list := l_list k4, tcb := tcb k4\<rparr>" "\<And>t. uxPriority (tcb k4 t) = uxPriority (tcb k t)"
    "\<And>y. cont k4 y = (if y = x then L else cont k y)" "tcb k4 = (tcb k)(c := (tcb k c)\<lparr>ucDelayAborted := False\<rparr>)"
proof -
  let ?k1 = "upd_tcb c (\<lambda>t. t\<lparr>ucDelayAborted := False\<rparr>) k" and ?k2 = "fst (uxListRemove x (upd_tcb c (\<lambda>t. t\<lparr>ucDelayAborted := False\<rparr>) k))"
  let ?rs = "lst F R" and ?D = "pxDelayedTaskList k" and ?O = "pxOverflowDelayedTaskList k"
  note S = sched_coreD [OF core] and SC = core [unfolded sched_core_def]
  have x: "owner k x = c" "sleeper_ok k F x" "x \<in> set ?rs"
    using run by (simp_all add: running_ok_def Let_def x_def c_def R_def)
  moreover from x(1,2) have "cur_prio k < 8" by (simp add: sleeper_ok_def Let_def c_def)
  ultimately have x: "owner k x = c" "sleeper_ok k F x" "x \<in> set ?rs" "cur_prio k < 8" by simp_all
  have Ro: "R \<in> own_lists k" "L \<in> own_lists k" using x(4) L by (auto simp: R_def)
  have RL: "R \<noteq> ?D" "R \<noteq> ?O" "?D \<noteq> ?O" using SC x(4) unfolding R_def by (metis, metis, simp)
  have FR: "F R = Some ?rs" "F L = Some (lst F L)" using S(3) Ro by simp_all
  have h1: "l_item ?k1 = l_item k" "l_list ?k1 = l_list k" by (simp_all add: upd_tcb_def)
  have ok1: "lists_ok ?k1 F" using S(1) lists_ok_heap [OF h1] by simp
  note r = lists_remove [of ?k1 F, OF ok1 FR(1) x(3), unfolded h1]
  let ?F2 = "F(R \<mapsto> remove1 x ?rs)"
  have same: "l_list k3 = l_list ?k2" "pxNext (l_item k3 y) = pxNext (l_item ?k2 y)" "pxPrevious (l_item k3 y) = pxPrevious (l_item ?k2 y)"
    "pxContainer (l_item k3 y) = pxContainer (l_item ?k2 y)" "owner k3 y = owner ?k2 y" "val k3 y = (if y = x then w else val ?k2 y)" for y
    by (simp_all add: k3_def upd_item_def)
  have ok3: "lists_ok k3 ?F2" unfolding lists_ok_def
  proof (intro conjI allI impI)
    fix M zs assume M: "?F2 M = Some zs"
    have "x \<notin> set (xListEnd M # zs)" using r(2) itemsI [of ?F2 M zs x] M by blast
    then have "list_at k3 M zs = list_at ?k2 M zs" using same(1)
      by (intro list_at_cong) (auto simp: k3_def upd_item_def)
    then show "list_at k3 M zs" using lists_okD [of ?k2 ?F2, OF r(1) M] by simp
  next
    fix M N :: u32 assume "M \<noteq> N"
    then show "ring ?F2 M \<inter> ring ?F2 N = {}" using r(1) by (simp add: lists_ok_def)
  qed
  have F2L: "?F2 L = Some (lst F L)" using FR(2) RL L by auto
  obtain k4 where k4: "vListInsert L x k3 = Inr k4" "lists_ok k4 (?F2(L \<mapsto> insert_by_value (\<lambda>x. val k3 x) x (lst F L)))"
    "\<And>y. val k4 y = val k3 y" "\<And>y. owner k4 y = owner k3 y" "\<And>y. pxContainer (l_item k4 y) = (if y = x then L else pxContainer (l_item k3 y))"
    "k4 = k3\<lparr>l_item := l_item k4, l_list := l_list k4\<rparr>"
    by (rule lists_insert_sorted [of k3 ?F2, OF ok3 F2L r(2)]) blast
  let ?F4 = "?F2(L \<mapsto> insert_by_value (\<lambda>x. val k3 x) x (lst F L))"
  have k3e: "k3 = k\<lparr>l_item := l_item k3, l_list := l_list k3, tcb := tcb k3\<rparr>" by (simp add: k3_def uxListRemove_def heap_upd upd_tcb_def)
  have k4e: "k4 = k\<lparr>l_item := l_item k4, l_list := l_list k4, tcb := tcb k3\<rparr>" by (subst k4(6), subst k3e) simp
  have t4: "tcb k4 = tcb k3" by (subst k4e) simp
  have pr: "uxPriority (tcb k4 t) = uxPriority (tcb k t)" for t unfolding t4 by (simp add: k3_def uxListRemove_def heap_upd upd_tcb_def)
  have fl: "pxDelayedTaskList k4 = ?D" "pxOverflowDelayedTaskList k4 = ?O" "ready_list p k4 = ready_list p k" "uxTopReadyPriority k4 = uxTopReadyPriority k" for p
    by (subst k4e, simp add: ready_list_def)+
  have own: "own_lists k4 = own_lists k" by (simp add: own_lists_def fl)
  have v: "val k4 y = (if y = x then w else val k y)" "owner k4 y = owner k y" for y using k4(3,4) same(5,6) r(3,4) by simp_all
  have notin: "y \<noteq> x" if "y \<in> set (lst F M)" "M \<in> own_lists k" "M \<noteq> R" for y M
    using that x(3) lists_ok_unique [of k F M "lst F M" R ?rs x, OF S(1) S(3) FR(1)] by auto
  have con: "pxContainer (l_item k4 (xEventListItem (owner k y))) = pxContainer (l_item k (xEventListItem (owner k y)))" if "sleeper_ok k F y" for y
    using event_not_state [OF S(1) that FR(1) x(3) Ro(1) S(2)] k4(5) same(4) r(5) by simp
  have sl: "sleeper_ok k4 ?F4 y" if "sleeper_ok k F y" for y
  proof (rule sleeper_ok_cong [OF that v(2) pr own con [OF that]])
    fix M assume "M \<notin> own_lists k"
    then have "M \<noteq> R" "M \<noteq> L" using Ro by auto
    then show "lst ?F4 M = lst F M" by simp
  qed
  have vs: "map (val k4) (lst F M) = map (val k) (lst F M)" if "M \<in> own_lists k" "M \<noteq> R" for M using notin [OF _ that] v(1) by simp
  have so: "sorted (map (val k4) (lst F ?D))" "sorted (map (val k4) (lst F ?O))" 
    unfolding vs [OF in_own(1) RL(1) [symmetric]] vs [OF in_own(2) RL(2) [symmetric]] using SC by simp_all
  have soL: "sorted (map (val k4) (insert_by_value (\<lambda>x. val k3 x) x (lst F L)))"
    using insert_by_value_sorted [of "val k4" "lst F L" x] so L k4(3) by auto
  have "sched_core k4 ?F4" unfolding sched_core_def fl own
  proof (intro conjI)
    show "lists_ok k4 ?F4" by (fact k4(2))
    show "?F4 NULL = None" using S(2) S(4) Ro by simp
    show "\<forall>M \<in> own_lists k. ?F4 M \<noteq> None" using S(3) by simp
    show "\<forall>y \<in> set (lst ?F4 ?D) \<union> set (lst ?F4 ?O). sleeper_ok k4 ?F4 y"
      using SC x(2) sl RL L by (auto split: if_splits)
    show "sorted (map (val k4) (lst ?F4 ?D))" "sorted (map (val k4) (lst ?F4 ?O))" using so soL RL L by auto
    show "\<forall>p<8. lst ?F4 (ready_list p k) \<noteq> [] \<longrightarrow> p \<le> uxTopReadyPriority k"
    proof (intro allI impI)
      fix p :: u32 assume p: "p < 8" "lst ?F4 (ready_list p k) \<noteq> []"
      have "ready_list p k \<noteq> L" using SC L p(1) by metis
      then have "lst F (ready_list p k) \<noteq> []" using p(2) by (auto split: if_splits)
      then show "p \<le> uxTopReadyPriority k" using SC p(1) by blast
    qed
    show "?D \<noteq> ?O" "\<forall>p < 8. ?D \<noteq> ready_list p k \<and> ?O \<noteq> ready_list p k" "uxTopReadyPriority k < 8" using SC by simp_all
  qed
  moreover have "lst ?F4 R = remove1 x (lst F R)" using RL L by auto
  moreover have "k4 = k\<lparr>l_item := l_item k4, l_list := l_list k4, tcb := tcb k4\<rparr>" using k4e unfolding t4 .
  moreover have "tcb k4 = (tcb k)(c := (tcb k c)\<lparr>ucDelayAborted := False\<rparr>)" unfolding t4 by (simp add: k3_def uxListRemove_def heap_upd upd_tcb_def)
  moreover have "cont k4 y = (if y = x then L else cont k y)" for y using k4(5) same(4) r(5) by simp
  ultimately show ?thesis using that [OF k4(1)] v pr by simp
qed

lemma wake_time:
  fixes now n :: u32
  assumes "0 < n"
  shows "now + n < now \<Longrightarrow> unat (now + n) + 2 ^ 32 - unat now = unat n"
    "\<not> now + n < now \<Longrightarrow> now < now + n \<and> unat (now + n) - unat now = unat n"
proof -
  have u: "unat (now + n) = (if unat now + unat n < 2 ^ 32 then unat now + unat n else unat now + unat n - 2 ^ 32)"
    using unat_plus_mod [of "unat n" now] unat_u32_less [of n] by simp
  have n: "0 < unat n" "unat n < 2 ^ 32" "unat now < 2 ^ 32" using assms unat_u32_less [of n] unat_u32_less [of now] by (simp_all add: word_less_nat_alt)
  show "now + n < now \<Longrightarrow> unat (now + n) + 2 ^ 32 - unat now = unat n" using u n by (auto simp: word_less_nat_alt split: if_splits)
  show "\<not> now + n < now \<Longrightarrow> now < now + n \<and> unat (now + n) - unat now = unat n" using u n by (auto simp: word_less_nat_alt split: if_splits)
qed

definition delay_frame :: "'a kernel_scheme \<Rightarrow> 'a kernel_scheme \<Rightarrow> bool" where
  "delay_frame k k' \<longleftrightarrow> (\<forall>t. uxPriority (tcb k' t) = uxPriority (tcb k t)) \<and> pxReadyTasksLists k' = pxReadyTasksLists k \<and> xTickCount k' = xTickCount k \<and>
    xPendingReadyList k' = xPendingReadyList k \<and> xPendedTicks k' = xPendedTicks k \<and> (\<forall>x. owner k' x = owner k x) \<and>
    uxSchedulerSuspended k' = uxSchedulerSuspended k \<and> xYieldPending k' = xYieldPending k \<and>
    xSuspendedTaskList k' = xSuspendedTaskList k \<and> own_lists k' = own_lists k \<and> pxCurrentTCB k' = pxCurrentTCB k \<and>
    xSchedulerRunning k' = xSchedulerRunning k \<and> xIdleTaskHandle k' = xIdleTaskHandle k \<and> uxCurrentNumberOfTasks k' = uxCurrentNumberOfTasks k \<and>
    xTasksWaitingTermination k' = xTasksWaitingTermination k \<and> stack_mem k' = stack_mem k \<and>
    tcb k' = (tcb k)(pxCurrentTCB k := (tcb k (pxCurrentTCB k))\<lparr>ucDelayAborted := False\<rparr>) \<and>
    (\<forall>y. y \<noteq> xStateListItem (pxCurrentTCB k) \<longrightarrow> cont k' y = cont k y)"

lemma delay_step:
  assumes ok: "sched_ok k F" and run: "running_ok k F" and n: "0 < n" "n \<noteq> portMAX_DELAY \<or> \<not> blk"
  defines "x \<equiv> xStateListItem (pxCurrentTCB k)"
  obtains k' F' where "prvAddCurrentTaskToDelayedList n blk k = Inr k'" "sched_ok k' F'" "delay_frame k k'"
    "sleeping k' F' = (sleeping k F)(x \<mapsto> unat n)" "\<And>L. L \<notin> own_lists k \<Longrightarrow> F' L = F L"
    "\<And>p. p < 8 \<Longrightarrow> set (lst F' (ready_list p k')) = set (lst F (ready_list p k)) - {x}"
proof -
  let ?c = "pxCurrentTCB k" and ?w = "xTickCount k + n" and ?D = "pxDelayedTaskList k" and ?O = "pxOverflowDelayedTaskList k"
  let ?R = "ready_list (cur_prio k) k"
  define k3 where "k3 = upd_item x (\<lambda>i. i\<lparr>xItemValue := ?w\<rparr>) (fst (uxListRemove x (upd_tcb ?c (\<lambda>t. t\<lparr>ucDelayAborted := False\<rparr>) k)))"
  have core: "sched_core k F" and del: "\<forall>x \<in> set (lst F ?D). xTickCount k < val k x \<and> xNextTaskUnblockTime k \<le> val k x"
    using ok by (simp_all add: sched_ok_def)
  note S = sched_coreD [OF core] and SC = core [unfolded sched_core_def]
  have xr: "x \<in> set (lst F ?R)" "cur_prio k < 8" "?R \<in> own_lists k"
    using run by (auto simp: running_ok_def Let_def x_def sleeper_ok_def)
  have RL: "?R \<noteq> ?D" "?R \<noteq> ?O" "?D \<noteq> ?O" using SC xr(2) by (metis, metis, simp)
  have dist: "distinct (lst F M)" if "M \<in> own_lists k" for M using lists_okD [of k F, OF S(1) S(3) [OF that]] by (simp add: list_at_def Let_def)
  have only: "x \<notin> set (lst F M)" if "M \<in> own_lists k" "M \<noteq> ?R" for M
    using that xr lists_ok_unique [of k F M "lst F M" ?R "lst F ?R" x, OF S(1) S(3) S(3)] by auto
  define L where "L = (if ?w < xTickCount k then ?O else ?D)"
  have L: "L = ?D \<or> L = ?O" "L \<noteq> ?R" "L \<in> own_lists k" using RL by (auto simp: L_def)
  obtain k4 F4 where k4: "vListInsert L x k3 = Inr k4" "sched_core k4 F4"
    "set (lst F4 L) = insert x (set (lst F L))" "\<And>M. M \<noteq> L \<Longrightarrow> M \<noteq> ?R \<Longrightarrow> F4 M = F M" "lst F4 ?R = remove1 x (lst F ?R)"
    "\<And>y. val k4 y = (if y = x then ?w else val k y)" "\<And>y. owner k4 y = owner k y"
    "k4 = k\<lparr>l_item := l_item k4, l_list := l_list k4, tcb := tcb k4\<rparr>" "\<And>t. uxPriority (tcb k4 t) = uxPriority (tcb k t)"
    "\<And>y. cont k4 y = (if y = x then L else cont k y)" "tcb k4 = (tcb k)(?c := (tcb k ?c)\<lparr>ucDelayAborted := False\<rparr>)"
    by (rule delay_into [OF core run L(1), of ?w]) (unfold k3_def x_def, blast)
  have k4l: "lst F4 M = lst F M" if "M \<noteq> L" "M \<noteq> ?R" for M using k4(4) [OF that] by (simp add: lst_def)
  define nx where "nx = (if ?w < xTickCount k then xNextTaskUnblockTime k else min ?w (xNextTaskUnblockTime k))"
  let ?k = "k4\<lparr>xNextTaskUnblockTime := nx\<rparr>"
  have fl: "pxDelayedTaskList k4 = ?D" "pxOverflowDelayedTaskList k4 = ?O" "ready_list p k4 = ready_list p k" "xTickCount k4 = xTickCount k"
    "xNextTaskUnblockTime k4 = xNextTaskUnblockTime k" "pxReadyTasksLists k4 = pxReadyTasksLists k" "xPendingReadyList k4 = xPendingReadyList k"
    "xPendedTicks k4 = xPendedTicks k" "uxSchedulerSuspended k4 = uxSchedulerSuspended k" "xYieldPending k4 = xYieldPending k"
    "xSuspendedTaskList k4 = xSuspendedTaskList k" "own_lists k4 = own_lists k" "pxCurrentTCB k4 = pxCurrentTCB k"
    "xSchedulerRunning k4 = xSchedulerRunning k" "xIdleTaskHandle k4 = xIdleTaskHandle k" "uxCurrentNumberOfTasks k4 = uxCurrentNumberOfTasks k"
    "xTasksWaitingTermination k4 = xTasksWaitingTermination k" "stack_mem k4 = stack_mem k" for p
    by (subst k4(8), simp add: ready_list_def own_lists_def)+
  have rl: "ready_list p ?k = ready_list p k" for p by (simp add: ready_list_def fl)
  have k4n: "k4\<lparr>xNextTaskUnblockTime := xNextTaskUnblockTime k\<rparr> = k4" unfolding fl(5) [symmetric] by simp
  have k3f: "pxDelayedTaskList k3 = ?D" "pxOverflowDelayedTaskList k3 = ?O" by (simp_all add: k3_def uxListRemove_def heap_upd upd_tcb_def)
  have t1: "prvAddCurrentTaskToDelayedList n blk k =
      (if ?w < xTickCount k then vListInsert ?O x k3
       else rbind (vListInsert ?D x k3) (\<lambda>k4. Inr (if ?w < xNextTaskUnblockTime k4 then k4\<lparr>xNextTaskUnblockTime := ?w\<rparr> else k4)))"
  proof -
    have "(n = portMAX_DELAY \<and> blk) = False" using n(2) by blast
    then show ?thesis unfolding prvAddCurrentTaskToDelayedList_def Let_def x_def [symmetric] k3_def [symmetric] k3f by (simp only: if_False)
  qed
  have run': "prvAddCurrentTaskToDelayedList n blk k = Inr ?k"
  proof (cases "?w < xTickCount k")
    case True
    then have "vListInsert ?O x k3 = Inr k4" "nx = xNextTaskUnblockTime k" using k4(1) by (simp_all add: L_def nx_def)
    then show ?thesis using True k4n unfolding t1 by (simp only: if_True)
  next
    case False
    then have "vListInsert ?D x k3 = Inr k4" "nx = (if ?w < xNextTaskUnblockTime k then ?w else xNextTaskUnblockTime k)"
      using k4(1) by (auto simp: L_def nx_def min_def)
    then show ?thesis using False k4n unfolding t1 by (simp only: if_False rbind.simps fl(5) split: if_split) simp
  qed
  have mem: "x \<in> set (lst F4 M) \<longleftrightarrow> M = L" "y \<noteq> x \<Longrightarrow> y \<in> set (lst F4 M) \<longleftrightarrow> y \<in> set (lst F M)" if "M = ?D \<or> M = ?O" for M y
    using that k4(3) k4l [of M] only [of M] RL by (cases "M = L"; auto)+
  have "sched_ok ?k F4" unfolding sched_ok_def
  proof (intro conjI ballI)
    show "sched_core ?k F4" using k4(2) by (simp add: sched_core_next)
    fix y assume "y \<in> set (lst F4 (pxDelayedTaskList ?k))"
    then have y: "y \<in> set (lst F4 ?D)" by (simp add: fl)
    show "xTickCount ?k < val ?k y" "xNextTaskUnblockTime ?k \<le> val ?k y"
    proof (atomize (full), cases "y = x")
      case True
      then have "?D = L" using mem(1) [of ?D] y by simp
      then have "\<not> ?w < xTickCount k" using RL(3) by (auto simp: L_def split: if_splits)
      then show "xTickCount ?k < val ?k y \<and> xNextTaskUnblockTime ?k \<le> val ?k y"
        using True wake_time(2) [OF n(1)] by (simp add: k4(6) fl nx_def)
    next
      case False
      then have "y \<in> set (lst F ?D)" using mem(2) [of ?D y] y by simp
      then show "xTickCount ?k < val ?k y \<and> xNextTaskUnblockTime ?k \<le> val ?k y"
        using del False by (auto simp: k4(6) fl nx_def min_le_iff_disj)
    qed
  qed
  moreover have "sleeping ?k F4 = (sleeping k F)(x \<mapsto> unat n)"
  proof
    fix y show "sleeping ?k F4 y = ((sleeping k F)(x \<mapsto> unat n)) y"
    proof (cases "y = x")
      case True
      then show ?thesis using mem(1) [of ?D] mem(1) [of ?O] RL(3) wake_time [OF n(1), of "xTickCount k"]
        by (auto simp: sleeping_def fl k4(6) L_def)
    next
      case False
      then show ?thesis using mem(2) [of ?D y] mem(2) [of ?O y] by (simp add: sleeping_def fl k4(6))
    qed
  qed
  moreover have "own_lists ?k = own_lists k" by (simp add: own_lists_def ready_list_def fl)
  then have "delay_frame k ?k" using k4(10) by (simp add: delay_frame_def k4(7,9,11) fl x_def)
  moreover have "F4 M = F M" if "M \<notin> own_lists k" for M by (rule k4(4)) (use that L(3) xr(3) in auto)
  moreover have "set (lst F4 (ready_list p ?k)) = set (lst F (ready_list p k)) - {x}" if p: "p < 8" for p
  proof (cases "p = cur_prio k")
    case True
    then show ?thesis using k4(5) dist [OF xr(3)] by (simp add: rl)
  next
    case False
    then have "ready_list p k \<noteq> ?R" using ready_list_inj [OF p xr(2), of k] by simp
    moreover have "ready_list p k \<noteq> L" using SC L(1) p by metis
    ultimately show ?thesis using k4l only [of "ready_list p k"] p by (simp add: rl)
  qed
  ultimately show ?thesis using that [OF run'] by blast
qed

text \<open>The whole delay: the scheduler is suspended around it and nothing is pending.\<close>

definition quiet_kernel :: "'a kernel_scheme \<Rightarrow> (u32 \<rightharpoonup> u32 list) \<Rightarrow> bool" where
  "quiet_kernel k F \<longleftrightarrow> uxSchedulerSuspended k = 0 \<and> xPendedTicks k = 0 \<and> F (xPendingReadyList k) = Some [] \<and> xPendingReadyList k \<notin> own_lists k"

lemma own_lists_fields [simp]:
  "own_lists (k\<lparr>uxSchedulerSuspended := w\<rparr>) = own_lists k" "own_lists (k\<lparr>pendSV := b\<rparr>) = own_lists k"
  "own_lists (k\<lparr>xYieldPending := b\<rparr>) = own_lists k" "own_lists (k\<lparr>xTickCount := w\<rparr>) = own_lists k"
  "own_lists (k\<lparr>pxCurrentTCB := w\<rparr>) = own_lists k" "own_lists (k\<lparr>uxTopReadyPriority := w\<rparr>) = own_lists k"
  "own_lists (k\<lparr>uxCurrentNumberOfTasks := w\<rparr>) = own_lists k" "own_lists (k\<lparr>uxTaskNumber := w\<rparr>) = own_lists k"
  "own_lists (k\<lparr>stack_mem := m\<rparr>) = own_lists k" "own_lists (k\<lparr>tcb := tt\<rparr>) = own_lists k"
  "own_lists (k\<lparr>xNextTaskUnblockTime := w\<rparr>) = own_lists k" "own_lists (k\<lparr>xSchedulerRunning := b\<rparr>) = own_lists k"
  "own_lists (k\<lparr>xIdleTaskHandle := w\<rparr>) = own_lists k"
  by (simp_all add: own_lists_def ready_list_def)

lemma ready_list_fields [simp]:
  "ready_list p (k\<lparr>uxSchedulerSuspended := w\<rparr>) = ready_list p k" "ready_list p (k\<lparr>pendSV := b\<rparr>) = ready_list p k"
  "ready_list p (k\<lparr>xYieldPending := b\<rparr>) = ready_list p k" "ready_list p (k\<lparr>xTickCount := w\<rparr>) = ready_list p k"
  "ready_list p (k\<lparr>pxCurrentTCB := w\<rparr>) = ready_list p k" "ready_list p (k\<lparr>uxTopReadyPriority := w\<rparr>) = ready_list p k"
  "ready_list p (k\<lparr>uxCurrentNumberOfTasks := w\<rparr>) = ready_list p k" "ready_list p (k\<lparr>uxTaskNumber := w\<rparr>) = ready_list p k"
  "ready_list p (k\<lparr>stack_mem := m\<rparr>) = ready_list p k" "ready_list p (k\<lparr>tcb := tt\<rparr>) = ready_list p k"
  "ready_list p (k\<lparr>xNextTaskUnblockTime := w\<rparr>) = ready_list p k" "ready_list p (k\<lparr>xSchedulerRunning := b\<rparr>) = ready_list p k"
  "ready_list p (k\<lparr>xIdleTaskHandle := w\<rparr>) = ready_list p k"
  by (simp_all add: ready_list_def)

lemma sched_ok_fields:
  "sched_ok (k\<lparr>uxSchedulerSuspended := w\<rparr>) F = sched_ok k F" "sched_ok (k\<lparr>pendSV := b\<rparr>) F = sched_ok k F"
proof -
  have "sched_core (k\<lparr>pendSV := b\<rparr>) F = sched_core k F"
    by (simp add: sched_core_def own_lists_def ready_list_def sleeper_ok_def lists_ok_heap [of "k\<lparr>pendSV := b\<rparr>" k])
  then show "sched_ok (k\<lparr>uxSchedulerSuspended := w\<rparr>) F = sched_ok k F" "sched_ok (k\<lparr>pendSV := b\<rparr>) F = sched_ok k F"
    by (simp_all add: sched_ok_def kernel_sched_core)
qed

lemma resume_quiet:
  assumes ok: "sched_ok k F" and q: "uxSchedulerSuspended k = 1" "xPendedTicks k = 0" "F (xPendingReadyList k) = Some []"
  obtains b where "xTaskResumeAll k = Inr ((if b then portYIELD_WITHIN_API else id) (k\<lparr>uxSchedulerSuspended := 0\<rparr>), b)"
proof -
  let ?k = "k\<lparr>uxSchedulerSuspended := 0\<rparr>"
  have "listLIST_IS_EMPTY (xPendingReadyList k) k" using ok q(3) by (intro list_empty [of k F]) (simp_all add: sched_ok_def sched_core_def)
  then have l: "resume_pending_loop n NULL ?k = Inr (?k, NULL)" for n by (subst resume_pending_loop.simps) (simp add: listLIST_IS_EMPTY_def)
  show ?thesis
  proof (cases "uxCurrentNumberOfTasks k > 0 \<and> xYieldPending k")
    case True
    then show ?thesis using that [of True] q l by (simp add: xTaskResumeAll_def Let_def)
  next
    case False
    then show ?thesis using that [of False] q l by (auto simp: xTaskResumeAll_def Let_def)
  qed
qed

lemma delay_whole:
  assumes ok: "sched_ok k F" and run: "running_ok k F" and q: "quiet_kernel k F" and n: "0 < n"
  defines "x \<equiv> xStateListItem (pxCurrentTCB k)"
  obtains k' F' where "vTaskDelay n k = Inr k'" "pendSV k'" "sched_ok k' F'" "delay_frame k k'" "sleeping k' F' = (sleeping k F)(x \<mapsto> unat n)"
    "\<And>p. p < 8 \<Longrightarrow> set (lst F' (ready_list p k')) = set (lst F (ready_list p k)) - {x}"
proof -
  let ?k = "k\<lparr>uxSchedulerSuspended := 1\<rparr>"
  have sa: "vTaskSuspendAll k = ?k" using q by (simp add: vTaskSuspendAll_def quiet_kernel_def)
  have own: "own_lists ?k = own_lists k" "sleeping ?k F = sleeping k F" "ready_list p ?k = ready_list p k" for p
    by (simp_all add: own_lists_def ready_list_def sleeping_def fun_eq_iff)
  have run': "running_ok ?k F" using run by (simp add: running_ok_def sleeper_ok_def own)
  have ok': "sched_ok ?k F" using ok by (simp add: sched_ok_fields)
  obtain k1 F1 where k1: "prvAddCurrentTaskToDelayedList n False ?k = Inr k1" "sched_ok k1 F1" "delay_frame ?k k1"
    "sleeping k1 F1 = (sleeping k F)(x \<mapsto> unat n)" "\<And>L. L \<notin> own_lists k \<Longrightarrow> F1 L = F L"
    "\<And>p. p < 8 \<Longrightarrow> set (lst F1 (ready_list p k1)) = set (lst F (ready_list p k)) - {x}"
    by (rule delay_step [OF ok' run' n, of False]) (simp_all add: own x_def)
  have f: "uxSchedulerSuspended k1 = 1" "xPendedTicks k1 = 0" "xPendingReadyList k1 = xPendingReadyList k"
    using k1(3) q by (simp_all add: delay_frame_def quiet_kernel_def)
  have "F1 (xPendingReadyList k1) = Some []" using k1(5) q f(3) by (simp add: quiet_kernel_def)
  then obtain b where b: "xTaskResumeAll k1 = Inr ((if b then portYIELD_WITHIN_API else id) (k1\<lparr>uxSchedulerSuspended := 0\<rparr>), b)"
    by (rule resume_quiet [OF k1(2) f(1,2)])
  define k' where "k' = k1\<lparr>uxSchedulerSuspended := 0, pendSV := True\<rparr>"
  have "vTaskDelay n k = Inr k'"
    using n q sa k1(1) b by (simp add: vTaskDelay_def quiet_kernel_def portYIELD_WITHIN_API_def k'_def)
  moreover have "sched_ok k' F1" "pendSV k'" using k1(2) by (simp_all add: k'_def sched_ok_fields)
  moreover have "delay_frame k k'" using k1(3) q by (simp add: delay_frame_def k'_def quiet_kernel_def)
  moreover have "sleeping k' F1 = (sleeping k F)(x \<mapsto> unat n)" unfolding k1(4) [symmetric] by (simp add: sleeping_def fun_eq_iff k'_def)
  moreover have "ready_list p k' = ready_list p k1" for p by (simp add: ready_list_def k'_def)
  ultimately show ?thesis using that k1(6) by simp
qed

text \<open>Nothing but ticks.\<close>

fun tick_run :: "nat \<Rightarrow> 'a kernel_scheme \<Rightarrow> 'a kernel_scheme res" where
  "tick_run 0 k = Inr k"
| "tick_run (Suc m) k = rbind (xTaskIncrementTick k) (\<lambda>(k', sw). tick_run m k')"

lemma tick_run_ready:
  assumes "sched_ok k F" "uxSchedulerSuspended k = 0" "x \<in> set (lst F (ready_list p k))" "p < 8"
  shows "\<exists>k' F'. tick_run m k = Inr k' \<and> sched_ok k' F' \<and> uxSchedulerSuspended k' = 0 \<and> xTickCount k' = xTickCount k + of_nat m \<and>
    x \<in> set (lst F' (ready_list p k'))"
  using assms
proof (induction m arbitrary: k F)
  case (Suc m)
  obtain k1 F1 sw where k1: "xTaskIncrementTick k = Inr (k1, sw)" "sched_ok k1 F1" "tick_frame k k1"
    "\<forall>p < 8. set (lst F1 (ready_list p k1)) = set (lst F (ready_list p k)) \<union> {x. sleeping k F x = Some 1 \<and> prio_of k x = p}"
    using tick_step [OF Suc.prems(1,2)] by blast
  have f: "uxSchedulerSuspended k1 = 0" "xTickCount k1 = xTickCount k + 1" using k1(3) Suc.prems(2) by (simp_all add: tick_frame_def)
  have "x \<in> set (lst F1 (ready_list p k1))" using k1(4) Suc.prems(3,4) by simp
  then have "\<exists>k' F'. tick_run m k1 = Inr k' \<and> sched_ok k' F' \<and> uxSchedulerSuspended k' = 0 \<and> xTickCount k' = xTickCount k1 + of_nat m \<and>
      x \<in> set (lst F' (ready_list p k'))"
    using k1(2) f(1) Suc.prems(4) by (intro Suc.IH)
  then show ?case using k1(1) f(2) by (auto simp: algebra_simps)
qed auto

lemma tick_run_sleeping:
  assumes "sched_ok k F" "uxSchedulerSuspended k = 0" "sleeping k F x = Some r" "0 < r" "p = prio_of k x" "p < 8"
  shows "\<exists>k' F'. tick_run m k = Inr k' \<and> sched_ok k' F' \<and> uxSchedulerSuspended k' = 0 \<and> xTickCount k' = xTickCount k + of_nat m \<and>
    (if m < r then sleeping k' F' x = Some (r - m) else x \<in> set (lst F' (ready_list p k')))"
  using assms
proof (induction m arbitrary: k F r)
  case (Suc m)
  obtain k1 F1 sw where k1: "xTaskIncrementTick k = Inr (k1, sw)" "sched_ok k1 F1" "tick_frame k k1" "sleeping k1 F1 = abs_tick (sleeping k F)"
    "\<forall>p < 8. set (lst F1 (ready_list p k1)) = set (lst F (ready_list p k)) \<union> {x. sleeping k F x = Some 1 \<and> prio_of k x = p}"
    using tick_step [OF Suc.prems(1,2)] by blast
  have f: "uxSchedulerSuspended k1 = 0" "xTickCount k1 = xTickCount k + 1" "prio_of k1 x = p" using k1(3) Suc.prems(2,5) by (simp_all add: tick_frame_def)
  show ?case
  proof (cases "r = 1")
    case True
    then have "x \<in> set (lst F1 (ready_list p k1))" using k1(5) Suc.prems(3,5,6) by simp
    then have "\<exists>k' F'. tick_run m k1 = Inr k' \<and> sched_ok k' F' \<and> uxSchedulerSuspended k' = 0 \<and> xTickCount k' = xTickCount k1 + of_nat m \<and>
        x \<in> set (lst F' (ready_list p k'))"
      using k1(2) f(1) Suc.prems(6) by (intro tick_run_ready)
    then show ?thesis using True k1(1) f(2) by (auto simp: algebra_simps)
  next
    case False
    then have "sleeping k1 F1 x = Some (r - 1)" "0 < r - 1" using k1(4) Suc.prems(3,4) by (simp_all add: abs_tick_def)
    then have "\<exists>k' F'. tick_run m k1 = Inr k' \<and> sched_ok k' F' \<and> uxSchedulerSuspended k' = 0 \<and> xTickCount k' = xTickCount k1 + of_nat m \<and>
        (if m < r - 1 then sleeping k' F' x = Some (r - 1 - m) else x \<in> set (lst F' (ready_list p k')))"
      using k1(2) f(1,3) Suc.prems(6) by (intro Suc.IH) simp_all
    then show ?thesis using k1(1) f(2) by (auto simp: algebra_simps split: if_splits)
  qed
qed auto

section \<open>Selection\<close>

text \<open>The items of a list in the order in which the walking index visits them.\<close>

definition turns :: "u32 \<Rightarrow> u32 list \<Rightarrow> u32 list" where
  "turns idx xs = (if idx \<in> set xs then tl (dropWhile (\<lambda>x. x \<noteq> idx) xs) @ takeWhile (\<lambda>x. x \<noteq> idx) xs @ [idx] else xs)"

lemma turns_split: "idx \<notin> set as \<Longrightarrow> turns idx (as @ idx # bs) = bs @ as @ [idx]"
  by (simp add: turns_def takeWhile_append dropWhile_append)

lemma set_turns [simp]: "set (turns idx xs) = set xs"
proof (cases "idx \<in> set xs")
  case True
  then obtain as bs where "xs = as @ idx # bs" "idx \<notin> set as" by (meson split_list_first)
  then show ?thesis using turns_split by auto
qed (simp add: turns_def)

lemma length_turns [simp]: "length (turns idx xs) = length xs"
proof (cases "idx \<in> set xs")
  case True
  then obtain as bs where "xs = as @ idx # bs" "idx \<notin> set as" by (meson split_list_first)
  then show ?thesis using turns_split by auto
qed (simp add: turns_def)

lemma distinct_turns: "distinct (turns idx xs) = distinct xs"
proof (cases "idx \<in> set xs")
  case True
  then obtain as bs where "xs = as @ idx # bs" "idx \<notin> set as" by (meson split_list_first)
  then show ?thesis using turns_split by auto
qed (simp add: turns_def)

abbreviation turn_order :: "'a list_heap_scheme \<Rightarrow> u32 \<Rightarrow> u32 list \<Rightarrow> u32 list" where
  "turn_order h L xs \<equiv> turns (pxIndex (l_list h L)) xs"

lemma next_entry_index:
  assumes at: "list_at h L xs" and ne: "xs \<noteq> []"
  defines "i \<equiv> pxIndex (l_list h L)" and "x \<equiv> hd (turn_order h L xs)"
  shows "(if pxNext (l_item h i) = xListEnd L then pxNext (l_item h (xListEnd L)) else pxNext (l_item h i)) = x \<and>
    turns x xs = rotate1 (turns i xs)"
proof (cases "i = xListEnd L")
  let ?n = "if pxNext (l_item h i) = xListEnd L then pxNext (l_item h (xListEnd L)) else pxNext (l_item h i)"
  have d: "distinct (xListEnd L # xs)" and m: "i \<in> set (xListEnd L # xs)" using at by (simp_all add: list_at_def Let_def i_def)
  obtain a ys where xs: "xs = a # ys" using ne by (cases xs) auto
  have first: "pxNext (l_item h (xListEnd L)) = a" "a \<noteq> xListEnd L" using last_next [of h L "[]" xs] at d by (auto simp: xs)
  case True
  then have t: "turns i xs = xs" using d by (simp add: turns_def)
  then have "x = a" by (simp add: x_def i_def [symmetric] xs)
  moreover have "turns a xs = ys @ [a]" using turns_split [of a "[]" ys] by (simp add: xs)
  ultimately show "?n = x \<and> turns x xs = rotate1 (turns i xs)" using t first True by (simp add: xs)
next
  let ?n = "if pxNext (l_item h i) = xListEnd L then pxNext (l_item h (xListEnd L)) else pxNext (l_item h i)"
  have d: "distinct (xListEnd L # xs)" and m: "i \<in> set (xListEnd L # xs)" using at by (simp_all add: list_at_def Let_def i_def)
  case False
  then obtain as bs where xs: "xs = as @ i # bs" using m by (auto dest: split_list)
  have t: "turns i xs = bs @ as @ [i]" using d unfolding xs by (intro turns_split) auto
  have nx: "pxNext (l_item h i) = hd (bs @ [xListEnd L])" using last_next [of h L "as @ [i]" bs] at by (simp add: xs)
  show "?n = x \<and> turns x xs = rotate1 (turns i xs)"
  proof (cases bs)
    case (Cons b cs)
    have x: "x = b" using t Cons by (simp add: x_def i_def [symmetric])
    have "turns b ((as @ [i]) @ b # cs) = cs @ (as @ [i]) @ [b]" using d by (intro turns_split) (auto simp: xs Cons)
    then show ?thesis using x nx d t by (auto simp: xs Cons)
  next
    case Nil
    have f: "pxNext (l_item h (xListEnd L)) = hd (as @ [i])" using last_next [of h L "[]" xs] at by (cases as) (simp_all add: xs Nil)
    have x: "x = hd (as @ [i])" using t Nil by (simp add: x_def i_def [symmetric])
    have "turns (hd (as @ [i])) xs = rotate1 (as @ [i])"
    proof (cases as)
      case Nil
      then show ?thesis using \<open>bs = []\<close> by (simp add: xs turns_def)
    next
      case (Cons c cs)
      then show ?thesis using turns_split [of c "[]" "cs @ [i]"] \<open>bs = []\<close> by (simp add: xs)
    qed
    then show ?thesis using nx f x t Nil by simp
  qed
qed

lemma next_entry:
  assumes at: "list_at h L xs" and ne: "xs \<noteq> []"
  obtains h' where "listGET_OWNER_OF_NEXT_ENTRY L h = (h', owner h (hd (turn_order h L xs)))"
    "h' = upd_list L (\<lambda>l. l\<lparr>pxIndex := hd (turn_order h L xs)\<rparr>) h" "turn_order h' L xs = rotate1 (turn_order h L xs)"
proof -
  let ?i = "pxIndex (l_list h L)" and ?x = "hd (turn_order h L xs)"
  note n = next_entry_index [OF at ne]
  have "listGET_OWNER_OF_NEXT_ENTRY L h = (upd_list L (\<lambda>l. l\<lparr>pxIndex := if pxNext (l_item h ?i) = xListEnd L then pxNext (l_item h (xListEnd L)) else pxNext (l_item h ?i)\<rparr>) h,
      owner h (if pxNext (l_item h ?i) = xListEnd L then pxNext (l_item h (xListEnd L)) else pxNext (l_item h ?i)))"
    by (simp add: listGET_OWNER_OF_NEXT_ENTRY_def heap_upd)
  then show ?thesis using that n by (simp add: heap_upd)
qed

lemma index_lists_ok:
  assumes ok: "lists_ok h F" and L: "F L = Some xs" and x: "x \<in> set xs"
  shows "lists_ok (upd_list L (\<lambda>l. l\<lparr>pxIndex := x\<rparr>) h) F" (is "lists_ok ?h F")
proof -
  have "list_at ?h M zs" if M: "F M = Some zs" for M zs
  proof (cases "M = L")
    case True
    have "linked ?h ys = linked h ys" for ys by (rule linked_cong) (simp_all add: upd_list_def)
    then show ?thesis using lists_okD [of h F, OF ok M] M L x True by (simp add: list_at_def Let_def upd_list_def)
  next
    case False
    then have "list_at ?h M zs = list_at h M zs" by (intro list_at_cong) (simp_all add: upd_list_def)
    then show ?thesis using lists_okD [of h F, OF ok M] by simp
  qed
  then show ?thesis using ok by (simp add: lists_ok_def)
qed

lemma select_top:
  assumes core: "sched_core k F" and n: "n < 8" and p: "p \<le> n" "lst F (ready_list (of_nat p) k) \<noteq> []"
    and top: "\<forall>q. p < q \<and> q \<le> n \<longrightarrow> lst F (ready_list (of_nat q) k) = []"
  shows "select_top_loop n k = Inr (of_nat p)"
  using n p(1) top
proof (induction n)
  case 0
  then have "F (ready_list 0 k) = Some (lst F (ready_list 0 k))" using sched_coreD(3) [OF core] by simp
  then have "\<not> listLIST_IS_EMPTY (ready_list 0 k) k" using list_head(1) [of k F "ready_list 0 k"] sched_coreD(1) [OF core] p(2) 0 by (cases "lst F (ready_list 0 k)") auto
  then show ?case using 0 by (subst select_top_loop.simps) simp
next
  case (Suc n)
  let ?R = "ready_list (of_nat (Suc n)) k"
  have lt: "(of_nat (Suc n) :: u32) < 8" using Suc.prems(1) by (simp add: word_less_nat_alt unat_of_nat_u32 del: of_nat_Suc)
  have FR: "F ?R = Some (lst F ?R)" using sched_coreD(3) [OF core] lt by (simp del: of_nat_Suc)
  show ?case
  proof (cases "p = Suc n")
    case True
    then obtain y ys where "F ?R = Some (y # ys)" using FR p(2) by (cases "lst F ?R") (simp_all del: of_nat_Suc)
    then have "\<not> listLIST_IS_EMPTY ?R k" using list_head(1) [of k F ?R] sched_coreD(1) [OF core] by (simp del: of_nat_Suc)
    then show ?thesis using True by (subst select_top_loop.simps) (simp del: of_nat_Suc)
  next
    case False
    then have "F ?R = Some []" using FR Suc.prems(2,3) by (simp del: of_nat_Suc)
    then have "listLIST_IS_EMPTY ?R k" using list_empty [of k F ?R] sched_coreD(1) [OF core] by (simp del: of_nat_Suc)
    moreover have "select_top_loop n k = Inr (of_nat p)" using Suc.prems False by (intro Suc.IH) auto
    ultimately show ?thesis by (subst select_top_loop.simps) (simp del: of_nat_Suc)
  qed
qed

text \<open>One switch: the head of the turn order of the highest list that is not empty.\<close>

definition top_ready :: "'a kernel_scheme \<Rightarrow> (u32 \<rightharpoonup> u32 list) \<Rightarrow> u32 \<Rightarrow> bool" where
  "top_ready k F p \<longleftrightarrow> p < 8 \<and> lst F (ready_list p k) \<noteq> [] \<and> (\<forall>q. p < q \<and> q < 8 \<longrightarrow> lst F (ready_list q k) = [])"

lemma switch_step:
  assumes ok: "sched_ok k F" and run: "uxSchedulerSuspended k = 0" and top: "top_ready k F p"
  defines "L \<equiv> ready_list p k"
  obtains k' where "vTaskSwitchContext k = Inr k'" "sched_ok k' F" "pxCurrentTCB k' = owner k (hd (turn_order k L (lst F L)))"
    "turn_order k' L (lst F L) = rotate1 (turn_order k L (lst F L))" "top_ready k' F p" "ready_list p k' = L"
    "uxSchedulerSuspended k' = 0" "\<And>x. owner k' x = owner k x"
    "k' = k\<lparr>l_list := l_list k', pxCurrentTCB := pxCurrentTCB k', uxTopReadyPriority := p, xYieldPending := False\<rparr>"
proof -
  let ?k = "k\<lparr>xYieldPending := False\<rparr>" and ?xs = "lst F L"
  have core: "sched_core k F" using ok by (simp add: sched_ok_def)
  note S = sched_coreD [OF core] and SC = core [unfolded sched_core_def]
  have p: "p < 8" "?xs \<noteq> []" "\<forall>q. p < q \<and> q < 8 \<longrightarrow> lst F (ready_list q k) = []" using top by (simp_all add: top_ready_def L_def)
  have Lo: "L \<in> own_lists k" "F L = Some ?xs" using p(1) S(3) by (simp_all add: L_def)
  have T: "uxTopReadyPriority k < 8" "p \<le> uxTopReadyPriority k" using SC p(1,2) unfolding L_def by (simp, metis)
  have "select_top_loop (unat (uxTopReadyPriority k)) ?k = Inr (of_nat (unat p))"
  proof (rule select_top)
    show "sched_core ?k F" using core by (simp add: kernel_sched_core)
    show "\<forall>q. unat p < q \<and> q \<le> unat (uxTopReadyPriority k) \<longrightarrow> lst F (ready_list (of_nat q) ?k) = []"
    proof (intro allI impI)
      fix q assume q: "unat p < q \<and> q \<le> unat (uxTopReadyPriority k)"
      then have "q < 8" using T(1) by (simp add: word_less_nat_alt)
      then have "(of_nat q :: u32) < 8" "p < of_nat q" using q by (simp_all add: word_less_nat_alt unat_of_nat_u32)
      then show "lst F (ready_list (of_nat q) ?k) = []" using p(3) by (simp add: ready_list_def)
    qed
  qed (use T p in \<open>simp_all add: L_def ready_list_def word_less_nat_alt word_le_nat_alt\<close>)
  then have sel: "select_top_loop (unat (uxTopReadyPriority k)) ?k = Inr p" by simp
  have Le: "ready_list p ?k = L" by (simp add: L_def ready_list_def)
  have "list_at ?k L ?xs" using lists_okD [of k F, OF S(1) Lo(2)] list_at_cong [of L ?xs ?k k] by simp
  then obtain h where h: "listGET_OWNER_OF_NEXT_ENTRY L ?k = (h, owner ?k (hd (turn_order ?k L ?xs)))"
    "h = upd_list L (\<lambda>l. l\<lparr>pxIndex := hd (turn_order ?k L ?xs)\<rparr>) ?k" "turn_order h L ?xs = rotate1 (turn_order ?k L ?xs)"
    by (rule next_entry [OF _ p(2)])
  let ?x = "hd (turn_order k L ?xs)"
  define k' where "k' = h\<lparr>pxCurrentTCB := owner k ?x, uxTopReadyPriority := p\<rparr>"
  have "vTaskSwitchContext k = Inr k'"
    using run sel h(1) by (simp add: vTaskSwitchContext_def taskSELECT_HIGHEST_PRIORITY_TASK_def L_def [symmetric] k'_def Let_def)
  moreover have "sched_ok k' F"
  proof -
    have "turn_order k L ?xs \<noteq> []" using p(2) length_turns [of _ ?xs] by (metis length_0_conv)
    then have "?x \<in> set ?xs" using hd_in_set [of "turn_order k L ?xs"] by simp
    then have lo: "lists_ok (upd_list L (\<lambda>l. l\<lparr>pxIndex := ?x\<rparr>) k) F" by (rule index_lists_ok [OF S(1) Lo(2)])
    have e: "l_item k' = l_item k" "l_list k' = l_list (upd_list L (\<lambda>l. l\<lparr>pxIndex := ?x\<rparr>) k)" "pxDelayedTaskList k' = pxDelayedTaskList k"
      "pxOverflowDelayedTaskList k' = pxOverflowDelayedTaskList k" "ready_list q k' = ready_list q k" "tcb k' = tcb k"
      "xTickCount k' = xTickCount k" "xNextTaskUnblockTime k' = xNextTaskUnblockTime k" "uxTopReadyPriority k' = p" for q
      by (simp_all add: k'_def h(2) upd_list_def ready_list_def)
    have "lists_ok k' F" using lo lists_ok_heap [of k' "upd_list L (\<lambda>l. l\<lparr>pxIndex := ?x\<rparr>) k" F] e(1,2) by (simp add: upd_list_def)
    moreover have own: "own_lists k' = own_lists k" by (simp add: own_lists_def e)
    moreover have "sleeper_ok k' F y = sleeper_ok k F y" for y by (simp add: sleeper_ok_def own e)
    moreover have "\<forall>q<8. lst F (ready_list q k) \<noteq> [] \<longrightarrow> q \<le> p" using p(3) by (meson not_le)
    ultimately have "sched_core k' F" using SC p(1) unfolding sched_core_def e own by simp
    then show ?thesis using ok unfolding sched_ok_def e by simp
  qed
  moreover have "turn_order k' L ?xs = rotate1 (turn_order k L ?xs)" using h(3) by (simp add: k'_def)
  moreover have "ready_list q k' = ready_list q k" for q by (simp add: k'_def h(2) upd_list_def ready_list_def)
  then have "top_ready k' F p" "ready_list p k' = L" using top by (simp_all add: top_ready_def L_def)
  moreover have "uxSchedulerSuspended k' = 0" "owner k' y = owner k y" "pxCurrentTCB k' = owner k ?x" for y
    using run by (simp_all add: k'_def h(2) upd_list_def)
  moreover have "k' = k\<lparr>l_list := l_list k', pxCurrentTCB := pxCurrentTCB k', uxTopReadyPriority := p, xYieldPending := False\<rparr>"
    by (simp add: k'_def h(2) upd_list_def)
  ultimately show ?thesis using that by blast
qed

text \<open>Consecutive switches and the tasks they select.\<close>

fun switch_run :: "nat \<Rightarrow> 'a kernel_scheme \<Rightarrow> ('a kernel_scheme \<times> u32 list) res" where
  "switch_run 0 k = Inr (k, [])"
| "switch_run (Suc n) k =
    rbind (vTaskSwitchContext k) (\<lambda>k1. rbind (switch_run n k1) (\<lambda>(k', ts). Inr (k', pxCurrentTCB k1 # ts)))"

lemma switch_run_turns:
  assumes "sched_ok k F" "uxSchedulerSuspended k = 0" "top_ready k F p" "L = ready_list p k"
  shows "\<exists>k'. switch_run n k = Inr (k', map (\<lambda>i. owner k (turn_order k L (lst F L) ! (i mod length (lst F L)))) [0..<n]) \<and> sched_ok k' F"
  using assms
proof (induction n arbitrary: k)
  case (Suc n)
  let ?xs = "lst F L" and ?T = "turn_order k L (lst F L)"
  have ne: "?xs \<noteq> []" using Suc.prems(3,4) by (simp add: top_ready_def)
  obtain k1 where k1: "vTaskSwitchContext k = Inr k1" "sched_ok k1 F" "pxCurrentTCB k1 = owner k (hd ?T)"
    "turn_order k1 L ?xs = rotate1 ?T" "top_ready k1 F p" "ready_list p k1 = L" "uxSchedulerSuspended k1 = 0" "\<And>x. owner k1 x = owner k x"
    by (rule switch_step [OF Suc.prems(1-3)]) (unfold Suc.prems(4), blast)
  obtain k' where k': "switch_run n k1 = Inr (k', map (\<lambda>i. owner k1 (turn_order k1 L ?xs ! (i mod length ?xs))) [0..<n])" "sched_ok k' F"
    using Suc.IH [OF k1(2,7,5) k1(6) [symmetric]] by blast
  have T: "?T \<noteq> []" using ne by (metis length_turns length_0_conv)
  have "rotate1 ?T ! (i mod length ?xs) = ?T ! (Suc i mod length ?xs)" for i
    using nth_rotate1 [of "i mod length ?xs" ?T] ne by (simp add: mod_Suc_eq)
  then have "map (\<lambda>i. owner k1 (turn_order k1 L ?xs ! (i mod length ?xs))) [0..<n] = map (\<lambda>i. owner k (?T ! (i mod length ?xs))) [1..<Suc n]"
    unfolding k1(4,8) by (simp add: map_Suc_upt [symmetric] del: upt_Suc)
  moreover have "hd ?T = ?T ! (0 mod length ?xs)" using T by (simp add: hd_conv_nth)
  ultimately show ?case using k1(1,3) k' by (simp add: upt_rec [of 0 "Suc n"] del: upt_Suc)
qed simp

end
