(* ===== verification/Freertos_Heap.thy ===== *)
theory Freertos_Heap
  imports Gw_Prelude
begin

text \<open>
  The kernel's memory allocator, \<open>heap_4.c\<close>: a free list kept in address order, first fit, with neighbouring
  free blocks joined on release. The headers are kept in a map from addresses, so the list is followed and
  changed pointer by pointer as in the code; the addresses of \<open>xStart\<close> and \<open>ucHeap\<close>, which the linker chooses,
  are arguments. The scheduler is suspended around every list operation, so each operation is one step.

  After the code come the layouts and the lemmas that follow the chain of free blocks through one: finding the
  place of a block (\<open>insert_find_at\<close>, \<open>malloc_find_skip\<close>), moving a link (\<open>relink\<close>) and the two ways in which
  \<open>prvInsertBlockIntoFreeList\<close> ends (\<open>insert_block\<close>, \<open>insert_merge\<close>).
\<close>

section \<open>The allocator\<close>

text \<open>A block header; it stands in front of the bytes of every block.\<close>

record BlockLink_t =
  pxNextFreeBlock :: u32
  xBlockSize :: u32

text \<open>The variables of the file, and the block headers in memory by address.\<close>

record heap4 =
  blk :: "u32 \<Rightarrow> BlockLink_t"
  pxEnd :: u32
  xFreeBytesRemaining :: u32
  xMinimumEverFreeBytesRemaining :: u32
  xNumberOfSuccessfulAllocations :: u32
  xNumberOfSuccessfulFrees :: u32
  xBlockAllocatedBit :: u32

text \<open>The report of the statistics function.\<close>

record HeapStats_t =
  xAvailableHeapSpaceInBytes :: u32
  xSizeOfLargestFreeBlockInBytes :: u32
  xSizeOfSmallestFreeBlockInBytes :: u32
  xNumberOfFreeBlocks :: u32
  hs_xMinimumEverFreeBytesRemaining :: u32
  hs_xNumberOfSuccessfulAllocations :: u32
  hs_xNumberOfSuccessfulFrees :: u32

abbreviation "configTOTAL_HEAP_SIZE \<equiv> (65536 :: u32)"
abbreviation "portBYTE_ALIGNMENT_MASK \<equiv> (7 :: u32)"
abbreviation "xHeapStructSize \<equiv> (8 :: u32)"
abbreviation "heapMINIMUM_BLOCK_SIZE \<equiv> (16 :: u32)"
abbreviation "heap_rounds \<equiv> (8192 :: nat)"

text \<open>
  Configuration: 64 KB of heap, blocks aligned to 8 bytes, an 8 byte header, and no block split off that would be
  smaller than two headers. A chain of blocks of at least 8 bytes has at most \<open>heap_rounds\<close> members.
\<close>

definition upd_blk :: "u32 \<Rightarrow> (BlockLink_t \<Rightarrow> BlockLink_t) \<Rightarrow> heap4 \<Rightarrow> heap4" where
  "upd_blk a f h = h\<lparr>blk := (blk h)(a := f (blk h a))\<rparr>"

text \<open>Set-up: align the start, put the end marker last and make everything between one free block.\<close>

definition prvHeapInit :: "u32 \<Rightarrow> u32 \<Rightarrow> heap4 \<Rightarrow> heap4" where
  "prvHeapInit xStart ucHeap h =
    (let (base, total) = (if ucHeap AND portBYTE_ALIGNMENT_MASK \<noteq> 0
                          then let a = (ucHeap + 7) AND NOT portBYTE_ALIGNMENT_MASK in (a, configTOTAL_HEAP_SIZE - (a - ucHeap))
                          else (ucHeap, configTOTAL_HEAP_SIZE));
         e = (base + total - xHeapStructSize) AND NOT portBYTE_ALIGNMENT_MASK;
         h1 = upd_blk xStart (\<lambda>_. \<lparr>pxNextFreeBlock = base, xBlockSize = 0\<rparr>) h;
         h2 = upd_blk e (\<lambda>_. \<lparr>pxNextFreeBlock = 0, xBlockSize = 0\<rparr>) (h1\<lparr>pxEnd := e\<rparr>);
         h3 = upd_blk base (\<lambda>_. \<lparr>pxNextFreeBlock = e, xBlockSize = e - base\<rparr>) h2
     in h3\<lparr>xMinimumEverFreeBytesRemaining := e - base, xFreeBytesRemaining := e - base, xBlockAllocatedBit := push_bit 31 1\<rparr>)"

text \<open>Insertion by address: the loop that finds the block in front, and the merging with either neighbour.\<close>

fun insert_find :: "nat \<Rightarrow> u32 \<Rightarrow> u32 \<Rightarrow> heap4 \<Rightarrow> u32 res" where
  "insert_find n b it h =
    (if pxNextFreeBlock (blk h it) < b
     then (case n of 0 \<Rightarrow> Inl NoExit | Suc m \<Rightarrow> insert_find m b (pxNextFreeBlock (blk h it)) h)
     else Inr it)"

declare insert_find.simps [simp del]

definition prvInsertBlockIntoFreeList :: "u32 \<Rightarrow> u32 \<Rightarrow> heap4 \<Rightarrow> heap4 res" where
  "prvInsertBlockIntoFreeList xStart pxBlockToInsert h =
    rbind (insert_find heap_rounds pxBlockToInsert xStart h) (\<lambda>it.
    let (b, h1) = (if it + xBlockSize (blk h it) = pxBlockToInsert
                   then (it, upd_blk it (\<lambda>k. k\<lparr>xBlockSize := xBlockSize k + xBlockSize (blk h pxBlockToInsert)\<rparr>) h)
                   else (pxBlockToInsert, h));
        nx = pxNextFreeBlock (blk h1 it);
        h2 = (if b + xBlockSize (blk h1 b) = nx
              then if nx \<noteq> pxEnd h1
                   then upd_blk b (\<lambda>k. k\<lparr>xBlockSize := xBlockSize k + xBlockSize (blk h1 nx), pxNextFreeBlock := pxNextFreeBlock (blk h1 nx)\<rparr>) h1
                   else upd_blk b (\<lambda>k. k\<lparr>pxNextFreeBlock := pxEnd h1\<rparr>) h1
              else upd_blk b (\<lambda>k. k\<lparr>pxNextFreeBlock := nx\<rparr>) h1)
    in Inr (if it \<noteq> b then upd_blk it (\<lambda>k. k\<lparr>pxNextFreeBlock := b\<rparr>) h2 else h2))"

text \<open>Allocation: the first block that is large enough, the rounding of the request, and taking the block.\<close>

fun malloc_find :: "nat \<Rightarrow> u32 \<Rightarrow> u32 \<Rightarrow> u32 \<Rightarrow> heap4 \<Rightarrow> (u32 \<times> u32) res" where
  "malloc_find n w prev b h =
    (if xBlockSize (blk h b) < w \<and> pxNextFreeBlock (blk h b) \<noteq> 0
     then (case n of 0 \<Rightarrow> Inl NoExit | Suc m \<Rightarrow> malloc_find m w b (pxNextFreeBlock (blk h b)) h)
     else Inr (prev, b))"

declare malloc_find.simps [simp del]

definition adjust_size :: "u32 \<Rightarrow> u32 res" where
  "adjust_size xWantedSize =
    (if xWantedSize > 0 \<and> xWantedSize + xHeapStructSize > xWantedSize
     then let w = xWantedSize + xHeapStructSize
          in if w AND portBYTE_ALIGNMENT_MASK \<noteq> 0
             then let w' = w + (8 - (w AND portBYTE_ALIGNMENT_MASK))
                  in if w' > w then dev_assert (w' AND portBYTE_ALIGNMENT_MASK = 0) (Inr w') else Inr 0
             else Inr w
     else Inr 0)"

definition take_block :: "u32 \<Rightarrow> u32 \<Rightarrow> u32 \<Rightarrow> u32 \<Rightarrow> heap4 \<Rightarrow> (heap4 \<times> u32) res" where
  "take_block xStart w prev b h =
    (let ret = pxNextFreeBlock (blk h prev) + xHeapStructSize;
         h1 = upd_blk prev (\<lambda>k. k\<lparr>pxNextFreeBlock := pxNextFreeBlock (blk h b)\<rparr>) h
     in rbind (if xBlockSize (blk h1 b) - w > heapMINIMUM_BLOCK_SIZE
               then let nb = b + w
                    in dev_assert (nb AND portBYTE_ALIGNMENT_MASK = 0)
                       (let h2 = upd_blk nb (\<lambda>k. k\<lparr>xBlockSize := xBlockSize (blk h1 b) - w\<rparr>) h1;
                            h3 = upd_blk b (\<lambda>k. k\<lparr>xBlockSize := w\<rparr>) h2
                        in prvInsertBlockIntoFreeList xStart nb h3)
               else Inr h1) (\<lambda>h4.
        let free = xFreeBytesRemaining h4 - xBlockSize (blk h4 b);
            h5 = h4\<lparr>xFreeBytesRemaining := free,
                    xMinimumEverFreeBytesRemaining :=
                      (if free < xMinimumEverFreeBytesRemaining h4 then free else xMinimumEverFreeBytesRemaining h4)\<rparr>;
            h6 = upd_blk b (\<lambda>k. k\<lparr>xBlockSize := xBlockSize k OR xBlockAllocatedBit h5, pxNextFreeBlock := 0\<rparr>) h5
        in Inr (h6\<lparr>xNumberOfSuccessfulAllocations := xNumberOfSuccessfulAllocations h6 + 1\<rparr>, ret)))"

definition pvPortMalloc :: "u32 \<Rightarrow> u32 \<Rightarrow> u32 \<Rightarrow> heap4 \<Rightarrow> (heap4 \<times> u32) res" where
  "pvPortMalloc xStart ucHeap xWantedSize h =
    (let h0 = (if pxEnd h = 0 then prvHeapInit xStart ucHeap h else h)
     in rbind (if xWantedSize AND xBlockAllocatedBit h0 = 0
               then rbind (adjust_size xWantedSize) (\<lambda>w.
                    if w > 0 \<and> w \<le> xFreeBytesRemaining h0
                    then rbind (malloc_find heap_rounds w xStart (pxNextFreeBlock (blk h0 xStart)) h0) (\<lambda>(prev, b).
                         if b \<noteq> pxEnd h0 then take_block xStart w prev b h0 else Inr (h0, 0))
                    else Inr (h0, 0))
               else Inr (h0, 0)) (\<lambda>(h1, ret).
        dev_assert (ret AND portBYTE_ALIGNMENT_MASK = 0) (Inr (h1, ret))))"

definition vPortFree :: "u32 \<Rightarrow> u32 \<Rightarrow> heap4 \<Rightarrow> heap4 res" where
  "vPortFree xStart pv h =
    (if pv = 0 then Inr h
     else let b = pv - xHeapStructSize
          in dev_assert (xBlockSize (blk h b) AND xBlockAllocatedBit h \<noteq> 0)
             (dev_assert (pxNextFreeBlock (blk h b) = 0)
             (let h1 = upd_blk b (\<lambda>k. k\<lparr>xBlockSize := xBlockSize k AND NOT (xBlockAllocatedBit h)\<rparr>) h;
                  h2 = h1\<lparr>xFreeBytesRemaining := xFreeBytesRemaining h1 + xBlockSize (blk h1 b)\<rparr>
              in rbind (prvInsertBlockIntoFreeList xStart b h2) (\<lambda>h3.
                 Inr (h3\<lparr>xNumberOfSuccessfulFrees := xNumberOfSuccessfulFrees h3 + 1\<rparr>)))))"

definition xPortGetFreeHeapSize :: "heap4 \<Rightarrow> u32" where
  "xPortGetFreeHeapSize h = xFreeBytesRemaining h"

definition xPortGetMinimumEverFreeHeapSize :: "heap4 \<Rightarrow> u32" where
  "xPortGetMinimumEverFreeHeapSize h = xMinimumEverFreeBytesRemaining h"

text \<open>Statistics: the loop body runs before the first comparison with the end marker; block 0 is the null pointer.\<close>

fun stats_loop :: "nat \<Rightarrow> u32 \<Rightarrow> u32 \<Rightarrow> u32 \<Rightarrow> u32 \<Rightarrow> heap4 \<Rightarrow> (u32 \<times> u32 \<times> u32) res" where
  "stats_loop n b blocks mx mn h =
    (if b = 0 then Inl OutOfBounds
     else let s = xBlockSize (blk h b);
              blocks' = blocks + 1;
              mx' = (if s > mx then s else mx);
              mn' = (if s < mn then s else mn);
              nx = pxNextFreeBlock (blk h b)
          in if nx \<noteq> pxEnd h then (case n of 0 \<Rightarrow> Inl NoExit | Suc m \<Rightarrow> stats_loop m nx blocks' mx' mn' h)
             else Inr (blocks', mx', mn'))"

declare stats_loop.simps [simp del]

definition vPortGetHeapStats :: "u32 \<Rightarrow> heap4 \<Rightarrow> HeapStats_t res" where
  "vPortGetHeapStats xStart h =
    rbind (if pxNextFreeBlock (blk h xStart) \<noteq> 0
           then stats_loop heap_rounds (pxNextFreeBlock (blk h xStart)) 0 0 0xFFFFFFFF h
           else Inr (0, 0, 0xFFFFFFFF)) (\<lambda>(blocks, mx, mn).
    Inr \<lparr>xAvailableHeapSpaceInBytes = xFreeBytesRemaining h, xSizeOfLargestFreeBlockInBytes = mx,
         xSizeOfSmallestFreeBlockInBytes = mn, xNumberOfFreeBlocks = blocks,
         hs_xMinimumEverFreeBytesRemaining = xMinimumEverFreeBytesRemaining h,
         hs_xNumberOfSuccessfulAllocations = xNumberOfSuccessfulAllocations h,
         hs_xNumberOfSuccessfulFrees = xNumberOfSuccessfulFrees h\<rparr>)"

section \<open>Layouts\<close>

text \<open>
  A layout is the list of the blocks in address order, each with its size and whether it is allocated. \<open>ff\<close> is
  the address of the first free block (or the end), \<open>pv\<close> that of the last one (or the block in front), and
  \<open>seg\<close> says that the headers in memory are those of the layout, free blocks linked in address order.
\<close>

type_synonym tiles = "(nat \<times> bool) list"

fun extent :: "tiles \<Rightarrow> nat" where
  "extent [] = 0"
| "extent ((s, _) # L) = s + extent L"

fun free_extent :: "tiles \<Rightarrow> nat" where
  "free_extent [] = 0"
| "free_extent ((s, al) # L) = (if al then 0 else s) + free_extent L"

fun ff :: "nat \<Rightarrow> tiles \<Rightarrow> nat \<Rightarrow> nat" where
  "ff a [] nf = nf"
| "ff a ((s, al) # L) nf = (if al then ff (a + s) L nf else a)"

fun pv :: "nat \<Rightarrow> nat \<Rightarrow> tiles \<Rightarrow> nat" where
  "pv q a [] = q"
| "pv q a ((s, al) # L) = (if al then pv q (a + s) L else pv a (a + s) L)"

abbreviation blk_at :: "heap4 \<Rightarrow> nat \<Rightarrow> BlockLink_t" where
  "blk_at h a \<equiv> blk h (of_nat a)"

definition header :: "nat \<Rightarrow> bool \<Rightarrow> nat \<Rightarrow> BlockLink_t" where
  "header s al nx = (if al then \<lparr>pxNextFreeBlock = 0, xBlockSize = of_nat s OR push_bit 31 1\<rparr>
    else \<lparr>pxNextFreeBlock = of_nat nx, xBlockSize = of_nat s\<rparr>)"

fun seg :: "heap4 \<Rightarrow> nat \<Rightarrow> tiles \<Rightarrow> nat \<Rightarrow> bool" where
  "seg h a [] nf = True"
| "seg h a ((s, al) # L) nf \<longleftrightarrow> blk_at h a = header s al (ff (a + s) L nf) \<and> seg h (a + s) L nf"

lemma extent_append [simp]: "extent (L1 @ L2) = extent L1 + extent L2"
  by (induction L1 rule: extent.induct) auto

lemma ff_append [simp]: "ff a (L1 @ L2) nf = ff a L1 (ff (a + extent L1) L2 nf)"
  by (induction L1 arbitrary: a rule: extent.induct) (auto simp: algebra_simps)

lemma pv_append [simp]: "pv q a (L1 @ L2) = pv (pv q a L1) (a + extent L1) L2"
  by (induction L1 arbitrary: q a rule: extent.induct) (auto simp: algebra_simps)

lemma seg_append [simp]: "seg h a (L1 @ L2) nf \<longleftrightarrow> seg h a L1 (ff (a + extent L1) L2 nf) \<and> seg h (a + extent L1) L2 nf"
  by (induction L1 arbitrary: a rule: extent.induct) (auto simp: algebra_simps)

section \<open>Following the chain\<close>

lemma of_nat_u32_eq: "x < 2 ^ 32 \<Longrightarrow> y < 2 ^ 32 \<Longrightarrow> (of_nat x :: u32) = of_nat y \<longleftrightarrow> x = y"
  by (metis unat_of_nat_u32)

lemma of_nat_u32_less: "x < 2 ^ 32 \<Longrightarrow> y < 2 ^ 32 \<Longrightarrow> (of_nat x :: u32) < of_nat y \<longleftrightarrow> x < y"
  by (simp add: word_less_nat_alt unat_of_nat_u32)

lemma upd_blk_blk [simp]: "blk (upd_blk a f h) x = (if x = a then f (blk h a) else blk h x)"
  by (simp add: upd_blk_def)

lemma upd_blk_sel [simp]:
  "pxEnd (upd_blk a f h) = pxEnd h" "xFreeBytesRemaining (upd_blk a f h) = xFreeBytesRemaining h"
  "xMinimumEverFreeBytesRemaining (upd_blk a f h) = xMinimumEverFreeBytesRemaining h"
  "xBlockAllocatedBit (upd_blk a f h) = xBlockAllocatedBit h"
  "xNumberOfSuccessfulAllocations (upd_blk a f h) = xNumberOfSuccessfulAllocations h"
  "xNumberOfSuccessfulFrees (upd_blk a f h) = xNumberOfSuccessfulFrees h"
  by (simp_all add: upd_blk_def)

definition sizes_ok :: "tiles \<Rightarrow> bool" where
  "sizes_ok L \<longleftrightarrow> (\<forall>(s, al) \<in> set L. 8 dvd s \<and> 0 < s)"

lemma sizes_ok_simps [simp]:
  "sizes_ok []" "sizes_ok ((s, al) # L) \<longleftrightarrow> 8 dvd s \<and> 0 < s \<and> sizes_ok L" "sizes_ok (L1 @ L2) \<longleftrightarrow> sizes_ok L1 \<and> sizes_ok L2"
  by (auto simp: sizes_ok_def)

lemma seg_cong:
  "(\<And>y. a \<le> y \<Longrightarrow> y < a + extent L \<Longrightarrow> blk_at h' y = blk_at h y) \<Longrightarrow> sizes_ok L \<Longrightarrow> seg h' a L nf = seg h a L nf"
proof (induction L arbitrary: a rule: extent.induct)
  case (2 s al L)
  have "seg h' (a + s) L nf = seg h (a + s) L nf" using 2 by (intro 2) auto
  with 2 show ?case by simp
qed simp

lemma seg_upd:
  assumes "y < a \<or> a + extent L \<le> y" "y < 2 ^ 32" "a + extent L \<le> 2 ^ 32" "sizes_ok L"
  shows "seg (upd_blk (of_nat y) f h) a L nf = seg h a L nf"
  using assms by (intro seg_cong) (auto simp: of_nat_u32_eq)

lemma ff_bounds: "ff a L nf = nf \<or> a \<le> ff a L nf \<and> ff a L nf < a + extent L" if "sizes_ok L"
  using that
proof (induction L arbitrary: a rule: extent.induct)
  case (2 s al L)
  have "ff (a + s) L nf = nf \<or> a + s \<le> ff (a + s) L nf \<and> ff (a + s) L nf < a + s + extent L" using "2.prems" by (intro "2.IH") simp
  then show ?case using "2.prems" by auto
qed simp

lemma pv_bounds: "pv q a L = q \<or> a \<le> pv q a L \<and> pv q a L < a + extent L" if "sizes_ok L"
  using that
proof (induction L arbitrary: q a rule: extent.induct)
  case (2 s al L)
  have "pv r (a + s) L = r \<or> a + s \<le> pv r (a + s) L \<and> pv r (a + s) L < a + s + extent L" for r using "2.prems" by (intro "2.IH") simp
  from this [of q] this [of a] show ?case using "2.prems" by auto
qed simp

fun frees :: "tiles \<Rightarrow> nat" where
  "frees [] = 0"
| "frees ((s, al) # L) = (if al then 0 else 1) + frees L"

lemma frees_le: "sizes_ok L \<Longrightarrow> 8 * frees L \<le> extent L"
  by (induction L rule: extent.induct) auto

definition linked :: "heap4 \<Rightarrow> nat \<Rightarrow> nat \<Rightarrow> tiles \<Rightarrow> nat \<Rightarrow> bool" where
  "linked h q a L nf \<longleftrightarrow> pxNextFreeBlock (blk_at h q) = of_nat (ff a L nf) \<and> seg h a L nf"

lemma header_eq:
  "k = header s False nx \<longleftrightarrow> pxNextFreeBlock k = of_nat nx \<and> xBlockSize k = of_nat s"
  by (cases k) (auto simp: header_def)

text \<open>The block in front of the list acts as the link cell of the rest.\<close>

lemma linked_Cons:
  "linked h q a ((s, True) # L) nf \<longleftrightarrow> blk_at h a = header s True 0 \<and> linked h q (a + s) L nf"
  "linked h q a ((s, False) # L) nf \<longleftrightarrow> pxNextFreeBlock (blk_at h q) = of_nat a \<and> xBlockSize (blk_at h a) = of_nat s \<and> linked h a (a + s) L nf"
  by (auto simp: linked_def header_eq header_def)

lemma relink:
  assumes "linked h q a L nf" "sizes_ok L" "a + extent L < 2 ^ 32" "q < 2 ^ 32" "q < a \<or> a + extent L \<le> q"
  shows "linked (upd_blk (of_nat (pv q a L)) (\<lambda>k. k\<lparr>pxNextFreeBlock := of_nat nf'\<rparr>) h) q a L nf'"
  using assms
proof (induction L arbitrary: q a rule: extent.induct)
  case 1
  then show ?case by (simp add: linked_def)
next
  case (2 s al L)
  let ?u = "\<lambda>r h. upd_blk (of_nat (pv r (a + s) L)) (\<lambda>k. k\<lparr>pxNextFreeBlock := of_nat nf'\<rparr>) h"
  have p: "pv r (a + s) L = r \<or> a + s \<le> pv r (a + s) L \<and> pv r (a + s) L < a + s + extent L" for r
    using "2.prems" by (intro pv_bounds) simp
  show ?case
  proof (cases al)
    case True
    have "linked (?u q h) q (a + s) L nf'" using "2.prems" True by (intro "2.IH") (auto simp: linked_Cons)
    moreover have "pv q (a + s) L \<noteq> a" "pv q (a + s) L < 2 ^ 32" using p [of q] "2.prems" by auto
    ultimately show ?thesis using "2.prems" True by (simp add: linked_Cons of_nat_u32_eq)
  next
    case False
    have "linked (?u a h) a (a + s) L nf'" using "2.prems" False by (intro "2.IH") (auto simp: linked_Cons)
    moreover have "pv a (a + s) L \<noteq> q" "pv a (a + s) L < 2 ^ 32" using p [of a] "2.prems" by auto
    ultimately show ?thesis using "2.prems" False by (simp add: linked_Cons of_nat_u32_eq)
  qed
qed

lemma insert_find_at:
  assumes "linked h q a L nf" "sizes_ok L" "a + extent L \<le> b" "b < 2 ^ 32" "b \<le> nf" "nf < 2 ^ 32" "frees L \<le> n"
  shows "insert_find n (of_nat b) (of_nat q) h = Inr (of_nat (pv q a L))"
  using assms
proof (induction L arbitrary: q a n rule: extent.induct)
  case 1
  then show ?case by (subst insert_find.simps) (simp add: linked_def of_nat_u32_less)
next
  case (2 s al L)
  show ?case
  proof (cases al)
    case True
    have "insert_find n (of_nat b) (of_nat q) h = Inr (of_nat (pv q (a + s) L))"
      using "2.prems" True by (intro "2.IH") (simp_all add: linked_Cons)
    then show ?thesis using True by simp
  next
    case False
    then obtain m where m: "n = Suc m" "frees L \<le> m" using "2.prems" by (cases n) auto
    have "insert_find m (of_nat b) (of_nat a) h = Inr (of_nat (pv a (a + s) L))"
      using "2.prems" False m by (intro "2.IH") (simp_all add: linked_Cons)
    moreover have "pxNextFreeBlock (blk_at h q) = of_nat a" "(of_nat a :: u32) < of_nat b"
      using "2.prems" False by (simp_all add: linked_Cons of_nat_u32_less)
    ultimately show ?thesis using False m by (subst insert_find.simps) simp
  qed
qed

lemma malloc_find_skip:
  assumes "linked h q a L nf" "sizes_ok L" "0 < a" "a + extent L \<le> nf" "nf < 2 ^ 32" "\<forall>(s, al) \<in> set L. \<not> al \<longrightarrow> of_nat s < w"
  shows "malloc_find (n + frees L) w (of_nat q) (of_nat (ff a L nf)) h = malloc_find n w (of_nat (pv q a L)) (of_nat nf) h"
  using assms
proof (induction L arbitrary: q a rule: extent.induct)
  case (2 s al L)
  show ?case
  proof (cases al)
    case True
    have "malloc_find (n + frees L) w (of_nat q) (of_nat (ff (a + s) L nf)) h = malloc_find n w (of_nat (pv q (a + s) L)) (of_nat nf) h"
      using "2.prems" True by (intro "2.IH") (auto simp: linked_Cons)
    then show ?thesis using True by simp
  next
    case False
    have nz: "0 < ff (a + s) L nf" "ff (a + s) L nf < 2 ^ 32" using ff_bounds [of L "a + s" nf] "2.prems" by auto
    then have "of_nat (ff (a + s) L nf) \<noteq> (0 :: u32)" using of_nat_u32_eq [of "ff (a + s) L nf" 0] by simp
    moreover have "pxNextFreeBlock (blk_at h a) = of_nat (ff (a + s) L nf)" "xBlockSize (blk_at h a) < w"
      using "2.prems" False by (auto simp: linked_Cons linked_def header_def)
    moreover have "malloc_find (n + frees L) w (of_nat a) (of_nat (ff (a + s) L nf)) h = malloc_find n w (of_nat (pv a (a + s) L)) (of_nat nf) h"
      using "2.prems" False by (intro "2.IH") (auto simp: linked_Cons)
    ultimately show ?thesis using False by (subst malloc_find.simps) simp
  qed
qed simp

text \<open>The free block behind an address, absorbed when there is one.\<close>

fun absorbed :: "tiles \<Rightarrow> nat" where
  "absorbed ((t, False) # L) = t"
| "absorbed L = 0"

fun rest_of :: "tiles \<Rightarrow> tiles" where
  "rest_of ((t, False) # L) = L"
| "rest_of L = L"

lemma ff_first: "sizes_ok ((t, True) # M) \<Longrightarrow> c + extent ((t, True) # M) \<le> nf \<Longrightarrow> c < ff c ((t, True) # M) nf"
  using ff_bounds [of M "c + t" nf] by auto

text \<open>Joining with the block behind.\<close>

definition join_next :: "u32 \<Rightarrow> u32 \<Rightarrow> heap4 \<Rightarrow> heap4" where
  "join_next b nx h1 =
    (if b + xBlockSize (blk h1 b) = nx
     then if nx \<noteq> pxEnd h1
          then upd_blk b (\<lambda>k. k\<lparr>xBlockSize := xBlockSize k + xBlockSize (blk h1 nx), pxNextFreeBlock := pxNextFreeBlock (blk h1 nx)\<rparr>) h1
          else upd_blk b (\<lambda>k. k\<lparr>pxNextFreeBlock := pxEnd h1\<rparr>) h1
     else upd_blk b (\<lambda>k. k\<lparr>pxNextFreeBlock := nx\<rparr>) h1)"

lemma join_next_eq:
  assumes seg: "seg h c L e" and ok: "sizes_ok L" "e = c + extent L" "e < 2 ^ 32" and b: "c = b + s"
    and sz: "xBlockSize (blk_at h b) = of_nat s" and e: "pxEnd h = of_nat e"
  shows "join_next (of_nat b) (of_nat (ff c L e)) h =
    upd_blk (of_nat b) (\<lambda>_. header (s + absorbed L) False (ff (c + absorbed L) (rest_of L) e)) h"
proof -
  have bs: "of_nat b + xBlockSize (blk_at h b) = of_nat c" by (simp add: sz b)
  have hd: "upd_blk (of_nat b) (\<lambda>k. k\<lparr>pxNextFreeBlock := of_nat x\<rparr>) h = upd_blk (of_nat b) (\<lambda>_. header s False x) h" for x
    using sz by (cases "blk_at h b") (simp add: upd_blk_def header_def)
  consider (nil) "L = []" | (al) t M where "L = (t, True) # M" | (fr) t M where "L = (t, False) # M"
    by (metis neq_Nil_conv surj_pair)
  then show ?thesis
  proof cases
    case nil
    then show ?thesis using ok e bs hd by (simp add: join_next_def)
  next
    case al
    have "c < ff c L e" unfolding al using ok by (intro ff_first) (simp_all add: al)
    moreover have "ff c L e < 2 ^ 32" "c < 2 ^ 32" using ff_bounds [OF ok(1), of c e] ok by auto
    ultimately have "of_nat c \<noteq> (of_nat (ff c L e) :: u32)" using of_nat_u32_eq [of c "ff c L e"] by simp
    then show ?thesis using al bs hd by (simp add: join_next_def)
  next
    case fr
    have "c < e" "c < 2 ^ 32" using fr ok by auto
    then have "of_nat c \<noteq> (of_nat e :: u32)" using ok(3) of_nat_u32_eq [of c e] by simp
    moreover have "blk_at h c = header t False (ff (c + t) M e)" using seg fr by simp
    ultimately show ?thesis using fr bs e sz
      by (cases "blk_at h b") (simp add: join_next_def upd_blk_def header_def)
  qed
qed

lemma insert_def_join:
  "prvInsertBlockIntoFreeList xStart pxBlockToInsert h =
    rbind (insert_find heap_rounds pxBlockToInsert xStart h) (\<lambda>it.
    let (b, h1) = (if it + xBlockSize (blk h it) = pxBlockToInsert
                   then (it, upd_blk it (\<lambda>k. k\<lparr>xBlockSize := xBlockSize k + xBlockSize (blk h pxBlockToInsert)\<rparr>) h)
                   else (pxBlockToInsert, h));
        h2 = join_next b (pxNextFreeBlock (blk h1 it)) h1
    in Inr (if it \<noteq> b then upd_blk it (\<lambda>k. k\<lparr>pxNextFreeBlock := b\<rparr>) h2 else h2))"
  by (simp add: prvInsertBlockIntoFreeList_def join_next_def Let_def)

lemma pv_all_allocated: "\<forall>x \<in> set L. snd x \<Longrightarrow> pv q a L = q"
  by (induction L arbitrary: a rule: extent.induct) auto

lemma ff_all_allocated: "\<forall>x \<in> set L. snd x \<Longrightarrow> ff a L nf = nf"
  by (induction L arbitrary: a rule: extent.induct) auto

lemma extent_pos: "sizes_ok L \<Longrightarrow> L \<noteq> [] \<Longrightarrow> 0 < extent L"
  by (cases L) auto

lemma last_free_cases:
  obtains (none) "\<forall>x \<in> set L. snd x" | (some) M p N where "L = M @ (p, False) # N" "\<forall>x \<in> set N. snd x"
proof (cases "\<exists>x \<in> set L. \<not> snd x")
  case True
  then obtain M x N where "L = M @ x # N" "\<not> snd x" "\<forall>y \<in> set N. snd y"
    using split_list_last_prop [of L "\<lambda>x. \<not> snd x"] by auto
  then show ?thesis using some by (cases x) auto
qed (use none in auto)

text \<open>The block in front of an inserted block either touches it, being the last of the list, or ends before it.\<close>

lemma insert_block:
  assumes lk: "linked h q base L1 (ff c L2 e)" and seg: "seg h c L2 e" and ok: "sizes_ok L1" "sizes_ok L2" "0 < s"
    and b: "base + extent L1 \<le> b" "c = b + s" "e = c + extent L2" "e < 2 ^ 32" "extent L1 \<le> 65536"
    and q: "q < 2 ^ 32" "q < base \<or> e < q" "xBlockSize (blk_at h q) = 0"
    and sz: "xBlockSize (blk_at h b) = of_nat s" and e: "pxEnd h = of_nat e"
    and front: "b = base + extent L1 \<Longrightarrow> \<forall>M p. L1 \<noteq> M @ [(p, False)]"
  shows "prvInsertBlockIntoFreeList (of_nat q) (of_nat b) h =
    Inr (upd_blk (of_nat (pv q base L1)) (\<lambda>k. k\<lparr>pxNextFreeBlock := of_nat b\<rparr>)
      (upd_blk (of_nat b) (\<lambda>_. header (s + absorbed L2) False (ff (c + absorbed L2) (rest_of L2) e)) h))"
proof -
  let ?it = "pv q base L1"
  have nf: "c \<le> ff c L2 e" "ff c L2 e \<le> e" using ff_bounds [OF ok(2), of c e] b by auto
  have fr: "frees L1 \<le> heap_rounds" using frees_le [OF ok(1)] b(5) by simp
  have find: "insert_find heap_rounds (of_nat b) (of_nat q) h = Inr (of_nat ?it)"
    using lk ok(1) b nf fr by (intro insert_find_at [where nf = "ff c L2 e"]) auto
  have it: "?it < 2 ^ 32" "?it \<noteq> b" using pv_bounds [OF ok(1), of q base] b q ok(3) by auto
  have apart: "of_nat ?it + xBlockSize (blk_at h ?it) \<noteq> (of_nat b :: u32)"
  proof (cases L1 rule: last_free_cases)
    case none
    then have "?it = q" by (rule pv_all_allocated)
    then show ?thesis using it b q by (simp add: of_nat_u32_eq)
  next
    case (some M p N)
    have m: "?it = base + extent M" using some(2) by (simp add: some(1) pv_all_allocated)
    have "xBlockSize (blk_at h ?it) = of_nat p" using lk unfolding m by (simp add: some(1) linked_def header_def)
    moreover have "base + extent M + p < b"
    proof (cases "N = []")
      case True
      then have "b \<noteq> base + extent L1" using front some(1) by blast
      with True show ?thesis using b(1) some(1) by simp
    next
      case False
      then show ?thesis using b(1) ok(1) extent_pos [of N] some(1) by simp
    qed
    ultimately show ?thesis unfolding m using b
      by (simp add: of_nat_u32_eq flip: of_nat_add)
  qed
  have nx: "pxNextFreeBlock (blk_at h ?it) = of_nat (ff c L2 e)"
  proof (cases L1 rule: last_free_cases)
    case none
    then show ?thesis using lk by (simp add: linked_def pv_all_allocated ff_all_allocated)
  next
    case (some M p N)
    then show ?thesis using lk by (simp add: linked_def pv_all_allocated ff_all_allocated header_def)
  qed
  have j: "join_next (of_nat b) (of_nat (ff c L2 e)) h = upd_blk (of_nat b) (\<lambda>_. header (s + absorbed L2) False (ff (c + absorbed L2) (rest_of L2) e)) h"
    using seg ok(2) b sz e by (intro join_next_eq) auto
  have "of_nat ?it \<noteq> (of_nat b :: u32)" using it b by (simp add: of_nat_u32_eq)
  then show ?thesis unfolding insert_def_join find using apart nx j by (simp add: Let_def)
qed


lemma insert_merge:
  assumes lk: "linked h q base (M @ [(p, False)]) (ff c L2 e)" and seg: "seg h c L2 e" and ok: "sizes_ok (M @ [(p, False)])" "sizes_ok L2" "0 < s"
    and b: "b = base + extent M + p" "c = b + s" "e = c + extent L2" "e < 2 ^ 32" "extent M + p \<le> 65536"
    and q: "q < 2 ^ 32" "q < base \<or> e < q"
    and sz: "xBlockSize (blk_at h b) = of_nat s" and e: "pxEnd h = of_nat e"
  shows "prvInsertBlockIntoFreeList (of_nat q) (of_nat b) h =
    Inr (upd_blk (of_nat (base + extent M)) (\<lambda>_. header (p + s + absorbed L2) False (ff (c + absorbed L2) (rest_of L2) e)) h)"
proof -
  let ?it = "base + extent M"
  have nf: "c \<le> ff c L2 e" "ff c L2 e \<le> e" using ff_bounds [OF ok(2), of c e] b by auto
  have "frees (M @ [(p, False)]) \<le> heap_rounds" using frees_le [OF ok(1)] b(5) by simp
  then have find: "insert_find heap_rounds (of_nat b) (of_nat q) h = Inr (of_nat ?it)"
    using lk ok(1) b nf insert_find_at [of h q base "M @ [(p, False)]" "ff c L2 e" b heap_rounds] by simp
  have hit: "blk_at h ?it = header p False (ff c L2 e)" using lk by (simp add: linked_def)
  define h1 where "h1 = upd_blk (of_nat ?it) (\<lambda>k. k\<lparr>xBlockSize := xBlockSize k + xBlockSize (blk_at h b)\<rparr>) h"
  have "seg h1 c L2 e" unfolding h1_def using seg ok b by (subst seg_upd) auto
  moreover have "xBlockSize (blk_at h1 ?it) = of_nat (p + s)" using hit sz by (simp add: h1_def header_def)
  moreover have "pxEnd h1 = of_nat e" using e by (simp add: h1_def)
  ultimately have "join_next (of_nat ?it) (of_nat (ff c L2 e)) h1 =
      upd_blk (of_nat ?it) (\<lambda>_. header (p + s + absorbed L2) False (ff (c + absorbed L2) (rest_of L2) e)) h1"
    using ok(2) b by (intro join_next_eq) auto
  also have "\<dots> = upd_blk (of_nat ?it) (\<lambda>_. header (p + s + absorbed L2) False (ff (c + absorbed L2) (rest_of L2) e)) h"
    by (simp add: h1_def upd_blk_def)
  finally have j: "join_next (of_nat ?it) (of_nat (ff c L2 e)) h1 =
      upd_blk (of_nat ?it) (\<lambda>_. header (p + s + absorbed L2) False (ff (c + absorbed L2) (rest_of L2) e)) h" .
  have touch: "of_nat ?it + xBlockSize (blk_at h ?it) = (of_nat b :: u32)" using hit b(1) by (simp add: header_def)
  have nx: "pxNextFreeBlock (blk_at h1 ?it) = of_nat (ff c L2 e)" using hit by (simp add: h1_def header_def)
  show ?thesis unfolding insert_def_join find rbind.simps Let_def
    using touch j nx unfolding h1_def by simp
qed

end
