(* ===== verification/Freertos_Task_Ops.thy ===== *)
theory Freertos_Task_Ops
  imports Freertos_Tasks Freertos_Heap
begin

text \<open>
  The operations of \<open>FreeRTOS/Source/tasks.c\<close> on tasks: creation and deletion, state and priority,
  suspension and resumption, aborted delays, unordered event lists, direct-to-task notifications, start of the
  scheduler, and what the port (\<open>portable/GCC/ARM_CM7/r0p1/port.c\<close>) contributes: the initial
  stack frame, the tick interrupt and the context switch with the registers it saves and restores. Notifications have one entry
  per task. A function with two critical sections is two functions here, with what other tasks
  do in between as an argument of their composition.
\<close>

section \<open>Creation\<close>

definition prvGetTCBFromHandle :: "u32 \<Rightarrow> 'a kernel_scheme \<Rightarrow> u32" where
  "prvGetTCBFromHandle pxHandle k = (if pxHandle = NULL then pxCurrentTCB k else pxHandle)"

fun init_ready_lists :: "nat \<Rightarrow> 'a kernel_scheme \<Rightarrow> 'a kernel_scheme" where
  "init_ready_lists 0 k = k"
| "init_ready_lists (Suc n) k = vListInitialise (ready_list (of_nat n) k) (init_ready_lists n k)"

definition prvInitialiseTaskLists :: "'a kernel_scheme \<Rightarrow> 'a kernel_scheme" where
  "prvInitialiseTaskLists k =
    (let k1 = init_ready_lists 8 k;
         k2 = vListInitialise (xDelayedTaskList1 k1) k1;
         k3 = vListInitialise (xDelayedTaskList2 k2) k2;
         k4 = vListInitialise (xPendingReadyList k3) k3;
         k5 = vListInitialise (xTasksWaitingTermination k4) k4;
         k6 = vListInitialise (xSuspendedTaskList k5) k5
     in k6\<lparr>pxDelayedTaskList := xDelayedTaskList1 k6, pxOverflowDelayedTaskList := xDelayedTaskList2 k6\<rparr>)"

text \<open>The stack frame of a task that has not run yet; \<open>exitError\<close> is the address of \<open>prvTaskExitError\<close>.\<close>

definition pxPortInitialiseStack :: "u32 \<Rightarrow> u32 \<Rightarrow> u32 \<Rightarrow> u32 \<Rightarrow> (u32 \<Rightarrow> u32) \<Rightarrow> (u32 \<Rightarrow> u32) \<times> u32" where
  "pxPortInitialiseStack exitError topOfStack pxCode params m =
    (let p1 = topOfStack - 4;
         m1 = m(p1 := 0x01000000);
         p2 = p1 - 4;
         m2 = m1(p2 := pxCode AND 0xFFFFFFFE);
         p3 = p2 - 4;
         m3 = m2(p3 := exitError);
         p4 = p3 - 4 * 5;
         m4 = m3(p4 := params);
         p5 = p4 - 4;
         m5 = m4(p5 := 0xFFFFFFFD)
     in (m5, p5 - 4 * 8))"

fun copy_name :: "nat \<Rightarrow> nat \<Rightarrow> u8 list \<Rightarrow> u8 list \<Rightarrow> u8 list res" where
  "copy_name 0 x pcName dst = Inr dst"
| "copy_name (Suc n) x pcName dst =
    (if x < length pcName \<and> x < length dst
     then let dst' = dst[x := pcName ! x] in if pcName ! x = 0 then Inr dst' else copy_name n (Suc x) pcName dst'
     else Inl OutOfBounds)"

definition task_name :: "u8 list option \<Rightarrow> u8 list \<Rightarrow> u8 list res" where
  "task_name pcName dst =
    (case pcName of None \<Rightarrow> Inr (dst[0 := 0])
     | Some s \<Rightarrow> rbind (copy_name 16 0 s dst) (\<lambda>d. Inr (d[15 := 0])))"

definition fill_stack :: "u32 \<Rightarrow> u32 \<Rightarrow> (u32 \<Rightarrow> u32) \<Rightarrow> u32 \<Rightarrow> u32" where
  "fill_stack stack ulStackDepth m a = (if a - stack < 4 * ulStackDepth then 0xA5A5A5A5 else m a)"

definition prvInitialiseNewTask ::
  "u32 \<Rightarrow> u32 \<Rightarrow> u8 list option \<Rightarrow> u32 \<Rightarrow> u32 \<Rightarrow> u32 \<Rightarrow> u32 \<Rightarrow> 'a kernel_scheme \<Rightarrow> 'a kernel_scheme res" where
  "prvInitialiseNewTask exitError code pcName ulStackDepth params prio pxNewTCB k =
    (let stack = pxStack (tcb k pxNewTCB);
         m = fill_stack stack ulStackDepth (stack_mem k);
         top = (stack + 4 * (ulStackDepth - 1)) AND NOT 7
     in dev_assert (top AND 7 = 0)
        (rbind (task_name pcName (pcTaskName (tcb k pxNewTCB))) (\<lambda>name.
         dev_assert (prio < configMAX_PRIORITIES)
        (let k1 = upd_tcb pxNewTCB (\<lambda>b. b\<lparr>pcTaskName := name, uxPriority := prio, uxBasePriority := prio, uxMutexesHeld := 0\<rparr>) k;
             k2 = vListInitialiseItem (xStateListItem pxNewTCB) k1;
             k3 = vListInitialiseItem (xEventListItem pxNewTCB) k2;
             k4 = upd_item (xStateListItem pxNewTCB) (\<lambda>i. i\<lparr>pvOwner := pxNewTCB\<rparr>) k3;
             k5 = upd_item (xEventListItem pxNewTCB) (\<lambda>i. i\<lparr>xItemValue := configMAX_PRIORITIES - prio\<rparr>) k4;
             k6 = upd_item (xEventListItem pxNewTCB) (\<lambda>i. i\<lparr>pvOwner := pxNewTCB\<rparr>) k5;
             k7 = upd_tcb pxNewTCB (\<lambda>b. b\<lparr>pvThreadLocalStoragePointers := [0, 0], ulNotifiedValue := 0, ucNotifyState := 0,
                                          ucDelayAborted := False\<rparr>) k6;
             (m', top') = pxPortInitialiseStack exitError top code params m
         in Inr (upd_tcb pxNewTCB (\<lambda>b. b\<lparr>pxTopOfStack := top'\<rparr>) (k7\<lparr>stack_mem := m'\<rparr>))))))"

definition prvAddNewTaskToReadyList :: "u32 \<Rightarrow> 'a kernel_scheme \<Rightarrow> 'a kernel_scheme" where
  "prvAddNewTaskToReadyList pxNewTCB k =
    (let k1 = k\<lparr>uxCurrentNumberOfTasks := uxCurrentNumberOfTasks k + 1\<rparr>;
         k2 = (if pxCurrentTCB k1 = NULL
               then let c = k1\<lparr>pxCurrentTCB := pxNewTCB\<rparr> in if uxCurrentNumberOfTasks c = 1 then prvInitialiseTaskLists c else c
               else if \<not> xSchedulerRunning k1 \<and> uxPriority (tcb k1 (pxCurrentTCB k1)) \<le> uxPriority (tcb k1 pxNewTCB)
               then k1\<lparr>pxCurrentTCB := pxNewTCB\<rparr> else k1);
         k3 = k2\<lparr>uxTaskNumber := uxTaskNumber k2 + 1\<rparr>;
         k4 = prvAddTaskToReadyList pxNewTCB k3
     in if xSchedulerRunning k4 \<and> uxPriority (tcb k4 (pxCurrentTCB k4)) < uxPriority (tcb k4 pxNewTCB)
        then portYIELD_WITHIN_API k4 else k4)"

text \<open>\<open>xTaskCreate\<close> with the heap: the new handle, or the error when memory is short. A \<open>TCB_t\<close> has 92 bytes.\<close>

datatype create_result = Created u32 | errCOULD_NOT_ALLOCATE_REQUIRED_MEMORY

record task_params =
  pxTaskCode :: u32
  tp_pcName :: "u8 list option"
  usStackDepth :: u16
  pvParameters :: u32
  tp_uxPriority :: u32

definition xTaskCreate ::
  "u32 \<Rightarrow> u32 \<Rightarrow> u32 \<Rightarrow> task_params \<Rightarrow> 'a kernel_scheme \<Rightarrow> heap4 \<Rightarrow> ('a kernel_scheme \<times> heap4 \<times> create_result) res" where
  "xTaskCreate exitError xStart ucHeap tp k h =
    rbind (pvPortMalloc xStart ucHeap (ucast (usStackDepth tp) * 4) h) (\<lambda>(h1, stack).
      if stack \<noteq> NULL
      then rbind (pvPortMalloc xStart ucHeap 92 h1) (\<lambda>(h2, pxNewTCB).
             if pxNewTCB \<noteq> NULL
             then let k1 = upd_tcb pxNewTCB (\<lambda>b. b\<lparr>pxStack := stack\<rparr>) k
                  in rbind (prvInitialiseNewTask exitError (pxTaskCode tp) (tp_pcName tp) (ucast (usStackDepth tp)) (pvParameters tp)
                              (tp_uxPriority tp) pxNewTCB k1) (\<lambda>k2.
                     Inr (prvAddNewTaskToReadyList pxNewTCB k2, h2, Created pxNewTCB))
             else rbind (vPortFree xStart stack h2) (\<lambda>h3. Inr (k, h3, errCOULD_NOT_ALLOCATE_REQUIRED_MEMORY)))
      else Inr (k, h1, errCOULD_NOT_ALLOCATE_REQUIRED_MEMORY))"

section \<open>Deletion\<close>

definition prvDeleteTCB :: "u32 \<Rightarrow> u32 \<Rightarrow> 'a kernel_scheme \<Rightarrow> heap4 \<Rightarrow> heap4 res" where
  "prvDeleteTCB xStart pxTCB k h = rbind (vPortFree xStart (pxStack (tcb k pxTCB)) h) (vPortFree xStart pxTCB)"

definition vTaskDelete :: "u32 \<Rightarrow> u32 \<Rightarrow> 'a kernel_scheme \<Rightarrow> heap4 \<Rightarrow> ('a kernel_scheme \<times> heap4) res" where
  "vTaskDelete xStart xTaskToDelete k h =
    (let t = prvGetTCBFromHandle xTaskToDelete k;
         k1 = fst (uxListRemove (xStateListItem t) k);
         k2 = (if pxContainer (l_item k1 (xEventListItem t)) \<noteq> NULL then fst (uxListRemove (xEventListItem t) k1) else k1);
         k3 = k2\<lparr>uxTaskNumber := uxTaskNumber k2 + 1\<rparr>;
         k4 = (if t = pxCurrentTCB k3
               then let k' = vListInsertEnd (xTasksWaitingTermination k3) (xStateListItem t) k3
                    in k'\<lparr>uxDeletedTasksWaitingCleanUp := uxDeletedTasksWaitingCleanUp k' + 1\<rparr>
               else prvResetNextTaskUnblockTime (k3\<lparr>uxCurrentNumberOfTasks := uxCurrentNumberOfTasks k3 - 1\<rparr>))
     in rbind (if t \<noteq> pxCurrentTCB k4 then prvDeleteTCB xStart t k4 h else Inr h) (\<lambda>h1.
        if xSchedulerRunning k4 \<and> t = pxCurrentTCB k4
        then dev_assert (uxSchedulerSuspended k4 = 0) (Inr (portYIELD_WITHIN_API k4, h1))
        else Inr (k4, h1)))"

text \<open>The idle task frees what deleted themselves; one round per task waiting.\<close>

fun check_termination_loop :: "nat \<Rightarrow> u32 \<Rightarrow> 'a kernel_scheme \<Rightarrow> heap4 \<Rightarrow> ('a kernel_scheme \<times> heap4) res" where
  "check_termination_loop 0 xStart k h = Inr (k, h)"
| "check_termination_loop (Suc n) xStart k h =
    (let t = listGET_OWNER_OF_HEAD_ENTRY (xTasksWaitingTermination k) k;
         k1 = fst (uxListRemove (xStateListItem t) k);
         k2 = k1\<lparr>uxCurrentNumberOfTasks := uxCurrentNumberOfTasks k1 - 1,
                 uxDeletedTasksWaitingCleanUp := uxDeletedTasksWaitingCleanUp k1 - 1\<rparr>
     in rbind (prvDeleteTCB xStart t k2 h) (check_termination_loop n xStart k2))"

definition prvCheckTasksWaitingTermination :: "u32 \<Rightarrow> 'a kernel_scheme \<Rightarrow> heap4 \<Rightarrow> ('a kernel_scheme \<times> heap4) res" where
  "prvCheckTasksWaitingTermination xStart k h = check_termination_loop (unat (uxDeletedTasksWaitingCleanUp k)) xStart k h"

text \<open>One round of the idle task.\<close>

definition prvIdleTask_round :: "u32 \<Rightarrow> 'a kernel_scheme \<Rightarrow> heap4 \<Rightarrow> ('a kernel_scheme \<times> heap4) res" where
  "prvIdleTask_round xStart k h =
    rbind (prvCheckTasksWaitingTermination xStart k h) (\<lambda>(k1, h1).
      Inr (if uxNumberOfItems (l_list k1 (ready_list 0 k1)) > 1 then portYIELD_WITHIN_API k1 else k1, h1))"

section \<open>State and priority\<close>

datatype eTaskState = eRunning | eReady | eBlocked | eSuspended | eDeleted | eInvalid

abbreviation "taskNOT_WAITING_NOTIFICATION \<equiv> (0 :: u8)"
abbreviation "taskWAITING_NOTIFICATION \<equiv> (1 :: u8)"
abbreviation "taskNOTIFICATION_RECEIVED \<equiv> (2 :: u8)"

definition eTaskGetState :: "u32 \<Rightarrow> 'a kernel_scheme \<Rightarrow> eTaskState res" where
  "eTaskGetState t k =
    dev_assert (t \<noteq> NULL)
     (let L = pxContainer (l_item k (xStateListItem t))
      in Inr (if t = pxCurrentTCB k then eRunning
              else if L = pxDelayedTaskList k \<or> L = pxOverflowDelayedTaskList k then eBlocked
              else if L = xSuspendedTaskList k
              then (if pxContainer (l_item k (xEventListItem t)) = NULL
                    then (if ucNotifyState (tcb k t) = taskWAITING_NOTIFICATION then eBlocked else eSuspended)
                    else eBlocked)
              else if L = xTasksWaitingTermination k \<or> L = NULL then eDeleted
              else eReady))"

definition uxTaskPriorityGet :: "u32 \<Rightarrow> 'a kernel_scheme \<Rightarrow> u32" where
  "uxTaskPriorityGet xTask k = uxPriority (tcb k (prvGetTCBFromHandle xTask k))"

definition uxTaskPriorityGetFromISR :: "u32 \<Rightarrow> 'a kernel_scheme \<Rightarrow> u32" where
  "uxTaskPriorityGetFromISR xTask k = uxPriority (tcb k (prvGetTCBFromHandle xTask k))"

definition priority_set_yields :: "u32 \<Rightarrow> u32 \<Rightarrow> 'a kernel_scheme \<Rightarrow> bool" where
  "priority_set_yields t new k =
    (if new > uxBasePriority (tcb k t)
     then t \<noteq> pxCurrentTCB k \<and> new \<ge> uxPriority (tcb k (pxCurrentTCB k))
     else t = pxCurrentTCB k)"

definition vTaskPrioritySet :: "u32 \<Rightarrow> u32 \<Rightarrow> 'a kernel_scheme \<Rightarrow> 'a kernel_scheme res" where
  "vTaskPrioritySet xTask uxNewPriority k =
    dev_assert (uxNewPriority < configMAX_PRIORITIES)
     (let t = prvGetTCBFromHandle xTask k
      in Inr (if uxBasePriority (tcb k t) \<noteq> uxNewPriority
              then let yields = priority_set_yields t uxNewPriority k;
                       onEntry = uxPriority (tcb k t);
                       k1 = (if uxBasePriority (tcb k t) = uxPriority (tcb k t) then set_priority t uxNewPriority k else k);
                       k2 = upd_tcb t (\<lambda>b. b\<lparr>uxBasePriority := uxNewPriority\<rparr>) k1;
                       k3 = (if event_value_in_use t k2 then k2 else set_event_value t uxNewPriority k2);
                       k4 = (if pxContainer (l_item k3 (xStateListItem t)) = ready_list onEntry k3
                             then prvAddTaskToReadyList t (fst (uxListRemove (xStateListItem t) k3)) else k3)
                   in if yields then portYIELD_WITHIN_API k4 else k4
              else k))"

section \<open>Suspension of tasks\<close>

definition vTaskSuspend :: "u32 \<Rightarrow> 'a kernel_scheme \<Rightarrow> 'a kernel_scheme res" where
  "vTaskSuspend xTaskToSuspend k =
    (let t = prvGetTCBFromHandle xTaskToSuspend k;
         k1 = fst (uxListRemove (xStateListItem t) k);
         k2 = (if pxContainer (l_item k1 (xEventListItem t)) \<noteq> NULL then fst (uxListRemove (xEventListItem t) k1) else k1);
         k3 = vListInsertEnd (xSuspendedTaskList k2) (xStateListItem t) k2;
         k4 = (if ucNotifyState (tcb k3 t) = taskWAITING_NOTIFICATION
               then upd_tcb t (\<lambda>b. b\<lparr>ucNotifyState := taskNOT_WAITING_NOTIFICATION\<rparr>) k3 else k3);
         k5 = (if xSchedulerRunning k4 then prvResetNextTaskUnblockTime k4 else k4)
     in if t = pxCurrentTCB k5
        then if xSchedulerRunning k5
             then dev_assert (uxSchedulerSuspended k5 = 0) (Inr (portYIELD_WITHIN_API k5))
             else if uxNumberOfItems (l_list k5 (xSuspendedTaskList k5)) = uxCurrentNumberOfTasks k5
             then Inr (k5\<lparr>pxCurrentTCB := NULL\<rparr>)
             else vTaskSwitchContext k5
        else Inr k5)"

definition prvTaskIsTaskSuspended :: "u32 \<Rightarrow> 'a kernel_scheme \<Rightarrow> bool res" where
  "prvTaskIsTaskSuspended t k =
    dev_assert (t \<noteq> NULL)
     (Inr (pxContainer (l_item k (xStateListItem t)) = xSuspendedTaskList k \<and>
           pxContainer (l_item k (xEventListItem t)) \<noteq> xPendingReadyList k \<and>
           pxContainer (l_item k (xEventListItem t)) = NULL))"

definition vTaskResume :: "u32 \<Rightarrow> 'a kernel_scheme \<Rightarrow> 'a kernel_scheme res" where
  "vTaskResume t k =
    dev_assert (t \<noteq> NULL)
     (if t \<noteq> pxCurrentTCB k \<and> t \<noteq> NULL
      then rbind (prvTaskIsTaskSuspended t k) (\<lambda>b.
             if b
             then let k1 = fst (uxListRemove (xStateListItem t) k);
                      k2 = prvAddTaskToReadyList t k1
                  in Inr (if uxPriority (tcb k2 t) \<ge> uxPriority (tcb k2 (pxCurrentTCB k2)) then portYIELD_WITHIN_API k2 else k2)
             else Inr k)
      else Inr k)"

definition xTaskResumeFromISR :: "u32 \<Rightarrow> 'a kernel_scheme \<Rightarrow> ('a kernel_scheme \<times> bool) res" where
  "xTaskResumeFromISR t k =
    dev_assert (t \<noteq> NULL)
     (rbind (prvTaskIsTaskSuspended t k) (\<lambda>b.
        if b
        then if uxSchedulerSuspended k = 0
             then let yields = uxPriority (tcb k t) \<ge> uxPriority (tcb k (pxCurrentTCB k));
                      k1 = (if yields then k\<lparr>xYieldPending := True\<rparr> else k);
                      k2 = fst (uxListRemove (xStateListItem t) k1)
                  in Inr (prvAddTaskToReadyList t k2, yields)
             else Inr (vListInsertEnd (xPendingReadyList k) (xEventListItem t) k, False)
        else Inr (k, False)))"

definition xTaskCatchUpTicks :: "u32 \<Rightarrow> 'a kernel_scheme \<Rightarrow> ('a kernel_scheme \<times> bool) res" where
  "xTaskCatchUpTicks xTicksToCatchUp k =
    dev_assert (uxSchedulerSuspended k = 0)
     (let k1 = vTaskSuspendAll k in xTaskResumeAll (k1\<lparr>xPendedTicks := xPendedTicks k1 + xTicksToCatchUp\<rparr>))"

definition xTaskAbortDelay :: "u32 \<Rightarrow> 'a kernel_scheme \<Rightarrow> ('a kernel_scheme \<times> bool) res" where
  "xTaskAbortDelay t k =
    dev_assert (t \<noteq> NULL)
     (let k0 = vTaskSuspendAll k
      in rbind (eTaskGetState t k0) (\<lambda>st.
         let (k', ret) =
           (if st = eBlocked
            then let k1 = fst (uxListRemove (xStateListItem t) k0);
                     k2 = (if pxContainer (l_item k1 (xEventListItem t)) \<noteq> NULL
                           then upd_tcb t (\<lambda>b. b\<lparr>ucDelayAborted := True\<rparr>) (fst (uxListRemove (xEventListItem t) k1)) else k1);
                     k3 = prvAddTaskToReadyList t k2
                 in (if uxPriority (tcb k3 t) > uxPriority (tcb k3 (pxCurrentTCB k3)) then k3\<lparr>xYieldPending := True\<rparr> else k3, True)
            else (k0, False))
         in rbind (xTaskResumeAll k') (\<lambda>(k'', _). Inr (k'', ret))))"

section \<open>Event lists of event groups and timers\<close>

definition vTaskPlaceOnUnorderedEventList :: "u32 \<Rightarrow> u32 \<Rightarrow> u32 \<Rightarrow> 'a kernel_scheme \<Rightarrow> 'a kernel_scheme res" where
  "vTaskPlaceOnUnorderedEventList pxEventList v xTicksToWait k =
    dev_assert (pxEventList \<noteq> NULL) (dev_assert (uxSchedulerSuspended k \<noteq> 0)
     (let e = xEventListItem (pxCurrentTCB k);
          k1 = upd_item e (\<lambda>i. i\<lparr>xItemValue := v OR taskEVENT_LIST_ITEM_VALUE_IN_USE\<rparr>) k;
          k2 = listINSERT_END pxEventList e k1
      in prvAddCurrentTaskToDelayedList xTicksToWait True k2))"

definition vTaskPlaceOnEventListRestricted :: "u32 \<Rightarrow> u32 \<Rightarrow> bool \<Rightarrow> 'a kernel_scheme \<Rightarrow> 'a kernel_scheme res" where
  "vTaskPlaceOnEventListRestricted pxEventList xTicksToWait xWaitIndefinitely k =
    dev_assert (pxEventList \<noteq> NULL)
     (let k1 = listINSERT_END pxEventList (xEventListItem (pxCurrentTCB k)) k
      in prvAddCurrentTaskToDelayedList (if xWaitIndefinitely then portMAX_DELAY else xTicksToWait) xWaitIndefinitely k1)"

definition vTaskRemoveFromUnorderedEventList :: "u32 \<Rightarrow> u32 \<Rightarrow> 'a kernel_scheme \<Rightarrow> 'a kernel_scheme res" where
  "vTaskRemoveFromUnorderedEventList pxEventListItem v k =
    dev_assert (uxSchedulerSuspended k \<noteq> 0)
     (let k1 = upd_item pxEventListItem (\<lambda>i. i\<lparr>xItemValue := v OR taskEVENT_LIST_ITEM_VALUE_IN_USE\<rparr>) k;
          t = pvOwner (l_item k1 pxEventListItem)
      in dev_assert (t \<noteq> NULL)
          (let k2 = listREMOVE_ITEM pxEventListItem k1;
               k3 = listREMOVE_ITEM (xStateListItem t) k2;
               k4 = prvAddTaskToReadyList t k3
           in Inr (if uxPriority (tcb k4 t) > uxPriority (tcb k4 (pxCurrentTCB k4)) then k4\<lparr>xYieldPending := True\<rparr> else k4)))"

definition vTaskSetTimeOutState :: "'a kernel_scheme \<Rightarrow> TimeOut_t" where
  "vTaskSetTimeOutState k = \<lparr>xOverflowCount = xNumOfOverflows k, xTimeOnEntering = xTickCount k\<rparr>"

definition uxTaskResetEventItemValue :: "'a kernel_scheme \<Rightarrow> 'a kernel_scheme \<times> u32" where
  "uxTaskResetEventItemValue k =
    (let c = pxCurrentTCB k in (set_event_value c (uxPriority (tcb k c)) k, xItemValue (l_item k (xEventListItem c))))"

section \<open>Notifications\<close>

definition set_notify :: "u32 \<Rightarrow> u32 \<Rightarrow> u8 \<Rightarrow> 'a kernel_scheme \<Rightarrow> 'a kernel_scheme" where
  "set_notify t v s = upd_tcb t (\<lambda>b. b\<lparr>ulNotifiedValue := v, ucNotifyState := s\<rparr>)"

text \<open>The wait at the start of both waiting functions: a blocking wait ends in a yield.\<close>

definition notify_block :: "u32 \<Rightarrow> 'a kernel_scheme \<Rightarrow> 'a kernel_scheme res" where
  "notify_block xTicksToWait k =
    (if xTicksToWait > 0
     then rbind (prvAddCurrentTaskToDelayedList xTicksToWait True k) (\<lambda>k1. Inr (portYIELD_WITHIN_API k1)) else Inr k)"

definition ulTaskGenericNotifyTake_enter :: "u32 \<Rightarrow> u32 \<Rightarrow> 'a kernel_scheme \<Rightarrow> 'a kernel_scheme res" where
  "ulTaskGenericNotifyTake_enter uxIndexToWait xTicksToWait k =
    dev_assert (uxIndexToWait < 1)
     (let c = pxCurrentTCB k
      in if ulNotifiedValue (tcb k c) = 0
         then notify_block xTicksToWait (upd_tcb c (\<lambda>b. b\<lparr>ucNotifyState := taskWAITING_NOTIFICATION\<rparr>) k)
         else Inr k)"

definition ulTaskGenericNotifyTake_exit :: "bool \<Rightarrow> 'a kernel_scheme \<Rightarrow> 'a kernel_scheme \<times> u32" where
  "ulTaskGenericNotifyTake_exit xClearCountOnExit k =
    (let c = pxCurrentTCB k;
         v = ulNotifiedValue (tcb k c);
         v' = (if v \<noteq> 0 then if xClearCountOnExit then 0 else v - 1 else v)
     in (set_notify c v' taskNOT_WAITING_NOTIFICATION k, v))"

definition ulTaskGenericNotifyTake ::
  "('a kernel_scheme \<Rightarrow> 'a kernel_scheme res) \<Rightarrow> u32 \<Rightarrow> bool \<Rightarrow> u32 \<Rightarrow> 'a kernel_scheme \<Rightarrow> ('a kernel_scheme \<times> u32) res" where
  "ulTaskGenericNotifyTake others uxIndexToWait xClearCountOnExit xTicksToWait k =
    rbind (ulTaskGenericNotifyTake_enter uxIndexToWait xTicksToWait k) (\<lambda>k1.
      rbind (others k1) (\<lambda>k2. Inr (ulTaskGenericNotifyTake_exit xClearCountOnExit k2)))"

definition xTaskGenericNotifyWait_enter :: "u32 \<Rightarrow> u32 \<Rightarrow> u32 \<Rightarrow> 'a kernel_scheme \<Rightarrow> 'a kernel_scheme res" where
  "xTaskGenericNotifyWait_enter uxIndexToWait ulBitsToClearOnEntry xTicksToWait k =
    dev_assert (uxIndexToWait < 1)
     (let c = pxCurrentTCB k
      in if ucNotifyState (tcb k c) \<noteq> taskNOTIFICATION_RECEIVED
         then notify_block xTicksToWait
               (set_notify c (ulNotifiedValue (tcb k c) AND NOT ulBitsToClearOnEntry) taskWAITING_NOTIFICATION k)
         else Inr k)"

text \<open>The result: the kernel, the value written through \<open>pulNotificationValue\<close>, and whether a notification came.\<close>

definition xTaskGenericNotifyWait_exit :: "u32 \<Rightarrow> 'a kernel_scheme \<Rightarrow> 'a kernel_scheme \<times> u32 \<times> bool" where
  "xTaskGenericNotifyWait_exit ulBitsToClearOnExit k =
    (let c = pxCurrentTCB k;
         v = ulNotifiedValue (tcb k c);
         received = (ucNotifyState (tcb k c) = taskNOTIFICATION_RECEIVED);
         v' = (if received then v AND NOT ulBitsToClearOnExit else v)
     in (set_notify c v' taskNOT_WAITING_NOTIFICATION k, v, received))"

definition xTaskGenericNotifyWait ::
  "('a kernel_scheme \<Rightarrow> 'a kernel_scheme res) \<Rightarrow> u32 \<Rightarrow> u32 \<Rightarrow> u32 \<Rightarrow> u32 \<Rightarrow> 'a kernel_scheme \<Rightarrow> ('a kernel_scheme \<times> u32 \<times> bool) res" where
  "xTaskGenericNotifyWait others uxIndexToWait ulBitsToClearOnEntry ulBitsToClearOnExit xTicksToWait k =
    rbind (xTaskGenericNotifyWait_enter uxIndexToWait ulBitsToClearOnEntry xTicksToWait k) (\<lambda>k1.
      rbind (others k1) (\<lambda>k2. Inr (xTaskGenericNotifyWait_exit ulBitsToClearOnExit k2)))"

datatype eNotifyAction = eNoAction | eSetBits | eIncrement | eSetValueWithOverwrite | eSetValueWithoutOverwrite

fun notify_value :: "eNotifyAction \<Rightarrow> u8 \<Rightarrow> u32 \<Rightarrow> u32 \<Rightarrow> u32 \<times> bool" where
  "notify_value eSetBits st ulValue v = (v OR ulValue, True)"
| "notify_value eIncrement st ulValue v = (v + 1, True)"
| "notify_value eSetValueWithOverwrite st ulValue v = (ulValue, True)"
| "notify_value eSetValueWithoutOverwrite st ulValue v = (if st \<noteq> taskNOTIFICATION_RECEIVED then (ulValue, True) else (v, False))"
| "notify_value eNoAction st ulValue v = (v, True)"

text \<open>The result: the kernel, the previous value, and \<open>pdPASS\<close> or \<open>pdFAIL\<close>.\<close>

definition xTaskGenericNotify ::
  "u32 \<Rightarrow> u32 \<Rightarrow> u32 \<Rightarrow> eNotifyAction \<Rightarrow> 'a kernel_scheme \<Rightarrow> ('a kernel_scheme \<times> u32 \<times> bool) res" where
  "xTaskGenericNotify t uxIndexToNotify ulValue eAction k =
    dev_assert (uxIndexToNotify < 1) (dev_assert (t \<noteq> NULL)
     (let prev = ulNotifiedValue (tcb k t);
          orig = ucNotifyState (tcb k t);
          (v, ok) = notify_value eAction orig ulValue prev;
          k1 = set_notify t v taskNOTIFICATION_RECEIVED k
      in if orig = taskWAITING_NOTIFICATION
         then let k2 = prvAddTaskToReadyList t (listREMOVE_ITEM (xStateListItem t) k1)
              in dev_assert (pxContainer (l_item k2 (xEventListItem t)) = NULL)
                  (Inr (if uxPriority (tcb k2 t) > uxPriority (tcb k2 (pxCurrentTCB k2)) then portYIELD_WITHIN_API k2 else k2, prev, ok))
         else Inr (k1, prev, ok)))"

text \<open>The tail of the two functions for interrupts: the notified task, whether it should run at once.\<close>

definition notify_wake_from_isr :: "u32 \<Rightarrow> u8 \<Rightarrow> 'a kernel_scheme \<Rightarrow> ('a kernel_scheme \<times> bool) res" where
  "notify_wake_from_isr t orig k =
    (if orig = taskWAITING_NOTIFICATION
     then dev_assert (pxContainer (l_item k (xEventListItem t)) = NULL)
           (let k1 = (if uxSchedulerSuspended k = 0 then prvAddTaskToReadyList t (listREMOVE_ITEM (xStateListItem t) k)
                      else listINSERT_END (xPendingReadyList k) (xEventListItem t) k)
            in Inr (if uxPriority (tcb k1 t) > uxPriority (tcb k1 (pxCurrentTCB k1)) then (k1\<lparr>xYieldPending := True\<rparr>, True)
                    else (k1, False)))
     else Inr (k, False))"

text \<open>The result: the kernel, the previous value, \<open>pdPASS\<close> or \<open>pdFAIL\<close>, and \<open>pxHigherPriorityTaskWoken\<close>.\<close>

definition xTaskGenericNotifyFromISR ::
  "u32 \<Rightarrow> u32 \<Rightarrow> u32 \<Rightarrow> eNotifyAction \<Rightarrow> 'a kernel_scheme \<Rightarrow> ('a kernel_scheme \<times> u32 \<times> bool \<times> bool) res" where
  "xTaskGenericNotifyFromISR t uxIndexToNotify ulValue eAction k =
    dev_assert (t \<noteq> NULL) (dev_assert (uxIndexToNotify < 1)
     (let prev = ulNotifiedValue (tcb k t);
          orig = ucNotifyState (tcb k t);
          (v, ok) = notify_value eAction orig ulValue prev
      in rbind (notify_wake_from_isr t orig (set_notify t v taskNOTIFICATION_RECEIVED k)) (\<lambda>(k1, woken).
           Inr (k1, prev, ok, woken))))"

definition vTaskGenericNotifyGiveFromISR :: "u32 \<Rightarrow> u32 \<Rightarrow> 'a kernel_scheme \<Rightarrow> ('a kernel_scheme \<times> bool) res" where
  "vTaskGenericNotifyGiveFromISR t uxIndexToNotify k =
    dev_assert (t \<noteq> NULL) (dev_assert (uxIndexToNotify < 1)
     (let orig = ucNotifyState (tcb k t)
      in notify_wake_from_isr t orig (set_notify t (ulNotifiedValue (tcb k t) + 1) taskNOTIFICATION_RECEIVED k)))"

definition xTaskGenericNotifyStateClear :: "u32 \<Rightarrow> u32 \<Rightarrow> 'a kernel_scheme \<Rightarrow> ('a kernel_scheme \<times> bool) res" where
  "xTaskGenericNotifyStateClear xTask uxIndexToClear k =
    dev_assert (uxIndexToClear < 1)
     (let t = prvGetTCBFromHandle xTask k
      in Inr (if ucNotifyState (tcb k t) = taskNOTIFICATION_RECEIVED
              then (upd_tcb t (\<lambda>b. b\<lparr>ucNotifyState := taskNOT_WAITING_NOTIFICATION\<rparr>) k, True) else (k, False)))"

text \<open>\<open>ulTaskGenericNotifyValueClear\<close> does not check its index.\<close>

definition ulTaskGenericNotifyValueClear :: "u32 \<Rightarrow> u32 \<Rightarrow> u32 \<Rightarrow> 'a kernel_scheme \<Rightarrow> ('a kernel_scheme \<times> u32) res" where
  "ulTaskGenericNotifyValueClear xTask uxIndexToClear ulBitsToClear k =
    (let t = prvGetTCBFromHandle xTask k; v = ulNotifiedValue (tcb k t)
     in if uxIndexToClear < 1
        then Inr (upd_tcb t (\<lambda>b. b\<lparr>ulNotifiedValue := v AND NOT ulBitsToClear\<rparr>) k, v) else Inl OutOfBounds)"

section \<open>Start and interrupts\<close>

text \<open>
  The state in which \<open>vTaskStartScheduler\<close> leaves the kernel when the first task starts.
  \<open>timerTask\<close> is \<open>xTimerCreateTimerTask\<close> of \<open>timers.c\<close>: it returns 1 for success, and -1 when memory was short.
\<close>

definition idle_params :: "u32 \<Rightarrow> task_params" where
  "idle_params prvIdleTask = \<lparr>pxTaskCode = prvIdleTask, tp_pcName = Some [0x49, 0x44, 0x4C, 0x45, 0], usStackDepth = 4096,
    pvParameters = 0, tp_uxPriority = 0\<rparr>"

definition vTaskStartScheduler ::
  "('a kernel_scheme \<Rightarrow> heap4 \<Rightarrow> ('a kernel_scheme \<times> heap4 \<times> int) res) \<Rightarrow> u32 \<Rightarrow> u32 \<Rightarrow> u32 \<Rightarrow> u32 \<Rightarrow> 'a kernel_scheme \<Rightarrow> heap4 \<Rightarrow>
    ('a kernel_scheme \<times> heap4) res" where
  "vTaskStartScheduler timerTask prvIdleTask exitError xStart ucHeap k h =
    rbind (xTaskCreate exitError xStart ucHeap (idle_params prvIdleTask) k h) (\<lambda>(k1, h1, r).
      case r of
        Created t \<Rightarrow> rbind (timerTask (k1\<lparr>xIdleTaskHandle := t\<rparr>) h1) (\<lambda>(k2, h2, xReturn).
          if xReturn = 1 then Inr (k2\<lparr>xNextTaskUnblockTime := portMAX_DELAY, xSchedulerRunning := True, xTickCount := 0\<rparr>, h2)
          else dev_assert (xReturn \<noteq> - 1) (Inr (k2, h2)))
      | errCOULD_NOT_ALLOCATE_REQUIRED_MEMORY \<Rightarrow> Inl DevAssertFailed)"

definition vTaskEndScheduler :: "'a kernel_scheme \<Rightarrow> 'a kernel_scheme" where
  "vTaskEndScheduler k = k\<lparr>xSchedulerRunning := False\<rparr>"

definition xPortSysTickHandler :: "'a kernel_scheme \<Rightarrow> 'a kernel_scheme res" where
  "xPortSysTickHandler k = rbind (xTaskIncrementTick k) (\<lambda>(k1, sw). Inr (if sw then k1\<lparr>pendSV := True\<rparr> else k1))"

text \<open>
  Registers that the context switch handles in software. The hardware stacks the others on the task's stack
  before the handler runs and restores them from there afterwards.
\<close>

record cpu =
  r4_r11 :: "u32 list"
  r14 :: u32
  s16_s31 :: "u32 list"
  psp :: u32

fun store_words :: "u32 \<Rightarrow> u32 list \<Rightarrow> (u32 \<Rightarrow> u32) \<Rightarrow> u32 \<Rightarrow> u32" where
  "store_words a [] m = m"
| "store_words a (w # ws) m = store_words (a + 4) ws (m(a := w))"

fun load_words :: "nat \<Rightarrow> u32 \<Rightarrow> (u32 \<Rightarrow> u32) \<Rightarrow> u32 list" where
  "load_words 0 a m = []"
| "load_words (Suc n) a m = m a # load_words n (a + 4) m"

definition fpu_context :: "u32 \<Rightarrow> bool" where
  "fpu_context lr \<longleftrightarrow> lr AND 0x10 = 0"

definition save_context :: "cpu \<Rightarrow> (u32 \<Rightarrow> u32) \<Rightarrow> (u32 \<Rightarrow> u32) \<times> u32" where
  "save_context c m =
    (let (m1, r0) = (if fpu_context (r14 c) then (store_words (psp c - 4 * 16) (s16_s31 c) m, psp c - 4 * 16) else (m, psp c));
         r0' = r0 - 4 * 9
     in (store_words r0' (r4_r11 c @ [r14 c]) m1, r0'))"

definition restore_context :: "u32 \<Rightarrow> cpu \<Rightarrow> (u32 \<Rightarrow> u32) \<Rightarrow> cpu" where
  "restore_context r0 c m =
    (let regs = load_words 9 r0 m;
         lr = regs ! 8;
         r0' = r0 + 4 * 9
     in if fpu_context lr
        then \<lparr>r4_r11 = take 8 regs, r14 = lr, s16_s31 = load_words 16 r0' m, psp = r0' + 4 * 16\<rparr>
        else \<lparr>r4_r11 = take 8 regs, r14 = lr, s16_s31 = s16_s31 c, psp = r0'\<rparr>)"

definition xPortPendSVHandler :: "cpu \<Rightarrow> 'a kernel_scheme \<Rightarrow> (cpu \<times> 'a kernel_scheme) res" where
  "xPortPendSVHandler c k =
    (let (m, top) = save_context c (stack_mem k);
         k1 = upd_tcb (pxCurrentTCB k) (\<lambda>b. b\<lparr>pxTopOfStack := top\<rparr>) (k\<lparr>stack_mem := m, pendSV := False\<rparr>)
     in rbind (vTaskSwitchContext k1) (\<lambda>k2.
        Inr (restore_context (pxTopOfStack (tcb k2 (pxCurrentTCB k2))) c (stack_mem k2), k2)))"

definition vPortSVCHandler :: "cpu \<Rightarrow> 'a kernel_scheme \<Rightarrow> cpu" where
  "vPortSVCHandler c k =
    (let r0 = pxTopOfStack (tcb k (pxCurrentTCB k)); regs = load_words 9 r0 (stack_mem k)
     in c\<lparr>r4_r11 := take 8 regs, r14 := regs ! 8, psp := r0 + 4 * 9\<rparr>)"

text \<open>What the hardware restores on return from the exception: R0 to R3, R12, LR, PC and xPSR from the task stack.\<close>

record frame =
  f_r0 :: u32
  f_lr :: u32
  f_pc :: u32
  f_xpsr :: u32

definition exception_frame :: "u32 \<Rightarrow> (u32 \<Rightarrow> u32) \<Rightarrow> frame" where
  "exception_frame p m = \<lparr>f_r0 = m p, f_lr = m (p + 20), f_pc = m (p + 24), f_xpsr = m (p + 28)\<rparr>"

end
