(* ===== verification/Sched_Place.thy ===== *)
theory Sched_Place
  imports Freertos_Sched Freertos_Task_Ops
begin

text \<open>
  The places of the tasks: ready, asleep for a number of ticks, or suspended. \<open>kinv k F T W\<close> says that the lists
  of the kernel hold exactly the tasks that the place map \<open>W\<close> gives, in a well-formed heap with contents
  \<open>F\<close>; \<open>T\<close> is the set of existing tasks, and those outside the domain of \<open>W\<close> are on their way between two lists. The lemmas
  move one task: off its list, to the ready list of its priority, to the list of the suspended, and all sleeping
  tasks by one tick.
\<close>

section \<open>Where the tasks are\<close>

datatype place = Rdy | Slp nat | Ssp

abbreviation st :: "u32 \<Rightarrow> u32" where "st t \<equiv> xStateListItem t"
abbreviation ev :: "u32 \<Rightarrow> u32" where "ev t \<equiv> xEventListItem t"
abbreviation prio :: "'a kernel_scheme \<Rightarrow> u32 \<Rightarrow> u32" where "prio k t \<equiv> uxPriority (tcb k t)"

fun slp :: "place option \<Rightarrow> nat option" where
  "slp (Some (Slp n)) = Some n"
| "slp (Some Rdy) = None"
| "slp (Some Ssp) = None"
| "slp None = None"

definition side_lists :: "'a kernel_scheme \<Rightarrow> u32 set" where
  "side_lists k = {xPendingReadyList k, xSuspendedTaskList k, xTasksWaitingTermination k}"

definition task_ok :: "'a kernel_scheme \<Rightarrow> (u32 \<rightharpoonup> u32 list) \<Rightarrow> u32 \<Rightarrow> bool" where
  "task_ok k F t \<longleftrightarrow> t \<noteq> NULL \<and> owner k (st t) = t \<and> prio k t < 8 \<and> cont k (ev t) = NULL \<and> ev t \<notin> items F"

definition lists_placed :: "'a kernel_scheme \<Rightarrow> (u32 \<rightharpoonup> u32 list) \<Rightarrow> bool" where
  "lists_placed k F \<longleftrightarrow> dom F = own_lists k \<union> side_lists k \<and> own_lists k \<inter> side_lists k = {} \<and>
    distinct [xPendingReadyList k, xSuspendedTaskList k, xTasksWaitingTermination k] \<and>
    F (xPendingReadyList k) = Some [] \<and> F (xTasksWaitingTermination k) = Some []"

definition placed :: "'a kernel_scheme \<Rightarrow> (u32 \<rightharpoonup> u32 list) \<Rightarrow> (u32 \<rightharpoonup> place) \<Rightarrow> bool" where
  "placed k F W \<longleftrightarrow>
    (\<forall>t p. p < 8 \<longrightarrow> (st t \<in> set (lst F (ready_list p k)) \<longleftrightarrow> W t = Some Rdy \<and> prio k t = p)) \<and>
    (\<forall>t. st t \<in> set (lst F (xSuspendedTaskList k)) \<longleftrightarrow> W t = Some Ssp) \<and>
    (\<forall>t. sleeping k F (st t) = slp (W t))"

definition kinv :: "'a kernel_scheme \<Rightarrow> (u32 \<rightharpoonup> u32 list) \<Rightarrow> u32 set \<Rightarrow> (u32 \<rightharpoonup> place) \<Rightarrow> bool" where
  "kinv k F T W \<longleftrightarrow>
    sched_ok k F \<and> lists_placed k F \<and> dom W \<subseteq> T \<and> (\<forall>t \<in> T. task_ok k F t) \<and> (\<forall>t \<in> T - dom W. st t \<notin> items F) \<and>
    (\<forall>t \<in> T. \<forall>u \<in> T. st t \<noteq> ev u) \<and> placed k F W"

lemma st_surj: obtains t where "x = st t"
proof -
  have "x = st (x - 4)" by (simp add: xStateListItem_def)
  then show ?thesis by (rule that)
qed

lemma kinvD:
  assumes "kinv k F T W"
  shows "sched_ok k F" "sched_core k F" "lists_ok k F" "lists_placed k F" "dom W \<subseteq> T" "placed k F W" "t \<in> T \<Longrightarrow> task_ok k F t"
    "t \<in> T \<Longrightarrow> W t = None \<Longrightarrow> st t \<notin> items F" "W t = Some pl \<Longrightarrow> t \<in> T"
    "t \<in> T \<Longrightarrow> u \<in> T \<Longrightarrow> st t \<noteq> ev u"
  using assms by (auto simp: kinv_def sched_ok_def sched_core_def)

lemma task_okD:
  assumes "task_ok k F t"
  shows "t \<noteq> NULL" "owner k (st t) = t" "prio k t < 8" "cont k (ev t) = NULL" "ev t \<notin> items F" "sleeper_ok k G (st t)"
  using assms by (auto simp: task_ok_def sleeper_ok_def Let_def)

lemma placedD:
  assumes "placed k F W"
  shows "p < 8 \<Longrightarrow> st t \<in> set (lst F (ready_list p k)) \<longleftrightarrow> W t = Some Rdy \<and> prio k t = p"
    "st t \<in> set (lst F (xSuspendedTaskList k)) \<longleftrightarrow> W t = Some Ssp" "sleeping k F (st t) = slp (W t)"
  using assms by (auto simp: placed_def)

lemma lists_placedD:
  assumes "lists_placed k F"
  shows "L \<in> own_lists k \<union> side_lists k \<Longrightarrow> F L = Some (lst F L)" "F L = Some xs \<Longrightarrow> L \<in> own_lists k \<union> side_lists k"
    "L \<in> own_lists k \<Longrightarrow> L \<notin> side_lists k" "xSuspendedTaskList k \<in> side_lists k" "xPendingReadyList k \<in> side_lists k"
    "xTasksWaitingTermination k \<in> side_lists k"
    "xSuspendedTaskList k \<noteq> xPendingReadyList k" "xSuspendedTaskList k \<noteq> xTasksWaitingTermination k"
    "xPendingReadyList k \<noteq> xTasksWaitingTermination k" "F (xPendingReadyList k) = Some []" "F (xTasksWaitingTermination k) = Some []"
proof -
  have d: "dom F = own_lists k \<union> side_lists k" using assms by (simp add: lists_placed_def)
  show "F L = Some (lst F L)" if "L \<in> own_lists k \<union> side_lists k"
    using that unfolding d [symmetric] by (auto simp: lst_def)
  show "L \<in> own_lists k \<union> side_lists k" if "F L = Some xs" using that unfolding d [symmetric] by auto
qed (use assms in \<open>auto simp: lists_placed_def side_lists_def\<close>)

text \<open>The invariant reads only part of the state.\<close>

definition kview :: "'a kernel_scheme \<Rightarrow> _" where
  "kview k = (l_item k, l_list k, pxReadyTasksLists k, pxDelayedTaskList k, pxOverflowDelayedTaskList k,
    (xPendingReadyList k, xSuspendedTaskList k, xTasksWaitingTermination k, xTickCount k, uxTopReadyPriority k, xNextTaskUnblockTime k),
    \<lambda>t. prio k t)"

lemma kview_fields [simp]:
  "kview (k\<lparr>pxCurrentTCB := c\<rparr>) = kview k" "kview (k\<lparr>pendSV := b\<rparr>) = kview k" "kview (k\<lparr>xYieldPending := b\<rparr>) = kview k"
  "kview (k\<lparr>uxSchedulerSuspended := w\<rparr>) = kview k" "kview (k\<lparr>uxCurrentNumberOfTasks := w\<rparr>) = kview k" "kview (k\<lparr>uxTaskNumber := w\<rparr>) = kview k"
  "kview (k\<lparr>stack_mem := m\<rparr>) = kview k" "kview (k\<lparr>xSchedulerRunning := b\<rparr>) = kview k" "kview (k\<lparr>xIdleTaskHandle := w\<rparr>) = kview k"
  "kview (k\<lparr>xPendedTicks := w\<rparr>) = kview k"
  by (simp_all add: kview_def)

lemma kview_tcb: "(\<And>b. uxPriority (f b) = uxPriority b) \<Longrightarrow> kview (upd_tcb t f k) = kview k"
  by (auto simp: kview_def upd_tcb_def fun_eq_iff)

lemma kinv_view:
  fixes k k' :: "'a kernel_scheme"
  assumes "kview k' = kview k"
  shows "kinv k' F T W = kinv k F T W"
proof -
  have e: "l_item k' = l_item k" "l_list k' = l_list k" "pxReadyTasksLists k' = pxReadyTasksLists k" "pxDelayedTaskList k' = pxDelayedTaskList k"
    "pxOverflowDelayedTaskList k' = pxOverflowDelayedTaskList k" "xPendingReadyList k' = xPendingReadyList k" "xSuspendedTaskList k' = xSuspendedTaskList k"
    "xTasksWaitingTermination k' = xTasksWaitingTermination k" "xTickCount k' = xTickCount k" "uxTopReadyPriority k' = uxTopReadyPriority k"
    "xNextTaskUnblockTime k' = xNextTaskUnblockTime k" and p: "prio k' t = prio k t" for t
    using assms by (simp_all add: kview_def fun_eq_iff)
  have r: "ready_list p k' = ready_list p k" for p by (simp add: ready_list_def e)
  have o: "own_lists k' = own_lists k" "side_lists k' = side_lists k" by (simp_all add: own_lists_def side_lists_def e r)
  have s: "sleeper_ok k' F x = sleeper_ok k F x" "sleeping k' F x = sleeping k F x" for x by (simp_all add: sleeper_ok_def sleeping_def e o p)
  have l: "lists_ok k' F = lists_ok k F" by (rule lists_ok_heap) (fact e)+
  have "sched_core k' F = sched_core k F" unfolding sched_core_def l o s r e ..
  then have "sched_ok k' F = sched_ok k F" unfolding sched_ok_def e by simp
  then show ?thesis unfolding kinv_def lists_placed_def task_ok_def placed_def o r s e p by simp
qed

section \<open>Taking a task off its list\<close>

lemma remove_core:
  fixes k :: "'a kernel_scheme"
  assumes ok: "sched_ok k F" and L: "F L = Some xs" "x \<in> set xs"
    and ev: "\<forall>y \<in> set (lst F (pxDelayedTaskList k)) \<union> set (lst F (pxOverflowDelayedTaskList k)). cont k (ev (owner k y)) = NULL"
  defines "k' \<equiv> fst (uxListRemove x k)" and "F' \<equiv> F(L \<mapsto> remove1 x xs)"
  shows "sched_ok k' F'" "kframe k k'" "x \<notin> items F'" "cont k' y = (if y = x then NULL else cont k y)"
    "y \<in> set (lst F' M) \<longleftrightarrow> y \<in> set (lst F M) \<and> y \<noteq> x" "sleeping k' F' y = (if y = x then None else sleeping k F y)"
    "uxTopReadyPriority k' = uxTopReadyPriority k" "xNextTaskUnblockTime k' = xNextTaskUnblockTime k"
proof -
  have core: "sched_core k F" and del: "\<forall>y \<in> set (lst F (pxDelayedTaskList k)). xTickCount k < val k y \<and> xNextTaskUnblockTime k \<le> val k y"
    using ok by (simp_all add: sched_ok_def)
  note S = sched_coreD [OF core] and SC = core [unfolded sched_core_def]
  let ?D = "pxDelayedTaskList k" and ?O = "pxOverflowDelayedTaskList k"
  note r = lists_remove [of k F, OF S(1) L, folded k'_def F'_def]
  show fr: "kframe k k'" unfolding k'_def by (rule remove_frame [of k F, OF S(1) L])
  show "x \<notin> items F'" by (fact r(2))
  show c: "cont k' y = (if y = x then NULL else cont k y)" for y by (fact r(5))
  show top: "uxTopReadyPriority k' = uxTopReadyPriority k" "xNextTaskUnblockTime k' = xNextTaskUnblockTime k"
    by (simp_all add: k'_def uxListRemove_def heap_upd)
  have d: "distinct xs" using lists_okD [of k F, OF S(1) L(1)] by (simp add: list_at_def Let_def)
  show mem: "y \<in> set (lst F' M) \<longleftrightarrow> y \<in> set (lst F M) \<and> y \<noteq> x" for y M
  proof (cases "M = L")
    case True
    then show ?thesis using d L(1) by (auto simp: F'_def lst_def)
  next
    case False
    have "x \<notin> set (lst F M)"
    proof
      assume "x \<in> set (lst F M)"
      then obtain ys where "F M = Some ys" "x \<in> set ys" by (cases "F M") (auto simp: lst_def)
      then show False using lists_ok_unique [of k F M ys L xs x] S(1) L False by blast
    qed
    then show ?thesis using False by (auto simp: F'_def)
  qed
  show "sleeping k' F' y = (if y = x then None else sleeping k F y)" for y
    by (simp add: sleeping_def mem kframeD [OF fr])
  have sl: "sleeper_ok k' F' y" if "y \<in> set (lst F' ?D) \<union> set (lst F' ?O)" for y
  proof -
    have y: "y \<in> set (lst F ?D) \<union> set (lst F ?O)" using that mem by blast
    then have "sleeper_ok k F y" using SC by blast
    moreover have "cont k (ev (owner k y)) = NULL" using ev y by blast
    ultimately show ?thesis by (simp add: sleeper_ok_def Let_def c kframeD [OF fr])
  qed
  have so: "sorted (map (val k) (lst F' M))" if "sorted (map (val k) (lst F M))" for M
    using that sorted_map_remove1 [of "val k" xs x] lst_Some [of F, OF L(1)] by (auto simp: F'_def)
  have "sched_core k' F'" unfolding sched_core_def kframeD(6,7) [OF fr] kframe_ready [OF fr] kframeD(12) [OF fr] top
  proof (intro conjI)
    show "lists_ok k' F'" by (fact r(1))
    show "F' NULL = None" using S(2) L(1) by (auto simp: F'_def)
    show "\<forall>L \<in> own_lists k. F' L \<noteq> None" using S(3) by (simp add: F'_def)
    show "\<forall>y \<in> set (lst F' ?D) \<union> set (lst F' ?O). sleeper_ok k' F' y" using sl by blast
    show "sorted (map (val k) (lst F' ?D))" "sorted (map (val k) (lst F' ?O))" using SC so by blast+
    show "\<forall>p<8. lst F' (ready_list p k) \<noteq> [] \<longrightarrow> p \<le> uxTopReadyPriority k"
    proof (intro allI impI)
      fix p :: u32 assume p: "p < 8" "lst F' (ready_list p k) \<noteq> []"
      then obtain y where "y \<in> set (lst F' (ready_list p k))" by (meson last_in_set)
      then have "lst F (ready_list p k) \<noteq> []" using mem by auto
      then show "p \<le> uxTopReadyPriority k" using SC p(1) by blast
    qed
  qed (use SC in simp_all)
  then show "sched_ok k' F'" using del mem by (simp add: sched_ok_def kframeD [OF fr] top)
qed

lemma kinv_where:
  assumes inv: "kinv k F T W" and t: "W t = Some pl"
  obtains L where "F L = Some (lst F L)" "st t \<in> set (lst F L)" "L \<in> own_lists k \<union> {xSuspendedTaskList k}"
    "pl = Rdy \<Longrightarrow> L = ready_list (prio k t) k" "pl = Ssp \<Longrightarrow> L = xSuspendedTaskList k"
    "\<And>n. pl = Slp n \<Longrightarrow> L = pxDelayedTaskList k \<or> L = pxOverflowDelayedTaskList k"
proof -
  note K = kinvD [OF inv] and P = placedD [OF kinvD(6) [OF inv]] and Q = lists_placedD [OF kinvD(4) [OF inv]]
  have p8: "prio k t < 8" using task_okD(3) [OF K(7) [OF K(9) [OF t]]] .
  show ?thesis
  proof (cases pl)
    case Rdy
    then show ?thesis using that [of "ready_list (prio k t) k"] P(1) [OF p8, of t] t p8 Q(1) [of "ready_list (prio k t) k"] by simp
  next
    case (Slp n)
    then have "sleeping k F (st t) = Some n" using P(3) t by simp
    then have "st t \<in> set (lst F (pxDelayedTaskList k)) \<or> st t \<in> set (lst F (pxOverflowDelayedTaskList k))" by (auto simp: sleeping_def split: if_splits)
    then show ?thesis using that [of "pxDelayedTaskList k"] that [of "pxOverflowDelayedTaskList k"] Slp Q(1) by auto
  next
    case Ssp
    then show ?thesis using that [of "xSuspendedTaskList k"] P(2) t Q(1) [of "xSuspendedTaskList k"] Q(4) by simp
  qed
qed

lemma sleepers_tasks:
  assumes inv: "kinv k F T W" and x: "x \<in> set (lst F (pxDelayedTaskList k)) \<union> set (lst F (pxOverflowDelayedTaskList k))"
  obtains t n where "x = st t" "t \<in> T" "W t = Some (Slp n)"
proof -
  obtain t where t: "x = st t" by (rule st_surj)
  have "sleeping k F x \<noteq> None" using x by (auto simp: sleeping_def)
  then have "slp (W t) \<noteq> None" using placedD(3) [OF kinvD(6) [OF inv]] t by simp
  then obtain n where n: "W t = Some (Slp n)" by (cases "W t" rule: slp.cases) auto
  then show ?thesis using that t kinvD(9) [OF inv] by blast
qed

lemma sleepers_no_event:
  assumes inv: "kinv k F T W" and x: "x \<in> set (lst F (pxDelayedTaskList k)) \<union> set (lst F (pxOverflowDelayedTaskList k))"
  shows "cont k (ev (owner k x)) = NULL"
proof -
  obtain t n where "x = st t" "t \<in> T" by (rule sleepers_tasks [OF assms])
  then show ?thesis using task_okD(2,4) [OF kinvD(7) [OF inv]] by simp
qed

text \<open>The members of the lists are list ends and the items of placed tasks.\<close>

lemma items_placed:
  assumes pl: "lists_placed k F" and p: "placed k F W" and x: "x \<in> items F"
  shows "(\<exists>L \<in> dom F. x = xListEnd L) \<or> (\<exists>u \<in> dom W. x = st u)"
proof -
  obtain L ys where L: "F L = Some ys" "x \<in> set (xListEnd L # ys)" using x by (auto simp: items_def ring_def split: option.splits)
  note Q = lists_placedD [OF pl] and P = placedD [OF p]
  obtain u where u: "x = st u" by (rule st_surj)
  show ?thesis
  proof (cases "x = xListEnd L")
    case False
    then have xy: "st u \<in> set (lst F L)" using L u by (simp add: lst_def)
    have "L \<noteq> xPendingReadyList k" "L \<noteq> xTasksWaitingTermination k" using Q(10,11) xy by (auto simp: lst_def)
    then consider q where "q < 8" "L = ready_list q k" | "L = pxDelayedTaskList k" | "L = pxOverflowDelayedTaskList k" | "L = xSuspendedTaskList k"
      using Q(2) [OF L(1)] by (auto simp: own_lists_def side_lists_def)
    then have "W u \<noteq> None"
    proof cases
      case 1
      then show ?thesis using P(1) [of q u] xy by simp
    next
      case 4
      then show ?thesis using P(2) [of u] xy by simp
    qed (use P(3) [of u] xy in \<open>cases "W u"; auto simp: sleeping_def split: if_splits\<close>)+
    then show ?thesis using u by auto
  qed (use L in auto)
qed

lemma ends_apart:
  assumes inv: "kinv k F T W" and u: "u \<in> T" and L: "L \<in> dom F"
  shows "st u \<noteq> xListEnd L" "ev u \<noteq> xListEnd L"
proof -
  note K = kinvD [OF inv]
  obtain ys where ys: "F L = Some ys" using L by auto
  have e: "xListEnd L \<in> items F" by (rule itemsI [of F L, OF ys]) simp
  show "ev u \<noteq> xListEnd L" using e task_okD(5) [OF K(7) [OF u]] by auto
  show "st u \<noteq> xListEnd L"
  proof (cases "W u")
    case None
    then show ?thesis using e K(8) [OF u] by auto
  next
    case (Some w)
    obtain M where M: "F M = Some (lst F M)" "st u \<in> set (lst F M)" by (rule kinv_where [OF inv Some])
    show ?thesis
    proof (cases "M = L")
      case True
      then show ?thesis using lists_okD [of k F M "lst F M"] K(3) M by (auto simp: list_at_def Let_def)
    next
      case False
      then show ?thesis using lists_ok_apart [of k F M "lst F M" L ys] K(3) M ys by auto
    qed
  qed
qed

lemma kinv_rebuild:
  assumes inv: "kinv k F T W" and ok: "sched_ok k' F'" and pl: "lists_placed k' F'" and d: "dom F' = dom F"
    and W': "dom W' \<subseteq> T" "placed k' F' W'"
    and tk: "\<And>u. u \<in> T \<Longrightarrow> owner k' (st u) = u \<and> prio k' u < 8 \<and> cont k' (ev u) = NULL"
  shows "kinv k' F' T W'"
proof -
  note K = kinvD [OF inv]
  have "ev u \<notin> items F'" if "u \<in> T" for u
    using items_placed [OF pl W'(2), of "ev u"] ends_apart [OF inv that] K(10) that W'(1) unfolding d by force
  moreover have "st u \<notin> items F'" if "u \<in> T - dom W'" for u
    using items_placed [OF pl W'(2), of "st u"] ends_apart [OF inv, of u] that W'(1) unfolding d by (auto simp: state_item_inj)
  ultimately show ?thesis using ok pl W' tk K(10) task_okD(1) [OF K(7)] by (simp add: kinv_def task_ok_def)
qed

lemma take_out:
  fixes k :: "'a kernel_scheme"
  assumes inv: "kinv k F T W" and t: "W t = Some pl"
  defines "k' \<equiv> fst (uxListRemove (st t) k)"
  obtains F' where "kinv k' F' T (W(t := None))" "kframe k k'" "uxTopReadyPriority k' = uxTopReadyPriority k" "xNextTaskUnblockTime k' = xNextTaskUnblockTime k"
    "\<And>y. cont k' y = (if y = st t then NULL else cont k y)"
proof -
  note K = kinvD [OF inv] and P = placedD [OF kinvD(6) [OF inv]] and Q = lists_placedD [OF kinvD(4) [OF inv]]
  obtain L where L: "F L = Some (lst F L)" "st t \<in> set (lst F L)" "L \<in> own_lists k \<union> {xSuspendedTaskList k}" by (rule kinv_where [OF inv t])
  define G where "G = F(L \<mapsto> remove1 (st t) (lst F L))"
  have ev: "\<forall>y \<in> set (lst F (pxDelayedTaskList k)) \<union> set (lst F (pxOverflowDelayedTaskList k)). cont k (ev (owner k y)) = NULL"
    using sleepers_no_event [OF inv] by blast
  note r = remove_core [OF K(1) L(1,2) ev, folded k'_def G_def]
  note fr = kframeD [OF r(2)] and fr2 = kframe_ready [OF r(2)]
  have side: "side_lists k' = side_lists k" by (simp add: side_lists_def fr)
  have Lp: "L \<noteq> xPendingReadyList k" "L \<noteq> xTasksWaitingTermination k" using L(3) Q(3-9) by auto
  have "kinv k' G T (W(t := None))"
  proof (rule kinv_rebuild [OF inv r(1)])
    show "lists_placed k' G" using K(4) L(1) Lp unfolding lists_placed_def fr fr2 side by (auto simp: G_def)
    show "dom G = dom F" using L(1) by (auto simp: G_def)
    show "dom (W(t := None)) \<subseteq> T" using K(5) by auto
    show "placed k' G (W(t := None))" unfolding placed_def fr fr2 using P by (auto simp: r(5,6) state_item_inj)
    show "owner k' (st u) = u \<and> prio k' u < 8 \<and> cont k' (ev u) = NULL" if "u \<in> T" for u
      using task_okD [OF K(7) [OF that]] by (simp add: fr r(4))
  qed
  then show ?thesis using that r(2,4,7,8) by blast
qed

section \<open>Putting a task on a list\<close>

lemma lists_placed_grow:
  assumes "lists_placed k F" "kframe k k'" "F L = Some xs" "L \<noteq> xPendingReadyList k" "L \<noteq> xTasksWaitingTermination k"
  shows "lists_placed k' (F(L \<mapsto> ys))"
proof -
  note fr = kframeD [OF assms(2)] and fr2 = kframe_ready [OF assms(2)]
  have "side_lists k' = side_lists k" by (simp add: side_lists_def fr)
  then show ?thesis using assms unfolding lists_placed_def fr fr2 by auto
qed

lemma kinv_grow:
  fixes k :: "'a kernel_scheme"
  assumes inv: "kinv k F T W" and t: "t \<in> T"
    and L: "F L = Some xs" "L \<noteq> xPendingReadyList k" "L \<noteq> xTasksWaitingTermination k"
    and ok: "sched_ok k' (F(L \<mapsto> ys))" and fr: "kframe k k'" and c: "\<And>y. y \<noteq> st t \<Longrightarrow> cont k' y = cont k y"
    and W': "placed k' (F(L \<mapsto> ys)) (W(t \<mapsto> pl))"
  shows "kinv k' (F(L \<mapsto> ys)) T (W(t \<mapsto> pl))"
proof (rule kinv_rebuild [OF inv ok])
  note K = kinvD [OF inv]
  show "lists_placed k' (F(L \<mapsto> ys))" by (rule lists_placed_grow [OF K(4) fr L])
  show "dom (F(L \<mapsto> ys)) = dom F" using L(1) by auto
  show "dom (W(t \<mapsto> pl)) \<subseteq> T" using K(5) t by auto
  show "placed k' (F(L \<mapsto> ys)) (W(t \<mapsto> pl))" by (fact W')
  show "owner k' (st u) = u \<and> prio k' u < 8 \<and> cont k' (ev u) = NULL" if "u \<in> T" for u
    using task_okD [OF K(7) [OF that]] c [of "ev u"] K(10) [OF t that] by (simp add: kframeD [OF fr])
qed

lemma grow_core:
  fixes k :: "'a kernel_scheme"
  assumes inv: "kinv k F T W" and t: "t \<in> T" "W t = None"
    and L: "F L = Some xs" "set ys = insert (st t) (set xs)" "L \<noteq> pxDelayedTaskList k" "L \<noteq> pxOverflowDelayedTaskList k"
    and ok: "lists_ok k' (F(L \<mapsto> ys))" and fr: "kframe k k'" and c: "\<And>y. y \<noteq> st t \<Longrightarrow> cont k' y = cont k y"
    and nx: "xNextTaskUnblockTime k' = xNextTaskUnblockTime k"
    and top: "uxTopReadyPriority k \<le> uxTopReadyPriority k'" "uxTopReadyPriority k' < 8" "\<And>p. p < 8 \<Longrightarrow> L = ready_list p k \<Longrightarrow> p \<le> uxTopReadyPriority k'"
  shows "sched_ok k' (F(L \<mapsto> ys))" "sleeping k' (F(L \<mapsto> ys)) = sleeping k F"
proof -
  note K = kinvD [OF inv] and fr1 = kframeD [OF fr] and fr2 = kframe_ready [OF fr] and S = sched_coreD [OF kinvD(2) [OF inv]]
  note SC = K(2) [unfolded sched_core_def]
  define G where "G = F(L \<mapsto> ys)"
  have DO: "lst G (pxDelayedTaskList k) = lst F (pxDelayedTaskList k)" "lst G (pxOverflowDelayedTaskList k) = lst F (pxOverflowDelayedTaskList k)"
    using L(3,4) by (auto simp: G_def)
  have sl: "sleeper_ok k' G y" if y: "y \<in> set (lst F (pxDelayedTaskList k)) \<union> set (lst F (pxOverflowDelayedTaskList k))" for y
  proof -
    obtain u n where u: "y = st u" "u \<in> T" by (rule sleepers_tasks [OF inv y])
    have "cont k' (ev u) = NULL" using task_okD(4) [OF K(7) [OF u(2)]] c [of "ev u"] K(10) [OF t(1) u(2)] by simp
    then show ?thesis using task_okD [OF K(7) [OF u(2)]] u by (simp add: sleeper_ok_def Let_def fr1)
  qed
  have "sched_core k' G" unfolding sched_core_def fr1(6,7,12) fr2 DO
  proof (intro conjI)
    show "lists_ok k' G" using ok by (simp add: G_def)
    show "G NULL = None" using S(2) L(1) by (auto simp: G_def)
    show "\<forall>L \<in> own_lists k. G L \<noteq> None" using S(3) by (simp add: G_def)
    show "\<forall>y \<in> set (lst F (pxDelayedTaskList k)) \<union> set (lst F (pxOverflowDelayedTaskList k)). sleeper_ok k' G y" using sl by blast
    show "\<forall>p<8. lst G (ready_list p k) \<noteq> [] \<longrightarrow> p \<le> uxTopReadyPriority k'"
    proof (intro allI impI)
      fix p :: u32 assume p: "p < 8" "lst G (ready_list p k) \<noteq> []"
      show "p \<le> uxTopReadyPriority k'"
      proof (cases "ready_list p k = L")
        case False
        then have "lst F (ready_list p k) \<noteq> []" using p(2) by (simp add: G_def)
        then have "p \<le> uxTopReadyPriority k" using SC p(1) by blast
        then show ?thesis using top(1) by (rule order_trans)
      qed (use top(3) p(1) in simp)
    qed
  qed (use SC top(2) in simp_all)
  then show "sched_ok k' (F(L \<mapsto> ys))" using K(1) DO unfolding G_def [symmetric] sched_ok_def fr1 nx by simp
  show "sleeping k' (F(L \<mapsto> ys)) = sleeping k F" unfolding G_def [symmetric] by (rule ext) (simp add: sleeping_def DO fr1)
qed

lemma put_ready:
  fixes k :: "'a kernel_scheme"
  assumes inv: "kinv k F T W" and t: "t \<in> T" "W t = None"
  defines "k' \<equiv> prvAddTaskToReadyList t k"
  obtains F' where "kinv k' F' T (W(t \<mapsto> Rdy))" "kframe k k'"
proof -
  note K = kinvD [OF inv] and P = placedD [OF kinvD(6) [OF inv]] and Q = lists_placedD [OF kinvD(4) [OF inv]]
  note SC = K(2) [unfolded sched_core_def]
  let ?p = "prio k t" and ?x = "st t"
  have p8: "?p < 8" using task_okD(3) [OF K(7) [OF t(1)]] .
  let ?R = "ready_list ?p k"
  have Ro: "?R \<in> own_lists k" using p8 by simp
  have FR: "F ?R = Some (lst F ?R)" using Q(1) Ro by blast
  have nd: "?R \<noteq> pxDelayedTaskList k" "?R \<noteq> pxOverflowDelayedTaskList k" using SC p8 by metis+
  have ns: "?R \<notin> side_lists k" using Q(3) Ro by blast
  let ?ys = "insert_before (pxIndex (l_list k ?R)) ?x (lst F ?R)"
  note a = add_ready [of k F ?p t, OF K(3) refl FR K(8) [OF t], folded k'_def]
  have g: "sched_ok k' (F(?R \<mapsto> ?ys))" "sleeping k' (F(?R \<mapsto> ?ys)) = sleeping k F"
  proof (atomize (full), intro conjI)
    have T: "uxTopReadyPriority k < 8" using SC by simp
    have le: "uxTopReadyPriority k \<le> uxTopReadyPriority k'" "uxTopReadyPriority k' < 8" "q < 8 \<Longrightarrow> ?R = ready_list q k \<Longrightarrow> q \<le> uxTopReadyPriority k'" for q
      using T p8 ready_list_inj [OF p8, of q k] by (auto simp: a(3) max_def)
    note gc = grow_core [OF inv t FR, of ?ys k', OF _ nd a(1) a(2) _ a(4) le]
    show "sched_ok k' (F(?R \<mapsto> ?ys))" by (rule gc(1)) (simp_all add: a(5))
    show "sleeping k' (F(?R \<mapsto> ?ys)) = sleeping k F" by (rule gc(2)) (simp_all add: a(5))
  qed
  have "placed k' (F(?R \<mapsto> ?ys)) (W(t \<mapsto> Rdy))"
    unfolding placed_def kframeD [OF a(2)] kframe_ready [OF a(2)] g(2)
  proof (intro conjI allI impI)
    fix u and p :: u32 assume p: "p < 8"
    show "st u \<in> set (lst (F(?R \<mapsto> ?ys)) (ready_list p k)) \<longleftrightarrow> (W(t \<mapsto> Rdy)) u = Some Rdy \<and> prio k u = p"
      using P(1) [OF p, of u] P(1) [OF p8, of u] t(2) ready_list_inj [OF p p8, of k] by (auto simp: state_item_inj)
  next
    fix u
    have "xSuspendedTaskList k \<noteq> ?R" using ns Q(4) by auto
    then show "st u \<in> set (lst (F(?R \<mapsto> ?ys)) (xSuspendedTaskList k)) \<longleftrightarrow> (W(t \<mapsto> Rdy)) u = Some Ssp"
      using P(2) [of u] t(2) by simp
    show "sleeping k F (st u) = slp ((W(t \<mapsto> Rdy)) u)" using P(3) [of u] t(2) by simp
  qed
  moreover have "?R \<noteq> xPendingReadyList k" "?R \<noteq> xTasksWaitingTermination k" using ns Q(5,6) by metis+
  ultimately have "kinv k' (F(?R \<mapsto> ?ys)) T (W(t \<mapsto> Rdy))"
    using g(1) a(2) by (intro kinv_grow [OF inv t(1) FR, of k' ?ys]) (simp_all add: a(5))
  then show ?thesis using that a(2) by blast
qed

lemma insert_end_frame:
  fixes k :: "'a kernel_scheme"
  assumes at: "list_at k L xs" and n: "x \<notin> set (xListEnd L # xs)"
  defines "k' \<equiv> vListInsertEnd L x k"
  shows "kframe k k'" "cont k' y = (if y = x then L else cont k y)" "uxTopReadyPriority k' = uxTopReadyPriority k"
    "xNextTaskUnblockTime k' = xNextTaskUnblockTime k"
proof -
  let ?q = "pxIndex (l_list k L)"
  have q: "?q \<in> set (xListEnd L # xs)" using at by (simp add: list_at_def Let_def)
  have ne: "x \<noteq> ?q" "x \<noteq> pxPrevious (l_item k ?q)" using n q prev_in_ring [OF at q] by auto
  note f = vListInsertEnd_fields [OF refl refl ne, folded k'_def]
  have "k' = k\<lparr>l_item := l_item k', l_list := l_list k', uxTopReadyPriority := uxTopReadyPriority k', xNextTaskUnblockTime := xNextTaskUnblockTime k'\<rparr>"
    unfolding k'_def by (simp add: vListInsertEnd_def heap_upd)
  then show "kframe k k'" by (simp add: kframe_def f)
  show "cont k' y = (if y = x then L else cont k y)" by (simp add: f)
  show "uxTopReadyPriority k' = uxTopReadyPriority k" "xNextTaskUnblockTime k' = xNextTaskUnblockTime k"
    unfolding k'_def by (simp_all add: vListInsertEnd_def heap_upd)
qed

lemma put_suspended:
  fixes k :: "'a kernel_scheme"
  assumes inv: "kinv k F T W" and t: "t \<in> T" "W t = None"
  defines "k' \<equiv> vListInsertEnd (xSuspendedTaskList k) (st t) k"
  obtains F' where "kinv k' F' T (W(t \<mapsto> Ssp))" "kframe k k'"
proof -
  note K = kinvD [OF inv] and P = placedD [OF kinvD(6) [OF inv]] and Q = lists_placedD [OF kinvD(4) [OF inv]]
  note SC = K(2) [unfolded sched_core_def]
  let ?S = "xSuspendedTaskList k" and ?x = "st t"
  have So: "?S \<notin> own_lists k" using Q(3,4) by blast
  have FS: "F ?S = Some (lst F ?S)" using Q(1,4) by blast
  have n: "?x \<notin> items F" using K(8) [OF t] .
  have n': "?x \<notin> set (xListEnd ?S # lst F ?S)" using n itemsI [of F ?S "lst F ?S" ?x] FS by blast
  let ?ys = "insert_before (pxIndex (l_list k ?S)) ?x (lst F ?S)"
  note a = insert_end_frame [OF lists_okD [of k F, OF K(3) FS] n', folded k'_def]
  have l: "lists_ok k' (F(?S \<mapsto> ?ys))" unfolding k'_def by (rule lists_insert_end [of k F, OF K(3) FS n])
  have nd: "?S \<noteq> pxDelayedTaskList k" "?S \<noteq> pxOverflowDelayedTaskList k" "q < 8 \<Longrightarrow> ?S = ready_list q k \<Longrightarrow> q \<le> uxTopReadyPriority k'" for q
    using So by (auto simp: own_lists_def)
  have top: "uxTopReadyPriority k \<le> uxTopReadyPriority k'" "uxTopReadyPriority k' < 8" using SC by (simp_all add: a(3))
  note gc = grow_core [OF inv t FS, of ?ys k', OF _ nd(1,2) l a(1) _ a(4) top nd(3)]
  have g: "sched_ok k' (F(?S \<mapsto> ?ys))" by (rule gc(1)) (simp_all add: a(2))
  have g2: "sleeping k' (F(?S \<mapsto> ?ys)) = sleeping k F" by (rule gc(2)) (simp_all add: a(2))
  have "placed k' (F(?S \<mapsto> ?ys)) (W(t \<mapsto> Ssp))"
    unfolding placed_def kframeD [OF a(1)] kframe_ready [OF a(1)] g2
  proof (intro conjI allI impI)
    fix u and p :: u32 assume p: "p < 8"
    have "ready_list p k \<noteq> ?S" using So in_own(3) [OF p, of k] by metis
    then show "st u \<in> set (lst (F(?S \<mapsto> ?ys)) (ready_list p k)) \<longleftrightarrow> (W(t \<mapsto> Ssp)) u = Some Rdy \<and> prio k u = p"
      using P(1) [OF p, of u] t(2) by auto
  next
    fix u
    show "st u \<in> set (lst (F(?S \<mapsto> ?ys)) ?S) \<longleftrightarrow> (W(t \<mapsto> Ssp)) u = Some Ssp" using P(2) [of u] by (simp add: state_item_inj)
    show "sleeping k F (st u) = slp ((W(t \<mapsto> Ssp)) u)" using P(3) [of u] t(2) by simp
  qed
  then have "kinv k' (F(?S \<mapsto> ?ys)) T (W(t \<mapsto> Ssp))"
    using g a(1) Q(7,8) by (intro kinv_grow [OF inv t(1) FS, of k' ?ys]) (simp_all add: a(2))
  then show ?thesis using that a(1) by blast
qed

section \<open>Changes that move nothing\<close>

lemma kinv_next:
  assumes inv: "kinv k F T W" and le: "\<And>x. x \<in> set (lst F (pxDelayedTaskList k)) \<Longrightarrow> v \<le> val k x"
  shows "kinv (k\<lparr>xNextTaskUnblockTime := v\<rparr>) F T W"
proof -
  let ?k = "k\<lparr>xNextTaskUnblockTime := v\<rparr>"
  have s: "sleeping ?k F x = sleeping k F x" "side_lists ?k = side_lists k" for x by (simp_all add: sleeping_def side_lists_def)
  have "sched_ok ?k F" using kinvD(1) [OF inv] le by (simp add: sched_ok_def sched_core_next)
  then show ?thesis using inv unfolding kinv_def lists_placed_def task_ok_def placed_def by (simp add: s)
qed

lemma reset_next:
  assumes inv: "kinv k F T W"
  shows "kinv (prvResetNextTaskUnblockTime k) F T W" "kframe k (prvResetNextTaskUnblockTime k)"
proof -
  let ?D = "pxDelayedTaskList k"
  note S = sched_coreD [OF kinvD(2) [OF inv]]
  have FD: "F ?D = Some (lst F ?D)" by (rule S(3)) simp
  have so: "sorted (map (val k) (lst F ?D))" using kinvD(2) [OF inv] by (simp add: sched_core_def)
  have "prvResetNextTaskUnblockTime k = k\<lparr>xNextTaskUnblockTime := first_wake k (lst F ?D)\<rparr>"
  proof (cases "lst F ?D")
    case Nil
    then have "listLIST_IS_EMPTY ?D k" using FD by (intro list_empty [OF S(1)]) simp
    then show ?thesis using Nil by (simp add: prvResetNextTaskUnblockTime_def first_wake_def)
  next
    case (Cons x xs)
    then have "F ?D = Some (x # xs)" using FD by simp
    then show ?thesis using Cons list_head [of k F ?D x xs, OF S(1)] by (simp add: prvResetNextTaskUnblockTime_def first_wake_def)
  qed
  then show "kinv (prvResetNextTaskUnblockTime k) F T W" "kframe k (prvResetNextTaskUnblockTime k)"
    using kinv_next [OF inv, of "first_wake k (lst F ?D)"] first_wake_le [OF so] by (simp_all add: kframe_next)
qed

lemma kinv_set_priority:
  assumes inv: "kinv k F T W" and t: "W t \<noteq> Some Rdy" and p: "p < 8"
  shows "kinv (set_priority t p k) F T W"
proof -
  let ?k = "set_priority t p k"
  have e: "l_item ?k = l_item k" "l_list ?k = l_list k" "pxReadyTasksLists ?k = pxReadyTasksLists k" "pxDelayedTaskList ?k = pxDelayedTaskList k"
    "pxOverflowDelayedTaskList ?k = pxOverflowDelayedTaskList k" "xPendingReadyList ?k = xPendingReadyList k" "xSuspendedTaskList ?k = xSuspendedTaskList k"
    "xTasksWaitingTermination ?k = xTasksWaitingTermination k" "xTickCount ?k = xTickCount k" "uxTopReadyPriority ?k = uxTopReadyPriority k"
    "xNextTaskUnblockTime ?k = xNextTaskUnblockTime k" and pr: "prio ?k u = (if u = t then p else prio k u)" for u
    by (simp_all add: set_priority_def upd_tcb_def)
  have r: "ready_list q ?k = ready_list q k" for q by (simp add: ready_list_def e)
  have o: "own_lists ?k = own_lists k" "side_lists ?k = side_lists k" by (simp_all add: own_lists_def side_lists_def e r)
  have s: "sleeping ?k F x = sleeping k F x" for x by (simp add: sleeping_def e)
  have sl: "sleeper_ok ?k F x" if "sleeper_ok k F x" for x using that p by (simp add: sleeper_ok_def Let_def e o pr)
  have "sched_core ?k F" using kinvD(2) [OF inv] sl unfolding sched_core_def lists_ok_heap [of ?k k, OF e(1,2)] o r e by simp
  then have "sched_ok ?k F" using kinvD(1) [OF inv] by (simp add: sched_ok_def e)
  moreover have "task_ok ?k F u" if "u \<in> T" for u using task_okD [OF kinvD(7) [OF inv that]] p by (simp add: task_ok_def e pr)
  moreover have "placed ?k F W" using kinvD(6) [OF inv] t unfolding placed_def s r e pr by auto
  ultimately show ?thesis using inv unfolding kinv_def lists_placed_def o e by simp
qed

lemma kinv_event_value:
  assumes inv: "kinv k F T W" and t: "t \<in> T"
  shows "kinv (set_event_value t p k) F T W"
proof -
  let ?k = "set_event_value t p k"
  have nt: "ev t \<notin> items F" using task_okD(5) [OF kinvD(7) [OF inv t]] .
  have e: "l_list ?k = l_list k" "pxReadyTasksLists ?k = pxReadyTasksLists k" "pxDelayedTaskList ?k = pxDelayedTaskList k"
    "pxOverflowDelayedTaskList ?k = pxOverflowDelayedTaskList k" "xPendingReadyList ?k = xPendingReadyList k" "xSuspendedTaskList ?k = xSuspendedTaskList k"
    "xTasksWaitingTermination ?k = xTasksWaitingTermination k" "xTickCount ?k = xTickCount k" "uxTopReadyPriority ?k = uxTopReadyPriority k"
    "xNextTaskUnblockTime ?k = xNextTaskUnblockTime k" "tcb ?k = tcb k" and
    i: "owner ?k x = owner k x" "cont ?k x = cont k x" "x \<noteq> ev t \<Longrightarrow> l_item ?k x = l_item k x" for x
    by (simp_all add: set_event_value_def upd_item_def)
  have r: "ready_list q ?k = ready_list q k" for q by (simp add: ready_list_def e)
  have o: "own_lists ?k = own_lists k" "side_lists ?k = side_lists k" by (simp_all add: own_lists_def side_lists_def e r)
  have it: "l_item ?k x = l_item k x" if "x \<in> items F" for x using i(3) that nt by metis
  have "list_at ?k L xs" if L: "F L = Some xs" for L xs
  proof -
    have "\<And>x. x \<in> set (xListEnd L # xs) \<Longrightarrow> l_item ?k x = l_item k x" using it itemsI [of F L xs] L by blast
    then have "list_at ?k L xs = list_at k L xs" by (intro list_at_cong) (simp_all add: e)
    then show ?thesis using lists_okD [of k F L xs] kinvD(3) [OF inv] L by simp
  qed
  then have l: "lists_ok ?k F" using kinvD(3) [OF inv] by (simp add: lists_ok_def)
  have mem: "x \<in> items F" if "x \<in> set (lst F L)" for x L using that itemsI [of F L "lst F L" x] by (cases "F L") (auto simp: lst_def)
  have vs: "map (val ?k) (lst F L) = map (val k) (lst F L)" for L using it mem by simp
  have v: "x \<in> set (lst F L) \<Longrightarrow> val ?k x = val k x" for x L using it mem by simp
  have s: "sleeping ?k F x = sleeping k F x" for x using v by (simp add: sleeping_def e)
  have sl: "sleeper_ok ?k F x = sleeper_ok k F x" for x by (simp add: sleeper_ok_def Let_def e o i)
  have "sched_core ?k F" using kinvD(2) [OF inv] l unfolding sched_core_def o r e vs sl by simp
  then have "sched_ok ?k F" using kinvD(1) [OF inv] v by (simp add: sched_ok_def e)
  moreover have "task_ok ?k F u = task_ok k F u" for u by (simp add: task_ok_def e i)
  moreover have "placed ?k F W = placed k F W" unfolding placed_def s r e ..
  ultimately show ?thesis using inv unfolding kinv_def lists_placed_def o e by simp
qed

section \<open>The operations on the places\<close>

fun tick_place :: "place option \<Rightarrow> place option" where
  "tick_place (Some (Slp n)) = (if n \<le> 1 then Some Rdy else Some (Slp (n - 1)))"
| "tick_place (Some Rdy) = Some Rdy"
| "tick_place (Some Ssp) = Some Ssp"
| "tick_place None = None"

lemma slp_tick: "slp (tick_place w) = abs_tick (\<lambda>_. slp w) t"
  by (cases w rule: tick_place.cases) (auto simp: abs_tick_def)

lemma sleeping_pos: "sched_ok k F \<Longrightarrow> sleeping k F x = Some n \<Longrightarrow> 0 < n"
proof -
  assume ok: "sched_ok k F" and n: "sleeping k F x = Some n"
  show "0 < n"
  proof (cases "x \<in> set (lst F (pxDelayedTaskList k))")
    case True
    then have "xTickCount k < val k x" using ok by (simp add: sched_ok_def)
    then show ?thesis using True n by (auto simp: sleeping_def word_less_nat_alt)
  next
    case False
    then have "n = unat (val k x) + 2 ^ 32 - unat (xTickCount k)" using n by (auto simp: sleeping_def split: if_splits)
    then show ?thesis using unat_u32_less [of "xTickCount k"] by simp
  qed
qed

lemma kinv_tick:
  assumes inv: "kinv k F T W" and run: "uxSchedulerSuspended k = 0"
  obtains k' F' sw where "xTaskIncrementTick k = Inr (k', sw)" "kinv k' F' T (tick_place \<circ> W)" "tick_frame k k'"
    "\<And>t. W t = Some (Slp 1) \<Longrightarrow> cur_prio k \<le> prio k t \<Longrightarrow> sw"
proof -
  note K = kinvD [OF inv] and P = placedD [OF kinvD(6) [OF inv]] and Q = lists_placedD [OF kinvD(4) [OF inv]]
  obtain k' F' sw ds where t: "xTaskIncrementTick k = Inr (k', sw)" "sched_ok k' F'" "tick_frame k k'" "sleeping k' F' = abs_tick (sleeping k F)"
    "\<forall>p < 8. set (lst F' (ready_list p k')) = set (lst F (ready_list p k)) \<union> {x. sleeping k F x = Some 1 \<and> prio_of k x = p}"
    "(\<exists>x. sleeping k F x = Some 1 \<and> cur_prio k \<le> prio_of k x) \<longrightarrow> sw"
    "set ds \<subseteq> {x. sleeping k F x \<noteq> None}" "untouched ds k F k' F'"
    using tick_step [OF K(1) run] by blast
  have fr: "tcb k' = tcb k" "xPendingReadyList k' = xPendingReadyList k" "xSuspendedTaskList k' = xSuspendedTaskList k"
    "xTasksWaitingTermination k' = xTasksWaitingTermination k" "own_lists k' = own_lists k" "owner k' x = owner k x" for x
    using t(3) by (simp_all add: tick_frame_def)
  have rl: "ready_list p k' = ready_list p k" for p using t(3) by (simp add: tick_frame_def ready_list_def)
  have side: "side_lists k' = side_lists k" by (simp add: side_lists_def fr)
  have sleep_task: "\<exists>u n. x = st u \<and> u \<in> T \<and> W u = Some (Slp n)" if "sleeping k F x \<noteq> None" for x
  proof -
    have "x \<in> set (lst F (pxDelayedTaskList k)) \<union> set (lst F (pxOverflowDelayedTaskList k))" using that by (auto simp: sleeping_def split: if_splits)
    then obtain u n where "x = st u" "u \<in> T" "W u = Some (Slp n)" by (rule sleepers_tasks [OF inv])
    then show ?thesis by blast
  qed
  have evn: "cont k (ev (owner k x)) = NULL" if "x \<in> set ds" for x
    using that t(7) sleepers_no_event [OF inv, of x] by (auto simp: sleeping_def split: if_splits)
  have same: "F' L = F L" if "L \<in> side_lists k" for L
  proof -
    have "L \<notin> own_lists k" using Q(3) that by blast
    moreover have "L \<noteq> NULL" using Q(1) [of L] that K(2) by (auto simp: sched_core_def)
    ultimately show ?thesis using t(8) evn by (simp add: untouched_def)
  qed
  have domF: "dom F' = dom F"
  proof (rule set_eqI)
    fix L
    have d: "dom F = own_lists k \<union> side_lists k" using K(4) by (simp add: lists_placed_def)
    show "L \<in> dom F' \<longleftrightarrow> L \<in> dom F"
    proof (cases "L \<in> own_lists k")
      case True
      then show ?thesis using sched_coreD(3) [of k' F' L] t(2) unfolding d fr by (auto simp: sched_ok_def)
    next
      case False
      show ?thesis
      proof (cases "L = NULL")
        case True
        then show ?thesis using t(2) K(2) by (auto simp: sched_ok_def sched_core_def)
      next
        case nz: False
        then have "F' L = F L" using t(8) evn False by (simp add: untouched_def)
        then show ?thesis by (simp add: dom_def)
      qed
    qed
  qed
  have evk: "cont k' (ev u) = NULL" if "u \<in> T" for u
  proof -
    have "ev u \<notin> set ds" using t(7) sleep_task K(10) [OF _ that] by fastforce
    then show ?thesis using t(8) task_okD(4) [OF K(7) [OF that]] by (auto simp: untouched_def)
  qed
  have dW: "dom (tick_place \<circ> W) = dom W"
  proof -
    have "tick_place w = None \<longleftrightarrow> w = None" for w by (cases w rule: tick_place.cases) auto
    then show ?thesis by (auto simp: dom_def)
  qed
  have pl: "placed k' F' (tick_place \<circ> W)"
    unfolding placed_def fr rl
  proof (intro conjI allI impI)
    fix u and p :: u32 assume p: "p < 8"
    have own: "owner k (st u) = u" if "W u = Some w" for w using task_okD(2) [OF K(7) [OF K(9) [OF that]]] .
    have "st u \<in> set (lst F' (ready_list p k)) \<longleftrightarrow> (W u = Some Rdy \<and> prio k u = p) \<or> (slp (W u) = Some 1 \<and> prio_of k (st u) = p)"
      using t(5) p P(1) [OF p, of u] P(3) [of u] unfolding rl by auto
    also have "\<dots> \<longleftrightarrow> (tick_place \<circ> W) u = Some Rdy \<and> prio k u = p"
    proof (cases "W u")
      case (Some w)
      have "0 < n" if "w = Slp n" for n using sleeping_pos [OF K(1), of "st u" n] P(3) [of u] Some that by simp
      then show ?thesis using own [OF Some] Some by (cases w) auto
    qed simp
    finally show "st u \<in> set (lst F' (ready_list p k)) \<longleftrightarrow> (tick_place \<circ> W) u = Some Rdy \<and> prio k u = p" .
  next
    fix u
    have "lst F' (xSuspendedTaskList k) = lst F (xSuspendedTaskList k)" using same Q(4) by (simp add: lst_def)
    then show "st u \<in> set (lst F' (xSuspendedTaskList k)) \<longleftrightarrow> (tick_place \<circ> W) u = Some Ssp"
      using P(2) [of u] by (cases "W u" rule: tick_place.cases) auto
    show "sleeping k' F' (st u) = slp ((tick_place \<circ> W) u)" using P(3) [of u] slp_tick [of "W u" "st u"] by (simp add: t(4) abs_tick_def)
  qed
  have "kinv k' F' T (tick_place \<circ> W)"
  proof (rule kinv_rebuild [OF inv t(2) _ domF _ pl])
    show "lists_placed k' F'" using K(4) same Q(5,6) unfolding lists_placed_def domF fr side by simp
    show "dom (tick_place \<circ> W) \<subseteq> T" using K(5) unfolding dW .
    show "owner k' (st u) = u \<and> prio k' u < 8 \<and> cont k' (ev u) = NULL" if "u \<in> T" for u
      using task_okD [OF K(7) [OF that]] evk [OF that] by (simp add: fr)
  qed
  moreover have "sw" if "W u = Some (Slp 1)" "cur_prio k \<le> prio k u" for u
    using t(6) P(3) [of u] that task_okD(2) [OF K(7) [OF K(9) [OF that(1)]]] by (metis slp.simps(1))
  ultimately show ?thesis using that t(1,3) by blast
qed

end
