(* ===== verification/Sched_Refine.thy ===== *)
theory Sched_Refine
  imports Sched_Place
begin

text \<open>
  What the operations on tasks do to the places of the tasks: delay, suspension, resumption, priority change,
  notification, tick interrupt, context switch and creation. Each lemma shows that the operation returns
  without a fault, gives the new place map, says what it leaves alone, and that afterwards a switch is requested or a ready task
  of the highest priority is running.
\<close>

section \<open>What an operation leaves alone\<close>

definition krest :: "'a kernel_scheme \<Rightarrow> 'a kernel_scheme \<Rightarrow> bool" where
  "krest k k' \<longleftrightarrow> pxCurrentTCB k' = pxCurrentTCB k \<and> xSchedulerRunning k' = xSchedulerRunning k \<and> xIdleTaskHandle k' = xIdleTaskHandle k \<and>
    uxSchedulerSuspended k' = uxSchedulerSuspended k \<and> xPendedTicks k' = xPendedTicks k \<and>
    own_lists k' = own_lists k \<and> side_lists k' = side_lists k \<and>
    (\<forall>t. pcTaskName (tcb k' t) = pcTaskName (tcb k t)) \<and> (pendSV k \<longrightarrow> pendSV k')"

lemma krest_refl [simp]: "krest k k"
  by (simp add: krest_def)

lemma krest_trans: "krest k k' \<Longrightarrow> krest k' k'' \<Longrightarrow> krest k k''"
  by (simp add: krest_def)

lemma krest_kframe: "kframe k k' \<Longrightarrow> krest k k'"
  by (simp add: krest_def kframeD kframe_ready side_lists_def)

lemma side_lists_fields [simp]:
  "side_lists (k\<lparr>pendSV := b\<rparr>) = side_lists k" "side_lists (k\<lparr>xYieldPending := b\<rparr>) = side_lists k" "side_lists (k\<lparr>pxCurrentTCB := w\<rparr>) = side_lists k"
  "side_lists (k\<lparr>stack_mem := m\<rparr>) = side_lists k" "side_lists (k\<lparr>tcb := tt\<rparr>) = side_lists k" "side_lists (k\<lparr>uxSchedulerSuspended := w\<rparr>) = side_lists k"
  "side_lists (k\<lparr>uxCurrentNumberOfTasks := w\<rparr>) = side_lists k" "side_lists (k\<lparr>uxTaskNumber := w\<rparr>) = side_lists k"
  "side_lists (k\<lparr>xSchedulerRunning := b\<rparr>) = side_lists k" "side_lists (k\<lparr>xIdleTaskHandle := w\<rparr>) = side_lists k"
  by (simp_all add: side_lists_def)

lemma krest_tcb: "(\<And>b. pcTaskName (f b) = pcTaskName b) \<Longrightarrow> krest k (upd_tcb t f k)"
  by (simp add: krest_def upd_tcb_def)

lemma krest_yield [simp]: "krest k (portYIELD_WITHIN_API k)" "krest k (k\<lparr>xYieldPending := b\<rparr>)"
  by (simp_all add: krest_def portYIELD_WITHIN_API_def)

lemmas kinv_fields [simp] = kview_fields [THEN kinv_view]
lemmas kinv_tcb = kview_tcb [THEN kinv_view]

lemma kinv_yield [simp]: "kinv (portYIELD_WITHIN_API k) F T W = kinv k F T W"
  by (simp add: portYIELD_WITHIN_API_def)

section \<open>Blocking\<close>

lemma running_placed:
  assumes inv: "kinv k F T W" and c: "W (pxCurrentTCB k) = Some Rdy"
  shows "running_ok k F"
proof -
  note t = task_okD [OF kinvD(7) [OF inv kinvD(9) [OF inv c]]]
  show ?thesis using placedD(1) [OF kinvD(6) [OF inv] t(3), of "pxCurrentTCB k"] t c by (simp add: running_ok_def Let_def)
qed

lemma kinv_delay:
  assumes inv: "kinv k F T W" and c: "W (pxCurrentTCB k) = Some Rdy" and n: "0 < n" "n \<noteq> portMAX_DELAY \<or> \<not> b"
  obtains k' F' where "prvAddCurrentTaskToDelayedList n b k = Inr k'" "kinv k' F' T (W(pxCurrentTCB k \<mapsto> Slp (unat n)))" "delay_frame k k'"
proof -
  let ?c = "pxCurrentTCB k"
  note K = kinvD [OF inv] and P = placedD [OF kinvD(6) [OF inv]] and Q = lists_placedD [OF kinvD(4) [OF inv]]
  obtain k' F' where d: "prvAddCurrentTaskToDelayedList n b k = Inr k'" "sched_ok k' F'" "delay_frame k k'"
    "sleeping k' F' = (sleeping k F)(st ?c \<mapsto> unat n)" "\<And>L. L \<notin> own_lists k \<Longrightarrow> F' L = F L"
    "\<And>p. p < 8 \<Longrightarrow> set (lst F' (ready_list p k')) = set (lst F (ready_list p k)) - {st ?c}"
    by (rule delay_step [OF K(1) running_placed [OF inv c] n]) blast
  have fr: "prio k' t = prio k t" "xPendingReadyList k' = xPendingReadyList k" "xSuspendedTaskList k' = xSuspendedTaskList k"
    "xTasksWaitingTermination k' = xTasksWaitingTermination k" "own_lists k' = own_lists k" "owner k' x = owner k x"
    "ready_list p k' = ready_list p k" "y \<noteq> st ?c \<Longrightarrow> cont k' y = cont k y" for x t p y
    using d(3) by (simp_all add: delay_frame_def ready_list_def)
  have side: "side_lists k' = side_lists k" by (simp add: side_lists_def fr)
  have same: "F' L = F L" if "L \<in> side_lists k" for L using d(5) Q(3) that by blast
  have dF: "dom F' = dom F"
  proof (rule set_eqI)
    fix L show "L \<in> dom F' \<longleftrightarrow> L \<in> dom F"
    proof (cases "L \<in> own_lists k")
      case True
      then show ?thesis using sched_coreD(3) [of k' F' L] sched_coreD(3) [OF K(2), of L] d(2) by (auto simp: fr sched_ok_def)
    next
      case False
      then show ?thesis using d(5) by (simp add: domIff)
    qed
  qed
  have "kinv k' F' T (W(?c \<mapsto> Slp (unat n)))"
  proof (rule kinv_rebuild [OF inv d(2) _ dF])
    show "lists_placed k' F'" using K(4) same Q(5,6) unfolding lists_placed_def dF fr side by simp
    show "dom (W(?c \<mapsto> Slp (unat n))) \<subseteq> T" using K(5,9) c by auto
    show "owner k' (st u) = u \<and> prio k' u < 8 \<and> cont k' (ev u) = NULL" if "u \<in> T" for u
      using task_okD [OF K(7) [OF that]] K(10) [OF K(9) [OF c] that] by (auto simp: fr)
    show "placed k' F' (W(?c \<mapsto> Slp (unat n)))" unfolding placed_def fr
    proof (intro conjI allI impI)
      fix u and p :: u32 assume p: "p < 8"
      show "st u \<in> set (lst F' (ready_list p k)) \<longleftrightarrow> (W(?c \<mapsto> Slp (unat n))) u = Some Rdy \<and> prio k u = p"
        using d(6) [OF p] P(1) [OF p, of u] by (auto simp: fr state_item_inj)
    next
      fix u
      have "lst F' (xSuspendedTaskList k) = lst F (xSuspendedTaskList k)" using same Q(4) by (simp add: lst_def)
      then show "st u \<in> set (lst F' (xSuspendedTaskList k)) \<longleftrightarrow> (W(?c \<mapsto> Slp (unat n))) u = Some Ssp"
        using P(2) [of u] c by auto
      show "sleeping k' F' (st u) = slp ((W(?c \<mapsto> Slp (unat n))) u)" using P(3) [of u] by (simp add: d(4) state_item_inj)
    qed
  qed
  then show ?thesis using that d(1,3) by blast
qed

lemma krest_delay: "delay_frame k k' \<Longrightarrow> pendSV k' = pendSV k \<Longrightarrow> krest k k'"
  by (auto simp: krest_def delay_frame_def side_lists_def)

text \<open>Blocking without a time-out puts the task on the list of the suspended.\<close>

lemma kinv_block_forever:
  assumes inv: "kinv k F T W" and c: "W (pxCurrentTCB k) = Some Rdy"
  obtains k' F' where "prvAddCurrentTaskToDelayedList portMAX_DELAY True k = Inr k'" "kinv k' F' T (W(pxCurrentTCB k \<mapsto> Ssp))" "krest k k'"
    "\<And>t. prio k' t = prio k t"
proof -
  let ?c = "pxCurrentTCB k"
  let ?k1 = "upd_tcb ?c (\<lambda>t. t\<lparr>ucDelayAborted := False\<rparr>) k"
  have i1: "kinv ?k1 F T W" using inv by (simp add: kinv_tcb)
  let ?k2 = "fst (uxListRemove (st ?c) ?k1)"
  obtain F2 where k2: "kinv ?k2 F2 T (W(?c := None))" "kframe ?k1 ?k2" by (rule take_out [OF i1 c])
  have ct: "?c \<in> T" using kinvD(9) [OF inv c] .
  let ?k3 = "vListInsertEnd (xSuspendedTaskList ?k2) (st ?c) ?k2"
  obtain F3 where k3: "kinv ?k3 F3 T ((W(?c := None))(?c \<mapsto> Ssp))" "kframe ?k2 ?k3" by (rule put_suspended [OF k2(1) ct]) simp
  have r1: "krest k ?k1" by (rule krest_tcb) simp
  have "krest k ?k3" using krest_trans [OF r1 krest_trans [OF krest_kframe [OF k2(2)] krest_kframe [OF k3(2)]]] .
  moreover have "prio ?k3 t = prio k t" for t unfolding kframeD(1) [OF k3(2)] kframeD(1) [OF k2(2)] by (simp add: upd_tcb_def)
  moreover have "prvAddCurrentTaskToDelayedList portMAX_DELAY True k = Inr ?k3"
    by (simp add: prvAddCurrentTaskToDelayedList_def Let_def listINSERT_END_def)
  ultimately show ?thesis using that k3(1) by simp
qed

definition kquiet :: "'a kernel_scheme \<Rightarrow> bool" where
  "kquiet k \<longleftrightarrow> uxSchedulerSuspended k = 0 \<and> xPendedTicks k = 0"

lemma kinv_vTaskDelay:
  assumes inv: "kinv k F T W" and c: "W (pxCurrentTCB k) = Some Rdy" and q: "kquiet k" and n: "0 < n"
  obtains k' F' where "vTaskDelay n k = Inr k'" "kinv k' F' T (W(pxCurrentTCB k \<mapsto> Slp (unat n)))" "krest k k'" "pendSV k'" "\<And>t. prio k' t = prio k t"
    "xTickCount k' = xTickCount k"
proof -
  let ?k = "k\<lparr>uxSchedulerSuspended := 1\<rparr>"
  have sa: "vTaskSuspendAll k = ?k" using q by (simp add: vTaskSuspendAll_def kquiet_def)
  have i: "kinv ?k F T W" using inv by simp
  have c': "W (pxCurrentTCB ?k) = Some Rdy" using c by simp
  obtain k1 F1 where k1: "prvAddCurrentTaskToDelayedList n False ?k = Inr k1" "kinv k1 F1 T (W(pxCurrentTCB ?k \<mapsto> Slp (unat n)))" "delay_frame ?k k1"
    by (rule kinv_delay [OF i c' n, of False]) simp_all
  have f: "uxSchedulerSuspended k1 = 1" "xPendedTicks k1 = 0" using k1(3) q by (simp_all add: delay_frame_def kquiet_def)
  obtain b where b: "xTaskResumeAll k1 = Inr ((if b then portYIELD_WITHIN_API else id) (k1\<lparr>uxSchedulerSuspended := 0\<rparr>), b)"
    by (rule resume_quiet [OF kinvD(1) [OF k1(2)] f lists_placedD(10) [OF kinvD(4) [OF k1(2)]]])
  define k' where "k' = k1\<lparr>uxSchedulerSuspended := 0, pendSV := True\<rparr>"
  have "vTaskDelay n k = Inr k'"
    using n q sa k1(1) b by (simp add: vTaskDelay_def kquiet_def portYIELD_WITHIN_API_def k'_def)
  moreover have "kinv k' F1 T (W(pxCurrentTCB k \<mapsto> Slp (unat n)))" using k1(2) by (simp add: k'_def)
  moreover have "krest k k'" "\<And>t. prio k' t = prio k t" "pendSV k'" "xTickCount k' = xTickCount k" using k1(3) q
    by (simp_all add: krest_def delay_frame_def k'_def kquiet_def side_lists_def)
  ultimately show ?thesis using that by blast
qed

section \<open>Suspending, resuming and notifying tasks\<close>

lemma place_container:
  assumes inv: "kinv k F T W" and t: "t \<in> T"
  shows "W t \<noteq> None \<Longrightarrow> cont k (st t) = xSuspendedTaskList k \<longleftrightarrow> W t = Some Ssp"
    "W t = Some Rdy \<Longrightarrow> cont k (st t) = ready_list (prio k t) k"
    "W t = Some (Slp n) \<Longrightarrow> cont k (st t) = pxDelayedTaskList k \<or> cont k (st t) = pxOverflowDelayedTaskList k"
proof -
  note K = kinvD [OF inv] and Q = lists_placedD [OF kinvD(4) [OF inv]]
  have c: "cont k (st t) = L" if "F L = Some (lst F L)" "st t \<in> set (lst F L)" for L
    using lists_okD [of k F L "lst F L"] K(3) that by (simp add: list_at_def Let_def)
  show r: "cont k (st t) = ready_list (prio k t) k" if w: "W t = Some Rdy"
    by (rule kinv_where [OF inv w]) (use c in simp)
  show s: "cont k (st t) = pxDelayedTaskList k \<or> cont k (st t) = pxOverflowDelayedTaskList k" if w: "W t = Some (Slp n)" for n
    by (rule kinv_where [OF inv w]) (use c in auto)
  have p8: "prio k t < 8" using task_okD(3) [OF K(7) [OF t]] .
  have no: "xSuspendedTaskList k \<notin> own_lists k" using Q(3,4) by blast
  show "cont k (st t) = xSuspendedTaskList k \<longleftrightarrow> W t = Some Ssp" if nn: "W t \<noteq> None"
  proof -
    obtain w where w: "W t = Some w" using nn by auto
    show ?thesis
    proof (cases w)
      case Rdy
      then show ?thesis using r w no in_own(3) [OF p8, of k] by auto
    next
      case (Slp n)
      moreover have "pxDelayedTaskList k \<noteq> xSuspendedTaskList k" "pxOverflowDelayedTaskList k \<noteq> xSuspendedTaskList k"
        using no in_own(1,2) by metis+
      ultimately show ?thesis using s w by auto
    next
      case Ssp
      have "cont k (st t) = xSuspendedTaskList k" by (rule kinv_where [OF inv w]) (use c Ssp in auto)
      then show ?thesis using Ssp w by simp
    qed
  qed
qed

lemma move_ready:
  assumes inv: "kinv k F T W" and t: "W t = Some pl"
  defines "k' \<equiv> prvAddTaskToReadyList t (fst (uxListRemove (st t) k))"
  obtains F' where "kinv k' F' T (W(t \<mapsto> Rdy))" "kframe k k'"
proof -
  let ?k1 = "fst (uxListRemove (st t) k)"
  obtain F1 where k1: "kinv ?k1 F1 T (W(t := None))" "kframe k ?k1" by (rule take_out [OF inv t])
  have tt: "t \<in> T" by (rule kinvD(9) [OF inv t])
  obtain F2 where k2: "kinv k' F2 T ((W(t := None))(t \<mapsto> Rdy))" "kframe ?k1 k'" unfolding k'_def
    by (rule put_ready [OF k1(1) tt]) simp
  then show ?thesis using that kframe_trans [OF k1(2) k2(2)] by simp
qed

text \<open>A task with a higher priority than the running one does not wait while no switch is requested.\<close>

definition runs_top :: "'a kernel_scheme \<Rightarrow> (u32 \<rightharpoonup> place) \<Rightarrow> bool" where
  "runs_top k W \<longleftrightarrow> W (pxCurrentTCB k) = Some Rdy \<and> (\<forall>t. W t = Some Rdy \<longrightarrow> prio k t \<le> cur_prio k)"

lemma runs_topI:
  assumes top: "runs_top k W" and c: "pxCurrentTCB k' = pxCurrentTCB k" and p: "\<And>u. prio k' u = prio k u"
    and W': "W' (pxCurrentTCB k) = Some Rdy" "\<And>u. W' u = Some Rdy \<Longrightarrow> W u = Some Rdy \<or> prio k u \<le> cur_prio k"
  shows "runs_top k' W'"
  using assms by (auto simp: runs_top_def)

lemma kinv_vTaskSuspend:
  assumes inv: "kinv k F T W" and q: "kquiet k" "xSchedulerRunning k" and t: "t = prvGetTCBFromHandle h k" "W t = Some pl" and top: "runs_top k W"
  obtains k' F' where "vTaskSuspend h k = Inr k'" "kinv k' F' T (W(t \<mapsto> Ssp))" "krest k k'" "\<And>u. prio k' u = prio k u"
    "pendSV k' \<or> runs_top k' (W(t \<mapsto> Ssp))"
proof -
  let ?k1 = "fst (uxListRemove (st t) k)"
  obtain F1 where k1: "kinv ?k1 F1 T (W(t := None))" "kframe k ?k1" by (rule take_out [OF inv t(2)])
  have tt: "t \<in> T" by (rule kinvD(9) [OF inv t(2)])
  have e: "cont ?k1 (ev t) = NULL" by (rule task_okD(4) [OF kinvD(7) [OF k1(1) tt]])
  let ?k3 = "vListInsertEnd (xSuspendedTaskList ?k1) (st t) ?k1"
  obtain F3 where k3: "kinv ?k3 F3 T ((W(t := None))(t \<mapsto> Ssp))" "kframe ?k1 ?k3" by (rule put_suspended [OF k1(1) tt]) simp
  define k4 where "k4 = (if ucNotifyState (tcb ?k3 t) = taskWAITING_NOTIFICATION
      then upd_tcb t (\<lambda>b. b\<lparr>ucNotifyState := taskNOT_WAITING_NOTIFICATION\<rparr>) ?k3 else ?k3)"
  have i4: "kinv k4 F3 T (W(t \<mapsto> Ssp))" using k3(1) by (simp add: k4_def kinv_tcb)
  have r4: "krest ?k3 k4" "\<And>u. prio k4 u = prio ?k3 u"
    unfolding k4_def by (auto intro: krest_tcb) (simp add: upd_tcb_def)
  let ?k5 = "prvResetNextTaskUnblockTime k4"
  note k5 = reset_next [OF i4]
  have rest: "krest k ?k5"
    using krest_trans [OF krest_kframe [OF k1(2)] krest_trans [OF krest_kframe [OF k3(2)] krest_trans [OF r4(1) krest_kframe [OF k5(2)]]]] .
  have pr: "prio ?k5 u = prio k u" for u unfolding kframeD(1) [OF k5(2)] r4(2) kframeD(1) [OF k3(2)] kframeD(1) [OF k1(2)] ..
  have f: "xSchedulerRunning ?k5" "uxSchedulerSuspended ?k5 = 0" "pxCurrentTCB ?k5 = pxCurrentTCB k" "xSchedulerRunning k4"
    using rest q kframeD(14) [OF k5(2)] by (simp_all add: krest_def kquiet_def)
  have run: "vTaskSuspend h k = (if t = pxCurrentTCB k then Inr (portYIELD_WITHIN_API ?k5) else Inr ?k5)"
    unfolding vTaskSuspend_def t(1) [symmetric] Let_def
    by (simp only: e not_True_eq_False if_False simp_thms k4_def [symmetric] f if_True dev_assert_simps)
  show ?thesis
  proof (cases "t = pxCurrentTCB k")
    case True
    then have "vTaskSuspend h k = Inr (portYIELD_WITHIN_API ?k5)" using run by simp
    then show ?thesis using that [of "portYIELD_WITHIN_API ?k5" F3] k5(1) krest_trans [OF rest krest_yield(1)] pr
      by (simp add: portYIELD_WITHIN_API_def)
  next
    case False
    then have "runs_top ?k5 (W(t \<mapsto> Ssp))" using top f(3) pr by (auto simp: runs_top_def)
    then show ?thesis using that [of ?k5 F3] False run k5(1) rest pr by simp
  qed
qed

lemma kinv_vTaskResume:
  assumes inv: "kinv k F T W" and t: "W t = Some pl" and top: "runs_top k W"
  obtains k' F' where "vTaskResume t k = Inr k'" "kinv k' F' T (if pl = Ssp \<and> t \<noteq> pxCurrentTCB k then W(t \<mapsto> Rdy) else W)"
    "krest k k'" "\<And>u. prio k' u = prio k u"
    "pendSV k' \<or> runs_top k' (if pl = Ssp \<and> t \<noteq> pxCurrentTCB k then W(t \<mapsto> Rdy) else W)"
proof -
  note K = kinvD [OF inv] and Q = lists_placedD [OF kinvD(4) [OF inv]]
  have tt: "t \<in> T" by (rule K(9) [OF t])
  note tk = task_okD [OF K(7) [OF tt]]
  have pn: "xPendingReadyList k \<noteq> NULL" using Q(1) [of "xPendingReadyList k"] Q(5) K(2) by (auto simp: sched_core_def)
  have b: "prvTaskIsTaskSuspended t k = Inr (pl = Ssp)"
    using place_container(1) [OF inv tt] t tk(1,4) pn by (auto simp: prvTaskIsTaskSuspended_def)
  show ?thesis
  proof (cases "pl = Ssp \<and> t \<noteq> pxCurrentTCB k")
    case False
    then have "vTaskResume t k = Inr k" using b tk(1) by (auto simp: vTaskResume_def)
    then show ?thesis using that [of k F] inv False top by auto
  next
    case True
    let ?k2 = "prvAddTaskToReadyList t (fst (uxListRemove (st t) k))"
    obtain F2 where k2: "kinv ?k2 F2 T (W(t \<mapsto> Rdy))" "kframe k ?k2" by (rule move_ready [OF inv t])
    note fr = kframeD [OF k2(2)]
    have run: "vTaskResume t k = Inr (if cur_prio k \<le> prio k t then portYIELD_WITHIN_API ?k2 else ?k2)"
      using b True tk(1) by (simp add: vTaskResume_def Let_def fr)
    show ?thesis
    proof (cases "cur_prio k \<le> prio k t")
      case yes: True
      show ?thesis by (rule that [of "portYIELD_WITHIN_API ?k2" F2])
        (use run yes True k2 krest_trans [OF krest_kframe [OF k2(2)] krest_yield(1)] in \<open>simp_all add: fr portYIELD_WITHIN_API_def\<close>)
    next
      case no: False
      have "prio k t \<le> cur_prio k" using no by (simp add: not_le less_imp_le)
      then have "runs_top ?k2 (W(t \<mapsto> Rdy))" using top True by (intro runs_topI [OF top]) (auto simp: fr runs_top_def split: if_splits)
      then show ?thesis using that [of ?k2 F2] run no True k2 krest_kframe [OF k2(2)] by (simp add: fr)
    qed
  qed
qed

lemma krest_set_notify: "krest k (set_notify t v s k)" "kinv (set_notify t v s k) F T W = kinv k F T W" "prio (set_notify t v s k) u = prio k u"
  "l_item (set_notify t v s k) = l_item k" "pxCurrentTCB (set_notify t v s k) = pxCurrentTCB k"
proof -
  show "krest k (set_notify t v s k)" unfolding set_notify_def by (rule krest_tcb) simp
  show "kinv (set_notify t v s k) F T W = kinv k F T W" unfolding set_notify_def by (rule kinv_tcb) simp
qed (simp_all add: set_notify_def upd_tcb_def)

lemma kinv_xTaskGenericNotify:
  assumes inv: "kinv k F T W" and t: "W t = Some pl" and top: "runs_top k W"
  obtains k' F' ok where "xTaskGenericNotify t 0 v act k = Inr (k', ulNotifiedValue (tcb k t), ok)"
    "kinv k' F' T (if ucNotifyState (tcb k t) = taskWAITING_NOTIFICATION then W(t \<mapsto> Rdy) else W)"
    "krest k k'" "\<And>u. prio k' u = prio k u"
    "pendSV k' \<or> runs_top k' (if ucNotifyState (tcb k t) = taskWAITING_NOTIFICATION then W(t \<mapsto> Rdy) else W)"
proof -
  have tt: "t \<in> T" by (rule kinvD(9) [OF inv t])
  obtain v' ok where v': "notify_value act (ucNotifyState (tcb k t)) v (ulNotifiedValue (tcb k t)) = (v', ok)" by (rule prod.exhaust)
  let ?k1 = "set_notify t v' taskNOTIFICATION_RECEIVED k"
  have i1: "kinv ?k1 F T W" using inv by (simp add: krest_set_notify)
  have nz: "t \<noteq> NULL" by (rule task_okD(1) [OF kinvD(7) [OF inv tt]])
  show ?thesis
  proof (cases "ucNotifyState (tcb k t) = taskWAITING_NOTIFICATION")
    case False
    then have "xTaskGenericNotify t 0 v act k = Inr (?k1, ulNotifiedValue (tcb k t), ok)"
      using nz v' by (simp add: xTaskGenericNotify_def Let_def)
    moreover have "runs_top ?k1 W" by (rule runs_topI [OF top]) (use top in \<open>auto simp: krest_set_notify runs_top_def\<close>)
    ultimately show ?thesis using that [of ?k1 ok F] False i1 by (simp add: krest_set_notify)
  next
    case True
    let ?k2 = "prvAddTaskToReadyList t (fst (uxListRemove (st t) ?k1))"
    obtain F2 where k2: "kinv ?k2 F2 T (W(t \<mapsto> Rdy))" "kframe ?k1 ?k2" by (rule move_ready [OF i1 t])
    note fr = kframeD [OF k2(2)]
    have e: "cont ?k2 (ev t) = NULL" by (rule task_okD(4) [OF kinvD(7) [OF k2(1) tt]])
    have r: "krest k ?k2" using krest_trans [OF krest_set_notify(1) krest_kframe [OF k2(2)]] .
    have p: "prio ?k2 u = prio k u" "pxCurrentTCB ?k2 = pxCurrentTCB k" for u unfolding fr by (simp_all add: krest_set_notify)
    have run: "xTaskGenericNotify t 0 v act k = Inr (if cur_prio k < prio k t then portYIELD_WITHIN_API ?k2 else ?k2, ulNotifiedValue (tcb k t), ok)"
      using True nz v' e p unfolding xTaskGenericNotify_def listREMOVE_ITEM_def Let_def by simp
    show ?thesis
    proof (cases "cur_prio k < prio k t")
      case yes: True
      show ?thesis by (rule that [of "portYIELD_WITHIN_API ?k2" ok F2])
        (use run yes True k2 p krest_trans [OF r krest_yield(1)] in \<open>simp_all add: portYIELD_WITHIN_API_def\<close>)
    next
      case no: False
      have "prio k t \<le> cur_prio k" using no by (simp add: not_less)
      then have "runs_top ?k2 (W(t \<mapsto> Rdy))" using top p by (intro runs_topI [OF top]) (auto simp: runs_top_def split: if_splits)
      then show ?thesis using that [of ?k2 ok F2] run no True k2 r p by simp
    qed
  qed
qed

section \<open>Changing priorities\<close>

definition new_prio :: "u32 \<Rightarrow> TCB_t \<Rightarrow> TCB_t" where
  "new_prio p b = (if uxBasePriority b = uxPriority b then b\<lparr>uxPriority := p\<rparr> else b)\<lparr>uxBasePriority := p\<rparr>"

lemma remove_tcb_commute: "fst (uxListRemove x (upd_tcb t f k)) = upd_tcb t f (fst (uxListRemove x k))"
  by (simp add: uxListRemove_def heap_upd upd_tcb_def)

lemma kinv_new_prio:
  assumes inv: "kinv k F T W" and t: "W t \<noteq> Some Rdy" and p: "p < 8"
  shows "kinv (upd_tcb t (new_prio p) k) F T W"
proof (cases "uxBasePriority (tcb k t) = uxPriority (tcb k t)")
  case True
  then have "upd_tcb t (new_prio p) k = upd_tcb t (\<lambda>b. b\<lparr>uxBasePriority := p\<rparr>) (set_priority t p k)"
    by (simp add: upd_tcb_def new_prio_def set_priority_def)
  then show ?thesis using kinv_set_priority [OF inv t p] by (simp add: kinv_tcb)
next
  case False
  then have "upd_tcb t (new_prio p) k = upd_tcb t (\<lambda>b. b\<lparr>uxBasePriority := p\<rparr>) k" by (simp add: upd_tcb_def new_prio_def)
  then show ?thesis using inv by (simp add: kinv_tcb)
qed

lemma vTaskPrioritySet_eq:
  assumes "p < 8" "t = prvGetTCBFromHandle h k" "uxBasePriority (tcb k t) \<noteq> p"
  shows "vTaskPrioritySet h p k =
    (let ka = (if event_value_in_use t k then k else set_event_value t p k);
         k4 = (if cont k (st t) = ready_list (prio k t) k
               then prvAddTaskToReadyList t (upd_tcb t (new_prio p) (fst (uxListRemove (st t) ka))) else upd_tcb t (new_prio p) ka)
     in Inr (if priority_set_yields t p k then portYIELD_WITHIN_API k4 else k4))"
proof -
  let ?k2 = "upd_tcb t (\<lambda>b. b\<lparr>uxBasePriority := p\<rparr>) (if uxBasePriority (tcb k t) = uxPriority (tcb k t) then set_priority t p k else k)"
  let ?ka = "if event_value_in_use t k then k else set_event_value t p k"
  have k2: "?k2 = upd_tcb t (new_prio p) k" by (simp add: upd_tcb_def new_prio_def set_priority_def)
  have k3: "(if event_value_in_use t (upd_tcb t f k) then upd_tcb t f k else set_event_value t p (upd_tcb t f k)) = upd_tcb t f ?ka" for f
    by (simp add: event_value_in_use_def set_event_value_def upd_tcb_def upd_item_def)
  have c: "cont (upd_tcb t f ?ka) x = cont k x" "ready_list q (upd_tcb t f ?ka) = ready_list q k" for f x q
    by (simp_all add: set_event_value_def upd_tcb_def upd_item_def ready_list_def)
  show ?thesis using assms(1,3) unfolding vTaskPrioritySet_def assms(2) [symmetric] Let_def k2 k3 c remove_tcb_commute by simp
qed

lemma kinv_vTaskPrioritySet:
  assumes inv: "kinv k F T W" and t: "t = prvGetTCBFromHandle h k" "W t = Some pl" and p: "p < 8" and top: "runs_top k W"
  obtains k' F' where "vTaskPrioritySet h p k = Inr k'" "kinv k' F' T W" "krest k k'" "pendSV k' \<or> runs_top k' W"
    "\<And>u. tcb k' u = (if u = t \<and> uxBasePriority (tcb k t) \<noteq> p then new_prio p (tcb k t) else tcb k u)"
proof (cases "uxBasePriority (tcb k t) = p")
  case True
  then have "vTaskPrioritySet h p k = Inr k" using p t(1) by (simp add: vTaskPrioritySet_def)
  then show ?thesis using that [of k F] inv top True by simp
next
  case False
  have tt: "t \<in> T" by (rule kinvD(9) [OF inv t(2)])
  define ka where "ka = (if event_value_in_use t k then k else set_event_value t p k)"
  have ia: "kinv ka F T W" using inv kinv_event_value [OF inv tt] by (simp add: ka_def)
  have ra: "krest k ka" "tcb ka = tcb k" by (simp_all add: ka_def krest_def set_event_value_def upd_item_def own_lists_def side_lists_def ready_list_def)
  define k4 where "k4 = (if cont k (st t) = ready_list (prio k t) k
      then prvAddTaskToReadyList t (upd_tcb t (new_prio p) (fst (uxListRemove (st t) ka))) else upd_tcb t (new_prio p) ka)"
  have rn: "krest x (upd_tcb t (new_prio p) x)" for x :: "'a kernel_scheme" by (rule krest_tcb) (simp add: new_prio_def)
  obtain F4 where k4: "kinv k4 F4 T W" "krest k k4" "tcb k4 = (tcb k)(t := new_prio p (tcb k t))"
  proof (cases "W t = Some Rdy")
    case True
    let ?k1 = "fst (uxListRemove (st t) ka)"
    obtain F1 where k1: "kinv ?k1 F1 T (W(t := None))" "kframe ka ?k1" by (rule take_out [OF ia True])
    have i2: "kinv (upd_tcb t (new_prio p) ?k1) F1 T (W(t := None))" by (rule kinv_new_prio [OF k1(1) _ p]) simp
    have e4: "k4 = prvAddTaskToReadyList t (upd_tcb t (new_prio p) ?k1)"
      using place_container(2) [OF inv tt True] by (simp add: k4_def)
    obtain F2 where k2: "kinv k4 F2 T ((W(t := None))(t \<mapsto> Rdy))" "kframe (upd_tcb t (new_prio p) ?k1) k4" unfolding e4
      by (rule put_ready [OF i2 tt]) simp
    have "krest k k4" using krest_trans [OF ra(1) krest_trans [OF krest_kframe [OF k1(2)] krest_trans [OF rn krest_kframe [OF k2(2)]]]] .
    moreover have "tcb k4 = (tcb k)(t := new_prio p (tcb k t))"
      unfolding kframeD(1) [OF k2(2)] by (simp add: upd_tcb_def kframeD(1) [OF k1(2)] ra(2))
    moreover have "(W(t := None))(t \<mapsto> Rdy) = W" using True by auto
    ultimately show ?thesis using that k2(1) by simp
  next
    case no: False
    have "cont k (st t) \<noteq> ready_list (prio k t) k"
    proof -
      note Q = lists_placedD [OF kinvD(4) [OF inv]] and SC = kinvD(2) [OF inv, unfolded sched_core_def]
      have p8: "prio k t < 8" by (rule task_okD(3) [OF kinvD(7) [OF inv tt]])
      have "ready_list (prio k t) k \<noteq> xSuspendedTaskList k" using Q(3,4) in_own(3) [OF p8] by metis
      moreover have "ready_list (prio k t) k \<noteq> pxDelayedTaskList k" "ready_list (prio k t) k \<noteq> pxOverflowDelayedTaskList k" using SC p8 by metis+
      ultimately show ?thesis using place_container [OF inv tt] t(2) no by (cases pl) auto
    qed
    then have e4: "k4 = upd_tcb t (new_prio p) ka" by (simp add: k4_def)
    show ?thesis using that [of F] kinv_new_prio [OF ia no p] krest_trans [OF ra(1) rn] ra(2) unfolding e4 by (simp add: upd_tcb_def)
  qed
  have run: "vTaskPrioritySet h p k = Inr (if priority_set_yields t p k then portYIELD_WITHIN_API k4 else k4)"
    unfolding vTaskPrioritySet_eq [OF p t(1) False] Let_def ka_def [symmetric] k4_def [symmetric] ..
  have pr: "prio k4 u = (if u = t \<and> uxBasePriority (tcb k t) = prio k t then p else prio k u)" for u
    by (simp add: k4(3) new_prio_def)
  have cu: "pxCurrentTCB k4 = pxCurrentTCB k" using k4(2) by (simp add: krest_def)
  show ?thesis
  proof (cases "priority_set_yields t p k")
    case True
    show ?thesis by (rule that [of "portYIELD_WITHIN_API k4" F4])
      (use run True k4 False krest_trans [OF k4(2) krest_yield(1)] in \<open>simp_all add: portYIELD_WITHIN_API_def\<close>)
  next
    case no: False
    have "prio k4 u \<le> prio k4 (pxCurrentTCB k)" if "W u = Some Rdy" for u
      using top that no False unfolding pr runs_top_def priority_set_yields_def
      by (cases "u = t"; cases "pxCurrentTCB k = t") (auto simp: not_less not_le split: if_splits intro: order_trans less_imp_le)
    then have "runs_top k4 W" using top by (simp add: runs_top_def cu)
    then show ?thesis using that [of k4 F4] run no k4 False by simp
  qed
qed

section \<open>Waiting for a notification\<close>

lemma kinv_notify_block:
  assumes inv: "kinv k F T W" and c: "W (pxCurrentTCB k) = Some Rdy"
  obtains k' F' where "notify_block n k = Inr k'"
    "kinv k' F' T (if n = 0 then W else if n = portMAX_DELAY then W(pxCurrentTCB k \<mapsto> Ssp) else W(pxCurrentTCB k \<mapsto> Slp (unat n)))"
    "krest k k'" "\<And>u. prio k' u = prio k u" "n \<noteq> 0 \<Longrightarrow> pendSV k'" "n = 0 \<Longrightarrow> k' = k"
proof -
  consider "n = 0" | "n = portMAX_DELAY" | "0 < n" "n \<noteq> 0" "n \<noteq> portMAX_DELAY" by (cases "n = 0") (auto simp: word_neq_0_conv)
  then show ?thesis
  proof cases
    case 1
    then show ?thesis using that [of k F] inv by (simp add: notify_block_def)
  next
    case 2
    obtain k' F' where k': "prvAddCurrentTaskToDelayedList portMAX_DELAY True k = Inr k'" "kinv k' F' T (W(pxCurrentTCB k \<mapsto> Ssp))" "krest k k'"
      "\<And>t. prio k' t = prio k t" by (rule kinv_block_forever [OF inv c]) blast
    show ?thesis by (rule that [of "portYIELD_WITHIN_API k'" F'])
      (use 2 k' krest_trans [OF k'(3) krest_yield(1)] in \<open>simp_all add: notify_block_def portYIELD_WITHIN_API_def\<close>)
  next
    case 3
    obtain k' F' where k': "prvAddCurrentTaskToDelayedList n True k = Inr k'" "kinv k' F' T (W(pxCurrentTCB k \<mapsto> Slp (unat n)))" "delay_frame k k'"
      by (rule kinv_delay [OF inv c 3(1), of True]) (use 3 in auto)
    have "krest k (portYIELD_WITHIN_API k')" "\<And>u. prio k' u = prio k u" using k'(3)
      by (auto simp: krest_def delay_frame_def side_lists_def portYIELD_WITHIN_API_def)
    then show ?thesis by (intro that [of "portYIELD_WITHIN_API k'" F'])
      (use 3 k' in \<open>simp_all add: notify_block_def portYIELD_WITHIN_API_def\<close>)
  qed
qed

section \<open>The interrupts\<close>

lemma tick_place_ready: "tick_place w = Some Rdy \<Longrightarrow> w = Some Rdy \<or> (\<exists>n \<le> 1. w = Some (Slp n))"
  by (cases w rule: tick_place.cases) (auto split: if_splits)

lemma kinv_xPortSysTickHandler:
  assumes inv: "kinv k F T W" and q: "kquiet k" and top: "pendSV k \<or> runs_top k W"
  obtains k' F' where "xPortSysTickHandler k = Inr k'" "kinv k' F' T (tick_place \<circ> W)" "krest k k'" "tcb k' = tcb k"
    "xTickCount k' = xTickCount k + 1" "pendSV k' \<or> runs_top k' (tick_place \<circ> W)"
proof -
  have run: "uxSchedulerSuspended k = 0" using q by (simp add: kquiet_def)
  obtain k1 F1 sw where k1: "xTaskIncrementTick k = Inr (k1, sw)" "kinv k1 F1 T (tick_place \<circ> W)" "tick_frame k k1"
    "\<And>t. W t = Some (Slp 1) \<Longrightarrow> cur_prio k \<le> prio k t \<Longrightarrow> sw" by (rule kinv_tick [OF inv run]) blast
  let ?k = "if sw then k1\<lparr>pendSV := True\<rparr> else k1"
  have f: "krest k ?k" "tcb ?k = tcb k" "xTickCount ?k = xTickCount k + 1" "pxCurrentTCB ?k = pxCurrentTCB k" "pendSV k \<Longrightarrow> pendSV ?k"
    using k1(3) by (auto simp: krest_def tick_frame_def side_lists_def)
  have "pendSV ?k \<or> runs_top ?k (tick_place \<circ> W)"
  proof (cases "pendSV k \<or> sw")
    case True
    then show ?thesis using f(5) by auto
  next
    case False
    then have rt: "runs_top k W" using top by simp
    have "prio k t \<le> cur_prio k" if tp: "tick_place (W t) = Some Rdy" for t
    proof -
      consider "W t = Some Rdy" | n where "n \<le> 1" "W t = Some (Slp n)" using tick_place_ready [OF tp] by blast
      then show ?thesis
      proof cases
        case 1
        then show ?thesis using rt by (simp add: runs_top_def)
      next
        case 2
        have "0 < n" using sleeping_pos [OF kinvD(1) [OF inv], of "st t" n] placedD(3) [OF kinvD(6) [OF inv], of t] 2 by simp
        then have "W t = Some (Slp 1)" using 2 by (simp add: le_Suc_eq)
        then have "\<not> cur_prio k \<le> prio k t" using k1(4) False by blast
        then show ?thesis by (simp add: not_le less_imp_le)
      qed
    qed
    then have "runs_top ?k (tick_place \<circ> W)" using rt by (simp add: runs_top_def f)
    then show ?thesis by simp
  qed
  moreover have "kinv ?k F1 T (tick_place \<circ> W)" using k1(2) by simp
  moreover have "xPortSysTickHandler k = Inr ?k" using k1(1) by (simp add: xPortSysTickHandler_def)
  ultimately show ?thesis using that f(1-3) by blast
qed

lemma top_exists:
  assumes inv: "kinv k F T W" and t: "W t = Some Rdy"
  obtains p where "top_ready k F p" "\<And>u. W u = Some Rdy \<Longrightarrow> prio k u \<le> p"
proof -
  note K = kinvD [OF inv] and P = placedD [OF kinvD(6) [OF inv]]
  define R where "R = {p :: u32. p < 8 \<and> lst F (ready_list p k) \<noteq> []}"
  have in_R: "prio k u \<in> R" if "W u = Some Rdy" for u
    using P(1) [of "prio k u" u] task_okD(3) [OF K(7) [OF K(9) [OF that]]] that by (auto simp: R_def)
  have fin: "finite R" by simp
  have m: "Max R \<in> R" by (rule Max_in [OF fin]) (use in_R [OF t] in blast)
  have "lst F (ready_list q k) = []" if "Max R < q \<and> q < 8" for q
  proof (rule ccontr)
    assume "lst F (ready_list q k) \<noteq> []"
    then have "q \<in> R" using that by (simp add: R_def)
    then have "q \<le> Max R" by (rule Max_ge [OF fin])
    then show False using that by (meson not_le)
  qed
  moreover have "Max R < 8" "lst F (ready_list (Max R) k) \<noteq> []" using m by (auto simp: R_def)
  ultimately have "top_ready k F (Max R)" unfolding top_ready_def by blast
  moreover have "prio k u \<le> Max R" if "W u = Some Rdy" for u using in_R [OF that] by (rule Max_ge [OF fin])
  ultimately show ?thesis using that by blast
qed

lemma kinv_switch:
  assumes inv: "kinv k F T W" and s: "uxSchedulerSuspended k = 0" and t: "W t = Some Rdy"
  obtains k' where "vTaskSwitchContext k = Inr k'" "kinv k' F T W" "runs_top k' W"
    "k' = k\<lparr>l_list := l_list k', pxCurrentTCB := pxCurrentTCB k', uxTopReadyPriority := uxTopReadyPriority k', xYieldPending := False\<rparr>"
proof -
  note K = kinvD [OF inv] and P = placedD [OF kinvD(6) [OF inv]]
  obtain p where p: "top_ready k F p" "\<And>u. W u = Some Rdy \<Longrightarrow> prio k u \<le> p" by (rule top_exists [OF inv t]) blast
  let ?L = "ready_list p k"
  obtain k' where k': "vTaskSwitchContext k = Inr k'" "sched_ok k' F" "pxCurrentTCB k' = owner k (hd (turn_order k ?L (lst F ?L)))"
    "\<And>x. owner k' x = owner k x"
    "k' = k\<lparr>l_list := l_list k', pxCurrentTCB := pxCurrentTCB k', uxTopReadyPriority := p, xYieldPending := False\<rparr>"
    by (rule switch_step [OF K(1) s p(1)]) blast
  have f: "l_item k' = l_item k" "tcb k' = tcb k" "own_lists k' = own_lists k" "side_lists k' = side_lists k" "ready_list q k' = ready_list q k"
    "xPendingReadyList k' = xPendingReadyList k" "xSuspendedTaskList k' = xSuspendedTaskList k" "xTasksWaitingTermination k' = xTasksWaitingTermination k"
    "pxDelayedTaskList k' = pxDelayedTaskList k" "pxOverflowDelayedTaskList k' = pxOverflowDelayedTaskList k" "xTickCount k' = xTickCount k"
    "uxTopReadyPriority k' = p" for q
    by (subst k'(5), simp add: own_lists_def side_lists_def ready_list_def)+
  have sl: "sleeping k' F x = sleeping k F x" for x by (simp add: sleeping_def f)
  have "kinv k' F T W"
  proof (rule kinv_rebuild [OF inv k'(2) _ refl K(5)])
    show "lists_placed k' F" using K(4) unfolding lists_placed_def f .
    show "placed k' F W" using K(6) unfolding placed_def f sl .
    show "owner k' (st u) = u \<and> prio k' u < 8 \<and> cont k' (ev u) = NULL" if "u \<in> T" for u
      using task_okD [OF K(7) [OF that]] by (simp add: f)
  qed
  moreover have "runs_top k' W"
  proof -
    have p8: "p < 8" "lst F ?L \<noteq> []" using p(1) by (simp_all add: top_ready_def)
    have "turn_order k ?L (lst F ?L) \<noteq> []" using p8(2) by (metis length_turns length_0_conv)
    then have "hd (turn_order k ?L (lst F ?L)) \<in> set (lst F ?L)" using hd_in_set by fastforce
    moreover obtain u where u: "hd (turn_order k ?L (lst F ?L)) = st u" by (rule st_surj)
    ultimately have w: "W u = Some Rdy" "prio k u = p" using P(1) [OF p8(1), of u] by simp_all
    then have "owner k (st u) = u" using task_okD(2) [OF K(7) [OF K(9)]] by blast
    then have "pxCurrentTCB k' = u" using k'(3) u by simp
    then show ?thesis using w p(2) by (simp add: runs_top_def f)
  qed
  ultimately show ?thesis using that [OF k'(1)] k'(5) f(12) by simp
qed

lemma kinv_xPortPendSVHandler:
  assumes inv: "kinv k F T W" and s: "uxSchedulerSuspended k = 0" and t: "W t = Some Rdy"
  obtains c' k' where "xPortPendSVHandler c k = Inr (c', k')" "kinv k' F T W" "runs_top k' W" "\<not> pendSV k'"
    "krest (k\<lparr>pxCurrentTCB := pxCurrentTCB k', pendSV := False\<rparr>) k'" "xTickCount k' = xTickCount k"
    "\<And>u. \<exists>a. tcb k' u = (tcb k u)\<lparr>pxTopOfStack := a\<rparr>"
proof -
  obtain m top where m: "save_context c (stack_mem k) = (m, top)" by (rule prod.exhaust)
  define k1 where "k1 = upd_tcb (pxCurrentTCB k) (\<lambda>b. b\<lparr>pxTopOfStack := top\<rparr>) (k\<lparr>stack_mem := m, pendSV := False\<rparr>)"
  have i1: "kinv k1 F T W" using inv by (simp add: k1_def kinv_tcb)
  have s1: "uxSchedulerSuspended k1 = 0" using s by (simp add: k1_def upd_tcb_def)
  obtain k2 where k2: "vTaskSwitchContext k1 = Inr k2" "kinv k2 F T W" "runs_top k2 W"
    "k2 = k1\<lparr>l_list := l_list k2, pxCurrentTCB := pxCurrentTCB k2, uxTopReadyPriority := uxTopReadyPriority k2, xYieldPending := False\<rparr>"
    by (rule kinv_switch [OF i1 s1 t])
  let ?c = "restore_context (pxTopOfStack (tcb k2 (pxCurrentTCB k2))) c (stack_mem k2)"
  have run: "xPortPendSVHandler c k = Inr (?c, k2)" using m k2(1) unfolding xPortPendSVHandler_def by (simp add: k1_def [symmetric])
  have f: "\<not> pendSV k2" "xTickCount k2 = xTickCount k" "tcb k2 = tcb k1" "xSchedulerRunning k2 = xSchedulerRunning k"
    "xIdleTaskHandle k2 = xIdleTaskHandle k" "uxSchedulerSuspended k2 = uxSchedulerSuspended k" "xPendedTicks k2 = xPendedTicks k"
    "own_lists k2 = own_lists k" "side_lists k2 = side_lists k"
    by (subst k2(4), simp add: k1_def upd_tcb_def own_lists_def side_lists_def ready_list_def)+
  have "pcTaskName (tcb k2 u) = pcTaskName (tcb k u)" for u unfolding f(3) by (simp add: k1_def upd_tcb_def)
  then have "krest (k\<lparr>pxCurrentTCB := pxCurrentTCB k2, pendSV := False\<rparr>) k2" by (simp add: krest_def f)
  moreover have "\<exists>a. tcb k2 u = (tcb k u)\<lparr>pxTopOfStack := a\<rparr>" for u
    unfolding f(3) by (cases "u = pxCurrentTCB k") (auto simp: k1_def upd_tcb_def intro: exI [of _ "pxTopOfStack (tcb k u)"])
  ultimately show ?thesis using that run k2(2,3) f(1,2) by blast
qed

section \<open>The first lists\<close>

definition static_lists :: "'a kernel_scheme \<Rightarrow> u32 list" where
  "static_lists k = map (\<lambda>p. ready_list (of_nat p) k) [0..<8] @
    [xDelayedTaskList1 k, xDelayedTaskList2 k, xPendingReadyList k, xTasksWaitingTermination k, xSuspendedTaskList k]"

definition statics_ok :: "'a kernel_scheme \<Rightarrow> bool" where
  "statics_ok k \<longleftrightarrow> distinct (static_lists k) \<and> NULL \<notin> set (static_lists k)"

lemma xListEnd_inj [simp]: "xListEnd L = xListEnd M \<longleftrightarrow> L = M"
  by (simp add: xListEnd_def)

lemma init_one:
  "x \<noteq> xListEnd L \<Longrightarrow> l_item (vListInitialise L h) x = l_item h x" "M \<noteq> L \<Longrightarrow> l_list (vListInitialise L h) M = l_list h M"
  "pvOwner (l_item (vListInitialise L h) x) = pvOwner (l_item h x)" "pxContainer (l_item (vListInitialise L h) x) = pxContainer (l_item h x)"
  "vListInitialise L h = h\<lparr>l_item := l_item (vListInitialise L h), l_list := l_list (vListInitialise L h)\<rparr>"
  by (simp_all add: vListInitialise_def heap_upd)

lemma init_all:
  fixes k :: "'a kernel_scheme"
  assumes "distinct Ls"
  defines "k' \<equiv> fold vListInitialise Ls k"
  shows "(\<forall>L \<in> set Ls. list_at k' L []) \<and> (\<forall>x. x \<notin> xListEnd ` set Ls \<longrightarrow> l_item k' x = l_item k x) \<and>
    (\<forall>M. M \<notin> set Ls \<longrightarrow> l_list k' M = l_list k M) \<and> k' = k\<lparr>l_item := l_item k', l_list := l_list k'\<rparr>"
  using assms(1) unfolding k'_def
proof (induction Ls arbitrary: k)
  case (Cons L Ls)
  let ?k1 = "vListInitialise L k" and ?k' = "fold vListInitialise Ls (vListInitialise L k)"
  have IH: "\<forall>L \<in> set Ls. list_at ?k' L []" "\<forall>x. x \<notin> xListEnd ` set Ls \<longrightarrow> l_item ?k' x = l_item ?k1 x"
    "\<forall>M. M \<notin> set Ls \<longrightarrow> l_list ?k' M = l_list ?k1 M" "?k' = ?k1\<lparr>l_item := l_item ?k', l_list := l_list ?k'\<rparr>"
    using Cons.IH [of ?k1] Cons.prems by simp_all
  have "xListEnd L \<notin> xListEnd ` set Ls" using Cons.prems by auto
  then have "list_at ?k' L [] = list_at ?k1 L []" using IH(2,3) Cons.prems by (intro list_at_cong) simp_all
  then have "list_at ?k' L []" using vListInitialise_at [of L k] by simp
  moreover have "?k' = k\<lparr>l_item := l_item ?k', l_list := l_list ?k'\<rparr>" by (subst IH(4), subst init_one(5)) simp
  ultimately show ?case using IH init_one(1,2) by auto
qed simp

lemma init_ready_fold: "init_ready_lists n k = fold vListInitialise (map (\<lambda>p. ready_list (of_nat p) k) [0..<n]) k"
  by (induction n) simp_all

lemma init_ready_fields:
  "xDelayedTaskList1 (init_ready_lists n k) = xDelayedTaskList1 k" "xDelayedTaskList2 (init_ready_lists n k) = xDelayedTaskList2 k"
  "xPendingReadyList (init_ready_lists n k) = xPendingReadyList k" "xTasksWaitingTermination (init_ready_lists n k) = xTasksWaitingTermination k"
  "xSuspendedTaskList (init_ready_lists n k) = xSuspendedTaskList k"
  by (induction n) (simp_all add: vListInitialise_def heap_upd)

lemma init_fields:
  "xDelayedTaskList1 (vListInitialise L k) = xDelayedTaskList1 k" "xDelayedTaskList2 (vListInitialise L k) = xDelayedTaskList2 k"
  "xPendingReadyList (vListInitialise L k) = xPendingReadyList k" "xTasksWaitingTermination (vListInitialise L k) = xTasksWaitingTermination k"
  "xSuspendedTaskList (vListInitialise L k) = xSuspendedTaskList k"
  by (simp_all add: vListInitialise_def heap_upd)

lemma prvInitialiseTaskLists_fold:
  "prvInitialiseTaskLists k = (fold vListInitialise (static_lists k) k)
    \<lparr>pxDelayedTaskList := xDelayedTaskList1 k, pxOverflowDelayedTaskList := xDelayedTaskList2 k\<rparr>"
  unfolding prvInitialiseTaskLists_def Let_def static_lists_def fold_append comp_apply init_ready_fold [symmetric]
  by (simp add: init_ready_fields init_fields)

definition empty_lists :: "'a kernel_scheme \<Rightarrow> u32 \<rightharpoonup> u32 list" where
  "empty_lists k L = (if L \<in> set (static_lists k) then Some [] else None)"

lemma word_below_8: "(p :: u32) < 8 \<longleftrightarrow> (\<exists>n < 8. p = of_nat n)"
proof
  assume "p < 8"
  then show "\<exists>n < 8. p = of_nat n" by (intro exI [of _ "unat p"]) (simp add: word_less_nat_alt)
next
  assume "\<exists>n < 8. p = of_nat n"
  then show "p < 8" by (auto simp: word_less_nat_alt unat_of_nat_u32)
qed

lemma lst_empty [simp]: "lst (empty_lists k) L = []"
  by (simp add: lst_def empty_lists_def)

lemma boot_lists:
  fixes k :: "'a kernel_scheme"
  assumes ok: "statics_ok k" and top: "uxTopReadyPriority k < 8"
  defines "k' \<equiv> prvInitialiseTaskLists k"
  shows "sched_ok k' (empty_lists k)" "lists_placed k' (empty_lists k)" "placed k' (empty_lists k) Map.empty"
    "k' = k\<lparr>l_item := l_item k', l_list := l_list k', pxDelayedTaskList := xDelayedTaskList1 k, pxOverflowDelayedTaskList := xDelayedTaskList2 k\<rparr>"
    "x \<notin> xListEnd ` set (static_lists k) \<Longrightarrow> l_item k' x = l_item k x" "items (empty_lists k) = xListEnd ` set (static_lists k)"
proof -
  let ?k = "fold vListInitialise (static_lists k) k"
  have d: "distinct (static_lists k)" "NULL \<notin> set (static_lists k)" using ok by (simp_all add: statics_ok_def)
  note I = init_all [OF d(1), of k]
  have k': "k' = ?k\<lparr>pxDelayedTaskList := xDelayedTaskList1 k, pxOverflowDelayedTaskList := xDelayedTaskList2 k\<rparr>"
    unfolding k'_def by (rule prvInitialiseTaskLists_fold)
  have ke: "?k = k\<lparr>l_item := l_item ?k, l_list := l_list ?k\<rparr>" using I by blast
  have h: "l_item k' = l_item ?k" "l_list k' = l_list ?k" unfolding k' by simp_all
  show e: "k' = k\<lparr>l_item := l_item k', l_list := l_list k', pxDelayedTaskList := xDelayedTaskList1 k, pxOverflowDelayedTaskList := xDelayedTaskList2 k\<rparr>"
    unfolding h by (subst k', subst ke) simp
  show "l_item k' x = l_item k x" if "x \<notin> xListEnd ` set (static_lists k)" unfolding h using I that by blast
  have f: "pxDelayedTaskList k' = xDelayedTaskList1 k" "pxOverflowDelayedTaskList k' = xDelayedTaskList2 k" "ready_list p k' = ready_list p k"
    "xPendingReadyList k' = xPendingReadyList k" "xSuspendedTaskList k' = xSuspendedTaskList k" "xTasksWaitingTermination k' = xTasksWaitingTermination k"
    "uxTopReadyPriority k' = uxTopReadyPriority k" for p
    by (subst e, simp add: ready_list_def)+
  have rd: "{ready_list p k | p. p < 8} = (\<lambda>p. ready_list (of_nat p) k) ` {0..<8}"
    using word_below_8 by (auto simp: image_def atLeast0LessThan)
  have own: "own_lists k' = {xDelayedTaskList1 k, xDelayedTaskList2 k} \<union> (\<lambda>p. ready_list (of_nat p) k) ` {0..<8}"
    unfolding own_lists_def f rd ..
  have side: "side_lists k' = {xPendingReadyList k, xSuspendedTaskList k, xTasksWaitingTermination k}" by (simp add: side_lists_def f)
  have dm: "set (static_lists k) = own_lists k' \<union> side_lists k'" unfolding own side static_lists_def by auto
  have dist: "own_lists k' \<inter> side_lists k' = {}" "xDelayedTaskList1 k \<noteq> xDelayedTaskList2 k"
    "distinct [xPendingReadyList k, xSuspendedTaskList k, xTasksWaitingTermination k]"
    "xDelayedTaskList1 k \<notin> (\<lambda>p. ready_list (of_nat p) k) ` {0..<8}" "xDelayedTaskList2 k \<notin> (\<lambda>p. ready_list (of_nat p) k) ` {0..<8}"
    using d(1) unfolding own side static_lists_def by auto
  have rg: "ring (empty_lists k) L = (if L \<in> set (static_lists k) then {xListEnd L} else {})" for L by (simp add: ring_def empty_lists_def)
  have lo: "lists_ok k' (empty_lists k)" unfolding lists_ok_def
  proof (intro conjI allI impI)
    fix L xs assume "empty_lists k L = Some xs"
    then have L: "L \<in> set (static_lists k)" "xs = []" by (auto simp: empty_lists_def split: if_splits)
    then have "list_at ?k L xs" using I by blast
    then show "list_at k' L xs" using list_at_cong [of L xs k' ?k] h by simp
  qed (auto simp: rg)
  show "items (empty_lists k) = xListEnd ` set (static_lists k)" by (auto simp: items_def rg split: if_splits)
  have nr: "\<forall>p < 8. xDelayedTaskList1 k \<noteq> ready_list p k \<and> xDelayedTaskList2 k \<noteq> ready_list p k"
    using dist(4,5) unfolding word_below_8 by auto
  have "sched_core k' (empty_lists k)"
    unfolding sched_core_def f using lo d(2) dm dist(2) nr top by (auto simp: empty_lists_def)
  then show "sched_ok k' (empty_lists k)" by (simp add: sched_ok_def)
  have "dom (empty_lists k) = set (static_lists k)" by (auto simp: empty_lists_def dom_def)
  moreover have "empty_lists k (xPendingReadyList k) = Some []" "empty_lists k (xTasksWaitingTermination k) = Some []"
    by (simp_all add: empty_lists_def static_lists_def)
  ultimately show "lists_placed k' (empty_lists k)" unfolding lists_placed_def f using dm dist by simp
  show "placed k' (empty_lists k) Map.empty" by (simp add: placed_def sleeping_def)
qed

section \<open>New tasks\<close>

definition name_ok :: "u8 list option \<Rightarrow> bool" where
  "name_ok nm \<longleftrightarrow> (case nm of None \<Rightarrow> True | Some s \<Rightarrow> 0 \<in> set s \<or> 16 \<le> length s)"

lemma copy_name_ok:
  assumes "(\<exists>i. x \<le> i \<and> i < length s \<and> s ! i = 0) \<or> x + n \<le> length s" "x + n \<le> length d"
  shows "\<exists>d'. copy_name n x s d = Inr d' \<and> length d' = length d"
  using assms
proof (induction n arbitrary: x d)
  case (Suc n)
  have lt: "x < length s" using Suc.prems(1) by auto
  show ?case
  proof (cases "s ! x = 0")
    case True
    then show ?thesis using lt Suc.prems(2) by simp
  next
    case False
    have "(\<exists>i. Suc x \<le> i \<and> i < length s \<and> s ! i = 0) \<or> Suc x + n \<le> length s"
      using Suc.prems(1) False by (metis add_Suc_right add_Suc le_antisym not_less_eq_eq)
    then have "\<exists>d'. copy_name n (Suc x) s (d[x := s ! x]) = Inr d' \<and> length d' = length (d[x := s ! x])"
      using Suc.prems(2) by (intro Suc.IH) simp_all
    then show ?thesis using False lt Suc.prems(2) by simp
  qed
qed simp

lemma task_name_ok:
  assumes "name_ok nm" "length d = 16"
  obtains d' where "task_name nm d = Inr d'" "length d' = 16"
proof (cases nm)
  case None
  then show ?thesis using that [of "d[0 := 0]"] assms(2) by (simp add: task_name_def)
next
  case (Some s)
  then have "(\<exists>i. 0 \<le> i \<and> i < length s \<and> s ! i = 0) \<or> 0 + 16 \<le> length s" using assms(1) by (auto simp: name_ok_def in_set_conv_nth)
  then obtain d' where "copy_name 16 0 s d = Inr d'" "length d' = 16" using copy_name_ok [of 0 s 16 d] assms(2) by auto
  then show ?thesis using that [of "d'[15 := 0]"] Some by (simp add: task_name_def)
qed

definition initialised :: "u32 \<Rightarrow> u32 \<Rightarrow> 'a kernel_scheme \<Rightarrow> 'a kernel_scheme \<Rightarrow> bool" where
  "initialised t p k k' \<longleftrightarrow>
    k' = k\<lparr>l_item := l_item k', tcb := tcb k', stack_mem := stack_mem k'\<rparr> \<and> (\<forall>u. u \<noteq> t \<longrightarrow> tcb k' u = tcb k u) \<and>
    prio k' t = p \<and> length (pcTaskName (tcb k' t)) = 16 \<and> (\<forall>x. x \<noteq> st t \<and> x \<noteq> ev t \<longrightarrow> l_item k' x = l_item k x) \<and>
    owner k' (st t) = t \<and> cont k' (st t) = NULL \<and> cont k' (ev t) = NULL"

lemma and_not_7_word: "(a AND - 8) AND 7 = (0 :: u32)"
  by (simp add: and.assoc)

lemma st_ne_ev [simp]: "st t \<noteq> ev t" "ev t \<noteq> st t"
  by (simp_all add: xStateListItem_def xEventListItem_def)

lemma prvInitialiseNewTask_ok:
  assumes nm: "name_ok nm" "length (pcTaskName (tcb k t)) = 16" and p: "p < 8"
  obtains k' where "prvInitialiseNewTask ee code nm depth params p t k = Inr k'" "initialised t p k k'"
proof -
  obtain d where d: "task_name nm (pcTaskName (tcb k t)) = Inr d" "length d = 16" by (rule task_name_ok [OF nm])
  let ?m = "fill_stack (pxStack (tcb k t)) depth (stack_mem k)" and ?top = "(pxStack (tcb k t) + 4 * (depth - 1)) AND NOT 7"
  obtain m' top' where m': "pxPortInitialiseStack ee ?top code params ?m = (m', top')" by (rule prod.exhaust)
  obtain k' where k': "prvInitialiseNewTask ee code nm depth params p t k = Inr k'"
    using d m' p by (simp add: prvInitialiseNewTask_def and_not_7_word Let_def)
  have "initialised t p k k'"
    using k' d m' p by (auto simp: prvInitialiseNewTask_def and_not_7_word Let_def initialised_def upd_tcb_def upd_item_def vListInitialiseItem_def)
  then show ?thesis using that k' by blast
qed

lemma initialisedD:
  fixes k k' :: "'a kernel_scheme"
  assumes "initialised t p k k'"
  shows "u \<noteq> t \<Longrightarrow> tcb k' u = tcb k u" "prio k' t = p" "length (pcTaskName (tcb k' t)) = 16"
    "x \<noteq> st t \<Longrightarrow> x \<noteq> ev t \<Longrightarrow> l_item k' x = l_item k x" "owner k' (st t) = t" "cont k' (st t) = NULL" "cont k' (ev t) = NULL"
    "l_list k' = l_list k" "pxDelayedTaskList k' = pxDelayedTaskList k" "pxOverflowDelayedTaskList k' = pxOverflowDelayedTaskList k"
    "ready_list q k' = ready_list q k" "own_lists k' = own_lists k" "side_lists k' = side_lists k" "static_lists k' = static_lists k"
    "xPendingReadyList k' = xPendingReadyList k" "xSuspendedTaskList k' = xSuspendedTaskList k" "xTasksWaitingTermination k' = xTasksWaitingTermination k"
    "xTickCount k' = xTickCount k" "uxTopReadyPriority k' = uxTopReadyPriority k" "xNextTaskUnblockTime k' = xNextTaskUnblockTime k"
    "pxCurrentTCB k' = pxCurrentTCB k" "xSchedulerRunning k' = xSchedulerRunning k" "uxCurrentNumberOfTasks k' = uxCurrentNumberOfTasks k"
    "xIdleTaskHandle k' = xIdleTaskHandle k" "pendSV k' = pendSV k" "uxSchedulerSuspended k' = uxSchedulerSuspended k" "xPendedTicks k' = xPendedTicks k"
proof -
  have e: "k' = k\<lparr>l_item := l_item k', tcb := tcb k', stack_mem := stack_mem k'\<rparr>" using assms unfolding initialised_def by blast
  show "l_list k' = l_list k" "pxDelayedTaskList k' = pxDelayedTaskList k" "pxOverflowDelayedTaskList k' = pxOverflowDelayedTaskList k"
    "ready_list q k' = ready_list q k" "own_lists k' = own_lists k" "side_lists k' = side_lists k" "static_lists k' = static_lists k"
    "xPendingReadyList k' = xPendingReadyList k" "xSuspendedTaskList k' = xSuspendedTaskList k" "xTasksWaitingTermination k' = xTasksWaitingTermination k"
    "xTickCount k' = xTickCount k" "uxTopReadyPriority k' = uxTopReadyPriority k" "xNextTaskUnblockTime k' = xNextTaskUnblockTime k"
    "pxCurrentTCB k' = pxCurrentTCB k" "xSchedulerRunning k' = xSchedulerRunning k" "uxCurrentNumberOfTasks k' = uxCurrentNumberOfTasks k"
    "xIdleTaskHandle k' = xIdleTaskHandle k" "pendSV k' = pendSV k" "uxSchedulerSuspended k' = uxSchedulerSuspended k" "xPendedTicks k' = xPendedTicks k"
    by (subst e, simp add: own_lists_def side_lists_def static_lists_def ready_list_def)+
  show "u \<noteq> t \<Longrightarrow> tcb k' u = tcb k u" "prio k' t = p" "length (pcTaskName (tcb k' t)) = 16"
    "x \<noteq> st t \<Longrightarrow> x \<noteq> ev t \<Longrightarrow> l_item k' x = l_item k x" "owner k' (st t) = t" "cont k' (st t) = NULL" "cont k' (ev t) = NULL"
    using assms unfolding initialised_def by blast+
qed

definition fresh_tcb :: "u32 set \<Rightarrow> u32 \<Rightarrow> u32 set \<Rightarrow> bool" where
  "fresh_tcb A t T \<longleftrightarrow> t \<noteq> NULL \<and> t \<notin> T \<and> (\<forall>u \<in> T. st u \<noteq> ev t \<and> ev u \<noteq> st t) \<and> st t \<notin> xListEnd ` A \<and> ev t \<notin> xListEnd ` A"

lemma fresh_items:
  assumes inv: "kinv k F T W" and fr: "fresh_tcb (own_lists k \<union> side_lists k) t T"
  shows "st t \<notin> items F" "ev t \<notin> items F"
proof -
  note K = kinvD [OF inv]
  have d: "dom F = own_lists k \<union> side_lists k" using K(4) by (simp add: lists_placed_def)
  have f: "t \<notin> T" "\<forall>u \<in> T. st u \<noteq> ev t \<and> ev u \<noteq> st t" "st t \<notin> xListEnd ` dom F" "ev t \<notin> xListEnd ` dom F"
    using fr unfolding fresh_tcb_def d by blast+
  show "st t \<notin> items F" 
  proof
    assume "st t \<in> items F"
    then consider L where "L \<in> dom F" "st t = xListEnd L" | u where "u \<in> dom W" "st t = st u" using items_placed [OF K(4,6)] by blast
    then show False using f(1,3) K(5) by cases (auto simp: state_item_inj)
  qed
  show "ev t \<notin> items F" 
  proof
    assume "ev t \<in> items F"
    then consider L where "L \<in> dom F" "ev t = xListEnd L" | u where "u \<in> dom W" "ev t = st u" using items_placed [OF K(4,6)] by blast
    then show False using f(2,4) K(5) by cases (blast, metis subsetD)
  qed
qed

lemma kinv_new:
  fixes k :: "'a kernel_scheme"
  assumes inv: "kinv k F T W" and fr: "fresh_tcb (own_lists k \<union> side_lists k) t T" and i: "initialised t p k k'" and p: "p < 8"
  shows "kinv k' F (insert t T) W"
proof -
  note K = kinvD [OF inv] and D = initialisedD [OF i] and fi = fresh_items [OF inv fr]
  have f: "t \<noteq> NULL" "t \<notin> T" "\<And>u. u \<in> T \<Longrightarrow> st u \<noteq> ev t \<and> ev u \<noteq> st t" using fr by (simp_all add: fresh_tcb_def)
  have it: "l_item k' x = l_item k x" if "x \<in> items F" for x using D(4) that fi by metis
  have mem: "x \<in> items F" if "x \<in> set (lst F L)" for x L using that itemsI [of F L "lst F L" x] by (cases "F L") (auto simp: lst_def)
  have "list_at k' L xs" if L: "F L = Some xs" for L xs
  proof -
    have "\<And>x. x \<in> set (xListEnd L # xs) \<Longrightarrow> l_item k' x = l_item k x" using it itemsI [of F L xs] L by blast
    then have "list_at k' L xs = list_at k L xs" by (intro list_at_cong) (simp_all add: D(8))
    then show ?thesis using lists_okD [of k F L xs] K(3) L by simp
  qed
  then have l: "lists_ok k' F" using K(3) by (simp add: lists_ok_def)
  have v: "x \<in> set (lst F L) \<Longrightarrow> val k' x = val k x" for x L using it mem by simp
  then have vs: "map (val k') (lst F L) = map (val k) (lst F L)" for L by simp
  have sl: "sleeping k' F x = sleeping k F x" for x using v by (simp add: sleeping_def D)
  have tk: "task_ok k' F u" if "u \<in> insert t T" for u
  proof (cases "u = t")
    case True
    then show ?thesis using f(1) D(2,5,7) p fi(2) by (simp add: task_ok_def)
  next
    case False
    then have u: "u \<in> T" using that by simp
    then have "l_item k' (st u) = l_item k (st u)" "l_item k' (ev u) = l_item k (ev u)"
      using D(4) f(3) [OF u] False by (metis state_item_inj)+
    then show ?thesis using K(7) [OF u] D(1) [OF False] by (simp add: task_ok_def)
  qed
  have "sleeper_ok k' F x" if x: "x \<in> set (lst F (pxDelayedTaskList k)) \<union> set (lst F (pxOverflowDelayedTaskList k))" for x
  proof -
    obtain u n where "x = st u" "u \<in> T" by (rule sleepers_tasks [OF inv x])
    then show ?thesis using task_okD(6) [OF tk] by blast
  qed
  then have "sched_core k' F" using K(2) l unfolding sched_core_def D(9-12,19) vs by blast
  then have ok: "sched_ok k' F" using K(1) v by (simp add: sched_ok_def D)
  have "W t = None" using K(5) f(2) by auto
  then have "prio k' u = prio k u" if "W u = Some w" for u w using that D(1) by (cases "u = t") auto
  then have pl: "placed k' F W" using K(6) unfolding placed_def D sl by auto
  have "lists_placed k' F" using K(4) unfolding lists_placed_def D .
  moreover have "st a \<noteq> ev b" if "a \<in> insert t T" "b \<in> insert t T" for a b using that K(10) f(3) by (metis insert_iff st_ne_ev(1))
  moreover have "st u \<notin> items F" if "u \<in> insert t T - dom W" for u using that K(8) fi(1) by (cases "u = t") auto
  ultimately show ?thesis unfolding kinv_def using ok pl tk K(5) by blast
qed

end
