(* ===== verification/Allocator_Spec.thy ===== *)
theory Allocator_Spec
  imports Gw_Prelude
begin

text \<open>
  The contract of a memory allocator and what its clients may rely on. A layout \<open>l\<close> stands for a state of the
  allocator (\<open>rep l s\<close>) and has a set of live blocks, each an address with a number of usable bytes. The
  client of \<open>session\<close> keeps the pointers it was given and releases any of them, in any order.
\<close>

datatype heap_op = Alloc u32 | Release nat

fun session :: "(u32 \<Rightarrow> 's \<Rightarrow> ('s \<times> u32) res) \<Rightarrow> (u32 \<Rightarrow> 's \<Rightarrow> 's res) \<Rightarrow> heap_op list \<Rightarrow> 's \<Rightarrow> u32 list \<Rightarrow> ('s \<times> u32 list) res" where
  "session alloc release [] s held = Inr (s, held)"
| "session alloc release (Alloc n # ops) s held =
    rbind (alloc n s) (\<lambda>(s', p). session alloc release ops s' (if p = 0 then held else p # held))"
| "session alloc release (Release i # ops) s held =
    (if i < length held
     then rbind (release (held ! i) s) (\<lambda>s'. session alloc release ops s' (take i held @ drop (Suc i) held))
     else session alloc release ops s held)"

definition holds :: "(nat \<times> nat) set \<Rightarrow> u32 list \<Rightarrow> bool" where
  "holds live held \<longleftrightarrow> distinct held \<and> fst ` live = unat ` set held"

lemma holds_add:
  assumes "holds live held" "\<forall>(q, m) \<in> live. q \<noteq> p" "p < 2 ^ 32"
  shows "holds (insert (p, m) live) (of_nat p # held)"
proof -
  have "of_nat p \<notin> set held"
  proof
    assume "of_nat p \<in> set held"
    then have "unat (of_nat p :: u32) \<in> unat ` set held" by (rule imageI)
    then have "p \<in> fst ` live" using assms(1,3) by (simp add: holds_def unat_of_nat_u32)
    then show False using assms(2) by auto
  qed
  then show ?thesis using assms by (simp add: holds_def unat_of_nat_u32)
qed

lemma holds_remove:
  assumes "holds live held" "i < length held" "(unat (held ! i), m) \<in> live" "\<And>m'. (unat (held ! i), m') \<in> live \<Longrightarrow> m' = m"
  shows "holds (live - {(unat (held ! i), m)}) (take i held @ drop (Suc i) held)"
proof -
  have d: "distinct held" "fst ` live = unat ` set held" using assms(1) by (simp_all add: holds_def)
  have eq: "held = take i held @ held ! i # drop (Suc i) held" using assms(2) by (rule id_take_nth_drop)
  have "distinct (take i held @ held ! i # drop (Suc i) held)" using d(1) eq by simp
  then have r: "distinct (take i held @ drop (Suc i) held)" "set (take i held @ drop (Suc i) held) = set held - {held ! i}"
    using arg_cong [OF eq, of set] by auto
  have "fst ` (live - {(unat (held ! i), m)}) = fst ` live - {unat (held ! i)}" using assms(4) by force
  also have "\<dots> = unat ` (set held - {held ! i})" unfolding d(2) by (auto simp: word_unat_eq_iff)
  finally show ?thesis using r by (simp add: holds_def)
qed

locale allocator =
  fixes rep :: "'l \<Rightarrow> 's \<Rightarrow> bool" and live :: "'l \<Rightarrow> (nat \<times> nat) set"
    and alloc :: "u32 \<Rightarrow> 's \<Rightarrow> ('s \<times> u32) res" and release :: "u32 \<Rightarrow> 's \<Rightarrow> 's res"
  assumes alloc_law: "rep l s \<Longrightarrow> alloc n s = Inr (s, 0) \<or>
      (\<exists>l' s' p m. alloc n s = Inr (s', of_nat p) \<and> rep l' s' \<and> 0 < p \<and> unat n \<le> m \<and> live l' = insert (p, m) (live l) \<and> (\<forall>(q, k) \<in> live l. q \<noteq> p))"
    and release_law: "rep l s \<Longrightarrow> (p, m) \<in> live l \<Longrightarrow> \<exists>l' s'. release (of_nat p) s = Inr s' \<and> rep l' s' \<and> live l' = live l - {(p, m)}"
    and live_address: "rep l s \<Longrightarrow> (p, m) \<in> live l \<Longrightarrow> p + m < 2 ^ 32"
    and live_disjoint: "rep l s \<Longrightarrow> (p, m) \<in> live l \<Longrightarrow> (q, k) \<in> live l \<Longrightarrow> (p, m) \<noteq> (q, k) \<Longrightarrow> p + m < q \<or> q + k < p"
begin

lemma live_unique: "rep l s \<Longrightarrow> (p, m) \<in> live l \<Longrightarrow> (p, k) \<in> live l \<Longrightarrow> m = k"
  using live_disjoint [of l s p m p k] by auto

lemma session_safe:
  assumes "rep l s" "holds (live l) held"
  shows "\<exists>l' s' held'. session alloc release ops s held = Inr (s', held') \<and> rep l' s' \<and> holds (live l') held'"
  using assms
proof (induction ops arbitrary: l s held)
  case (Cons x ops)
  show ?case
  proof (cases x)
    case (Alloc n)
    from alloc_law [OF Cons.prems(1), of n]
    consider "alloc n s = Inr (s, 0)"
      | l' s' p m where "alloc n s = Inr (s', of_nat p)" "rep l' s'" "0 < p" "live l' = insert (p, m) (live l)" "\<forall>(q, k) \<in> live l. q \<noteq> p"
      by blast
    then show ?thesis
    proof cases
      case 1
      then show ?thesis using Cons Alloc by simp
    next
      case 2
      have p: "p < 2 ^ 32" using live_address [OF 2(2), of p m] 2(4) by simp
      have nz: "(of_nat p :: u32) \<noteq> 0" using p 2(3) by (metis gr_implies_not0 unat_of_nat_u32 unsigned_0)
      have "holds (live l') (of_nat p # held)" unfolding 2(4) using Cons.prems(2) 2(5) p by (rule holds_add)
      then show ?thesis using Cons.IH [OF 2(2)] 2(1) nz Alloc by simp
    qed
  next
    case (Release i)
    show ?thesis
    proof (cases "i < length held")
      case True
      then have "unat (held ! i) \<in> fst ` live l" using Cons.prems(2) by (simp add: holds_def)
      then obtain m where m: "(unat (held ! i), m) \<in> live l" by force
      obtain l' s' where r: "release (of_nat (unat (held ! i))) s = Inr s'" "rep l' s'" "live l' = live l - {(unat (held ! i), m)}"
        using release_law [OF Cons.prems(1) m] by blast
      have "holds (live l') (take i held @ drop (Suc i) held)"
        unfolding r(3) using Cons.prems m True live_unique by (intro holds_remove) blast+
      then show ?thesis using Cons.IH [OF r(2)] r(1) True Release by simp
    next
      case False
      then show ?thesis using Cons Release by simp
    qed
  qed
qed auto

end

end
