(* ===== verification/Heap_Refine.thy ===== *)
theory Heap_Refine
  imports Freertos_Heap Allocator_Spec
begin

text \<open>
  What the allocator of \<open>heap_4.c\<close> promises: on layouts, \<open>abs_malloc\<close> takes the first free block that is large
  enough and \<open>abs_free\<close> releases a block and joins neighbours; \<open>pvPortMalloc\<close> and \<open>vPortFree\<close> do exactly this on
  the linked headers (\<open>heap_rep\<close> is the relation). The allocator is then an instance of the contract
  \<open>allocator\<close>, whose client lemma gives the safety of every sequence of allocations and releases.
\<close>

section \<open>The abstract allocator\<close>

fun abs_malloc :: "nat \<Rightarrow> tiles \<Rightarrow> (nat \<times> tiles) option" where
  "abs_malloc w [] = None"
| "abs_malloc w ((s, al) # L) =
    (if \<not> al \<and> w \<le> s then Some (0, if s - w > 16 then (w, True) # (s - w, False) # L else (s, True) # L)
     else map_option (\<lambda>(off, L'). (s + off, (s, al) # L')) (abs_malloc w L))"

fun mark_free :: "nat \<Rightarrow> tiles \<Rightarrow> tiles option" where
  "mark_free off [] = None"
| "mark_free off ((s, al) # L) =
    (if off = 0 then (if al then Some ((s, False) # L) else None)
     else if off < s then None else map_option (Cons (s, al)) (mark_free (off - s) L))"

fun join :: "tiles \<Rightarrow> tiles" where
  "join [] = []"
| "join ((s, True) # L) = (s, True) # join L"
| "join [(s, False)] = [(s, False)]"
| "join ((s, False) # (t, True) # L) = (s, False) # (t, True) # join L"
| "join ((s, False) # (t, False) # L) = join ((s + t, False) # L)"

fun coalesced :: "tiles \<Rightarrow> bool" where
  "coalesced (x # y # L) \<longleftrightarrow> (snd x \<or> snd y) \<and> coalesced (y # L)"
| "coalesced _ = True"

definition abs_free :: "nat \<Rightarrow> tiles \<Rightarrow> tiles option" where
  "abs_free off L = map_option join (mark_free off L)"

definition heap_rep :: "u32 \<Rightarrow> nat \<Rightarrow> tiles \<Rightarrow> heap4 \<Rightarrow> bool" where
  "heap_rep xStart base L h \<longleftrightarrow>
    sizes_ok L \<and> coalesced L \<and> 8 dvd base \<and> 0 < base \<and> extent L \<le> 65536 \<and> base + extent L + 8 \<le> 2 ^ 32 \<and>
    (unat xStart + 8 \<le> base \<or> base + extent L + 8 \<le> unat xStart) \<and>
    blk h xStart = \<lparr>pxNextFreeBlock = of_nat (ff base L (base + extent L)), xBlockSize = 0\<rparr> \<and>
    seg h base L (base + extent L) \<and> blk_at h (base + extent L) = \<lparr>pxNextFreeBlock = 0, xBlockSize = 0\<rparr> \<and>
    pxEnd h = of_nat (base + extent L) \<and> xFreeBytesRemaining h = of_nat (free_extent L) \<and> xBlockAllocatedBit h = push_bit 31 1"

lemma abs_malloc_Some:
  assumes "abs_malloc w L = Some (off, L')"
  obtains L1 s L2 where "L = L1 @ (s, False) # L2" "off = extent L1" "w \<le> s" "\<forall>(t, al) \<in> set L1. \<not> al \<longrightarrow> t < w"
    "L' = L1 @ (if s - w > 16 then (w, True) # (s - w, False) # L2 else (s, True) # L2)"
  using assms
proof (induction L arbitrary: off L' thesis rule: abs_malloc.induct)
  case (2 w s al L)
  show ?case
  proof (cases "\<not> al \<and> w \<le> s")
    case True
    then show ?thesis using "2.prems"(2) by (intro "2.prems"(1) [of "[]" s L]) auto
  next
    case False
    then obtain o1 L1 where 1: "abs_malloc w L = Some (o1, L1)" "off = s + o1" "L' = (s, al) # L1"
      using "2.prems"(2) by auto
    then obtain K t K2 where "L = K @ (t, False) # K2" "o1 = extent K" "w \<le> t" "\<forall>(t, al) \<in> set K. \<not> al \<longrightarrow> t < w"
      "L1 = K @ (if t - w > 16 then (w, True) # (t - w, False) # K2 else (t, True) # K2)"
      using "2.IH" [OF False] by blast
    then show ?thesis using 1 False by (intro "2.prems"(1) [of "(s, al) # K" t K2]) auto
  qed
qed simp

lemma abs_malloc_None: "abs_malloc w L = None \<longleftrightarrow> (\<forall>(t, al) \<in> set L. \<not> al \<longrightarrow> t < w)"
  by (induction w L rule: abs_malloc.induct) auto

lemma mark_free_Some:
  assumes "mark_free off L = Some L'"
  obtains L1 s L2 where "L = L1 @ (s, True) # L2" "off = extent L1" "L' = L1 @ (s, False) # L2"
  using assms
proof (induction off L arbitrary: L' thesis rule: mark_free.induct)
  case (2 off s al L)
  show ?case
  proof (cases "off = 0")
    case True
    then show ?thesis using "2.prems"(2) by (intro "2.prems"(1) [of "[]" s L]) (auto split: if_splits)
  next
    case False
    then obtain K where 1: "\<not> off < s" "mark_free (off - s) L = Some K" "L' = (s, al) # K" using "2.prems"(2) by (auto split: if_splits)
    then obtain K1 t K2 where "L = K1 @ (t, True) # K2" "off - s = extent K1" "K = K1 @ (t, False) # K2"
      using "2.IH" [OF False 1(1)] by blast
    then show ?thesis using 1 by (intro "2.prems"(1) [of "(s, al) # K1" t K2]) auto
  qed
qed simp

lemma mark_free_at: "sizes_ok L1 \<Longrightarrow> mark_free (extent L1) (L1 @ (s, True) # L2) = Some (L1 @ (s, False) # L2)"
  by (induction L1 rule: extent.induct) auto

lemma coalesced_tl: "coalesced (x # L) \<Longrightarrow> coalesced L"
  by (cases L) auto

lemma join_id: "coalesced L \<Longrightarrow> join L = L"
  by (induction L rule: join.induct) (auto dest: coalesced_tl)

lemma coalesced_append: "coalesced (L1 @ x # L2) \<longleftrightarrow> coalesced (L1 @ [x]) \<and> coalesced (x # L2)"
  by (induction L1 rule: coalesced.induct) auto

lemma join_Cons: "al \<or> snd y \<Longrightarrow> join ((s, al) # y # L) = (s, al) # join (y # L)"
  by (cases y; cases al; cases "snd y") auto

lemma join_append: "coalesced (L1 @ [x]) \<Longrightarrow> join (L1 @ x # L2) = L1 @ join (x # L2)"
proof (induction L1)
  case (Cons y L)
  obtain s al where y: "y = (s, al)" by (cases y)
  obtain z K where z: "L @ x # L2 = z # K" "L @ [x] = z # butlast K \<or> True" "z = hd (L @ [x])" by (cases L) auto
  have "al \<or> snd z" using Cons.prems z(3) y by (cases L) auto
  moreover have "coalesced (L @ [x])" using Cons.prems coalesced_tl by simp
  ultimately show ?case using Cons.IH z(1) join_Cons [of al z s K] y by simp
qed simp

lemma chain_append:
  "linked h q a (L1 @ L2) nf \<longleftrightarrow> linked h q a L1 (ff (a + extent L1) L2 nf) \<and> seg h (a + extent L1) L2 nf"
  by (auto simp: linked_def)

lemma linked_upd:
  assumes "y < a \<or> a + extent L \<le> y" "y \<noteq> q" "y < 2 ^ 32" "q < 2 ^ 32" "a + extent L \<le> 2 ^ 32" "sizes_ok L"
  shows "linked (upd_blk (of_nat y) f h) q a L nf = linked h q a L nf"
  using assms by (simp add: linked_def seg_upd of_nat_u32_eq)

lemma heap_rep_linked:
  "heap_rep xStart base L h \<longleftrightarrow>
    sizes_ok L \<and> coalesced L \<and> 8 dvd base \<and> 0 < base \<and> extent L \<le> 65536 \<and> base + extent L + 8 \<le> 2 ^ 32 \<and>
    (unat xStart + 8 \<le> base \<or> base + extent L + 8 \<le> unat xStart) \<and> xBlockSize (blk h xStart) = 0 \<and>
    linked h (unat xStart) base L (base + extent L) \<and> blk_at h (base + extent L) = \<lparr>pxNextFreeBlock = 0, xBlockSize = 0\<rparr> \<and>
    pxEnd h = of_nat (base + extent L) \<and> xFreeBytesRemaining h = of_nat (free_extent L) \<and> xBlockAllocatedBit h = push_bit 31 1"
  by (cases "blk h xStart") (auto simp: heap_rep_def linked_def)

lemma top_bit_clear: "(x :: u32) AND push_bit 31 1 = 0 \<longleftrightarrow> unat x < 2 ^ 31"
proof -
  have "x AND push_bit 31 1 = 0 \<longleftrightarrow> \<not> bit (unat x) 31"
    by (simp only: push_bit_of_1 and_exp_eq_0_iff_not_bit bit_unsigned_iff) simp
  also have "\<dots> \<longleftrightarrow> unat x < 2 ^ 31"
  proof -
    have "unat x < 2 ^ LENGTH(32)" by (rule unsigned_less)
    then have "unat x div 2 ^ 31 < 2" by (simp add: less_mult_imp_div_less)
    then have "unat x div 2 ^ 31 = 0 \<or> unat x div 2 ^ 31 = 1" by linarith
    then have "odd (unat x div 2 ^ 31) \<longleftrightarrow> unat x div 2 ^ 31 \<noteq> 0" by auto
    then show ?thesis by (simp only: bit_iff_odd div_eq_0_iff) simp
  qed
  finally show ?thesis .
qed

lemma word_split_mask: "(x :: u32) = (x AND m) OR (x AND NOT m)"
  by (rule bit_word_eqI) (auto simp: bit_simps)

lemma allocated_mark:
  assumes "s < 2 ^ 31"
  shows "((of_nat s :: u32) OR push_bit 31 1) AND push_bit 31 1 \<noteq> 0"
    "((of_nat s :: u32) OR push_bit 31 1) AND NOT (push_bit 31 1) = of_nat s"
proof -
  have z: "(of_nat s :: u32) AND push_bit 31 1 = 0" using assms unat_of_nat_u32 [of s] by (simp only: top_bit_clear) simp
  have "((of_nat s :: u32) OR push_bit 31 1) AND push_bit 31 1 = push_bit 31 1" by (simp only: bit.conj_disj_distrib2 z) simp
  then show "((of_nat s :: u32) OR push_bit 31 1) AND push_bit 31 1 \<noteq> 0" by simp
  have "(of_nat s :: u32) AND NOT (push_bit 31 1) = of_nat s"
    using word_split_mask [of "of_nat s" "push_bit 31 1"] unfolding z by simp
  then show "((of_nat s :: u32) OR push_bit 31 1) AND NOT (push_bit 31 1) = of_nat s"
    by (simp only: bit.conj_disj_distrib2) simp
qed

lemma and_7: "(x :: u32) AND 7 = of_nat (unat x mod 8)"
proof -
  have "x AND 7 = take_bit 3 x" by (simp add: take_bit_eq_mask mask_eq_exp_minus_1)
  then show ?thesis by (simp add: word_unat_eq_iff unat_mod unat_of_nat_u32 take_bit_eq_mod)
qed

lemma aligned_iff: "x < 2 ^ 32 \<Longrightarrow> (of_nat x :: u32) AND 7 = 0 \<longleftrightarrow> 8 dvd x"
  by (simp add: and_7 unat_of_nat_u32 of_nat_u32_eq [of _ 0, simplified] dvd_eq_mod_eq_0)

definition rounded :: "nat \<Rightarrow> nat" where
  "rounded n = (n + 15) div 8 * 8"

lemma rounded_bounds: "n + 8 \<le> rounded n" "rounded n < n + 16" "8 dvd rounded n"
  by (auto simp: rounded_def)

lemma adjust_size_0: "adjust_size 0 = Inr 0"
  by (simp add: adjust_size_def)

lemma adjust_size_eq:
  assumes "0 < n" "n < 2 ^ 31"
  shows "adjust_size (of_nat n) = Inr (of_nat (rounded n))"
proof -
  have 1: "of_nat n + 8 = (of_nat (n + 8) :: u32)" by simp
  have 2: "(of_nat n :: u32) > 0" "(of_nat (n + 8) :: u32) > of_nat n"
    using assms of_nat_u32_less [of 0 n] of_nat_u32_less [of n "n + 8"] by simp_all
  show ?thesis
  proof (cases "8 dvd n")
    case True
    then have "8 dvd n + 8" by simp
    then have "(of_nat (n + 8) :: u32) AND 7 = 0" using assms by (subst aligned_iff) simp_all
    moreover have "rounded n = n + 8" using True by (auto simp: rounded_def)
    ultimately show ?thesis unfolding adjust_size_def 1 using 2 by (simp del: of_nat_add)
  next
    case False
    then have nz: "(of_nat (n + 8) :: u32) AND 7 \<noteq> 0" using assms by (subst aligned_iff) (simp_all add: dvd_add_left_iff)
    have r: "rounded n = n + 8 + (8 - n mod 8)" 
    proof -
      have m: "n = n div 8 * 8 + n mod 8" "0 < n mod 8" "n mod 8 < 8" using False by (auto simp: dvd_eq_mod_eq_0)
      have "(n + 15) div 8 = n div 8 + 2" using m by (subst m(1)) (simp add: div_add1_eq [of _ 15] flip: add.assoc)
      then show ?thesis unfolding rounded_def using m by linarith
    qed
    have "(of_nat (n + 8) :: u32) AND 7 = of_nat (n mod 8)" using assms by (simp add: and_7 unat_of_nat_u32 del: of_nat_add)
    then have "(of_nat (n + 8) :: u32) + (8 - (of_nat (n + 8) AND 7)) = of_nat (n + 8) + (8 - of_nat (n mod 8))" by simp
    also have "\<dots> = of_nat (rounded n)" by (simp add: r of_nat_diff)
    finally have w: "(of_nat (n + 8) :: u32) + (8 - (of_nat (n + 8) AND 7)) = of_nat (rounded n)" .
    have "(of_nat (n + 8) :: u32) < of_nat (rounded n)" using r assms rounded_bounds(2) [of n] by (subst of_nat_u32_less) auto
    moreover have "(of_nat (rounded n) :: u32) AND 7 = 0" using rounded_bounds [of n] assms by (subst aligned_iff) auto
    ultimately show ?thesis unfolding adjust_size_def 1 using 2 nz w by (simp add: Let_def del: of_nat_add)
  qed
qed

lemma seg_blk: "blk h' = blk h \<Longrightarrow> seg h' a L nf = seg h a L nf"
  by (induction L arbitrary: a rule: extent.induct) auto

lemma linked_blk: "blk h' = blk h \<Longrightarrow> linked h' q a L nf = linked h q a L nf"
  by (simp add: linked_def seg_blk [of h' h])

lemma of_nat_u32_neq: "x \<noteq> y \<Longrightarrow> x < 2 ^ 32 \<Longrightarrow> y < 2 ^ 32 \<Longrightarrow> (of_nat x :: u32) \<noteq> of_nat y"
  by (simp add: of_nat_u32_eq)

lemma linked_updI:
  "linked h q a L nf \<Longrightarrow> y < a \<or> a + extent L \<le> y \<Longrightarrow> y \<noteq> q \<Longrightarrow> y < 2 ^ 32 \<Longrightarrow> q < 2 ^ 32 \<Longrightarrow> a + extent L \<le> 2 ^ 32 \<Longrightarrow> sizes_ok L \<Longrightarrow>
    linked (upd_blk (of_nat y) f h) q a L nf"
  by (simp add: linked_upd)

lemma seg_updI:
  "seg h a L nf \<Longrightarrow> y < a \<or> a + extent L \<le> y \<Longrightarrow> y < 2 ^ 32 \<Longrightarrow> a + extent L \<le> 2 ^ 32 \<Longrightarrow> sizes_ok L \<Longrightarrow>
    seg (upd_blk (of_nat y) f h) a L nf"
  by (simp add: seg_upd)

text \<open>Marking the block between two runs of tiles as allocated.\<close>

lemma linked_mark:
  assumes lk: "linked h q base L1 (ff c L2 e)" and seg: "seg h c L2 e" and sz: "xBlockSize (blk_at h b) = of_nat s"
    and ok: "sizes_ok L1" "sizes_ok L2" "0 < s" and b: "b = base + extent L1" "c = b + s" "c + extent L2 < 2 ^ 32"
    and q: "q < 2 ^ 32" "q < base \<or> c + extent L2 < q"
  shows "linked (upd_blk (of_nat b) (\<lambda>k. k\<lparr>xBlockSize := xBlockSize k OR push_bit 31 1, pxNextFreeBlock := 0\<rparr>) h) q base
    (L1 @ (s, True) # L2) e" (is "linked ?h q base _ e")
proof -
  have "linked ?h q base L1 (ff c L2 e)" using lk ok b q by (subst linked_upd) auto
  moreover have "seg ?h c L2 e" using seg ok b by (subst seg_upd) auto
  moreover have "blk_at ?h b = header s True 0" using sz by (cases "blk_at h b") (simp add: header_def)
  ultimately show ?thesis using b by (simp add: chain_append header_def)
qed

text \<open>Taking a free block out of the list.\<close>

lemma linked_unlink:
  assumes lk: "linked h q base (L1 @ (s, False) # L2) e" and ok: "sizes_ok L1" "sizes_ok L2" "0 < s"
    and b: "b = base + extent L1" "c = b + s" "c + extent L2 < 2 ^ 32" and q: "q < 2 ^ 32" "q < base \<or> c + extent L2 < q"
  defines "h1 \<equiv> upd_blk (of_nat (pv q base L1)) (\<lambda>k. k\<lparr>pxNextFreeBlock := pxNextFreeBlock (blk_at h b)\<rparr>) h"
  shows "linked h1 q base L1 (ff c L2 e)" "seg h1 c L2 e" "blk_at h1 b = header s False (ff c L2 e)"
proof -
  have p: "pv q base L1 = q \<or> base \<le> pv q base L1 \<and> pv q base L1 < b" using pv_bounds [OF ok(1), of q base] b by simp
  have hb: "blk_at h b = header s False (ff c L2 e)" "linked h q base L1 b" "seg h c L2 e" using lk b by (simp_all add: chain_append)
  have nx: "pxNextFreeBlock (blk_at h b) = of_nat (ff c L2 e)" by (simp add: hb header_def)
  show "linked h1 q base L1 (ff c L2 e)" unfolding h1_def nx using hb(2) ok b q by (intro relink) auto
  show "seg h1 c L2 e" unfolding h1_def using hb(3) ok b q p by (subst seg_upd) auto
  have "of_nat b \<noteq> (of_nat (pv q base L1) :: u32)" using p b q ok(3) by (subst of_nat_u32_eq) auto
  then show "blk_at h1 b = header s False (ff c L2 e)" unfolding h1_def using hb(1) by simp
qed

text \<open>Cutting a block: the remainder goes back to the list.\<close>

lemma linked_split:
  assumes lk: "linked h q base L1 (ff c L2 e)" and seg: "seg h c L2 e" and ok: "sizes_ok L1" "sizes_ok L2" "0 < w" "w < s"
    and b: "b = base + extent L1" "c = b + s" "e = c + extent L2" "e < 2 ^ 32" "extent L1 \<le> 65536"
    and q: "q < 2 ^ 32" "q < base \<or> e < q" "xBlockSize (blk_at h q) = 0" and e: "pxEnd h = of_nat e" and a: "absorbed L2 = 0" "rest_of L2 = L2"
  defines "h3 \<equiv> upd_blk (of_nat b) (\<lambda>k. k\<lparr>xBlockSize := of_nat w\<rparr>) (upd_blk (of_nat (b + w)) (\<lambda>k. k\<lparr>xBlockSize := of_nat (s - w)\<rparr>) h)"
  obtains h4 where "prvInsertBlockIntoFreeList (of_nat q) (of_nat (b + w)) h3 = Inr h4"
    "linked h4 q base L1 (b + w)" "seg h4 (b + w) ((s - w, False) # L2) e" "xBlockSize (blk_at h4 b) = of_nat w"
    "h4 = h\<lparr>blk := blk h4\<rparr>" "xBlockSize (blk_at h4 q) = 0" "blk_at h4 e = blk_at h e"
proof -
  let ?p = "pv q base L1" and ?n = "b + w"
  have p: "?p = q \<or> base \<le> ?p \<and> ?p < b" using pv_bounds [OF ok(1), of q base] b by simp
  have neq: "(of_nat b :: u32) \<noteq> of_nat ?n" "(of_nat b :: u32) \<noteq> of_nat ?p" "(of_nat ?n :: u32) \<noteq> of_nat ?p"
    "(of_nat q :: u32) \<noteq> of_nat b" "(of_nat q :: u32) \<noteq> of_nat ?n"
    "(of_nat e :: u32) \<noteq> of_nat b" "(of_nat e :: u32) \<noteq> of_nat ?n" "(of_nat e :: u32) \<noteq> of_nat ?p"
    using p b q ok(3,4) by (intro of_nat_u32_neq; auto)+
  have l3: "linked h3 q base L1 (ff c L2 e)" unfolding h3_def by (intro linked_updI lk) (use ok b q in auto)
  have s3: "seg h3 c L2 e" unfolding h3_def by (intro seg_updI seg) (use ok b in auto)
  have z3: "xBlockSize (blk_at h3 ?n) = of_nat (s - w)" "xBlockSize (blk_at h3 b) = of_nat w" "xBlockSize (blk_at h3 q) = 0" "blk_at h3 e = blk_at h e"
    using neq q(3) unfolding h3_def by (simp_all del: of_nat_add)
  define h4 where "h4 = upd_blk (of_nat ?p) (\<lambda>k. k\<lparr>pxNextFreeBlock := of_nat ?n\<rparr>)
    (upd_blk (of_nat ?n) (\<lambda>_. header (s - w) False (ff c L2 e)) h3)"
  have ins: "prvInsertBlockIntoFreeList (of_nat q) (of_nat ?n) h3 = Inr h4" unfolding h4_def
    using insert_block [OF l3 s3, of "s - w" ?n] ok b q z3 e a by (simp add: h3_def del: of_nat_add)
  have 1: "linked h4 q base L1 ?n" unfolding h4_def
    by (rule relink [OF linked_updI [OF l3]]) (use ok b q in auto)
  have 2: "seg h4 ?n ((s - w, False) # L2) e"
  proof -
    have "seg h4 c L2 e" unfolding h4_def by (intro seg_updI s3) (use ok b q p in auto)
    moreover have "blk_at h4 ?n = header (s - w) False (ff c L2 e)" unfolding h4_def using neq by (simp del: of_nat_add)
    moreover have "?n + (s - w) = c" using b(2) ok(4) by simp
    ultimately show ?thesis by simp
  qed
  have 3: "xBlockSize (blk_at h4 b) = of_nat w" "xBlockSize (blk_at h4 q) = 0" "blk_at h4 e = blk_at h e"
    unfolding h4_def using z3 neq by (auto simp del: of_nat_add)
  have 4: "h4 = h\<lparr>blk := blk h4\<rparr>" by (simp add: h4_def h3_def upd_blk_def)
  show ?thesis using that [OF ins 1 2 3(1) 4 3(2,3)] .
qed

lemma free_extent_append [simp]: "free_extent (L1 @ L2) = free_extent L1 + free_extent L2"
  by (induction L1 rule: free_extent.induct) auto

lemma free_extent_le: "free_extent L \<le> extent L"
  by (induction L rule: extent.induct) auto

lemma free_extent_ge: "(s, False) \<in> set L \<Longrightarrow> s \<le> free_extent L"
  by (induction L rule: extent.induct) auto

lemma coalesced_absorbed: "coalesced ((s, False) # L) \<Longrightarrow> absorbed L = 0 \<and> rest_of L = L"
  by (cases L) auto

lemma coalesced_take:
  assumes "coalesced (L1 @ (s, False) # L2)"
  shows "coalesced (L1 @ (w, True) # (t, False) # L2)" "coalesced (L1 @ (s, True) # L2)"
proof -
  have 2: "coalesced (L1 @ [(x, True)])" if "coalesced (L1 @ [(y, z)])" for x y z
    using that by (induction L1 rule: coalesced.induct) auto
  from assms have a: "coalesced (L1 @ [(s, False)])" "coalesced ((s, False) # L2)" unfolding coalesced_append [of L1 _ L2] by blast+
  have "coalesced ((t, False) # L2)" using a(2) by (cases L2) auto
  then show "coalesced (L1 @ (w, True) # (t, False) # L2)"
    using 2 [OF a(1), of w] by (subst coalesced_append) simp
  have "coalesced ((s, True) # L2)" using a(2) by (cases L2) auto
  then show "coalesced (L1 @ (s, True) # L2)"
    using 2 [OF a(1), of s] by (subst coalesced_append) simp
qed

text \<open>The result of taking the block: the header marked and the counters moved.\<close>

definition taken :: "nat \<Rightarrow> heap4 \<Rightarrow> heap4" where
  "taken b h4 =
    (let free = xFreeBytesRemaining h4 - xBlockSize (blk_at h4 b);
         h5 = h4\<lparr>xFreeBytesRemaining := free,
                 xMinimumEverFreeBytesRemaining :=
                   (if free < xMinimumEverFreeBytesRemaining h4 then free else xMinimumEverFreeBytesRemaining h4)\<rparr>;
         h6 = upd_blk (of_nat b) (\<lambda>k. k\<lparr>xBlockSize := xBlockSize k OR xBlockAllocatedBit h5, pxNextFreeBlock := 0\<rparr>) h5
     in h6\<lparr>xNumberOfSuccessfulAllocations := xNumberOfSuccessfulAllocations h6 + 1\<rparr>)"

lemma taken_rep:
  assumes lk: "linked h q base L1 (ff c L2 e)" and seg: "seg h c L2 e" and sz: "xBlockSize (blk_at h b) = of_nat s"
    and ok: "sizes_ok L1" "sizes_ok L2" "0 < s" "8 dvd s" "coalesced (L1 @ (s, True) # L2)"
    and b: "b = base + extent L1" "c = b + s" "e = c + extent L2" "e + 8 \<le> 2 ^ 32" "extent L1 + s + extent L2 \<le> 65536" "8 dvd base" "0 < base"
    and q: "q < 2 ^ 32" "q + 8 \<le> base \<or> e + 8 \<le> q" "xBlockSize (blk_at h q) = 0"
    and e: "pxEnd h = of_nat e" "blk_at h e = \<lparr>pxNextFreeBlock = 0, xBlockSize = 0\<rparr>" "xBlockAllocatedBit h = push_bit 31 1"
    and fr: "xFreeBytesRemaining h = of_nat (free_extent (L1 @ (s, False) # L2))"
  shows "heap_rep (of_nat q) base (L1 @ (s, True) # L2) (taken b h)"
proof -
  let ?u = "\<lambda>h. upd_blk (of_nat b) (\<lambda>k. k\<lparr>xBlockSize := xBlockSize k OR push_bit 31 1, pxNextFreeBlock := 0\<rparr>) h"
  have t: "blk (taken b h) = blk (?u h)" using e(3) by (simp add: taken_def Let_def upd_blk_def)
  have lk': "linked (taken b h) q base (L1 @ (s, True) # L2) e"
    unfolding linked_blk [OF t] by (rule linked_mark [OF lk seg sz]) (use ok b q in auto)
  have "(of_nat q :: u32) \<noteq> of_nat b" "(of_nat e :: u32) \<noteq> of_nat b" by (intro of_nat_u32_neq; use b q ok in auto)+
  then have "blk_at (taken b h) e = \<lparr>pxNextFreeBlock = 0, xBlockSize = 0\<rparr>" "xBlockSize (blk_at (taken b h) q) = 0"
    unfolding t using e(2) q(3) by simp_all
  moreover have "xFreeBytesRemaining (taken b h) = of_nat (free_extent (L1 @ (s, True) # L2))"
    using fr sz by (simp add: taken_def Let_def)
  moreover have "pxEnd (taken b h) = of_nat e" "xBlockAllocatedBit (taken b h) = push_bit 31 1" using e by (simp_all add: taken_def Let_def)
  ultimately show ?thesis unfolding heap_rep_linked using lk' ok b q
    by (simp add: unat_of_nat_u32 add.assoc del: of_nat_add)
qed

lemma take_block_taken:
  "take_block xStart w prev (of_nat b) h =
    (let ret = pxNextFreeBlock (blk h prev) + xHeapStructSize;
         h1 = upd_blk prev (\<lambda>k. k\<lparr>pxNextFreeBlock := pxNextFreeBlock (blk_at h b)\<rparr>) h
     in rbind (if xBlockSize (blk_at h1 b) - w > heapMINIMUM_BLOCK_SIZE
               then let nb = of_nat b + w
                    in dev_assert (nb AND portBYTE_ALIGNMENT_MASK = 0)
                       (let h2 = upd_blk nb (\<lambda>k. k\<lparr>xBlockSize := xBlockSize (blk_at h1 b) - w\<rparr>) h1;
                            h3 = upd_blk (of_nat b) (\<lambda>k. k\<lparr>xBlockSize := w\<rparr>) h2
                        in prvInsertBlockIntoFreeList xStart nb h3)
               else Inr h1) (\<lambda>h4. Inr (taken b h4, ret)))"
  by (simp add: take_block_def taken_def Let_def)

lemma prev_links:
  assumes "linked h q base L1 nf"
  shows "pxNextFreeBlock (blk_at h (pv q base L1)) = of_nat nf"
proof (cases L1 rule: last_free_cases)
  case none
  then show ?thesis using assms by (simp add: linked_def pv_all_allocated ff_all_allocated)
next
  case (some M p N)
  then show ?thesis using assms by (simp add: linked_def pv_all_allocated ff_all_allocated header_def)
qed

lemma take_block_refines:
  assumes rep: "heap_rep xStart base (L1 @ (s, False) # L2) h" and w: "w \<le> s" "0 < w" "8 dvd w"
  defines "L' \<equiv> L1 @ (if s - w > 16 then (w, True) # (s - w, False) # L2 else (s, True) # L2)"
  shows "\<exists>h4. take_block xStart (of_nat w) (of_nat (pv (unat xStart) base L1)) (of_nat (base + extent L1)) h =
      Inr (taken (base + extent L1) h4, of_nat (base + extent L1 + 8)) \<and>
    heap_rep xStart base L' (taken (base + extent L1) h4) \<and> h4 = h\<lparr>blk := blk h4\<rparr> \<and>
    xBlockSize (blk_at h4 (base + extent L1)) = of_nat (if s - w > 16 then w else s)"
proof -
  let ?q = "unat xStart" and ?b = "base + extent L1" and ?c = "base + extent L1 + s"
  let ?e = "?c + extent L2" and ?p = "pv (unat xStart) base L1"
  note R = rep [unfolded heap_rep_linked]
  have q: "?q < 2 ^ 32" "?q + 8 \<le> base \<or> ?e + 8 \<le> ?q" "xStart = of_nat ?q" using R unsigned_less [of xStart] by (auto simp: add.assoc)
  have ok: "sizes_ok L1" "sizes_ok L2" "0 < s" "8 dvd s" "coalesced (L1 @ (s, False) # L2)" using R by simp_all
  have sz: "?e + 8 \<le> 2 ^ 32" "extent L1 + s + extent L2 \<le> 65536" "8 dvd base" "0 < base" using R by simp_all
  have lk: "linked h ?q base (L1 @ (s, False) # L2) ?e" using R by (simp add: add.assoc)
  define h1 where "h1 = upd_blk (of_nat ?p) (\<lambda>k. k\<lparr>pxNextFreeBlock := pxNextFreeBlock (blk_at h ?b)\<rparr>) h"
  have u: "linked h1 ?q base L1 (ff ?c L2 ?e)" "seg h1 ?c L2 ?e" "blk_at h1 ?b = header s False (ff ?c L2 ?e)"
    unfolding h1_def by (rule linked_unlink [OF lk]; use ok sz q in auto)+
  have pb: "?p = ?q \<or> base \<le> ?p \<and> ?p < ?b" using pv_bounds [OF ok(1), of ?q base] by simp
  have ne: "(of_nat ?e :: u32) \<noteq> of_nat ?p" by (intro of_nat_u32_neq) (use pb ok sz q in auto)
  have k: "xBlockSize (blk_at h1 ?q) = 0" "blk_at h1 ?e = \<lparr>pxNextFreeBlock = 0, xBlockSize = 0\<rparr>" "pxEnd h1 = of_nat ?e"
    "xBlockAllocatedBit h1 = push_bit 31 1" "xFreeBytesRemaining h1 = of_nat (free_extent (L1 @ (s, False) # L2))" "h1 = h\<lparr>blk := blk h1\<rparr>"
    using R ne unfolding h1_def by (auto simp: add.assoc upd_blk_def simp del: of_nat_add)
  have ret: "pxNextFreeBlock (blk_at h ?p) = of_nat ?b" using lk by (intro prev_links) (simp add: chain_append)
  have big: "(of_nat s - of_nat w > heapMINIMUM_BLOCK_SIZE) \<longleftrightarrow> s - w > 16"
    using of_nat_u32_less [of 16 "s - w"] w sz by (simp add: of_nat_diff)
  have T: "take_block xStart (of_nat w) (of_nat ?p) (of_nat ?b) h =
      rbind (if s - w > 16
             then dev_assert ((of_nat (?b + w) :: u32) AND portBYTE_ALIGNMENT_MASK = 0)
                  (prvInsertBlockIntoFreeList xStart (of_nat (?b + w))
                    (upd_blk (of_nat ?b) (\<lambda>k. k\<lparr>xBlockSize := of_nat w\<rparr>) (upd_blk (of_nat (?b + w)) (\<lambda>k. k\<lparr>xBlockSize := of_nat (s - w)\<rparr>) h1)))
             else Inr h1) (\<lambda>h4. Inr (taken ?b h4, of_nat (?b + 8)))"
    unfolding take_block_taken Let_def h1_def [symmetric] ret u(3) using big w by (simp add: header_def of_nat_diff)
  have al: "(of_nat (?b + w) :: u32) AND portBYTE_ALIGNMENT_MASK = 0" 
  proof -
    have "8 dvd extent L1" using ok(1) by (induction L1 rule: extent.induct) auto
    then show ?thesis using sz w by (subst aligned_iff) auto
  qed
  show ?thesis
  proof (cases "s - w > 16")
    case True
    obtain h4 where h4: "prvInsertBlockIntoFreeList (of_nat ?q) (of_nat (?b + w))
        (upd_blk (of_nat ?b) (\<lambda>k. k\<lparr>xBlockSize := of_nat w\<rparr>) (upd_blk (of_nat (?b + w)) (\<lambda>k. k\<lparr>xBlockSize := of_nat (s - w)\<rparr>) h1)) = Inr h4"
      "linked h4 ?q base L1 (?b + w)" "seg h4 (?b + w) ((s - w, False) # L2) ?e" "xBlockSize (blk_at h4 ?b) = of_nat w"
      "h4 = h1\<lparr>blk := blk h4\<rparr>" "xBlockSize (blk_at h4 ?q) = 0" "blk_at h4 ?e = blk_at h1 ?e"
      by (rule linked_split [OF u(1,2), of w s ?b]) (use ok sz q k w True coalesced_absorbed [of s L2] coalesced_append [of L1 "(s, False)" L2] in auto)
    have f4: "pxEnd h4 = pxEnd h1" "xBlockAllocatedBit h4 = xBlockAllocatedBit h1" "xFreeBytesRemaining h4 = xFreeBytesRemaining h1"
      by (subst h4(5), simp)+
    have "heap_rep (of_nat ?q) base (L1 @ (w, True) # (s - w, False) # L2) (taken ?b h4)"
      by (rule taken_rep [where c = "?b + w" and e = ?e]) (use h4 ok sz q k f4 w True coalesced_take [OF ok(5)] in auto)
    moreover have "h4 = h\<lparr>blk := blk h4\<rparr>" by (subst h4(5), subst k(6)) simp
    ultimately show ?thesis unfolding T L'_def using al h4(1,4) True q(3) by (intro exI [of _ h4]) (simp del: of_nat_add)
  next
    case False
    have "heap_rep (of_nat ?q) base (L1 @ (s, True) # L2) (taken ?b h1)"
      by (rule taken_rep [where c = ?c and e = ?e]) (use u ok sz q k coalesced_take [OF ok(5)] in \<open>auto simp: header_def\<close>)
    then show ?thesis unfolding T L'_def using u(3) k(6) False q(3) by (intro exI [of _ h1]) (simp add: header_def del: of_nat_add)
  qed
qed

lemma small_of_nat:
  "\<forall>(t, al) \<in> set L. \<not> al \<longrightarrow> t < w \<Longrightarrow> w < 2 ^ 32 \<Longrightarrow> \<forall>(t, al) \<in> set L. \<not> al \<longrightarrow> (of_nat t :: u32) < of_nat w"
  by (fastforce simp: of_nat_u32_less)

lemma malloc_find_hit:
  assumes rep: "heap_rep xStart base (L1 @ (s, False) # L2) h" and w: "w \<le> s" "\<forall>(t, al) \<in> set L1. \<not> al \<longrightarrow> t < w"
  shows "malloc_find heap_rounds (of_nat w) xStart (pxNextFreeBlock (blk h xStart)) h =
    Inr (of_nat (pv (unat xStart) base L1), of_nat (base + extent L1))"
proof -
  let ?b = "base + extent L1"
  note R = rep [unfolded heap_rep_linked]
  have lk: "linked h (unat xStart) base L1 ?b" and hb: "blk_at h ?b = header s False (ff (?b + s) L2 (?b + s + extent L2))"
    and hd: "pxNextFreeBlock (blk h xStart) = of_nat (ff base L1 ?b)"
    using R by (auto simp: chain_append linked_def add.assoc)
  have fr: "frees L1 \<le> heap_rounds" using frees_le [of L1] R by simp
  have sm: "\<forall>(t, al) \<in> set L1. \<not> al \<longrightarrow> (of_nat t :: u32) < of_nat w"
    by (rule small_of_nat [OF w(2)]) (use w(1) R in simp)
  have "malloc_find (heap_rounds - frees L1 + frees L1) (of_nat w) (of_nat (unat xStart)) (of_nat (ff base L1 ?b)) h =
      malloc_find (heap_rounds - frees L1) (of_nat w) (of_nat (pv (unat xStart) base L1)) (of_nat ?b) h"
    by (rule malloc_find_skip [OF lk]) (use R sm in auto)
  also have "\<dots> = Inr (of_nat (pv (unat xStart) base L1), of_nat ?b)"
    using hb w R of_nat_u32_less [of s w] by (subst malloc_find.simps) (simp add: header_def)
  finally show ?thesis using fr hd by simp
qed

lemma malloc_find_miss:
  assumes rep: "heap_rep xStart base L h" and w: "w < 2 ^ 32" "\<forall>(t, al) \<in> set L. \<not> al \<longrightarrow> t < w"
  shows "malloc_find heap_rounds (of_nat w) xStart (pxNextFreeBlock (blk h xStart)) h =
    Inr (of_nat (pv (unat xStart) base L), of_nat (base + extent L))"
proof -
  let ?e = "base + extent L"
  note R = rep [unfolded heap_rep_linked]
  have lk: "linked h (unat xStart) base L ?e" and he: "blk_at h ?e = \<lparr>pxNextFreeBlock = 0, xBlockSize = 0\<rparr>"
    and hd: "pxNextFreeBlock (blk h xStart) = of_nat (ff base L ?e)"
    using R by (auto simp: linked_def)
  have fr: "frees L \<le> heap_rounds" using frees_le [of L] R by simp
  have sm: "\<forall>(t, al) \<in> set L. \<not> al \<longrightarrow> (of_nat t :: u32) < of_nat w"
    using w(2,1) by (rule small_of_nat)
  have "malloc_find (heap_rounds - frees L + frees L) (of_nat w) (of_nat (unat xStart)) (of_nat (ff base L ?e)) h =
      malloc_find (heap_rounds - frees L) (of_nat w) (of_nat (pv (unat xStart) base L)) (of_nat ?e) h"
    by (rule malloc_find_skip [OF lk]) (use R sm in auto)
  also have "\<dots> = Inr (of_nat (pv (unat xStart) base L), of_nat ?e)"
    using he by (subst malloc_find.simps) simp
  finally show ?thesis using fr hd by simp
qed

text \<open>The request as the abstract allocator sees it.\<close>

definition abs_request :: "nat \<Rightarrow> tiles \<Rightarrow> (nat \<times> tiles) option" where
  "abs_request n L = (if 0 < n \<and> n < 2 ^ 31 then abs_malloc (rounded n) L else None)"

lemma heap_rep_end: "heap_rep xStart base L h \<Longrightarrow> pxEnd h \<noteq> 0"
  using of_nat_u32_eq [of "base + extent L" 0] by (simp add: heap_rep_linked del: of_nat_add)

lemma extent_dvd: "sizes_ok L \<Longrightarrow> 8 dvd extent L"
  by (induction L rule: extent.induct) auto

lemma malloc_fails:
  assumes rep: "heap_rep xStart base L h" and no: "abs_request (unat n) L = None"
  shows "pvPortMalloc xStart ucHeap n h = Inr (h, 0)"
proof -
  note R = rep [unfolded heap_rep_linked]
  have e: "pxEnd h \<noteq> 0" using rep by (rule heap_rep_end)
  consider (top) "\<not> unat n < 2 ^ 31" | (zero) "unat n = 0" | (none) "0 < unat n" "unat n < 2 ^ 31" "abs_malloc (rounded (unat n)) L = None"
    using no by (auto simp: abs_request_def split: if_splits)
  then show ?thesis
  proof cases
    case top
    then have "n AND push_bit 31 1 \<noteq> 0" by (simp only: top_bit_clear) simp
    then show ?thesis using e R by (simp add: pvPortMalloc_def)
  next
    case zero
    then have "n = 0" by (simp add: unat_eq_zero)
    then show ?thesis using e R by (simp add: pvPortMalloc_def adjust_size_0)
  next
    case none
    let ?w = "rounded (unat n)"
    have a: "adjust_size n = Inr (of_nat ?w)" using adjust_size_eq [OF none(1,2)] by simp
    have t: "n AND push_bit 31 1 = 0" using none(2) by (simp only: top_bit_clear)
    have w: "?w < 2 ^ 32" using rounded_bounds(2) [of "unat n"] none(2) by simp
    have f: "malloc_find heap_rounds (of_nat ?w) xStart (pxNextFreeBlock (blk h xStart)) h =
        Inr (of_nat (pv (unat xStart) base L), of_nat (base + extent L))"
      using rep w none(3) unfolding abs_malloc_None by (rule malloc_find_miss)
    have pe: "pxEnd h = of_nat (base + extent L)" using R by simp
    show ?thesis using e R a t unfolding pvPortMalloc_def Let_def by (simp add: f pe del: of_nat_add)
  qed
qed

lemma malloc_succeeds:
  assumes rep: "heap_rep xStart base L h" and yes: "abs_request (unat n) L = Some (off, L')"
  obtains h4 where "pvPortMalloc xStart ucHeap n h = Inr (taken (base + off) h4, of_nat (base + off + 8))"
    "heap_rep xStart base L' (taken (base + off) h4)" "h4 = h\<lparr>blk := blk h4\<rparr>" "\<exists>s. (s, True) \<in> set L' \<and> xBlockSize (blk_at h4 (base + off)) = of_nat s"
proof -
  let ?w = "rounded (unat n)"
  have n: "0 < unat n" "unat n < 2 ^ 31" "abs_malloc ?w L = Some (off, L')" using yes by (auto simp: abs_request_def split: if_splits)
  obtain L1 s L2 where L: "L = L1 @ (s, False) # L2" "off = extent L1" "?w \<le> s" "\<forall>(t, al) \<in> set L1. \<not> al \<longrightarrow> t < ?w"
    "L' = L1 @ (if s - ?w > 16 then (?w, True) # (s - ?w, False) # L2 else (s, True) # L2)"
    using n(3) by (rule abs_malloc_Some)
  note rep' = rep [unfolded L(1)]
  note R = rep [unfolded heap_rep_linked]
  have w: "0 < ?w" "8 dvd ?w" using rounded_bounds [of "unat n"] by auto
  obtain h4 where h4: "take_block xStart (of_nat ?w) (of_nat (pv (unat xStart) base L1)) (of_nat (base + extent L1)) h =
      Inr (taken (base + extent L1) h4, of_nat (base + extent L1 + 8))"
    "heap_rep xStart base L' (taken (base + extent L1) h4)" "h4 = h\<lparr>blk := blk h4\<rparr>"
    "xBlockSize (blk_at h4 (base + extent L1)) = of_nat (if s - ?w > 16 then ?w else s)"
    using take_block_refines [OF rep' L(3) w] L(5) by auto
  have a: "adjust_size n = Inr (of_nat ?w)" using adjust_size_eq [OF n(1,2)] by simp
  have t: "n AND push_bit 31 1 = 0" using n(2) by (simp only: top_bit_clear)
  have f: "malloc_find heap_rounds (of_nat ?w) xStart (pxNextFreeBlock (blk h xStart)) h =
      Inr (of_nat (pv (unat xStart) base L1), of_nat (base + extent L1))"
    using rep' L(3,4) by (rule malloc_find_hit)
  have fx: "s \<le> free_extent L" "free_extent L \<le> 65536" using free_extent_ge [of s L] free_extent_le [of L] R L(1) by auto
  have le: "(of_nat ?w :: u32) > 0" "(of_nat ?w :: u32) \<le> xFreeBytesRemaining h"
    using w fx R L(3) of_nat_u32_less [of 0 ?w] of_nat_u32_less [of "free_extent L" ?w] by (auto simp: not_less [symmetric])
  have ne: "(of_nat (base + extent L1) :: u32) \<noteq> pxEnd h"
    using R L(1) of_nat_u32_neq [of "base + extent L1" "base + extent L"] by simp
  have al: "(of_nat (base + extent L1 + 8) :: u32) AND portBYTE_ALIGNMENT_MASK = 0"
    using R L(1) extent_dvd [of L1] by (subst aligned_iff) auto
  have "pvPortMalloc xStart ucHeap n h = Inr (taken (base + off) h4, of_nat (base + off + 8))"
    using heap_rep_end [OF rep] R a t le ne h4(1) al unfolding pvPortMalloc_def Let_def L(2) by (simp add: f del: of_nat_add)
  then show ?thesis using that h4 L(2,5) by (cases "s - ?w > 16") auto
qed

lemma rest_facts:
  assumes "sizes_ok L"
  shows "absorbed L + extent (rest_of L) = extent L" "sizes_ok (rest_of L)" "seg h c L e \<Longrightarrow> seg h (c + absorbed L) (rest_of L) e"
    "8 dvd absorbed L"
  using assms by (induction L rule: rest_of.induct) auto

lemma join_facts [simp]: "extent (join L) = extent L" "free_extent (join L) = free_extent L"
  by (induction L rule: join.induct) auto

lemma join_sizes: "sizes_ok L \<Longrightarrow> sizes_ok (join L)"
  by (induction L rule: join.induct) auto

lemma coalesced_allocated: "coalesced ((s, True) # L) \<longleftrightarrow> coalesced L"
  by (cases L) auto

lemma join_coalesced: "coalesced (join L)"
  by (induction L rule: join.induct) (auto simp: coalesced_allocated)

lemma join_head: "coalesced L \<Longrightarrow> join ((s, False) # L) = (s + absorbed L, False) # rest_of L"
proof -
  assume c: "coalesced L"
  consider (free) t K where "L = (t, False) # K" | (other) "coalesced ((s, False) # L)" "absorbed L = 0" "rest_of L = L"
    using c by (cases L rule: rest_of.cases) auto
  then show ?thesis
  proof cases
    case free
    then have "coalesced ((s + t, False) # K)" using c by (cases K) auto
    then show ?thesis using free join_id by simp
  next
    case other
    then show ?thesis using join_id by simp
  qed
qed

lemma coalesced_snoc: "coalesced L \<Longrightarrow> L = [] \<or> snd (last L) \<Longrightarrow> coalesced (L @ [x])"
  by (induction L rule: coalesced.induct) auto

text \<open>Where the inserted block lands: in the list as the joined layout says.\<close>

lemma linked_hole:
  assumes "linked h q base M nf" "seg h c L2 e" "sizes_ok M" "sizes_ok L2" "a = base + extent M" "c = a + s" "0 < s"
    "c + extent L2 < 2 ^ 32" "q < 2 ^ 32" "q < base \<or> c + extent L2 < q" "nf = a"
  shows "linked (upd_blk (of_nat a) (\<lambda>_. header (s + absorbed L2) False (ff (c + absorbed L2) (rest_of L2) e)) h) q base
    (M @ (s + absorbed L2, False) # rest_of L2) e" (is "linked ?h q base _ e")
proof -
  note r = rest_facts [OF assms(4)]
  have "linked ?h q base M a" by (rule linked_updI) (use assms in auto)
  moreover have "seg ?h (c + absorbed L2) (rest_of L2) e" by (rule seg_updI [OF r(3) [OF assms(2)]]) (use assms r in auto)
  ultimately show ?thesis using assms(5,6) by (simp add: chain_append add.assoc)
qed

lemma insert_refines:
  assumes lk: "linked h q base L1 (ff c L2 e)" and seg: "seg h c L2 e" and ok: "sizes_ok L1" "sizes_ok L2" "0 < s"
    and co: "coalesced (L1 @ (s, True) # L2)"
    and b: "b = base + extent L1" "c = b + s" "e = c + extent L2" "e < 2 ^ 32" "extent L1 \<le> 65536"
    and q: "q < 2 ^ 32" "q < base \<or> e < q" "xBlockSize (blk_at h q) = 0"
    and sz: "xBlockSize (blk_at h b) = of_nat s" and e: "pxEnd h = of_nat e"
  obtains h3 where "prvInsertBlockIntoFreeList (of_nat q) (of_nat b) h = Inr h3" "linked h3 q base (join (L1 @ (s, False) # L2)) e"
    "h3 = h\<lparr>blk := blk h3\<rparr>" "xBlockSize (blk_at h3 q) = 0" "blk_at h3 e = blk_at h e"
proof -
  let ?H = "\<lambda>s. header (s + absorbed L2) False (ff (c + absorbed L2) (rest_of L2) e)"
  have co2: "coalesced L2" using co coalesced_append [of L1 "(s, True)" L2] by (simp add: coalesced_allocated)
  have co1: "coalesced L1" using co by (induction L1 rule: coalesced.induct) auto
  show ?thesis
  proof (cases "\<exists>M p. L1 = M @ [(p, False)]")
    case True
    then obtain M p where L1: "L1 = M @ [(p, False)]" by blast
    let ?a = "base + extent M"
    define h3 where "h3 = upd_blk (of_nat ?a) (\<lambda>_. ?H (p + s)) h"
    have 1: "prvInsertBlockIntoFreeList (of_nat q) (of_nat b) h = Inr h3" unfolding h3_def
      by (rule insert_merge) (use lk seg ok b q sz e in \<open>auto simp: L1\<close>)
    have "linked h3 q base (M @ (p + s + absorbed L2, False) # rest_of L2) e" unfolding h3_def
      by (rule linked_hole) (use lk seg ok b q in \<open>auto simp: L1 chain_append\<close>)
    moreover have "join (L1 @ (s, False) # L2) = M @ (p + s + absorbed L2, False) # rest_of L2"
      using co1 co2 by (simp add: L1 join_append join_head)
    ultimately have 2: "linked h3 q base (join (L1 @ (s, False) # L2)) e" by simp
    have "(of_nat q :: u32) \<noteq> of_nat ?a" "(of_nat e :: u32) \<noteq> of_nat ?a" by (intro of_nat_u32_neq; use b q ok in \<open>auto simp: L1\<close>)+
    then have 3: "xBlockSize (blk_at h3 q) = 0" "blk_at h3 e = blk_at h e" unfolding h3_def using q(3) by (simp_all del: of_nat_add)
    show ?thesis using that [OF 1 2 _ 3] by (simp add: h3_def upd_blk_def)
  next
    case False
    let ?p = "pv q base L1"
    define h3 where "h3 = upd_blk (of_nat ?p) (\<lambda>k. k\<lparr>pxNextFreeBlock := of_nat b\<rparr>) (upd_blk (of_nat b) (\<lambda>_. ?H s) h)"
    have 1: "prvInsertBlockIntoFreeList (of_nat q) (of_nat b) h = Inr h3" unfolding h3_def
      by (rule insert_block [OF lk seg]) (use ok b q sz e False in auto)
    have p: "?p = q \<or> base \<le> ?p \<and> ?p < b" using pv_bounds [OF ok(1), of q base] b by simp
    have "linked h3 q base (L1 @ (s + absorbed L2, False) # rest_of L2) e"
    proof -
      note r = rest_facts [OF ok(2)]
      have "linked h3 q base L1 b" unfolding h3_def by (rule relink [OF linked_updI [OF lk]]) (use ok b q in auto)
      moreover have "seg h3 (c + absorbed L2) (rest_of L2) e" unfolding h3_def
        by (rule seg_updI [OF seg_updI [OF r(3) [OF seg]]]) (use ok b q p r in auto)
      moreover have "(of_nat b :: u32) \<noteq> of_nat ?p" by (intro of_nat_u32_neq) (use p b q ok in auto)
      then have "blk_at h3 b = ?H s" unfolding h3_def by simp
      ultimately show ?thesis using b(1,2) by (simp add: chain_append add.assoc)
    qed
    moreover have "join (L1 @ (s, False) # L2) = L1 @ (s + absorbed L2, False) # rest_of L2"
    proof -
      have "L1 = [] \<or> snd (last L1)" using False by (metis append_butlast_last_id prod.collapse)
      with co1 have "coalesced (L1 @ [(s, False)])" by (rule coalesced_snoc)
      then show ?thesis using co2 by (simp add: join_append join_head)
    qed
    ultimately have 2: "linked h3 q base (join (L1 @ (s, False) # L2)) e" by simp
    have "(of_nat q :: u32) \<noteq> of_nat b" "(of_nat e :: u32) \<noteq> of_nat b" "(of_nat e :: u32) \<noteq> of_nat ?p"
      by (intro of_nat_u32_neq; use b q ok p in auto)+
    then have 3: "xBlockSize (blk_at h3 q) = 0" "blk_at h3 e = blk_at h e" unfolding h3_def using q(3) by (auto simp del: of_nat_add)
    show ?thesis using that [OF 1 2 _ 3] by (simp add: h3_def upd_blk_def)
  qed
qed

lemma free_refines:
  assumes rep: "heap_rep xStart base L h" and fr: "abs_free off L = Some L'"
  obtains h' where "vPortFree xStart (of_nat (base + off + 8)) h = Inr h'" "heap_rep xStart base L' h'"
    "xMinimumEverFreeBytesRemaining h' = xMinimumEverFreeBytesRemaining h"
    "xNumberOfSuccessfulAllocations h' = xNumberOfSuccessfulAllocations h"
    "xNumberOfSuccessfulFrees h' = xNumberOfSuccessfulFrees h + 1"
proof -
  obtain L1 s L2 where L: "L = L1 @ (s, True) # L2" "off = extent L1" "L' = join (L1 @ (s, False) # L2)"
    using fr by (auto simp: abs_free_def elim: mark_free_Some)
  let ?q = "unat xStart" and ?b = "base + extent L1" and ?c = "base + extent L1 + s" and ?e = "base + extent L1 + s + extent L2"
  note R = rep [unfolded heap_rep_linked L(1)]
  have q: "?q < 2 ^ 32" "?q + 8 \<le> base \<or> ?e + 8 \<le> ?q" "xStart = of_nat ?q" using R unsigned_less [of xStart] by (auto simp: add.assoc)
  have ok: "sizes_ok L1" "sizes_ok L2" "0 < s" "8 dvd s" "coalesced (L1 @ (s, True) # L2)" using R by simp_all
  have sz: "?e + 8 \<le> 2 ^ 32" "extent L1 + s + extent L2 \<le> 65536" "8 dvd base" "0 < base" using R by simp_all
  have lk: "linked h ?q base L1 (ff ?c L2 ?e)" "seg h ?c L2 ?e" "blk_at h ?b = header s True 0"
    using R by (simp_all add: chain_append header_def add.assoc)
  have hb: "pxNextFreeBlock (blk_at h ?b) = 0" "xBlockSize (blk_at h ?b) = of_nat s OR push_bit 31 1" unfolding lk(3) by (simp_all add: header_def)
  define h2 where "h2 = (upd_blk (of_nat ?b) (\<lambda>k. k\<lparr>xBlockSize := of_nat s\<rparr>) h)\<lparr>xFreeBytesRemaining := xFreeBytesRemaining h + of_nat s\<rparr>"
  have b2: "blk h2 = blk (upd_blk (of_nat ?b) (\<lambda>k. k\<lparr>xBlockSize := of_nat s\<rparr>) h)" by (simp add: h2_def)
  have l2: "linked h2 ?q base L1 (ff ?c L2 ?e)" unfolding linked_blk [OF b2] by (rule linked_updI [OF lk(1)]) (use ok sz q in auto)
  have s2: "seg h2 ?c L2 ?e" unfolding seg_blk [OF b2] by (rule seg_updI [OF lk(2)]) (use ok sz q in auto)
  have ne: "(of_nat ?q :: u32) \<noteq> of_nat ?b" "(of_nat ?e :: u32) \<noteq> of_nat ?b" by (intro of_nat_u32_neq; use ok sz q in auto)+
  have z2: "xBlockSize (blk_at h2 ?b) = of_nat s" "xBlockSize (blk_at h2 ?q) = 0" "blk_at h2 ?e = \<lparr>pxNextFreeBlock = 0, xBlockSize = 0\<rparr>"
    "pxEnd h2 = of_nat ?e"
    unfolding b2 using ne R by (auto simp: add.assoc h2_def simp del: of_nat_add)
  obtain h3 where h3: "prvInsertBlockIntoFreeList (of_nat ?q) (of_nat ?b) h2 = Inr h3" "linked h3 ?q base L' ?e"
    "h3 = h2\<lparr>blk := blk h3\<rparr>" "xBlockSize (blk_at h3 ?q) = 0" "blk_at h3 ?e = blk_at h2 ?e"
    unfolding L(3) by (rule insert_refines [OF l2 s2]) (use ok sz q z2 in auto)
  have f3: "f h3 = f h2" if "f = xMinimumEverFreeBytesRemaining \<or> f = xNumberOfSuccessfulAllocations \<or> f = xNumberOfSuccessfulFrees \<or>
      f = xFreeBytesRemaining \<or> f = pxEnd \<or> f = xBlockAllocatedBit" for f using that by (subst h3(3)) auto
  define h' where "h' = h3\<lparr>xNumberOfSuccessfulFrees := xNumberOfSuccessfulFrees h3 + 1\<rparr>"
  have "(of_nat (?b + 8) :: u32) \<noteq> 0" using of_nat_u32_neq [of "?b + 8" 0] sz ok(3) by simp
  moreover have "(of_nat (?b + 8) :: u32) - 8 = of_nat ?b" by simp
  ultimately have "vPortFree xStart (of_nat (?b + 8)) h = Inr h'"
    unfolding vPortFree_def Let_def using hb allocated_mark [of s] sz R h3(1) q(3)
    by (simp add: h2_def h'_def upd_blk_def del: of_nat_add push_bit_of_1)
  moreover have "heap_rep xStart base L' h'" unfolding heap_rep_linked
  proof (intro conjI)
    show "linked h' ?q base L' (base + extent L')" using h3(2) linked_blk [of h' h3] by (simp add: h'_def L(3) add.assoc)
    show "coalesced L'" "sizes_ok L'" using ok by (simp_all add: L(3) join_coalesced join_sizes)
    show "xFreeBytesRemaining h' = of_nat (free_extent L')" using R by (simp add: h'_def f3 L(3) h2_def)
  qed (use sz q h3(4,5) z2 R in \<open>auto simp: L(3) h'_def f3 h2_def add.assoc simp del: of_nat_add\<close>)
  ultimately show ?thesis using that L(2) by (simp add: h'_def f3 h2_def)
qed

text \<open>The first call sets the heap up: one free block from the aligned start to the end marker.\<close>

definition heap_place :: "u32 \<Rightarrow> u32 \<Rightarrow> bool" where
  "heap_place xStart ucHeap \<longleftrightarrow> 0 < ucHeap \<and> unat ucHeap + 65536 \<le> 2 ^ 32 \<and>
    (unat xStart + 8 \<le> unat ucHeap \<or> unat ucHeap + 65536 \<le> unat xStart)"

definition heap_base :: "u32 \<Rightarrow> nat" where
  "heap_base ucHeap = (unat ucHeap + 7) div 8 * 8"

definition heap_size :: "u32 \<Rightarrow> nat" where
  "heap_size ucHeap = (unat ucHeap + 65528) div 8 * 8 - heap_base ucHeap"

lemma and_not_7: "(x :: u32) AND NOT 7 = of_nat (unat x div 8 * 8)"
proof -
  have "x AND NOT (mask 3) = push_bit 3 (drop_bit 3 x)" by (rule bit_word_eqI) (auto simp: bit_simps)
  also have "mask 3 = (7 :: u32)" by (simp add: mask_eq_exp_minus_1)
  also have "push_bit 3 (drop_bit 3 x) = of_nat (unat x div 8 * 8)" by (simp add: push_bit_eq_mult drop_bit_eq_div word_arith_nat_div)
  finally show ?thesis .
qed

lemma heap_size_bounds:
  assumes "heap_place xStart ucHeap"
  shows "unat ucHeap \<le> heap_base ucHeap" "heap_base ucHeap < unat ucHeap + 8" "8 dvd heap_base ucHeap" "8 dvd heap_size ucHeap"
    "65512 < heap_size ucHeap" "heap_base ucHeap + heap_size ucHeap + 8 \<le> unat ucHeap + 65536"
    "heap_base ucHeap + heap_size ucHeap = (unat ucHeap + 65528) div 8 * 8"
  by (auto simp: heap_base_def heap_size_def)

lemma heap_init_rep:
  assumes "heap_place xStart ucHeap"
  shows "heap_rep xStart (heap_base ucHeap) [(heap_size ucHeap, False)] (prvHeapInit xStart ucHeap h)"
    "xMinimumEverFreeBytesRemaining (prvHeapInit xStart ucHeap h) = of_nat (heap_size ucHeap)"
proof -
  note B = heap_size_bounds [OF assms]
  note P = assms [unfolded heap_place_def]
  let ?e = "heap_base ucHeap + heap_size ucHeap"
  have base: "(if ucHeap AND 7 \<noteq> 0 then let a = (ucHeap + 7) AND NOT 7 in (a, configTOTAL_HEAP_SIZE - (a - ucHeap)) else (ucHeap, configTOTAL_HEAP_SIZE)) =
      (of_nat (heap_base ucHeap), configTOTAL_HEAP_SIZE - (of_nat (heap_base ucHeap) - ucHeap))"
  proof (cases "8 dvd unat ucHeap")
    case True
    then have "heap_base ucHeap = unat ucHeap" by (auto simp: heap_base_def)
    then show ?thesis using True aligned_iff [of "unat ucHeap"] P by simp
  next
    case False
    have "unat (ucHeap + 7) = unat ucHeap + 7" using P by (simp add: unat_word_ariths)
    then have "(ucHeap + 7) AND NOT 7 = of_nat (heap_base ucHeap)" by (simp only: and_not_7 heap_base_def)
    moreover have "ucHeap AND 7 \<noteq> 0" using False aligned_iff [of "unat ucHeap"] P by simp
    ultimately show ?thesis by (simp only: Let_def) simp
  qed
  have end_eq: "(of_nat (heap_base ucHeap) + (configTOTAL_HEAP_SIZE - (of_nat (heap_base ucHeap) - ucHeap)) - 8) AND NOT 7 = of_nat ?e"
  proof -
    have "of_nat (heap_base ucHeap) + (configTOTAL_HEAP_SIZE - (of_nat (heap_base ucHeap) - ucHeap)) - 8 = of_nat (unat ucHeap + 65528)" by simp
    then show ?thesis using P B(7) by (simp only: and_not_7) (simp add: unat_of_nat_u32 del: of_nat_add)
  qed
  have sz: "of_nat ?e - of_nat (heap_base ucHeap) = (of_nat (heap_size ucHeap) :: u32)" by simp
  define xs where "xs = unat xStart"
  have xs: "xStart = of_nat xs" "xs < 2 ^ 32" "xs + 8 \<le> heap_base ucHeap \<or> ?e + 8 \<le> xs"
    using P B unsigned_less [of xStart] by (auto simp: xs_def)
  have ne: "(of_nat ?e :: u32) \<noteq> of_nat (heap_base ucHeap)" "(of_nat xs :: u32) \<noteq> of_nat ?e" "(of_nat xs :: u32) \<noteq> of_nat (heap_base ucHeap)"
    by (intro of_nat_u32_neq; use P B xs in auto)+
  note I = prvHeapInit_def [of xStart ucHeap h, unfolded base, unfolded Let_def prod.case, unfolded end_eq sz]
  show "heap_rep xStart (heap_base ucHeap) [(heap_size ucHeap, False)] (prvHeapInit xStart ucHeap h)"
    unfolding heap_rep_linked
  proof (intro conjI)
    show "linked (prvHeapInit xStart ucHeap h) (unat xStart) (heap_base ucHeap) [(heap_size ucHeap, False)]
        (heap_base ucHeap + extent [(heap_size ucHeap, False)])"
      unfolding linked_def I using ne unfolding xs_def by (simp add: header_def del: of_nat_add)
    show "blk_at (prvHeapInit xStart ucHeap h) (heap_base ucHeap + extent [(heap_size ucHeap, False)]) = \<lparr>pxNextFreeBlock = 0, xBlockSize = 0\<rparr>"
      unfolding I using ne by (simp del: of_nat_add)
    show "xBlockSize (blk (prvHeapInit xStart ucHeap h) xStart) = 0"
      unfolding I using ne unfolding xs_def by (simp del: of_nat_add)
    show "0 < heap_base ucHeap" using P B(1) by (simp add: word_less_nat_alt)
    show "unat xStart + 8 \<le> heap_base ucHeap \<or> heap_base ucHeap + extent [(heap_size ucHeap, False)] + 8 \<le> unat xStart"
      using xs(3) by (simp add: xs_def)
    show "extent [(heap_size ucHeap, False)] \<le> 65536" "heap_base ucHeap + extent [(heap_size ucHeap, False)] + 8 \<le> 2 ^ 32"
      using B P by auto
  qed (use B in \<open>simp_all add: I del: of_nat_add\<close>)
  show "xMinimumEverFreeBytesRemaining (prvHeapInit xStart ucHeap h) = of_nat (heap_size ucHeap)"
    unfolding I by simp
qed

fun live_at :: "nat \<Rightarrow> tiles \<Rightarrow> (nat \<times> nat) set" where
  "live_at a [] = {}"
| "live_at a ((s, al) # L) = (if al then {(a + 8, s - 8)} else {}) \<union> live_at (a + s) L"

lemma live_append [simp]: "live_at a (L1 @ L2) = live_at a L1 \<union> live_at (a + extent L1) L2"
  by (induction L1 arbitrary: a rule: extent.induct) (auto simp: add.assoc)

lemma live_join [simp]: "live_at a (join L) = live_at a L"
  by (induction L arbitrary: a rule: join.induct) (simp_all add: add.assoc)

lemma live_bounds: "(p, m) \<in> live_at a L \<Longrightarrow> sizes_ok L \<Longrightarrow> a + 8 \<le> p \<and> p + m \<le> a + extent L"
proof (induction L arbitrary: a rule: extent.induct)
  case (2 s al L)
  consider "al" "p = a + 8" "m = s - 8" | "(p, m) \<in> live_at (a + s) L" using "2.prems"(1) by (auto split: if_splits)
  then show ?case
  proof cases
    case 1
    moreover have "8 \<le> s" using "2.prems"(2) by (auto dest: dvd_imp_le)
    ultimately show ?thesis by simp
  next
    case 2
    then have "a + s + 8 \<le> p \<and> p + m \<le> a + s + extent L" using "2.prems"(2) by (intro "2.IH") simp_all
    then show ?thesis by simp
  qed
qed simp

lemma live_aligned: "(p, m) \<in> live_at a L \<Longrightarrow> sizes_ok L \<Longrightarrow> 8 dvd a \<Longrightarrow> 8 dvd p"
  by (induction L arbitrary: a rule: extent.induct) (auto split: if_splits)

lemma live_apart:
  assumes "(p, m) \<in> live_at a L" "(p', m') \<in> live_at a L" "sizes_ok L" "(p, m) \<noteq> (p', m')"
  shows "p + m + 8 \<le> p' \<or> p' + m' + 8 \<le> p"
  using assms
proof (induction L arbitrary: a rule: extent.induct)
  case (2 s al L)
  have s: "8 \<le> s" "sizes_ok L" using "2.prems"(3) by (auto dest: dvd_imp_le)
  have b: "a + s + 8 \<le> x" if "(x, y) \<in> live_at (a + s) L" for x y using live_bounds [OF that s(2)] by simp
  have ih: "p + m + 8 \<le> p' \<or> p' + m' + 8 \<le> p" if "(p, m) \<in> live_at (a + s) L" "(p', m') \<in> live_at (a + s) L"
    using that s(2) "2.prems"(4) by (intro "2.IH")
  consider "(p, m) \<in> live_at (a + s) L" "(p', m') \<in> live_at (a + s) L"
    | "p = a + 8" "m = s - 8" "(p', m') \<in> live_at (a + s) L" | "p' = a + 8" "m' = s - 8" "(p, m) \<in> live_at (a + s) L"
    using "2.prems" by (auto split: if_splits)
  then show ?case using ih b s(1) by cases auto
qed simp

lemma live_mark_free: "(p, m) \<in> live_at a L \<Longrightarrow> sizes_ok L \<Longrightarrow> \<exists>L1 s L2. L = L1 @ (s, True) # L2 \<and> p = a + extent L1 + 8 \<and> m = s - 8"
proof (induction L arbitrary: a rule: extent.induct)
  case (2 s al L)
  show ?case
  proof (cases "al \<and> (p, m) = (a + 8, s - 8)")
    case True
    then show ?thesis by (intro exI [of _ "[]"] exI [of _ s] exI [of _ L]) simp
  next
    case False
    then have "(p, m) \<in> live_at (a + s) L" using "2.prems"(1) by (auto split: if_splits)
    then obtain L1 t L2 where "L = L1 @ (t, True) # L2 \<and> p = a + s + extent L1 + 8 \<and> m = t - 8" using "2.IH" [of "a + s"] "2.prems"(2) by auto
    then show ?thesis by (intro exI [of _ "(s, al) # L1"] exI [of _ t] exI [of _ L2]) simp
  qed
qed simp

text \<open>The abstract operations on the set of live blocks.\<close>

lemma live_fst_inj: "(p, m) \<in> live_at a L \<Longrightarrow> (p, m') \<in> live_at a L \<Longrightarrow> sizes_ok L \<Longrightarrow> m = m'"
  using live_apart [of p m a L p m'] by auto

lemma abs_free_live:
  assumes "(p, m) \<in> live_at a L" "sizes_ok L"
  obtains L' where "abs_free (p - 8 - a) L = Some L'" "live_at a L' = live_at a L - {(p, m)}" "extent L' = extent L" "p = a + (p - 8 - a) + 8"
proof -
  obtain L1 s L2 where L: "L = L1 @ (s, True) # L2" "p = a + extent L1 + 8" "m = s - 8" using live_mark_free [OF assms] by blast
  have "mark_free (extent L1) L = Some (L1 @ (s, False) # L2)" unfolding L(1) using assms(2) L(1) by (intro mark_free_at) simp
  then have "abs_free (p - 8 - a) L = Some (join (L1 @ (s, False) # L2))" by (simp add: abs_free_def L(2))
  moreover have "(p, m) \<notin> live_at a L1" "(p, m) \<notin> live_at (a + extent L1 + s) L2"
    using live_bounds [of p m a L1] live_bounds [of p m "a + extent L1 + s" L2] assms(2) L by auto
  then have "live_at a (join (L1 @ (s, False) # L2)) = live_at a L - {(p, m)}" using L by auto
  ultimately show ?thesis using that L by simp
qed

lemma abs_malloc_live:
  assumes "abs_malloc w L = Some (off, L')" "sizes_ok L" "0 < w" "8 dvd w"
  obtains s where "w \<le> s" "live_at a L' = insert (a + off + 8, s - 8) (live_at a L)" "extent L' = extent L"
    "\<forall>(p, m) \<in> live_at a L. p \<noteq> a + off + 8" "sizes_ok L'"
proof -
  obtain L1 s L2 where L: "L = L1 @ (s, False) # L2" "off = extent L1" "w \<le> s"
    "L' = L1 @ (if s - w > 16 then (w, True) # (s - w, False) # L2 else (s, True) # L2)"
    using assms(1) by (rule abs_malloc_Some)
  have out: "\<forall>(p, m) \<in> live_at a L. p \<noteq> a + off + 8"
    using live_bounds [of _ _ a L1] live_bounds [of _ _ "a + extent L1 + s" L2] assms(2) L(1,2) by fastforce
  have dv: "8 dvd s - w" if "w < s" using that assms(2,4) L(1) by simp
  show ?thesis
  proof (cases "s - w > 16")
    case True
    have "live_at a L' = insert (a + off + 8, w - 8) (live_at a L)" using L True by (auto simp: add.assoc)
    then show ?thesis using that [of w] out L True assms dv by simp
  next
    case False
    have "live_at a L' = insert (a + off + 8, s - 8) (live_at a L)" using L False by (auto simp: add.assoc)
    then show ?thesis using that [of s] out L False assms by simp
  qed
qed

lemma all_free: "coalesced L \<Longrightarrow> sizes_ok L \<Longrightarrow> live_at a L = {} \<Longrightarrow> L = [] \<or> L = [(extent L, False)]"
proof (cases L)
  case (Cons x K)
  assume c: "coalesced L" "live_at a L = {}"
  obtain s al where x: "x = (s, al)" by (cases x)
  have "\<not> al" using c(2) Cons x by auto
  moreover have "K = []"
  proof (cases K)
    case (Cons y J)
    then show ?thesis using c \<open>L = x # K\<close> x \<open>\<not> al\<close> by (cases y) (auto split: if_splits)
  qed
  ultimately show ?thesis using Cons x by simp
qed simp

lemma heap_rep_live:
  assumes "heap_rep xStart base L h"
  shows "(p, m) \<in> live_at base L \<Longrightarrow> p + m < 2 ^ 32"
    "(p, m) \<in> live_at base L \<Longrightarrow> (q, k) \<in> live_at base L \<Longrightarrow> (p, m) \<noteq> (q, k) \<Longrightarrow> p + m < q \<or> q + k < p"
proof -
  note R = assms [unfolded heap_rep_linked]
  show "p + m < 2 ^ 32" if "(p, m) \<in> live_at base L" using live_bounds [OF that] R by auto
  show "p + m < q \<or> q + k < p" if "(p, m) \<in> live_at base L" "(q, k) \<in> live_at base L" "(p, m) \<noteq> (q, k)"
    using live_apart [OF that(1,2) _ that(3)] R by auto
qed

lemma malloc_live:
  assumes rep: "heap_rep xStart base L h"
  shows "pvPortMalloc xStart ucHeap n h = Inr (h, 0) \<or>
    (\<exists>L' h' p m. pvPortMalloc xStart ucHeap n h = Inr (h', of_nat p) \<and> heap_rep xStart base L' h' \<and> 0 < p \<and> unat n \<le> m \<and>
      extent L' = extent L \<and> live_at base L' = insert (p, m) (live_at base L) \<and> (\<forall>(q, k) \<in> live_at base L. q \<noteq> p))"
proof (cases "abs_request (unat n) L")
  case None
  then show ?thesis using malloc_fails [OF rep] by simp
next
  case (Some r)
  obtain off L' where r: "abs_request (unat n) L = Some (off, L')" using Some by (cases r) auto
  obtain h4 where h4: "pvPortMalloc xStart ucHeap n h = Inr (taken (base + off) h4, of_nat (base + off + 8))"
    "heap_rep xStart base L' (taken (base + off) h4)"
    by (rule malloc_succeeds [OF rep r]) blast
  have "abs_malloc (rounded (unat n)) L = Some (off, L')" using r by (auto simp: abs_request_def split: if_splits)
  moreover have "sizes_ok L" using rep by (simp add: heap_rep_def)
  moreover have w: "unat n + 8 \<le> rounded (unat n)" "8 dvd rounded (unat n)" by (rule rounded_bounds)+
  ultimately obtain s where s: "rounded (unat n) \<le> s" "live_at base L' = insert (base + off + 8, s - 8) (live_at base L)" "extent L' = extent L"
    "\<forall>(p, m) \<in> live_at base L. p \<noteq> base + off + 8"
    by (rule_tac a = base in abs_malloc_live) auto
  show ?thesis using h4 s w
    by (intro disjI2 exI [of _ L'] exI [of _ "taken (base + off) h4"] exI [of _ "base + off + 8"] exI [of _ "s - 8"]) simp
qed

lemma free_live:
  assumes rep: "heap_rep xStart base L h" and l: "(p, m) \<in> live_at base L"
  shows "\<exists>L' h'. vPortFree xStart (of_nat p) h = Inr h' \<and> heap_rep xStart base L' h' \<and> extent L' = extent L \<and> live_at base L' = live_at base L - {(p, m)}"
proof -
  have "sizes_ok L" using rep by (simp add: heap_rep_def)
  then obtain L' where L': "abs_free (p - 8 - base) L = Some L'" "live_at base L' = live_at base L - {(p, m)}" "extent L' = extent L"
    "p = base + (p - 8 - base) + 8" using l by (rule_tac abs_free_live)
  obtain h' where "vPortFree xStart (of_nat (base + (p - 8 - base) + 8)) h = Inr h'" "heap_rep xStart base L' h'"
    by (rule free_refines [OF rep L'(1)]) blast
  then show ?thesis using L' by metis
qed

definition heap_rep_size :: "u32 \<Rightarrow> nat \<Rightarrow> nat \<Rightarrow> tiles \<Rightarrow> heap4 \<Rightarrow> bool" where
  "heap_rep_size xStart base n L h \<longleftrightarrow> heap_rep xStart base L h \<and> extent L = n"

interpretation heap4: allocator "heap_rep_size xStart base size" "live_at base" "pvPortMalloc xStart ucHeap" "vPortFree xStart"
  for xStart base size ucHeap
proof unfold_locales
  fix L h n p m q k
  assume rep: "heap_rep_size xStart base size L h"
  show "pvPortMalloc xStart ucHeap n h = Inr (h, 0) \<or>
      (\<exists>L' h' p m. pvPortMalloc xStart ucHeap n h = Inr (h', of_nat p) \<and> heap_rep_size xStart base size L' h' \<and> 0 < p \<and> unat n \<le> m \<and>
        live_at base L' = insert (p, m) (live_at base L) \<and> (\<forall>(q, k) \<in> live_at base L. q \<noteq> p))"
    using malloc_live [of xStart base L h ucHeap n] rep unfolding heap_rep_size_def by metis
  show "\<exists>L' h'. vPortFree xStart (of_nat p) h = Inr h' \<and> heap_rep_size xStart base size L' h' \<and> live_at base L' = live_at base L - {(p, m)}"
    if "(p, m) \<in> live_at base L"
    using free_live [OF _ that, of xStart h] rep unfolding heap_rep_size_def by metis
  show "p + m < 2 ^ 32" if "(p, m) \<in> live_at base L"
    using heap_rep_live(1) [OF _ that] rep unfolding heap_rep_size_def by blast
  show "p + m < q \<or> q + k < p" if "(p, m) \<in> live_at base L" "(q, k) \<in> live_at base L" "(p, m) \<noteq> (q, k)"
    using heap_rep_live(2) [OF _ that] rep unfolding heap_rep_size_def by blast
qed

lemma malloc_first:
  assumes "pxEnd h = 0" "heap_place xStart ucHeap"
  shows "pvPortMalloc xStart ucHeap n h = pvPortMalloc xStart ucHeap n (prvHeapInit xStart ucHeap h)"
  using assms heap_rep_end [OF heap_init_rep(1) [OF assms(2)]] by (simp add: pvPortMalloc_def)

section \<open>Statistics\<close>

definition free_sizes :: "tiles \<Rightarrow> nat list" where
  "free_sizes L = map fst (filter (\<lambda>x. \<not> snd x) L)"

lemma free_sizes_simps [simp]:
  "free_sizes [] = []" "free_sizes ((s, True) # L) = free_sizes L" "free_sizes ((s, False) # L) = s # free_sizes L"
  by (simp_all add: free_sizes_def)

lemma stats_loop_end:
  assumes "free_sizes L = []"
  shows "ff a L nf = nf"
  using assms by (intro ff_all_allocated) (auto simp: free_sizes_def filter_empty_conv)

lemma ff_some_free: "free_sizes L \<noteq> [] \<Longrightarrow> sizes_ok L \<Longrightarrow> a \<le> ff a L nf \<and> ff a L nf < a + extent L"
proof (induction L arbitrary: a rule: extent.induct)
  case (2 s al L)
  show ?case
  proof (cases al)
    case True
    have "a + s \<le> ff (a + s) L nf \<and> ff (a + s) L nf < a + s + extent L" using "2.prems" True by (intro "2.IH") auto
    then show ?thesis using True by simp
  qed (use "2.prems" in auto)
qed simp

lemma frees_length: "frees L = length (free_sizes L)"
proof (induction L rule: frees.induct)
  case (2 s al L)
  then show ?case by (cases al) simp_all
qed simp

lemma stats_loop_sizes:
  assumes "seg h a L e" "sizes_ok L" "0 < a" "a + extent L \<le> e" "e < 2 ^ 32" "pxEnd h = of_nat e" "free_sizes L \<noteq> []" "frees L \<le> Suc n"
  shows "stats_loop n (of_nat (ff a L e)) k mx mn h =
    Inr (k + of_nat (length (free_sizes L)), fold max (map of_nat (free_sizes L)) mx, fold min (map of_nat (free_sizes L)) mn)"
  using assms
proof (induction L arbitrary: a n k mx mn rule: extent.induct)
  case (2 s al L)
  show ?case
  proof (cases al)
    case True
    have "stats_loop n (of_nat (ff (a + s) L e)) k mx mn h =
      Inr (k + of_nat (length (free_sizes L)), fold max (map of_nat (free_sizes L)) mx, fold min (map of_nat (free_sizes L)) mn)"
      using "2.prems" True by (intro "2.IH") auto
    then show ?thesis using True by simp
  next
    case False
    have hb: "blk_at h a = header s False (ff (a + s) L e)" using "2.prems" False by simp
    have a0: "(of_nat a :: u32) \<noteq> 0" using of_nat_u32_neq [of a 0] "2.prems" by simp
    have mm: "(if of_nat s > mx then of_nat s else mx) = max (of_nat s) mx" "(if of_nat s < mn then of_nat s else mn) = min (of_nat s) mn"
      by (auto simp: max_def min_def)
    show ?thesis
    proof (cases "free_sizes L = []")
      case True
      then show ?thesis using False a0 hb mm "2.prems"(6) stats_loop_end [OF True]
        by (subst stats_loop.simps) (simp add: header_def Let_def)
    next
      case more: False
      have f: "a + s \<le> ff (a + s) L e" "ff (a + s) L e < a + s + extent L" using ff_some_free [OF more, of "a + s" e] "2.prems" by auto
      have ne: "(of_nat (ff (a + s) L e) :: u32) \<noteq> of_nat e" by (intro of_nat_u32_neq) (use f "2.prems" in auto)
      obtain m where m: "n = Suc m" using "2.prems"(8) False more by (cases n; cases L rule: extent.cases) (auto simp: frees_length)
      have "stats_loop m (of_nat (ff (a + s) L e)) (k + 1) (max (of_nat s) mx) (min (of_nat s) mn) h =
        Inr (k + 1 + of_nat (length (free_sizes L)), fold max (map of_nat (free_sizes L)) (max (of_nat s) mx), fold min (map of_nat (free_sizes L)) (min (of_nat s) mn))"
        using "2.prems" False more m by (intro "2.IH") auto
      then show ?thesis using False a0 hb mm ne m "2.prems"(6)
        by (subst stats_loop.simps) (simp add: header_def Let_def)
    qed
  qed
qed simp

lemma heap_stats_eq:
  assumes rep: "heap_rep xStart base L h"
  shows "vPortGetHeapStats xStart h =
    (if free_sizes L = [] then Inl OutOfBounds
     else Inr \<lparr>xAvailableHeapSpaceInBytes = of_nat (sum_list (free_sizes L)),
               xSizeOfLargestFreeBlockInBytes = fold max (map of_nat (free_sizes L)) 0,
               xSizeOfSmallestFreeBlockInBytes = fold min (map of_nat (free_sizes L)) 0xFFFFFFFF,
               xNumberOfFreeBlocks = of_nat (length (free_sizes L)),
               hs_xMinimumEverFreeBytesRemaining = xMinimumEverFreeBytesRemaining h,
               hs_xNumberOfSuccessfulAllocations = xNumberOfSuccessfulAllocations h,
               hs_xNumberOfSuccessfulFrees = xNumberOfSuccessfulFrees h\<rparr>)"
proof -
  let ?e = "base + extent L"
  note R = rep [unfolded heap_rep_def]
  have sum: "free_extent L = sum_list (free_sizes L)"
  proof (induction L rule: free_extent.induct)
    case (2 s al L)
    then show ?case by (cases al) simp_all
  qed simp
  have f: "0 < ff base L ?e" "ff base L ?e < 2 ^ 32" using ff_bounds [of L base ?e] R by auto
  have nz: "(of_nat (ff base L ?e) :: u32) \<noteq> 0" using of_nat_u32_neq [of "ff base L ?e" 0] f by simp
  have x: "pxNextFreeBlock (blk h xStart) = of_nat (ff base L ?e)" using R by simp
  show ?thesis
  proof (cases "free_sizes L = []")
    case True
    have e: "(of_nat ?e :: u32) \<noteq> 0" "pxNextFreeBlock (blk_at h ?e) = 0" "pxEnd h = of_nat ?e" using nz R stats_loop_end [OF True, of base ?e] by simp_all
    have z: "stats_loop m 0 k mx mn h = Inl OutOfBounds" for m k mx mn by (subst stats_loop.simps) simp
    have "stats_loop (Suc 8191) (of_nat ?e) 0 0 0xFFFFFFFF h = Inl OutOfBounds"
      using e z by (subst stats_loop.simps) (simp add: Let_def del: of_nat_add)
    then show ?thesis using True nz x stats_loop_end [OF True, of base ?e] by (simp add: vPortGetHeapStats_def del: of_nat_add)
  next
    case False
    have "frees L \<le> Suc heap_rounds" using frees_le [of L] R by simp
    then have "stats_loop heap_rounds (of_nat (ff base L ?e)) 0 0 0xFFFFFFFF h =
      Inr (0 + of_nat (length (free_sizes L)), fold max (map of_nat (free_sizes L)) 0, fold min (map of_nat (free_sizes L)) 0xFFFFFFFF)"
      using R False by (intro stats_loop_sizes) auto
    then show ?thesis using False nz x R sum by (simp add: vPortGetHeapStats_def)
  qed
qed

section \<open>Properties\<close>

text \<open>Concrete places for the witnesses: the link cell at 0x100, the heap array at 0x1000, nothing set up yet.\<close>

definition heap_boot :: heap4 where
  "heap_boot = \<lparr>blk = (\<lambda>_. \<lparr>pxNextFreeBlock = 0, xBlockSize = 0\<rparr>), pxEnd = 0, xFreeBytesRemaining = 0, xMinimumEverFreeBytesRemaining = 0,
     xNumberOfSuccessfulAllocations = 0, xNumberOfSuccessfulFrees = 0, xBlockAllocatedBit = 0\<rparr>"

lemma heap_boot_place: "heap_place 0x100 0x1000"
  by (simp add: heap_place_def)

lemma heap_boot_rep: "heap_rep 0x100 0x1000 [(65528, False)] (prvHeapInit 0x100 0x1000 heap_boot)"
  using heap_init_rep(1) [OF heap_boot_place, of heap_boot] by (simp add: heap_base_def heap_size_def)

lemma heap_boot_malloc:
  "\<exists>h'. pvPortMalloc 0x100 0x1000 100 (prvHeapInit 0x100 0x1000 heap_boot) = Inr (h', 0x1008) \<and>
    heap_rep 0x100 0x1000 [(112, True), (65416, False)] h'"
proof -
  have r: "abs_request (unat (100 :: u32)) [(65528, False)] = Some (0, [(112, True), (65416, False)])"
    by (simp add: abs_request_def rounded_def)
  show ?thesis by (rule malloc_succeeds [OF heap_boot_rep r, of "0x1000"]) auto
qed

text \<open>(C31) Allocation refines first fit: from any well-formed heap \<open>pvPortMalloc\<close> returns the null pointer and leaves
  the heap unchanged exactly when the request is 0, has its top bit set or fits no free block; otherwise it takes the
  first block that is large enough, splits it when more than 16 bytes are left over, and keeps the counters.\<close>

theorem malloc_refines:
  assumes rep: "heap_rep xStart base L h"
  shows "case abs_request (unat n) L of
      None \<Rightarrow> pvPortMalloc xStart ucHeap n h = Inr (h, 0)
    | Some (off, L') \<Rightarrow> \<exists>h'. pvPortMalloc xStart ucHeap n h = Inr (h', of_nat (base + off + 8)) \<and> heap_rep xStart base L' h' \<and>
        xMinimumEverFreeBytesRemaining h' = min (xFreeBytesRemaining h') (xMinimumEverFreeBytesRemaining h) \<and>
        xNumberOfSuccessfulAllocations h' = xNumberOfSuccessfulAllocations h + 1 \<and>
        xNumberOfSuccessfulFrees h' = xNumberOfSuccessfulFrees h"
proof (cases "abs_request (unat n) L")
  case None
  then show ?thesis using malloc_fails [OF rep] by simp
next
  case (Some r)
  obtain off L' where r: "abs_request (unat n) L = Some (off, L')" using Some by (cases r) auto
  obtain h4 where h4: "pvPortMalloc xStart ucHeap n h = Inr (taken (base + off) h4, of_nat (base + off + 8))"
    "heap_rep xStart base L' (taken (base + off) h4)" "h4 = h\<lparr>blk := blk h4\<rparr>"
    by (rule malloc_succeeds [OF rep r]) blast
  have f: "xMinimumEverFreeBytesRemaining h4 = xMinimumEverFreeBytesRemaining h"
    "xNumberOfSuccessfulAllocations h4 = xNumberOfSuccessfulAllocations h" "xNumberOfSuccessfulFrees h4 = xNumberOfSuccessfulFrees h"
    by (subst h4(3), simp)+
  have "xMinimumEverFreeBytesRemaining (taken (base + off) h4) = min (xFreeBytesRemaining (taken (base + off) h4)) (xMinimumEverFreeBytesRemaining h)"
    "xNumberOfSuccessfulAllocations (taken (base + off) h4) = xNumberOfSuccessfulAllocations h + 1"
    "xNumberOfSuccessfulFrees (taken (base + off) h4) = xNumberOfSuccessfulFrees h"
    using f by (auto simp: taken_def Let_def min_def)
  then show ?thesis using h4(1,2) r by auto
qed

lemma malloc_refines_witness:
  "\<exists>h'. pvPortMalloc 0x100 0x1000 100 (prvHeapInit 0x100 0x1000 heap_boot) = Inr (h', 0x1008) \<and>
    heap_rep 0x100 0x1000 [(112, True), (65416, False)] h'"
proof -
  have "abs_request (unat (100 :: u32)) [(65528, False)] = Some (0, [(112, True), (65416, False)])"
    by (simp add: abs_request_def rounded_def)
  then show ?thesis using malloc_refines [OF heap_boot_rep, where n = 100 and ucHeap = "0x1000"] by auto
qed

text \<open>(C32) Release refines the abstract release: given the address of an allocated block, \<open>vPortFree\<close> succeeds and the
  result is the layout with this block free and joined with its free neighbours, the number of free bytes and of
  releases updated.\<close>

theorem vPortFree_refines:
  assumes "heap_rep xStart base L h" "abs_free off L = Some L'"
  shows "\<exists>h'. vPortFree xStart (of_nat (base + off + 8)) h = Inr h' \<and> heap_rep xStart base L' h' \<and>
    xNumberOfSuccessfulFrees h' = xNumberOfSuccessfulFrees h + 1 \<and>
    xMinimumEverFreeBytesRemaining h' = xMinimumEverFreeBytesRemaining h"
  by (rule free_refines [OF assms]) blast

lemma vPortFree_refines_witness:
  "\<exists>h2. vPortFree 0x100 0x1008 (fst (projr (pvPortMalloc 0x100 0x1000 100 (prvHeapInit 0x100 0x1000 heap_boot)))) = Inr h2 \<and>
    heap_rep 0x100 0x1000 [(65528, False)] h2"
proof -
  obtain h1 where h1: "pvPortMalloc 0x100 0x1000 100 (prvHeapInit 0x100 0x1000 heap_boot) = Inr (h1, 0x1008)"
    "heap_rep 0x100 0x1000 [(112, True), (65416, False)] h1" using heap_boot_malloc by blast
  have "abs_free 0 [(112, True), (65416, False)] = Some [(65528, False)]" by (simp add: abs_free_def)
  from vPortFree_refines [OF h1(2) this] show ?thesis using h1(1) by auto
qed

text \<open>(C30) The heap under any client: from the first call on, any sequence of requests and releases of pointers still
  held runs to its end without failing an assertion and leaves a well-formed heap whose allocated blocks are exactly
  the held ones; when nothing is held, the heap is one free block again.\<close>

theorem heap_session_safe:
  assumes "pxEnd h = 0" "heap_place xStart ucHeap"
  shows "\<exists>h' held L. session (pvPortMalloc xStart ucHeap) (vPortFree xStart) (Alloc n # ops) h [] = Inr (h', held) \<and>
    heap_rep xStart (heap_base ucHeap) L h' \<and> extent L = heap_size ucHeap \<and> holds (live_at (heap_base ucHeap) L) held \<and>
    (held = [] \<longrightarrow> L = [(heap_size ucHeap, False)])"
proof -
  let ?rep = "heap_rep_size xStart (heap_base ucHeap) (heap_size ucHeap)" and ?h = "prvHeapInit xStart ucHeap h"
  have init: "?rep [(heap_size ucHeap, False)] ?h" using heap_init_rep(1) [OF assms(2)] by (simp add: heap_rep_size_def)
  then obtain L h' held where s: "session (pvPortMalloc xStart ucHeap) (vPortFree xStart) (Alloc n # ops) ?h [] = Inr (h', held)"
    "?rep L h'" "holds (live_at (heap_base ucHeap) L) held"
    using heap4.session_safe [OF init, of "[]" ucHeap "Alloc n # ops"] by (force simp: holds_def simp del: session.simps)
  moreover have "L = [(heap_size ucHeap, False)]" if "held = []"
  proof -
    have "live_at (heap_base ucHeap) L = {}" using s(3) that by (simp add: holds_def)
    moreover have "L \<noteq> []" using s(2) heap_size_bounds(5) [OF assms(2)] by (auto simp: heap_rep_size_def)
    ultimately show ?thesis using s(2) all_free [of L] by (auto simp: heap_rep_size_def heap_rep_def)
  qed
  ultimately show ?thesis using malloc_first [OF assms] by (auto simp: heap_rep_size_def)
qed

lemma heap_session_safe_witness:
  "\<exists>h' held L. session (pvPortMalloc 0x100 0x1000) (vPortFree 0x100) [Alloc 100, Alloc 50, Release 1, Release 0] heap_boot [] = Inr (h', held) \<and>
    heap_rep 0x100 (heap_base 0x1000) L h' \<and> holds (live_at (heap_base 0x1000) L) held"
proof -
  have "pxEnd heap_boot = 0" by (simp add: heap_boot_def)
  from heap_session_safe [OF this heap_boot_place, of 100 "[Alloc 50, Release 1, Release 0]"] show ?thesis by blast
qed

text \<open>(C33) What a pointer returned by \<open>pvPortMalloc\<close> is good for: it is 8-byte aligned, the bytes asked for lie inside
  the heap, and they are apart from the bytes of every block allocated before.\<close>

theorem malloc_block_fresh:
  assumes rep: "heap_rep xStart base L h" and m: "pvPortMalloc xStart ucHeap n h = Inr (h', p)" and p: "p \<noteq> 0"
  shows "8 dvd unat p \<and> base + 8 \<le> unat p \<and> unat p + unat n \<le> base + extent L \<and>
    (\<forall>(q, k) \<in> live_at base L. unat p + unat n < q \<or> q + k < unat p)"
proof -
  obtain L' a k where a: "p = of_nat a" "heap_rep xStart base L' h'" "unat n \<le> k" "extent L' = extent L"
    "live_at base L' = insert (a, k) (live_at base L)" "\<forall>(q, j) \<in> live_at base L. q \<noteq> a"
    using malloc_live [OF rep, of ucHeap n] m p by auto
  note R = a(2) [unfolded heap_rep_def]
  have l: "(a, k) \<in> live_at base L'" using a(5) by simp
  have b: "base + 8 \<le> a" "a + k \<le> base + extent L" "8 dvd a" using live_bounds [OF l] live_aligned [OF l] R a(4) by auto
  have u: "unat p = a" using b R a(1,4) by (simp add: unat_of_nat_u32)
  have "\<forall>(q, j) \<in> live_at base L. a + unat n < q \<or> q + j < a"
  proof (intro ballI, clarify)
    fix q j assume "(q, j) \<in> live_at base L" "\<not> q + j < a"
    moreover from this have "(a, k) \<noteq> (q, j)" using a(6) by auto
    ultimately have "a + k < q" using heap_rep_live(2) [OF a(2) l, of q j] a(5) by auto
    then show "a + unat n < q" using a(3) by simp
  qed
  then show ?thesis using b u a(3) by auto
qed

lemma malloc_block_fresh_witness:
  "\<exists>p. pvPortMalloc 0x100 0x1000 100 (prvHeapInit 0x100 0x1000 heap_boot) =
      Inr (fst (projr (pvPortMalloc 0x100 0x1000 100 (prvHeapInit 0x100 0x1000 heap_boot))), p) \<and> p \<noteq> 0 \<and> 8 dvd unat p"
proof -
  obtain h1 where h1: "pvPortMalloc 0x100 0x1000 100 (prvHeapInit 0x100 0x1000 heap_boot) = Inr (h1, 0x1008)"
    using heap_boot_malloc by blast
  from malloc_block_fresh [OF heap_boot_rep h1] show ?thesis using h1 by simp
qed

text \<open>(C34) The statistics: they describe the free blocks when there is one. When the whole heap is allocated the loop
  steps from the end marker to the null pointer and reads a block there.\<close>

theorem vPortGetHeapStats_result:
  assumes rep: "heap_rep xStart base L h"
  shows "vPortGetHeapStats xStart h =
    (if free_sizes L = [] then Inl OutOfBounds
     else Inr \<lparr>xAvailableHeapSpaceInBytes = of_nat (sum_list (free_sizes L)),
               xSizeOfLargestFreeBlockInBytes = fold max (map of_nat (free_sizes L)) 0,
               xSizeOfSmallestFreeBlockInBytes = fold min (map of_nat (free_sizes L)) 0xFFFFFFFF,
               xNumberOfFreeBlocks = of_nat (length (free_sizes L)),
               hs_xMinimumEverFreeBytesRemaining = xMinimumEverFreeBytesRemaining h,
               hs_xNumberOfSuccessfulAllocations = xNumberOfSuccessfulAllocations h,
               hs_xNumberOfSuccessfulFrees = xNumberOfSuccessfulFrees h\<rparr>)"
  using rep by (rule heap_stats_eq)

lemma vPortGetHeapStats_result_witness:
  "\<exists>st. vPortGetHeapStats 0x100 (prvHeapInit 0x100 0x1000 heap_boot) = Inr st \<and>
    xNumberOfFreeBlocks st = 1 \<and> xSizeOfLargestFreeBlockInBytes st = 65528"
  unfolding vPortGetHeapStats_result [OF heap_boot_rep] by simp

end
