(* ===== verification/Freertos_Timers.thy ===== *)
theory Freertos_Timers
  imports Freertos_Queue Freertos_Task_Ops
begin

text \<open>
  The software timers of \<open>FreeRTOS/Source/timers.c\<close> over the queue, the scheduler and the heap: creation, the commands
  that tasks and interrupts send to the timer task, and one round of that task. A \<open>Timer_t\<close> has 40 bytes with its list
  item at offset 4; a \<open>DaemonTaskMessage_t\<close> has four words, of which a timer command sets three (\<open>stale\<close> is what the fourth
  holds). The functions that the application hands over are parameters: \<open>cb\<close> calls a timer callback and
  \<open>pend\<close> a pended function. Addresses that the linker chooses are in \<open>timer_env\<close>.
\<close>

section \<open>State\<close>

record Timer_t =
  pcTimerName :: u32
  xTimerPeriodInTicks :: u32
  pvTimerID :: u32
  pxCallbackFunction :: u32
  ucStatus :: u8

record DaemonTaskMessage_t =
  xMessageID :: u32
  msg_u0 :: u32
  msg_u1 :: u32
  msg_u2 :: u32

abbreviation "xMessageValue \<equiv> msg_u0"
abbreviation "msg_pxTimer \<equiv> msg_u1"

record tkernel = qkernel +
  t_at :: "u32 \<Rightarrow> Timer_t"
  xActiveTimerList1 :: u32
  xActiveTimerList2 :: u32
  pxCurrentTimerList :: u32
  pxOverflowTimerList :: u32
  xTimerQueue :: u32
  xTimerTaskHandle :: u32
  xLastTime :: u32
  xQueueRegistry :: "(u32 \<times> u32) list"
  k_heap :: heap4

record timer_env =
  te_xStart :: u32
  te_ucHeap :: u32
  te_TmrQ :: u32
  te_exitError :: u32
  te_prvTimerTask :: u32
  te_prvIdleTask :: u32

abbreviation "tmrSTATUS_IS_ACTIVE \<equiv> (0x01 :: u8)"
abbreviation "tmrSTATUS_IS_STATICALLY_ALLOCATED \<equiv> (0x02 :: u8)"
abbreviation "tmrSTATUS_IS_AUTORELOAD \<equiv> (0x04 :: u8)"
abbreviation "tmrMAX_TIME_BEFORE_OVERFLOW \<equiv> (0xFFFFFFFF :: u32)"

definition xTimerListItem :: "u32 \<Rightarrow> u32" where "xTimerListItem t = t + 4"

definition upd_timer :: "u32 \<Rightarrow> (Timer_t \<Rightarrow> Timer_t) \<Rightarrow> 'a tkernel_scheme \<Rightarrow> 'a tkernel_scheme" where
  "upd_timer t f k = k\<lparr>t_at := (t_at k)(t := f (t_at k t))\<rparr>"

definition set_active :: "u32 \<Rightarrow> 'a tkernel_scheme \<Rightarrow> 'a tkernel_scheme" where
  "set_active t = upd_timer t (\<lambda>b. b\<lparr>ucStatus := ucStatus b OR tmrSTATUS_IS_ACTIVE\<rparr>)"

definition clear_active :: "u32 \<Rightarrow> 'a tkernel_scheme \<Rightarrow> 'a tkernel_scheme" where
  "clear_active t = upd_timer t (\<lambda>b. b\<lparr>ucStatus := ucStatus b AND NOT tmrSTATUS_IS_ACTIVE\<rparr>)"

definition is_autoreload :: "u32 \<Rightarrow> 'a tkernel_scheme \<Rightarrow> bool" where
  "is_autoreload t k \<longleftrightarrow> ucStatus (t_at k t) AND tmrSTATUS_IS_AUTORELOAD \<noteq> 0"

section \<open>Infrastructure and creation\<close>

fun registry_slot :: "nat \<Rightarrow> u32 \<Rightarrow> (u32 \<times> u32) list \<Rightarrow> nat option \<Rightarrow> nat option" where
  "registry_slot ux xQueue [] found = found"
| "registry_slot ux xQueue ((name, handle) # rs) found =
    (if xQueue = handle then Some ux
     else registry_slot (Suc ux) xQueue rs (if found = None \<and> name = NULL then Some ux else found))"

definition vQueueAddToRegistry :: "u32 \<Rightarrow> u32 \<Rightarrow> 'a tkernel_scheme \<Rightarrow> 'a tkernel_scheme res" where
  "vQueueAddToRegistry xQueue pcQueueName k =
    dev_assert (xQueue \<noteq> NULL)
     (case (if pcQueueName \<noteq> NULL then registry_slot 0 xQueue (xQueueRegistry k) None else None) of
        None \<Rightarrow> Inr k
      | Some ux \<Rightarrow> Inr (k\<lparr>xQueueRegistry := (xQueueRegistry k)[ux := (pcQueueName, xQueue)]\<rparr>))"

text \<open>\<open>xQueueCreate( 10, 16 )\<close> with the memory that \<open>pvPortMalloc\<close> returns for it.\<close>

definition create_timer_queue :: "timer_env \<Rightarrow> 'a tkernel_scheme \<Rightarrow> 'a tkernel_scheme res" where
  "create_timer_queue te k =
    rbind (pvPortMalloc (te_xStart te) (te_ucHeap te) (72 + 10 * 16) (k_heap k)) (\<lambda>(h, addr).
    rbind (xQueueGenericCreate addr 10 16 (k\<lparr>k_heap := h\<rparr>)) (\<lambda>(k1, q). Inr (k1\<lparr>xTimerQueue := q\<rparr>)))"

definition prvCheckForValidListAndQueue :: "timer_env \<Rightarrow> 'a tkernel_scheme \<Rightarrow> 'a tkernel_scheme res" where
  "prvCheckForValidListAndQueue te k =
    (if xTimerQueue k = NULL
     then let k1 = vListInitialise (xActiveTimerList1 k) k;
              k2 = vListInitialise (xActiveTimerList2 k1) k1;
              k3 = k2\<lparr>pxCurrentTimerList := xActiveTimerList1 k2, pxOverflowTimerList := xActiveTimerList2 k2\<rparr>
          in rbind (create_timer_queue te k3) (\<lambda>k4.
               if xTimerQueue k4 \<noteq> NULL then vQueueAddToRegistry (xTimerQueue k4) (te_TmrQ te) k4 else Inr k4)
     else Inr k)"

definition timer_params :: "timer_env \<Rightarrow> task_params" where
  "timer_params te = \<lparr>pxTaskCode = te_prvTimerTask te, tp_pcName = Some [0x54, 0x6D, 0x72, 0x20, 0x53, 0x76, 0x63, 0],
    usStackDepth = 180, pvParameters = 0, tp_uxPriority = 2\<rparr>"

text \<open>\<open>xTimerCreateTimerTask\<close> returns 1 for success and -1 when memory was short for the task.\<close>

definition xTimerCreateTimerTask :: "timer_env \<Rightarrow> 'a tkernel_scheme \<Rightarrow> ('a tkernel_scheme \<times> int) res" where
  "xTimerCreateTimerTask te k =
    rbind (prvCheckForValidListAndQueue te k) (\<lambda>k1.
      if xTimerQueue k1 \<noteq> NULL
      then rbind (xTaskCreate (te_exitError te) (te_xStart te) (te_ucHeap te) (timer_params te) k1 (k_heap k1)) (\<lambda>(k2, h, r).
             Inr (case r of Created t \<Rightarrow> (k2\<lparr>k_heap := h, xTimerTaskHandle := t\<rparr>, 1)
                  | errCOULD_NOT_ALLOCATE_REQUIRED_MEMORY \<Rightarrow> (k2\<lparr>k_heap := h\<rparr>, - 1)))
      else Inl DevAssertFailed)"

definition prvInitialiseNewTimer :: "timer_env \<Rightarrow> u32 \<Rightarrow> u32 \<Rightarrow> bool \<Rightarrow> u32 \<Rightarrow> u32 \<Rightarrow> u32 \<Rightarrow> 'a tkernel_scheme \<Rightarrow> 'a tkernel_scheme res" where
  "prvInitialiseNewTimer te name period uxAutoReload ident fn pxNewTimer k =
    dev_assert (period > 0)
     (rbind (prvCheckForValidListAndQueue te k) (\<lambda>k1.
        let k2 = upd_timer pxNewTimer (\<lambda>b. b\<lparr>pcTimerName := name, xTimerPeriodInTicks := period, pvTimerID := ident,
                                           pxCallbackFunction := fn\<rparr>) k1;
            k3 = vListInitialiseItem (xTimerListItem pxNewTimer) k2
        in Inr (if uxAutoReload then upd_timer pxNewTimer (\<lambda>b. b\<lparr>ucStatus := ucStatus b OR tmrSTATUS_IS_AUTORELOAD\<rparr>) k3 else k3)))"

definition xTimerCreate :: "timer_env \<Rightarrow> u32 \<Rightarrow> u32 \<Rightarrow> bool \<Rightarrow> u32 \<Rightarrow> u32 \<Rightarrow> 'a tkernel_scheme \<Rightarrow> ('a tkernel_scheme \<times> u32) res" where
  "xTimerCreate te name period uxAutoReload ident fn k =
    rbind (pvPortMalloc (te_xStart te) (te_ucHeap te) 40 (k_heap k)) (\<lambda>(h, t).
      let k1 = k\<lparr>k_heap := h\<rparr>
      in if t \<noteq> NULL
         then rbind (prvInitialiseNewTimer te name period uxAutoReload ident fn t (upd_timer t (\<lambda>b. b\<lparr>ucStatus := 0\<rparr>) k1)) (\<lambda>k2. Inr (k2, t))
         else Inr (k1, t))"

section \<open>Queries and commands\<close>

definition xTimerGetTimerDaemonTaskHandle :: "'a tkernel_scheme \<Rightarrow> u32 res" where
  "xTimerGetTimerDaemonTaskHandle k = dev_assert (xTimerTaskHandle k \<noteq> NULL) (Inr (xTimerTaskHandle k))"

definition xTimerGetPeriod :: "u32 \<Rightarrow> 'a tkernel_scheme \<Rightarrow> u32 res" where
  "xTimerGetPeriod t k = dev_assert (t \<noteq> NULL) (Inr (xTimerPeriodInTicks (t_at k t)))"

definition vTimerSetReloadMode :: "u32 \<Rightarrow> bool \<Rightarrow> 'a tkernel_scheme \<Rightarrow> 'a tkernel_scheme res" where
  "vTimerSetReloadMode t uxAutoReload k =
    dev_assert (t \<noteq> NULL)
     (Inr (upd_timer t (\<lambda>b. b\<lparr>ucStatus := (if uxAutoReload then ucStatus b OR tmrSTATUS_IS_AUTORELOAD
                                          else ucStatus b AND NOT tmrSTATUS_IS_AUTORELOAD)\<rparr>) k))"

definition uxTimerGetReloadMode :: "u32 \<Rightarrow> 'a tkernel_scheme \<Rightarrow> bool res" where
  "uxTimerGetReloadMode t k = dev_assert (t \<noteq> NULL) (Inr (is_autoreload t k))"

definition xTimerGetExpiryTime :: "u32 \<Rightarrow> 'a tkernel_scheme \<Rightarrow> u32 res" where
  "xTimerGetExpiryTime t k = dev_assert (t \<noteq> NULL) (Inr (xItemValue (l_item k (xTimerListItem t))))"

definition pcTimerGetName :: "u32 \<Rightarrow> 'a tkernel_scheme \<Rightarrow> u32 res" where
  "pcTimerGetName t k = dev_assert (t \<noteq> NULL) (Inr (pcTimerName (t_at k t)))"

definition xTimerIsTimerActive :: "u32 \<Rightarrow> 'a tkernel_scheme \<Rightarrow> bool res" where
  "xTimerIsTimerActive t k = dev_assert (t \<noteq> NULL) (Inr (ucStatus (t_at k t) AND tmrSTATUS_IS_ACTIVE \<noteq> 0))"

definition pvTimerGetTimerID :: "u32 \<Rightarrow> 'a tkernel_scheme \<Rightarrow> u32 res" where
  "pvTimerGetTimerID t k = dev_assert (t \<noteq> NULL) (Inr (pvTimerID (t_at k t)))"

definition vTimerSetTimerID :: "u32 \<Rightarrow> u32 \<Rightarrow> 'a tkernel_scheme \<Rightarrow> 'a tkernel_scheme res" where
  "vTimerSetTimerID t ident k = dev_assert (t \<noteq> NULL) (Inr (upd_timer t (\<lambda>b. b\<lparr>pvTimerID := ident\<rparr>) k))"

definition daemon_bytes :: "DaemonTaskMessage_t \<Rightarrow> u8 list" where
  "daemon_bytes m = le32 (xMessageID m) @ le32 (msg_u0 m) @ le32 (msg_u1 m) @ le32 (msg_u2 m)"

definition daemon_of_bytes :: "u8 list \<Rightarrow> DaemonTaskMessage_t" where
  "daemon_of_bytes bs = \<lparr>xMessageID = of_le32 (take 4 bs), msg_u0 = of_le32 (take 4 (drop 4 bs)), msg_u1 = of_le32 (take 4 (drop 8 bs)),
    msg_u2 = of_le32 (take 4 (drop 12 bs))\<rparr>"

text \<open>The result: the kernel, \<open>*pxHigherPriorityTaskWoken\<close> and the status; no message is sent before the queue exists.\<close>

definition xTimerGenericCommand ::
  "u32 \<Rightarrow> u32 \<Rightarrow> u32 \<Rightarrow> u32 \<Rightarrow> bool \<Rightarrow> u32 \<Rightarrow> 'a tkernel_scheme \<Rightarrow> ('a tkernel_scheme \<times> bool \<times> q_status outcome) res" where
  "xTimerGenericCommand stale t xCommandID xOptionalValue woken ticks k =
    dev_assert (t \<noteq> NULL)
     (if xTimerQueue k \<noteq> NULL
      then let msg = daemon_bytes \<lparr>xMessageID = xCommandID, msg_u0 = xOptionalValue, msg_u1 = t, msg_u2 = stale\<rparr>
           in if sint xCommandID < 6
              then rbind (xQueueGenericSend (xTimerQueue k) (Some msg)
                            (if xTaskGetSchedulerState k = SCHEDULER_RUNNING then ticks else 0) queueSEND_TO_BACK k) (\<lambda>(k1, out).
                     Inr (k1, woken, out))
              else rbind (xQueueGenericSendFromISR (xTimerQueue k) (Some msg) woken queueSEND_TO_BACK k) (\<lambda>(k1, woken', r).
                     Inr (k1, woken', Returned r))
      else Inr (k, woken, Returned pdFAIL))"

definition xTimerPendFunctionCallFromISR :: "u32 \<Rightarrow> u32 \<Rightarrow> u32 \<Rightarrow> bool \<Rightarrow> 'a tkernel_scheme \<Rightarrow> ('a tkernel_scheme \<times> bool \<times> q_status) res" where
  "xTimerPendFunctionCallFromISR xFunctionToPend pvParameter1 ulParameter2 woken k =
    xQueueGenericSendFromISR (xTimerQueue k)
      (Some (daemon_bytes \<lparr>xMessageID = - 2, msg_u0 = xFunctionToPend, msg_u1 = pvParameter1, msg_u2 = ulParameter2\<rparr>)) woken queueSEND_TO_BACK k"

definition xTimerPendFunctionCall :: "u32 \<Rightarrow> u32 \<Rightarrow> u32 \<Rightarrow> u32 \<Rightarrow> 'a tkernel_scheme \<Rightarrow> ('a tkernel_scheme \<times> q_status outcome) res" where
  "xTimerPendFunctionCall xFunctionToPend pvParameter1 ulParameter2 ticks k =
    dev_assert (xTimerQueue k \<noteq> NULL)
     (xQueueGenericSend (xTimerQueue k)
       (Some (daemon_bytes \<lparr>xMessageID = - 1, msg_u0 = xFunctionToPend, msg_u1 = pvParameter1, msg_u2 = ulParameter2\<rparr>)) ticks queueSEND_TO_BACK k)"

section \<open>Expiry\<close>

text \<open>The result says whether the timer has expired already and is to be processed now; then it is in no list.\<close>

definition prvInsertTimerInActiveList :: "u32 \<Rightarrow> u32 \<Rightarrow> u32 \<Rightarrow> u32 \<Rightarrow> 'a tkernel_scheme \<Rightarrow> ('a tkernel_scheme \<times> bool) res" where
  "prvInsertTimerInActiveList t xNextExpiryTime xTimeNow xCommandTime k =
    (let k1 = upd_item (xTimerListItem t) (\<lambda>i. i\<lparr>xItemValue := xNextExpiryTime, pvOwner := t\<rparr>) k
     in if xNextExpiryTime \<le> xTimeNow
        then if xTimeNow - xCommandTime \<ge> xTimerPeriodInTicks (t_at k1 t) then Inr (k1, True)
             else rbind (vListInsert (pxOverflowTimerList k1) (xTimerListItem t) k1) (\<lambda>k2. Inr (k2, False))
        else if xTimeNow < xCommandTime \<and> xNextExpiryTime \<ge> xCommandTime then Inr (k1, True)
             else rbind (vListInsert (pxCurrentTimerList k1) (xTimerListItem t) k1) (\<lambda>k2. Inr (k2, False)))"

definition call_timer :: "(u32 \<Rightarrow> u32 \<Rightarrow> 'a tkernel_scheme \<Rightarrow> 'a tkernel_scheme res) \<Rightarrow> u32 \<Rightarrow> 'a tkernel_scheme \<Rightarrow> 'a tkernel_scheme res" where
  "call_timer cb t k = cb (pxCallbackFunction (t_at k t)) t k"

text \<open>
  The loop of \<open>prvReloadTimer\<close>. Every round advances the expiry time by the period, which is positive, so that the loop gets as
  many rounds as ticks have passed since the first expiry.
\<close>

fun reload_loop ::
  "nat \<Rightarrow> (u32 \<Rightarrow> u32 \<Rightarrow> 'a tkernel_scheme \<Rightarrow> 'a tkernel_scheme res) \<Rightarrow> u32 \<Rightarrow> u32 \<Rightarrow> u32 \<Rightarrow> 'a tkernel_scheme \<Rightarrow> 'a tkernel_scheme res" where
  "reload_loop n cb t xExpiredTime xTimeNow k =
    rbind (prvInsertTimerInActiveList t (xExpiredTime + xTimerPeriodInTicks (t_at k t)) xTimeNow xExpiredTime k) (\<lambda>(k1, now).
      if now
      then case n of 0 \<Rightarrow> Inl NoExit
           | Suc m \<Rightarrow> let e = xExpiredTime + xTimerPeriodInTicks (t_at k1 t)
                      in rbind (call_timer cb t k1) (\<lambda>k2. reload_loop m cb t e xTimeNow k2)
      else Inr k1)"

declare reload_loop.simps [simp del]

definition prvReloadTimer ::
  "(u32 \<Rightarrow> u32 \<Rightarrow> 'a tkernel_scheme \<Rightarrow> 'a tkernel_scheme res) \<Rightarrow> u32 \<Rightarrow> u32 \<Rightarrow> u32 \<Rightarrow> 'a tkernel_scheme \<Rightarrow> 'a tkernel_scheme res" where
  "prvReloadTimer cb t xExpiredTime xTimeNow k = reload_loop (unat (xTimeNow - xExpiredTime)) cb t xExpiredTime xTimeNow k"

definition prvProcessExpiredTimer ::
  "(u32 \<Rightarrow> u32 \<Rightarrow> 'a tkernel_scheme \<Rightarrow> 'a tkernel_scheme res) \<Rightarrow> u32 \<Rightarrow> u32 \<Rightarrow> 'a tkernel_scheme \<Rightarrow> 'a tkernel_scheme res" where
  "prvProcessExpiredTimer cb xNextExpireTime xTimeNow k =
    (let t = listGET_OWNER_OF_HEAD_ENTRY (pxCurrentTimerList k) k;
         k1 = fst (uxListRemove (xTimerListItem t) k)
     in rbind (if is_autoreload t k1 then prvReloadTimer cb t xNextExpireTime xTimeNow k1 else Inr (clear_active t k1)) (call_timer cb t))"

text \<open>Each round takes one timer off the list: no expiry lies after the largest time, so that none is put back.\<close>

fun switch_timer_loop :: "nat \<Rightarrow> (u32 \<Rightarrow> u32 \<Rightarrow> 'a tkernel_scheme \<Rightarrow> 'a tkernel_scheme res) \<Rightarrow> 'a tkernel_scheme \<Rightarrow> 'a tkernel_scheme res" where
  "switch_timer_loop n cb k =
    (if listLIST_IS_EMPTY (pxCurrentTimerList k) k then Inr k
     else case n of 0 \<Rightarrow> Inl NoExit
          | Suc m \<Rightarrow> rbind (prvProcessExpiredTimer cb (listGET_ITEM_VALUE_OF_HEAD_ENTRY (pxCurrentTimerList k) k) tmrMAX_TIME_BEFORE_OVERFLOW k)
                      (switch_timer_loop m cb))"

declare switch_timer_loop.simps [simp del]

definition prvSwitchTimerLists :: "(u32 \<Rightarrow> u32 \<Rightarrow> 'a tkernel_scheme \<Rightarrow> 'a tkernel_scheme res) \<Rightarrow> 'a tkernel_scheme \<Rightarrow> 'a tkernel_scheme res" where
  "prvSwitchTimerLists cb k =
    rbind (switch_timer_loop (unat (uxNumberOfItems (l_list k (pxCurrentTimerList k)))) cb k) (\<lambda>k1.
      Inr (k1\<lparr>pxCurrentTimerList := pxOverflowTimerList k1, pxOverflowTimerList := pxCurrentTimerList k1\<rparr>))"

text \<open>The result: the kernel, the time, and whether the lists were switched.\<close>

definition prvSampleTimeNow ::
  "(u32 \<Rightarrow> u32 \<Rightarrow> 'a tkernel_scheme \<Rightarrow> 'a tkernel_scheme res) \<Rightarrow> 'a tkernel_scheme \<Rightarrow> ('a tkernel_scheme \<times> u32 \<times> bool) res" where
  "prvSampleTimeNow cb k =
    (let now = xTickCount k
     in rbind (if now < xLastTime k then rbind (prvSwitchTimerLists cb k) (\<lambda>k1. Inr (k1, True)) else Inr (k, False)) (\<lambda>(k1, switched).
          Inr (k1\<lparr>xLastTime := now\<rparr>, now, switched)))"

definition prvGetNextExpireTime :: "'a tkernel_scheme \<Rightarrow> u32 \<times> bool" where
  "prvGetNextExpireTime k =
    (let empty = listLIST_IS_EMPTY (pxCurrentTimerList k) k
     in (if \<not> empty then listGET_ITEM_VALUE_OF_HEAD_ENTRY (pxCurrentTimerList k) k else 0, empty))"

section \<open>The timer task\<close>

definition vQueueWaitForMessageRestricted :: "u32 \<Rightarrow> u32 \<Rightarrow> bool \<Rightarrow> 'a qkernel_scheme \<Rightarrow> 'a qkernel_scheme res" where
  "vQueueWaitForMessageRestricted pxQueue ticks xWaitIndefinitely k =
    (let k1 = prvLockQueue pxQueue k
     in rbind (if uxMessagesWaiting (q_at k1 pxQueue) = 0
               then vTaskPlaceOnEventListRestricted (xTasksWaitingToReceive pxQueue) ticks xWaitIndefinitely k1 else Inr k1)
         (prvUnlockQueue pxQueue))"

definition prvProcessTimerOrBlockTask ::
  "(u32 \<Rightarrow> u32 \<Rightarrow> 'a tkernel_scheme \<Rightarrow> 'a tkernel_scheme res) \<Rightarrow> u32 \<Rightarrow> bool \<Rightarrow> 'a tkernel_scheme \<Rightarrow> 'a tkernel_scheme res" where
  "prvProcessTimerOrBlockTask cb xNextExpireTime xListWasEmpty k =
    rbind (prvSampleTimeNow cb (vTaskSuspendAll k)) (\<lambda>(k1, xTimeNow, switched).
      if \<not> switched
      then if \<not> xListWasEmpty \<and> xNextExpireTime \<le> xTimeNow
           then rbind (xTaskResumeAll k1) (\<lambda>(k2, _). prvProcessExpiredTimer cb xNextExpireTime xTimeNow k2)
           else let empty = (if xListWasEmpty then listLIST_IS_EMPTY (pxOverflowTimerList k1) k1 else xListWasEmpty)
                in rbind (vQueueWaitForMessageRestricted (xTimerQueue k1) (xNextExpireTime - xTimeNow) empty k1) (\<lambda>k2.
                   rbind (xTaskResumeAll k2) (\<lambda>(k3, yielded). Inr (if yielded then k3 else portYIELD_WITHIN_API k3)))
      else rbind (xTaskResumeAll k1) (\<lambda>(k2, _). Inr k2))"

definition start_timer ::
  "(u32 \<Rightarrow> u32 \<Rightarrow> 'a tkernel_scheme \<Rightarrow> 'a tkernel_scheme res) \<Rightarrow> u32 \<Rightarrow> u32 \<Rightarrow> u32 \<Rightarrow> 'a tkernel_scheme \<Rightarrow> 'a tkernel_scheme res" where
  "start_timer cb t v now k =
    (let k1 = set_active t k; e = v + xTimerPeriodInTicks (t_at k1 t)
     in rbind (prvInsertTimerInActiveList t e now v k1) (\<lambda>(k2, expired).
          if expired
          then rbind (if is_autoreload t k2 then prvReloadTimer cb t e now k2 else Inr (clear_active t k2)) (call_timer cb t)
          else Inr k2))"

definition timer_command ::
  "(u32 \<Rightarrow> u32 \<Rightarrow> 'a tkernel_scheme \<Rightarrow> 'a tkernel_scheme res) \<Rightarrow> u32 \<Rightarrow> u32 \<Rightarrow> u32 \<Rightarrow> u32 \<Rightarrow> u32 \<Rightarrow> 'a tkernel_scheme \<Rightarrow> 'a tkernel_scheme res" where
  "timer_command cb xStart cmd t v now k =
    (if cmd \<in> {1, 6, 2, 7} then start_timer cb t v now k
     else if cmd \<in> {3, 8} then Inr (clear_active t k)
     else if cmd \<in> {4, 9}
     then let k1 = upd_timer t (\<lambda>b. b\<lparr>xTimerPeriodInTicks := v\<rparr>) (set_active t k)
          in dev_assert (xTimerPeriodInTicks (t_at k1 t) > 0)
              (rbind (prvInsertTimerInActiveList t (now + xTimerPeriodInTicks (t_at k1 t)) now now k1) (\<lambda>(k2, _). Inr k2))
     else if cmd = 5
     then if ucStatus (t_at k t) AND tmrSTATUS_IS_STATICALLY_ALLOCATED = 0
          then rbind (vPortFree xStart t (k_heap k)) (\<lambda>h. Inr (k\<lparr>k_heap := h\<rparr>)) else Inr (clear_active t k)
     else Inr k)"

definition process_message ::
  "(u32 \<Rightarrow> u32 \<Rightarrow> 'a tkernel_scheme \<Rightarrow> 'a tkernel_scheme res) \<Rightarrow> (u32 \<Rightarrow> u32 \<Rightarrow> u32 \<Rightarrow> 'a tkernel_scheme \<Rightarrow> 'a tkernel_scheme res) \<Rightarrow> u32 \<Rightarrow>
    DaemonTaskMessage_t \<Rightarrow> 'a tkernel_scheme \<Rightarrow> 'a tkernel_scheme res" where
  "process_message cb pend xStart m k =
    (if sint (xMessageID m) < 0 then pend (msg_u0 m) (msg_u1 m) (msg_u2 m) k
     else let t = msg_pxTimer m;
              k1 = (if pxContainer (l_item k (xTimerListItem t)) \<noteq> NULL then fst (uxListRemove (xTimerListItem t) k) else k)
          in rbind (prvSampleTimeNow cb k1) (\<lambda>(k2, now, _). timer_command cb xStart (xMessageID m) t (xMessageValue m) now k2))"

text \<open>The loop over the command queue, for a number of rounds; tasks may go on sending while it runs.\<close>

fun prvProcessReceivedCommands ::
  "nat \<Rightarrow> (u32 \<Rightarrow> u32 \<Rightarrow> 'a tkernel_scheme \<Rightarrow> 'a tkernel_scheme res) \<Rightarrow> (u32 \<Rightarrow> u32 \<Rightarrow> u32 \<Rightarrow> 'a tkernel_scheme \<Rightarrow> 'a tkernel_scheme res) \<Rightarrow> u32 \<Rightarrow>
    'a tkernel_scheme \<Rightarrow> 'a tkernel_scheme res" where
  "prvProcessReceivedCommands n cb pend xStart k =
    rbind (xQueueReceive (xTimerQueue k) False 0 k) (\<lambda>(k1, bs, out).
      if out = Returned pdPASS
      then case n of 0 \<Rightarrow> Inl NoExit
           | Suc m \<Rightarrow> rbind (process_message cb pend xStart (daemon_of_bytes bs) k1) (prvProcessReceivedCommands m cb pend xStart)
      else Inr k1)"

declare prvProcessReceivedCommands.simps [simp del]

definition prvTimerTask_round ::
  "nat \<Rightarrow> (u32 \<Rightarrow> u32 \<Rightarrow> 'a tkernel_scheme \<Rightarrow> 'a tkernel_scheme res) \<Rightarrow> (u32 \<Rightarrow> u32 \<Rightarrow> u32 \<Rightarrow> 'a tkernel_scheme \<Rightarrow> 'a tkernel_scheme res) \<Rightarrow> u32 \<Rightarrow>
    ('a tkernel_scheme \<Rightarrow> 'a tkernel_scheme res) \<Rightarrow> 'a tkernel_scheme \<Rightarrow> 'a tkernel_scheme res" where
  "prvTimerTask_round rounds cb pend xStart others k =
    (let (xNextExpireTime, xListWasEmpty) = prvGetNextExpireTime k
     in rbind (prvProcessTimerOrBlockTask cb xNextExpireTime xListWasEmpty k) (\<lambda>k1.
        rbind (others k1) (prvProcessReceivedCommands rounds cb pend xStart)))"

section \<open>The state at start-up\<close>

text \<open>The static data of the kernel as the start-up code leaves it: zero, with the addresses that the linker chose.\<close>

definition boot_kernel :: "nat tkernel_scheme" where
  "boot_kernel = \<lparr>l_item = \<lambda>_. \<lparr>xItemValue = 0, pxNext = 0, pxPrevious = 0, pvOwner = 0, pxContainer = 0\<rparr>,
     l_list = \<lambda>_. \<lparr>uxNumberOfItems = 0, pxIndex = 0\<rparr>,
     tcb = \<lambda>_. \<lparr>pxTopOfStack = 0, uxPriority = 0, pxStack = 0, pcTaskName = replicate 16 0, uxBasePriority = 0, uxMutexesHeld = 0,
         pvThreadLocalStoragePointers = [0, 0], ulNotifiedValue = 0, ucNotifyState = 0, ucDelayAborted = False\<rparr>,
     pxCurrentTCB = 0, pxReadyTasksLists = 0x100, xPendingReadyList = 0x200, xSuspendedTaskList = 0x220, xTasksWaitingTermination = 0x240,
     xDelayedTaskList1 = 0x260, xDelayedTaskList2 = 0x280, pxDelayedTaskList = 0, pxOverflowDelayedTaskList = 0,
     uxCurrentNumberOfTasks = 0, xTickCount = 0, uxTopReadyPriority = 0, xSchedulerRunning = False,
     xPendedTicks = 0, xYieldPending = False, xNumOfOverflows = 0, xNextTaskUnblockTime = 0,
     uxSchedulerSuspended = 0, uxDeletedTasksWaitingCleanUp = 0,
     uxTaskNumber = 0, xIdleTaskHandle = 0, stack_mem = \<lambda>_. 0, pendSV = False, q_mem = \<lambda>_. 0,
     q_at = \<lambda>_. \<lparr>pcHead = 0, pcWriteTo = 0, u_0 = 0, u_1 = 0, uxMessagesWaiting = 0, uxLength = 0, uxItemSize = 0, cRxLock = 0, cTxLock = 0\<rparr>,
     t_at = \<lambda>_. \<lparr>pcTimerName = 0, xTimerPeriodInTicks = 0, pvTimerID = 0, pxCallbackFunction = 0, ucStatus = 0\<rparr>,
     xActiveTimerList1 = 0x2A0, xActiveTimerList2 = 0x2C0, pxCurrentTimerList = 0, pxOverflowTimerList = 0,
     xTimerQueue = 0, xTimerTaskHandle = 0, xLastTime = 0, xQueueRegistry = [(0, 0), (0, 0)],
     k_heap = \<lparr>blk = \<lambda>_. \<lparr>pxNextFreeBlock = 0, xBlockSize = 0\<rparr>, pxEnd = 0, xFreeBytesRemaining = 0, xMinimumEverFreeBytesRemaining = 0,
       xNumberOfSuccessfulAllocations = 0, xNumberOfSuccessfulFrees = 0, xBlockAllocatedBit = 0\<rparr>, \<dots> = 0\<rparr>"

end
