(* ===== verification/Timer_Refine.thy ===== *)
theory Timer_Refine
  imports Freertos_Timers Freertos_Sched
begin

text \<open>
  What the timer task promises about times. The tick counter wraps around; \<open>expires\<close> reads the two timer lists as
  expiry times on the unbounded clock, and the lemmas show that insertion, reloading and processing of timers are exact on
  that clock.
\<close>

section \<open>Absolute time\<close>

text \<open>Ticks are counted without bound; the tick counter is their value modulo \<open>2 ^ 32\<close>, and an epoch is one run of the counter.\<close>

abbreviation epoch :: "nat \<Rightarrow> nat" where "epoch n \<equiv> n div 2 ^ 32"

lemma unat_of_nat_mod: "unat (of_nat n :: u32) = n mod 2 ^ 32"
  by (simp add: unat_of_nat take_bit_eq_mod)

lemma word_le_mod: "(of_nat a :: u32) \<le> of_nat b \<longleftrightarrow> a mod 2 ^ 32 \<le> b mod 2 ^ 32"
  "(of_nat a :: u32) < of_nat b \<longleftrightarrow> a mod 2 ^ 32 < b mod 2 ^ 32"
  by (simp_all only: word_le_nat_alt word_less_nat_alt unat_of_nat_mod)

lemma epoch_step:
  fixes a b M :: nat
  assumes "a \<le> b" "b - a < M"
  shows "b div M = a div M \<and> b mod M = a mod M + (b - a) \<or> b div M = a div M + 1 \<and> b mod M + M = a mod M + (b - a)"
proof -
  define d q s where "d = b - a" "q = a div M" "s = a mod M"
  have e: "b = s + d + q * M" and M: "0 < M" "d < M" "s < M" using assms by (simp_all add: d_q_s_def)
  have "b div M = q \<and> b mod M = s + d \<or> b div M = q + 1 \<and> b mod M + M = s + d"
  proof (cases "s + d < M")
    case True
    then have "b div M = q" "b mod M = s + d" unfolding e by simp_all
    then show ?thesis by simp
  next
    case False
    define r where "r = s + d - M"
    have r: "r < M" "s + d = M + r" using False M by (simp_all add: r_def)
    have e': "b = r + Suc q * M" using e r(2) by simp
    have "b div M = q + 1" "b mod M = r" unfolding e' using r(1) M by (simp_all del: mult_Suc)
    then show ?thesis using r(2) by simp
  qed
  then show ?thesis by (simp add: d_q_s_def)
qed

lemma epoch_cases:
  fixes N C P M :: nat
  assumes c: "C \<le> N" "N - C < M" and p: "0 < P" "P < M"
  shows "(C + P) mod M \<le> N mod M \<Longrightarrow> N < C + P \<Longrightarrow> (C + P) div M = N div M + 1"
    "\<not> (C + P) mod M \<le> N mod M \<Longrightarrow> N mod M < C mod M \<and> C mod M \<le> (C + P) mod M \<longleftrightarrow> C + P \<le> N"
    "\<not> (C + P) mod M \<le> N mod M \<Longrightarrow> N < C + P \<Longrightarrow> (C + P) div M = N div M"
proof -
  define rc rn re where "rc = C mod M" "rn = N mod M" "re = (C + P) mod M"
  have r: "rc < M" "rn < M" "re < M" using p by (simp_all add: rc_rn_re_def)
  have n: "N div M = C div M \<and> rn = rc + (N - C) \<or> N div M = C div M + 1 \<and> rn + M = rc + (N - C)"
    using epoch_step [OF c] by (simp add: rc_rn_re_def)
  have e: "(C + P) div M = C div M \<and> re = rc + P \<or> (C + P) div M = C div M + 1 \<and> re + M = rc + P"
    using epoch_step [of C "C + P" M] p by (simp add: rc_rn_re_def)
  show "(C + P) div M = N div M + 1" if "(C + P) mod M \<le> N mod M" "N < C + P"
    using that n e c r p unfolding rc_rn_re_def [symmetric] by linarith
  show "N mod M < C mod M \<and> C mod M \<le> (C + P) mod M \<longleftrightarrow> C + P \<le> N" if "\<not> (C + P) mod M \<le> N mod M"
    using that n e c r p unfolding rc_rn_re_def [symmetric] by linarith
  show "(C + P) div M = N div M" if "\<not> (C + P) mod M \<le> N mod M" "N < C + P"
    using that n e c r p unfolding rc_rn_re_def [symmetric] by linarith
qed

lemma insert_decides:
  fixes N C P :: nat
  assumes c: "C \<le> N" "N - C < 2 ^ 32" and p: "0 < P" "P < 2 ^ 32"
  defines "expiry \<equiv> of_nat (C + P) :: u32" and "now \<equiv> of_nat N :: u32" and "cmd \<equiv> of_nat C :: u32"
  shows "of_nat P \<le> now - cmd \<longleftrightarrow> C + P \<le> N" "expiry \<le> now \<Longrightarrow> N < C + P \<Longrightarrow> epoch (C + P) = epoch N + 1"
    "\<not> expiry \<le> now \<Longrightarrow> now < cmd \<and> cmd \<le> expiry \<longleftrightarrow> C + P \<le> N" "\<not> expiry \<le> now \<Longrightarrow> N < C + P \<Longrightarrow> epoch (C + P) = epoch N"
proof -
  have d: "now - cmd = of_nat (N - C)" using c(1) by (simp add: now_def cmd_def of_nat_diff)
  have m: "P mod 2 ^ 32 = P" "(N - C) mod 2 ^ 32 = N - C" by (rule mod_less [OF p(2)], rule mod_less [OF c(2)])
  show "of_nat P \<le> now - cmd \<longleftrightarrow> C + P \<le> N" unfolding d word_le_mod m using c(1) by linarith
  note e = epoch_cases [OF c p]
  show "expiry \<le> now \<Longrightarrow> N < C + P \<Longrightarrow> epoch (C + P) = epoch N + 1" unfolding expiry_def now_def word_le_mod by (rule e(1))
  show "\<not> expiry \<le> now \<Longrightarrow> now < cmd \<and> cmd \<le> expiry \<longleftrightarrow> C + P \<le> N" unfolding expiry_def now_def cmd_def word_le_mod by (rule e(2))
  show "\<not> expiry \<le> now \<Longrightarrow> N < C + P \<Longrightarrow> epoch (C + P) = epoch N" unfolding expiry_def now_def word_le_mod by (rule e(3))
qed

section \<open>The timer lists\<close>

definition timers_ok :: "'a tkernel_scheme \<Rightarrow> (u32 \<rightharpoonup> u32 list) \<Rightarrow> bool" where
  "timers_ok k F \<longleftrightarrow> lists_ok k F \<and> pxCurrentTimerList k \<noteq> pxOverflowTimerList k \<and>
    (\<forall>L \<in> {pxCurrentTimerList k, pxOverflowTimerList k}. F L \<noteq> None \<and> sorted (map (val k) (lst F L)) \<and> (\<forall>x \<in> set (lst F L). x = xTimerListItem (owner k x)))"

text \<open>When a timer expires: the current list holds expiries of the running epoch, the overflow list those of the next.\<close>

definition expires :: "'a tkernel_scheme \<Rightarrow> (u32 \<rightharpoonup> u32 list) \<Rightarrow> nat \<Rightarrow> u32 \<Rightarrow> nat option" where
  "expires k F N t =
    (let x = xTimerListItem t
     in if x \<in> set (lst F (pxCurrentTimerList k)) then Some (epoch N * 2 ^ 32 + unat (val k x))
        else if x \<in> set (lst F (pxOverflowTimerList k)) then Some ((epoch N + 1) * 2 ^ 32 + unat (val k x)) else None)"

definition tframe :: "'a tkernel_scheme \<Rightarrow> 'a tkernel_scheme \<Rightarrow> bool" where
  "tframe k k' \<longleftrightarrow> (\<exists>i l. k' = k\<lparr>l_item := i, l_list := l\<rparr>)"

lemma tframeI: "k' = k\<lparr>l_item := i, l_list := l\<rparr> \<Longrightarrow> tframe k k'"
  by (auto simp: tframe_def)

lemma tframeD:
  assumes "tframe k k'"
  shows "t_at k' = t_at k" "pxCurrentTimerList k' = pxCurrentTimerList k" "pxOverflowTimerList k' = pxOverflowTimerList k"
    "tkernel.more k' = tkernel.more k"
  using assms by (auto simp: tframe_def)

lemma tframe_trans: "tframe k k' \<Longrightarrow> tframe k' k'' \<Longrightarrow> tframe k k''"
  unfolding tframe_def by fastforce

lemma timer_item_inj [simp]: "xTimerListItem t = xTimerListItem u \<longleftrightarrow> t = u"
  by (simp add: xTimerListItem_def)

lemma lists_ok_item_upd:
  assumes "lists_ok k F" "x \<notin> items F" "\<And>y. y \<noteq> x \<Longrightarrow> l_item k' y = l_item k y" "l_list k' = l_list k"
  shows "lists_ok k' F"
proof -
  have "list_at k' L xs" if L: "F L = Some xs" for L xs
  proof -
    have "list_at k' L xs = list_at k L xs"
    proof (rule list_at_cong)
      show "l_item k' y = l_item k y" if "y \<in> set (xListEnd L # xs)" for y
        using itemsI [of F L xs y] L that assms(2,3) by metis
    qed (simp add: assms(4))
    then show ?thesis using lists_okD [of k F L xs] assms(1) L by simp
  qed
  then show ?thesis using assms(1) by (simp add: lists_ok_def)
qed

lemma in_lst_items: "x \<in> set (lst F L) \<Longrightarrow> x \<in> items F"
  using itemsI [of F L "lst F L" x] by (cases "F L") (auto simp: lst_def)

lemma timer_insert:
  fixes k :: "'a tkernel_scheme"
  assumes ok: "timers_ok k F" and L: "L \<in> {pxCurrentTimerList k, pxOverflowTimerList k}" and n: "xTimerListItem t \<notin> items F"
    and v: "owner k (xTimerListItem t) = t"
  obtains k' F' where "vListInsert L (xTimerListItem t) k = Inr k'" "timers_ok k' F'" "tframe k k'"
    "\<And>M. F' M = (if M = L then F' L else F M)" "\<And>M. set (lst F' M) = set (lst F M) \<union> (if M = L then {xTimerListItem t} else {})"
    "\<And>x. val k' x = val k x"
proof -
  let ?x = "xTimerListItem t"
  have lo: "lists_ok k F" "F L = Some (lst F L)" using ok L by (auto simp: timers_ok_def lst_def)
  obtain k' where k': "vListInsert L ?x k = Inr k'" "lists_ok k' (F(L \<mapsto> insert_by_value (val k) ?x (lst F L)))"
    "\<And>x. val k' x = val k x" "\<And>x. owner k' x = owner k x" "k' = k\<lparr>l_item := l_item k', l_list := l_list k'\<rparr>"
    by (rule lists_insert_sorted [OF lo n]) blast
  define G where "G = F(L \<mapsto> insert_by_value (val k) ?x (lst F L))"
  have fr: "tframe k k'" by (rule tframeI [OF k'(5)])
  have g: "lst G M = (if M = L then insert_by_value (val k) ?x (lst F L) else lst F M)" for M by (simp add: G_def)
  have "sorted (map (val k) (lst G M))" if "M \<in> {pxCurrentTimerList k, pxOverflowTimerList k}" for M
    using ok that insert_by_value_sorted [of "val k" "lst F L" ?x] L by (auto simp: g timers_ok_def)
  moreover have "x = xTimerListItem (owner k x)" if "M \<in> {pxCurrentTimerList k, pxOverflowTimerList k}" "x \<in> set (lst G M)" for M x
    using ok that v L by (auto simp: g timers_ok_def split: if_splits)
  moreover have "G M \<noteq> None" if "M \<in> {pxCurrentTimerList k, pxOverflowTimerList k}" for M using ok that by (auto simp: G_def timers_ok_def)
  ultimately have "timers_ok k' G" using ok k'(2) unfolding timers_ok_def tframeD [OF fr] k'(3,4) G_def [symmetric] by blast
  moreover have "G M = (if M = L then G L else F M)" "set (lst G M) = set (lst F M) \<union> (if M = L then {?x} else {})" for M
    unfolding g by (simp_all add: G_def)
  ultimately show ?thesis using that k'(1,3) fr by blast
qed

lemma insert_timer_exact:
  fixes k :: "'a tkernel_scheme"
  assumes ok: "timers_ok k F" and n: "xTimerListItem t \<notin> items F" and per: "xTimerPeriodInTicks (t_at k t) = of_nat P"
    and c: "C \<le> N" "N - C < 2 ^ 32" and p: "0 < P" "P < 2 ^ 32"
  obtains k' F' where "prvInsertTimerInActiveList t (of_nat (C + P)) (of_nat N) (of_nat C) k = Inr (k', C + P \<le> N)" "timers_ok k' F'" "tframe k k'"
    "expires k' F' N = (expires k F N)(t := if C + P \<le> N then None else Some (C + P))"
    "C + P \<le> N \<Longrightarrow> xTimerListItem t \<notin> items F'" "\<And>M. M \<notin> {pxCurrentTimerList k, pxOverflowTimerList k} \<Longrightarrow> F' M = F M"
proof -
  let ?x = "xTimerListItem t" and ?e = "of_nat (C + P) :: u32"
  note D = insert_decides [OF c p]
  define k1 where "k1 = upd_item ?x (\<lambda>i. i\<lparr>xItemValue := ?e, pvOwner := t\<rparr>) k"
  have f1: "tframe k k1" "val k1 y = (if y = ?x then ?e else val k y)" "owner k1 y = (if y = ?x then t else owner k y)"
    "l_list k1 = l_list k" "y \<noteq> ?x \<Longrightarrow> l_item k1 y = l_item k y" for y
    by (auto simp: k1_def upd_item_def intro!: tframeI [where l = "l_list k"])
  have nx: "y \<noteq> ?x" if "y \<in> set (lst F M)" for y M using in_lst_items [OF that] n by auto
  have vs: "map (val k1) (lst F M) = map (val k) (lst F M)" for M using nx f1(2) by simp
  have ow: "y = xTimerListItem (owner k1 y) \<longleftrightarrow> y = xTimerListItem (owner k y)" if "y \<in> set (lst F M)" for y M using nx [OF that] f1(3) by simp
  have ok1: "timers_ok k1 F"
    using ok lists_ok_item_upd [of k F ?x k1] n f1(4,5) ow unfolding timers_ok_def tframeD [OF f1(1)] vs by blast
  have e1: "expires k1 F N = expires k F N" and et: "expires k F N t = None"
    using nx by (auto simp: expires_def tframeD [OF f1(1)] f1(2) Let_def fun_eq_iff)
  have per1: "xTimerPeriodInTicks (t_at k1 t) = of_nat P" using per tframeD [OF f1(1)] by simp
  note run = prvInsertTimerInActiveList_def [of t ?e "of_nat N" "of_nat C" k, folded k1_def, unfolded Let_def per1]
  show ?thesis
  proof (cases "C + P \<le> N")
    case True
    have "prvInsertTimerInActiveList t ?e (of_nat N) (of_nat C) k = Inr (k1, True)"
      unfolding run using D(1,3) True by (cases "?e \<le> of_nat N") simp_all
    then show ?thesis using that [of k1 F] ok1 f1(1) e1 et True n by (simp add: fun_upd_idem)
  next
    case False
    let ?now = "of_nat N :: u32"
    define L where "L = (if ?e \<le> ?now then pxOverflowTimerList k1 else pxCurrentTimerList k1)"
    have L: "L \<in> {pxCurrentTimerList k1, pxOverflowTimerList k1}" by (simp add: L_def)
    have o1: "owner k1 ?x = t" by (simp add: f1(3))
    obtain k' F' where k': "vListInsert L ?x k1 = Inr k'" "timers_ok k' F'" "tframe k1 k'" "\<And>M. F' M = (if M = L then F' L else F M)"
      "\<And>M. set (lst F' M) = set (lst F M) \<union> (if M = L then {?x} else {})" "\<And>y. val k' y = val k1 y"
      by (rule timer_insert [OF ok1 L n o1]) blast
    have "prvInsertTimerInActiveList t ?e ?now (of_nat C) k = Inr (k', False)"
    proof (cases "?e \<le> ?now")
      case le: True
      then have "\<not> of_nat P \<le> ?now - of_nat C" using D(1) False by simp
      then show ?thesis unfolding run using k'(1) le by (simp add: L_def)
    next
      case no: False
      then have "\<not> (?now < of_nat C \<and> of_nat C \<le> ?e)" using D(3) False by blast
      then show ?thesis unfolding run using k'(1) no by (auto simp: L_def)
    qed
    moreover have fr: "tframe k k'" by (rule tframe_trans [OF f1(1) k'(3)])
    moreover have "expires k' F' N u = ((expires k F N)(t := Some (C + P))) u" for u
    proof -
      have ne: "pxCurrentTimerList k \<noteq> pxOverflowTimerList k" using ok by (simp add: timers_ok_def)
      note L' = L_def [unfolded tframeD [OF f1(1)]]
      have e: "epoch (C + P) * 2 ^ 32 + unat ?e = C + P" unfolding unat_of_nat_mod by simp
      have ep: "epoch (C + P) = (if ?e \<le> ?now then epoch N + 1 else epoch N)" using D(2,4) False by simp
      have et': "expires k' F' N t = Some ((if ?e \<le> ?now then epoch N + 1 else epoch N) * 2 ^ 32 + unat ?e)"
        using nx [of ?x "pxCurrentTimerList k"] ne unfolding expires_def Let_def tframeD [OF fr] k'(5,6) f1(2) L' by (auto simp del: of_nat_add)
      show ?thesis
      proof (cases "u = t")
        case True
        then show ?thesis using et' e unfolding ep [symmetric] by simp
      next
        case False
        then show ?thesis unfolding expires_def tframeD [OF fr] k'(5,6) f1(2) by (auto simp: Let_def)
      qed
    qed
    moreover have "F' M = F M" if "M \<notin> {pxCurrentTimerList k, pxOverflowTimerList k}" for M
      using k'(4) [of M] L that unfolding tframeD [OF f1(1)] by auto
    ultimately show ?thesis using that [of k' F'] k'(2) False by (simp add: fun_eq_iff)
  qed
qed

section \<open>Reloading and firing\<close>

text \<open>A callback that works on the state of the application only: \<open>g\<close> is what it does there.\<close>

definition app_callback :: "(u32 \<Rightarrow> u32 \<Rightarrow> 'a \<Rightarrow> 'a) \<Rightarrow> u32 \<Rightarrow> u32 \<Rightarrow> 'a tkernel_scheme \<Rightarrow> 'a tkernel_scheme res" where
  "app_callback g fn t k = Inr (tkernel.more_update (g fn t) k)"

lemma more_fields [simp]:
  "l_item (tkernel.more_update f k) = l_item k" "l_list (tkernel.more_update f k) = l_list k" "t_at (tkernel.more_update f k) = t_at k"
  "pxCurrentTimerList (tkernel.more_update f k) = pxCurrentTimerList k" "pxOverflowTimerList (tkernel.more_update f k) = pxOverflowTimerList k"
  "tkernel.more (tkernel.more_update f k) = f (tkernel.more k)"
  by simp_all

lemma timers_ok_more [simp]:
  fixes k :: "'a tkernel_scheme" and f :: "'a \<Rightarrow> 'a"
  shows "timers_ok (tkernel.more_update f k) F = timers_ok k F" "expires (tkernel.more_update f k) F N = expires k F N"
proof -
  have "lists_ok (tkernel.more_update f k) F = lists_ok k F" by (rule lists_ok_heap) simp_all
  then show "timers_ok (tkernel.more_update f k) F = timers_ok k F" by (simp add: timers_ok_def)
qed (simp add: expires_def fun_eq_iff Let_def)

lemma reload_exact:
  fixes k :: "'a tkernel_scheme"
  assumes "timers_ok k F" "xTimerListItem t \<notin> items F" "xTimerPeriodInTicks (t_at k t) = of_nat P"
    "E \<le> N" "N - E < 2 ^ 32" "0 < P" "P < 2 ^ 32" "(N - E) div P \<le> n"
  shows "\<exists>k' F'. reload_loop n (app_callback g) t (of_nat E) (of_nat N) k = Inr k' \<and> timers_ok k' F' \<and>
    t_at k' = t_at k \<and> pxCurrentTimerList k' = pxCurrentTimerList k \<and> pxOverflowTimerList k' = pxOverflowTimerList k \<and>
    tkernel.more k' = (g (pxCallbackFunction (t_at k t)) t ^^ ((N - E) div P)) (tkernel.more k) \<and>
    expires k' F' N = (expires k F N)(t \<mapsto> E + ((N - E) div P + 1) * P)"
  using assms
proof (induction n arbitrary: k F E)
  case 0
  then have z: "(N - E) div P = 0" and lt: "\<not> E + P \<le> N" by (auto simp: div_eq_0_iff)
  obtain k' F' where k': "prvInsertTimerInActiveList t (of_nat (E + P)) (of_nat N) (of_nat E) k = Inr (k', E + P \<le> N)" "timers_ok k' F'" "tframe k k'"
    "expires k' F' N = (expires k F N)(t := if E + P \<le> N then None else Some (E + P))"
    by (rule insert_timer_exact [OF 0(1-7)]) blast
  have "reload_loop 0 (app_callback g) t (of_nat E) (of_nat N) k = Inr k'"
    using k'(1) lt 0(3) by (subst reload_loop.simps) simp
  then show ?case unfolding z using k'(2,4) lt by (intro exI [of _ k'] exI [of _ F']) (simp add: tframeD [OF k'(3)])
next
  case (Suc n)
  obtain k' F' where k': "prvInsertTimerInActiveList t (of_nat (E + P)) (of_nat N) (of_nat E) k = Inr (k', E + P \<le> N)" "timers_ok k' F'" "tframe k k'"
    "expires k' F' N = (expires k F N)(t := if E + P \<le> N then None else Some (E + P))" "E + P \<le> N \<Longrightarrow> xTimerListItem t \<notin> items F'"
    by (rule insert_timer_exact [OF Suc.prems(1-7)]) blast
  show ?case
  proof (cases "E + P \<le> N")
    case False
    then have z: "(N - E) div P = 0" using Suc.prems(4) by (auto simp: div_eq_0_iff)
    have "reload_loop (Suc n) (app_callback g) t (of_nat E) (of_nat N) k = Inr k'"
      using k'(1) False Suc.prems(3) by (subst reload_loop.simps) simp
    then show ?thesis unfolding z using k'(2,4) False by (intro exI [of _ k'] exI [of _ F']) (simp add: tframeD [OF k'(3)])
  next
    case True
    define fn where "fn = pxCallbackFunction (t_at k t)"
    define k2 where "k2 = tkernel.more_update (g fn t) k'"
    have "N - E = N - (E + P) + P" using True by simp
    then have "(N - E) div P = (N - (E + P)) div P + 1" using div_add_self2 [of P "N - (E + P)"] Suc.prems(6) by (metis less_numeral_extra(3))
    then have q: "(N - E) div P = Suc ((N - (E + P)) div P)" by (simp only: Suc_eq_plus1)
    have t2: "t_at k2 = t_at k" by (simp add: k2_def tframeD [OF k'(3)])
    have pre: "timers_ok k2 F'" "xTimerListItem t \<notin> items F'" "xTimerPeriodInTicks (t_at k2 t) = of_nat P"
      using k'(2,5) True Suc.prems(3) unfolding t2 by (simp_all add: k2_def)
    have "N - (E + P) \<le> N - E" by simp
    then have "N - (E + P) < 2 ^ 32" using Suc.prems(5) by (rule le_less_trans)
    moreover have "(N - (E + P)) div P \<le> n" using Suc.prems(8) unfolding q by simp
    ultimately obtain k3 F3 where k3: "reload_loop n (app_callback g) t (of_nat (E + P)) (of_nat N) k2 = Inr k3" "timers_ok k3 F3"
      "t_at k3 = t_at k2" "pxCurrentTimerList k3 = pxCurrentTimerList k2" "pxOverflowTimerList k3 = pxOverflowTimerList k2"
      "tkernel.more k3 = (g (pxCallbackFunction (t_at k2 t)) t ^^ ((N - (E + P)) div P)) (tkernel.more k2)"
      "expires k3 F3 N = (expires k2 F' N)(t \<mapsto> (E + P) + ((N - (E + P)) div P + 1) * P)"
      using Suc.IH [OF pre True _ Suc.prems(6,7)] by blast
    have "reload_loop (Suc n) (app_callback g) t (of_nat E) (of_nat N) k = Inr k3"
      using k'(1) True Suc.prems(3) k3(1) by (subst reload_loop.simps)
        (simp add: call_timer_def app_callback_def tframeD [OF k'(3)] k2_def fn_def)
    moreover have "tkernel.more k3 = (g fn t ^^ ((N - E) div P)) (tkernel.more k)"
      unfolding k3(6) q t2 fn_def [symmetric] by (simp add: k2_def tframeD [OF k'(3)] funpow_swap1)
    moreover have "expires k3 F3 N = (expires k F N)(t \<mapsto> E + ((N - E) div P + 1) * P)"
      unfolding k3(7) q using k'(4) True by (simp add: k2_def algebra_simps)
    ultimately show ?thesis using k3(2,3,4,5) by (intro exI [of _ k3] exI [of _ F3]) (simp add: k2_def tframeD [OF k'(3)] fn_def)
  qed
qed

text \<open>Firing the first timer of the current list.\<close>

definition fires :: "'a tkernel_scheme \<Rightarrow> u32 \<Rightarrow> nat \<Rightarrow> nat \<Rightarrow> nat \<Rightarrow> nat" where
  "fires k t P E N = (if is_autoreload t k then (N - E) div P + 1 else 1)"

lemma timer_remove:
  fixes k :: "'a tkernel_scheme"
  assumes ok: "timers_ok k F" and F: "F (pxCurrentTimerList k) = Some (x # xs)"
  defines "k' \<equiv> fst (uxListRemove x k)" and "F' \<equiv> F(pxCurrentTimerList k \<mapsto> xs)"
  shows "timers_ok k' F'" "tframe k k'" "x \<notin> items F'" "expires k' F' N = (expires k F N)(owner k x := None)"
proof -
  let ?c = "pxCurrentTimerList k" and ?o = "pxOverflowTimerList k"
  have lo: "lists_ok k F" and ne: "?c \<noteq> ?o" using ok by (simp_all add: timers_ok_def)
  have x: "x \<in> set (x # xs)" and r1: "remove1 x (x # xs) = xs" by simp_all
  note R = lists_remove [of k F, OF lo F x, folded k'_def, unfolded r1, folded F'_def]
  show fr: "tframe k k'" unfolding k'_def
    by (rule tframeI [where i = "l_item (fst (uxListRemove x k))" and l = "l_list (fst (uxListRemove x k))"]) (simp add: uxListRemove_def heap_upd)
  show "x \<notin> items F'" by (fact R(2))
  have d: "x \<notin> set xs" using lists_okD [of k F, OF lo F] by (simp add: list_at_def Let_def)
  have m: "set (lst F' M) = set (lst F M) - (if M = ?c then {x} else {})" for M using d lst_Some [of F, OF F] by (auto simp: F'_def)
  have xo: "x \<notin> set (lst F ?o)"
  proof
    assume "x \<in> set (lst F ?o)"
    then obtain ys where "F ?o = Some ys" "x \<in> set ys" by (cases "F ?o") (auto simp: lst_def)
    then show False using lists_ok_unique [of k F ?c "x # xs" ?o ys x] lo F ne by simp
  qed
  have s: "sorted (map (val k) (lst F' M))" if "sorted (map (val k) (lst F M))" for M using that lst_Some [of F, OF F] by (auto simp: F'_def)
  have "x = xTimerListItem (owner k x)" using ok lst_Some [of F, OF F] by (auto simp: timers_ok_def)
  then have inj: "xTimerListItem u = x \<longleftrightarrow> u = owner k x" for u using timer_item_inj by metis
  have xo': "xTimerListItem (owner k x) \<notin> set (lst F ?o)" using xo inj by metis
  have nn: "F' ?c \<noteq> None" "F' ?o \<noteq> None" using ok ne by (auto simp: F'_def timers_ok_def)
  show "timers_ok k' F'" using ok R(1) s nn unfolding timers_ok_def tframeD [OF fr] R(3,4) m by blast
  show "expires k' F' N = (expires k F N)(owner k x := None)"
    using xo' ne unfolding expires_def tframeD [OF fr] R(3,4) m by (auto simp: fun_eq_iff Let_def inj)
qed

lemma clear_active_fields [simp]:
  "l_item (clear_active t k) = l_item k" "l_list (clear_active t k) = l_list k" "tkernel.more (clear_active t k) = tkernel.more k"
  "pxCurrentTimerList (clear_active t k) = pxCurrentTimerList k" "pxOverflowTimerList (clear_active t k) = pxOverflowTimerList k"
  "t_at (clear_active t k) u = (if u = t then (t_at k t)\<lparr>ucStatus := ucStatus (t_at k t) AND NOT tmrSTATUS_IS_ACTIVE\<rparr> else t_at k u)"
  by (simp_all add: clear_active_def upd_timer_def)

lemma timers_ok_clear [simp]: "timers_ok (clear_active t k) F = timers_ok k F" "expires (clear_active t k) F N = expires k F N"
proof -
  have "lists_ok (clear_active t k) F = lists_ok k F" by (rule lists_ok_heap) simp_all
  then show "timers_ok (clear_active t k) F = timers_ok k F" by (simp add: timers_ok_def)
qed (simp add: expires_def fun_eq_iff Let_def)

lemma is_autoreload_cong: "t_at k' t = t_at k t \<Longrightarrow> is_autoreload t k' = is_autoreload t k"
  by (simp add: is_autoreload_def)

lemma fire_or_stop:
  fixes k :: "'a tkernel_scheme"
  assumes ok: "timers_ok k F" "xTimerListItem t \<notin> items F" and P: "xTimerPeriodInTicks (t_at k t) = of_nat P" "0 < P" "P < 2 ^ 32"
    and E: "E \<le> N" "N - E < 2 ^ 32"
  shows "\<exists>k' F'. rbind (if is_autoreload t k then prvReloadTimer (app_callback g) t (of_nat E) (of_nat N) k else Inr (clear_active t k))
      (call_timer (app_callback g) t) = Inr k' \<and> timers_ok k' F' \<and>
    tkernel.more k' = (g (pxCallbackFunction (t_at k t)) t ^^ fires k t P E N) (tkernel.more k) \<and>
    expires k' F' N = (expires k F N)(t := if is_autoreload t k then Some (E + ((N - E) div P + 1) * P) else None) \<and>
    t_at k' t = (if is_autoreload t k then t_at k t else (t_at k t)\<lparr>ucStatus := ucStatus (t_at k t) AND NOT tmrSTATUS_IS_ACTIVE\<rparr>)"
proof -
  let ?fn = "pxCallbackFunction (t_at k t)"
  have nx: "expires k F N t = None" using in_lst_items [of "xTimerListItem t" F] ok(2) by (auto simp: expires_def Let_def)
  show ?thesis
  proof (cases "is_autoreload t k")
    case False
    have "call_timer (app_callback g) t (clear_active t k) = Inr (tkernel.more_update (g ?fn t) (clear_active t k))"
      by (simp add: call_timer_def app_callback_def)
    then show ?thesis using False ok(1) nx
      by (intro exI [of _ "tkernel.more_update (g ?fn t) (clear_active t k)"] exI [of _ F]) (simp add: fires_def fun_upd_idem)
  next
    case True
    have "of_nat N - of_nat E = (of_nat (N - E) :: u32)" using E(1) by (simp add: of_nat_diff)
    then have "unat (of_nat N - of_nat E :: u32) = N - E" by (simp only: unat_of_nat_u32 [OF E(2)])
    then have r: "prvReloadTimer (app_callback g) t (of_nat E) (of_nat N) k = reload_loop (N - E) (app_callback g) t (of_nat E) (of_nat N) k"
      by (simp only: prvReloadTimer_def)
    have "(N - E) div P \<le> N - E" by (rule div_le_dividend)
    then obtain k1 F1 where k1: "prvReloadTimer (app_callback g) t (of_nat E) (of_nat N) k = Inr k1" "timers_ok k1 F1" "t_at k1 = t_at k"
      "tkernel.more k1 = (g ?fn t ^^ ((N - E) div P)) (tkernel.more k)"
      "expires k1 F1 N = (expires k F N)(t \<mapsto> E + ((N - E) div P + 1) * P)"
      using reload_exact [OF ok P(1) E P(2,3), of "N - E" g] unfolding r by blast
    then show ?thesis using True
      by (intro exI [of _ "tkernel.more_update (g ?fn t) k1"] exI [of _ F1]) (simp add: call_timer_def app_callback_def fires_def)
  qed
qed

text \<open>(C20) Processing the first timer of the current list when its expiry \<open>E\<close> has come: an auto-reload timer calls its
  callback once for each expiry up to the present tick \<open>N\<close>, late ones included, and is set to the first expiry after \<open>N\<close>; a
  one-shot timer calls it once and leaves the lists. Times are counted without bound, across wrap-arounds of the tick counter; no
  other timer changes.\<close>

theorem expired_timer_fires:
  fixes k :: "'a tkernel_scheme"
  assumes ok: "timers_ok k F" and head: "F (pxCurrentTimerList k) = Some (xTimerListItem t # xs)"
    and P: "xTimerPeriodInTicks (t_at k t) = of_nat P" "0 < P" "P < 2 ^ 32" and E: "expires k F N t = Some E" "E \<le> N"
  shows "\<exists>k' F'. prvProcessExpiredTimer (app_callback g) (of_nat E) (of_nat N) k = Inr k' \<and> timers_ok k' F' \<and>
    tkernel.more k' = (g (pxCallbackFunction (t_at k t)) t ^^ fires k t P E N) (tkernel.more k) \<and>
    expires k' F' N = (expires k F N)(t := if is_autoreload t k then Some (E + ((N - E) div P + 1) * P) else None)"
proof -
  let ?x = "xTimerListItem t"
  define k1 where "k1 = fst (uxListRemove ?x k)"
  have lo: "lists_ok k F" using ok by (simp add: timers_ok_def)
  have "?x = xTimerListItem (owner k ?x)" using ok lst_Some [of F, OF head] by (auto simp: timers_ok_def)
  then have o: "owner k ?x = t" by simp
  note R = timer_remove [OF ok head, folded k1_def, unfolded o]
  have h: "listGET_OWNER_OF_HEAD_ENTRY (pxCurrentTimerList k) k = t" using list_head(2) [of k F, OF lo head] o by simp
  have "E = epoch N * 2 ^ 32 + unat (val k ?x)" using E(1) lst_Some [of F, OF head] by (simp add: expires_def)
  then have d: "N - E < 2 ^ 32" using div_mult_mod_eq [of N "2 ^ 32"] mod_less_divisor [of "2 ^ 32" N] by simp
  have t1: "t_at k1 = t_at k" "tkernel.more k1 = tkernel.more k" using R(2) by (simp_all add: tframeD)
  have a: "is_autoreload t k1 = is_autoreload t k" "fires k1 t P E N = fires k t P E N" by (simp_all add: is_autoreload_def fires_def t1)
  have P1: "xTimerPeriodInTicks (t_at k1 t) = of_nat P" using P(1) t1 by simp
  from fire_or_stop [OF R(1,3) P1 P(2,3) E(2) d, where g = g]
  obtain k' F' where k': "rbind (if is_autoreload t k1 then prvReloadTimer (app_callback g) t (of_nat E) (of_nat N) k1 else Inr (clear_active t k1))
      (call_timer (app_callback g) t) = Inr k'" "timers_ok k' F'"
    "tkernel.more k' = (g (pxCallbackFunction (t_at k1 t)) t ^^ fires k1 t P E N) (tkernel.more k1)"
    "expires k' F' N = (expires k1 (F(pxCurrentTimerList k \<mapsto> xs)) N)(t := if is_autoreload t k1 then Some (E + ((N - E) div P + 1) * P) else None)"
    by blast
  have "prvProcessExpiredTimer (app_callback g) (of_nat E) (of_nat N) k = Inr k'"
    using k'(1) unfolding prvProcessExpiredTimer_def h Let_def k1_def [symmetric] .
  then show ?thesis using k'(2-4) unfolding R(4) a t1 by (intro exI [of _ k'] exI [of _ F']) simp
qed

text \<open>(C21) A start or reset command that was issued at tick \<open>C\<close> and reaches the timer task at tick \<open>N\<close>: when the expiry \<open>C + P\<close>
  lies ahead, the timer waits in the list of the epoch of that expiry and nothing is called; when it has passed, the missed expiries are
  called at once and an auto-reload timer goes on with the first expiry after \<open>N\<close>. This holds across the wrap-around of the tick
  counter between command, handling and expiry.\<close>

theorem timer_start_exact:
  fixes k :: "'a tkernel_scheme"
  assumes ok: "timers_ok k F" and n: "xTimerListItem t \<notin> items F" and cmd: "cmd \<in> {1, 2, 6, 7}"
    and P: "xTimerPeriodInTicks (t_at k t) = of_nat P" "0 < P" "P < 2 ^ 32" and C: "C \<le> N" "N - C < 2 ^ 32"
  shows "\<exists>k' F'. timer_command (app_callback g) xStart cmd t (of_nat C) (of_nat N) k = Inr k' \<and> timers_ok k' F' \<and>
    (if N < C + P then tkernel.more k' = tkernel.more k \<and> expires k' F' N = (expires k F N)(t \<mapsto> C + P)
     else tkernel.more k' = (g (pxCallbackFunction (t_at k t)) t ^^ fires k t P (C + P) N) (tkernel.more k) \<and>
          expires k' F' N = (expires k F N)(t := if is_autoreload t k then Some (C + P + ((N - (C + P)) div P + 1) * P) else None))"
proof -
  define k1 where "k1 = set_active t k"
  have f1: "l_item k1 = l_item k" "l_list k1 = l_list k" "pxCurrentTimerList k1 = pxCurrentTimerList k" "pxOverflowTimerList k1 = pxOverflowTimerList k"
    "tkernel.more k1 = tkernel.more k" "t_at k1 t = (t_at k t)\<lparr>ucStatus := ucStatus (t_at k t) OR tmrSTATUS_IS_ACTIVE\<rparr>"
    by (simp_all add: k1_def set_active_def upd_timer_def)
  have a: "is_autoreload t k1 = is_autoreload t k"
  proof -
    have "(s OR 1) AND 4 = s AND (4 :: u8)" for s by (rule bit_word_eqI) (auto simp: bit_simps)
    then show ?thesis by (simp add: is_autoreload_def f1)
  qed
  have "lists_ok k1 F = lists_ok k F" using f1 by (intro lists_ok_heap)
  then have ok1: "timers_ok k1 F" and e1: "expires k1 F N = expires k F N"
    using ok by (simp_all add: timers_ok_def expires_def fun_eq_iff Let_def f1)
  have P1: "xTimerPeriodInTicks (t_at k1 t) = of_nat P" and cb: "pxCallbackFunction (t_at k1 t) = pxCallbackFunction (t_at k t)"
    using P(1) f1 by simp_all
  obtain k2 F2 where k2: "prvInsertTimerInActiveList t (of_nat (C + P)) (of_nat N) (of_nat C) k1 = Inr (k2, C + P \<le> N)" "timers_ok k2 F2" "tframe k1 k2"
    "expires k2 F2 N = (expires k1 F N)(t := if C + P \<le> N then None else Some (C + P))" "C + P \<le> N \<Longrightarrow> xTimerListItem t \<notin> items F2"
    by (rule insert_timer_exact [OF ok1 n P1 C P(2,3)]) blast
  have run: "timer_command (app_callback g) xStart cmd t (of_nat C) (of_nat N) k =
      (if C + P \<le> N then rbind (if is_autoreload t k2 then prvReloadTimer (app_callback g) t (of_nat (C + P)) (of_nat N) k2 else Inr (clear_active t k2))
         (call_timer (app_callback g) t) else Inr k2)"
    using cmd k2(1) P1 unfolding timer_command_def start_timer_def Let_def k1_def [symmetric] by auto
  have t2: "t_at k2 = t_at k1" "tkernel.more k2 = tkernel.more k" using k2(3) f1(5) by (simp_all add: tframeD)
  show ?thesis
  proof (cases "C + P \<le> N")
    case False
    then show ?thesis using run k2(2,4) t2(2) e1 by (intro exI [of _ k2] exI [of _ F2]) simp
  next
    case True
    have P2: "xTimerPeriodInTicks (t_at k2 t) = of_nat P" using P1 t2 by simp
    have "N - (C + P) \<le> N - C" by simp
    then have d: "N - (C + P) < 2 ^ 32" using C(2) by (rule le_less_trans)
    have a2: "is_autoreload t k2 = is_autoreload t k" "fires k2 t P (C + P) N = fires k t P (C + P) N" "pxCallbackFunction (t_at k2 t) = pxCallbackFunction (t_at k t)"
      using a t2 cb by (simp_all add: fires_def is_autoreload_def)
    obtain k' F' where k': "rbind (if is_autoreload t k2 then prvReloadTimer (app_callback g) t (of_nat (C + P)) (of_nat N) k2 else Inr (clear_active t k2))
         (call_timer (app_callback g) t) = Inr k'" "timers_ok k' F'"
      "tkernel.more k' = (g (pxCallbackFunction (t_at k2 t)) t ^^ fires k2 t P (C + P) N) (tkernel.more k2)"
      "expires k' F' N = (expires k2 F2 N)(t := if is_autoreload t k2 then Some (C + P + ((N - (C + P)) div P + 1) * P) else None)"
      using fire_or_stop [OF k2(2) k2(5) [OF True] P2 P(2,3) True d, where g = g] by blast
    have "timer_command (app_callback g) xStart cmd t (of_nat C) (of_nat N) k = Inr k'" unfolding run using True k'(1) by simp
    moreover have "\<not> N < C + P" using True by simp
    moreover have "expires k' F' N = (expires k F N)(t := if is_autoreload t k then Some (C + P + ((N - (C + P)) div P + 1) * P) else None)"
      unfolding k'(4) a2 k2(4) e1 using True by simp
    ultimately show ?thesis using k'(2,3) unfolding a2 t2(2) by (intro exI [of _ k'] exI [of _ F']) simp
  qed
qed

section \<open>Examples\<close>

text \<open>Both timer lists are empty; an auto-reload timer with a period of 10 ticks is at address \<open>0x3000\<close>.\<close>

definition timer_boot :: "nat tkernel_scheme" where
  "timer_boot = vListInitialise 0x2C0 (vListInitialise 0x2A0
    (boot_kernel\<lparr>pxCurrentTimerList := 0x2A0, pxOverflowTimerList := 0x2C0,
       t_at := \<lambda>_. \<lparr>pcTimerName = 0, xTimerPeriodInTicks = 10, pvTimerID = 0, pxCallbackFunction = 0x8000, ucStatus = 4\<rparr>\<rparr>))"

abbreviation no_timers :: "u32 \<rightharpoonup> u32 list" where "no_timers \<equiv> [0x2A0 \<mapsto> [], 0x2C0 \<mapsto> []]"

abbreviation one_timer :: "u32 \<rightharpoonup> u32 list" where "one_timer \<equiv> [0x2A0 \<mapsto> [0x3004], 0x2C0 \<mapsto> []]"

lemma timer_boot_ok: "timers_ok timer_boot no_timers" "xTimerListItem 0x3000 \<notin> items no_timers" "is_autoreload t timer_boot"
    "xTimerPeriodInTicks (t_at timer_boot t) = 10" "pxCurrentTimerList timer_boot = 0x2A0" "tkernel.more timer_boot = 0" "expires timer_boot no_timers N t = None"
proof -
  have f: "pxCurrentTimerList timer_boot = 0x2A0" "pxOverflowTimerList timer_boot = 0x2C0" "tkernel.more timer_boot = 0"
    "t_at timer_boot t = \<lparr>pcTimerName = 0, xTimerPeriodInTicks = 10, pvTimerID = 0, pxCallbackFunction = 0x8000, ucStatus = 4\<rparr>"
    by (simp_all add: timer_boot_def boot_kernel_def vListInitialise_def heap_upd)
  have l: "list_at timer_boot 0x2C0 []" "list_at timer_boot 0x2A0 []"
    unfolding timer_boot_def by (rule vListInitialise_at, intro vListInitialise_other vListInitialise_at) (simp_all add: xListEnd_def)
  have r: "ring no_timers L = (if L = 0x2A0 \<or> L = 0x2C0 then {xListEnd L} else {})" for L by (simp add: ring_def)
  have "lists_ok timer_boot no_timers" unfolding lists_ok_def r using l by (auto simp: xListEnd_def split: if_splits)
  then show "timers_ok timer_boot no_timers" by (simp add: timers_ok_def f lst_def)
  show "xTimerListItem 0x3000 \<notin> items no_timers" unfolding items_def r by (auto simp: xListEnd_def xTimerListItem_def split: if_splits)
  show "is_autoreload t timer_boot" "xTimerPeriodInTicks (t_at timer_boot t) = 10" "pxCurrentTimerList timer_boot = 0x2A0" "tkernel.more timer_boot = 0"
    by (simp_all add: f is_autoreload_def)
  show "expires timer_boot no_timers N t = None" by (simp add: expires_def f lst_def)
qed

text \<open>A start at tick 3 that is handled at tick 25: the timer has fired at 13 and 23 and fires next at 33.\<close>

lemma timer_start_exact_witness:
  "\<exists>k' F'. timer_command (app_callback (\<lambda>f t n. n + 1)) 0x50 1 0x3000 3 25 timer_boot = Inr k' \<and> tkernel.more k' = 2 \<and>
    expires k' F' 25 0x3000 = Some 33"
proof -
  have P: "xTimerPeriodInTicks (t_at timer_boot 0x3000) = of_nat 10" using timer_boot_ok(4) by simp
  from timer_start_exact [OF timer_boot_ok(1,2) _ P, where cmd = 1 and C = 3 and N = 25 and g = "\<lambda>f t n. n + 1" and xStart = "0x50"]
  obtain k' F' where "timer_command (app_callback (\<lambda>f t n. n + 1)) 0x50 1 0x3000 3 25 timer_boot = Inr k'" "tkernel.more k' = 2"
    "expires k' F' 25 = (expires timer_boot no_timers 25)(0x3000 \<mapsto> 33)" using timer_boot_ok(3,6) by (auto simp: fires_def)
  then show ?thesis by (intro exI [of _ k'] exI [of _ F']) simp
qed

text \<open>The timer waits for tick 13 and is processed at tick 25.\<close>

definition timer_waiting :: "nat tkernel_scheme" where
  "timer_waiting = projr (vListInsert 0x2A0 0x3004 (upd_item 0x3004 (\<lambda>i. i\<lparr>xItemValue := 13, pvOwner := 0x3000\<rparr>) timer_boot))"

lemma timer_waiting_ok:
  "timers_ok timer_waiting one_timer" "t_at timer_waiting = t_at timer_boot" "pxCurrentTimerList timer_waiting = 0x2A0"
  "expires timer_waiting one_timer 25 0x3000 = Some 13" "tkernel.more timer_waiting = 0"
proof -
  let ?k = "upd_item 0x3004 (\<lambda>i. i\<lparr>xItemValue := 13, pvOwner := 0x3000\<rparr>) timer_boot"
  have x: "xTimerListItem 0x3000 = 0x3004" by (simp add: xTimerListItem_def)
  have n: "0x3004 \<notin> items no_timers" using timer_boot_ok(2) unfolding x .
  have lo: "lists_ok ?k no_timers"
    by (rule lists_ok_item_upd [of timer_boot _ "0x3004"]) (use timer_boot_ok(1) n in \<open>simp_all add: timers_ok_def upd_item_def\<close>)
  obtain h' where h': "vListInsert 0x2A0 0x3004 ?k = Inr h'" "lists_ok h' (no_timers(0x2A0 \<mapsto> insert_by_value (val ?k) 0x3004 []))"
    "\<And>x. val h' x = val ?k x" "\<And>x. owner h' x = owner ?k x" "h' = ?k\<lparr>l_item := l_item h', l_list := l_list h'\<rparr>"
    by (rule lists_insert_sorted [of ?k no_timers "0x2A0" "[]", OF lo _ n]) (simp, blast)
  have w: "timer_waiting = h'" by (simp add: timer_waiting_def h'(1))
  have G: "no_timers(0x2A0 \<mapsto> insert_by_value (val ?k) 0x3004 []) = one_timer"
    by (auto simp: insert_by_value_def fun_eq_iff)
  have f: "t_at h' = t_at timer_boot" "pxCurrentTimerList h' = 0x2A0" "pxOverflowTimerList h' = 0x2C0" "tkernel.more h' = 0"
    by (subst h'(5), simp add: upd_item_def timer_boot_def boot_kernel_def vListInitialise_def heap_upd)+
  have v: "val h' 0x3004 = 13" "owner h' 0x3004 = 0x3000" unfolding h'(3,4) by (simp_all add: upd_item_def)
  show "timers_ok timer_waiting one_timer"
    using h'(2) v unfolding G w by (simp add: timers_ok_def f lst_def x)
  show "t_at timer_waiting = t_at timer_boot" "pxCurrentTimerList timer_waiting = 0x2A0" "tkernel.more timer_waiting = 0" by (simp_all add: w f)
  show "expires timer_waiting one_timer 25 0x3000 = Some 13" by (simp add: w expires_def f lst_def x v)
qed

lemma expired_timer_fires_witness:
  "\<exists>k' F'. prvProcessExpiredTimer (app_callback (\<lambda>f t n. n + 1)) 13 25 timer_waiting = Inr k' \<and> tkernel.more k' = 2 \<and>
    expires k' F' 25 0x3000 = Some 33"
proof -
  note W = timer_waiting_ok
  have P: "xTimerPeriodInTicks (t_at timer_waiting 0x3000) = of_nat 10" using timer_boot_ok(4) W(2) by simp
  have a: "is_autoreload 0x3000 timer_waiting" using timer_boot_ok(3) [of "0x3000"] W(2) by (simp add: is_autoreload_def)
  have h: "one_timer (pxCurrentTimerList timer_waiting) = Some (xTimerListItem 0x3000 # [])"
    by (simp add: W(3) xTimerListItem_def)
  from expired_timer_fires [OF W(1) h P _ _ W(4), where g = "\<lambda>f t n. n + 1"]
  obtain k' F' where "prvProcessExpiredTimer (app_callback (\<lambda>f t n. n + 1)) 13 25 timer_waiting = Inr k'" "tkernel.more k' = 2"
    "expires k' F' 25 = (expires timer_waiting one_timer 25)(0x3000 \<mapsto> 33)"
    using a W(5) by (auto simp: fires_def)
  then show ?thesis by (intro exI [of _ k'] exI [of _ F']) simp
qed

end
