(* ===== verification/Sched_Memory.thy ===== *)
theory Sched_Memory
  imports Sched_Refine Heap_Refine Timer_Refine
begin

text \<open>
  Tasks in memory: control blocks and stacks come from the heap, so they are apart from each other and from the
  static lists of the kernel. The lemmas show that \<open>xTaskCreate\<close> keeps the invariant of the scheduler before and
  after the start, and that \<open>vTaskStartScheduler\<close> with the creation of the timer task reaches a running system, or stops in its
  assertion when memory is short.
\<close>

section \<open>Memory of the tasks\<close>

text \<open>The heap with its live blocks, before and after its first use.\<close>

definition heap_live :: "u32 \<Rightarrow> u32 \<Rightarrow> heap4 \<Rightarrow> (nat \<times> nat) set \<Rightarrow> bool" where
  "heap_live xStart ucHeap h B \<longleftrightarrow> pxEnd h = 0 \<and> B = {} \<or>
    (\<exists>L. heap_rep_size xStart (heap_base ucHeap) (heap_size ucHeap) L h \<and> B = live_at (heap_base ucHeap) L)"

definition new_block :: "u32 \<Rightarrow> (nat \<times> nat) set \<Rightarrow> nat \<Rightarrow> nat \<Rightarrow> bool" where
  "new_block ucHeap B p m \<longleftrightarrow> heap_base ucHeap \<le> p \<and> p + m \<le> heap_base ucHeap + heap_size ucHeap \<and> p + m < 2 ^ 32 \<and> (\<forall>(q, j) \<in> B. p + m < q \<or> q + j < p)"

lemma rep_alloc:
  assumes rep: "heap_rep_size xStart (heap_base ucHeap) (heap_size ucHeap) L h"
  obtains h' p where "pvPortMalloc xStart ucHeap n h = Inr (h', p)"
    "p = NULL \<and> heap_live xStart ucHeap h' (live_at (heap_base ucHeap) L) \<or>
     (\<exists>m. p \<noteq> NULL \<and> unat n \<le> m \<and> heap_live xStart ucHeap h' (insert (unat p, m) (live_at (heap_base ucHeap) L)) \<and>
       new_block ucHeap (live_at (heap_base ucHeap) L) (unat p) m)"
proof -
  let ?B = "live_at (heap_base ucHeap)"
  from heap4.alloc_law [OF rep, of ucHeap n]
  consider "pvPortMalloc xStart ucHeap n h = Inr (h, 0)"
    | L' h' p m where "pvPortMalloc xStart ucHeap n h = Inr (h', of_nat p)" "heap_rep_size xStart (heap_base ucHeap) (heap_size ucHeap) L' h'" "0 < p"
      "unat n \<le> m" "?B L' = insert (p, m) (?B L)" "\<forall>(q, k) \<in> ?B L. q \<noteq> p" by blast
  then show ?thesis
  proof cases
    case 1
    then show ?thesis using that [of h 0] rep by (auto simp: heap_live_def)
  next
    case 2
    have in': "(p, m) \<in> ?B L'" using 2(5) by simp
    have p: "p + m < 2 ^ 32" by (rule heap4.live_address [OF 2(2) in'])
    then have u: "unat (of_nat p :: u32) = p" by (simp add: unat_of_nat_u32)
    have "p + m < q \<or> q + j < p" if "(q, j) \<in> ?B L" for q j
      using heap4.live_disjoint [OF 2(2) in', of q j] that 2(5,6) by auto
    moreover have "heap_base ucHeap \<le> p" "p + m \<le> heap_base ucHeap + heap_size ucHeap"
      using live_bounds [OF in'] 2(2) by (auto simp: heap_rep_size_def heap_rep_def)
    ultimately have "new_block ucHeap (?B L) p m" using p by (auto simp: new_block_def)
    moreover have "heap_live xStart ucHeap h' (insert (p, m) (?B L))" using 2(2,5) by (auto simp: heap_live_def)
    moreover have "(of_nat p :: u32) \<noteq> 0" using u 2(3) by auto
    ultimately show ?thesis using that [OF 2(1)] 2(4) unfolding u by blast
  qed
qed

lemma heap_live_alloc:
  assumes pl: "heap_place xStart ucHeap" and live: "heap_live xStart ucHeap h B"
  obtains h' p where "pvPortMalloc xStart ucHeap n h = Inr (h', p)"
    "p = NULL \<and> heap_live xStart ucHeap h' B \<or>
     (\<exists>m. p \<noteq> NULL \<and> unat n \<le> m \<and> heap_live xStart ucHeap h' (insert (unat p, m) B) \<and> new_block ucHeap B (unat p) m)"
proof (cases "pxEnd h = 0 \<and> B = {}")
  case True
  let ?L = "[(heap_size ucHeap, False)]"
  have "heap_rep_size xStart (heap_base ucHeap) (heap_size ucHeap) ?L (prvHeapInit xStart ucHeap h)"
    using heap_init_rep(1) [OF pl] by (simp add: heap_rep_size_def)
  from rep_alloc [OF this, of n] obtain h' p where "pvPortMalloc xStart ucHeap n (prvHeapInit xStart ucHeap h) = Inr (h', p)"
    "p = NULL \<and> heap_live xStart ucHeap h' {} \<or>
     (\<exists>m. p \<noteq> NULL \<and> unat n \<le> m \<and> heap_live xStart ucHeap h' {(unat p, m)} \<and> new_block ucHeap {} (unat p) m)" by auto
  then show ?thesis using that [of h' p] True malloc_first [of h xStart ucHeap n] pl by simp
next
  case False
  then obtain L where "heap_rep_size xStart (heap_base ucHeap) (heap_size ucHeap) L h" "B = live_at (heap_base ucHeap) L"
    using live by (auto simp: heap_live_def)
  then show ?thesis using rep_alloc [of xStart ucHeap L h n] that by blast
qed

lemma heap_live_free:
  assumes live: "heap_live xStart ucHeap h B" and p: "(unat p, m) \<in> B"
  obtains h' where "vPortFree xStart p h = Inr h'" "heap_live xStart ucHeap h' (B - {(unat p, m)})"
proof -
  obtain L where L: "heap_rep_size xStart (heap_base ucHeap) (heap_size ucHeap) L h" "B = live_at (heap_base ucHeap) L"
    using live p by (auto simp: heap_live_def)
  from heap4.release_law [OF L(1), of "unat p" m] p
  obtain L' h' where "vPortFree xStart p h = Inr h'" "heap_rep_size xStart (heap_base ucHeap) (heap_size ucHeap) L' h'"
    "live_at (heap_base ucHeap) L' = live_at (heap_base ucHeap) L - {(unat p, m)}" unfolding L(2) by auto
  then show ?thesis using that L(2) by (auto simp: heap_live_def)
qed

text \<open>Static lists lie outside the heap, control blocks of tasks are live blocks.\<close>

definition static_apart :: "u32 \<Rightarrow> u32 set \<Rightarrow> bool" where
  "static_apart ucHeap A \<longleftrightarrow> (\<forall>L \<in> A. unat L + 20 \<le> heap_base ucHeap \<or> heap_base ucHeap + heap_size ucHeap \<le> unat L \<and> unat L + 20 \<le> 2 ^ 32)"

definition task_blocks :: "u32 set \<Rightarrow> (nat \<times> nat) set \<Rightarrow> bool" where
  "task_blocks T B \<longleftrightarrow> (\<forall>t \<in> T. \<exists>m \<ge> 92. (unat t, m) \<in> B)"

lemma unat_off: "unat t + d < 2 ^ 32 \<Longrightarrow> unat (t + of_nat d :: u32) = unat t + d"
proof -
  assume a: "unat t + d < 2 ^ 32"
  then have "unat (of_nat d :: u32) = d" by (intro unat_of_nat_u32) linarith
  then show ?thesis using a by (simp add: unat_word_ariths)
qed

lemma unat_st: "unat t + 92 < 2 ^ 32 \<Longrightarrow> unat (st t) = unat t + 4" "unat t + 92 < 2 ^ 32 \<Longrightarrow> unat (ev t) = unat t + 24"
  using unat_off [of t 4] unat_off [of t 24] by (simp_all add: xStateListItem_def xEventListItem_def)

lemma unat_list_end: "unat L + 20 \<le> 2 ^ 32 \<Longrightarrow> unat (xListEnd L) = unat L + 8"
  using unat_off [of L 8] by (simp add: xListEnd_def)

lemma static_apart_end:
  assumes "static_apart ucHeap A" "L \<in> A" "heap_place xStart ucHeap"
  shows "unat (xListEnd L) < heap_base ucHeap \<or> heap_base ucHeap + heap_size ucHeap \<le> unat (xListEnd L)"
    "unat L < heap_base ucHeap \<or> heap_base ucHeap + heap_size ucHeap \<le> unat L"
proof -
  have a: "unat L + 20 \<le> heap_base ucHeap \<or> heap_base ucHeap + heap_size ucHeap \<le> unat L \<and> unat L + 20 \<le> 2 ^ 32"
    using assms(1,2) by (auto simp: static_apart_def)
  have b: "heap_base ucHeap \<le> 2 ^ 32" using heap_size_bounds(6) [OF assms(3)] assms(3) by (simp add: heap_place_def)
  have "unat L + 20 \<le> 2 ^ 32" using a b by linarith
  then have "unat (xListEnd L) = unat L + 8" by (rule unat_list_end)
  then show "unat (xListEnd L) < heap_base ucHeap \<or> heap_base ucHeap + heap_size ucHeap \<le> unat (xListEnd L)"
    "unat L < heap_base ucHeap \<or> heap_base ucHeap + heap_size ucHeap \<le> unat L" using a by linarith+
qed

lemma new_block_fresh:
  assumes nb: "new_block ucHeap B (unat t) m" and m: "92 \<le> m" and t: "t \<noteq> NULL" and T: "task_blocks T B"
    and B: "heap_live xStart ucHeap h B" and A: "static_apart ucHeap A" and pl: "heap_place xStart ucHeap"
  shows "fresh_tcb A t T"
proof -
  have n: "heap_base ucHeap \<le> unat t" "unat t + m \<le> heap_base ucHeap + heap_size ucHeap" "unat t + m < 2 ^ 32"
    "\<And>q j. (q, j) \<in> B \<Longrightarrow> unat t + m < q \<or> q + j < unat t" using nb by (auto simp: new_block_def)
  have u: "unat (st t) = unat t + 4" "unat (ev t) = unat t + 24" using unat_st [of t] n(3) m by simp_all
  have other: "t \<noteq> s \<and> st s \<noteq> ev t \<and> ev s \<noteq> st t" if s: "s \<in> T" for s
  proof -
    obtain j where j: "92 \<le> j" "(unat s, j) \<in> B" using T s by (auto simp: task_blocks_def)
    have d: "unat t + m < unat s \<or> unat s + j < unat t" by (rule n(4) [OF j(2)])
    have "unat s + j < 2 ^ 32"
      using B j(2) heap4.live_address by (auto simp: heap_live_def)
    then have v: "unat (st s) = unat s + 4" "unat (ev s) = unat s + 24" using unat_st [of s] j(1) by simp_all
    have "unat t \<noteq> unat s" "unat (st s) \<noteq> unat (ev t)" "unat (ev s) \<noteq> unat (st t)" using d u v m j(1) by linarith+
    then show ?thesis by auto
  qed
  have out: "unat x \<noteq> unat (xListEnd L)" if "L \<in> A" "heap_base ucHeap \<le> unat x" "unat x < heap_base ucHeap + heap_size ucHeap" for L x
    using static_apart_end(1) [OF A that(1) pl] that(2,3) by linarith
  have ns: "st t \<noteq> xListEnd L" "ev t \<noteq> xListEnd L" if "L \<in> A" for L
    using out [OF that, of "st t"] out [OF that, of "ev t"] u n(1,2) m by auto
  show ?thesis unfolding fresh_tcb_def using t other ns by blast
qed

lemma task_blocks_mono: "task_blocks T B \<Longrightarrow> B \<subseteq> B' \<Longrightarrow> task_blocks T B'"
  unfolding task_blocks_def by (meson subsetD)

section \<open>Creation\<close>

definition ready_inv :: "u32 set \<Rightarrow> 'a kernel_scheme \<Rightarrow> u32 set \<Rightarrow> (u32 \<rightharpoonup> place) \<Rightarrow> bool" where
  "ready_inv A k T W \<longleftrightarrow> (\<exists>F. kinv k F T W) \<and> dom W = T \<and> pxCurrentTCB k \<in> T \<and> own_lists k \<union> side_lists k = A \<and> (pendSV k \<or> runs_top k W)"

definition boot_inv :: "u32 set \<Rightarrow> 'a kernel_scheme \<Rightarrow> bool" where
  "boot_inv A k \<longleftrightarrow> statics_ok k \<and> set (static_lists k) = A \<and> uxTopReadyPriority k < 8 \<and> pxCurrentTCB k = NULL \<and> uxCurrentNumberOfTasks k = 0 \<and>
    \<not> xSchedulerRunning k \<and> \<not> pendSV k"

definition created :: "u32 \<Rightarrow> u32 \<Rightarrow> 'a kernel_scheme \<Rightarrow> 'a kernel_scheme \<Rightarrow> bool" where
  "created t p k k' \<longleftrightarrow> prio k' t = p \<and> xSchedulerRunning k' = xSchedulerRunning k \<and> xIdleTaskHandle k' = xIdleTaskHandle k \<and>
    uxSchedulerSuspended k' = uxSchedulerSuspended k \<and> xPendedTicks k' = xPendedTicks k \<and> (\<forall>u. u \<noteq> t \<longrightarrow> tcb k' u = tcb k u) \<and>
    length (pcTaskName (tcb k' t)) = 16 \<and> (xSchedulerRunning k \<or> pendSV k' = pendSV k) \<and> kernel.more k' = kernel.more k \<and>
    (xSchedulerRunning k \<longrightarrow> pxCurrentTCB k' = pxCurrentTCB k)"

lemma kframe_more: "kframe k k' \<Longrightarrow> kernel.more k' = kernel.more k" "kframe k k' \<Longrightarrow> side_lists k' = side_lists k"
proof -
  assume k: "kframe k k'"
  then have e: "k' = k\<lparr>l_item := l_item k', l_list := l_list k', uxTopReadyPriority := uxTopReadyPriority k', xNextTaskUnblockTime := xNextTaskUnblockTime k'\<rparr>"
    by (simp add: kframe_def)
  show "kernel.more k' = kernel.more k" by (subst e) simp
  show "side_lists k' = side_lists k" using k by (simp add: side_lists_def kframeD)
qed

lemma initialised_more: "initialised t p k k' \<Longrightarrow> kernel.more k' = kernel.more k"
proof -
  assume "initialised t p k k'"
  then have e: "k' = k\<lparr>l_item := l_item k', tcb := tcb k', stack_mem := stack_mem k'\<rparr>" unfolding initialised_def by blast
  show "kernel.more k' = kernel.more k" by (subst e) simp
qed

lemma add_later:
  fixes k :: "'a kernel_scheme"
  assumes inv: "ready_inv A k T W" and nr: "xSchedulerRunning k \<or> \<not> pendSV k" and fr: "fresh_tcb A t T" and i: "initialised t p k k1" and p: "p < 8"
  defines "k' \<equiv> prvAddNewTaskToReadyList t k1"
  shows "ready_inv A k' (insert t T) (W(t \<mapsto> Rdy))" "created t p k k'"
proof -
  obtain F where F: "kinv k F T W" and rest: "dom W = T" "pxCurrentTCB k \<in> T" "own_lists k \<union> side_lists k = A" "pendSV k \<or> runs_top k W"
    using inv by (auto simp: ready_inv_def)
  note D = initialisedD [OF i]
  have new: "kinv k1 F (insert t T) W" by (rule kinv_new [OF F _ i p]) (use fr rest(3) in simp)
  have nz: "pxCurrentTCB k \<noteq> NULL" using task_okD(1) [OF kinvD(7) [OF F rest(2)]] .
  have tT: "t \<notin> T" "t \<noteq> pxCurrentTCB k" using fr rest(2) by (auto simp: fresh_tcb_def)
  define c where "c = (if \<not> xSchedulerRunning k \<and> cur_prio k \<le> p then t else pxCurrentTCB k)"
  define k3 where "k3 = k1\<lparr>uxCurrentNumberOfTasks := uxCurrentNumberOfTasks k1 + 1, pxCurrentTCB := c, uxTaskNumber := uxTaskNumber k1 + 1\<rparr>"
  define k4 where "k4 = prvAddTaskToReadyList t k3"
  have pr: "prio k1 u = (if u = t then p else prio k u)" for u using D(1,2) by simp
  have i3: "kinv k3 F (insert t T) W" using new by (simp add: k3_def)
  have Wt: "W t = None" using rest(1) tT(1) by auto
  obtain F4 where k4: "kinv k4 F4 (insert t T) (W(t \<mapsto> Rdy))" "kframe k3 k4" unfolding k4_def
    by (rule put_ready [OF i3 insertI1 Wt])
  note f4 = kframeD [OF k4(2)]
  have cu: "pxCurrentTCB k1 = pxCurrentTCB k" "xSchedulerRunning k1 = xSchedulerRunning k" by (simp_all add: D)
  have cp: "pxCurrentTCB k1 \<noteq> NULL" "cur_prio k1 = cur_prio k" using nz tT(2) by (simp_all add: cu D(1))
  have pk3: "xSchedulerRunning k4 = xSchedulerRunning k" "pxCurrentTCB k4 = c" "prio k4 u = prio k1 u" for u
    unfolding f4 by (simp_all add: k3_def cu)
  have run: "k' = (if xSchedulerRunning k \<and> prio k1 c < p then portYIELD_WITHIN_API k4 else k4)"
  proof (cases "\<not> xSchedulerRunning k \<and> cur_prio k \<le> p")
    case True
    then have "k4 = prvAddTaskToReadyList t (k1\<lparr>uxCurrentNumberOfTasks := uxCurrentNumberOfTasks k1 + 1, pxCurrentTCB := t, uxTaskNumber := uxTaskNumber k1 + 1\<rparr>)"
      by (simp add: k4_def k3_def c_def)
    then show ?thesis using True cp pk3(1) unfolding k'_def prvAddNewTaskToReadyList_def Let_def by (simp add: cu D(2))
  next
    case False
    then have c: "c = pxCurrentTCB k" unfolding c_def by (rule if_not_P)
    have "k4 = prvAddTaskToReadyList t (k1\<lparr>uxCurrentNumberOfTasks := uxCurrentNumberOfTasks k1 + 1, uxTaskNumber := uxTaskNumber k1 + 1\<rparr>)"
      by (simp add: k4_def k3_def c cu(1) [symmetric])
    then show ?thesis using False cp pk3 unfolding k'_def prvAddNewTaskToReadyList_def Let_def
      by (cases "xSchedulerRunning k") (simp_all add: cu D(2) c)
  qed
  have rc: "xSchedulerRunning k \<Longrightarrow> c = pxCurrentTCB k" by (simp add: c_def)
  have k'f: "tcb k' = tcb k1" "pxCurrentTCB k' = c" "own_lists k' = own_lists k" "side_lists k' = side_lists k" "kernel.more k' = kernel.more k"
    "xSchedulerRunning k' = xSchedulerRunning k" "xIdleTaskHandle k' = xIdleTaskHandle k" "uxSchedulerSuspended k' = uxSchedulerSuspended k"
    "xPendedTicks k' = xPendedTicks k" "pendSV k' \<longleftrightarrow> pendSV k \<or> xSchedulerRunning k \<and> prio k1 c < p"
    using kframe_ready(2) [OF k4(2)] kframe_more [OF k4(2)] initialised_more [OF i]
    by (simp_all add: run portYIELD_WITHIN_API_def f4 k3_def D) blast
  have top: "pendSV k' \<or> runs_top k' (W(t \<mapsto> Rdy))"
  proof (cases "pendSV k'")
    case False
    then have np: "\<not> (xSchedulerRunning k \<and> prio k1 c < p)" and rt: "runs_top k W" using k'f(10) rest(4) by blast+
    have le: "prio k1 c \<ge> p" using np rc pr tT(2) by (cases "xSchedulerRunning k") (auto simp: c_def not_le not_less)
    have "prio k u \<le> prio k1 c" if "W u = Some Rdy" for u
      using rt that le pr tT(2) by (auto simp: runs_top_def c_def intro: order_trans)
    then have "runs_top k' (W(t \<mapsto> Rdy))" using le rt pr tT(2) unfolding runs_top_def k'f(1,2) by (auto simp: c_def)
    then show ?thesis by simp
  qed simp
  have "c \<in> insert t T" using rest(2) by (simp add: c_def)
  moreover have "kinv k' F4 (insert t T) (W(t \<mapsto> Rdy))" using k4(1) by (simp add: run)
  ultimately show "ready_inv A k' (insert t T) (W(t \<mapsto> Rdy))" unfolding ready_inv_def k'f(2-4) using rest(1,3) top by auto
  show "created t p k k'" unfolding created_def k'f using D(1,2,3) rc by (auto simp: k'f(10))
qed

lemma add_first:
  fixes k :: "'a kernel_scheme"
  assumes inv: "boot_inv A k" and fr: "fresh_tcb A t {}" and i: "initialised t p k k1" and p: "p < 8"
  defines "k' \<equiv> prvAddNewTaskToReadyList t k1"
  shows "ready_inv A k' {t} [t \<mapsto> Rdy]" "created t p k k'"
proof -
  note B = inv [unfolded boot_inv_def] and D = initialisedD [OF i]
  define k2 where "k2 = k1\<lparr>uxCurrentNumberOfTasks := 1, pxCurrentTCB := t\<rparr>"
  have st2: "static_lists k2 = static_lists k" by (simp add: k2_def static_lists_def ready_list_def D(14) [unfolded static_lists_def ready_list_def, symmetric])
  have ok2: "statics_ok k2" "uxTopReadyPriority k2 < 8"
    using B unfolding statics_ok_def st2 by (blast, simp add: k2_def D)
  define k3 where "k3 = prvInitialiseTaskLists k2"
  note L = boot_lists [OF ok2, folded k3_def, unfolded st2]
  have e3: "k3 = k2\<lparr>l_item := l_item k3, l_list := l_list k3, pxDelayedTaskList := xDelayedTaskList1 k2, pxOverflowDelayedTaskList := xDelayedTaskList2 k2\<rparr>"
    by (fact L(4))
  have f3: "tcb k3 = tcb k1" "pxCurrentTCB k3 = t" "xSchedulerRunning k3 = xSchedulerRunning k" "xIdleTaskHandle k3 = xIdleTaskHandle k"
    "uxSchedulerSuspended k3 = uxSchedulerSuspended k" "xPendedTicks k3 = xPendedTicks k" "pendSV k3 = pendSV k" "kernel.more k3 = kernel.more k"
    by (subst e3, simp add: k2_def D initialised_more [OF i])+
  have A: "set (static_lists k) = A" and out: "st t \<notin> xListEnd ` A" "ev t \<notin> xListEnd ` A" "t \<noteq> NULL" using B fr by (auto simp: fresh_tcb_def)
  have it: "l_item k3 (st t) = l_item k1 (st t)" "l_item k3 (ev t) = l_item k1 (ev t)"
    using L(5) [of "st t"] L(5) [of "ev t"] out unfolding A by (simp_all add: k2_def)
  have dm: "dom (empty_lists k2) = A" by (auto simp: empty_lists_def dom_def st2 A)
  have "task_ok k3 (empty_lists k2) t" unfolding task_ok_def using it D(2,5,7) p out L(6) by (simp add: f3 A)
  then have i3: "kinv k3 (empty_lists k2) {t} Map.empty"
    unfolding kinv_def using L(1,2,3,6) out by (simp add: A)
  define k4 where "k4 = prvAddTaskToReadyList t (k3\<lparr>uxTaskNumber := uxTaskNumber k3 + 1\<rparr>)"
  have i3': "kinv (k3\<lparr>uxTaskNumber := uxTaskNumber k3 + 1\<rparr>) (empty_lists k2) {t} Map.empty" using i3 by simp
  obtain F4 where k4: "kinv k4 F4 {t} [t \<mapsto> Rdy]" "kframe (k3\<lparr>uxTaskNumber := uxTaskNumber k3 + 1\<rparr>) k4" unfolding k4_def
    by (rule put_ready [OF i3' insertI1]) simp_all
  note f4 = kframeD [OF k4(2)]
  have run: "k' = k4"
  proof -
    have c: "pxCurrentTCB k1 = NULL" "uxCurrentNumberOfTasks k1 = 0" using B by (simp_all add: D)
    have "\<not> xSchedulerRunning k4" using B by (simp add: f4 f3)
    moreover have "uxCurrentNumberOfTasks k2 = 1" by (simp add: k2_def)
    ultimately show ?thesis unfolding k'_def prvAddNewTaskToReadyList_def Let_def
      by (simp add: c k2_def [symmetric] k3_def [symmetric] k4_def [symmetric])
  qed
  have cu: "pxCurrentTCB k' = t" "tcb k' = tcb k1" by (simp_all add: run f4 f3)
  have ow: "own_lists k' = own_lists k3" "side_lists k' = side_lists k3" using kframe_ready(2) [OF k4(2)] kframe_more(2) [OF k4(2)] by (simp_all add: run)
  have "runs_top k' [t \<mapsto> Rdy]" by (auto simp: runs_top_def cu split: if_splits)
  moreover have "own_lists k' \<union> side_lists k' = A" using L(2) unfolding ow lists_placed_def dm by simp
  ultimately show "ready_inv A k' {t} [t \<mapsto> Rdy]" unfolding ready_inv_def using k4(1) by (auto simp: run [symmetric] cu)
  show "created t p k k'" unfolding created_def cu using D(1,2,3) B kframe_more(1) [OF k4(2)] by (simp add: run f4 f3)
qed

definition memory_ok :: "u32 \<Rightarrow> u32 \<Rightarrow> u32 set \<Rightarrow> heap4 \<Rightarrow> u32 set \<Rightarrow> bool" where
  "memory_ok xStart ucHeap A h T \<longleftrightarrow> heap_place xStart ucHeap \<and> static_apart ucHeap A \<and> (\<exists>B. heap_live xStart ucHeap h B \<and> task_blocks T B)"

definition phase_inv :: "u32 set \<Rightarrow> 'a kernel_scheme \<Rightarrow> u32 set \<Rightarrow> (u32 \<rightharpoonup> place) \<Rightarrow> bool" where
  "phase_inv A k T W \<longleftrightarrow> kquiet k \<and> (\<forall>t. length (pcTaskName (tcb k t)) = 16) \<and> (xSchedulerRunning k \<or> \<not> pendSV k) \<and>
    (if T = {} then boot_inv A k \<and> W = Map.empty else ready_inv A k T W)"

lemma phase_tcb:
  fixes k :: "'a kernel_scheme"
  assumes "\<And>b. uxPriority (f b) = uxPriority b" "\<And>b. pcTaskName (f b) = pcTaskName b" "phase_inv A k T W"
  shows "phase_inv A (upd_tcb t f k) T W"
proof -
  let ?k = "upd_tcb t f k"
  have e: "pxCurrentTCB ?k = pxCurrentTCB k" "pendSV ?k = pendSV k" "xSchedulerRunning ?k = xSchedulerRunning k" "own_lists ?k = own_lists k"
    "side_lists ?k = side_lists k" "kquiet ?k = kquiet k" "static_lists ?k = static_lists k" "uxTopReadyPriority ?k = uxTopReadyPriority k"
    "uxCurrentNumberOfTasks ?k = uxCurrentNumberOfTasks k" "prio ?k u = prio k u" "pcTaskName (tcb ?k u) = pcTaskName (tcb k u)" for u
    using assms(1,2) by (simp_all add: upd_tcb_def own_lists_def side_lists_def kquiet_def static_lists_def ready_list_def)
  have kv: "kinv ?k F T W = kinv k F T W" for F by (rule kinv_tcb) (fact assms(1))
  have "boot_inv A ?k = boot_inv A k" unfolding boot_inv_def statics_ok_def e ..
  moreover have "ready_inv A ?k T W = ready_inv A k T W" unfolding ready_inv_def runs_top_def kv e ..
  ultimately show ?thesis using assms(3) unfolding phase_inv_def e by simp
qed

lemma add_new_task:
  fixes k :: "'a kernel_scheme"
  assumes inv: "phase_inv A k T W" and fr: "fresh_tcb A t T" and i: "initialised t p k k1" and p: "p < 8"
  defines "k' \<equiv> prvAddNewTaskToReadyList t k1"
  shows "phase_inv A k' (insert t T) (W(t \<mapsto> Rdy))" "created t p k k'"
proof -
  have "ready_inv A k' (insert t T) (W(t \<mapsto> Rdy)) \<and> created t p k k'"
  proof (cases "T = {}")
    case True
    then show ?thesis using add_first [of A k t p k1] inv fr i p unfolding k'_def phase_inv_def by simp
  next
    case False
    then show ?thesis using add_later [of A k T W t p k1] inv fr i p unfolding k'_def phase_inv_def by simp
  qed
  moreover from this have "length (pcTaskName (tcb k' u)) = 16" for u using inv by (cases "u = t") (simp_all add: created_def phase_inv_def)
  ultimately show "phase_inv A k' (insert t T) (W(t \<mapsto> Rdy))" "created t p k k'"
    using inv by (auto simp: phase_inv_def created_def kquiet_def)
qed

lemma memory_alloc:
  assumes m: "memory_ok xStart ucHeap A h T"
  obtains h' p where "pvPortMalloc xStart ucHeap n h = Inr (h', p)" "memory_ok xStart ucHeap A h' T"
    "p \<noteq> NULL \<Longrightarrow> 92 \<le> n \<Longrightarrow> fresh_tcb A p T \<and> memory_ok xStart ucHeap A h' (insert p T)"
    "p \<noteq> NULL \<Longrightarrow> \<exists>B m. heap_live xStart ucHeap h' (insert (unat p, m) B) \<and> task_blocks T B \<and> new_block ucHeap B (unat p) m \<and> unat n \<le> m"
proof -
  obtain B where B: "heap_place xStart ucHeap" "static_apart ucHeap A" "heap_live xStart ucHeap h B" "task_blocks T B"
    using m by (auto simp: memory_ok_def)
  obtain h' p where hp: "pvPortMalloc xStart ucHeap n h = Inr (h', p)" and cs: "p = NULL \<and> heap_live xStart ucHeap h' B \<or>
     (\<exists>m. p \<noteq> NULL \<and> unat n \<le> m \<and> heap_live xStart ucHeap h' (insert (unat p, m) B) \<and> new_block ucHeap B (unat p) m)"
    by (rule heap_live_alloc [OF B(1,3), of n])
  have ok: "memory_ok xStart ucHeap A h' T"
    using cs B(1,2,4) task_blocks_mono [OF B(4)] unfolding memory_ok_def by blast
  show ?thesis
  proof (rule that [OF hp ok])
    assume p: "p \<noteq> NULL"
    then obtain m where m: "unat n \<le> m" "heap_live xStart ucHeap h' (insert (unat p, m) B)" "new_block ucHeap B (unat p) m" using cs by blast
    show "\<exists>B m. heap_live xStart ucHeap h' (insert (unat p, m) B) \<and> task_blocks T B \<and> new_block ucHeap B (unat p) m \<and> unat n \<le> m" using m B(4) by blast
    assume n: "92 \<le> n"
    then have m92: "92 \<le> m" using m(1) by (simp add: word_le_nat_alt)
    have "task_blocks (insert p T) (insert (unat p, m) B)" using B(4) m92 by (auto simp: task_blocks_def)
    then have "memory_ok xStart ucHeap A h' (insert p T)" using B(1,2) m(2) unfolding memory_ok_def by blast
    then show "fresh_tcb A p T \<and> memory_ok xStart ucHeap A h' (insert p T)"
      using new_block_fresh [OF m(3) m92 p B(4,3,2,1)] by blast
  qed
qed

lemma memory_free:
  assumes m: "heap_live xStart ucHeap h (insert (unat p, m) B)" "task_blocks T B" "new_block ucHeap B (unat p) m"
    and pl: "heap_place xStart ucHeap" "static_apart ucHeap A"
  obtains h' where "vPortFree xStart p h = Inr h'" "memory_ok xStart ucHeap A h' T"
proof -
  have "(unat p, m) \<notin> B" using m(3) by (auto simp: new_block_def)
  then have "insert (unat p, m) B - {(unat p, m)} = B" by simp
  then show ?thesis using heap_live_free [OF m(1), of p m] that m(2) pl unfolding memory_ok_def by auto
qed

lemma xTaskCreate_ok:
  fixes k :: "'a kernel_scheme"
  assumes inv: "phase_inv A k T W" and mem: "memory_ok xStart ucHeap A h T" and tp: "name_ok (tp_pcName tp)" "tp_uxPriority tp < 8"
  obtains k' h' where "xTaskCreate ee xStart ucHeap tp k h = Inr (k', h', errCOULD_NOT_ALLOCATE_REQUIRED_MEMORY)" "k' = k" "memory_ok xStart ucHeap A h' T"
  | k' h' t k0 where "xTaskCreate ee xStart ucHeap tp k h = Inr (k', h', Created t)" "t \<notin> T" "t \<noteq> NULL" "phase_inv A k' (insert t T) (W(t \<mapsto> Rdy))"
    "memory_ok xStart ucHeap A h' (insert t T)" "\<exists>s. k0 = upd_tcb t (\<lambda>b. b\<lparr>pxStack := s\<rparr>) k" "created t (tp_uxPriority tp) k0 k'"
proof -
  obtain B where B: "heap_place xStart ucHeap" "static_apart ucHeap A" "heap_live xStart ucHeap h B" "task_blocks T B"
    using mem by (auto simp: memory_ok_def)
  obtain h1 s where hs: "pvPortMalloc xStart ucHeap (ucast (usStackDepth tp) * 4) h = Inr (h1, s)" and cs: "s = NULL \<and> heap_live xStart ucHeap h1 B \<or>
     (\<exists>m. s \<noteq> NULL \<and> unat (ucast (usStackDepth tp) * 4 :: u32) \<le> m \<and> heap_live xStart ucHeap h1 (insert (unat s, m) B) \<and> new_block ucHeap B (unat s) m)"
    by (rule heap_live_alloc [OF B(1,3), of "ucast (usStackDepth tp) * 4"])
  show ?thesis
  proof (cases "s = NULL")
    case True
    then have "xTaskCreate ee xStart ucHeap tp k h = Inr (k, h1, errCOULD_NOT_ALLOCATE_REQUIRED_MEMORY)" using hs by (simp add: xTaskCreate_def)
    moreover have "memory_ok xStart ucHeap A h1 T" using cs True B by (auto simp: memory_ok_def)
    ultimately show ?thesis using that(1) by blast
  next
    case s: False
    then obtain m where m: "heap_live xStart ucHeap h1 (insert (unat s, m) B)" "new_block ucHeap B (unat s) m" using cs by blast
    let ?B1 = "insert (unat s, m) B"
    have T1: "task_blocks T ?B1" by (rule task_blocks_mono [OF B(4)]) blast
    obtain h2 t where ht: "pvPortMalloc xStart ucHeap 92 h1 = Inr (h2, t)" and ct: "t = NULL \<and> heap_live xStart ucHeap h2 ?B1 \<or>
       (\<exists>m. t \<noteq> NULL \<and> unat (92 :: u32) \<le> m \<and> heap_live xStart ucHeap h2 (insert (unat t, m) ?B1) \<and> new_block ucHeap ?B1 (unat t) m)"
      by (rule heap_live_alloc [OF B(1) m(1), of 92])
    show ?thesis
    proof (cases "t = NULL")
      case True
      then have "heap_live xStart ucHeap h2 ?B1" using ct by blast
      then obtain h3 where h3: "vPortFree xStart s h2 = Inr h3" "memory_ok xStart ucHeap A h3 T"
        by (rule memory_free [OF _ B(4) m(2) B(1,2)])
      then have "xTaskCreate ee xStart ucHeap tp k h = Inr (k, h3, errCOULD_NOT_ALLOCATE_REQUIRED_MEMORY)"
        using hs ht s True by (simp add: xTaskCreate_def)
      then show ?thesis using that(1) h3(2) by blast
    next
      case t: False
      then obtain j where j: "92 \<le> j" "heap_live xStart ucHeap h2 (insert (unat t, j) ?B1)" "new_block ucHeap ?B1 (unat t) j" using ct by auto
      have fr: "fresh_tcb A t T" by (rule new_block_fresh [OF j(3,1) t T1 m(1) B(2,1)])
      define k0 where "k0 = upd_tcb t (\<lambda>b. b\<lparr>pxStack := s\<rparr>) k"
      have i0: "phase_inv A k0 T W" unfolding k0_def by (rule phase_tcb) (use inv in simp_all)
      have nm: "length (pcTaskName (tcb k0 t)) = 16" using i0 by (simp add: phase_inv_def)
      obtain k1 where k1: "prvInitialiseNewTask ee (pxTaskCode tp) (tp_pcName tp) (ucast (usStackDepth tp)) (pvParameters tp) (tp_uxPriority tp) t k0 = Inr k1"
        "initialised t (tp_uxPriority tp) k0 k1" by (rule prvInitialiseNewTask_ok [OF tp(1) nm tp(2)])
      note R = add_new_task [OF i0 fr k1(2) tp(2)]
      let ?k' = "prvAddNewTaskToReadyList t k1"
      have run: "xTaskCreate ee xStart ucHeap tp k h = Inr (?k', h2, Created t)"
        using hs ht s t k1(1) by (simp add: xTaskCreate_def k0_def [symmetric] Let_def)
      have tb: "task_blocks (insert t T) (insert (unat t, j) ?B1)" using T1 j(1) by (auto simp: task_blocks_def)
      have m': "memory_ok xStart ucHeap A h2 (insert t T)" using B(1,2) j(2) tb unfolding memory_ok_def by blast
      have "t \<notin> T" using fr by (simp add: fresh_tcb_def)
      moreover have "\<exists>s. k0 = upd_tcb t (\<lambda>b. b\<lparr>pxStack := s\<rparr>) k" using k0_def by blast
      ultimately show ?thesis using that(2) [OF run _ t R(1) m' _ R(2)] by blast
    qed
  qed
qed

section \<open>Lists and blocks of others\<close>

text \<open>Changes to list items and lists that do not belong to the scheduler.\<close>

lemma kinv_outside:
  fixes k :: "'a kernel_scheme"
  assumes inv: "kinv k F T W" and i: "\<And>x. x \<in> items F \<or> (\<exists>t \<in> T. x = st t \<or> x = ev t) \<Longrightarrow> l_item k' x = l_item k x"
    and l: "\<And>L. L \<in> dom F \<Longrightarrow> l_list k' L = l_list k L"
    and v: "kview (k'\<lparr>l_item := l_item k, l_list := l_list k\<rparr>) = kview k"
  shows "kinv k' F T W"
proof -
  have e: "pxReadyTasksLists k' = pxReadyTasksLists k" "pxDelayedTaskList k' = pxDelayedTaskList k"
    "pxOverflowDelayedTaskList k' = pxOverflowDelayedTaskList k" "xPendingReadyList k' = xPendingReadyList k" "xSuspendedTaskList k' = xSuspendedTaskList k"
    "xTasksWaitingTermination k' = xTasksWaitingTermination k" "xTickCount k' = xTickCount k" "uxTopReadyPriority k' = uxTopReadyPriority k"
    "xNextTaskUnblockTime k' = xNextTaskUnblockTime k" and p: "prio k' t = prio k t" for t
    using v by (simp_all add: kview_def fun_eq_iff)
  have r: "ready_list p k' = ready_list p k" for p by (simp add: ready_list_def e)
  have o: "own_lists k' = own_lists k" "side_lists k' = side_lists k" by (simp_all add: own_lists_def side_lists_def e r)
  note K = kinvD [OF inv]
  have mem: "x \<in> set (lst F L) \<Longrightarrow> l_item k' x = l_item k x" for x L using i in_lst_items [of x F L] by blast
  have la: "list_at k' L xs" if L: "F L = Some xs" for L xs
  proof -
    have "\<And>x. x \<in> set (xListEnd L # xs) \<Longrightarrow> l_item k' x = l_item k x" using i itemsI [of F L xs] L by blast
    moreover have "l_list k' L = l_list k L" using l [of L] L by blast
    ultimately have "list_at k' L xs = list_at k L xs" by (rule list_at_cong)
    then show ?thesis using lists_okD [of k F L xs] K(3) L by simp
  qed
  then have lo: "lists_ok k' F" using K(3) by (simp add: lists_ok_def)
  have vs: "map (val k') (lst F L) = map (val k) (lst F L)" for L using mem by simp
  have sl: "sleeping k' F x = sleeping k F x" for x using mem by (simp add: sleeping_def e)
  have tk: "task_ok k' F t" if "t \<in> T" for t
  proof -
    have "l_item k' (st t) = l_item k (st t)" "l_item k' (ev t) = l_item k (ev t)" by (rule i, use that in blast)+
    then show ?thesis using K(7) [OF that] by (simp add: task_ok_def p)
  qed
  have "sleeper_ok k' F x" if x: "x \<in> set (lst F (pxDelayedTaskList k)) \<union> set (lst F (pxOverflowDelayedTaskList k))" for x
  proof -
    obtain u n where "x = st u" "u \<in> T" by (rule sleepers_tasks [OF inv x])
    then show ?thesis using task_okD(6) [OF tk] by blast
  qed
  then have "sched_core k' F" using K(2) lo unfolding sched_core_def e o r vs by blast
  then have ok: "sched_ok k' F" using K(1) mem by (simp add: sched_ok_def e)
  have "placed k' F W" using K(6) unfolding placed_def e r sl p .
  moreover have "lists_placed k' F" using K(4) unfolding lists_placed_def e o .
  ultimately show ?thesis using ok tk K(5,8,10) unfolding kinv_def by blast
qed

lemma phase_view:
  fixes k k' :: "'a kernel_scheme"
  assumes "kview k' = kview k" "pxCurrentTCB k' = pxCurrentTCB k" "pendSV k' = pendSV k" "xSchedulerRunning k' = xSchedulerRunning k" "kquiet k' = kquiet k"
    "\<And>t. pcTaskName (tcb k' t) = pcTaskName (tcb k t)" "T \<noteq> {}" "phase_inv A k T W"
  shows "phase_inv A k' T W"
proof -
  have kv: "kinv k' F T W = kinv k F T W" for F by (rule kinv_view) (fact assms(1))
  have e: "own_lists k' = own_lists k" "side_lists k' = side_lists k" "prio k' t = prio k t" for t
    using assms(1) by (simp_all add: kview_def fun_eq_iff own_lists_def side_lists_def ready_list_def)
  have "ready_inv A k' T W = ready_inv A k T W" unfolding ready_inv_def runs_top_def kv e assms(2,3) ..
  then show ?thesis using assms(7,8) unfolding phase_inv_def assms(3-6) by simp
qed

definition outside :: "u32 set \<Rightarrow> u32 set \<Rightarrow> u32 \<Rightarrow> bool" where
  "outside A T M \<longleftrightarrow> M \<notin> A \<and> (\<forall>t \<in> T. xListEnd M \<noteq> st t \<and> xListEnd M \<noteq> ev t)"

lemma phase_init_list:
  fixes k :: "'a kernel_scheme"
  assumes inv: "phase_inv A k T W" and ne: "T \<noteq> {}" and M: "outside A T M"
  shows "phase_inv A (vListInitialise M k) T W"
proof -
  let ?k = "vListInitialise M k"
  obtain F where F: "kinv k F T W" and r: "dom W = T" "pxCurrentTCB k \<in> T" "own_lists k \<union> side_lists k = A" "pendSV k \<or> runs_top k W"
    using inv ne by (auto simp: phase_inv_def ready_inv_def)
  have dF: "dom F = A" using kinvD(4) [OF F] r(3) by (simp add: lists_placed_def)
  have e: "?k = k\<lparr>l_item := l_item ?k, l_list := l_list ?k\<rparr>" by (fact init_one(5))
  have f: "tcb ?k = tcb k" "pxCurrentTCB ?k = pxCurrentTCB k" "pendSV ?k = pendSV k" "xSchedulerRunning ?k = xSchedulerRunning k"
    "own_lists ?k = own_lists k" "side_lists ?k = side_lists k" "kquiet ?k = kquiet k"
    by (subst e, simp add: own_lists_def side_lists_def ready_list_def kquiet_def)+
  have nx: "x \<noteq> xListEnd M" if "x \<in> items F \<or> (\<exists>t \<in> T. x = st t \<or> x = ev t)" for x
    using that M items_placed [OF kinvD(4,6) [OF F], of x] r(1) unfolding outside_def dF by (auto simp: xListEnd_def)
  have "kinv ?k F T W"
  proof (rule kinv_outside [OF F])
    show "l_item ?k x = l_item k x" if "x \<in> items F \<or> (\<exists>t \<in> T. x = st t \<or> x = ev t)" for x using nx [OF that] by (rule init_one(1))
    show "l_list ?k L = l_list k L" if "L \<in> dom F" for L using that M dF by (intro init_one(2)) (auto simp: outside_def)
    show "kview (?k\<lparr>l_item := l_item k, l_list := l_list k\<rparr>) = kview k" by (simp add: kview_def vListInitialise_def heap_upd)
  qed
  then have "ready_inv A ?k T W" unfolding ready_inv_def runs_top_def f using r by (auto simp: runs_top_def)
  then show ?thesis using inv ne unfolding phase_inv_def f by simp
qed

lemma task_area:
  assumes B: "heap_live xStart ucHeap h B" "task_blocks T B" and t: "t \<in> T"
  obtains m where "92 \<le> m" "(unat t, m) \<in> B" "heap_base ucHeap \<le> unat t" "unat t + m \<le> heap_base ucHeap + heap_size ucHeap"
    "unat (st t) = unat t + 4" "unat (ev t) = unat t + 24"
proof -
  obtain m where m: "92 \<le> m" "(unat t, m) \<in> B" using B(2) t by (auto simp: task_blocks_def)
  obtain L where L: "heap_rep_size xStart (heap_base ucHeap) (heap_size ucHeap) L h" "B = live_at (heap_base ucHeap) L"
    using B(1) m(2) by (auto simp: heap_live_def)
  have "unat t + m < 2 ^ 32" using heap4.live_address [OF L(1)] m(2) L(2) by simp
  moreover have "heap_base ucHeap \<le> unat t" "unat t + m \<le> heap_base ucHeap + heap_size ucHeap"
    using live_bounds [of "unat t" m "heap_base ucHeap" L] m(2) L by (auto simp: heap_rep_size_def heap_rep_def)
  ultimately show ?thesis using that m unat_st [of t] by simp
qed

lemma outside_static:
  assumes mem: "memory_ok xStart ucHeap A h T" and M: "static_apart ucHeap {M}" "M \<notin> A"
  shows "outside A T M"
proof -
  obtain B where B: "heap_place xStart ucHeap" "heap_live xStart ucHeap h B" "task_blocks T B" using mem by (auto simp: memory_ok_def)
  note e = static_apart_end(1) [OF M(1) _ B(1), of M, simplified]
  have "xListEnd M \<noteq> st t \<and> xListEnd M \<noteq> ev t" if t: "t \<in> T" for t
  proof -
    obtain m where "92 \<le> m" "heap_base ucHeap \<le> unat t" "unat t + m \<le> heap_base ucHeap + heap_size ucHeap"
      "unat (st t) = unat t + 4" "unat (ev t) = unat t + 24" by (rule task_area [OF B(2,3) t])
    then have "unat (xListEnd M) \<noteq> unat (st t)" "unat (xListEnd M) \<noteq> unat (ev t)" using e by linarith+
    then show ?thesis by auto
  qed
  then show ?thesis using M(2) by (simp add: outside_def)
qed

lemma outside_block:
  assumes nb: "new_block ucHeap B (unat p) m" and B: "heap_place xStart ucHeap" "heap_live xStart ucHeap h B" "task_blocks T B" "static_apart ucHeap A"
    and d: "d + 8 < m"
  shows "outside A T (p + of_nat d)"
proof -
  have n: "heap_base ucHeap \<le> unat p" "unat p + m \<le> heap_base ucHeap + heap_size ucHeap" "unat p + m < 2 ^ 32"
    "\<And>q j. (q, j) \<in> B \<Longrightarrow> unat p + m < q \<or> q + j < unat p" using nb by (auto simp: new_block_def)
  have u: "unat (p + of_nat d) = unat p + d" using n(3) d by (intro unat_off) linarith
  have e: "unat (xListEnd (p + of_nat d)) = unat p + d + 8" using unat_off [of "p + of_nat d" 8] u n(3) d by (simp add: xListEnd_def)
  have "xListEnd (p + of_nat d) \<noteq> st t \<and> xListEnd (p + of_nat d) \<noteq> ev t" if t: "t \<in> T" for t
  proof -
    obtain j where j: "92 \<le> j" "(unat t, j) \<in> B" "unat (st t) = unat t + 4" "unat (ev t) = unat t + 24" by (rule task_area [OF B(2,3) t])
    have "unat p + m < unat t \<or> unat t + j < unat p" by (rule n(4) [OF j(2)])
    then have "unat (xListEnd (p + of_nat d)) \<noteq> unat (st t)" "unat (xListEnd (p + of_nat d)) \<noteq> unat (ev t)" using e j d by linarith+
    then show ?thesis by auto
  qed
  moreover have "p + of_nat d \<notin> A" using static_apart_end(2) [OF B(4) _ B(1), of "p + of_nat d"] u n(1,2) d by linarith
  ultimately show ?thesis by (simp add: outside_def)
qed

section \<open>The infrastructure of the timers\<close>

definition tmr_frame :: "'a tkernel_scheme \<Rightarrow> 'a tkernel_scheme \<Rightarrow> bool" where
  "tmr_frame k k' \<longleftrightarrow> xSchedulerRunning k' = xSchedulerRunning k \<and> xIdleTaskHandle k' = xIdleTaskHandle k"

definition tmr_static :: "u32 \<Rightarrow> u32 set \<Rightarrow> 'a tkernel_scheme \<Rightarrow> bool" where
  "tmr_static ucHeap A k \<longleftrightarrow> static_apart ucHeap {xActiveTimerList1 k} \<and> static_apart ucHeap {xActiveTimerList2 k} \<and>
    xActiveTimerList1 k \<notin> A \<and> xActiveTimerList2 k \<notin> A \<and> xTimerQueue k = NULL"

lemma queue_created:
  fixes k :: "'a qkernel_scheme"
  assumes "addr \<noteq> NULL"
  obtains f where "xQueueGenericCreate addr 10 16 k = Inr (vListInitialise (addr + 36) (vListInitialise (addr + 16) (k\<lparr>q_at := f\<rparr>)), addr)"
  using assms by (simp add: xQueueGenericCreate_def prvInitialiseNewQueue_def xQueueGenericReset_def Let_def upd_q_def
      xTasksWaitingToSend_def xTasksWaitingToReceive_def)

lemma phase_fields:
  fixes k :: "'a tkernel_scheme"
  assumes "T \<noteq> {}" "phase_inv A k T W"
  shows "phase_inv A (k\<lparr>k_heap := h\<rparr>) T W" "phase_inv A (k\<lparr>xTimerQueue := q\<rparr>) T W" "phase_inv A (k\<lparr>xQueueRegistry := r\<rparr>) T W"
    "phase_inv A (k\<lparr>pxCurrentTimerList := a, pxOverflowTimerList := b\<rparr>) T W" "phase_inv A (k\<lparr>xTimerTaskHandle := a\<rparr>) T W"
    "phase_inv A (k\<lparr>q_at := f\<rparr>) T W" "phase_inv A (k\<lparr>xIdleTaskHandle := t\<rparr>) T W"
  by (rule phase_view [OF _ _ _ _ _ _ assms], simp_all add: kview_def kquiet_def)+

lemma check_infrastructure:
  fixes k :: "'a tkernel_scheme"
  assumes inv: "phase_inv A k T W" and ne: "T \<noteq> {}" and mem: "memory_ok (te_xStart te) (te_ucHeap te) A (k_heap k) T" and st: "tmr_static (te_ucHeap te) A k"
  obtains k' where "prvCheckForValidListAndQueue te k = Inr k'" "phase_inv A k' T W" "memory_ok (te_xStart te) (te_ucHeap te) A (k_heap k') T" "tmr_frame k k'" "tcb k' = tcb k"
proof -
  let ?x = "te_xStart te" and ?u = "te_ucHeap te"
  define k2 where "k2 = vListInitialise (xActiveTimerList2 k) (vListInitialise (xActiveTimerList1 k) k)"
  have S: "static_apart ?u {xActiveTimerList1 k}" "xActiveTimerList1 k \<notin> A" "static_apart ?u {xActiveTimerList2 k}" "xActiveTimerList2 k \<notin> A" "xTimerQueue k = NULL"
    using st by (simp_all add: tmr_static_def)
  have o: "outside A T (xActiveTimerList1 k)" "outside A T (xActiveTimerList2 k)"
    by (rule outside_static [OF mem S(1,2)], rule outside_static [OF mem S(3,4)])
  have i2: "phase_inv A k2 T W" unfolding k2_def by (rule phase_init_list [OF phase_init_list [OF inv ne o(1)] ne o(2)])
  define k3 where "k3 = k2\<lparr>pxCurrentTimerList := xActiveTimerList1 k, pxOverflowTimerList := xActiveTimerList2 k\<rparr>"
  have i3: "phase_inv A k3 T W" unfolding k3_def by (rule phase_fields(4) [OF ne i2])
  have f3: "k_heap k3 = k_heap k" "tmr_frame k k3" "xTimerQueue k3 = NULL" "tcb k3 = tcb k"
    using S(5) by (simp_all add: k3_def k2_def vListInitialise_def heap_upd tmr_frame_def)
  obtain B where B: "heap_place ?x ?u" "static_apart ?u A" "heap_live ?x ?u (k_heap k) B" "task_blocks T B" using mem by (auto simp: memory_ok_def)
  obtain h q where hq: "pvPortMalloc ?x ?u (72 + 10 * 16) (k_heap k3) = Inr (h, q)" and cs: "q = NULL \<and> heap_live ?x ?u h B \<or>
     (\<exists>m. q \<noteq> NULL \<and> unat (72 + 10 * 16 :: u32) \<le> m \<and> heap_live ?x ?u h (insert (unat q, m) B) \<and> new_block ?u B (unat q) m)"
    unfolding f3(1) by (rule heap_live_alloc [OF B(1,3), of "72 + 10 * 16"])
  have mh: "memory_ok ?x ?u A h T" using cs B(1,2,4) task_blocks_mono [OF B(4)] unfolding memory_ok_def by blast
  have i4: "phase_inv A (k3\<lparr>k_heap := h\<rparr>) T W" by (rule phase_fields(1) [OF ne i3])
  have ck: "prvCheckForValidListAndQueue te k = rbind (create_timer_queue te k3) (\<lambda>k4.
      if xTimerQueue k4 \<noteq> NULL then vQueueAddToRegistry (xTimerQueue k4) (te_TmrQ te) k4 else Inr k4)"
  proof -
    have "xActiveTimerList2 (vListInitialise L k) = xActiveTimerList2 k" "xActiveTimerList1 (vListInitialise L k) = xActiveTimerList1 k" for L and k :: "'a tkernel_scheme"
      by (simp_all add: vListInitialise_def heap_upd)
    then show ?thesis unfolding prvCheckForValidListAndQueue_def k3_def k2_def Let_def by (simp add: S(5))
  qed
  show ?thesis
  proof (cases "q = NULL")
    case True
    let ?k = "k3\<lparr>k_heap := h, xTimerQueue := 0\<rparr>"
    have "prvCheckForValidListAndQueue te k = Inr ?k"
      unfolding ck create_timer_queue_def using hq True by (simp add: xQueueGenericCreate_def)
    moreover have "phase_inv A ?k T W" using phase_fields(2) [OF ne i4, of 0] by simp
    ultimately show ?thesis using that [of ?k] mh f3(2,4) by (simp add: tmr_frame_def)
  next
    case False
    then obtain m where m: "232 \<le> m" "new_block ?u B (unat q) m" using cs by auto
    have o1: "outside A T (q + 16)" "outside A T (q + 36)"
      using outside_block [OF m(2) B(1,3,4,2), of 16] outside_block [OF m(2) B(1,3,4,2), of 36] m(1) by simp_all
    obtain f where f: "xQueueGenericCreate q 10 16 (k3\<lparr>k_heap := h\<rparr>) = Inr (vListInitialise (q + 36) (vListInitialise (q + 16) (k3\<lparr>k_heap := h, q_at := f\<rparr>)), q)"
      by (rule queue_created [OF False]) auto
    define k5 where "k5 = (vListInitialise (q + 36) (vListInitialise (q + 16) (k3\<lparr>k_heap := h, q_at := f\<rparr>)))\<lparr>xTimerQueue := q\<rparr>"
    have i5: "phase_inv A k5 T W" unfolding k5_def
      using phase_fields(2) [OF ne phase_init_list [OF phase_init_list [OF phase_fields(6) [OF ne i4, of f] ne o1(1)] ne o1(2)], of q] by simp
    have f5: "k_heap k5 = h" "tmr_frame k k5" "xTimerQueue k5 = q" "tcb k5 = tcb k" using f3(2,4) by (simp_all add: k5_def vListInitialise_def heap_upd tmr_frame_def)
    have cr: "create_timer_queue te k3 = Inr k5" unfolding create_timer_queue_def using hq f by (simp add: k5_def)
    obtain r where r: "vQueueAddToRegistry q (te_TmrQ te) k5 = Inr (k5\<lparr>xQueueRegistry := r\<rparr>)"
    proof (cases "if te_TmrQ te \<noteq> NULL then registry_slot 0 q (xQueueRegistry k5) None else None")
      case None
      then show ?thesis using that [of "xQueueRegistry k5"] False by (simp add: vQueueAddToRegistry_def)
    next
      case (Some ux)
      then show ?thesis using that False by (simp add: vQueueAddToRegistry_def)
    qed
    have "prvCheckForValidListAndQueue te k = Inr (k5\<lparr>xQueueRegistry := r\<rparr>)" unfolding ck using cr r f5(3) False by simp
    then show ?thesis using that [of "k5\<lparr>xQueueRegistry := r\<rparr>"] phase_fields(3) [OF ne i5] mh f5 by (simp add: tmr_frame_def)
  qed
qed

section \<open>Starting the scheduler\<close>

type_synonym 'a sys = "cpu \<times> 'a tkernel_scheme \<times> heap4 \<times> u32 set"

definition sched_inv :: "timer_env \<Rightarrow> u32 set \<Rightarrow> 'a sys \<Rightarrow> (u32 \<rightharpoonup> place) \<Rightarrow> bool" where
  "sched_inv te A s W = (case s of (c, k, h, T) \<Rightarrow>
    phase_inv A k T W \<and> memory_ok (te_xStart te) (te_ucHeap te) A h T \<and>
    (if xSchedulerRunning k then T \<noteq> {} \<and> W (xIdleTaskHandle k) = Some Rdy
     else tmr_static (te_ucHeap te) A k \<and> (\<forall>t \<in> T. W t = Some Rdy)))"

definition create_step :: "timer_env \<Rightarrow> task_params \<Rightarrow> 'a sys \<Rightarrow> 'a sys res" where
  "create_step te tp s = (case s of (c, k, h, T) \<Rightarrow>
    rbind (xTaskCreate (te_exitError te) (te_xStart te) (te_ucHeap te) tp k h) (\<lambda>(k1, h1, r).
      Inr (c, k1, h1, case r of Created t \<Rightarrow> insert t T | errCOULD_NOT_ALLOCATE_REQUIRED_MEMORY \<Rightarrow> T)))"

definition timer_task :: "timer_env \<Rightarrow> 'a tkernel_scheme \<Rightarrow> heap4 \<Rightarrow> ('a tkernel_scheme \<times> heap4 \<times> int) res" where
  "timer_task te k h = rbind (xTimerCreateTimerTask te (k\<lparr>k_heap := h\<rparr>)) (\<lambda>(k1, r). Inr (k1, k_heap k1, r))"

definition start_step :: "timer_env \<Rightarrow> 'a sys \<Rightarrow> 'a sys res" where
  "start_step te s = (case s of (c, k, h, T) \<Rightarrow>
    rbind (vTaskStartScheduler (timer_task te) (te_prvIdleTask te) (te_exitError te) (te_xStart te) (te_ucHeap te) k h) (\<lambda>(k1, h1).
      Inr (vPortSVCHandler c k1, k1, h1, T \<union> {xIdleTaskHandle k1, xTimerTaskHandle k1})))"

lemma more_tkernel:
  fixes k k' :: "'a tkernel_scheme"
  assumes "kernel.more k' = kernel.more k"
  shows "xActiveTimerList1 k' = xActiveTimerList1 k" "xActiveTimerList2 k' = xActiveTimerList2 k" "xTimerQueue k' = xTimerQueue k"
    "xTimerTaskHandle k' = xTimerTaskHandle k" "k_heap k' = k_heap k"
  using assms by (cases k; cases k'; simp)+

lemma create_sys:
  fixes k :: "'a tkernel_scheme"
  assumes inv: "sched_inv te A (c, k, h, T) W" and tp: "name_ok (tp_pcName tp)" "tp_uxPriority tp < 8"
  obtains (err) h' where "xTaskCreate (te_exitError te) (te_xStart te) (te_ucHeap te) tp k h = Inr (k, h', errCOULD_NOT_ALLOCATE_REQUIRED_MEMORY)"
      "sched_inv te A (c, k, h', T) W"
  | (ok) k' h' t where "xTaskCreate (te_exitError te) (te_xStart te) (te_ucHeap te) tp k h = Inr (k', h', Created t)" "t \<notin> T" "t \<noteq> NULL"
      "sched_inv te A (c, k', h', insert t T) (W(t \<mapsto> Rdy))" "xSchedulerRunning k' = xSchedulerRunning k" "xIdleTaskHandle k' = xIdleTaskHandle k"
      "\<And>u. u \<noteq> t \<Longrightarrow> tcb k' u = tcb k u" "xSchedulerRunning k \<Longrightarrow> pxCurrentTCB k' = pxCurrentTCB k" "prio k' t = tp_uxPriority tp"
proof -
  have I: "phase_inv A k T W" "memory_ok (te_xStart te) (te_ucHeap te) A h T" using inv by (simp_all add: sched_inv_def)
  show ?thesis
  proof (rule xTaskCreate_ok [OF I tp, of "te_exitError te"])
    fix k' h' assume r: "xTaskCreate (te_exitError te) (te_xStart te) (te_ucHeap te) tp k h = Inr (k', h', errCOULD_NOT_ALLOCATE_REQUIRED_MEMORY)" "k' = k"
      "memory_ok (te_xStart te) (te_ucHeap te) A h' T"
    show thesis using err [of h'] r inv by (simp add: sched_inv_def)
  next
    fix k' h' t k0
    assume r: "xTaskCreate (te_exitError te) (te_xStart te) (te_ucHeap te) tp k h = Inr (k', h', Created t)" "t \<notin> T" "t \<noteq> NULL"
      "phase_inv A k' (insert t T) (W(t \<mapsto> Rdy))" "memory_ok (te_xStart te) (te_ucHeap te) A h' (insert t T)"
      "\<exists>s. k0 = upd_tcb t (\<lambda>b. b\<lparr>pxStack := s\<rparr>) k" and cr: "created t (tp_uxPriority tp) k0 k'"
    have k0: "xSchedulerRunning k0 = xSchedulerRunning k" "xIdleTaskHandle k0 = xIdleTaskHandle k" "kernel.more k0 = kernel.more k"
      "u \<noteq> t \<Longrightarrow> tcb k0 u = tcb k u" "pxCurrentTCB k0 = pxCurrentTCB k" for u using r(6) by (auto simp: upd_tcb_def)
    have f: "xSchedulerRunning k' = xSchedulerRunning k" "xIdleTaskHandle k' = xIdleTaskHandle k" "kernel.more k' = kernel.more k"
      "u \<noteq> t \<Longrightarrow> tcb k' u = tcb k u" "xSchedulerRunning k \<Longrightarrow> pxCurrentTCB k' = pxCurrentTCB k" "prio k' t = tp_uxPriority tp" for u
      using cr by (simp_all add: created_def k0)
    have "tmr_static (te_ucHeap te) A k' = tmr_static (te_ucHeap te) A k" using more_tkernel [OF f(3)] by (simp add: tmr_static_def)
    then have "sched_inv te A (c, k', h', insert t T) (W(t \<mapsto> Rdy))" using inv r(4,5) f(1,2) by (auto simp: sched_inv_def)
    then show thesis using ok r(1-3) f by blast
  qed
qed

text \<open>The allocator can serve requests of the given sizes, one after the other.\<close>

fun serves :: "u32 \<Rightarrow> u32 \<Rightarrow> u32 list \<Rightarrow> heap4 \<Rightarrow> bool" where
  "serves xStart ucHeap [] h = True"
| "serves xStart ucHeap (n # ns) h = (case pvPortMalloc xStart ucHeap n h of Inl _ \<Rightarrow> False | Inr (h', p) \<Rightarrow> p \<noteq> NULL \<and> serves xStart ucHeap ns h')"

lemma create_served:
  assumes "serves xStart ucHeap (ucast (usStackDepth tp) * 4 # 92 # ns) h" "xTaskCreate ee xStart ucHeap tp k h = Inr (k', h', r)"
  shows "r \<noteq> errCOULD_NOT_ALLOCATE_REQUIRED_MEMORY" "serves xStart ucHeap ns h'"
  using assms by (auto simp: xTaskCreate_def rbind_Inr_iff Let_def split: sum.splits prod.splits)

lemma check_served:
  assumes "serves (te_xStart te) (te_ucHeap te) ((72 + 10 * 16) # ns) (k_heap k)" "prvCheckForValidListAndQueue te k = Inr k'" "xTimerQueue k = NULL"
  shows "xTimerQueue k' \<noteq> NULL" "serves (te_xStart te) (te_ucHeap te) ns (k_heap k')"
proof -
  obtain h q where hq: "pvPortMalloc (te_xStart te) (te_ucHeap te) (72 + 10 * 16) (k_heap k) = Inr (h, q)" "q \<noteq> NULL" "serves (te_xStart te) (te_ucHeap te) ns h"
    using assms(1) by (auto split: sum.splits prod.splits)
  let ?k2 = "vListInitialise (xActiveTimerList2 k) (vListInitialise (xActiveTimerList1 k) k)"
  let ?k3 = "?k2\<lparr>pxCurrentTimerList := xActiveTimerList1 k, pxOverflowTimerList := xActiveTimerList2 k\<rparr>"
  have v: "xActiveTimerList2 (vListInitialise L k) = xActiveTimerList2 k" "xActiveTimerList1 (vListInitialise L k) = xActiveTimerList1 k"
    "k_heap (vListInitialise L k) = k_heap k" for L and k :: "'a tkernel_scheme" by (simp_all add: vListInitialise_def heap_upd)
  obtain f where f: "xQueueGenericCreate q 10 16 (?k3\<lparr>k_heap := h\<rparr>) = Inr (vListInitialise (q + 36) (vListInitialise (q + 16) (?k3\<lparr>k_heap := h, q_at := f\<rparr>)), q)"
    by (rule queue_created [OF hq(2)]) auto
  have "create_timer_queue te ?k3 = Inr ((vListInitialise (q + 36) (vListInitialise (q + 16) (?k3\<lparr>k_heap := h, q_at := f\<rparr>)))\<lparr>xTimerQueue := q\<rparr>)"
    unfolding create_timer_queue_def using hq(1) f by (simp add: v)
  then have "vQueueAddToRegistry q (te_TmrQ te) ((vListInitialise (q + 36) (vListInitialise (q + 16) (?k3\<lparr>k_heap := h, q_at := f\<rparr>)))\<lparr>xTimerQueue := q\<rparr>) = Inr k'"
    using assms(2,3) hq(2) unfolding prvCheckForValidListAndQueue_def by (simp add: Let_def v)
  then have "xTimerQueue k' = q \<and> k_heap k' = h"
    using hq(2) unfolding vQueueAddToRegistry_def by (auto simp: v split: option.splits if_splits)
  then show "xTimerQueue k' \<noteq> NULL" "serves (te_xStart te) (te_ucHeap te) ns (k_heap k')" using hq(2,3) by simp_all
qed

text \<open>The requests of the start: stack and control block of the idle task, command queue, stack and control block of the timer task.\<close>

definition start_requests :: "u32 list" where
  "start_requests = [4096 * 4, 92, 72 + 10 * 16, 180 * 4, 92]"

lemma kinv_clock:
  assumes inv: "kinv k F T W" and no: "\<And>t n. W t \<noteq> Some (Slp n)"
  shows "kinv (k\<lparr>xNextTaskUnblockTime := v, xSchedulerRunning := b, xTickCount := c\<rparr>) F T W"
proof -
  let ?k = "k\<lparr>xNextTaskUnblockTime := v, xSchedulerRunning := b, xTickCount := c\<rparr>"
  have e: "lst F (pxDelayedTaskList k) = []" "lst F (pxOverflowDelayedTaskList k) = []"
  proof -
    have "x \<notin> set (lst F (pxDelayedTaskList k)) \<union> set (lst F (pxOverflowDelayedTaskList k))" for x
      using sleepers_tasks [OF inv, of x] no by metis
    then show "lst F (pxDelayedTaskList k) = []" "lst F (pxOverflowDelayedTaskList k) = []" by (auto simp: last_in_set)
        (metis UnI1 UnI2 list.set_intros(1) neq_Nil_conv)+
  qed
  note K = kinvD [OF inv]
  have f: "own_lists ?k = own_lists k" "side_lists ?k = side_lists k" "ready_list p ?k = ready_list p k" for p
    by (simp_all add: own_lists_def side_lists_def ready_list_def)
  have l: "lists_ok ?k F = lists_ok k F" by (rule lists_ok_heap) simp_all
  have sc: "sched_core ?k F" using K(2) unfolding sched_core_def l f by (simp add: e)
  have "sched_ok ?k F" using sc by (simp add: sched_ok_def e)
  moreover have "placed ?k F W" using K(6) unfolding placed_def f by (simp add: sleeping_def e)
  moreover have "lists_placed ?k F" using K(4) unfolding lists_placed_def f by simp
  moreover have "task_ok ?k F t = task_ok k F t" for t by (simp add: task_ok_def)
  ultimately show ?thesis using inv unfolding kinv_def by simp
qed

lemma start_sys:
  fixes k :: "'a tkernel_scheme"
  assumes inv: "sched_inv te A (c, k, h, T) W" and nr: "\<not> xSchedulerRunning k"
  obtains "start_step te (c, k, h, T) = Inl DevAssertFailed" "\<not> serves (te_xStart te) (te_ucHeap te) start_requests h"
  | c' k' h' T' where "start_step te (c, k, h, T) = Inr (c', k', h', T')" "T \<subseteq> T'" "sched_inv te A (c', k', h', T') (\<lambda>t. if t \<in> T' then Some Rdy else None)"
    "xSchedulerRunning k'" "\<not> pendSV k'" "pxCurrentTCB k' \<noteq> xIdleTaskHandle k'"
proof -
  let ?x = "te_xStart te" and ?u = "te_ucHeap te" and ?e = "te_exitError te" and ?ip = "idle_params (te_prvIdleTask te)"
  have W: "W = (\<lambda>t. if t \<in> T then Some Rdy else None)"
  proof -
    have "dom W = T" using inv by (auto simp: sched_inv_def phase_inv_def ready_inv_def split: if_splits)
    then show ?thesis using inv nr by (fastforce simp: sched_inv_def)
  qed
  have ip: "name_ok (tp_pcName ?ip)" "tp_uxPriority ?ip < 8" "name_ok (tp_pcName (timer_params te))" "tp_uxPriority (timer_params te) < 8"
    by (simp_all add: idle_params_def timer_params_def name_ok_def)
  show ?thesis
  proof (cases rule: create_sys [OF inv ip(1,2), case_names err ok])
    case (err h')
    have "\<not> serves ?x ?u start_requests h"
      using create_served(1) [of ?x ?u ?ip "[72 + 10 * 16, 180 * 4, 92]", OF _ err(1)] by (auto simp: start_requests_def idle_params_def)
    then show ?thesis using that(1) err(1) by (simp add: start_step_def vTaskStartScheduler_def)
  next
    case (ok k1 h1 t1)
    let ?T1 = "insert t1 T" and ?k2 = "k1\<lparr>xIdleTaskHandle := t1, k_heap := h1\<rparr>"
    have sv1: "serves ?x ?u [72 + 10 * 16, 180 * 4, 92] h1" if "serves ?x ?u start_requests h"
      using create_served(2) [of ?x ?u ?ip "[72 + 10 * 16, 180 * 4, 92]", OF _ ok(1)] that by (simp add: start_requests_def idle_params_def)
    have n1: "\<not> xSchedulerRunning k1" using ok(5) nr by simp
    have I1: "phase_inv A k1 ?T1 (W(t1 \<mapsto> Rdy))" "memory_ok ?x ?u A h1 ?T1" "tmr_static ?u A k1"
      using ok(4) n1 by (simp_all add: sched_inv_def)
    have I2: "phase_inv A ?k2 ?T1 (W(t1 \<mapsto> Rdy))"
      using phase_fields(1) [OF _ phase_fields(7) [OF _ I1(1), of t1], of h1] by simp
    have t2: "tmr_static ?u A ?k2" using I1(3) by (simp add: tmr_static_def)
    obtain k3 where k3: "prvCheckForValidListAndQueue te ?k2 = Inr k3" "phase_inv A k3 ?T1 (W(t1 \<mapsto> Rdy))" "memory_ok ?x ?u A (k_heap k3) ?T1" "tmr_frame ?k2 k3" "tcb k3 = tcb ?k2"
      by (rule check_infrastructure [OF I2 _ _ t2]) (use I1(2) in simp_all)
    have f3: "xSchedulerRunning k3 = False" "xIdleTaskHandle k3 = t1" using k3(4) n1 by (simp_all add: tmr_frame_def)
    have sv3: "xTimerQueue k3 \<noteq> NULL" "serves ?x ?u [180 * 4, 92] (k_heap k3)" if "serves ?x ?u start_requests h"
      using check_served [of te "[180 * 4, 92]" ?k2 k3] sv1 [OF that] k3(1) t2 by (simp_all add: tmr_static_def)
    have st: "start_step te (c, k, h, T) = rbind (rbind (timer_task te (k1\<lparr>xIdleTaskHandle := t1\<rparr>) h1) (\<lambda>(k2, h2, xReturn).
          if xReturn = 1 then Inr (k2\<lparr>xNextTaskUnblockTime := portMAX_DELAY, xSchedulerRunning := True, xTickCount := 0\<rparr>, h2)
          else dev_assert (xReturn \<noteq> - 1) (Inr (k2, h2)))) (\<lambda>(k1, h1).
      Inr (vPortSVCHandler c k1, k1, h1, T \<union> {xIdleTaskHandle k1, xTimerTaskHandle k1}))"
      using ok(1) by (simp add: start_step_def vTaskStartScheduler_def)
    show ?thesis
    proof (cases "xTimerQueue k3 = NULL")
      case True
      then have "timer_task te (k1\<lparr>xIdleTaskHandle := t1\<rparr>) h1 = Inl DevAssertFailed"
        using k3(1) by (simp add: timer_task_def xTimerCreateTimerTask_def)
      then show ?thesis using that(1) st sv3(1) True by fastforce
    next
      case q: False
      show ?thesis
      proof (rule xTaskCreate_ok [OF k3(2,3) ip(3,4), of ?e])
        fix k' h' assume r: "xTaskCreate ?e ?x ?u (timer_params te) k3 (k_heap k3) = Inr (k', h', errCOULD_NOT_ALLOCATE_REQUIRED_MEMORY)"
        then have "timer_task te (k1\<lparr>xIdleTaskHandle := t1\<rparr>) h1 = Inr (k'\<lparr>k_heap := h'\<rparr>, h', - 1)"
          using k3(1) q by (simp add: timer_task_def xTimerCreateTimerTask_def)
        moreover have "\<not> serves ?x ?u start_requests h"
          using create_served(1) [of ?x ?u "timer_params te" "[]", OF _ r] sv3(2) by (auto simp: timer_params_def)
        ultimately show thesis using that(1) st by simp
      next
        fix k4 h4 t4 k0
        assume r: "xTaskCreate ?e ?x ?u (timer_params te) k3 (k_heap k3) = Inr (k4, h4, Created t4)" "t4 \<notin> ?T1" "t4 \<noteq> NULL"
          "phase_inv A k4 (insert t4 ?T1) ((W(t1 \<mapsto> Rdy))(t4 \<mapsto> Rdy))" "memory_ok ?x ?u A h4 (insert t4 ?T1)"
          "\<exists>s. k0 = upd_tcb t4 (\<lambda>b. b\<lparr>pxStack := s\<rparr>) k3" and cr: "created t4 (tp_uxPriority (timer_params te)) k0 k4"
        let ?T' = "insert t4 ?T1" and ?W = "(W(t1 \<mapsto> Rdy))(t4 \<mapsto> Rdy)"
        define k5 where "k5 = k4\<lparr>k_heap := h4, xTimerTaskHandle := t4\<rparr>"
        define k' where "k' = k5\<lparr>xNextTaskUnblockTime := portMAX_DELAY, xSchedulerRunning := True, xTickCount := 0\<rparr>"
        have f4: "xSchedulerRunning k4 = False" "xIdleTaskHandle k4 = t1" using cr r(6) f3 by (auto simp: created_def upd_tcb_def)
        have i5: "phase_inv A k5 ?T' ?W" unfolding k5_def
          using phase_fields(5) [OF _ phase_fields(1) [OF _ r(4), of h4], of t4] by simp
        have We: "?W = (\<lambda>t. if t \<in> ?T' then Some Rdy else None)" using W by (auto simp: fun_eq_iff)
        obtain F where F: "kinv k5 F ?T' ?W" and rd: "dom ?W = ?T'" "pxCurrentTCB k5 \<in> ?T'" "own_lists k5 \<union> side_lists k5 = A" "pendSV k5 \<or> runs_top k5 ?W"
          using i5 by (auto simp: phase_inv_def ready_inv_def simp del: fun_upd_apply)
        have np: "\<not> pendSV k5" using i5 f4 by (simp add: phase_inv_def k5_def)
        have kq: "kinv k' F ?T' ?W" unfolding k'_def by (rule kinv_clock [OF F]) (simp add: We split: if_splits)
        have fk: "own_lists k' = own_lists k5" "side_lists k' = side_lists k5" "tcb k' = tcb k5" "pxCurrentTCB k' = pxCurrentTCB k5" "pendSV k' = pendSV k5"
          "xIdleTaskHandle k' = t1" "xTimerTaskHandle k' = t4" "kquiet k' = kquiet k5" "xSchedulerRunning k'"
          using f4(2) by (simp_all add: k'_def k5_def own_lists_def side_lists_def ready_list_def kquiet_def)
        have "ready_inv A k' ?T' ?W" unfolding ready_inv_def runs_top_def fk using kq rd by (auto simp: runs_top_def simp del: fun_upd_apply)
        then have ph: "phase_inv A k' ?T' ?W" using i5 np unfolding phase_inv_def fk by simp
        have si: "sched_inv te A (vPortSVCHandler c k', k', h4, ?T') ?W" using ph r(5) fk(6,9) by (simp add: sched_inv_def)
        have "timer_task te (k1\<lparr>xIdleTaskHandle := t1\<rparr>) h1 = Inr (k5, h4, 1)"
          using k3(1) q r(1) by (simp add: timer_task_def xTimerCreateTimerTask_def k5_def)
        then have run: "start_step te (c, k, h, T) = Inr (vPortSVCHandler c k', k', h4, ?T')"
          using st fk(6,7) by (simp add: k'_def insert_commute)
        have "prio k' t4 \<le> prio k' (pxCurrentTCB k')" using ph fk(5) np by (auto simp: phase_inv_def ready_inv_def runs_top_def)
        moreover have "prio k' t4 = 2" "prio k' t1 = 0" using cr r(2,6) k3(5) ok(9) unfolding fk(3)
          by (auto simp: created_def k5_def upd_tcb_def timer_params_def idle_params_def)
        ultimately have "pxCurrentTCB k' \<noteq> xIdleTaskHandle k'" unfolding fk(6) by auto
        then show thesis by (intro that(2) [OF run]) (use si fk np in \<open>simp_all add: We subset_insertI2\<close>)
      qed
    qed
  qed
qed

end
