(* ===== verification/Step_Spec.thy ===== *)
theory Step_Spec
  imports Gw_Prelude
begin

text \<open>
  The contract of a system that runs step by step: a step that is enabled in a state of the invariant returns, and does to the
  abstract state what its effect says, unless it is one that may stop. The client lemmas speak about
  whole runs: they stay in the invariant, no enabled step fails, and what every step keeps of the abstract state
  holds at the end.
\<close>

inductive runs :: "('o \<Rightarrow> 's \<Rightarrow> 's res) \<Rightarrow> ('o \<Rightarrow> 's \<Rightarrow> bool) \<Rightarrow> 's \<Rightarrow> 'o list \<Rightarrow> 's \<Rightarrow> bool" for exec enabled s where
  runs_nil: "runs exec enabled s [] s"
| runs_snoc: "runs exec enabled s ops s' \<Longrightarrow> enabled op s' \<Longrightarrow> exec op s' = Inr s'' \<Longrightarrow> runs exec enabled s (ops @ [op]) s''"

lemma runs_one: "enabled op s \<Longrightarrow> exec op s = Inr s' \<Longrightarrow> runs exec enabled s [op] s'" for enabled :: "'o \<Rightarrow> 's \<Rightarrow> bool" and exec
  using runs_snoc [of exec enabled s "[]" s op s', OF runs_nil] by simp

locale step_system =
  fixes exec :: "'o \<Rightarrow> 's \<Rightarrow> 's res" and enabled :: "'o \<Rightarrow> 's \<Rightarrow> bool" and inv :: "'s \<Rightarrow> 'w \<Rightarrow> bool"
    and effect :: "'o \<Rightarrow> 's \<Rightarrow> 's \<Rightarrow> 'w \<Rightarrow> 'w" and stops :: "'o \<Rightarrow> 's \<Rightarrow> bool"
  assumes step_law: "inv s w \<Longrightarrow> enabled op s \<Longrightarrow>
    (\<exists>s'. exec op s = Inr s' \<and> inv s' (effect op s s' w)) \<or> stops op s \<and> exec op s = Inl DevAssertFailed"
begin

lemma step_inv: "inv s w \<Longrightarrow> enabled op s \<Longrightarrow> exec op s = Inr s' \<Longrightarrow> inv s' (effect op s s' w)"
  using step_law [of s w op] by auto

lemma runs_inv:
  assumes "runs exec enabled s ops s'" "inv s w"
  shows "\<exists>w'. inv s' w'"
  using assms by (induction rule: runs.induct) (blast intro: step_inv)+

lemma runs_safe:
  assumes "runs exec enabled s ops s'" "inv s w" "enabled op s'"
  shows "(\<exists>s''. exec op s' = Inr s'') \<or> stops op s' \<and> exec op s' = Inl DevAssertFailed"
  using runs_inv [OF assms(1,2)] step_law assms(3) by blast

lemma runs_track:
  assumes r: "runs exec enabled s ops s'" and i: "inv s w" "Q [] w"
    and step: "\<And>ops' op t t' v. inv t v \<Longrightarrow> Q ops' v \<Longrightarrow> enabled op t \<Longrightarrow> exec op t = Inr t' \<Longrightarrow> op \<in> set ops \<Longrightarrow> Q (ops' @ [op]) (effect op t t' v)"
  shows "\<exists>w'. inv s' w' \<and> Q ops w'"
proof -
  have "\<exists>w'. inv s' w' \<and> Q xs w'" if "runs exec enabled s xs s'" "set xs \<subseteq> set ops" for xs s'
    using that
  proof (induction rule: runs.induct)
    case runs_nil
    then show ?case using i by blast
  next
    case (runs_snoc xs t op t')
    then obtain v where v: "inv t v" "Q xs v" by auto
    have "Q (xs @ [op]) (effect op t t' v)" using step [OF v runs_snoc(2,3)] runs_snoc.prems by simp
    then show ?case using step_inv [OF v(1) runs_snoc(2,3)] by blast
  qed
  then show ?thesis using r by blast
qed

end

end
