(* ===== verification/Sched_Steps.thy ===== *)
theory Sched_Steps
  imports Sched_Memory Step_Spec
begin

text \<open>
  The scheduler as a system of steps: interrupts, creations, the start, and the calls of the running task. Every
  enabled step returns and changes the places of the tasks as the specification says; the one exception is the start when memory is short.
\<close>

section \<open>The running system\<close>

text \<open>
  The steps of the system. \<open>Create\<close> and \<open>Start\<close> happen before the scheduler runs, \<open>Create\<close> also later; \<open>Tick\<close> and \<open>Switch\<close> are the
  interrupts of the timer and of the context switch; the others are calls of the running task. A call that waits for a notification
  has two halves. The last component of the state is the set of task handles that have been handed out.
\<close>

datatype sched_op = Create task_params | Start | Tick | Switch | Yield | Delay u32 | Suspend u32 | Resume u32 | PrioritySet u32 u32
  | Notify u32 u32 eNotifyAction | NotifyTake u32 | NotifyTaken bool | NotifyWait u32 u32 | NotifyWaited u32

definition on_kernel :: "('a tkernel_scheme \<Rightarrow> 'a tkernel_scheme res) \<Rightarrow> 'a sys \<Rightarrow> 'a sys res" where
  "on_kernel f s = (case s of (c, k, h, T) \<Rightarrow> rbind (f k) (\<lambda>k1. Inr (c, k1, h, T)))"

fun exec :: "timer_env \<Rightarrow> sched_op \<Rightarrow> 'a sys \<Rightarrow> 'a sys res" where
  "exec te (Create tp) s = create_step te tp s"
| "exec te Start s = start_step te s"
| "exec te Tick s = on_kernel xPortSysTickHandler s"
| "exec te Switch (c, k, h, T) = rbind (xPortPendSVHandler c k) (\<lambda>(c1, k1). Inr (c1, k1, h, T))"
| "exec te Yield s = on_kernel (\<lambda>k. Inr (portYIELD_WITHIN_API k)) s"
| "exec te (Delay n) s = on_kernel (vTaskDelay n) s"
| "exec te (Suspend t) s = on_kernel (vTaskSuspend t) s"
| "exec te (Resume t) s = on_kernel (vTaskResume t) s"
| "exec te (PrioritySet t p) s = on_kernel (vTaskPrioritySet t p) s"
| "exec te (Notify t v a) s = on_kernel (\<lambda>k. rbind (xTaskGenericNotify t 0 v a k) (\<lambda>(k1, _). Inr k1)) s"
| "exec te (NotifyTake n) s = on_kernel (ulTaskGenericNotifyTake_enter 0 n) s"
| "exec te (NotifyTaken b) s = on_kernel (\<lambda>k. Inr (fst (ulTaskGenericNotifyTake_exit b k))) s"
| "exec te (NotifyWait b n) s = on_kernel (xTaskGenericNotifyWait_enter 0 b n) s"
| "exec te (NotifyWaited b) s = on_kernel (\<lambda>k. Inr (fst (xTaskGenericNotifyWait_exit b k))) s"

text \<open>
  When a step can happen. The code of a task runs while no switch is pending; handles come from earlier creations; the idle task
  does not block and is not suspended, which \<open>FreeRTOS\<close> demands of applications.
\<close>

definition task_code :: "'a tkernel_scheme \<Rightarrow> bool" where
  "task_code k \<longleftrightarrow> xSchedulerRunning k \<and> \<not> pendSV k"

fun enabled :: "sched_op \<Rightarrow> 'a sys \<Rightarrow> bool" where
  "enabled (Create tp) (c, k, h, T) \<longleftrightarrow> name_ok (tp_pcName tp) \<and> tp_uxPriority tp < 8 \<and> \<not> pendSV k"
| "enabled Start (c, k, h, T) \<longleftrightarrow> \<not> xSchedulerRunning k"
| "enabled Tick (c, k, h, T) \<longleftrightarrow> xSchedulerRunning k"
| "enabled Switch (c, k, h, T) \<longleftrightarrow> xSchedulerRunning k \<and> pendSV k"
| "enabled Yield (c, k, h, T) \<longleftrightarrow> task_code k"
| "enabled (Delay n) (c, k, h, T) \<longleftrightarrow> task_code k \<and> pxCurrentTCB k \<noteq> xIdleTaskHandle k"
| "enabled (Suspend t) (c, k, h, T) \<longleftrightarrow> task_code k \<and> prvGetTCBFromHandle t k \<in> T \<and> prvGetTCBFromHandle t k \<noteq> xIdleTaskHandle k"
| "enabled (Resume t) (c, k, h, T) \<longleftrightarrow> task_code k \<and> t \<in> T"
| "enabled (PrioritySet t p) (c, k, h, T) \<longleftrightarrow> task_code k \<and> prvGetTCBFromHandle t k \<in> T \<and> p < 8"
| "enabled (Notify t v a) (c, k, h, T) \<longleftrightarrow> task_code k \<and> t \<in> T"
| "enabled (NotifyTake n) (c, k, h, T) \<longleftrightarrow> task_code k \<and> pxCurrentTCB k \<noteq> xIdleTaskHandle k"
| "enabled (NotifyTaken b) (c, k, h, T) \<longleftrightarrow> task_code k"
| "enabled (NotifyWait b n) (c, k, h, T) \<longleftrightarrow> task_code k \<and> pxCurrentTCB k \<noteq> xIdleTaskHandle k"
| "enabled (NotifyWaited b) (c, k, h, T) \<longleftrightarrow> task_code k"

text \<open>What a step does to the places of the tasks: the specification of the scheduler.\<close>

definition blocked :: "u32 \<Rightarrow> u32 \<Rightarrow> (u32 \<rightharpoonup> place) \<Rightarrow> (u32 \<rightharpoonup> place)" where
  "blocked t n W = (if n = 0 then W else if n = portMAX_DELAY then W(t \<mapsto> Ssp) else W(t \<mapsto> Slp (unat n)))"

fun effect :: "sched_op \<Rightarrow> 'a sys \<Rightarrow> 'a sys \<Rightarrow> (u32 \<rightharpoonup> place) \<Rightarrow> (u32 \<rightharpoonup> place)" where
  "effect (Create tp) (c, k, h, T) (c', k', h', T') W = (\<lambda>t. if t \<in> T' - T then Some Rdy else W t)"
| "effect Start (c, k, h, T) (c', k', h', T') W = (\<lambda>t. if t \<in> T' - T then Some Rdy else W t)"
| "effect Tick s s' W = tick_place \<circ> W"
| "effect (Delay n) (c, k, h, T) s' W = (if n = 0 then W else W(pxCurrentTCB k \<mapsto> Slp (unat n)))"
| "effect (Suspend t) (c, k, h, T) s' W = W(prvGetTCBFromHandle t k \<mapsto> Ssp)"
| "effect (Resume t) (c, k, h, T) s' W = (if W t = Some Ssp \<and> t \<noteq> pxCurrentTCB k then W(t \<mapsto> Rdy) else W)"
| "effect (Notify t v a) (c, k, h, T) s' W = (if ucNotifyState (tcb k t) = taskWAITING_NOTIFICATION then W(t \<mapsto> Rdy) else W)"
| "effect (NotifyTake n) (c, k, h, T) s' W = (if ulNotifiedValue (tcb k (pxCurrentTCB k)) = 0 then blocked (pxCurrentTCB k) n W else W)"
| "effect (NotifyWait b n) (c, k, h, T) s' W =
    (if ucNotifyState (tcb k (pxCurrentTCB k)) \<noteq> taskNOTIFICATION_RECEIVED then blocked (pxCurrentTCB k) n W else W)"
| "effect _ s s' W = W"

lemma sysD:
  assumes "sched_inv te A (c, k, h, T) W" "xSchedulerRunning k"
  obtains F where "kinv k F T W" "dom W = T" "pxCurrentTCB k \<in> T" "own_lists k \<union> side_lists k = A" "pendSV k \<or> runs_top k W" "kquiet k"
    "W (xIdleTaskHandle k) = Some Rdy"
proof -
  have "ready_inv A k T W" "kquiet k" "W (xIdleTaskHandle k) = Some Rdy" using assms by (auto simp: sched_inv_def phase_inv_def split: if_splits)
  then show ?thesis using that by (auto simp: ready_inv_def)
qed

lemma sysI:
  fixes k k' :: "'a tkernel_scheme"
  assumes inv: "sched_inv te A (c, k, h, T) W" "xSchedulerRunning k" and k': "kinv k' F' T W'" "dom W' = T" "krest (k\<lparr>pxCurrentTCB := pxCurrentTCB k', pendSV := b\<rparr>) k'"
    and cu: "pxCurrentTCB k' \<in> T" and top: "pendSV k' \<or> runs_top k' W'" and idle: "W' (xIdleTaskHandle k) = Some Rdy"
  shows "sched_inv te A (c', k', h, T) W'"
proof -
  have r: "xSchedulerRunning k'" "xIdleTaskHandle k' = xIdleTaskHandle k" "kquiet k' = kquiet k" "own_lists k' = own_lists k" "side_lists k' = side_lists k"
    "pcTaskName (tcb k' t) = pcTaskName (tcb k t)" for t
    using k'(3) inv(2) by (simp_all add: krest_def kquiet_def)
  have F: "own_lists k \<union> side_lists k = A" "T \<noteq> {}" by (rule sysD [OF inv], simp, rule sysD [OF inv], blast)
  have "ready_inv A k' T W'" unfolding ready_inv_def r using F(1) k'(1,2) cu top by blast
  then show ?thesis using inv F(2) idle unfolding sched_inv_def phase_inv_def by (simp add: r)
qed

lemma sysI_same:
  fixes k k' :: "'a tkernel_scheme"
  assumes inv: "sched_inv te A (c, k, h, T) W" "xSchedulerRunning k" and k': "kinv k' F' T W'" "dom W' = T" "krest k k'"
    and top: "pendSV k' \<or> runs_top k' W'" and idle: "W' (xIdleTaskHandle k) = Some Rdy"
  shows "sched_inv te A (c', k', h, T) W'"
proof -
  have c: "pxCurrentTCB k' = pxCurrentTCB k" using k'(3) by (simp add: krest_def)
  have "pxCurrentTCB k \<in> T" by (rule sysD [OF inv])
  moreover have "krest (k\<lparr>pxCurrentTCB := pxCurrentTCB k', pendSV := pendSV k\<rparr>) k'" using k'(3) c by simp
  ultimately show ?thesis using sysI [OF inv k'(1,2), of "pendSV k"] top idle c by simp
qed

definition simulates :: "timer_env \<Rightarrow> u32 set \<Rightarrow> sched_op \<Rightarrow> 'a sys \<Rightarrow> (u32 \<rightharpoonup> place) \<Rightarrow> bool" where
  "simulates te A op s W \<longleftrightarrow> (\<exists>s'. exec te op s = Inr s' \<and> sched_inv te A s' (effect op s s' W))"

lemma on_kernel_sim:
  assumes "exec te op (c, k, h, T) = on_kernel f (c, k, h, T)" "f k = Inr k'" "sched_inv te A (c, k', h, T) (effect op (c, k, h, T) (c, k', h, T) W)"
  shows "simulates te A op (c, k, h, T) W"
  using assms by (auto simp: simulates_def on_kernel_def)

lemma sim_create:
  assumes inv: "sched_inv te A (c, k, h, T) W" and en: "enabled (Create tp) (c, k, h, T)"
  shows "simulates te A (Create tp) (c, k, h, T) W"
proof -
  have tp: "name_ok (tp_pcName tp)" "tp_uxPriority tp < 8" using en by simp_all
  show ?thesis
  proof (rule create_sys [OF inv tp])
    fix h' assume "xTaskCreate (te_exitError te) (te_xStart te) (te_ucHeap te) tp k h = Inr (k, h', errCOULD_NOT_ALLOCATE_REQUIRED_MEMORY)"
      "sched_inv te A (c, k, h', T) W"
    then show ?thesis by (auto simp: simulates_def create_step_def)
  next
    fix k' h' t assume r: "xTaskCreate (te_exitError te) (te_xStart te) (te_ucHeap te) tp k h = Inr (k', h', Created t)" "t \<notin> T"
      "sched_inv te A (c, k', h', insert t T) (W(t \<mapsto> Rdy))"
    have "(\<lambda>u. if u \<in> insert t T - T then Some Rdy else W u) = W(t \<mapsto> Rdy)" using r(2) by (auto simp: fun_eq_iff)
    then show ?thesis using r(1,3) by (simp add: simulates_def create_step_def)
  qed
qed

lemma sim_start:
  assumes inv: "sched_inv te A (c, k, h, T) W" and en: "enabled Start (c, k, h, T)"
  shows "simulates te A Start (c, k, h, T) W \<or>
    exec te Start (c, k, h, T) = Inl DevAssertFailed \<and> \<not> serves (te_xStart te) (te_ucHeap te) start_requests h"
proof -
  have nr: "\<not> xSchedulerRunning k" using en by simp
  have W: "W = (\<lambda>t. if t \<in> T then Some Rdy else None)"
  proof -
    have "dom W = T" using inv by (auto simp: sched_inv_def phase_inv_def ready_inv_def split: if_splits)
    then show ?thesis using inv nr by (fastforce simp: sched_inv_def)
  qed
  show ?thesis
  proof (rule start_sys [OF inv nr])
    fix c' k' h' T' assume r: "start_step te (c, k, h, T) = Inr (c', k', h', T')" "T \<subseteq> T'" "sched_inv te A (c', k', h', T') (\<lambda>t. if t \<in> T' then Some Rdy else None)"
    have "(\<lambda>u. if u \<in> T' - T then Some Rdy else W u) = (\<lambda>t. if t \<in> T' then Some Rdy else None)" using r(2) unfolding W by (auto simp: fun_eq_iff)
    then show ?thesis using r(1,3) by (simp add: simulates_def)
  qed simp
qed

lemma sim_tick:
  assumes inv: "sched_inv te A (c, k, h, T) W" and en: "enabled Tick (c, k, h, T)"
  shows "simulates te A Tick (c, k, h, T) W"
proof -
  have r: "xSchedulerRunning k" using en by simp
  obtain F where F: "kinv k F T W" "dom W = T" "pendSV k \<or> runs_top k W" "kquiet k" "W (xIdleTaskHandle k) = Some Rdy" by (rule sysD [OF inv r])
  obtain k' F' where k': "xPortSysTickHandler k = Inr k'" "kinv k' F' T (tick_place \<circ> W)" "krest k k'" "pendSV k' \<or> runs_top k' (tick_place \<circ> W)"
    by (rule kinv_xPortSysTickHandler [OF F(1,4,3)])
  have "tick_place w = None \<longleftrightarrow> w = None" for w by (cases w rule: tick_place.cases) auto
  then have "dom (tick_place \<circ> W) = T" using F(2) by (auto simp: dom_def)
  then have "sched_inv te A (c, k', h, T) (tick_place \<circ> W)" by (rule sysI_same [OF inv r k'(2) _ k'(3,4)]) (simp add: F(5))
  then show ?thesis using k'(1) by (intro on_kernel_sim [where f = xPortSysTickHandler and k' = k']) simp_all
qed

lemma sim_switch:
  assumes inv: "sched_inv te A (c, k, h, T) W" and en: "enabled Switch (c, k, h, T)"
  shows "simulates te A Switch (c, k, h, T) W"
proof -
  have r: "xSchedulerRunning k" using en by simp
  obtain F where F: "kinv k F T W" "dom W = T" "kquiet k" "W (xIdleTaskHandle k) = Some Rdy" by (rule sysD [OF inv r])
  have s: "uxSchedulerSuspended k = 0" using F(3) by (simp add: kquiet_def)
  obtain c' k' where k': "xPortPendSVHandler c k = Inr (c', k')" "kinv k' F T W" "runs_top k' W"
    "krest (k\<lparr>pxCurrentTCB := pxCurrentTCB k', pendSV := False\<rparr>) k'"
    by (rule kinv_xPortPendSVHandler [OF F(1) s F(4)])
  have "pxCurrentTCB k' \<in> T" using k'(3) F(2) by (auto simp: runs_top_def)
  then have "sched_inv te A (c', k', h, T) W" using sysI [OF inv r k'(2) F(2) k'(4)] k'(3) F(4) by blast
  then show ?thesis using k'(1) by (auto simp: simulates_def)
qed

text \<open>The calls of the running task.\<close>

lemma callD:
  assumes "sched_inv te A (c, k, h, T) W" "task_code k"
  obtains F where "kinv k F T W" "dom W = T" "pxCurrentTCB k \<in> T" "runs_top k W" "kquiet k" "W (xIdleTaskHandle k) = Some Rdy"
    "xSchedulerRunning k" "W (pxCurrentTCB k) = Some Rdy"
proof -
  have r: "xSchedulerRunning k" "\<not> pendSV k" using assms(2) by (simp_all add: task_code_def)
  obtain F where F: "kinv k F T W" "dom W = T" "pxCurrentTCB k \<in> T" "pendSV k \<or> runs_top k W" "kquiet k" "W (xIdleTaskHandle k) = Some Rdy"
    by (rule sysD [OF assms(1) r(1)])
  then show ?thesis using that r by (auto simp: runs_top_def)
qed

lemma sim_yield:
  assumes inv: "sched_inv te A (c, k, h, T) W" and en: "enabled Yield (c, k, h, T)"
  shows "simulates te A Yield (c, k, h, T) W"
proof -
  have t: "task_code k" using en by simp
  obtain F where F: "kinv k F T W" "dom W = T" "W (xIdleTaskHandle k) = Some Rdy" "xSchedulerRunning k" by (rule callD [OF inv t])
  have "sched_inv te A (c, portYIELD_WITHIN_API k, h, T) W"
    by (rule sysI_same [OF inv F(4), of _ F]) (use F in \<open>simp_all add: portYIELD_WITHIN_API_def krest_def\<close>)
  then show ?thesis by (intro on_kernel_sim [where f = "\<lambda>k. Inr (portYIELD_WITHIN_API k)"]) simp_all
qed

lemma sim_delay:
  assumes inv: "sched_inv te A (c, k, h, T) W" and en: "enabled (Delay n) (c, k, h, T)"
  shows "simulates te A (Delay n) (c, k, h, T) W"
proof (cases "n = 0")
  case True
  have "exec te (Delay 0) (c, k, h, T) = exec te Yield (c, k, h, T)" by (simp add: on_kernel_def vTaskDelay_def)
  then show ?thesis using sim_yield [OF inv] en True by (simp add: simulates_def)
next
  case False
  have t: "task_code k" "pxCurrentTCB k \<noteq> xIdleTaskHandle k" using en by simp_all
  obtain F where F: "kinv k F T W" "dom W = T" "pxCurrentTCB k \<in> T" "kquiet k" "W (xIdleTaskHandle k) = Some Rdy" "xSchedulerRunning k" "W (pxCurrentTCB k) = Some Rdy"
    by (rule callD [OF inv t(1)])
  have n: "0 < n" using False by (simp add: word_neq_0_conv)
  obtain k' F' where k': "vTaskDelay n k = Inr k'" "kinv k' F' T (W(pxCurrentTCB k \<mapsto> Slp (unat n)))" "krest k k'" "pendSV k'"
    by (rule kinv_vTaskDelay [OF F(1,7,4) n])
  have "sched_inv te A (c, k', h, T) (W(pxCurrentTCB k \<mapsto> Slp (unat n)))"
    by (rule sysI_same [OF inv F(6) k'(2) _ k'(3)]) (use F t(2) k'(4) in auto)
  then show ?thesis using k'(1) False by (intro on_kernel_sim [where f = "vTaskDelay n" and k' = k']) simp_all
qed

lemma sim_suspend:
  assumes inv: "sched_inv te A (c, k, h, T) W" and en: "enabled (Suspend t) (c, k, h, T)"
  shows "simulates te A (Suspend t) (c, k, h, T) W"
proof -
  let ?t = "prvGetTCBFromHandle t k"
  have t: "task_code k" "?t \<in> T" "?t \<noteq> xIdleTaskHandle k" using en by simp_all
  obtain F where F: "kinv k F T W" "dom W = T" "runs_top k W" "kquiet k" "W (xIdleTaskHandle k) = Some Rdy" "xSchedulerRunning k"
    by (rule callD [OF inv t(1)])
  obtain pl where pl: "W ?t = Some pl" using t(2) F(2) by auto
  obtain k' F' where k': "vTaskSuspend t k = Inr k'" "kinv k' F' T (W(?t \<mapsto> Ssp))" "krest k k'" "pendSV k' \<or> runs_top k' (W(?t \<mapsto> Ssp))"
    by (rule kinv_vTaskSuspend [OF F(1,4,6) refl pl F(3)])
  have "sched_inv te A (c, k', h, T) (W(?t \<mapsto> Ssp))" by (rule sysI_same [OF inv F(6) k'(2) _ k'(3,4)]) (use F t in auto)
  then show ?thesis using k'(1) by (intro on_kernel_sim [where f = "vTaskSuspend t" and k' = k']) simp_all
qed

lemma sim_resume:
  assumes inv: "sched_inv te A (c, k, h, T) W" and en: "enabled (Resume t) (c, k, h, T)"
  shows "simulates te A (Resume t) (c, k, h, T) W"
proof -
  have t: "task_code k" "t \<in> T" using en by simp_all
  obtain F where F: "kinv k F T W" "dom W = T" "runs_top k W" "W (xIdleTaskHandle k) = Some Rdy" "xSchedulerRunning k" by (rule callD [OF inv t(1)])
  obtain pl where pl: "W t = Some pl" using t(2) F(2) by auto
  let ?W = "if pl = Ssp \<and> t \<noteq> pxCurrentTCB k then W(t \<mapsto> Rdy) else W"
  obtain k' F' where k': "vTaskResume t k = Inr k'" "kinv k' F' T ?W" "krest k k'" "pendSV k' \<or> runs_top k' ?W" by (rule kinv_vTaskResume [OF F(1) pl F(3)])
  have "sched_inv te A (c, k', h, T) ?W" by (rule sysI_same [OF inv F(5) k'(2) _ k'(3,4)]) (use F t in auto)
  then show ?thesis using k'(1) pl by (intro on_kernel_sim [where f = "vTaskResume t" and k' = k']) simp_all
qed

lemma sim_priority:
  assumes inv: "sched_inv te A (c, k, h, T) W" and en: "enabled (PrioritySet t p) (c, k, h, T)"
  shows "simulates te A (PrioritySet t p) (c, k, h, T) W"
proof -
  let ?t = "prvGetTCBFromHandle t k"
  have t: "task_code k" "?t \<in> T" "p < 8" using en by simp_all
  obtain F where F: "kinv k F T W" "dom W = T" "runs_top k W" "W (xIdleTaskHandle k) = Some Rdy" "xSchedulerRunning k" by (rule callD [OF inv t(1)])
  obtain pl where pl: "W ?t = Some pl" using t(2) F(2) by auto
  obtain k' F' where k': "vTaskPrioritySet t p k = Inr k'" "kinv k' F' T W" "krest k k'" "pendSV k' \<or> runs_top k' W"
    by (rule kinv_vTaskPrioritySet [OF F(1) refl pl t(3) F(3)])
  have "sched_inv te A (c, k', h, T) W" by (rule sysI_same [OF inv F(5) k'(2) F(2) k'(3,4) F(4)])
  then show ?thesis using k'(1) by (intro on_kernel_sim [where f = "vTaskPrioritySet t p" and k' = k']) simp_all
qed

lemma sim_notify:
  assumes inv: "sched_inv te A (c, k, h, T) W" and en: "enabled (Notify t v a) (c, k, h, T)"
  shows "simulates te A (Notify t v a) (c, k, h, T) W"
proof -
  have t: "task_code k" "t \<in> T" using en by simp_all
  obtain F where F: "kinv k F T W" "dom W = T" "runs_top k W" "W (xIdleTaskHandle k) = Some Rdy" "xSchedulerRunning k" by (rule callD [OF inv t(1)])
  obtain pl where pl: "W t = Some pl" using t(2) F(2) by auto
  let ?W = "if ucNotifyState (tcb k t) = taskWAITING_NOTIFICATION then W(t \<mapsto> Rdy) else W"
  obtain k' F' ok where k': "xTaskGenericNotify t 0 v a k = Inr (k', ulNotifiedValue (tcb k t), ok)" "kinv k' F' T ?W" "krest k k'" "pendSV k' \<or> runs_top k' ?W"
    by (rule kinv_xTaskGenericNotify [OF F(1) pl F(3)])
  have "sched_inv te A (c, k', h, T) ?W" by (rule sysI_same [OF inv F(5) k'(2) _ k'(3,4)]) (use F t in auto)
  then show ?thesis using k'(1)
    by (intro on_kernel_sim [where f = "\<lambda>k. rbind (xTaskGenericNotify t 0 v a k) (\<lambda>(k1, _). Inr k1)" and k' = k']) simp_all
qed

lemma sim_block:
  assumes inv: "sched_inv te A (c, k, h, T) W" and t: "task_code k" "pxCurrentTCB k \<noteq> xIdleTaskHandle k"
    and k1: "kinv k1 F T W = kinv k F T W" "krest k k1" "\<And>u. prio k1 u = prio k u" "kinv k F T W"
  obtains k' where "notify_block n k1 = Inr k'" "sched_inv te A (c, k', h, T) (blocked (pxCurrentTCB k) n W)"
proof -
  obtain G where G: "dom W = T" "pxCurrentTCB k \<in> T" "runs_top k W" "W (xIdleTaskHandle k) = Some Rdy" "xSchedulerRunning k" "W (pxCurrentTCB k) = Some Rdy"
    by (rule callD [OF inv t(1)])
  have c1: "pxCurrentTCB k1 = pxCurrentTCB k" using k1(2) by (simp add: krest_def)
  have i1: "kinv k1 F T W" and w1: "W (pxCurrentTCB k1) = Some Rdy" using k1(1,4) G(6) c1 by simp_all
  obtain k' F' where k': "notify_block n k1 = Inr k'"
    "kinv k' F' T (if n = 0 then W else if n = portMAX_DELAY then W(pxCurrentTCB k1 \<mapsto> Ssp) else W(pxCurrentTCB k1 \<mapsto> Slp (unat n)))"
    "krest k1 k'" "n \<noteq> 0 \<Longrightarrow> pendSV k'" "n = 0 \<Longrightarrow> k' = k1" by (rule kinv_notify_block [OF i1 w1, of n]) blast
  have kb: "kinv k' F' T (blocked (pxCurrentTCB k) n W)" using k'(2) unfolding blocked_def c1 .
  have "runs_top k1 W" using G(3) by (simp add: runs_top_def c1 k1(3))
  then have top: "pendSV k' \<or> runs_top k' (blocked (pxCurrentTCB k) n W)" using k'(4,5) by (cases "n = 0") (simp_all add: blocked_def)
  have "sched_inv te A (c, k', h, T) (blocked (pxCurrentTCB k) n W)"
    by (rule sysI_same [OF inv G(5) kb _ krest_trans [OF k1(2) k'(3)] top]) (use G(1,2,4) t(2) in \<open>auto simp: blocked_def\<close>)
  then show ?thesis using that k'(1) by blast
qed

lemma sim_quiet:
  assumes inv: "sched_inv te A (c, k, h, T) W" and t: "task_code k" and k1: "\<And>F. kinv k1 F T W = kinv k F T W" "krest k k1" "\<And>u. prio k1 u = prio k u"
  shows "sched_inv te A (c, k1, h, T) W"
proof -
  obtain F where F: "kinv k F T W" "dom W = T" "runs_top k W" "W (xIdleTaskHandle k) = Some Rdy" "xSchedulerRunning k" by (rule callD [OF inv t(1)])
  have "pxCurrentTCB k1 = pxCurrentTCB k" using k1(2) by (simp add: krest_def)
  then have "runs_top k1 W" using F(3) by (simp add: runs_top_def k1(3))
  then show ?thesis using sysI_same [OF inv F(5) _ F(2) k1(2) _ F(4), of F] F(1) k1(1) by simp
qed

lemma tcb_notify:
  assumes "\<And>b. uxPriority (f b) = uxPriority b" "\<And>b. pcTaskName (f b) = pcTaskName b"
  shows "kinv (upd_tcb t f k) F T W = kinv k F T W" "krest k (upd_tcb t f k)" "prio (upd_tcb t f k) u = prio k u"
proof -
  show "kinv (upd_tcb t f k) F T W = kinv k F T W" by (rule kinv_tcb) (fact assms(1))
  show "krest k (upd_tcb t f k)" by (rule krest_tcb) (fact assms(2))
qed (simp add: assms upd_tcb_def)

lemma sim_take:
  assumes inv: "sched_inv te A (c, k, h, T) W" and en: "enabled (NotifyTake n) (c, k, h, T)"
  shows "simulates te A (NotifyTake n) (c, k, h, T) W"
proof -
  let ?c = "pxCurrentTCB k"
  have t: "task_code k" "?c \<noteq> xIdleTaskHandle k" using en by simp_all
  obtain F where F: "kinv k F T W" by (rule callD [OF inv t(1)])
  show ?thesis
  proof (cases "ulNotifiedValue (tcb k ?c) = 0")
    case False
    then show ?thesis using inv by (intro on_kernel_sim [where f = "ulTaskGenericNotifyTake_enter 0 n" and k' = k])
        (simp_all add: ulTaskGenericNotifyTake_enter_def Let_def)
  next
    case True
    let ?k1 = "upd_tcb ?c (\<lambda>b. b\<lparr>ucNotifyState := taskWAITING_NOTIFICATION\<rparr>) k"
    obtain k' where k': "notify_block n ?k1 = Inr k'" "sched_inv te A (c, k', h, T) (blocked ?c n W)"
      by (rule sim_block [OF inv t _ _ _ F, of ?k1]) (simp_all add: tcb_notify)
    then show ?thesis using True by (intro on_kernel_sim [where f = "ulTaskGenericNotifyTake_enter 0 n" and k' = k'])
        (simp_all add: ulTaskGenericNotifyTake_enter_def Let_def)
  qed
qed

lemma sim_wait:
  assumes inv: "sched_inv te A (c, k, h, T) W" and en: "enabled (NotifyWait b n) (c, k, h, T)"
  shows "simulates te A (NotifyWait b n) (c, k, h, T) W"
proof -
  let ?c = "pxCurrentTCB k"
  have t: "task_code k" "?c \<noteq> xIdleTaskHandle k" using en by simp_all
  obtain F where F: "kinv k F T W" by (rule callD [OF inv t(1)])
  show ?thesis
  proof (cases "ucNotifyState (tcb k ?c) = taskNOTIFICATION_RECEIVED")
    case True
    then show ?thesis using inv by (intro on_kernel_sim [where f = "xTaskGenericNotifyWait_enter 0 b n" and k' = k])
        (simp_all add: xTaskGenericNotifyWait_enter_def Let_def)
  next
    case False
    let ?k1 = "set_notify ?c (ulNotifiedValue (tcb k ?c) AND NOT b) taskWAITING_NOTIFICATION k"
    obtain k' where k': "notify_block n ?k1 = Inr k'" "sched_inv te A (c, k', h, T) (blocked ?c n W)"
      by (rule sim_block [OF inv t _ _ _ F, of ?k1]) (simp_all add: krest_set_notify)
    then show ?thesis using False by (intro on_kernel_sim [where f = "xTaskGenericNotifyWait_enter 0 b n" and k' = k'])
        (simp_all add: xTaskGenericNotifyWait_enter_def Let_def)
  qed
qed

lemma sim_taken:
  assumes inv: "sched_inv te A (c, k, h, T) W" and en: "enabled (NotifyTaken b) (c, k, h, T)"
  shows "simulates te A (NotifyTaken b) (c, k, h, T) W"
proof -
  have "sched_inv te A (c, fst (ulTaskGenericNotifyTake_exit b k), h, T) W" unfolding ulTaskGenericNotifyTake_exit_def Let_def fst_conv
    by (rule sim_quiet [OF inv]) (use en in \<open>simp_all add: krest_set_notify\<close>)
  then show ?thesis by (intro on_kernel_sim [where f = "\<lambda>k. Inr (fst (ulTaskGenericNotifyTake_exit b k))"]) simp_all
qed

lemma sim_waited:
  assumes inv: "sched_inv te A (c, k, h, T) W" and en: "enabled (NotifyWaited b) (c, k, h, T)"
  shows "simulates te A (NotifyWaited b) (c, k, h, T) W"
proof -
  have "sched_inv te A (c, fst (xTaskGenericNotifyWait_exit b k), h, T) W" unfolding xTaskGenericNotifyWait_exit_def Let_def fst_conv
    by (rule sim_quiet [OF inv]) (use en in \<open>simp_all add: krest_set_notify\<close>)
  then show ?thesis by (intro on_kernel_sim [where f = "\<lambda>k. Inr (fst (xTaskGenericNotifyWait_exit b k))"]) simp_all
qed

lemmas sim_steps = sim_create sim_tick sim_switch sim_yield sim_delay sim_suspend sim_resume sim_priority sim_notify sim_take sim_wait sim_taken sim_waited

text \<open>The one step that may stop: the start of the scheduler when memory is short.\<close>

definition may_stop :: "timer_env \<Rightarrow> sched_op \<Rightarrow> 'a sys \<Rightarrow> bool" where
  "may_stop te op s \<longleftrightarrow> op = Start \<and> \<not> serves (te_xStart te) (te_ucHeap te) start_requests (fst (snd (snd s)))"

lemma step_simulates:
  assumes inv: "sched_inv te A s W" and en: "enabled op s"
  shows "simulates te A op s W \<or> may_stop te op s \<and> exec te op s = Inl DevAssertFailed"
proof -
  obtain c k h T where s: "s = (c, k, h, T)" by (metis prod_cases4)
  note i = inv [unfolded s] and e = en [unfolded s]
  show ?thesis
  proof (cases "op = Start")
    case True
    have "enabled Start (c, k, h, T)" using e unfolding True .
    from sim_start [OF i this] show ?thesis unfolding may_stop_def s True by auto
  next
    case False
    have "simulates te A op (c, k, h, T) W" using i e False by (cases op) (blast dest: sim_steps)+
    then show ?thesis unfolding s ..
  qed
qed

end
