(* ===== verification/Sched_System.thy ===== *)
theory Sched_System
  imports Sched_Steps
begin

text \<open>
  The scheduler from \<open>main\<close> on: whole runs of the system, what can be seen of the places of the tasks in the lists
  of the kernel, that the task running outside a pending switch is one of the highest ready priority, that tasks of equal priority
  take turns, and that a delayed task sleeps for exactly the ticks it asked for. A concrete start shows that such runs exist.
\<close>

interpretation sched: step_system "exec te" enabled "sched_inv te A" effect "may_stop te"
  for te :: timer_env and A :: "u32 set"
  by unfold_locales (use step_simulates in \<open>unfold simulates_def, blast\<close>)

section \<open>What can be seen in the kernel\<close>

definition observed :: "'a kernel_scheme \<Rightarrow> u32 \<Rightarrow> place option" where
  "observed k t =
    (let L = cont k (st t); v = unat (val k (st t)); now = unat (xTickCount k)
     in if L = pxDelayedTaskList k then Some (Slp (v - now))
        else if L = pxOverflowDelayedTaskList k then Some (Slp (v + 2 ^ 32 - now))
        else if L = xSuspendedTaskList k then Some Ssp
        else if L = ready_list (uxPriority (tcb k t)) k then Some Rdy else None)"

definition runs_highest :: "'a kernel_scheme \<Rightarrow> bool" where
  "runs_highest k \<longleftrightarrow> observed k (pxCurrentTCB k) = Some Rdy \<and> (\<forall>p < 8. cur_prio k < p \<longrightarrow> listLIST_IS_EMPTY (ready_list p k) k)"

lemma observed_place:
  assumes inv: "kinv k F T W" and t: "W t = Some pl"
  shows "observed k t = Some pl"
proof -
  note K = kinvD [OF inv] and P = placedD [OF kinvD(6) [OF inv]] and Q = lists_placedD [OF kinvD(4) [OF inv]]
  note SC = K(2) [unfolded sched_core_def]
  have tT: "t \<in> T" by (rule K(9) [OF t])
  have p8: "prio k t < 8" using task_okD(3) [OF K(7) [OF tT]] .
  have c: "cont k (st t) = L" if "F L = Some (lst F L)" "st t \<in> set (lst F L)" for L
    using lists_okD [of k F L "lst F L"] K(3) that by (simp add: list_at_def Let_def)
  have ne: "pxDelayedTaskList k \<noteq> pxOverflowDelayedTaskList k" "pxDelayedTaskList k \<noteq> xSuspendedTaskList k" "pxOverflowDelayedTaskList k \<noteq> xSuspendedTaskList k"
    "ready_list (prio k t) k \<noteq> pxDelayedTaskList k" "ready_list (prio k t) k \<noteq> pxOverflowDelayedTaskList k" "ready_list (prio k t) k \<noteq> xSuspendedTaskList k"
    using SC p8 Q(3,4) in_own by metis+
  show ?thesis
  proof (cases pl)
    case Rdy
    then show ?thesis using place_container(2) [OF inv tT] t ne by (simp add: observed_def Let_def)
  next
    case Ssp
    then show ?thesis using place_container(1) [OF inv tT] t ne by (simp add: observed_def Let_def)
  next
    case (Slp n)
    then have s: "sleeping k F (st t) = Some n" using P(3) t by simp
    show ?thesis
    proof (cases "st t \<in> set (lst F (pxDelayedTaskList k))")
      case True
      then show ?thesis using s c [OF Q(1), of "pxDelayedTaskList k"] Slp by (simp add: observed_def sleeping_def Let_def)
    next
      case False
      then have "st t \<in> set (lst F (pxOverflowDelayedTaskList k))" using s by (auto simp: sleeping_def split: if_splits)
      then show ?thesis using False s c [OF Q(1), of "pxOverflowDelayedTaskList k"] Slp ne(1) by (simp add: observed_def sleeping_def Let_def)
    qed
  qed
qed

lemma runs_top_highest:
  assumes inv: "kinv k F T W" and top: "runs_top k W"
  shows "runs_highest k"
proof -
  note K = kinvD [OF inv] and P = placedD [OF kinvD(6) [OF inv]] and Q = lists_placedD [OF kinvD(4) [OF inv]]
  have "listLIST_IS_EMPTY (ready_list p k) k" if p: "p < 8" "cur_prio k < p" for p
  proof -
    have "lst F (ready_list p k) = []"
    proof (rule ccontr)
      assume "lst F (ready_list p k) \<noteq> []"
      then obtain x where x: "x \<in> set (lst F (ready_list p k))" by (meson last_in_set)
      obtain u where u: "x = st u" by (rule st_surj)
      have "W u = Some Rdy" "prio k u = p" using P(1) [OF p(1), of u] x u by simp_all
      then have "p \<le> cur_prio k" using top by (auto simp: runs_top_def)
      then show False using p(2) by (meson not_le)
    qed
    then have "F (ready_list p k) = Some []" using Q(1) [of "ready_list p k"] p(1) by simp
    then show ?thesis by (rule list_empty [OF K(3)])
  qed
  moreover have "observed k (pxCurrentTCB k) = Some Rdy" using observed_place [OF inv] top by (simp add: runs_top_def)
  ultimately show ?thesis by (simp add: runs_highest_def)
qed

lemma sys_highest:
  assumes "sched_inv te A (c, k, h, T) W" "task_code k"
  shows "runs_highest k"
proof -
  obtain F where "kinv k F T W" "runs_top k W" by (rule callD [OF assms])
  then show ?thesis by (rule runs_top_highest)
qed

lemma sys_observed:
  assumes "sched_inv te A (c, k, h, T) W" "W t = Some pl"
  shows "observed k t = Some pl"
proof -
  have "T \<noteq> {}" using assms by (auto simp: sched_inv_def phase_inv_def)
  then obtain F where "kinv k F T W" using assms(1) by (auto simp: sched_inv_def phase_inv_def ready_inv_def)
  then show ?thesis using assms(2) by (rule observed_place)
qed

text \<open>The state in which \<open>main\<close> finds the kernel and the heap.\<close>

definition boot_state :: "timer_env \<Rightarrow> 'a tkernel_scheme \<Rightarrow> heap4 \<Rightarrow> bool" where
  "boot_state te k h \<longleftrightarrow> heap_place (te_xStart te) (te_ucHeap te) \<and> pxEnd h = 0 \<and> static_apart (te_ucHeap te) (set (static_lists k)) \<and>
    tmr_static (te_ucHeap te) (set (static_lists k)) k \<and> boot_inv (set (static_lists k)) k \<and> kquiet k \<and> (\<forall>t. length (pcTaskName (tcb k t)) = 16)"

lemma boot_sys: "boot_state te k h \<Longrightarrow> sched_inv te (set (static_lists k)) (c, k, h, {}) Map.empty"
  by (auto simp: boot_state_def sched_inv_def phase_inv_def memory_ok_def heap_live_def task_blocks_def boot_inv_def)

text \<open>(C17) The scheduler is safe from start-up on: after any sequence of creations, the start, tick and switch interrupts,
  delays, suspensions, resumptions, priority changes and notifications, a task that runs with no switch pending is
  ready and no list of a higher priority holds a task; and whatever step comes next, it returns. The one exception is the start of
  the scheduler, whose assertion fails, and only when the heap cannot serve the requests for the idle task and the timer service.\<close>

theorem scheduler_safe:
  fixes k :: "'a tkernel_scheme"
  assumes boot: "boot_state te k h" and run: "runs (exec te) enabled (c, k, h, {}) ops (c', k', h', T)"
  shows "(xSchedulerRunning k' \<and> \<not> pendSV k' \<longrightarrow> runs_highest k') \<and>
    (enabled op (c', k', h', T) \<longrightarrow> (\<exists>s. exec te op (c', k', h', T) = Inr s) \<or>
      op = Start \<and> \<not> serves (te_xStart te) (te_ucHeap te) start_requests h' \<and> exec te op (c', k', h', T) = Inl DevAssertFailed)"
proof -
  have i: "sched_inv te (set (static_lists k)) (c, k, h, {}) Map.empty" by (rule boot_sys [OF boot])
  obtain W where W: "sched_inv te (set (static_lists k)) (c', k', h', T) W" using sched.runs_inv [OF run i] by blast
  have "runs_highest k'" if "xSchedulerRunning k' \<and> \<not> pendSV k'" using sys_highest [OF W] that by (simp add: task_code_def)
  moreover have "(\<exists>s. exec te op (c', k', h', T) = Inr s) \<or> may_stop te op (c', k', h', T) \<and> exec te op (c', k', h', T) = Inl DevAssertFailed"
    if "enabled op (c', k', h', T)" by (rule sched.runs_safe [OF run i that])
  ultimately show ?thesis unfolding may_stop_def by auto
qed

text \<open>The ready tasks of the highest priority among the tasks \<open>T\<close>.\<close>

definition top_tasks :: "'a kernel_scheme \<Rightarrow> u32 set \<Rightarrow> u32 set" where
  "top_tasks k T = {t \<in> T. observed k t = Some Rdy \<and> (\<forall>u \<in> T. observed k u = Some Rdy \<longrightarrow> prio k u \<le> prio k t)}"

lemma inv_round_robin:
  assumes inv: "kinv k F T W" and T: "dom W = T" and q: "kquiet k" and r: "W i = Some Rdy"
  shows "\<exists>ts. ts \<noteq> [] \<and> distinct ts \<and> set ts = top_tasks k T \<and>
    (\<forall>n. \<exists>k'. switch_run n k = Inr (k', map (\<lambda>i. ts ! (i mod length ts)) [0..<n]))"
proof -
  note K = kinvD [OF inv] and P = placedD [OF kinvD(6) [OF inv]] and Q = lists_placedD [OF kinvD(4) [OF inv]]
  have ob: "observed k t = Some Rdy \<longleftrightarrow> W t = Some Rdy" if m: "t \<in> T" for t
  proof -
    obtain pl where "W t = Some pl" using m T by blast
    with observed_place [OF inv this] show ?thesis by auto
  qed
  let ?R = "prio k ` {t. W t = Some Rdy}"
  have p8: "prio k t < 8" if "W t = Some Rdy" for t using task_okD(3) [OF K(7) [OF K(9) [OF that]]] .
  define p where "p = Max ?R"
  have R: "finite ?R" "?R \<noteq> {}" using r by auto
  then have "p \<in> ?R" unfolding p_def by (rule Max_in)
  then obtain t0 where t0: "W t0 = Some Rdy" "prio k t0 = p" by auto
  have max: "prio k t \<le> p" if "W t = Some Rdy" for t unfolding p_def using R(1) that by (intro Max_ge) auto
  have pl: "p < 8" using p8 [OF t0(1)] t0(2) by simp
  let ?L = "ready_list p k"
  let ?xs = "lst F ?L"
  have mem: "st t \<in> set (lst F (ready_list s k)) \<longleftrightarrow> W t = Some Rdy \<and> prio k t = s" if "s < 8" for t s using P(1) [OF that] .
  have top: "top_ready k F p"
    unfolding top_ready_def
  proof (intro conjI allI impI)
    show "?xs \<noteq> []" using mem [OF pl, of t0] t0 by auto
    fix s assume s: "p < s \<and> s < 8"
    show "lst F (ready_list s k) = []"
    proof (rule ccontr)
      assume "lst F (ready_list s k) \<noteq> []"
      then obtain x where x: "x \<in> set (lst F (ready_list s k))" by (meson last_in_set)
      obtain u where u: "x = st u" by (rule st_surj)
      then have "W u = Some Rdy" "prio k u = s" using mem [of s u] s x by simp_all
      then show False using max [of u] s by (meson leD)
    qed
  qed (fact pl)
  have LF: "F ?L = Some ?xs" using Q(1) [of ?L] pl by simp
  have d: "distinct ?xs" using lists_okD [of k F ?L ?xs] K(3) LF by (simp add: list_at_def Let_def)
  let ?T = "turn_order k ?L ?xs"
  let ?ts = "map (owner k) ?T"
  have own: "owner k (st t) = t" if "W t = Some Rdy" for t using task_okD(2) [OF K(7) [OF K(9) [OF that]]] .
  have st: "\<exists>t. x = st t \<and> W t = Some Rdy \<and> prio k t = p" if "x \<in> set ?xs" for x
    using that mem [OF pl] by (metis st_surj)
  have "inj_on (owner k) (set ?xs)"
    by (rule inj_onI) (metis st own)
  then have "distinct ?ts" using d by (simp add: distinct_map distinct_turns)
  moreover have "set ?ts = top_tasks k T"
  proof (intro set_eqI iffI)
    fix t assume "t \<in> set ?ts"
    then obtain x where "x \<in> set ?xs" "t = owner k x" by auto
    then have t: "W t = Some Rdy" "prio k t = p" using st own by metis+
    then show "t \<in> top_tasks k T" using ob max K(9) [OF t(1)] by (auto simp: top_tasks_def)
  next
    fix t assume "t \<in> top_tasks k T"
    then have t: "t \<in> T" "W t = Some Rdy" "\<forall>u \<in> T. observed k u = Some Rdy \<longrightarrow> prio k u \<le> prio k t" using ob by (auto simp: top_tasks_def)
    have "p \<le> prio k t" using t(3) t0 ob K(9) [OF t0(1)] by auto
    then have "prio k t = p" using max [OF t(2)] by simp
    then have "st t \<in> set ?xs" using mem [OF pl] t(2) by simp
    then have "owner k (st t) \<in> owner k ` set ?xs" by (rule imageI)
    then show "t \<in> set ?ts" unfolding set_map set_turns using own [OF t(2)] by simp
  qed
  moreover have "?ts \<noteq> []" using top by (metis length_turns length_0_conv map_is_Nil_conv top_ready_def)
  moreover have "\<exists>k'. switch_run n k = Inr (k', map (\<lambda>i. ?ts ! (i mod length ?ts)) [0..<n])" for n
  proof -
    have "0 < length ?xs" using top by (simp add: top_ready_def)
    then have e: "map (\<lambda>i. ?ts ! (i mod length ?ts)) [0..<n] = map (\<lambda>i. owner k (?T ! (i mod length ?xs))) [0..<n]" by simp
    have "uxSchedulerSuspended k = 0" using q by (simp add: kquiet_def)
    from switch_run_turns [OF K(1) this top refl, of n] show ?thesis unfolding e by blast
  qed
  ultimately show ?thesis by blast
qed

text \<open>(C18) Tasks of equal priority take turns. In every state that a run of the system reaches with the scheduler running, there is
  an order of the ready tasks of the highest priority, each in it once, such that any number of consecutive context
  switches return and select the tasks in this order, round and round.\<close>

theorem round_robin:
  fixes k :: "'a tkernel_scheme"
  assumes "boot_state te k h" "runs (exec te) enabled (c, k, h, {}) ops (c', k', h', T)" "xSchedulerRunning k'"
  shows "\<exists>ts. ts \<noteq> [] \<and> distinct ts \<and> set ts = top_tasks k' T \<and>
    (\<forall>n. \<exists>k2. switch_run n k' = Inr (k2, map (\<lambda>i. ts ! (i mod length ts)) [0..<n]))"
proof -
  obtain W where W: "sched_inv te (set (static_lists k)) (c', k', h', T) W"
    using sched.runs_inv [OF assms(2) boot_sys [OF assms(1)]] by blast
  obtain F where "kinv k' F T W" "dom W = T" "kquiet k'" "W (xIdleTaskHandle k') = Some Rdy" by (rule sysD [OF W assms(3)])
  then show ?thesis by (rule inv_round_robin)
qed

section \<open>Delays\<close>

fun ticks :: "sched_op list \<Rightarrow> nat" where
  "ticks [] = 0"
| "ticks (Tick # ops) = Suc (ticks ops)"
| "ticks (_ # ops) = ticks ops"

lemma ticks_snoc [simp]: "ticks (ops @ [op]) = ticks ops + (if op = Tick then 1 else 0)"
  by (induction ops rule: ticks.induct) (cases op; simp)+

text \<open>Steps that do not end the sleep of task \<open>t\<close> from outside.\<close>

fun lets_sleep :: "u32 \<Rightarrow> sched_op \<Rightarrow> bool" where
  "lets_sleep t (Suspend u) \<longleftrightarrow> u \<noteq> t"
| "lets_sleep t (Notify u v a) \<longleftrightarrow> u \<noteq> t"
| "lets_sleep t _ \<longleftrightarrow> True"

lemma sleeps_on:
  assumes inv: "sched_inv te A s W" and en: "enabled op s" and ex: "exec te op s = Inr s'" and l: "lets_sleep t op" and W: "W t = Some (Slp m)"
  shows "effect op s s' W t = (if op = Tick then tick_place (Some (Slp m)) else Some (Slp m))"
proof -
  obtain c k h T c' k' h' T' where s: "s = (c, k, h, T)" "s' = (c', k', h', T')" by (metis prod_cases4)
  have "T \<noteq> {}" using inv W unfolding s by (auto simp: sched_inv_def phase_inv_def)
  then have "dom W = T" using inv unfolding s by (auto simp: sched_inv_def phase_inv_def ready_inv_def)
  then have tT: "t \<in> T" using W by auto
  have cu: "pxCurrentTCB k \<noteq> t" if "task_code k"
  proof -
    have "W (pxCurrentTCB k) = Some Rdy" by (rule callD [OF inv [unfolded s] that])
    then show ?thesis using W by auto
  qed
  have g: "prvGetTCBFromHandle u k \<noteq> t" if "task_code k" "u \<noteq> t" for u using cu [OF that(1)] that(2) by (simp add: prvGetTCBFromHandle_def)
  have bl: "blocked (pxCurrentTCB k) n W t = Some (Slp m)" if "task_code k" for n using cu [OF that] W by (simp add: blocked_def)
  show ?thesis
  proof (cases op)
    case (Delay n)
    then show ?thesis using en W cu by (simp add: s)
  next
    case (Suspend u)
    then show ?thesis using en l W g [of u] by (simp add: s)
  next
    case (Resume u)
    then show ?thesis using W by (auto simp: s)
  next
    case (Notify u v a)
    then show ?thesis using l W by (simp add: s)
  next
    case (NotifyTake n)
    then show ?thesis using en W bl by (simp add: s)
  next
    case (NotifyWait b n)
    then show ?thesis using en W bl by (simp add: s)
  qed (use W tT in \<open>simp_all add: s\<close>)
qed

lemma sleeper_running:
  assumes "sched_inv te A (c, k, h, T) W" "W t = Some (Slp m)"
  shows "xSchedulerRunning k"
proof -
  have "T \<noteq> {}" using assms by (auto simp: sched_inv_def phase_inv_def)
  then have "dom W = T" using assms(1) by (auto simp: sched_inv_def phase_inv_def ready_inv_def)
  then have "t \<in> T" using assms(2) by auto
  then show ?thesis using assms by (auto simp: sched_inv_def split: if_splits)
qed

text \<open>(C19) A delay is exact: \<open>vTaskDelay n\<close> puts the caller to sleep, and as long as it is neither suspended nor notified,
  whatever else runs, after j < n ticks the lists of the kernel show it sleeping for n - j more ticks, and the n-th tick interrupt
  returns and makes it ready, also when the tick counter wraps around on the way.\<close>

theorem delay_wakes_on_time:
  fixes k :: "'a tkernel_scheme"
  assumes boot: "boot_state te k h" and run: "runs (exec te) enabled (c, k, h, {}) ops (c1, k1, h1, T1)"
    and d: "enabled (Delay n) (c1, k1, h1, T1)" "n \<noteq> 0" "exec te (Delay n) (c1, k1, h1, T1) = Inr s2"
    and after: "runs (exec te) enabled s2 ops' (c3, k3, h3, T3)" "\<forall>op \<in> set ops'. lets_sleep (pxCurrentTCB k1) op"
    and early: "ticks ops' < unat n"
  shows "observed k3 (pxCurrentTCB k1) = Some (Slp (unat n - ticks ops')) \<and>
    (ticks ops' + 1 = unat n \<longrightarrow> (\<exists>k4. exec te Tick (c3, k3, h3, T3) = Inr (c3, k4, h3, T3) \<and> observed k4 (pxCurrentTCB k1) = Some Rdy))"
proof -
  let ?t = "pxCurrentTCB k1" and ?A = "set (static_lists k)"
  have i0: "sched_inv te ?A (c, k, h, {}) Map.empty" by (rule boot_sys [OF boot])
  obtain W where W: "sched_inv te ?A (c1, k1, h1, T1) W" using sched.runs_inv [OF run i0] by blast
  define Q where "Q xs w \<longleftrightarrow> (ticks xs < unat n \<longrightarrow> w ?t = Some (Slp (unat n - ticks xs)))" for xs and w :: "u32 \<rightharpoonup> place"
  have i2: "sched_inv te ?A s2 (W(?t \<mapsto> Slp (unat n)))" using sched.step_inv [OF W d(1,3)] d(2) by simp
  have "\<exists>w'. sched_inv te ?A (c3, k3, h3, T3) w' \<and> Q ops' w'"
  proof (rule sched.runs_track [OF after(1) i2])
    show "Q [] (W(?t \<mapsto> Slp (unat n)))" by (simp add: Q_def)
  next
    fix xs op s s' v
    assume a: "sched_inv te ?A s v" "Q xs v" "enabled op s" "exec te op s = Inr s'" "op \<in> set ops'"
    show "Q (xs @ [op]) (effect op s s' v)" unfolding Q_def
    proof
      assume l: "ticks (xs @ [op]) < unat n"
      then have v: "v ?t = Some (Slp (unat n - ticks xs))" using a(2) by (simp add: Q_def)
      have "lets_sleep ?t op" using a(5) after(2) by blast
      from sleeps_on [OF a(1,3,4) this v] show "effect op s s' v ?t = Some (Slp (unat n - ticks (xs @ [op])))" using l by (cases "op = Tick") auto
    qed
  qed
  then obtain w where w: "sched_inv te ?A (c3, k3, h3, T3) w" "w ?t = Some (Slp (unat n - ticks ops'))" using early by (auto simp: Q_def)
  have "\<exists>k4. exec te Tick (c3, k3, h3, T3) = Inr (c3, k4, h3, T3) \<and> observed k4 ?t = Some Rdy" if l: "ticks ops' + 1 = unat n"
  proof -
    have "xSchedulerRunning k3" by (rule sleeper_running [OF w])
    then have "simulates te ?A Tick (c3, k3, h3, T3) w" by (intro sim_tick [OF w(1)]) simp
    then obtain s4 where s4: "exec te Tick (c3, k3, h3, T3) = Inr s4" "sched_inv te ?A s4 (tick_place \<circ> w)" by (auto simp: simulates_def)
    then obtain k4 where k4: "s4 = (c3, k4, h3, T3)" by (auto simp: on_kernel_def rbind_Inr_iff)
    have "(tick_place \<circ> w) ?t = Some Rdy" using w(2) l by simp
    from sys_observed [OF s4(2) [unfolded k4] this] show ?thesis using s4(1) k4 by blast
  qed
  then show ?thesis using sys_observed [OF w] by blast
qed

section \<open>A concrete start\<close>

definition boot_env :: timer_env where
  "boot_env = \<lparr>te_xStart = 0x90, te_ucHeap = 0x1000, te_TmrQ = 0xA0, te_exitError = 0x20000, te_prvTimerTask = 0x21000, te_prvIdleTask = 0x22000\<rparr>"

definition boot_cpu :: cpu where
  "boot_cpu = \<lparr>r4_r11 = replicate 8 0, r14 = 0, s16_s31 = replicate 16 0, psp = 0\<rparr>"

lemma boot_static: "static_lists boot_kernel = [0x100, 0x114, 0x128, 0x13C, 0x150, 0x164, 0x178, 0x18C, 0x260, 0x280, 0x200, 0x240, 0x220]"
  by (simp add: static_lists_def ready_list_def boot_kernel_def upt_rec)

lemma boot_boots: "boot_state boot_env boot_kernel heap_boot"
proof -
  have s: "static_apart 0x1000 S \<longleftrightarrow> (\<forall>L \<in> S. unat L + 20 \<le> 4096 \<or> 69624 \<le> unat L \<and> unat L + 20 \<le> 2 ^ 32)" for S
    by (simp add: static_apart_def heap_base_def heap_size_def)
  have "static_apart 0x1000 (set (static_lists boot_kernel))" unfolding s boot_static by simp
  moreover have "tmr_static 0x1000 (set (static_lists boot_kernel)) boot_kernel" unfolding tmr_static_def s boot_static by (simp add: boot_kernel_def)
  moreover have "boot_inv (set (static_lists boot_kernel)) boot_kernel" unfolding boot_inv_def statics_ok_def boot_static by (simp add: boot_kernel_def)
  moreover have "heap_place 0x90 0x1000" by (simp add: heap_place_def)
  ultimately show ?thesis by (simp add: boot_state_def boot_env_def heap_boot_def) (simp add: kquiet_def boot_kernel_def)
qed

lemma serves_cons:
  assumes rep: "heap_rep xStart base L h" and yes: "abs_request (unat n) L = Some (off, L')" and p: "of_nat (base + off + 8) \<noteq> (0 :: u32)"
    and rest: "\<And>h'. heap_rep xStart base L' h' \<Longrightarrow> serves xStart ucHeap ns h'"
  shows "serves xStart ucHeap (n # ns) h"
  by (rule malloc_succeeds [OF rep yes, of ucHeap]) (use p rest in auto)

lemma boot_serves: "serves 0x90 0x1000 start_requests heap_boot"
proof -
  have pl: "heap_place 0x90 0x1000" by (simp add: heap_place_def)
  have i: "heap_rep 0x90 0x1000 [(65528, False)] (prvHeapInit 0x90 0x1000 heap_boot)"
    using heap_init_rep(1) [OF pl, of heap_boot] by (simp add: heap_base_def heap_size_def)
  have r: "abs_request (unat (16384 :: u32)) [(65528, False)] = Some (0, [(16392, True), (49136, False)])"
    "abs_request (unat (92 :: u32)) [(16392, True), (49136, False)] = Some (16392, [(16392, True), (104, True), (49032, False)])"
    "abs_request (unat (232 :: u32)) [(16392, True), (104, True), (49032, False)] = Some (16496, [(16392, True), (104, True), (240, True), (48792, False)])"
    "abs_request (unat (720 :: u32)) [(16392, True), (104, True), (240, True), (48792, False)] =
      Some (16736, [(16392, True), (104, True), (240, True), (728, True), (48064, False)])"
    "abs_request (unat (92 :: u32)) [(16392, True), (104, True), (240, True), (728, True), (48064, False)] =
      Some (17464, [(16392, True), (104, True), (240, True), (728, True), (104, True), (47960, False)])"
    by (simp_all add: abs_request_def rounded_def)
  have "serves 0x90 0x1000 start_requests (prvHeapInit 0x90 0x1000 heap_boot)" unfolding start_requests_def
    by (simp del: serves.simps(2), rule serves_cons [OF i r(1)], simp, rule serves_cons [OF _ r(2)], assumption, simp,
        rule serves_cons [OF _ r(3)], assumption, simp, rule serves_cons [OF _ r(4)], assumption, simp, rule serves_cons [OF _ r(5)], assumption) simp_all
  moreover have "pxEnd heap_boot = 0" by (simp add: heap_boot_def)
  ultimately show ?thesis using malloc_first [OF _ pl] by (simp add: start_requests_def)
qed

abbreviation "boot_at \<equiv> (boot_cpu, boot_kernel, heap_boot, {} :: u32 set)"

lemma boot_start:
  obtains c k h T where "exec boot_env Start boot_at = Inr (c, k, h, T)" "xSchedulerRunning k" "\<not> pendSV k" "pxCurrentTCB k \<noteq> xIdleTaskHandle k"
    "sched_inv boot_env (set (static_lists boot_kernel)) (c, k, h, T) (\<lambda>t. if t \<in> T then Some Rdy else None)"
proof -
  have nr: "\<not> xSchedulerRunning boot_kernel" by (simp add: boot_kernel_def)
  have sv: "serves (te_xStart boot_env) (te_ucHeap boot_env) start_requests heap_boot" using boot_serves by (simp add: boot_env_def)
  show thesis by (rule start_sys [OF boot_sys [OF boot_boots, of boot_cpu] nr]) (use sv that in auto)
qed

lemma scheduler_safe_witness:
  "\<exists>c k h T s. runs (exec boot_env) enabled boot_at [Start] (c, k, h, T) \<and> runs_highest k \<and> exec boot_env (Delay 5) (c, k, h, T) = Inr s"
proof (rule boot_start)
  fix c k h T assume s: "exec boot_env Start boot_at = Inr (c, k, h, T)" "xSchedulerRunning k" "\<not> pendSV k" "pxCurrentTCB k \<noteq> xIdleTaskHandle k"
  have "enabled Start boot_at" by (simp add: boot_kernel_def)
  then have r: "runs (exec boot_env) enabled boot_at [Start] (c, k, h, T)" using s(1) by (rule runs_one)
  have "enabled (Delay 5) (c, k, h, T)" using s by (simp add: task_code_def)
  then show ?thesis using scheduler_safe [OF boot_boots r, of "Delay 5"] r s(2,3) by blast
qed

lemma delay_wakes_on_time_witness:
  "\<exists>c k1 h T s2 k3 k4. runs (exec boot_env) enabled boot_at [Start] (c, k1, h, T) \<and> exec boot_env (Delay 2) (c, k1, h, T) = Inr s2 \<and>
    runs (exec boot_env) enabled s2 [Tick] (c, k3, h, T) \<and> observed k3 (pxCurrentTCB k1) = Some (Slp 1) \<and>
    exec boot_env Tick (c, k3, h, T) = Inr (c, k4, h, T) \<and> observed k4 (pxCurrentTCB k1) = Some Rdy"
proof (rule boot_start)
  fix c k1 h T assume s: "exec boot_env Start boot_at = Inr (c, k1, h, T)" "xSchedulerRunning k1" "\<not> pendSV k1" "pxCurrentTCB k1 \<noteq> xIdleTaskHandle k1"
    and i: "sched_inv boot_env (set (static_lists boot_kernel)) (c, k1, h, T) (\<lambda>t. if t \<in> T then Some Rdy else None)"
  have "enabled Start boot_at" by (simp add: boot_kernel_def)
  then have r: "runs (exec boot_env) enabled boot_at [Start] (c, k1, h, T)" using s(1) by (rule runs_one)
  have e: "enabled (Delay 2) (c, k1, h, T)" using s by (simp add: task_code_def)
  obtain s2 W where s2: "exec boot_env (Delay 2) (c, k1, h, T) = Inr s2" "sched_inv boot_env (set (static_lists boot_kernel)) s2 W" "W (pxCurrentTCB k1) = Some (Slp 2)"
    using sim_delay [OF i e] by (auto simp: simulates_def)
  obtain k2 where k2: "s2 = (c, k2, h, T)" using s2(1) by (auto simp: on_kernel_def rbind_Inr_iff)
  have t: "enabled Tick s2" using sleeper_running [OF s2(2) [unfolded k2] s2(3)] k2 by simp
  obtain s3 where s3: "exec boot_env Tick s2 = Inr s3" using sim_tick [OF s2(2) [unfolded k2]] t unfolding k2 simulates_def by blast
  obtain k3 where k3: "s3 = (c, k3, h, T)" using s3 k2 by (auto simp: on_kernel_def rbind_Inr_iff)
  have r': "runs (exec boot_env) enabled s2 [Tick] (c, k3, h, T)" using runs_one [of enabled Tick s2 "exec boot_env" s3] t s3 k3 by simp
  have "observed k3 (pxCurrentTCB k1) = Some (Slp 1) \<and> (\<exists>k4. exec boot_env Tick (c, k3, h, T) = Inr (c, k4, h, T) \<and> observed k4 (pxCurrentTCB k1) = Some Rdy)"
    using delay_wakes_on_time [OF boot_boots r e _ s2(1) r'] by simp
  then show ?thesis using r r' s2(1) by blast
qed

lemma round_robin_witness:
  "\<exists>c k h T t k2. runs (exec boot_env) enabled boot_at [Start] (c, k, h, T) \<and> t \<in> top_tasks k T \<and> switch_run 1 k = Inr (k2, [t])"
proof (rule boot_start)
  fix c k h T assume s: "exec boot_env Start boot_at = Inr (c, k, h, T)" "xSchedulerRunning k"
  have "enabled Start boot_at" by (simp add: boot_kernel_def)
  then have r: "runs (exec boot_env) enabled boot_at [Start] (c, k, h, T)" using s(1) by (rule runs_one)
  obtain ts where ts: "ts \<noteq> []" "set ts = top_tasks k T"
    "\<forall>n. \<exists>k2. switch_run n k = Inr (k2, map (\<lambda>i. ts ! (i mod length ts)) [0..<n])"
    using round_robin [OF boot_boots r s(2)] by blast
  obtain k2 where "switch_run 1 k = Inr (k2, [ts ! 0])" using ts(3) [rule_format, of 1] by auto
  moreover have "ts ! 0 \<in> top_tasks k T" using ts(1,2) by (metis length_greater_0_conv nth_mem)
  ultimately show ?thesis using r by blast
qed

end
