(* ===== verification/Freertos_Queries.thy ===== *)
theory Freertos_Queries
  imports Freertos_Timers Freertos_Sched
begin

text \<open>
  What remains of \<open>tasks.c\<close> and \<open>queue.c\<close> in this configuration: clocks and counters, task names and the search for a
  task by its name, thread local storage, the unused part of a stack, states of queues and mutexes, the registry of
  queues and the deletion of a queue. The search walks a list with the index of its round robin, so it moves that index.
\<close>

section \<open>Tasks\<close>

definition xTaskGetTickCount :: "'a kernel_scheme \<Rightarrow> u32" where
  "xTaskGetTickCount k = xTickCount k"

definition xTaskGetTickCountFromISR :: "'a kernel_scheme \<Rightarrow> u32" where
  "xTaskGetTickCountFromISR k = xTickCount k"

definition uxTaskGetNumberOfTasks :: "'a kernel_scheme \<Rightarrow> u32" where
  "uxTaskGetNumberOfTasks k = uxCurrentNumberOfTasks k"

definition xTaskGetCurrentTaskHandle :: "'a kernel_scheme \<Rightarrow> u32" where
  "xTaskGetCurrentTaskHandle k = pxCurrentTCB k"

text \<open>The characters to which the result of \<open>pcTaskGetName\<close> points.\<close>

definition pcTaskGetName :: "u32 \<Rightarrow> 'a kernel_scheme \<Rightarrow> u8 list res" where
  "pcTaskGetName xTaskToQuery k =
    (let t = prvGetTCBFromHandle xTaskToQuery k in dev_assert (t \<noteq> NULL) (Inr (pcTaskName (tcb k t))))"

text \<open>An index below 0 passes the check of both functions and leaves the array.\<close>

definition vTaskSetThreadLocalStoragePointer :: "u32 \<Rightarrow> u32 \<Rightarrow> u32 \<Rightarrow> 'a kernel_scheme \<Rightarrow> 'a kernel_scheme res" where
  "vTaskSetThreadLocalStoragePointer xTaskToSet xIndex pvValue k =
    (if sint xIndex < 2
     then let t = prvGetTCBFromHandle xTaskToSet k
          in dev_assert (t \<noteq> NULL)
              (if 0 \<le> sint xIndex
               then Inr (upd_tcb t (\<lambda>b. b\<lparr>pvThreadLocalStoragePointers := (pvThreadLocalStoragePointers b)[unat xIndex := pvValue]\<rparr>) k)
               else Inl OutOfBounds)
     else Inr k)"

definition pvTaskGetThreadLocalStoragePointer :: "u32 \<Rightarrow> u32 \<Rightarrow> 'a kernel_scheme \<Rightarrow> u32 res" where
  "pvTaskGetThreadLocalStoragePointer xTaskToQuery xIndex k =
    (if sint xIndex < 2
     then if 0 \<le> sint xIndex then Inr (pvThreadLocalStoragePointers (tcb k (prvGetTCBFromHandle xTaskToQuery k)) ! unat xIndex)
          else Inl OutOfBounds
     else Inr NULL)"

lemma thread_local_roundtrip:
  assumes "i = 0 \<or> i = 1" "prvGetTCBFromHandle t k \<noteq> NULL" "length (pvThreadLocalStoragePointers (tcb k (prvGetTCBFromHandle t k))) = 2"
  obtains k' where "vTaskSetThreadLocalStoragePointer t i v k = Inr k'" "pvTaskGetThreadLocalStoragePointer t i k' = Inr v"
  using assms that
  by (auto simp: vTaskSetThreadLocalStoragePointer_def pvTaskGetThreadLocalStoragePointer_def upd_tcb_def prvGetTCBFromHandle_def Let_def)

text \<open>The free part of a stack is what still has the fill pattern. The loop has no bound of its own; after all addresses it would start again.\<close>

definition stack_byte :: "u32 \<Rightarrow> (u32 \<Rightarrow> u32) \<Rightarrow> u8" where
  "stack_byte a m = ucast (drop_bit (8 * unat (a AND 3)) (m (a AND NOT 3)))"

fun count_fill :: "nat \<Rightarrow> u32 \<Rightarrow> (u32 \<Rightarrow> u32) \<Rightarrow> u32 \<Rightarrow> u32 res" where
  "count_fill n a m ulCount =
    (if stack_byte a m = 0xA5 then case n of 0 \<Rightarrow> Inl NoExit | Suc j \<Rightarrow> count_fill j (a + 1) m (ulCount + 1) else Inr ulCount)"

declare count_fill.simps [simp del]

definition prvTaskCheckFreeStackSpace :: "u32 \<Rightarrow> 'a kernel_scheme \<Rightarrow> u16 res" where
  "prvTaskCheckFreeStackSpace pucStackByte k = rbind (count_fill (2 ^ 32) pucStackByte (stack_mem k) 0) (\<lambda>c. Inr (ucast (c div 4)))"

definition uxTaskGetStackHighWaterMark :: "u32 \<Rightarrow> 'a kernel_scheme \<Rightarrow> u32 res" where
  "uxTaskGetStackHighWaterMark xTask k =
    rbind (prvTaskCheckFreeStackSpace (pxStack (tcb k (prvGetTCBFromHandle xTask k))) k) (\<lambda>u. Inr (ucast u))"

lemma count_fill_exact:
  assumes "\<forall>i < n. stack_byte (a + of_nat i) m = 0xA5" "stack_byte (a + of_nat n) m \<noteq> 0xA5" "n \<le> f"
  shows "count_fill f a m c = Inr (c + of_nat n)"
  using assms
proof (induction n arbitrary: a c f)
  case 0
  then show ?case by (simp add: count_fill.simps)
next
  case (Suc n)
  then obtain g where g: "f = Suc g" "n \<le> g" by (cases f) auto
  have "\<forall>i < n. stack_byte (a + 1 + of_nat i) m = 0xA5" using Suc.prems(1) by (auto simp: add.assoc dest: spec [of _ "Suc _"])
  moreover have "stack_byte (a + 1 + of_nat n) m \<noteq> 0xA5" using Suc.prems(2) by (simp add: add.assoc)
  ultimately have "count_fill g (a + 1) m (c + 1) = Inr (c + 1 + of_nat n)" using Suc.IH g(2) by blast
  moreover have "stack_byte a m = 0xA5" using Suc.prems(1) by (auto dest: spec [of _ 0])
  ultimately show ?case using g(1) by (subst count_fill.simps) (simp add: algebra_simps)
qed

section \<open>Search by name\<close>

fun name_matches :: "nat \<Rightarrow> nat \<Rightarrow> u8 list \<Rightarrow> u8 list \<Rightarrow> bool res" where
  "name_matches 0 x name pcNameToQuery = Inr False"
| "name_matches (Suc n) x name pcNameToQuery =
    (if x < length name \<and> x < length pcNameToQuery
     then if name ! x \<noteq> pcNameToQuery ! x then Inr False
          else if name ! x = 0 then Inr True
          else name_matches n (Suc x) name pcNameToQuery
     else Inl OutOfBounds)"

text \<open>The loop over a list, which ends where it began; it has as many rounds as the list has items.\<close>

fun search_loop :: "nat \<Rightarrow> u32 \<Rightarrow> u32 \<Rightarrow> u8 list \<Rightarrow> 'a kernel_scheme \<Rightarrow> ('a kernel_scheme \<times> u32) res" where
  "search_loop n pxFirstTCB pxList pcNameToQuery k =
    (let (k1, t) = listGET_OWNER_OF_NEXT_ENTRY pxList k
     in rbind (name_matches 16 0 (pcTaskName (tcb k1 t)) pcNameToQuery) (\<lambda>m.
          if m \<and> t \<noteq> NULL then Inr (k1, t)
          else if t \<noteq> pxFirstTCB then (case n of 0 \<Rightarrow> Inl NoExit | Suc j \<Rightarrow> search_loop j pxFirstTCB pxList pcNameToQuery k1)
          else Inr (k1, NULL)))"

declare search_loop.simps [simp del]

definition prvSearchForNameWithinSingleList :: "u32 \<Rightarrow> u8 list \<Rightarrow> 'a kernel_scheme \<Rightarrow> ('a kernel_scheme \<times> u32) res" where
  "prvSearchForNameWithinSingleList pxList pcNameToQuery k =
    (if uxNumberOfItems (l_list k pxList) > 0
     then let (k1, pxFirstTCB) = listGET_OWNER_OF_NEXT_ENTRY pxList k
          in search_loop (unat (uxNumberOfItems (l_list k pxList))) pxFirstTCB pxList pcNameToQuery k1
     else Inr (k, NULL))"

fun search_ready :: "nat \<Rightarrow> u8 list \<Rightarrow> 'a kernel_scheme \<Rightarrow> ('a kernel_scheme \<times> u32) res" where
  "search_ready 0 pcNameToQuery k = Inr (k, NULL)"
| "search_ready (Suc uxQueue) pcNameToQuery k =
    rbind (prvSearchForNameWithinSingleList (ready_list (of_nat uxQueue) k) pcNameToQuery k) (\<lambda>(k1, t).
      if t \<noteq> NULL then Inr (k1, t) else search_ready uxQueue pcNameToQuery k1)"

definition or_search :: "('a kernel_scheme \<Rightarrow> u32) \<Rightarrow> u8 list \<Rightarrow> 'a kernel_scheme \<times> u32 \<Rightarrow> ('a kernel_scheme \<times> u32) res" where
  "or_search list_of pcNameToQuery r =
    (case r of (k, t) \<Rightarrow> if t = NULL then prvSearchForNameWithinSingleList (list_of k) pcNameToQuery k else Inr (k, t))"

definition name_length :: "u8 list \<Rightarrow> nat res" where
  "name_length s = (if 0 \<in> set s then Inr (length (takeWhile (\<lambda>c. c \<noteq> 0) s)) else Inl OutOfBounds)"

definition xTaskGetHandle :: "u8 list \<Rightarrow> 'a kernel_scheme \<Rightarrow> ('a kernel_scheme \<times> u32) res" where
  "xTaskGetHandle pcNameToQuery k =
    rbind (name_length pcNameToQuery) (\<lambda>n. dev_assert (n < 16)
     (rbind (search_ready 8 pcNameToQuery (vTaskSuspendAll k)) (\<lambda>r0.
      rbind (or_search pxDelayedTaskList pcNameToQuery r0) (\<lambda>r1.
      rbind (or_search pxOverflowDelayedTaskList pcNameToQuery r1) (\<lambda>r2.
      rbind (or_search xSuspendedTaskList pcNameToQuery r2) (\<lambda>r3.
      rbind (or_search xTasksWaitingTermination pcNameToQuery r3) (\<lambda>(k1, t).
      rbind (xTaskResumeAll k1) (\<lambda>(k2, _). Inr (k2, t)))))))))"

section \<open>Queues\<close>

definition xQueueGetMutexHolder :: "u32 \<Rightarrow> 'a qkernel_scheme \<Rightarrow> u32 res" where
  "xQueueGetMutexHolder xSemaphore k =
    dev_assert (xSemaphore \<noteq> NULL)
     (Inr (if pcHead (q_at k xSemaphore) = queueQUEUE_IS_MUTEX then xMutexHolder (q_at k xSemaphore) else NULL))"

definition xQueueGetMutexHolderFromISR :: "u32 \<Rightarrow> 'a qkernel_scheme \<Rightarrow> u32 res" where
  "xQueueGetMutexHolderFromISR xSemaphore k =
    dev_assert (xSemaphore \<noteq> NULL)
     (Inr (if pcHead (q_at k xSemaphore) = queueQUEUE_IS_MUTEX then xMutexHolder (q_at k xSemaphore) else NULL))"

definition uxQueueMessagesWaitingFromISR :: "u32 \<Rightarrow> 'a qkernel_scheme \<Rightarrow> u32 res" where
  "uxQueueMessagesWaitingFromISR pxQueue k = dev_assert (pxQueue \<noteq> NULL) (Inr (uxMessagesWaiting (q_at k pxQueue)))"

definition xQueueIsQueueEmptyFromISR :: "u32 \<Rightarrow> 'a qkernel_scheme \<Rightarrow> bool res" where
  "xQueueIsQueueEmptyFromISR pxQueue k = dev_assert (pxQueue \<noteq> NULL) (Inr (uxMessagesWaiting (q_at k pxQueue) = 0))"

definition xQueueIsQueueFullFromISR :: "u32 \<Rightarrow> 'a qkernel_scheme \<Rightarrow> bool res" where
  "xQueueIsQueueFullFromISR pxQueue k =
    dev_assert (pxQueue \<noteq> NULL) (Inr (uxMessagesWaiting (q_at k pxQueue) = uxLength (q_at k pxQueue)))"

fun registry_name :: "u32 \<Rightarrow> (u32 \<times> u32) list \<Rightarrow> u32" where
  "registry_name xQueue [] = NULL"
| "registry_name xQueue ((name, handle) # rs) = (if handle = xQueue then name else registry_name xQueue rs)"

definition pcQueueGetName :: "u32 \<Rightarrow> 'a tkernel_scheme \<Rightarrow> u32 res" where
  "pcQueueGetName xQueue k = dev_assert (xQueue \<noteq> NULL) (Inr (registry_name xQueue (xQueueRegistry k)))"

fun unregister :: "u32 \<Rightarrow> (u32 \<times> u32) list \<Rightarrow> (u32 \<times> u32) list" where
  "unregister xQueue [] = []"
| "unregister xQueue ((name, handle) # rs) = (if handle = xQueue then (NULL, 0) # rs else (name, handle) # unregister xQueue rs)"

definition vQueueUnregisterQueue :: "u32 \<Rightarrow> 'a tkernel_scheme \<Rightarrow> 'a tkernel_scheme res" where
  "vQueueUnregisterQueue xQueue k = dev_assert (xQueue \<noteq> NULL) (Inr (k\<lparr>xQueueRegistry := unregister xQueue (xQueueRegistry k)\<rparr>))"

definition vQueueDelete :: "u32 \<Rightarrow> u32 \<Rightarrow> 'a tkernel_scheme \<Rightarrow> 'a tkernel_scheme res" where
  "vQueueDelete xStart pxQueue k =
    dev_assert (pxQueue \<noteq> NULL)
     (rbind (vQueueUnregisterQueue pxQueue k) (\<lambda>k1.
      rbind (vPortFree xStart pxQueue (k_heap k1)) (\<lambda>h. Inr (k1\<lparr>k_heap := h\<rparr>))))"

text \<open>The registry: a registered queue has the name given last, an unregistered one has none.\<close>

lemma registry_slot_name:
  "registry_slot ux q rs found = Some i \<Longrightarrow>
    found = Some i \<and> q \<notin> snd ` set rs \<or> ux \<le> i \<and> i - ux < length rs \<and> registry_name q (rs[i - ux := (n, q)]) = n"
proof (induction ux q rs found rule: registry_slot.induct)
  case (2 ux q name handle rs found)
  show ?case
  proof (cases "q = handle")
    case False
    with "2.prems" have "registry_slot (Suc ux) q rs (if found = None \<and> name = NULL then Some ux else found) = Some i" by simp
    from "2.IH" [OF False this] show ?thesis
    proof
      assume a: "(if found = None \<and> name = NULL then Some ux else found) = Some i \<and> q \<notin> snd ` set rs"
      then show ?thesis using False by (cases "found = None \<and> name = NULL") auto
    next
      assume a: "Suc ux \<le> i \<and> i - Suc ux < length rs \<and> registry_name q (rs[i - Suc ux := (n, q)]) = n"
      then have "i - ux = Suc (i - Suc ux)" by arith
      then show ?thesis using a False by simp
    qed
  qed (use "2.prems" in simp)
qed simp

lemma registered_name:
  assumes "q \<noteq> NULL" "name \<noteq> NULL" "registry_slot 0 q (xQueueRegistry k) None = Some i"
  obtains k' where "vQueueAddToRegistry q name k = Inr k'" "pcQueueGetName q k' = Inr name"
  using that assms registry_slot_name [OF assms(3), of name] by (auto simp: vQueueAddToRegistry_def pcQueueGetName_def)

lemma registry_full: "registry_slot ux q rs None = None \<longleftrightarrow> q \<notin> snd ` set rs \<and> NULL \<notin> fst ` set rs"
proof (induction rs arbitrary: ux)
  case (Cons r rs)
  have some: "registry_slot ux q rs (Some i) \<noteq> None" for ux i rs by (induction ux q rs "Some i" rule: registry_slot.induct) auto
  obtain a b where r: "r = (a, b)" by (cases r)
  show ?case unfolding r using Cons.IH [of "Suc ux"] some [of "Suc ux" rs ux] by (cases "q = b"; cases "a = NULL"; simp; metis)
qed simp

lemma unregistered_name:
  assumes "q \<noteq> NULL" "distinct (filter (\<lambda>h. h \<noteq> NULL) (map snd (xQueueRegistry k)))"
  obtains k' where "vQueueUnregisterQueue q k = Inr k'" "pcQueueGetName q k' = Inr NULL"
    "length (xQueueRegistry k') = length (xQueueRegistry k)"
proof -
  have "registry_name q (unregister q rs) = NULL \<and> length (unregister q rs) = length rs"
    if "distinct (filter (\<lambda>h. h \<noteq> NULL) (map snd rs))" for rs
  proof -
    have absent: "q \<notin> snd ` set rs \<Longrightarrow> registry_name q rs = NULL" for rs by (induction q rs rule: registry_name.induct) auto
    show ?thesis using that
    proof (induction rs)
      case (Cons r rs)
      then show ?case using assms(1) absent [of rs] by (cases r) (auto split: if_splits)
    qed simp
  qed
  then show ?thesis using that assms by (simp add: vQueueUnregisterQueue_def pcQueueGetName_def)
qed

section \<open>What a search finds\<close>

lemma name_matches_iff:
  assumes "0 \<in> set (take n (drop x name))" "0 \<in> set (take n (drop x q))"
  shows "name_matches n x name q = Inr (takeWhile (\<lambda>c. c \<noteq> 0) (drop x name) = takeWhile (\<lambda>c. c \<noteq> 0) (drop x q))"
  using assms
proof (induction n arbitrary: x)
  case (Suc n)
  have l: "x < length name" "x < length q" using Suc.prems by (metis drop_eq_Nil empty_iff list.set(1) not_le take_Nil)+
  have d: "drop x name = name ! x # drop (Suc x) name" "drop x q = q ! x # drop (Suc x) q" using l by (simp_all add: Cons_nth_drop_Suc)
  show ?case using Suc l unfolding d by (auto simp: l)
qed simp

definition has_name :: "u8 list \<Rightarrow> u8 list \<Rightarrow> bool" where
  "has_name q name \<longleftrightarrow> takeWhile (\<lambda>c. c \<noteq> 0) name = takeWhile (\<lambda>c. c \<noteq> 0) q"

lemma list_at_index:
  assumes "list_at h L xs" "x \<in> set xs"
  shows "list_at (upd_list L (\<lambda>l. l\<lparr>pxIndex := x\<rparr>) h) L xs" (is "list_at ?h L xs")
proof -
  have "Freertos_List.linked ?h ys = Freertos_List.linked h ys" for ys by (rule linked_cong) (simp_all add: upd_list_def)
  then show ?thesis using assms by (simp add: list_at_def Let_def upd_list_def)
qed

text \<open>The part \<open>us\<close> of the turn order is still to be searched.\<close>

lemma search_loop_finds:
  fixes k :: "'a kernel_scheme"
  assumes "list_at k L xs" "turn_order k L xs = us @ vs" "us \<noteq> []" "first = owner k (last us)" "length us \<le> Suc m"
    and "\<forall>x \<in> set us. owner k x \<noteq> NULL \<and> 0 \<in> set (take 16 (pcTaskName (tcb k (owner k x))))" "inj_on (owner k) (set us)" "distinct us" "0 \<in> set (take 16 q)"
  obtains k' where "search_loop m first L q k = Inr (k', case find (\<lambda>x. has_name q (pcTaskName (tcb k (owner k x)))) us of None \<Rightarrow> NULL | Some x \<Rightarrow> owner k x)"
    "list_at k' L xs" "\<exists>g. k' = k\<lparr>l_list := g\<rparr>"
proof -
  let ?R = "\<lambda>us m (k :: 'a kernel_scheme). \<exists>k'. search_loop m first L q k =
      Inr (k', case find (\<lambda>x. has_name q (pcTaskName (tcb k (owner k x)))) us of None \<Rightarrow> NULL | Some x \<Rightarrow> owner k x) \<and> list_at k' L xs \<and> (\<exists>g. k' = k\<lparr>l_list := g\<rparr>)"
  have "?R us m k" using assms
  proof (induction us arbitrary: k vs m)
    case (Cons u us)
    have ne: "xs \<noteq> []" using Cons.prems(2) by (auto simp: turns_def)
    have h: "hd (turn_order k L xs) = u" using Cons.prems(2) by simp
    have "set (turn_order k L xs) = set xs" by simp
    then have ux: "u \<in> set xs" unfolding Cons.prems(2) by auto
    obtain k1 where k1: "listGET_OWNER_OF_NEXT_ENTRY L k = (k1, owner k u)" "k1 = upd_list L (\<lambda>l. l\<lparr>pxIndex := u\<rparr>) k"
      "turn_order k1 L xs = rotate1 (turn_order k L xs)" by (rule next_entry [OF Cons.prems(1) ne, unfolded h])
    have f: "tcb k1 = tcb k" "l_item k1 = l_item k" "\<exists>g. k1 = k\<lparr>l_list := g\<rparr>" unfolding k1(2) by (auto simp: upd_list_def)
    have at1: "list_at k1 L xs" unfolding k1(2) by (rule list_at_index [OF Cons.prems(1) ux])
    have nm: "name_matches 16 0 (pcTaskName (tcb k1 (owner k u))) q = Inr (has_name q (pcTaskName (tcb k (owner k u))))"
      using name_matches_iff [of 16 0 _ q] Cons.prems(6,9) by (simp add: has_name_def f)
    have nn: "owner k u \<noteq> NULL" using Cons.prems(6) by simp
    show ?case
    proof (cases "has_name q (pcTaskName (tcb k (owner k u)))")
      case True
      then show ?thesis using k1(1) nm nn at1 f(3) by (subst search_loop.simps) simp
    next
      case no: False
      show ?thesis
      proof (cases "us = []")
        case True
        then show ?thesis using k1(1) nm no Cons.prems(4) at1 f(3) by (subst search_loop.simps) simp
      next
        case False
        have "owner k u \<noteq> first"
        proof
          assume "owner k u = first"
          then have "u = last us" using Cons.prems(4,7) False by (auto simp: inj_on_def)
          then show False using Cons.prems(8) False by simp
        qed
        moreover obtain j where j: "m = Suc j" "length us \<le> Suc j" using Cons.prems(5) False by (cases m) auto
        moreover have pre: "turn_order k1 L xs = us @ (vs @ [u])" "first = owner k1 (last us)"
          "\<forall>x \<in> set us. owner k1 x \<noteq> NULL \<and> 0 \<in> set (take 16 (pcTaskName (tcb k1 (owner k1 x))))" "inj_on (owner k1) (set us)" "distinct us"
          using Cons.prems(2,4,6,7,8) False k1(3) unfolding f(1,2) by (simp_all add: inj_on_def)
        obtain k' g where k': "search_loop j first L q k1 =
            Inr (k', case find (\<lambda>x. has_name q (pcTaskName (tcb k (owner k x)))) us of None \<Rightarrow> NULL | Some x \<Rightarrow> owner k x)" "list_at k' L xs" "k' = k1\<lparr>l_list := g\<rparr>"
          using Cons.IH [OF at1 pre(1) False pre(2) j(2) pre(3-5) Cons.prems(9)] unfolding f(1,2) by blast
        moreover have "\<exists>g. k' = k\<lparr>l_list := g\<rparr>" using k'(3) f(3) by auto
        ultimately show ?thesis using k1(1) nm no by (subst search_loop.simps) simp
      qed
    qed
  qed simp
  then show ?thesis using that by blast
qed

text \<open>A search of one list returns the first task of that name in the order of the round robin, starting with the second, or null.\<close>

lemma search_list_finds:
  fixes k :: "'a kernel_scheme"
  assumes at: "list_at k L xs" and inj: "inj_on (owner k) (set xs)" and q: "0 \<in> set (take 16 q)"
    and ok: "\<forall>x \<in> set xs. owner k x \<noteq> NULL \<and> 0 \<in> set (take 16 (pcTaskName (tcb k (owner k x))))"
  obtains k' where "prvSearchForNameWithinSingleList L q k = Inr (k', case find (\<lambda>x. has_name q (pcTaskName (tcb k (owner k x)))) (rotate1 (turn_order k L xs)) of
      None \<Rightarrow> NULL | Some x \<Rightarrow> owner k x)" "list_at k' L xs" "\<exists>g. k' = k\<lparr>l_list := g\<rparr>"
proof (cases "xs = []")
  case True
  then have "prvSearchForNameWithinSingleList L q k = Inr (k, NULL)" using at by (simp add: prvSearchForNameWithinSingleList_def list_at_def Let_def)
  moreover have "\<exists>g. k = k\<lparr>l_list := g\<rparr>" by (rule exI [of _ "l_list k"]) simp
  ultimately show ?thesis using that [of k] at True by (simp add: turns_def)
next
  case False
  let ?T = "turn_order k L xs"
  have n: "uxNumberOfItems (l_list k L) = of_nat (length xs)" "length xs < 2 ^ 32" "distinct xs" using at by (simp_all add: list_at_def Let_def)
  then have u: "unat (uxNumberOfItems (l_list k L)) = length xs" by (simp add: unat_of_nat_u32)
  then have pos: "uxNumberOfItems (l_list k L) > 0" using False by (metis length_0_conv unat_0 word_neq_0_conv)
  have T: "set ?T = set xs" "length ?T = length xs" by simp_all
  have dT: "distinct ?T" using n(3) T by (metis card_distinct distinct_card)
  have neT: "?T \<noteq> []" using T(2) False by (metis length_0_conv)
  have hd: "hd ?T \<in> set xs" using neT T(1) hd_in_set by blast
  obtain k1 where k1: "listGET_OWNER_OF_NEXT_ENTRY L k = (k1, owner k (hd ?T))" "k1 = upd_list L (\<lambda>l. l\<lparr>pxIndex := hd ?T\<rparr>) k" "turn_order k1 L xs = rotate1 ?T"
    by (rule next_entry [OF at False])
  have f: "tcb k1 = tcb k" "l_item k1 = l_item k" "\<exists>g. k1 = k\<lparr>l_list := g\<rparr>" unfolding k1(2) by (auto simp: upd_list_def)
  have at1: "list_at k1 L xs" unfolding k1(2) by (rule list_at_index [OF at hd])
  have l: "last (rotate1 ?T) = hd ?T" using neT by (cases ?T) simp_all
  obtain k' where k': "search_loop (length xs) (owner k (hd ?T)) L q k1 = Inr (k', case find (\<lambda>x. has_name q (pcTaskName (tcb k1 (owner k1 x)))) (rotate1 ?T) of
      None \<Rightarrow> NULL | Some x \<Rightarrow> owner k1 x)" "list_at k' L xs" "\<exists>g. k' = k1\<lparr>l_list := g\<rparr>"
    by (rule search_loop_finds [OF at1, of "rotate1 ?T" "[]" "owner k (hd ?T)" "length xs" q])
      (use k1(3) neT l T dT inj ok q in \<open>simp_all add: f(1,2)\<close>)
  have "prvSearchForNameWithinSingleList L q k = Inr (k', case find (\<lambda>x. has_name q (pcTaskName (tcb k (owner k x)))) (rotate1 ?T) of
      None \<Rightarrow> NULL | Some x \<Rightarrow> owner k x)"
    using k1(1) k'(1) pos unfolding prvSearchForNameWithinSingleList_def u f(1,2) by simp
  moreover have "\<exists>g. k' = k\<lparr>l_list := g\<rparr>" using k'(3) f(3) by auto
  ultimately show ?thesis using that k'(2) by blast
qed

end
