(* ===== verification/Spec2Isabelle.thy ===== *)
theory Spec2Isabelle
  imports Gw_Can Sched_System Freertos_Queries
begin

text \<open>
  \<^bold>\<open>A CAN to TSN aggregation gateway for the NXP S32G399 (Cortex-M7).\<close>

  The program receives CAN FD frames on two FlexCAN controllers, maps their identifiers to I-PDUs, packs I-PDUs
  into containers and sends the containers as raw Ethernet frames while the gate of their traffic class is open.
  FreeRTOS provides tasks and queues; the vendor drivers (RTD) provide FlexCAN, the Ethernet MAC and its DMA rings.

  \<^bold>\<open>Data flow.\<close> The polling task (\<open>CAN_Receive_Polling_Task\<close>, \<open>src/src/FlexCAN_SKKU.c\<close>) polls the receive
  mailboxes through \<open>FlexCAN_Ip_MainFunctionRead\<close>. The driver reads a frame out of the message RAM and calls
  \<open>CAN0_Callback_SKKU\<close>, which arms the mailbox again and sends the message to the FreeRTOS queue \<open>xQueue_CAN\<close>. The
  transmit task \<open>ETH_PDU_Send_TAS\<close> takes messages out of the queue, packs them into the current container and hands
  the container to \<open>Eth_ProvideTxBuffer\<close> and \<open>Eth_Transmit\<close> when it is full or the gate is open. The DMA fetches the
  frame from the descriptor ring, and the transmit interrupt reports it and releases the descriptor.

  \<^bold>\<open>Theories, bottom up.\<close>

  \<^item> \<open>Gw_Prelude\<close>: machine words, the result type with its three faults (failed assertion, access out of bounds,
    endless loop), byte-addressed memory, block copies.
  \<^item> \<open>Gw_Tas\<close>: the pure helpers of \<open>FlexCAN_SKKU.c\<close> (data length codes, identifier map, 4 KB page checks) and the gate
    decision of the time-aware shaper from the MAC clock registers.
  \<^item> \<open>Freertos_List\<close>: \<open>list.c\<close> at pointer level over a typed heap; the operations refine operations on lists.
  \<^item> \<open>Freertos_Tasks\<close>: the scheduler state of \<open>tasks.c\<close> that queues need: ready, delayed, pending and event lists, ticks,
    suspension, time-outs, delays and priority inheritance.
  \<^item> \<open>Freertos_Heap\<close>, \<open>Allocator_Spec\<close>, \<open>Heap_Refine\<close>: \<open>heap_4.c\<close> at pointer level, the contract of an allocator as
    a locale, and the refinement of the free list by a sequence of tiles, which interprets the locale.
  \<^item> \<open>Freertos_Task_Ops\<close>: the rest of \<open>tasks.c\<close> on tasks (creation, deletion, states, priorities, suspension, notifications,
    start of the scheduler, idle task) and the context switch, tick and first stack frame of \<open>port.c\<close>.
  \<^item> \<open>Freertos_Sched\<close>, \<open>Sched_Place\<close>, \<open>Sched_Refine\<close>: the lists of the kernel as a map from lists to items, the place of
    every task (ready, suspended, or asleep for a number of ticks), the invariant that ties the two, and what each operation does to the
    places.
  \<^item> \<open>Freertos_Timers\<close>, \<open>Timer_Refine\<close>: \<open>timers.c\<close>, and its timers as expiry times counted without bound.
  \<^item> \<open>Freertos_Queries\<close>: what remains of \<open>tasks.c\<close> and \<open>queue.c\<close>: names and the search by name, thread local storage, stack
    marks, the registry of queues and their deletion.
  \<^item> \<open>Step_Spec\<close>, \<open>Sched_Memory\<close>, \<open>Sched_Steps\<close>, \<open>Sched_System\<close>: the contract of a system of steps as a locale; tasks with
    their memory from the heap, from the first creation over the start to the running system; the steps of that system
    and their simulation by changes of places, which interprets the locale; and the theorems about whole runs.
  \<^item> \<open>Fifo_Spec\<close> and \<open>Freertos_Queue\<close>: the contract of a bounded FIFO as a locale, with the client lemmas proved once
    from it, and \<open>queue.c\<close>, which interprets the locale.
  \<^item> \<open>Gmac_Ring\<close>, \<open>Eth_Driver\<close>, \<open>Eth_Fifo\<close>, \<open>Eth_Dma\<close>: the descriptor rings of \<open>Gmac_Ip.c\<close>, the driver operations of
    \<open>Eth.c\<close> and \<open>Eth_Ipw.c\<close>, the transmit path as a FIFO of outstanding buffers, and the interplay with the DMA.
  \<^item> \<open>Gw_Msg\<close>, \<open>Container_Spec\<close>, \<open>Gw_Container\<close>, \<open>Gw_Pass\<close>, \<open>Gw_System\<close>: the message structure, the container format
    with its decoder, one pass of the transmit task, its refinement of an abstract pass on lists of I-PDUs, and the
    system in which arrivals, passes, DMA fetches and interrupts interleave.
  \<^item> \<open>Flexcan_Hw\<close>, \<open>Flexcan_Mb\<close>, \<open>Flexcan_Drv\<close>, \<open>Can_Bus\<close>, \<open>Gw_Can\<close>: the register level of FlexCAN (layout and contents of
    message buffers), the driver's message buffer handles, what the controllers do with registers and message RAM when a
    frame arrives or leaves, and the two CAN tasks with the callback, connected to the system.

  \<^bold>\<open>State.\<close> Each structure of the source is a record with the source's field names (prefixed where a name is taken
  in HOL): \<open>Queue_t\<close>, \<open>TCB_t\<close>, the list heap, \<open>Gmac_Ip_BufferDescriptorType\<close>, \<open>Flexcan_Ip_StateType\<close>,
  \<open>Flexcan_Ip_MsgBuffType\<close> and so on. Pointers to objects are 32-bit words, 0 is the null pointer; hardware registers
  that the code reads or writes are record fields. Machine integers keep their width. An operation is a function from
  the state to a result; \<open>Inl\<close> values are the ways in which the C program would stop or leave defined behaviour, and
  returned error codes are ordinary values.

  \<^bold>\<open>What is shown.\<close>

  \<^item> End to end (\<open>Gw_System\<close>): a run records for each pass the bytes of the container it decided to send and the frames it
    appended to the descriptors that the DMA owns. For every interleaving, the I-PDUs accepted by the queue are, in order, those of the
    containers formed and those still held; the frames on the wire and in flight are exactly those handed over, one for each container
    that was given a buffer; the counters count these frames, the containers that got no buffer and the refused messages; a
    receiver decodes the frames; nothing faults; a pending container is handed over when the gate is open.
  \<^item> From the mailboxes to the queue (\<open>Gw_Can\<close>): polling rounds offer each received frame once, in polling order, except
    that the first frame of each mailbox is lost, which is a defect of the source; and from the transmit task to the bus: each counter
    value leaves in one frame.
  \<^item> Message RAM (\<open>Flexcan_Hw\<close>, \<open>Flexcan_Mb\<close>): message buffers never overlap; writing and reading a buffer is a round trip.
  \<^item> Ethernet (\<open>Gmac_Ring\<close>, \<open>Eth_Fifo\<close>, \<open>Eth_Dma\<close>): buffers are granted to one user at a time, the driver never touches a
    descriptor that the DMA owns, a transmitted frame is what the caller wrote, reports are exact and end.
  \<^item> FreeRTOS: queues refine bounded FIFOs, list operations refine list functions, time-outs and delays are exact across
    the wrap-around of the tick counter.
  \<^item> FreeRTOS heap (\<open>Heap_Refine\<close>): allocation is first fit with splitting, release joins neighbours, returned blocks are aligned,
    inside the heap and disjoint, any client that releases what it holds keeps the heap well-formed; the statistics read
    behind the last block when nothing is free.
  \<^item> FreeRTOS scheduler (\<open>Sched_System\<close>): from start-up on, any sequence of creations, start, interrupts, delays, suspensions, resumptions,
    priority changes and notifications returns without a fault, and a task that runs with no switch pending
    has the highest priority of all ready tasks; tasks of equal priority take turns; a delay ends at exactly the tick asked for.
  \<^item> FreeRTOS timers (\<open>Timer_Refine\<close>): an auto-reload timer calls its callback once for each expiry, late ones included, and starts,
    resets and reloads compute the right expiry across the wrap-around of the tick counter.
  \<^item> Gate control (\<open>Gw_Tas\<close>): the open windows, the exactness of the remaining time, and the disagreement of the two
    descriptions of the window in the source.

  \<^bold>\<open>Loops.\<close> A loop of the source over a data structure has a bound that a well-formed state guarantees, and running out
  of it is the fault \<open>NoExit\<close>; the theorems show that it does not happen. The search of \<open>vListInsert\<close> takes at most as
  many rounds as the list has items, the tick loop as many as there are delayed tasks, the loop of
  \<open>xTaskResumeAll\<close> as many as there are pending tasks, the report loop one more than the entries of the buffer map. The
  loops over free blocks have 8192 rounds, which is the number of 8-byte units in the heap; the reload loop of a timer has as many rounds as ticks
  passed since its expiry, the loop that empties the timer list before a switch as many as the list has items; the
  command loop of the timer task has a given number of rounds, because other tasks may go on sending while it runs. The
  endless loops of tasks are modelled one round at a time; the loops over mailboxes are list recursions.

  \<^bold>\<open>Assumptions.\<close> A step of the system is atomic: a task pass, a callback, an interrupt or a DMA fetch is not
  interrupted half-way. In the source this holds for the queue operations, which mask interrupts; the Ethernet driver
  takes no exclusive area of its own. In the system of \<open>Sched_System\<close> a call of a task is one step, because the calls mask interrupts
  or suspend the scheduler, and waits for a notification are two; the idle task neither blocks nor is suspended, handles come from
  earlier creations, and blocking on queues and deletion of tasks are outside that system. CAN controllers act between the rounds of a
  task, not during one: a received frame fills the words of its message buffer, overwriting what was there, and raises its flag; a message buffer
  is sent only when its code field marks it as a pending data frame, and then becomes inactive with its flag raised. Memory of a queue is an argument
  of its creation, except for the queue of the timer task, whose memory comes from the modelled heap; the values of clock
  registers and the addresses that the linker chooses are arguments.

  \<^bold>\<open>Not modelled.\<close> Application start (\<open>main.c\<close>, \<open>device.c\<close>), the PTP and TSN set-up of \<open>ETH_SKKU.c\<close>, which does not
  run; static creation, task listings, tracing, queue sets and run-time statistics of FreeRTOS, which its configuration leaves out; its event groups, stream buffers and co-routines, which
  the application does not use; interrupt masking and timer set-up of the port; the receive FIFOs,
  initialisation, blocking and error handling of FlexCAN; filters, VLAN, MDIO and time functions of the MAC; lwIP, which the
  gateway does not call; clock, power, pin and interrupt drivers and the generated configuration.
\<close>

end
